(* ===== verification/Prelude.thy ===== *)
theory Prelude
  imports Main "HOL-Library.Word"
begin

text \<open>
  What every theory of the development shares: the machine types of the Go
  sources (bytes, \<open>uint32\<close>, \<open>uint64\<close>), the little-endian codec of
  \<open>encoding/binary\<close>, errors as the list of sentinels they wrap, instants,
  files as \<open>io.ReaderAt\<close> sees them, and the generic facts about words and
  lists the components use.
\<close>

unbundle bit_operations_syntax

named_theorems codec_simps \<open>reading back what was appended, field by field\<close>

section \<open>Machine types\<close>

type_synonym byte = "8 word"
type_synonym u16 = "16 word"
type_synonym u32 = "32 word"
type_synonym u64 = "64 word"

text \<open>
  Go strings are byte sequences; identifiers, names and payloads are byte lists.
  \<open>byte(n)\<close>, \<open>uint32(n)\<close> and \<open>uint64(n)\<close> keep the low bits, as
  \<^const>\<open>of_nat\<close> and \<^const>\<open>of_int\<close> into a word do.
\<close>

section \<open>Little-endian fields\<close>

primrec le_bytes :: "nat \<Rightarrow> 'a::len word \<Rightarrow> byte list" where
  "le_bytes 0 v = []"
| "le_bytes (Suc n) v = ucast v # le_bytes n (drop_bit 8 v)"

primrec le_word :: "byte list \<Rightarrow> 'a::len word" where
  "le_word [] = 0"
| "le_word (b # bs) = ucast b OR push_bit 8 (le_word bs)"

definition AppendUint16 :: "byte list \<Rightarrow> u16 \<Rightarrow> byte list" where
  "AppendUint16 b v = b @ le_bytes 2 v"

definition AppendUint32 :: "byte list \<Rightarrow> u32 \<Rightarrow> byte list" where
  "AppendUint32 b v = b @ le_bytes 4 v"

definition AppendUint64 :: "byte list \<Rightarrow> u64 \<Rightarrow> byte list" where
  "AppendUint64 b v = b @ le_bytes 8 v"

definition Uint16 :: "byte list \<Rightarrow> u16" where
  "Uint16 b = le_word (take 2 b)"

definition Uint32 :: "byte list \<Rightarrow> u32" where
  "Uint32 b = le_word (take 4 b)"

definition Uint64 :: "byte list \<Rightarrow> u64" where
  "Uint64 b = le_word (take 8 b)"

lemmas append_defs = AppendUint16_def AppendUint32_def AppendUint64_def

lemma length_le_bytes [simp]: "length (le_bytes n v) = n"
  by (induction n arbitrary: v) auto

lemma length_append_uint [simp]:
  "length (AppendUint16 b v) = length b + 2"
  "length (AppendUint32 b w) = length b + 4"
  "length (AppendUint64 b x) = length b + 8"
  by (simp_all add: append_defs)

lemma byte_bit_bound: "bit (b :: byte) n \<Longrightarrow> n < 8"
  using bit_imp_le_length [of b n] by simp

lemma bit_le_word:
  "bit (le_word bs :: 'a::len word) n \<longleftrightarrow>
     n < LENGTH('a) \<and> n < 8 * length bs \<and> bit (bs ! (n div 8)) (n mod 8)"
proof (induction bs arbitrary: n)
  case (Cons b bs)
  show ?case
    by (cases "n < 8")
      (auto simp: Cons bit_simps nth_Cons' le_div_geq le_mod_geq dest: byte_bit_bound)
qed simp

lemma le_bytes_nth: "i < n \<Longrightarrow> le_bytes n v ! i = ucast (drop_bit (8 * i) v)"
  by (induction n arbitrary: v i)
    (auto simp: nth_Cons' drop_bit_drop_bit algebra_simps
      simp flip: mult_Suc_right split: nat_diff_split)

lemma le_word_le_bytes: "le_word (le_bytes n v) = take_bit (8 * n) (v :: 'a::len word)"
  by (rule bit_word_eqI) (auto simp: bit_le_word le_bytes_nth bit_simps)

lemma le_bytes_le_word:
  "8 * length bs \<le> LENGTH('a) \<Longrightarrow> le_bytes (length bs) (le_word bs :: 'a::len word) = bs"
  by (rule nth_equalityI)
    (auto intro!: bit_word_eqI simp: le_bytes_nth bit_le_word bit_simps)

text \<open>A field is read back whole, whatever follows it.\<close>

lemma Uint_le_bytes [codec_simps]:
  "Uint16 (le_bytes 2 v @ r) = v"
  "Uint32 (le_bytes 4 w @ r) = w"
  "Uint64 (le_bytes 8 x @ r) = x"
  by (simp_all add: Uint16_def Uint32_def Uint64_def le_word_le_bytes take_bit_word_eq_self)

lemma Uint_le_bytes_end [codec_simps]:
  "Uint16 (le_bytes 2 v) = v"
  "Uint32 (le_bytes 4 w) = w"
  "Uint64 (le_bytes 8 x) = x"
  using Uint_le_bytes [where r = "[]"] by simp_all

text \<open>And what a field was read from is what is appended for it again.\<close>

lemma le_bytes_Uint:
  "length b \<ge> 2 \<Longrightarrow> le_bytes 2 (Uint16 b) = take 2 b"
  "length b \<ge> 4 \<Longrightarrow> le_bytes 4 (Uint32 b) = take 4 b"
  "length b \<ge> 8 \<Longrightarrow> le_bytes 8 (Uint64 b) = take 8 b"
  using le_bytes_le_word [of "take 2 b", where 'a = 16] le_bytes_le_word [of "take 4 b", where 'a = 32]
    le_bytes_le_word [of "take 8 b", where 'a = 64]
  by (simp_all add: Uint16_def Uint32_def Uint64_def min_absorb2)

section \<open>Errors\<close>

text \<open>
  A Go error is modelled by the sentinels \<open>errors.Is\<close> finds in its chain, outermost
  first: \<open>fmt.Errorf("%w: %w", a, b)\<close> and \<open>errors.Join(a, b)\<close> are
  \<open>a @ b\<close>, and wrapping with a text adds nothing. What it reads like is not modelled.
\<close>

type_synonym 't err = "'t list"

definition Is :: "'t err \<Rightarrow> 't \<Rightarrow> bool" where
  "Is e t \<longleftrightarrow> t \<in> set e"

definition IsSome :: "'t err option \<Rightarrow> 't \<Rightarrow> bool" where
  "IsSome e t = (case e of None \<Rightarrow> False | Some e \<Rightarrow> Is e t)"

definition JoinErr :: "'t err option \<Rightarrow> 't err option \<Rightarrow> 't err option" where
  "JoinErr a b =
     (case a of None \<Rightarrow> b | Some x \<Rightarrow> (case b of None \<Rightarrow> Some x | Some y \<Rightarrow> Some (x @ y)))"

lemma Is_simps [simp]:
  "\<not> Is [] t"
  "Is (x # e) t \<longleftrightarrow> x = t \<or> Is e t"
  "Is (e @ f) t \<longleftrightarrow> Is e t \<or> Is f t"
  by (auto simp: Is_def)

lemma IsSome_simps [simp]:
  "\<not> IsSome None t"
  "IsSome (Some e) t \<longleftrightarrow> Is e t"
  by (simp_all add: IsSome_def)

lemma JoinErr_None [simp]: "JoinErr a b = None \<longleftrightarrow> a = None \<and> b = None"
  by (auto simp: JoinErr_def split: option.splits)

lemma JoinErr_simps [simp]: "JoinErr None b = b" "JoinErr a None = a"
  by (simp_all add: JoinErr_def split: option.splits)

section \<open>Time\<close>

text \<open>
  An instant is its nanoseconds since the Unix epoch and a \<open>time.Duration\<close> is a
  number of nanoseconds. The zero \<open>time.Time\<close>, which \<open>IsZero\<close> finds, is the
  first instant of year 1.
\<close>

type_synonym time = int
type_synonym duration = int

definition zero_time :: time where
  "zero_time = - 62135596800 * 1000000000"

definition Second :: duration where "Second = 1000000000"
definition Minute :: duration where "Minute = 60 * Second"
definition Hour :: duration where "Hour = 60 * Minute"

lemmas duration_defs = Second_def Minute_def Hour_def

section \<open>Words as numbers\<close>

lemma unat_less_iff: "x < (y :: 'a::len word) \<longleftrightarrow> unat x < unat y"
  by (rule word_less_nat_alt)

lemma unat_le_iff: "x \<le> (y :: 'a::len word) \<longleftrightarrow> unat x \<le> unat y"
  by (rule word_le_nat_alt)

lemma unat_minus: "y \<le> (x :: 'a::len word) \<Longrightarrow> unat (x - y) = unat x - unat y"
  by (rule unat_sub)

lemma unat_plus:
  "unat x + unat y < 2 ^ LENGTH('a) \<Longrightarrow> unat (x + y :: 'a::len word) = unat x + unat y"
  by (simp add: unat_word_ariths)

lemma unat_max: "unat (max x (y :: 'a::len word)) = max (unat x) (unat y)"
  by (simp add: max_def unat_le_iff)

lemma unat_min: "unat (min x (y :: 'a::len word)) = min (unat x) (unat y)"
  by (simp add: min_def unat_le_iff)

lemmas unat_order = unat_less_iff unat_le_iff unat_max unat_min

lemma word_Suc:
  assumes "(a :: u64) < b"
  shows "a + 1 \<le> b" "a < a + 1" "s < a + 1 \<Longrightarrow> s \<le> a" "unat (a + 1) = unat a + 1"
proof -
  have "unat a < unat b" using assms by (simp add: unat_order)
  then have "unat a + 1 < 2 ^ 64" using unsigned_less [of b, where 'a = nat] by simp
  then show "unat (a + 1) = unat a + 1" by (subst unat_plus) simp_all
  then show "a + 1 \<le> b" "a < a + 1" "s < a + 1 \<Longrightarrow> s \<le> a" using assms by (simp_all add: unat_order)
qed

end
