(* ===== verification/Strings.thy ===== *)
theory Strings
  imports Prelude
begin

text \<open>
  What the sources use of \<open>strings\<close>, \<open>strconv\<close>, \<open>fmt\<close> and \<open>encoding/hex\<close>: cutting, splitting and
  comparing text, and numbers as digits, with the facts that read a printed number back.
\<close>

section \<open>Digits\<close>

text \<open>\<open>%020d\<close>: a \<open>uint64\<close> has at most twenty digits.\<close>

primrec decimal :: "nat \<Rightarrow> nat \<Rightarrow> string" where
  "decimal 0 n = []"
| "decimal (Suc k) n = decimal k (n div 10) @ [char_of (48 + n mod 10)]"

definition is_digit :: "char \<Rightarrow> bool" where
  "is_digit c \<longleftrightarrow> 48 \<le> (of_char c :: nat) \<and> (of_char c :: nat) \<le> 57"

definition is_hex :: "char \<Rightarrow> bool" where
  "is_hex c \<longleftrightarrow> is_digit c \<or> 97 \<le> (of_char c :: nat) \<and> (of_char c :: nat) \<le> 102"

text \<open>\<open>strconv.AppendInt\<close> of a number that is not negative.\<close>

fun FormatNat :: "nat \<Rightarrow> string" where
  "FormatNat n = (if n < 10 then [char_of (48 + n)] else FormatNat (n div 10) @ [char_of (48 + n mod 10)])"

declare FormatNat.simps [simp del]

text \<open>\<open>strconv.ParseUint(digits, 10, 64)\<close>, of digits only.\<close>

definition digits_value :: "string \<Rightarrow> nat" where
  "digits_value ds = foldl (\<lambda>n c. 10 * n + (of_char c - 48)) 0 ds"

definition ParseUint :: "string \<Rightarrow> u64 option" where
  "ParseUint ds = (if digits_value ds < 2 ^ 64 then Some (of_nat (digits_value ds)) else None)"

definition hex_digit :: "nat \<Rightarrow> char" where
  "hex_digit n = char_of (if n < 10 then 48 + n else 87 + n)"

definition EncodeToString :: "byte list \<Rightarrow> string" where
  "EncodeToString bs = concat (map (\<lambda>b. [hex_digit (unat b div 16), hex_digit (unat b mod 16)]) bs)"

section \<open>Reading digits back\<close>

lemma length_decimal [simp]: "length (decimal k n) = k"
  by (induction k arbitrary: n) auto

lemma digit_char: "n < 10 \<Longrightarrow> (of_char (char_of (48 + n) :: char) :: nat) = 48 + n"
  by simp

lemma decimal_digits: "list_all is_digit (decimal k n)"
proof (induction k arbitrary: n)
  case (Suc k)
  have "n mod 10 < 10" by simp
  then have "is_digit (char_of (48 + n mod 10))"
    unfolding is_digit_def digit_char [OF \<open>n mod 10 < 10\<close>] by linarith
  with Suc show ?case by simp
qed simp

lemma digits_value_snoc: "digits_value (ds @ [c]) = 10 * digits_value ds + (of_char c - 48)"
  by (simp add: digits_value_def)

lemma digits_value_decimal: "digits_value (decimal k n) = n mod 10 ^ k"
proof (induction k arbitrary: n)
  case 0
  then show ?case by (simp add: digits_value_def)
next
  case (Suc k)
  have "n mod 10 < 10" by simp
  then have "digits_value (decimal (Suc k) n) = 10 * (n div 10 mod 10 ^ k) + n mod 10"
    by (simp add: digits_value_snoc Suc)
  also have "\<dots> = n mod 10 ^ Suc k"
    by (simp add: mod_mult2_eq [of n 10] mult.commute)
  finally show ?case .
qed

lemma decimal_digits_value:
  assumes "list_all is_digit ds"
  shows "decimal (length ds) (digits_value ds) = ds" "digits_value ds < 10 ^ length ds"
proof -
  have "decimal (length ds) (digits_value ds) = ds \<and> digits_value ds < 10 ^ length ds"
    using assms
  proof (induction ds rule: rev_induct)
    case (snoc c ds)
    define d :: nat where "d = of_char c - 48"
    have c: "d < 10" "char_of (48 + d) = c"
      using snoc.prems by (auto simp: d_def is_digit_def)
    have v: "digits_value (ds @ [c]) = 10 * digits_value ds + d" by (simp add: digits_value_snoc d_def)
    have "(10 * digits_value ds + d) div 10 = digits_value ds" "(10 * digits_value ds + d) mod 10 = d"
      using c(1) by auto
    then show ?case using snoc c by (simp add: v)
  qed (simp add: digits_value_def)
  then show "decimal (length ds) (digits_value ds) = ds" "digits_value ds < 10 ^ length ds" by simp_all
qed

lemma digits_value_low:
  assumes "list_all is_digit (c # ds)" "c \<noteq> CHR ''0''"
  shows "10 ^ length ds \<le> digits_value (c # ds)"
  using assms(1)
proof (induction ds rule: rev_induct)
  case Nil
  have "char_of (48 :: nat) = CHR ''0''" by (simp add: char_of_def bit_0)
  then have "(of_char c :: nat) \<noteq> 48" using assms(2) char_of_char [of c, where 'a = nat] by metis
  then show ?case using Nil by (auto simp: digits_value_def is_digit_def)
next
  case (snoc d ds)
  then show ?case using digits_value_snoc [of "c # ds" d] by simp
qed

text \<open>Digits without a leading zero are determined by their value.\<close>

lemma digits_value_inj:
  assumes "list_all is_digit a" "list_all is_digit b" "a \<noteq> []" "b \<noteq> []"
    and "length a > 1 \<Longrightarrow> hd a \<noteq> CHR ''0''" "length b > 1 \<Longrightarrow> hd b \<noteq> CHR ''0''"
    and "digits_value a = digits_value b"
  shows "a = b"
proof -
  have low: "10 ^ (length ds - 1) \<le> digits_value ds"
    if "list_all is_digit ds" "length ds > 1" "hd ds \<noteq> CHR ''0''" for ds
    using that digits_value_low [of "hd ds" "tl ds"] by (cases ds) auto
  have short: "length x \<le> length y"
    if x: "list_all is_digit x" "x \<noteq> []" "length x > 1 \<Longrightarrow> hd x \<noteq> CHR ''0''"
      and y: "list_all is_digit y" "y \<noteq> []" and v: "digits_value x = digits_value y" for x y
  proof (cases "length x > 1")
    case True
    have "(10::nat) ^ (length x - 1) < 10 ^ length y"
      using low [OF x(1) True x(3) [OF True]] decimal_digits_value(2) [OF y(1)] v by (metis order_le_less_trans)
    then show ?thesis by (simp add: power_less_imp_less_exp)
  next
    case False
    then have "length x \<le> 1" by simp
    also have "1 \<le> length y" using y(2) by (cases y) simp_all
    finally show ?thesis .
  qed
  have "length a = length b" using short [of a b] short [of b a] assms by (metis le_antisym)
  then show ?thesis using decimal_digits_value(1) [OF assms(1)] decimal_digits_value(1) [OF assms(2)] assms(7) by metis
qed

lemma u64_decimal: "unat (x :: u64) < 10 ^ 20"
proof -
  have "unat x < 2 ^ 64" using unsigned_less [of x, where 'a = nat] by simp
  also have "(2 ^ 64 :: nat) < 10 ^ 20" by simp
  finally show ?thesis .
qed

lemma length_EncodeToString [simp]: "length (EncodeToString bs) = 2 * length bs"
  by (induction bs) (auto simp: EncodeToString_def)

lemma hex_digit_hex: "n < 16 \<Longrightarrow> is_hex (hex_digit n)"
  by (auto simp: is_hex_def is_digit_def hex_digit_def)

lemma EncodeToString_hex: "list_all is_hex (EncodeToString bs)"
proof (induction bs)
  case (Cons b bs)
  have "unat b < 256" using unsigned_less [of b, where 'a = nat] by simp
  then have "unat b div 16 < 16" by simp
  with Cons show ?case
    by (simp add: EncodeToString_def hex_digit_hex)
qed (simp add: EncodeToString_def)

lemma FormatNat_digits: "list_all is_digit (FormatNat n)"
proof (induction n rule: FormatNat.induct)
  case (1 n)
  have "n mod 10 < 10" by simp
  then have "is_digit (char_of (48 + n mod 10))"
    unfolding is_digit_def digit_char [OF \<open>n mod 10 < 10\<close>] by linarith
  moreover have "is_digit (char_of (48 + n))" if n: "n < 10"
    unfolding is_digit_def digit_char [OF n] using n by linarith
  ultimately show ?case using 1 by (subst FormatNat.simps) simp
qed

lemma digits_value_FormatNat: "digits_value (FormatNat n) = n"
proof (induction n rule: FormatNat.induct)
  case (1 n)
  have v: "digits_value [char_of (48 + m)] = m" if "m < 10" for m
    using that by (simp add: digits_value_def)
  show ?case
  proof (cases "n < 10")
    case True
    then show ?thesis by (subst FormatNat.simps) (simp add: v)
  next
    case False
    then have "digits_value (FormatNat n) = 10 * (n div 10) + n mod 10"
      using 1 by (subst FormatNat.simps) (simp add: digits_value_snoc)
    then show ?thesis by simp
  qed
qed

lemma FormatNat_inj [simp]: "FormatNat m = FormatNat n \<longleftrightarrow> m = n"
  using digits_value_FormatNat by metis

section \<open>Cutting and splitting\<close>

text \<open>\<open>strings.Cut\<close> and \<open>strings.Split\<close> at a separator of one character.\<close>

definition Cut :: "char \<Rightarrow> string \<Rightarrow> string \<times> string \<times> bool" where
  "Cut sep s =
     (if sep \<in> set s then (takeWhile (\<lambda>c. c \<noteq> sep) s, tl (dropWhile (\<lambda>c. c \<noteq> sep) s), True)
      else (s, [], False))"

fun Split :: "char \<Rightarrow> string \<Rightarrow> string list" where
  "Split sep [] = [[]]"
| "Split sep (c # s) =
     (if c = sep then [] # Split sep s
      else (case Split sep s of [] \<Rightarrow> [[c]] | w # ws \<Rightarrow> (c # w) # ws))"

fun Join :: "char \<Rightarrow> string list \<Rightarrow> string" where
  "Join sep [] = []"
| "Join sep [w] = w"
| "Join sep (w # v # ws) = w @ sep # Join sep (v # ws)"

lemma Split_ne [simp]: "Split sep s \<noteq> []"
  by (induction s) (auto split: list.splits)

lemma Join_Split: "Join sep (Split sep s) = s"
proof (induction s)
  case (Cons c s)
  then show ?case
    by (cases "Split sep s") (auto, cases "tl (Split sep s)", auto)
qed simp

lemma Split_parts: "w \<in> set (Split sep s) \<Longrightarrow> sep \<notin> set w"
  by (induction s arbitrary: w) (force split: if_splits list.splits)+

lemma Split_single: "sep \<notin> set w \<Longrightarrow> Split sep w = [w]"
  by (induction w) auto

lemma Split_append: "sep \<notin> set w \<Longrightarrow> Split sep (w @ sep # s) = w # Split sep s"
  by (induction w) auto

text \<open>The parts of a text are the only ones that it joins.\<close>

lemma Split_Join:
  assumes "ws \<noteq> []" "\<And>w. w \<in> set ws \<Longrightarrow> sep \<notin> set w"
  shows "Split sep (Join sep ws) = ws"
  using assms
proof (induction ws rule: induct_list012)
  case (2 w)
  then show ?case by (simp add: Split_single)
next
  case (3 w v ws)
  then show ?case by (simp add: Split_append)
qed simp

lemma Cut_spec:
  assumes "Cut sep s = (a, b, found)"
  shows "sep \<notin> set a" "found \<Longrightarrow> s = a @ sep # b" "\<not> found \<Longrightarrow> s = a \<and> b = [] \<and> sep \<notin> set s"
proof -
  have "sep \<notin> set a \<and> (found \<longrightarrow> s = a @ sep # b) \<and> (\<not> found \<longrightarrow> s = a \<and> b = [] \<and> sep \<notin> set s)"
  proof (cases "sep \<in> set s")
    case True
    then have h: "dropWhile (\<lambda>c. c \<noteq> sep) s \<noteq> []" by (auto simp: dropWhile_eq_Nil_conv)
    then have "hd (dropWhile (\<lambda>c. c \<noteq> sep) s) = sep" using hd_dropWhile [OF h] by simp
    then have "s = takeWhile (\<lambda>c. c \<noteq> sep) s @ sep # tl (dropWhile (\<lambda>c. c \<noteq> sep) s)"
      using h by (metis list.collapse takeWhile_dropWhile_id)
    moreover have "sep \<notin> set (takeWhile (\<lambda>c. c \<noteq> sep) s)" by (auto dest: set_takeWhileD)
    ultimately show ?thesis using assms True by (auto simp: Cut_def)
  next
    case False
    then show ?thesis using assms by (auto simp: Cut_def)
  qed
  then show "sep \<notin> set a" "found \<Longrightarrow> s = a @ sep # b" "\<not> found \<Longrightarrow> s = a \<and> b = [] \<and> sep \<notin> set s"
    by simp_all
qed

section \<open>Comparing\<close>

text \<open>\<open>strings.Compare\<close>: by bytes, and a prefix first.\<close>

fun str_Compare :: "string \<Rightarrow> string \<Rightarrow> int" where
  "str_Compare [] [] = 0"
| "str_Compare [] (y # ys) = -1"
| "str_Compare (x # xs) [] = 1"
| "str_Compare (x # xs) (y # ys) =
     (if x = y then str_Compare xs ys else if (of_char x :: nat) < of_char y then -1 else 1)"

text \<open>
  The contract of a comparison that returns a sign: it is a total order up to the equivalence it
  returns 0 for.
\<close>

locale comparison =
  fixes cmp :: "'a \<Rightarrow> 'a \<Rightarrow> int"
  assumes sign: "cmp x y = -1 \<or> cmp x y = 0 \<or> cmp x y = 1"
    and flip: "cmp y x = - cmp x y"
    and le_trans: "cmp x y \<le> 0 \<Longrightarrow> cmp y z \<le> 0 \<Longrightarrow> cmp x z \<le> 0"
begin

lemma refl: "cmp x x = 0"
  using flip [of x x] by simp

lemma less_le_trans: "cmp x y < 0 \<Longrightarrow> cmp y z \<le> 0 \<Longrightarrow> cmp x z < 0"
  using le_trans [of x y z] le_trans [of z x y] le_trans [of y z x] flip [of x z] flip [of x y] flip [of y z] by force

lemma le_less_trans: "cmp x y \<le> 0 \<Longrightarrow> cmp y z < 0 \<Longrightarrow> cmp x z < 0"
  using le_trans [of x y z] le_trans [of y z x] le_trans [of z x y] flip [of x z] flip [of x y] flip [of y z] by force

lemma equal_trans: "cmp x y = 0 \<Longrightarrow> cmp y z = 0 \<Longrightarrow> cmp x z = 0"
  using le_trans [of x y z] le_trans [of z y x] flip [of x z] flip [of x y] flip [of y z] by force

end

text \<open>Comparing by one field and then by another keeps the contract.\<close>

definition compare_on :: "('a \<Rightarrow> 'b) \<Rightarrow> ('b \<Rightarrow> 'b \<Rightarrow> int) \<Rightarrow> 'a \<Rightarrow> 'a \<Rightarrow> int" where
  "compare_on f cmp x y = cmp (f x) (f y)"

definition compare_then :: "('a \<Rightarrow> 'a \<Rightarrow> int) \<Rightarrow> ('a \<Rightarrow> 'a \<Rightarrow> int) \<Rightarrow> 'a \<Rightarrow> 'a \<Rightarrow> int" where
  "compare_then c d x y = (if c x y \<noteq> 0 then c x y else d x y)"

lemma comparison_on: "comparison cmp \<Longrightarrow> comparison (compare_on f cmp)"
  unfolding comparison_def compare_on_def by blast

lemma comparison_then:
  assumes "comparison c" "comparison d"
  shows "comparison (compare_then c d)"
proof
  fix x y z
  show "compare_then c d x y = -1 \<or> compare_then c d x y = 0 \<or> compare_then c d x y = 1"
    using comparison.sign [OF assms(1), of x y] comparison.sign [OF assms(2), of x y] by (auto simp: compare_then_def)
  show "compare_then c d y x = - compare_then c d x y"
    using comparison.flip [OF assms(1), of y x] comparison.flip [OF assms(2), of y x] by (simp add: compare_then_def)
  show "compare_then c d x z \<le> 0" if a: "compare_then c d x y \<le> 0" and b: "compare_then c d y z \<le> 0"
    using a b comparison.less_le_trans [OF assms(1), of x y z] comparison.le_less_trans [OF assms(1), of x y z]
      comparison.equal_trans [OF assms(1), of x y z] comparison.le_trans [OF assms(2), of x y z]
    by (auto simp: compare_then_def split: if_splits)
qed

interpretation str: comparison str_Compare
proof
  fix x y z :: string
  show "str_Compare x y = -1 \<or> str_Compare x y = 0 \<or> str_Compare x y = 1"
    by (induction x y rule: str_Compare.induct) auto
  show "str_Compare y x = - str_Compare x y"
    by (induction x y rule: str_Compare.induct) (auto simp: order_less_le)
  show "str_Compare x y \<le> 0 \<Longrightarrow> str_Compare y z \<le> 0 \<Longrightarrow> str_Compare x z \<le> 0"
  proof (induction x y arbitrary: z rule: str_Compare.induct)
    case (4 a as b bs)
    then show ?case by (cases z) (auto split: if_splits)
  next
    case (2 b bs)
    then show ?case by (cases z) auto
  qed auto
qed

lemma str_Compare_0: "str_Compare x y = 0 \<longleftrightarrow> x = y"
  by (induction x y rule: str_Compare.induct) auto

end
