(* ===== verification/Integrity_Entry.thy ===== *)
theory Integrity_Entry
  imports Strings "HOL-Library.Word"
begin

text \<open>
  What the integrity module watches and what it keeps of it: the paths of a scope,
  \<open>internal/modules/integrity/scope.go\<close>, the entries of the baseline, \<open>baseline.go\<close>, and the comparison
  of two looks at a name, \<open>pass.go\<close>. A path is a clean absolute one; the entries of a directory are kept
  in the order of their names, the order the code goes through them in. \<open>filepath.Match\<close> is an
  argument, \<open>None\<close> for a pattern that is malformed.
\<close>

section \<open>Paths\<close>

definition path_Base :: "string \<Rightarrow> string" where
  "path_Base p = (let b = rev (takeWhile (\<lambda>c. c \<noteq> CHR ''/'') (rev p)) in if b = [] then ''/'' else b)"

definition path_Dir :: "string \<Rightarrow> string" where
  "path_Dir p = (let d = rev (tl (dropWhile (\<lambda>c. c \<noteq> CHR ''/'') (rev p))) in if d = [] then ''/'' else d)"

definition path_Join :: "string \<Rightarrow> string \<Rightarrow> string" where
  "path_Join p name = (if p = ''/'' then ''/'' @ name else p @ ''/'' @ name)"

definition path_HasPrefix :: "string \<Rightarrow> string \<Rightarrow> bool" where
  "path_HasPrefix p pre \<longleftrightarrow> take (length pre) p = pre"

text \<open>\<open>elements\<close>: the names that lead from a root to a path.\<close>

definition TrimPrefix :: "string \<Rightarrow> string \<Rightarrow> string" where
  "TrimPrefix s pre = (if path_HasPrefix s pre then drop (length pre) s else s)"

definition path_elements :: "string \<Rightarrow> string \<Rightarrow> string list" where
  "path_elements root p =
     (let rest = TrimPrefix (TrimPrefix p root) ''/'' in if rest = [] then [] else Split (CHR ''/'') rest)"

section \<open>Scopes\<close>

type_synonym path_match = "string \<Rightarrow> string \<Rightarrow> bool option"

record file_Scope =
  fs_Paths :: "string list"
  fs_Exclude :: "string list"

record file_scope =
  fs_given :: file_Scope
  fs_own :: "string list"
  fs_absolute :: "string list"
  fs_patterns :: "string list"

definition scoped :: "file_Scope \<Rightarrow> string list \<Rightarrow> file_scope" where
  "scoped given own = \<lparr>fs_given = given, fs_own = own,
     fs_absolute = filter (\<lambda>x. path_HasPrefix x ''/'') (fs_Exclude given),
     fs_patterns = filter (\<lambda>x. \<not> path_HasPrefix x ''/'') (fs_Exclude given)\<rparr>"

definition path_within :: "string \<Rightarrow> string \<Rightarrow> bool" where
  "path_within p root \<longleftrightarrow> p = root \<or> root = ''/'' \<or> path_HasPrefix p (root @ ''/'')"

definition scope_root :: "file_scope \<Rightarrow> string \<Rightarrow> string \<times> bool" where
  "scope_root s p =
     (let found = fold (\<lambda>root found. if path_within p root \<and> length root > length found then root else found)
        (fs_Paths (fs_given s)) []
      in (found, found \<noteq> []))"

definition isRoot :: "file_scope \<Rightarrow> string \<Rightarrow> bool" where
  "isRoot s p \<longleftrightarrow> p \<in> set (fs_Paths (fs_given s))"

definition name_matches :: "path_match \<Rightarrow> string list \<Rightarrow> string \<Rightarrow> bool" where
  "name_matches mt patterns name = list_ex (\<lambda>p. mt p name = Some True) patterns"

definition scope_excludes :: "path_match \<Rightarrow> file_scope \<Rightarrow> string \<Rightarrow> bool" where
  "scope_excludes mt s p =
     (if list_ex (path_within p) (fs_own s) \<or> list_ex (path_within p) (fs_absolute s) then True
      else if isRoot s p then False
      else name_matches mt (fs_patterns s) (path_Base p))"

definition scope_covers :: "path_match \<Rightarrow> file_scope \<Rightarrow> string \<Rightarrow> bool" where
  "scope_covers mt s p = (case scope_root s p of (_, held) \<Rightarrow> held \<and> \<not> scope_excludes mt s p)"

definition scope_walks :: "path_match \<Rightarrow> file_scope \<Rightarrow> string \<Rightarrow> string \<Rightarrow> bool" where
  "scope_walks mt s root p = (case scope_root s p of (owner, held) \<Rightarrow> held \<and> owner = root \<and> \<not> scope_excludes mt s p)"

text \<open>What a scope watches that the one before it left out.\<close>

record file_fresh =
  fr_paths :: "string list"
  fr_patterns :: "string list"

definition no_fresh :: file_fresh where "no_fresh = \<lparr>fr_paths = [], fr_patterns = []\<rparr>"

definition scope_since :: "file_scope \<Rightarrow> file_Scope \<Rightarrow> file_fresh" where
  "scope_since s before =
     (let earlier = scoped before []
      in \<lparr>fr_paths = filter (\<lambda>x. x \<notin> set (fs_absolute s)) (fs_absolute earlier),
          fr_patterns = filter (\<lambda>x. x \<notin> set (fs_patterns s)) (fs_patterns earlier)\<rparr>)"

definition join_new :: "string list \<Rightarrow> string list \<Rightarrow> string list" where
  "join_new held other = fold (\<lambda>x held. if x \<in> set held then held else held @ [x]) other held"

definition fresh_join :: "file_fresh \<Rightarrow> file_fresh \<Rightarrow> file_fresh" where
  "fresh_join f other =
     \<lparr>fr_paths = join_new (fr_paths f) (fr_paths other), fr_patterns = join_new (fr_patterns f) (fr_patterns other)\<rparr>"

definition fresh_holds :: "path_match \<Rightarrow> file_fresh \<Rightarrow> string \<Rightarrow> bool" where
  "fresh_holds mt f p \<longleftrightarrow> list_ex (path_within p) (fr_paths f) \<or> name_matches mt (fr_patterns f) (path_Base p)"

lemma no_fresh_holds [simp]: "\<not> fresh_holds mt no_fresh p"
  by (simp add: fresh_holds_def no_fresh_def name_matches_def)

section \<open>Nodes and entries\<close>

datatype tree_kind = T_Regular | T_Directory | T_Link | T_Pipe | T_Socket | T_Block | T_Character

record tree_node =
  tn_Kind :: tree_kind
  tn_Device :: u64
  tn_Inode :: u64
  tn_Links :: u64
  tn_User :: u32
  tn_Group :: u32
  tn_Mode :: u32
  tn_Special :: u64
  tn_Size :: int
  tn_Modified :: time
  tn_Changed :: time

definition node_Same :: "tree_node \<Rightarrow> tree_node \<Rightarrow> bool" where
  "node_Same n other \<longleftrightarrow> tn_Device n = tn_Device other \<and> tn_Inode n = tn_Inode other"

datatype file_content = C_unread | C_hashed "byte list" | C_unreadable | C_large | C_unstable

datatype file_gap = G_covered | G_unlisted | G_mounted | G_deep | G_truncated

datatype file_entry = File_Entry
  (fe_node: tree_node) (fe_content: file_content) (fe_target: string) (fe_listed: bool) (fe_gap: file_gap)
  (fe_children: "(string \<times> file_entry) list")

text \<open>A map kept in the order of its keys.\<close>

fun map_put :: "string \<Rightarrow> 'a \<Rightarrow> (string \<times> 'a) list \<Rightarrow> (string \<times> 'a) list" where
  "map_put k v [] = [(k, v)]"
| "map_put k v ((j, w) # m) =
     (if k = j then (k, v) # m else if str_Compare k j < 0 then (k, v) # (j, w) # m else (j, w) # map_put k v m)"

definition map_del :: "string \<Rightarrow> (string \<times> 'a) list \<Rightarrow> (string \<times> 'a) list" where
  "map_del k m = filter (\<lambda>x. fst x \<noteq> k) m"

definition set_children :: "(string \<times> file_entry) list \<Rightarrow> file_entry \<Rightarrow> file_entry" where
  "set_children cs e = File_Entry (fe_node e) (fe_content e) (fe_target e) (fe_listed e) (fe_gap e) cs"

definition set_listed :: "bool \<Rightarrow> file_entry \<Rightarrow> file_entry" where
  "set_listed l e = File_Entry (fe_node e) (fe_content e) (fe_target e) l (fe_gap e) (fe_children e)"

definition set_gap :: "file_gap \<Rightarrow> file_entry \<Rightarrow> file_entry" where
  "set_gap g e = File_Entry (fe_node e) (fe_content e) (fe_target e) (fe_listed e) g (fe_children e)"

definition entry_child :: "file_entry \<Rightarrow> string \<Rightarrow> file_entry option" where
  "entry_child e name = map_of (fe_children e) name"

definition entry_adopt :: "string \<Rightarrow> file_entry \<Rightarrow> file_entry \<Rightarrow> file_entry" where
  "entry_adopt name held e = set_children (map_put name held (fe_children e)) e"

definition entry_drop :: "string \<Rightarrow> file_entry \<Rightarrow> file_entry" where
  "entry_drop name e = set_children (map_del name (fe_children e)) e"

fun entry_count :: "file_entry \<Rightarrow> nat" and entries_count :: "(string \<times> file_entry) list \<Rightarrow> nat" where
  "entry_count (File_Entry n c t l g cs) = 1 + entries_count cs"
| "entries_count [] = 0"
| "entries_count ((name, e) # cs) = entry_count e + entries_count cs"

text \<open>\<open>each\<close>: what it visits, in order.\<close>

fun entry_each :: "string \<Rightarrow> file_entry \<Rightarrow> (string \<times> file_entry) list"
  and entries_each :: "string \<Rightarrow> (string \<times> file_entry) list \<Rightarrow> (string \<times> file_entry) list" where
  "entry_each p (File_Entry n c t l g cs) = (p, File_Entry n c t l g cs) # entries_each p cs"
| "entries_each p [] = []"
| "entries_each p ((name, e) # cs) = entry_each (path_Join p name) e @ entries_each p cs"

text \<open>What is held at the end of a list of names.\<close>

fun entry_at :: "file_entry \<Rightarrow> string list \<Rightarrow> file_entry option" where
  "entry_at e [] = Some e"
| "entry_at e (n # ns) = (case entry_child e n of None \<Rightarrow> None | Some c \<Rightarrow> entry_at c ns)"

definition join_names :: "string \<Rightarrow> string list \<Rightarrow> string" where
  "join_names p ns = foldl path_Join p ns"

section \<open>Comparing two looks\<close>

datatype file_aspect = A_kind | A_identity | A_owner | A_group | A_mode | A_content | A_links | A_target | A_device | A_attributes

definition content_changed :: "file_entry \<Rightarrow> file_entry \<Rightarrow> bool" where
  "content_changed before after =
     (case (fe_content before, fe_content after) of
        (C_hashed b, C_hashed a) \<Rightarrow> b \<noteq> a
      | _ \<Rightarrow> tn_Size (fe_node before) \<noteq> tn_Size (fe_node after) \<or> tn_Modified (fe_node before) \<noteq> tn_Modified (fe_node after))"

definition entry_compare :: "file_entry \<Rightarrow> file_entry \<Rightarrow> bool \<Rightarrow> file_aspect list" where
  "entry_compare before after moved =
     (let b = fe_node before; a = fe_node after in
      if tn_Kind b \<noteq> tn_Kind a then [A_kind]
      else
        let changes = (if \<not> node_Same b a then [A_identity] else []) @ (if tn_User b \<noteq> tn_User a then [A_owner] else [])
              @ (if tn_Group b \<noteq> tn_Group a then [A_group] else [])
              @ (if tn_Mode b \<noteq> tn_Mode a \<and> tn_Kind a \<noteq> T_Link then [A_mode] else [])
              @ (case tn_Kind a of
                   T_Regular \<Rightarrow> (if content_changed before after then [A_content] else [])
                     @ (if tn_Links b \<noteq> tn_Links a then [A_links] else [])
                 | T_Link \<Rightarrow> (if fe_target before \<noteq> fe_target after then [A_target] else [])
                 | T_Block \<Rightarrow> (if tn_Special b \<noteq> tn_Special a then [A_device] else [])
                 | T_Character \<Rightarrow> (if tn_Special b \<noteq> tn_Special a then [A_device] else [])
                 | _ \<Rightarrow> [])
        in if changes = [] \<and> \<not> moved \<and> tn_Kind a \<noteq> T_Directory \<and> tn_Kind a \<noteq> T_Link \<and> tn_Changed b \<noteq> tn_Changed a
           then [A_attributes] else changes)"

definition node_unchanged :: "tree_node \<Rightarrow> tree_node \<Rightarrow> bool" where
  "node_unchanged before after \<longleftrightarrow>
     node_Same before after \<and> tn_Size before = tn_Size after \<and> tn_Modified before = tn_Modified after \<and> tn_Changed before = tn_Changed after"

definition entry_alike :: "file_entry \<Rightarrow> file_entry \<Rightarrow> bool" where
  "entry_alike before after =
     (let b = fe_node before; a = fe_node after in
      if tn_Kind b \<noteq> tn_Kind a then False
      else if tn_Kind a = T_Regular then tn_Size b = tn_Size a \<and> tn_Modified b = tn_Modified a
      else if tn_Kind a = T_Link then fe_target before = fe_target after
      else tn_Modified b = tn_Modified a \<or> tn_Kind a = T_Directory)"

definition entry_snapshot :: "file_entry \<Rightarrow> file_entry" where
  "entry_snapshot e = File_Entry (fe_node e) (fe_content e) (fe_target e) False G_covered []"

end
