(* ===== verification/Integrity_Pass.thy ===== *)
theory Integrity_Pass
  imports Integrity_Entry
begin

text \<open>
  A pass of the integrity module over what it watches, \<open>internal/modules/integrity/pass.go\<close>. What the
  filesystem, the digest and the governor answer is a look: a name that is gone, that fails, or the
  node it stands for with what reading it and entering it answers. An entry the code holds a pointer to
  is addressed by its root and the names that lead to it. Watching a directory and the saves in the
  middle of a walk are left out.
\<close>

definition maxHashBytes :: int where "maxHashBytes = 268435456"
definition hashAttempts :: nat where "hashAttempts = 3"
definition maxDepth :: nat where "maxDepth = 64"
definition maxEntries :: nat where "maxEntries = 100000"
definition maxPathBytes :: nat where "maxPathBytes = 4096"

section \<open>Looks\<close>

text \<open>How one attempt to digest a file ends: \<open>Hash_all\<close> has the bytes read, their digest, and the node then.\<close>

datatype hash_answer = Hash_other | Hash_refused | Hash_stopped | Hash_failed | Hash_all int "byte list" "tree_node option"

text \<open>
  \<open>Look_stopped\<close>: the context ended before the name was looked at; \<open>Look_uncharged\<close>: the governor
  lets it be looked at no more, of a name of that kind; \<open>Seen\<close>: the node, the target of a link, the attempts to digest it, and what
  entering it answers, where the argument of \<open>Dir_refused\<close> and \<open>Dir_unlisted\<close> says that the context ended.
\<close>

datatype file_look = Look_stopped | Look_gone | Look_failed | Look_uncharged tree_kind | Look_at file_seen
  and file_seen = Seen tree_node string "nat \<Rightarrow> hash_answer" dir_look
  and dir_look = Dir_refused bool | Dir_unlisted bool | Dir_names "(string \<times> file_look) list"

fun look_stops :: "file_look \<Rightarrow> bool" where
  "look_stops Look_stopped = True"
| "look_stops _ = False"

section \<open>Changes\<close>

type_synonym inotify_what = u32

record file_hint =
  hn_first :: time
  hn_count :: int
  hn_seen :: inotify_what
  hn_cookies :: "u32 list"

datatype file_operation = Op_modified | Op_deleted | Op_created | Op_renamed | Op_transient

record file_change =
  fc_operation :: file_operation
  fc_path :: string
  fc_previous :: string
  fc_changes :: "file_aspect list"
  fc_before :: "file_entry option"
  fc_after :: "file_entry option"
  fc_hint :: "file_hint option"

record file_placed =
  pl_path :: string
  pl_root :: string
  pl_names :: "string list"
  pl_entry :: file_entry
  pl_hint :: "file_hint option"

record file_pass =
  fp_vanished :: "file_placed list"
  fp_appeared :: "file_placed list"
  fp_added :: nat
  fp_changed :: bool
  fp_reports :: "file_change list"

definition new_pass :: file_pass where
  "new_pass = \<lparr>fp_vanished = [], fp_appeared = [], fp_added = 0, fp_changed = False, fp_reports = []\<rparr>"

text \<open>What a pass does not change: the scope, what is new in it, and how many entries the baseline held.\<close>

record file_env =
  ev_match :: path_match
  ev_scope :: file_scope
  ev_fresh :: file_fresh
  ev_entries :: nat

definition report_change :: "file_change \<Rightarrow> file_pass \<Rightarrow> file_pass" where
  "report_change c st = st\<lparr>fp_reports := fp_reports st @ [c]\<rparr>"

definition deleted_change :: "file_hint option \<Rightarrow> string \<times> file_entry \<Rightarrow> file_change" where
  "deleted_change h x = \<lparr>fc_operation = Op_deleted, fc_path = fst x, fc_previous = [], fc_changes = [],
     fc_before = Some (entry_snapshot (snd x)), fc_after = None, fc_hint = h\<rparr>"

definition created_change :: "file_hint option \<Rightarrow> string \<times> file_entry \<Rightarrow> file_change" where
  "created_change h x = \<lparr>fc_operation = Op_created, fc_path = fst x, fc_previous = [], fc_changes = [],
     fc_before = None, fc_after = Some (entry_snapshot (snd x)), fc_hint = h\<rparr>"

definition modified_change :: "file_hint option \<Rightarrow> string \<Rightarrow> file_aspect list \<Rightarrow> file_entry \<Rightarrow> file_entry \<Rightarrow> file_change" where
  "modified_change h p changes before after = \<lparr>fc_operation = Op_modified, fc_path = p, fc_previous = [], fc_changes = changes,
     fc_before = Some (entry_snapshot before), fc_after = Some (entry_snapshot after), fc_hint = h\<rparr>"

definition report_all :: "file_change list \<Rightarrow> file_pass \<Rightarrow> file_pass" where
  "report_all cs st = st\<lparr>fp_reports := fp_reports st @ cs\<rparr>"

section \<open>Looking\<close>

definition pass_room :: "file_env \<Rightarrow> file_entry \<Rightarrow> file_pass \<Rightarrow> nat" where
  "pass_room ev held st = nat (max 0 (int maxEntries - int (ev_entries ev) - int (fp_added st) + int (length (fe_children held))))"

text \<open>\<open>hash\<close>: \<open>None\<close> where the context ended.\<close>

definition pass_hash :: "tree_node \<Rightarrow> hash_answer \<Rightarrow> file_content option" where
  "pass_hash now h =
     (case h of
        Hash_other \<Rightarrow> Some C_unstable
      | Hash_refused \<Rightarrow> Some C_unreadable
      | Hash_stopped \<Rightarrow> None
      | Hash_failed \<Rightarrow> Some C_unreadable
      | Hash_all read digest after \<Rightarrow>
          (case after of
             None \<Rightarrow> Some C_unstable
           | Some n \<Rightarrow> if read \<noteq> tn_Size now \<or> \<not> node_unchanged now n then Some C_unstable else Some (C_hashed digest)))"

fun hash_loop :: "nat \<Rightarrow> nat \<Rightarrow> tree_node \<Rightarrow> (nat \<Rightarrow> hash_answer) \<Rightarrow> file_content \<Rightarrow> file_content option" where
  "hash_loop 0 i now hs c = Some c"
| "hash_loop (Suc k) i now hs c =
     (case pass_hash now (hs i) of
        None \<Rightarrow> None
      | Some c \<Rightarrow> if c \<noteq> C_unstable then Some c else hash_loop k (Suc i) now hs c)"

definition pass_content :: "file_entry option \<Rightarrow> tree_node \<Rightarrow> (nat \<Rightarrow> hash_answer) \<Rightarrow> file_content option" where
  "pass_content prior now hs =
     (let fresh = (if tn_Size now > maxHashBytes then Some C_large else hash_loop hashAttempts 0 now hs C_unread) in
      case prior of
        None \<Rightarrow> fresh
      | Some p \<Rightarrow>
          (case fe_content p of
             C_hashed d \<Rightarrow> if tn_Kind (fe_node p) = T_Regular \<and> node_unchanged (fe_node p) now then Some (C_hashed d) else fresh
           | _ \<Rightarrow> fresh))"

text \<open>What a name stands for now; \<open>None\<close> where the context ended while it was read.\<close>

definition now_entry :: "file_entry option \<Rightarrow> tree_node \<Rightarrow> string \<Rightarrow> (nat \<Rightarrow> hash_answer) \<Rightarrow> file_entry option" where
  "now_entry prior node target hs =
     (if tn_Kind node = T_Regular
      then map_option (\<lambda>c. File_Entry node c [] False G_covered []) (pass_content prior node hs)
      else Some (File_Entry node C_unread (if tn_Kind node = T_Link then target else []) False G_covered []))"

definition same_look :: "file_entry \<Rightarrow> file_entry \<Rightarrow> bool" where
  "same_look prior now \<longleftrightarrow> fe_node prior = fe_node now \<and> fe_content prior = fe_content now \<and> fe_target prior = fe_target now"

definition pass_update :: "file_entry \<Rightarrow> file_entry \<Rightarrow> file_entry" where
  "pass_update prior now = File_Entry (fe_node now) (fe_content now) (fe_target now) (fe_listed prior) (fe_gap prior) (fe_children prior)"

text \<open>What is done with a name that was held before its directory is descended.\<close>

definition renew :: "file_hint option \<Rightarrow> string \<Rightarrow> file_entry \<Rightarrow> file_entry \<Rightarrow> file_pass \<Rightarrow> file_entry \<times> file_pass" where
  "renew h p prior now st =
     (let changes = entry_compare prior now False;
          held = pass_update prior now;
          st = st\<lparr>fp_changed := fp_changed st \<or> \<not> same_look prior now\<rparr>;
          st = (if changes \<noteq> [] then report_change (modified_change h p changes prior held) st else st)
      in if tn_Kind (fe_node prior) = T_Directory \<and> tn_Kind (fe_node now) \<noteq> T_Directory
         then (set_children [] (set_listed False held),
               report_all (map (deleted_change None) (entries_each p (fe_children prior))) st)
         else if tn_Kind (fe_node prior) \<noteq> T_Directory \<and> tn_Kind (fe_node now) = T_Directory
         then (set_listed True held, st)
         else (held, st))"

text \<open>What is done, once a directory was gone through, with the names it holds no more.\<close>

definition sweep :: "file_env \<Rightarrow> string \<Rightarrow> string list \<Rightarrow> string \<Rightarrow> bool \<Rightarrow> string list \<Rightarrow> file_entry \<Rightarrow> file_pass \<Rightarrow> file_entry \<times> file_pass" where
  "sweep ev rt ns p listed present held st =
     (let gone = filter (\<lambda>x. fst x \<notin> set present \<and> scope_walks (ev_match ev) (ev_scope ev) rt (path_Join p (fst x))) (fe_children held);
          st' = (if listed
            then st\<lparr>fp_vanished := fp_vanished st @ map (\<lambda>x. \<lparr>pl_path = path_Join p (fst x), pl_root = rt, pl_names = ns @ [fst x],
                     pl_entry = snd x, pl_hint = None\<rparr>) gone\<rparr>
            else st\<lparr>fp_changed := fp_changed st \<or> gone \<noteq> []\<rparr>);
          held' = (if listed then held else fold (\<lambda>x. entry_drop (fst x)) gone held)
      in (set_gap G_covered (set_listed True held'), st'\<lparr>fp_changed := fp_changed st' \<or> \<not> listed\<rparr>))"

text \<open>
  \<open>observe\<close>, \<open>descend\<close> and \<open>visit\<close>. The result has what the directory holds of the name from then on,
  \<open>None\<close> for nothing yet, and whether the pass goes on.
\<close>

fun file_observe :: "file_env \<Rightarrow> string \<Rightarrow> string list \<Rightarrow> string \<Rightarrow> file_hint option \<Rightarrow> file_entry option \<Rightarrow> bool \<Rightarrow> u64 \<Rightarrow> nat
       \<Rightarrow> file_seen \<Rightarrow> file_pass \<Rightarrow> file_entry option \<times> bool \<times> file_pass"
  and dir_descend :: "file_env \<Rightarrow> string \<Rightarrow> string list \<Rightarrow> string \<Rightarrow> file_entry \<Rightarrow> u64 \<Rightarrow> nat
       \<Rightarrow> dir_look \<Rightarrow> file_pass \<Rightarrow> file_entry \<times> bool \<times> file_pass"
  and dir_visit :: "file_env \<Rightarrow> string \<Rightarrow> string list \<Rightarrow> string \<Rightarrow> bool \<Rightarrow> nat \<Rightarrow> string list \<Rightarrow> (string \<times> file_look) list
       \<Rightarrow> file_entry \<Rightarrow> file_pass \<Rightarrow> file_entry \<times> string list \<times> bool \<times> file_pass" where
  "file_observe ev rt ns p h prior unseen pdev depth (Seen node target hs dl) st =
     (case now_entry prior node target hs of
        None \<Rightarrow> (prior, False, st)
      | Some now \<Rightarrow>
          (case prior of
             None \<Rightarrow>
               if unseen \<or> fresh_holds (ev_match ev) (ev_fresh ev) p
               then (case dir_descend ev rt ns p now pdev depth dl (st\<lparr>fp_added := fp_added st + 1, fp_changed := True\<rparr>) of
                       (now, ok, st) \<Rightarrow> (Some now, ok, st))
               else (case dir_descend ev rt ns p now pdev depth dl (st\<lparr>fp_added := fp_added st + 1\<rparr>) of
                       (now, ok, st) \<Rightarrow>
                         (None, ok, if ok
                           then st\<lparr>fp_appeared := fp_appeared st @ [\<lparr>pl_path = p, pl_root = rt, pl_names = ns, pl_entry = now, pl_hint = h\<rparr>]\<rparr>
                           else st))
           | Some prior \<Rightarrow>
               (case renew h p prior now st of
                  (held, st) \<Rightarrow> (case dir_descend ev rt ns p held pdev depth dl st of (held, ok, st) \<Rightarrow> (Some held, ok, st)))))"
| "dir_descend ev rt ns p held pdev depth dl st =
     (if tn_Kind (fe_node held) \<noteq> T_Directory then (held, True, st)
      else if depth > 0 \<and> tn_Device (fe_node held) \<noteq> pdev then (set_gap G_mounted held, True, st)
      else if depth \<ge> maxDepth then (set_gap G_deep held, True, st)
      else case dl of
        Dir_refused stopped \<Rightarrow> (set_gap G_unlisted held, \<not> stopped, st)
      | Dir_unlisted stopped \<Rightarrow> (set_gap G_unlisted held, \<not> stopped, st)
      | Dir_names xs \<Rightarrow>
          if length xs > pass_room ev held st then (set_gap G_truncated held, True, st)
          else
            (case dir_visit ev rt ns p (fe_listed held) (Suc depth) [] xs held st of
               (held', present, ok, st') \<Rightarrow>
                 if \<not> ok then (held', False, st')
                 else (case sweep ev rt ns p (fe_listed held) present held' st' of (held'', st'') \<Rightarrow> (held'', True, st''))))"
| "dir_visit ev rt ns p listed depth present [] held st = (held, present, True, st)"
| "dir_visit ev rt ns p listed depth present ((name, l) # xs) held st =
     (let child = path_Join p name in
      if look_stops l then (held, present, False, st)
      else if length child > maxPathBytes \<or> \<not> scope_walks (ev_match ev) (ev_scope ev) rt child
        then dir_visit ev rt ns p listed depth present xs held st
      else case l of
        Look_stopped \<Rightarrow> (held, present, False, st)
      | Look_gone \<Rightarrow> dir_visit ev rt ns p listed depth present xs held st
      | Look_failed \<Rightarrow> dir_visit ev rt ns p listed depth (name # present) xs held st
      | Look_uncharged _ \<Rightarrow> (held, present, False, st)
      | Look_at s \<Rightarrow>
          (case file_observe ev rt (ns @ [name]) child None (entry_child held name) (\<not> listed) (tn_Device (fe_node held)) depth s st of
             (r, ok, st) \<Rightarrow>
               let held = (case r of None \<Rightarrow> held | Some e \<Rightarrow> entry_adopt name e held)
               in if ok then dir_visit ev rt ns p listed depth (name # present) xs held st
                  else (held, present, False, st)))"


section \<open>The baseline\<close>

datatype root_problem = Unobserved | Linked

record file_rooted =
  ro_observed :: bool
  ro_entry :: "file_entry option"
  ro_problem :: "root_problem option"

record file_baseline =
  fb_scope :: file_Scope
  fb_fresh :: file_fresh
  fb_roots :: "(string \<times> file_rooted) list"
  fb_entries :: nat

definition new_rooted :: file_rooted where
  "new_rooted = \<lparr>ro_observed = False, ro_entry = None, ro_problem = None\<rparr>"

definition baseline_empty :: "file_Scope \<Rightarrow> file_baseline" where
  "baseline_empty given = \<lparr>fb_scope = given, fb_fresh = no_fresh,
     fb_roots = fold (\<lambda>p m. map_put p new_rooted m) (fs_Paths given) [], fb_entries = 0\<rparr>"

definition baseline_count :: "file_baseline \<Rightarrow> nat" where
  "baseline_count b = sum_list (map (\<lambda>x. case ro_entry (snd x) of None \<Rightarrow> 0 | Some e \<Rightarrow> entry_count e) (fb_roots b))"

definition baseline_find :: "file_baseline \<Rightarrow> file_scope \<Rightarrow> string \<Rightarrow> file_entry option" where
  "baseline_find b s p =
     (case scope_root s p of (root, found) \<Rightarrow>
        if \<not> found then None
        else case map_of (fb_roots b) root of
          None \<Rightarrow> None
        | Some held \<Rightarrow>
            (case ro_entry held of None \<Rightarrow> None | Some e \<Rightarrow> entry_at e (path_elements root p)))"

text \<open>What is at the end of a list of names is put there, or dropped.\<close>

fun put_at :: "string list \<Rightarrow> file_entry \<Rightarrow> file_entry \<Rightarrow> file_entry" where
  "put_at [] v e = v"
| "put_at (n # ns) v e =
     (case entry_child e n of
        Some c \<Rightarrow> entry_adopt n (put_at ns v c) e
      | None \<Rightarrow> if ns = [] then entry_adopt n v e else e)"

fun drop_at :: "string list \<Rightarrow> file_entry \<Rightarrow> file_entry" where
  "drop_at [] e = e"
| "drop_at (n # ns) e =
     (if ns = [] then entry_drop n e
      else case entry_child e n of None \<Rightarrow> e | Some c \<Rightarrow> entry_adopt n (drop_at ns c) e)"

type_synonym file_roots = "(string \<times> file_rooted) list"

definition pass_place :: "file_placed \<Rightarrow> file_roots \<Rightarrow> file_roots" where
  "pass_place at roots =
     (case map_of roots (pl_root at) of
        None \<Rightarrow> roots
      | Some kept \<Rightarrow>
          if pl_names at = [] then map_put (pl_root at) (kept\<lparr>ro_entry := Some (pl_entry at), ro_observed := True\<rparr>) roots
          else map_put (pl_root at) (kept\<lparr>ro_entry := map_option (put_at (pl_names at) (pl_entry at)) (ro_entry kept)\<rparr>) roots)"

definition pass_remove :: "file_placed \<Rightarrow> file_roots \<Rightarrow> file_roots" where
  "pass_remove at roots =
     (case map_of roots (pl_root at) of
        None \<Rightarrow> roots
      | Some kept \<Rightarrow>
          if pl_names at = [] then map_put (pl_root at) (kept\<lparr>ro_entry := None\<rparr>) roots
          else map_put (pl_root at) (kept\<lparr>ro_entry := map_option (drop_at (pl_names at)) (ro_entry kept)\<rparr>) roots)"

section \<open>A path that is walked whole\<close>

text \<open>
  \<open>root\<close>; what opening the directory that holds the path and looking at its name answers is one look,
  and a directory that is none is \<open>Look_gone\<close>.
\<close>

definition file_root :: "file_env \<Rightarrow> string \<Rightarrow> file_look \<Rightarrow> file_roots \<Rightarrow> file_pass \<Rightarrow> bool \<times> file_roots \<times> file_pass" where
  "file_root ev p l roots st =
     (let kept = (case map_of roots p of None \<Rightarrow> new_rooted | Some kept \<Rightarrow> kept) in
      case l of
        Look_gone \<Rightarrow>
          (let st = (case ro_entry kept of
                None \<Rightarrow> st
              | Some e \<Rightarrow> if ro_observed kept
                  then st\<lparr>fp_vanished := fp_vanished st @ [\<lparr>pl_path = p, pl_root = p, pl_names = [], pl_entry = e, pl_hint = None\<rparr>]\<rparr>
                  else st\<lparr>fp_changed := True\<rparr>);
              entry = (if ro_observed kept then ro_entry kept else None)
           in (True, map_put p \<lparr>ro_observed = True, ro_entry = entry, ro_problem = None\<rparr> roots,
               if ro_observed kept then st else st\<lparr>fp_changed := True\<rparr>))
      | Look_stopped \<Rightarrow> (False, map_put p (kept\<lparr>ro_problem := Some Unobserved\<rparr>) roots, st)
      | Look_failed \<Rightarrow> (True, map_put p (kept\<lparr>ro_problem := Some Unobserved\<rparr>) roots, st)
      | Look_uncharged k \<Rightarrow> (False, map_put p (kept\<lparr>ro_problem := (if k = T_Link then Some Linked else None)\<rparr>) roots, st)
      | Look_at s \<Rightarrow>
          (let linked = (case s of Seen node _ _ _ \<Rightarrow> tn_Kind node = T_Link)
           in case file_observe ev p [] p None (ro_entry kept) (\<not> ro_observed kept) 0 0 s st of
                (r, ok, st) \<Rightarrow>
                  (ok, map_put p \<lparr>ro_observed = ro_observed kept \<or> r \<noteq> None \<and> ro_entry kept = None, ro_entry = r,
                     ro_problem = (if linked then Some Linked else None)\<rparr> roots, st)))"

section \<open>What vanished and what appeared\<close>

definition file_identify :: "tree_node \<Rightarrow> u64 \<times> u64" where
  "file_identify n = (tn_Device n, tn_Inode n)"

definition same_file :: "file_placed \<Rightarrow> file_placed \<Rightarrow> bool" where
  "same_file x y \<longleftrightarrow> file_identify (fe_node (pl_entry x)) = file_identify (fe_node (pl_entry y))"

text \<open>The one that went that a name that came is, where there is one.\<close>

definition moved_from :: "file_placed list \<Rightarrow> file_placed list \<Rightarrow> file_placed \<Rightarrow> file_placed option" where
  "moved_from gone came held =
     (case (filter (same_file held) came, filter (same_file held) gone) of
        ([_], [left]) \<Rightarrow> if entry_alike (pl_entry left) (pl_entry held) then Some left else None
      | _ \<Rightarrow> None)"

definition paired :: "file_placed list \<Rightarrow> file_placed list \<Rightarrow> file_placed \<Rightarrow> bool" where
  "paired gone came left = list_ex (\<lambda>held. case moved_from gone came held of None \<Rightarrow> False | Some _ \<Rightarrow> same_file held left) came"

definition hinted_at :: "file_placed \<Rightarrow> string \<Rightarrow> file_hint option" where
  "hinted_at held p = (if p = pl_path held then pl_hint held else None)"

text \<open>What is reported within a directory that was renamed.\<close>

fun pass_within :: "string \<Rightarrow> file_entry \<Rightarrow> file_entry \<Rightarrow> file_change list"
  and pass_within_each :: "string \<Rightarrow> file_entry \<Rightarrow> (string \<times> file_entry) list \<Rightarrow> file_change list" where
  "pass_within p before (File_Entry n c t l g cs) =
     (if tn_Kind (fe_node before) \<noteq> T_Directory \<or> tn_Kind n \<noteq> T_Directory \<or> \<not> l then []
      else concat (map (\<lambda>x. map (deleted_change None) (entry_each (path_Join p (fst x)) (snd x)))
             (filter (\<lambda>x. map_of cs (fst x) = None) (fe_children before)))
        @ pass_within_each p before cs)"
| "pass_within_each p before [] = []"
| "pass_within_each p before ((name, now) # cs) =
     (case entry_child before name of
        None \<Rightarrow> map (created_change None) (entry_each (path_Join p name) now)
      | Some was \<Rightarrow>
          (if entry_compare was now True \<noteq> [] then [modified_change None (path_Join p name) (entry_compare was now True) was now] else [])
            @ pass_within (path_Join p name) was now)
     @ pass_within_each p before cs"

definition settle_gone :: "file_placed list \<Rightarrow> file_placed list \<Rightarrow> file_placed \<Rightarrow> file_roots \<times> file_change list \<Rightarrow> file_roots \<times> file_change list" where
  "settle_gone gone came held x =
     (if paired gone came held then x
      else (pass_remove held (fst x),
            snd x @ map (\<lambda>y. deleted_change (hinted_at held (fst y)) y) (entry_each (pl_path held) (pl_entry held))))"

definition settle_came :: "file_placed list \<Rightarrow> file_placed list \<Rightarrow> file_placed \<Rightarrow> file_roots \<times> file_change list \<Rightarrow> file_roots \<times> file_change list" where
  "settle_came gone came held x =
     (case moved_from gone came held of
        None \<Rightarrow> (pass_place held (fst x),
            snd x @ map (\<lambda>y. created_change (hinted_at held (fst y)) y) (entry_each (pl_path held) (pl_entry held)))
      | Some before \<Rightarrow>
          (pass_place held (pass_remove before (fst x)),
           snd x @ [\<lparr>fc_operation = Op_renamed, fc_path = pl_path held, fc_previous = pl_path before,
                     fc_changes = entry_compare (pl_entry before) (pl_entry held) True,
                     fc_before = Some (entry_snapshot (pl_entry before)), fc_after = Some (entry_snapshot (pl_entry held)),
                     fc_hint = pl_hint held\<rparr>]
             @ pass_within (pl_path held) (pl_entry before) (pl_entry held)))"

definition pass_finish :: "file_roots \<Rightarrow> file_pass \<Rightarrow> file_roots \<times> file_change list" where
  "pass_finish roots st =
     (let gone = fp_vanished st; came = fp_appeared st
      in fold (settle_came gone came) came (fold (settle_gone gone came) gone (roots, fp_reports st)))"

section \<open>A walk\<close>

fun walk_roots :: "file_env \<Rightarrow> (string \<times> file_look) list \<Rightarrow> file_roots \<Rightarrow> file_pass \<Rightarrow> bool \<times> file_roots \<times> file_pass" where
  "walk_roots ev [] roots st = (True, roots, st)"
| "walk_roots ev ((p, l) # ls) roots st =
     (case file_root ev p l roots st of
        (False, roots, st) \<Rightarrow> (False, roots, st)
      | (True, roots, st) \<Rightarrow> walk_roots ev ls roots st)"

text \<open>
  \<open>walk\<close> over the paths and what the host answers of each: whether it ended, the baseline, and the
  changes it reported. \<open>whole\<close>: the paths are all of the scope.
\<close>

definition file_walk :: "path_match \<Rightarrow> file_scope \<Rightarrow> bool \<Rightarrow> (string \<times> file_look) list \<Rightarrow> file_baseline \<Rightarrow> bool \<times> file_baseline \<times> file_change list" where
  "file_walk mt s whole ls b =
     (let ev = \<lparr>ev_match = mt, ev_scope = s, ev_fresh = fb_fresh b, ev_entries = fb_entries b\<rparr>
      in case walk_roots ev ls (fb_roots b) new_pass of
           (False, roots, st) \<Rightarrow> (False, b\<lparr>fb_roots := roots\<rparr>, fp_reports st)
         | (True, roots, st) \<Rightarrow>
             (case pass_finish roots st of (roots, reports) \<Rightarrow>
                let b = b\<lparr>fb_roots := roots\<rparr>;
                    b = b\<lparr>fb_entries := baseline_count b\<rparr>
                in (True, if whole then b\<lparr>fb_fresh := no_fresh\<rparr> else b, reports)))"

end
