(* ===== verification/Integrity_Inv.thy ===== *)
theory Integrity_Inv
  imports Integrity_Pass
begin

text \<open>
  What a pass of the integrity module tells: whatever changed at a name the walk looked at is reported,
  and a host that is as the baseline says has nothing reported.
\<close>

section \<open>Maps and entries\<close>

lemma map_of_map_put [simp]: "map_of (map_put k v m) = (map_of m)(k \<mapsto> v)"
  by (induction k v m rule: map_put.induct) (auto simp: fun_eq_iff)

lemma map_of_map_del: "map_of (map_del k m) = (map_of m)(k := None)"
  by (induction m) (auto simp: map_del_def fun_eq_iff)

lemma set_entry_simps [simp]:
  "fe_node (set_children cs e) = fe_node e" "fe_children (set_children cs e) = cs" "fe_listed (set_children cs e) = fe_listed e"
  "fe_node (set_listed l e) = fe_node e" "fe_children (set_listed l e) = fe_children e" "fe_listed (set_listed l e) = l"
  "fe_node (set_gap g e) = fe_node e" "fe_children (set_gap g e) = fe_children e" "fe_listed (set_gap g e) = fe_listed e"
  by (simp_all add: set_children_def set_listed_def set_gap_def)

lemma entry_child_simps [simp]:
  "entry_child (set_listed l e) n = entry_child e n" "entry_child (set_gap g e) n = entry_child e n"
  "entry_child (entry_adopt m x e) n = (if n = m then Some x else entry_child e n)"
  "entry_child (entry_drop m e) n = (if n = m then None else entry_child e n)"
  "fe_node (entry_adopt m x e) = fe_node e" "fe_listed (entry_adopt m x e) = fe_listed e"
  "fe_node (entry_drop m e) = fe_node e" "fe_listed (entry_drop m e) = fe_listed e"
  by (simp_all add: entry_child_def entry_adopt_def entry_drop_def map_of_map_del)

lemma entry_at_gap [simp]: "entry_at (set_gap g e) (n # ns) = entry_at e (n # ns)" "entry_at (set_listed l e) (n # ns) = entry_at e (n # ns)"
  by simp_all

text \<open>What is held below an entry is gone through.\<close>

lemma entries_each_in: "(n, c) \<in> set cs \<Longrightarrow> set (entry_each (path_Join p n) c) \<subseteq> set (entries_each p cs)"
  by (induction cs) auto

lemma entry_at_each: "entry_at e ns = Some x \<Longrightarrow> (join_names p ns, x) \<in> set (entry_each p e)"
proof (induction ns arbitrary: e p)
  case Nil
  then show ?case by (cases e) (auto simp: join_names_def)
next
  case (Cons n ns)
  then obtain c where c: "entry_child e n = Some c" "entry_at c ns = Some x" by (auto split: option.splits)
  have "(join_names (path_Join p n) ns, x) \<in> set (entry_each (path_Join p n) c)" using Cons.IH c(2) by blast
  moreover have "(n, c) \<in> set (fe_children e)" using c(1) by (simp add: entry_child_def map_of_SomeD)
  ultimately show ?case using entries_each_in [of n c "fe_children e" p]
    by (cases e) (auto simp: join_names_def)
qed

lemma join_names_Cons [simp]: "join_names p (n # ns) = join_names (path_Join p n) ns" "join_names p [] = p"
  by (simp_all add: join_names_def)

lemma join_names_append: "join_names p (ms @ ns) = join_names (join_names p ms) ns"
  by (simp add: join_names_def)

section \<open>A pass only adds\<close>

definition goes_on :: "file_pass \<Rightarrow> file_pass \<Rightarrow> bool" where
  "goes_on st st' \<longleftrightarrow> set (fp_reports st) \<subseteq> set (fp_reports st') \<and> set (fp_vanished st) \<subseteq> set (fp_vanished st')
     \<and> set (fp_appeared st) \<subseteq> set (fp_appeared st') \<and> fp_added st \<le> fp_added st'"

lemma goes_on_refl [simp, intro]: "goes_on st st" by (simp add: goes_on_def)
lemma goes_on_trans: "goes_on st st' \<Longrightarrow> goes_on st' st'' \<Longrightarrow> goes_on st st''" by (auto simp: goes_on_def)

lemma renew_goes_on: "renew h p prior now st = (held, st') \<Longrightarrow> goes_on st st' \<and> fp_added st' = fp_added st"
  by (auto simp: renew_def Let_def goes_on_def report_change_def report_all_def split: if_splits)

lemma renew_fields:
  assumes "renew h p prior now st = (held, st')"
  shows "fe_node held = fe_node now"
    "tn_Kind (fe_node now) = T_Directory \<Longrightarrow> fe_children held = fe_children prior"
    "tn_Kind (fe_node now) = T_Directory \<Longrightarrow> tn_Kind (fe_node prior) = T_Directory \<longrightarrow> fe_listed prior \<Longrightarrow> fe_listed held"
  using assms by (auto simp: renew_def Let_def pass_update_def split: if_splits)

lemma sweep_goes_on: "sweep ev rt ns p listed present held st = (held', st') \<Longrightarrow> goes_on st st' \<and> fp_added st' = fp_added st"
  by (auto simp: sweep_def Let_def goes_on_def split: if_splits)

text \<open>How many names a look holds, and so how many entries a pass may add.\<close>

fun look_names :: "file_look \<Rightarrow> nat" and seen_names :: "file_seen \<Rightarrow> nat" and dir_names :: "dir_look \<Rightarrow> nat"
  and names_in :: "(string \<times> file_look) list \<Rightarrow> nat" where
  "look_names (Look_at s) = seen_names s"
| "look_names _ = 0"
| "seen_names (Seen n t hs dl) = dir_names dl"
| "dir_names (Dir_names xs) = names_in xs"
| "dir_names _ = 0"
| "names_in [] = 0"
| "names_in ((n, l) # xs) = 1 + look_names l + names_in xs"

lemma length_names_in: "length xs \<le> names_in xs"
  by (induction xs) auto

text \<open>The steps of a pass, one for each way it takes.\<close>

declare file_observe.simps [simp del] dir_descend.simps [simp del] dir_visit.simps(2) [simp del]

definition walked_name :: "file_env \<Rightarrow> string \<Rightarrow> string \<Rightarrow> string \<Rightarrow> bool" where
  "walked_name ev rt p name \<longleftrightarrow>
     length (path_Join p name) \<le> maxPathBytes \<and> scope_walks (ev_match ev) (ev_scope ev) rt (path_Join p name)"

lemma visit_cases:
  assumes "dir_visit ev rt ns p listed depth present ((name, l) # xs) held st = (held', present', ok, st')"
  obtains (stopped) "\<not> ok" "st' = st" "held' = held"
  | (skipped) "\<not> walked_name ev rt p name \<or> l = Look_gone" "dir_visit ev rt ns p listed depth present xs held st = (held', present', ok, st')"
  | (failed) "walked_name ev rt p name" "l = Look_failed"
      "dir_visit ev rt ns p listed depth (name # present) xs held st = (held', present', ok, st')"
  | (observed) s r ok1 st1 where "walked_name ev rt p name" "l = Look_at s"
      "file_observe ev rt (ns @ [name]) (path_Join p name) None (entry_child held name) (\<not> listed) (tn_Device (fe_node held)) depth s st = (r, ok1, st1)"
      "if ok1 then dir_visit ev rt ns p listed depth (name # present) xs (case r of None \<Rightarrow> held | Some e \<Rightarrow> entry_adopt name e held) st1 = (held', present', ok, st')
       else \<not> ok \<and> st' = st1 \<and> held' = (case r of None \<Rightarrow> held | Some e \<Rightarrow> entry_adopt name e held)"
proof (cases "walked_name ev rt p name")
  case False
  then show thesis using assms stopped skipped
    by (cases "look_stops l") (auto simp: dir_visit.simps(2) walked_name_def Let_def split: if_splits)
next
  case True
  then have w: "\<not> (length (path_Join p name) > maxPathBytes \<or> \<not> scope_walks (ev_match ev) (ev_scope ev) rt (path_Join p name))"
    by (auto simp: walked_name_def)
  show thesis
  proof (cases l)
    case (Look_at s)
    obtain r ok1 st1 where o: "file_observe ev rt (ns @ [name]) (path_Join p name) None (entry_child held name) (\<not> listed)
        (tn_Device (fe_node held)) depth s st = (r, ok1, st1)" by (metis prod_cases3)
    then show ?thesis using observed [OF True Look_at o] assms w Look_at
      by (cases ok1) (auto simp: dir_visit.simps(2) Let_def)
  qed (use assms stopped skipped failed w True in \<open>auto simp: dir_visit.simps(2) Let_def\<close>)
qed

lemma descend_cases:
  assumes "dir_descend ev rt ns p held pdev depth dl st = (held', ok, st')"
  obtains (left) g where "held' = held \<or> held' = set_gap g held" "st' = st"
      "tn_Kind (fe_node held) \<noteq> T_Directory \<or> depth > 0 \<and> tn_Device (fe_node held) \<noteq> pdev \<or> depth \<ge> maxDepth
       \<or> (\<forall>xs. dl \<noteq> Dir_names xs) \<or> (\<exists>xs. dl = Dir_names xs \<and> length xs > pass_room ev held st)"
  | (gone_through) xs held1 present ok1 st1 where "dl = Dir_names xs" "tn_Kind (fe_node held) = T_Directory"
      "dir_visit ev rt ns p (fe_listed held) (Suc depth) [] xs held st = (held1, present, ok1, st1)"
      "if ok1 then ok \<and> sweep ev rt ns p (fe_listed held) present held1 st1 = (held', st') else \<not> ok \<and> held' = held1 \<and> st' = st1"
proof (cases "tn_Kind (fe_node held) \<noteq> T_Directory \<or> depth > 0 \<and> tn_Device (fe_node held) \<noteq> pdev \<or> depth \<ge> maxDepth
      \<or> (\<forall>xs. dl \<noteq> Dir_names xs) \<or> (\<exists>xs. dl = Dir_names xs \<and> length xs > pass_room ev held st)")
  case True
  then show thesis using assms left by (auto simp: dir_descend.simps split: if_splits dir_look.splits)
next
  case False
  then obtain xs where xs: "dl = Dir_names xs" "\<not> length xs > pass_room ev held st" by auto
  obtain held1 present ok1 st1 where v: "dir_visit ev rt ns p (fe_listed held) (Suc depth) [] xs held st = (held1, present, ok1, st1)"
    by (metis prod_cases4)
  show thesis using assms False xs v gone_through [OF xs(1) _ v]
    by (auto simp: dir_descend.simps split: if_splits prod.splits)
qed

lemma observe_cases:
  assumes "file_observe ev rt ns p h prior unseen pdev depth (Seen node target hs dl) st = (r, ok, st')"
  obtains (unread) "\<not> ok" "r = prior" "st' = st"
  | (placed) now now' where "now_entry prior node target hs = Some now" "prior = None" "unseen \<or> fresh_holds (ev_match ev) (ev_fresh ev) p"
      "dir_descend ev rt ns p now pdev depth dl (st\<lparr>fp_added := fp_added st + 1, fp_changed := True\<rparr>) = (now', ok, st')" "r = Some now'"
  | (appeared) now now' st1 where "now_entry prior node target hs = Some now" "prior = None" "\<not> (unseen \<or> fresh_holds (ev_match ev) (ev_fresh ev) p)"
      "dir_descend ev rt ns p now pdev depth dl (st\<lparr>fp_added := fp_added st + 1\<rparr>) = (now', ok, st1)" "r = None"
      "st' = (if ok then st1\<lparr>fp_appeared := fp_appeared st1 @ [\<lparr>pl_path = p, pl_root = rt, pl_names = ns, pl_entry = now', pl_hint = h\<rparr>]\<rparr> else st1)"
  | (renewed) e now held st1 held' where "now_entry prior node target hs = Some now" "prior = Some e" "renew h p e now st = (held, st1)"
      "dir_descend ev rt ns p held pdev depth dl st1 = (held', ok, st')" "r = Some held'"
proof (cases "now_entry prior node target hs")
  case None
  then show thesis using assms unread by (simp add: file_observe.simps)
next
  case (Some now)
  show thesis
  proof (cases prior)
    case None
    then show thesis using assms Some placed [OF Some None] appeared [OF Some None]
      by (auto simp: file_observe.simps split: if_splits prod.splits)
  next
    case (Some e)
    then show thesis using assms renewed [OF \<open>now_entry prior node target hs = Some now\<close> Some] \<open>now_entry prior node target hs = Some now\<close>
      by (auto simp: file_observe.simps split: prod.splits)
  qed
qed

text \<open>\<open>added\<close> grows by no more than the names that were looked at.\<close>

lemma pass_goes_on:
  "\<And>ev rt ns p h prior unseen pdev depth st r ok st'. l = Look_at s \<Longrightarrow> file_observe ev rt ns p h prior unseen pdev depth s st = (r, ok, st')
     \<Longrightarrow> goes_on st st' \<and> fp_added st' \<le> fp_added st + 1 + seen_names s"
  "\<And>ev rt ns p h prior unseen pdev depth st r ok st'. file_observe ev rt ns p h prior unseen pdev depth s st = (r, ok, st')
     \<Longrightarrow> goes_on st st' \<and> fp_added st' \<le> fp_added st + 1 + seen_names s"
  "\<And>ev rt ns p held pdev depth st held' ok st'. dir_descend ev rt ns p held pdev depth dl st = (held', ok, st')
     \<Longrightarrow> goes_on st st' \<and> fp_added st' \<le> fp_added st + dir_names dl"
proof (induction l and s and dl arbitrary: s)
  case (Seen node target hs dl)
  from Seen.prems show ?case
  proof (cases rule: observe_cases)
    case (renewed e now held st1 held')
    then show ?thesis using Seen.IH [OF renewed(4)] renew_goes_on [OF renewed(3)] by (auto intro: goes_on_trans)
  next
    case (placed now now')
    then show ?thesis using Seen.IH [OF placed(4)] by (auto simp: goes_on_def)
  next
    case (appeared now now' st1)
    then show ?thesis using Seen.IH [OF appeared(4)] by (auto simp: goes_on_def)
  qed simp
next
  case (Dir_names xs)
  have visit: "goes_on st st' \<and> fp_added st' \<le> fp_added st + names_in ys"
    if "dir_visit ev rt ns p listed depth present ys held st = (held', present', ok, st')" "set ys \<subseteq> set xs"
    for ys ev rt ns p listed depth present held st held' present' ok st'
    using that
  proof (induction ys arbitrary: present held st)
    case (Cons y ys)
    obtain name l where y: "y = (name, l)" by fastforce
    from Cons.prems(1) [unfolded y] show ?case
    proof (cases rule: visit_cases)
      case (observed s r ok1 st1)
      have "goes_on st st1 \<and> fp_added st1 \<le> fp_added st + 1 + seen_names s"
        using Dir_names.IH [OF _ _ observed(2,3), of y] Cons.prems(2) y by (simp add: snds.intros)
      then show ?thesis using observed(2,4) Cons.IH Cons.prems(2) y
        by (cases ok1) (fastforce dest: goes_on_trans)+
    qed (use Cons y in fastforce)+
  qed simp
  from Dir_names.prems show ?case
  proof (cases rule: descend_cases)
    case (gone_through ys held1 present ok1 st1)
    then show ?thesis using visit [OF gone_through(3)] by (cases ok1) (auto dest!: sweep_goes_on dest: goes_on_trans)
  qed auto
qed (auto elim: descend_cases)


section \<open>Where a walk looks\<close>

text \<open>What the host has at the end of a list of names, and the names a walk looks at on the way.\<close>

fun seen_at :: "file_seen \<Rightarrow> string list \<Rightarrow> file_seen option" where
  "seen_at s [] = Some s"
| "seen_at (Seen node t hs dl) (n # ns) =
     (case dl of
        Dir_names xs \<Rightarrow> (case map_of xs n of Some (Look_at c) \<Rightarrow> seen_at c ns | _ \<Rightarrow> None)
      | _ \<Rightarrow> None)"

fun on_walk :: "file_env \<Rightarrow> string \<Rightarrow> string \<Rightarrow> nat \<Rightarrow> u64 \<Rightarrow> file_seen \<Rightarrow> string list \<Rightarrow> bool" where
  "on_walk ev rt p depth pdev s [] = True"
| "on_walk ev rt p depth pdev (Seen node t hs dl) (n # ns) =
     (tn_Kind node = T_Directory \<longrightarrow>
        \<not> (depth > 0 \<and> tn_Device node \<noteq> pdev) \<and> depth < maxDepth \<and> walked_name ev rt p n
        \<and> (case dl of
             Dir_names xs \<Rightarrow>
               (case map_of xs n of
                  Some (Look_at c) \<Rightarrow> on_walk ev rt (path_Join p n) (Suc depth) (tn_Device node) c ns
                | Some l \<Rightarrow> l = Look_gone
                | None \<Rightarrow> True)
           | _ \<Rightarrow> False))"

text \<open>A name of a directory is listed once, and only a directory is entered.\<close>

fun once_look :: "file_look \<Rightarrow> bool" and once_seen :: "file_seen \<Rightarrow> bool" and once_dir :: "dir_look \<Rightarrow> bool"
  and once_names :: "(string \<times> file_look) list \<Rightarrow> bool" where
  "once_look (Look_at s) = once_seen s"
| "once_look _ = True"
| "once_seen (Seen n t hs dl) = ((tn_Kind n \<noteq> T_Directory \<longrightarrow> dl = Dir_refused False) \<and> once_dir dl)"
| "once_dir (Dir_names xs) = (distinct (map fst xs) \<and> once_names xs)"
| "once_dir _ = True"
| "once_names [] = True"
| "once_names ((n, l) # xs) = (once_look l \<and> once_names xs)"

lemma once_names_at: "once_names xs \<Longrightarrow> map_of xs n = Some l \<Longrightarrow> once_look l"
  by (induction xs) (auto split: if_splits)

lemma names_at: "map_of xs n = Some l \<Longrightarrow> 1 + look_names l \<le> names_in xs"
  by (induction xs) (auto split: if_splits)

section \<open>Going through a directory\<close>

lemma visit_keeps:
  assumes "dir_visit ev rt ns p listed depth present xs held st = (held', present', ok, st')"
  shows "fe_node held' = fe_node held \<and> fe_listed held' = fe_listed held \<and> goes_on st st' \<and> fp_added st' \<le> fp_added st + names_in xs"
  using assms
proof (induction xs arbitrary: present held st)
  case (Cons y ys)
  obtain name l where y: "y = (name, l)" by fastforce
  from Cons.prems [unfolded y] show ?case
  proof (cases rule: visit_cases)
    case stopped
    then show ?thesis by simp
  next
    case skipped
    then show ?thesis using Cons.IH [OF skipped(2)] y by simp
  next
    case failed
    then show ?thesis using Cons.IH [OF failed(3)] y by simp
  next
    case (observed s r ok1 st1)
    have g: "goes_on st st1 \<and> fp_added st1 \<le> fp_added st + 1 + seen_names s" using pass_goes_on(2) [OF observed(3)] .
    show ?thesis
    proof (cases ok1)
      case True
      note v = observed(4) [simplified this if_True]
      show ?thesis using Cons.IH [OF v] g y observed(2) goes_on_trans [of st st1 st'] by (cases r) auto
    next
      case False
      then show ?thesis using observed(4) g y observed(2) by (cases r) auto
    qed
  qed
qed simp

text \<open>A name that the host does not have, or that is not walked, is left as it was and not present.\<close>

lemma visit_absent:
  assumes "dir_visit ev rt ns p listed depth present xs held st = (held', present', True, st')" "distinct (map fst xs)"
    and "map_of xs n = None \<or> map_of xs n = Some Look_gone \<or> \<not> walked_name ev rt p n"
  shows "entry_child held' n = entry_child held n \<and> (n \<in> set present' \<longleftrightarrow> n \<in> set present)"
  using assms
proof (induction xs arbitrary: present held st)
  case (Cons y ys)
  obtain name l where y: "y = (name, l)" by fastforce
  have ys: "distinct (map fst ys)" "map_of ys n = None \<or> map_of ys n = Some Look_gone \<or> \<not> walked_name ev rt p n"
    using Cons.prems(2,3) y by (auto split: if_splits simp: map_of_eq_None_iff)
  from Cons.prems(1) [unfolded y] show ?case
  proof (cases rule: visit_cases)
    case skipped
    then show ?thesis using Cons.IH [OF skipped(2) ys] by simp
  next
    case failed
    then have "name \<noteq> n" using Cons.prems(3) y by (auto split: if_splits)
    then show ?thesis using Cons.IH [OF failed(3) ys] by auto
  next
    case (observed s r ok1 st1)
    then have n: "name \<noteq> n" using Cons.prems(3) y by (auto split: if_splits)
    have ok1 using observed(4) by (cases ok1) auto
    note v = observed(4) [simplified this if_True]
    show ?thesis using Cons.IH [OF v ys] n by (cases r) auto
  qed simp
qed simp

text \<open>A name that the host has is observed, with what was held of it.\<close>

lemma visit_seen:
  assumes "dir_visit ev rt ns p listed depth present xs held st = (held', present', True, st')" "distinct (map fst xs)"
    and "map_of xs n = Some (Look_at c)" "walked_name ev rt p n"
  shows "\<exists>st1 r st2. goes_on st st1 \<and> fp_added st1 + 1 + seen_names c \<le> fp_added st + names_in xs
     \<and> file_observe ev rt (ns @ [n]) (path_Join p n) None (entry_child held n) (\<not> listed) (tn_Device (fe_node held)) depth c st1 = (r, True, st2)
     \<and> goes_on st2 st' \<and> entry_child held' n = (case r of None \<Rightarrow> entry_child held n | Some e \<Rightarrow> Some e) \<and> n \<in> set present'"
  using assms
proof (induction xs arbitrary: present held st)
  case (Cons y ys)
  obtain name l where y: "y = (name, l)" by fastforce
  show ?case
  proof (cases "name = n")
    case True
    then have l: "l = Look_at c" and a: "map_of ys n = None" using Cons.prems(2,3) y by (auto simp: map_of_eq_None_iff)
    from Cons.prems(1) [unfolded y] show ?thesis
    proof (cases rule: visit_cases)
      case (observed s r ok1 st1)
      then have ok1 using observed(4) by (cases ok1) auto
      note v = observed(4) [simplified this if_True]
      show ?thesis
        using visit_absent [OF v, of n] visit_keeps [OF v] observed(3) Cons.prems(2) True l a observed(2) y \<open>ok1\<close>
        by (intro exI [of _ st] exI [of _ r] exI [of _ st1]) (auto split: option.splits)
    qed (use True l Cons.prems(4) in auto)
  next
    case False
    then have m: "map_of ys n = Some (Look_at c)" "distinct (map fst ys)" using Cons.prems(2,3) y by auto
    from Cons.prems(1) [unfolded y] show ?thesis
    proof (cases rule: visit_cases)
      case skipped
      then show ?thesis using Cons.IH [OF skipped(2) m(2,1) Cons.prems(4)] y by force
    next
      case failed
      then show ?thesis using Cons.IH [OF failed(3) m(2,1) Cons.prems(4)] y by force
    next
      case (observed s r ok1 st1)
      then have ok1 using observed(4) by (cases ok1) auto
      note v = observed(4) [simplified this if_True]
      have g: "goes_on st st1" "fp_added st1 \<le> fp_added st + 1 + seen_names s" using pass_goes_on(2) [OF observed(3)] by auto
      obtain st2 q st3 where o: "goes_on st1 st2" "fp_added st2 + 1 + seen_names c \<le> fp_added st1 + names_in ys"
        "file_observe ev rt (ns @ [n]) (path_Join p n) None (entry_child held n) (\<not> listed) (tn_Device (fe_node held)) depth c st2 = (q, True, st3)"
        "goes_on st3 st'" "entry_child held' n = (case q of None \<Rightarrow> entry_child held n | Some e \<Rightarrow> Some e)" "n \<in> set present'"
        using Cons.IH [OF v m(2,1) Cons.prems(4)] False by (auto split: option.splits)
      have "fp_added st2 + 1 + seen_names c \<le> fp_added st + names_in (y # ys)" using o(2) g(2) observed(2) y by simp
      then show ?thesis using o(3-) goes_on_trans [OF g(1) o(1)] by blast
    qed simp
  qed
qed simp


lemma goes_in:
  assumes "dir_descend ev rt ns p held pdev depth (Dir_names xs) st = (held', True, st')" "tn_Kind (fe_node held) = T_Directory"
    and "\<not> (depth > 0 \<and> tn_Device (fe_node held) \<noteq> pdev)" "depth < maxDepth" "ev_entries ev + fp_added st + names_in xs \<le> maxEntries"
  obtains held1 present st1 where "dir_visit ev rt ns p (fe_listed held) (Suc depth) [] xs held st = (held1, present, True, st1)"
    "sweep ev rt ns p (fe_listed held) present held1 st1 = (held', st')"
proof -
  have room: "length xs \<le> pass_room ev held st" using assms(5) length_names_in [of xs] by (auto simp: pass_room_def)
  from assms(1) show thesis
  proof (cases rule: descend_cases)
    case (gone_through ys held1 present ok1 st1)
    then show ?thesis using that by (cases ok1) auto
  qed (use assms(2-4) room in auto)
qed

lemma sweep_child:
  assumes "sweep ev rt ns p listed present held st = (held', st')"
  shows "listed \<or> n \<in> set present \<Longrightarrow> entry_child held' n = entry_child held n"
    and "listed \<Longrightarrow> n \<notin> set present \<Longrightarrow> walked_name ev rt p n \<Longrightarrow> entry_child held n = Some c \<Longrightarrow>
      \<exists>v \<in> set (fp_vanished st'). pl_path v = path_Join p n \<and> pl_entry v = c"
proof -
  have *: "entry_child (fold (\<lambda>x. entry_drop (fst x)) (filter P held) e) n = entry_child e n" if "\<forall>x. P x \<longrightarrow> fst x \<noteq> n"
    for P and held :: "(string \<times> file_entry) list" and e
    using that by (induction held arbitrary: e) auto
  show "entry_child held' n = entry_child held n" if "listed \<or> n \<in> set present"
    using assms that by (auto simp: sweep_def Let_def intro!: *)
  show "\<exists>v \<in> set (fp_vanished st'). pl_path v = path_Join p n \<and> pl_entry v = c"
    if "listed" "n \<notin> set present" "walked_name ev rt p n" "entry_child held n = Some c"
    using assms that by (force simp: sweep_def Let_def walked_name_def entry_child_def dest!: map_of_SomeD)
qed

section \<open>What is told of a name\<close>

text \<open>A directory of the baseline was listed, and nothing else holds entries.\<close>

definition kept_well :: "file_entry \<Rightarrow> bool" where
  "kept_well e \<longleftrightarrow> (\<forall>ns x. entry_at e ns = Some x \<longrightarrow> (if tn_Kind (fe_node x) = T_Directory then fe_listed x else fe_children x = []))"

lemma kept_wellI:
  assumes "if tn_Kind (fe_node e) = T_Directory then fe_listed e else fe_children e = []" "\<And>n c. entry_child e n = Some c \<Longrightarrow> kept_well c"
  shows "kept_well e"
proof -
  have "if tn_Kind (fe_node x) = T_Directory then fe_listed x else fe_children x = []" if at: "entry_at e ns = Some x" for ns x
  proof (cases ns)
    case (Cons n ms)
    then obtain c where "entry_child e n = Some c" "entry_at c ms = Some x" using at by (auto split: option.splits)
    then show ?thesis using assms(2) unfolding kept_well_def by blast
  qed (use at assms(1) in auto)
  then show ?thesis by (simp add: kept_well_def)
qed

lemma kept_well_child: "kept_well e \<Longrightarrow> entry_child e n = Some c \<Longrightarrow> kept_well c"
  unfolding kept_well_def by (metis entry_at.simps(2) option.simps(5))

lemma kept_well_here: "kept_well e \<Longrightarrow> (if tn_Kind (fe_node e) = T_Directory then fe_listed e else fe_children e = [])"
  unfolding kept_well_def by (metis entry_at.simps(1))

text \<open>Where a pass meets a name it held below a name it observes.\<close>

lemma observed_below:
  assumes "file_observe ev rt ms p h (Some e) unseen pdev depth (Seen node t hs (Dir_names xs)) st = (r, True, st')"
    and "tn_Kind node = T_Directory" "on_walk ev rt p depth pdev (Seen node t hs (Dir_names xs)) (n # ns)"
    and "ev_entries ev + fp_added st + names_in xs \<le> maxEntries"
  obtains held st1 held1 present st2 held' where "fe_node held = node" "fe_children held = fe_children e"
    "(tn_Kind (fe_node e) = T_Directory \<longrightarrow> fe_listed e) \<longrightarrow> fe_listed held" "fp_added st1 = fp_added st"
    "dir_visit ev rt ms p (fe_listed held) (Suc depth) [] xs held st1 = (held1, present, True, st2)"
    "sweep ev rt ms p (fe_listed held) present held1 st2 = (held', st')"
  using assms(1)
proof (cases rule: observe_cases)
  case (renewed f now held st1 held')
  have k: "fe_node now = node" using renewed(1) by (auto simp: now_entry_def split: if_splits)
  have s1: "fp_added st1 = fp_added st" using renew_goes_on [OF renewed(3)] by simp
  have hn: "fe_node held = node" using renew_fields(1) [OF renewed(3)] k by simp
  have ok: "dir_descend ev rt ms p held pdev depth (Dir_names xs) st1 = (held', True, st')" using renewed(4) by simp
  from goes_in [OF ok] obtain held1 present st2 where
    "dir_visit ev rt ms p (fe_listed held) (Suc depth) [] xs held st1 = (held1, present, True, st2)"
    "sweep ev rt ms p (fe_listed held) present held1 st2 = (held', st')"
    using assms(2-4) hn s1 by auto
  then show thesis
    using that [OF hn _ _ s1] renew_fields(2,3) [OF renewed(3)] k assms(2) renewed(2) by auto
qed auto

text \<open>A name that is held and that the host has: what changed in between is reported.\<close>

lemma modified_is_told:
  assumes "file_observe ev rt ms p h (Some e) unseen pdev depth s st = (r, True, st')" "once_seen s"
    and "ev_entries ev + fp_added st + seen_names s \<le> maxEntries" "on_walk ev rt p depth pdev s ns"
    and "seen_at s ns = Some (Seen node t hs dl)" "entry_at e ns = Some x"
  shows "\<exists>now. now_entry (Some x) node t hs = Some now \<and> (entry_compare x now False \<noteq> [] \<longrightarrow>
     (\<exists>c \<in> set (fp_reports st'). fc_operation c = Op_modified \<and> fc_path c = join_names p ns \<and> fc_changes c = entry_compare x now False))"
  using assms
proof (induction ns arbitrary: ms p h e unseen pdev depth s st r st')
  case Nil
  then have s: "s = Seen node t hs dl" "e = x" by simp_all
  from Nil.prems(1) [unfolded s(1)] show ?case
  proof (cases rule: observe_cases)
    case (renewed f now held st1 held')
    have "goes_on st1 st'" using pass_goes_on(3) [OF renewed(4)] by simp
    moreover have "\<exists>c \<in> set (fp_reports st1). fc_operation c = Op_modified \<and> fc_path c = p \<and> fc_changes c = entry_compare x now False"
      if "entry_compare x now False \<noteq> []"
      using renewed(2,3) s that
      by (auto simp: renew_def Let_def report_change_def report_all_def modified_change_def split: if_splits)
    ultimately show ?thesis using renewed(1,2) s unfolding goes_on_def by fastforce
  qed (use s in auto)
next
  case (Cons n ns)
  obtain node0 t0 hs0 xs c where s: "s = Seen node0 t0 hs0 (Dir_names xs)" "map_of xs n = Some (Look_at c)"
    "seen_at c ns = Some (Seen node t hs dl)"
    using Cons.prems(5) by (cases s) (auto split: dir_look.splits option.splits file_look.splits)
  have d: "tn_Kind node0 = T_Directory" using Cons.prems(2) s(1) by auto
  obtain e' where e': "entry_child e n = Some e'" "entry_at e' ns = Some x" using Cons.prems(6) by (auto split: option.splits)
  have w: "walked_name ev rt p n" "on_walk ev rt (path_Join p n) (Suc depth) (tn_Device node0) c ns"
    using Cons.prems(4) s d by auto
  have o: "distinct (map fst xs)" "once_seen c" using Cons.prems(2) s once_names_at [of xs n] by auto
  have "ev_entries ev + fp_added st + names_in xs \<le> maxEntries" using Cons.prems(3) s(1) by simp
  from observed_below [OF Cons.prems(1) [unfolded s(1)] d Cons.prems(4) [unfolded s(1)] this] obtain held st1 held1 present st2 held'
    where h: "fe_node held = node0" "fe_children held = fe_children e" "fp_added st1 = fp_added st"
    "dir_visit ev rt ms p (fe_listed held) (Suc depth) [] xs held st1 = (held1, present, True, st2)"
    "sweep ev rt ms p (fe_listed held) present held1 st2 = (held', st')" by metis
  have ch: "entry_child held n = Some e'" using e'(1) h(2) by (simp add: entry_child_def)
  obtain st3 q st4 where v: "fp_added st3 + 1 + seen_names c \<le> fp_added st1 + names_in xs"
    "file_observe ev rt (ms @ [n]) (path_Join p n) None (Some e') (\<not> fe_listed held) (tn_Device node0) (Suc depth) c st3 = (q, True, st4)"
    "goes_on st4 st2"
    using visit_seen [OF h(4) o(1) s(2) w(1)] h(1) ch by auto
  have b: "ev_entries ev + fp_added st3 + seen_names c \<le> maxEntries" using v(1) Cons.prems(3) s(1) h(3) by simp
  have "goes_on st4 st'" using goes_on_trans [OF v(3)] sweep_goes_on [OF h(5)] by blast
  then show ?case using Cons.IH [OF v(2) o(2) b w(2) s(3) e'(2)] unfolding goes_on_def by fastforce
qed


text \<open>A name that is held and that the host does not have is reported, or among what vanished.\<close>

definition gone_told :: "file_pass \<Rightarrow> string \<Rightarrow> string list \<Rightarrow> file_entry \<Rightarrow> bool" where
  "gone_told st p ns x \<longleftrightarrow>
     (\<exists>c \<in> set (fp_reports st). fc_operation c = Op_deleted \<and> fc_path c = join_names p ns)
     \<or> (\<exists>v \<in> set (fp_vanished st). \<exists>ms rest. ns = ms @ rest \<and> pl_path v = join_names p ms \<and> entry_at (pl_entry v) rest = Some x)"

lemma gone_told_Cons:
  assumes "gone_told st (path_Join p n) ns x"
  shows "gone_told st p (n # ns) x"
  using assms unfolding gone_told_def by (metis append_Cons join_names_Cons(1))

lemma gone_told_mono: "gone_told st p ns x \<Longrightarrow> goes_on st st' \<Longrightarrow> gone_told st' p ns x"
  unfolding gone_told_def goes_on_def by blast

lemma gone_is_told:
  assumes "file_observe ev rt ms p h (Some e) unseen pdev depth s st = (r, True, st')" "once_seen s" "kept_well e"
    and "ev_entries ev + fp_added st + seen_names s \<le> maxEntries" "on_walk ev rt p depth pdev s ns"
    and "seen_at s ns = None" "entry_at e ns = Some x"
  shows "gone_told st' p ns x"
  using assms
proof (induction ns arbitrary: ms p h e unseen pdev depth s st r st')
  case (Cons n ns)
  obtain node t hs dl where s: "s = Seen node t hs dl" by (cases s)
  obtain e' where e': "entry_child e n = Some e'" "entry_at e' ns = Some x" using Cons.prems(7) by (auto split: option.splits)
  have ed: "tn_Kind (fe_node e) = T_Directory"
    using kept_well_here [OF Cons.prems(3)] e'(1) by (auto simp: entry_child_def split: if_splits)
  show ?case
  proof (cases "tn_Kind node = T_Directory")
    case False
    from Cons.prems(1) [unfolded s] show ?thesis
    proof (cases rule: observe_cases)
      case (renewed f now held st1 held')
      have "fe_node now = node" using renewed(1) by (auto simp: now_entry_def split: if_splits)
      then have "set (map (deleted_change None) (entries_each p (fe_children e))) \<subseteq> set (fp_reports st1)"
        using renewed(2,3) ed False by (auto simp: renew_def Let_def report_all_def)
      moreover have "(join_names p (n # ns), x) \<in> set (entries_each p (fe_children e))"
        using entry_at_each [OF e'(2), of "path_Join p n"] entries_each_in [of n e' "fe_children e" p] e'(1)
        by (auto simp: entry_child_def dest!: map_of_SomeD)
      ultimately have "deleted_change None (join_names p (n # ns), x) \<in> set (fp_reports st1)"
        by (metis imageI list.set_map subsetD)
      then have "gone_told st1 p (n # ns) x" unfolding gone_told_def by (intro disjI1 bexI) (simp_all add: deleted_change_def)
      then show ?thesis using gone_told_mono pass_goes_on(3) [OF renewed(4)] by blast
    qed auto
  next
    case d: True
    then obtain xs where xs: "dl = Dir_names xs" using Cons.prems(5) s by (auto split: dir_look.splits)
    have w: "walked_name ev rt p n" using Cons.prems(5) s d xs by simp
    have o: "distinct (map fst xs)" using Cons.prems(2) s xs by auto
    have "ev_entries ev + fp_added st + names_in xs \<le> maxEntries" using Cons.prems(4) s xs by simp
    from observed_below [OF Cons.prems(1) [unfolded s xs] d Cons.prems(5) [unfolded s xs] this] obtain held st1 held1 present st2 held'
      where h: "fe_node held = node" "fe_children held = fe_children e" "(tn_Kind (fe_node e) = T_Directory \<longrightarrow> fe_listed e) \<longrightarrow> fe_listed held"
      "fp_added st1 = fp_added st"
      "dir_visit ev rt ms p (fe_listed held) (Suc depth) [] xs held st1 = (held1, present, True, st2)"
      "sweep ev rt ms p (fe_listed held) present held1 st2 = (held', st')" by metis
    have hl: "fe_listed held" using h(3) kept_well_here [OF Cons.prems(3)] ed by simp
    have ch: "entry_child held n = Some e'" using e'(1) h(2) by (simp add: entry_child_def)
    show ?thesis
    proof (cases "\<exists>c. map_of xs n = Some (Look_at c)")
      case True
      then obtain c where c: "map_of xs n = Some (Look_at c)" by blast
      have cw: "once_seen c" "on_walk ev rt (path_Join p n) (Suc depth) (tn_Device node) c ns" "seen_at c ns = None"
        using Cons.prems(2,5,6) s xs d c once_names_at [of xs n] by auto
      obtain st3 q st4 where v: "fp_added st3 + 1 + seen_names c \<le> fp_added st1 + names_in xs"
        "file_observe ev rt (ms @ [n]) (path_Join p n) None (Some e') (\<not> fe_listed held) (tn_Device node) (Suc depth) c st3 = (q, True, st4)"
        "goes_on st4 st2"
        using visit_seen [OF h(5) o c w] h(1) ch by auto
      have b: "ev_entries ev + fp_added st3 + seen_names c \<le> maxEntries" using v(1) Cons.prems(4) s xs h(4) by simp
      have "goes_on st4 st'" using goes_on_trans [OF v(3)] sweep_goes_on [OF h(6)] by simp
      then show ?thesis
        by (rule gone_told_mono [OF gone_told_Cons [OF Cons.IH [OF v(2) cw(1) kept_well_child [OF Cons.prems(3) e'(1)] b cw(2,3) e'(2)]]])
    next
      case False
      then have "map_of xs n = None \<or> map_of xs n = Some Look_gone"
        using Cons.prems(5) s xs d by (auto split: option.splits file_look.splits)
      then have "entry_child held1 n = Some e' \<and> n \<notin> set present" using visit_absent [OF h(5) o, of n] ch by auto
      then obtain v where "v \<in> set (fp_vanished st')" "pl_path v = path_Join p n" "pl_entry v = e'"
        using sweep_child(2) [OF h(6) hl _ w] by blast
      then show ?thesis using e'(2) unfolding gone_told_def
        by (intro disjI2 bexI [of _ v] exI [of _ "[n]"] exI [of _ ns]) auto
    qed
  qed
qed simp

text \<open>What a name that came holds is all that the host has below it.\<close>

lemma new_holds_seen:
  assumes "dir_descend ev rt ms p held pdev depth dl st = (held', True, st')" "once_seen (Seen node t hs dl)"
    and "fe_node held = node" "fe_children held = []" "\<not> fe_listed held"
    and "ev_entries ev + fp_added st + dir_names dl \<le> maxEntries" "on_walk ev rt p depth pdev (Seen node t hs dl) ns"
    and "seen_at (Seen node t hs dl) ns \<noteq> None"
  shows "entry_at held' ns \<noteq> None"
  using assms
proof (induction ns arbitrary: ms p held pdev depth dl st node t hs held' st')
  case (Cons n ns)
  obtain xs c where s: "dl = Dir_names xs" "map_of xs n = Some (Look_at c)" "seen_at c ns \<noteq> None"
    using Cons.prems(8) by (auto split: dir_look.splits option.splits file_look.splits)
  have d: "tn_Kind node = T_Directory" using Cons.prems(2) s(1) by auto
  have w: "walked_name ev rt p n" "on_walk ev rt (path_Join p n) (Suc depth) (tn_Device node) c ns"
      "\<not> (depth > 0 \<and> tn_Device node \<noteq> pdev)" "depth < maxDepth"
    using Cons.prems(7) s d by auto
  have o: "distinct (map fst xs)" "once_seen c" using Cons.prems(2) s once_names_at [of xs n] by auto
  have "tn_Kind (fe_node held) = T_Directory" "\<not> (depth > 0 \<and> tn_Device (fe_node held) \<noteq> pdev)" "ev_entries ev + fp_added st + names_in xs \<le> maxEntries"
    using Cons.prems(3,6) s(1) d w(3) by auto
  from goes_in [OF Cons.prems(1) [unfolded s(1)] this(1,2) w(4) this(3)] obtain held1 present st1 where
    h: "dir_visit ev rt ms p (fe_listed held) (Suc depth) [] xs held st = (held1, present, True, st1)"
      "sweep ev rt ms p (fe_listed held) present held1 st1 = (held', st')" .
  have ch: "entry_child held n = None" using Cons.prems(4) by (simp add: entry_child_def)
  obtain st3 q st4 where v: "fp_added st3 + 1 + seen_names c \<le> fp_added st + names_in xs"
    "file_observe ev rt (ms @ [n]) (path_Join p n) None None True (tn_Device node) (Suc depth) c st3 = (q, True, st4)"
    "entry_child held1 n = q" "n \<in> set present"
    using visit_seen [OF h(1) o(1) s(2) w(1)] ch Cons.prems(3,5) by (auto split: option.splits)
  obtain cnode ct chs cdl where c: "c = Seen cnode ct chs cdl" by (cases c)
  from v(2) [unfolded c] show ?case
  proof (cases rule: observe_cases)
    case (placed now now')
    have f: "fe_node now = cnode" "fe_children now = []" "\<not> fe_listed now" using placed(1) by (auto simp: now_entry_def split: if_splits)
    have b: "ev_entries ev + fp_added (st3\<lparr>fp_added := fp_added st3 + 1, fp_changed := True\<rparr>) + dir_names cdl \<le> maxEntries"
      using v(1) Cons.prems(6) s(1) c by simp
    have "entry_at now' ns \<noteq> None"
      using Cons.IH [OF placed(4) _ f b] o(2) w(2) s(3) c by blast
    moreover have "entry_child held' n = Some now'" using sweep_child(1) [OF h(2), of n] v(3,4) placed(5) by simp
    ultimately show ?thesis by simp
  qed auto
qed simp

text \<open>A name that the host has and that is not held is among what appeared.\<close>

definition came_told :: "file_pass \<Rightarrow> string \<Rightarrow> string list \<Rightarrow> bool" where
  "came_told st p ns \<longleftrightarrow>
     (\<exists>a \<in> set (fp_appeared st). \<exists>ms rest. ns = ms @ rest \<and> pl_path a = join_names p ms \<and> entry_at (pl_entry a) rest \<noteq> None)"

lemma came_told_Cons:
  assumes "came_told st (path_Join p n) ns"
  shows "came_told st p (n # ns)"
  using assms unfolding came_told_def by (metis append_Cons join_names_Cons(1))

lemma came_told_mono: "came_told st p ns \<Longrightarrow> goes_on st st' \<Longrightarrow> came_told st' p ns"
  unfolding came_told_def goes_on_def by blast

lemma appeared_is_told:
  assumes "file_observe ev rt ms p h None False pdev depth s st = (r, True, st')" "once_seen s" "ev_fresh ev = no_fresh"
    and "ev_entries ev + fp_added st + 1 + seen_names s \<le> maxEntries" "on_walk ev rt p depth pdev s ns" "seen_at s ns \<noteq> None"
  shows "came_told st' p ns"
proof -
  obtain node t hs dl where s: "s = Seen node t hs dl" by (cases s)
  from assms(1) [unfolded s] show ?thesis
  proof (cases rule: observe_cases)
    case (appeared now now' st1)
    have f: "fe_node now = node" "fe_children now = []" "\<not> fe_listed now" using appeared(1) by (auto simp: now_entry_def split: if_splits)
    have "entry_at now' ns \<noteq> None"
      using new_holds_seen [OF appeared(4) _ f, of t hs ns] assms(2,4-6) s by simp
    then show ?thesis using appeared(6) unfolding came_told_def
      by (intro bexI [of _ "\<lparr>pl_path = p, pl_root = rt, pl_names = ms, pl_entry = now', pl_hint = h\<rparr>"] exI [of _ "[]"] exI [of _ ns]) auto
  qed (use assms(3) in auto)
qed

lemma came_is_told:
  assumes "file_observe ev rt ms p h (Some e) unseen pdev depth s st = (r, True, st')" "once_seen s" "kept_well e" "ev_fresh ev = no_fresh"
    and "ev_entries ev + fp_added st + seen_names s \<le> maxEntries" "on_walk ev rt p depth pdev s ns"
    and "seen_at s ns \<noteq> None" "entry_at e ns = None"
  shows "came_told st' p ns"
  using assms
proof (induction ns arbitrary: ms p h e unseen pdev depth s st r st')
  case (Cons n ns)
  obtain node t hs xs c where s: "s = Seen node t hs (Dir_names xs)" "map_of xs n = Some (Look_at c)" "seen_at c ns \<noteq> None"
    using Cons.prems(7) by (cases s) (auto split: dir_look.splits option.splits file_look.splits)
  have d: "tn_Kind node = T_Directory" using Cons.prems(2) s(1) by auto
  have w: "walked_name ev rt p n" "on_walk ev rt (path_Join p n) (Suc depth) (tn_Device node) c ns"
    using Cons.prems(6) s d by auto
  have o: "distinct (map fst xs)" "once_seen c" using Cons.prems(2) s once_names_at [of xs n] by auto
  have "ev_entries ev + fp_added st + names_in xs \<le> maxEntries" using Cons.prems(5) s(1) by simp
  from observed_below [OF Cons.prems(1) [unfolded s(1)] d Cons.prems(6) [unfolded s(1)] this] obtain held st1 held1 present st2 held'
    where h: "fe_node held = node" "fe_children held = fe_children e" "(tn_Kind (fe_node e) = T_Directory \<longrightarrow> fe_listed e) \<longrightarrow> fe_listed held"
    "fp_added st1 = fp_added st"
    "dir_visit ev rt ms p (fe_listed held) (Suc depth) [] xs held st1 = (held1, present, True, st2)"
    "sweep ev rt ms p (fe_listed held) present held1 st2 = (held', st')" by metis
  have hl: "fe_listed held" using h(3) kept_well_here [OF Cons.prems(3)] by auto
  obtain st3 q st4 where v: "fp_added st3 + 1 + seen_names c \<le> fp_added st1 + names_in xs"
    "file_observe ev rt (ms @ [n]) (path_Join p n) None (entry_child e n) False (tn_Device node) (Suc depth) c st3 = (q, True, st4)"
    "goes_on st4 st2"
    using visit_seen [OF h(5) o(1) s(2) w(1)] h(1,2) hl by (auto simp: entry_child_def)
  have b: "ev_entries ev + fp_added st3 + 1 + seen_names c \<le> maxEntries" using v(1) Cons.prems(5) s(1) h(4) by simp
  have g: "goes_on st4 st'" using goes_on_trans [OF v(3)] sweep_goes_on [OF h(6)] by blast
  show ?case
  proof (cases "entry_child e n")
    case None
    then show ?thesis using appeared_is_told [OF v(2) [unfolded None] o(2) Cons.prems(4) b w(2) s(3)]
      by (blast intro: g came_told_mono came_told_Cons)
  next
    case (Some e')
    have "entry_at e' ns = None" using Cons.prems(8) Some by simp
    then have "came_told st4 (path_Join p n) ns"
      using Cons.IH [OF v(2) [unfolded Some] o(2) kept_well_child [OF Cons.prems(3) Some] Cons.prems(4) _ w(2) s(3)] b by simp
    then show ?thesis by (rule came_told_mono [OF came_told_Cons g])
  qed
qed simp


section \<open>What the end of a pass tells\<close>

text \<open>What is reported of a name that went, or that came.\<close>

definition told_deleted :: "file_change list \<Rightarrow> string \<Rightarrow> file_placed \<Rightarrow> bool" where
  "told_deleted R q v \<longleftrightarrow> (\<exists>c \<in> set R. fc_operation c = Op_deleted \<and> fc_path c = q \<or> fc_operation c = Op_renamed \<and> fc_previous c = pl_path v)"

definition told_created :: "file_change list \<Rightarrow> string \<Rightarrow> file_placed \<Rightarrow> bool" where
  "told_created R q a \<longleftrightarrow> (\<exists>c \<in> set R. fc_operation c = Op_created \<and> fc_path c = q \<or> fc_operation c = Op_renamed \<and> fc_path c = pl_path a)"

lemma settle_mono:
  "set (snd x) \<subseteq> set (snd (settle_gone gone came v x))" "set (snd x) \<subseteq> set (snd (settle_came gone came a x))"
  by (auto simp: settle_gone_def settle_came_def split: option.splits)

lemma fold_mono_reports:
  assumes "\<And>y x. set (snd x) \<subseteq> set (snd (f y x))"
  shows "set (snd x) \<subseteq> set (snd (fold f ys x))"
  using assms by (induction ys arbitrary: x) fastforce+

lemma fold_reports_each:
  assumes "\<And>y x. set (snd x) \<subseteq> set (snd (f y x))" "y \<in> set ys" "\<And>x. c \<in> set (snd (f y x))"
  shows "c \<in> set (snd (fold f ys x))"
  using assms(2)
proof (induction ys arbitrary: x)
  case (Cons z ys)
  show ?case
  proof (cases "z = y")
    case True
    then show ?thesis using assms(3) [of x] fold_mono_reports [of f "f z x" ys, OF assms(1)] by auto
  next
    case False
    then show ?thesis using Cons by simp
  qed
qed simp

lemma finish_keeps: "set (fp_reports st) \<subseteq> set (snd (pass_finish roots st))"
  using fold_mono_reports [of "settle_gone (fp_vanished st) (fp_appeared st)" "(roots, fp_reports st)" "fp_vanished st", OF settle_mono(1)]
    fold_mono_reports [of "settle_came (fp_vanished st) (fp_appeared st)" _ "fp_appeared st", OF settle_mono(2)]
  by (fastforce simp: pass_finish_def Let_def)

lemma finish_came:
  assumes "a \<in> set (fp_appeared st)" "(q, y) \<in> set (entry_each (pl_path a) (pl_entry a))"
  shows "told_created (snd (pass_finish roots st)) q a"
proof -
  let ?gone = "fp_vanished st" and ?came = "fp_appeared st"
  define c where "c = (case moved_from ?gone ?came a of
     None \<Rightarrow> created_change (hinted_at a q) (q, y)
   | Some before \<Rightarrow> \<lparr>fc_operation = Op_renamed, fc_path = pl_path a, fc_previous = pl_path before,
       fc_changes = entry_compare (pl_entry before) (pl_entry a) True, fc_before = Some (entry_snapshot (pl_entry before)),
       fc_after = Some (entry_snapshot (pl_entry a)), fc_hint = pl_hint a\<rparr>)"
  have "c \<in> set (snd (settle_came ?gone ?came a x))" for x
    using assms(2) by (force simp: c_def settle_came_def split: option.splits)
  then have "c \<in> set (snd (fold (settle_came ?gone ?came) ?came x))" for x
    using fold_reports_each [of "settle_came ?gone ?came", OF settle_mono(2) assms(1)] by blast
  then show ?thesis unfolding told_created_def pass_finish_def Let_def
    by (intro bexI [of _ c]) (auto simp: c_def created_change_def split: option.splits)
qed

lemma finish_gone:
  assumes "v \<in> set (fp_vanished st)" "(q, y) \<in> set (entry_each (pl_path v) (pl_entry v))"
  shows "told_deleted (snd (pass_finish roots st)) q v"
proof (cases "paired (fp_vanished st) (fp_appeared st) v")
  case False
  let ?gone = "fp_vanished st" and ?came = "fp_appeared st"
  have "deleted_change (hinted_at v q) (q, y) \<in> set (snd (settle_gone ?gone ?came v x))" for x
    using assms(2) False by (force simp: settle_gone_def)
  then have "deleted_change (hinted_at v q) (q, y) \<in> set (snd (fold (settle_gone ?gone ?came) ?gone x))" for x
    using fold_reports_each [of "settle_gone ?gone ?came", OF settle_mono(1) assms(1)] by blast
  then have "deleted_change (hinted_at v q) (q, y) \<in> set (snd (pass_finish roots st))"
    using fold_mono_reports [of "settle_came ?gone ?came" _ ?came, OF settle_mono(2)] by (fastforce simp: pass_finish_def Let_def)
  then show ?thesis unfolding told_deleted_def by (rule bexI [rotated]) (simp add: deleted_change_def)
next
  case True
  let ?gone = "fp_vanished st" and ?came = "fp_appeared st"
  obtain a w where a: "a \<in> set ?came" "moved_from ?gone ?came a = Some w" "same_file a v"
    using True by (auto simp: paired_def list_ex_iff split: option.splits)
  have "w = v"
  proof -
    have "filter (same_file a) ?gone = [w]" using a(2) by (auto simp: moved_from_def split: list.splits if_splits)
    moreover have "v \<in> set (filter (same_file a) ?gone)" using assms(1) a(3) by simp
    ultimately show ?thesis by simp
  qed
  let ?c = "\<lparr>fc_operation = Op_renamed, fc_path = pl_path a, fc_previous = pl_path v, fc_changes = entry_compare (pl_entry v) (pl_entry a) True,
    fc_before = Some (entry_snapshot (pl_entry v)), fc_after = Some (entry_snapshot (pl_entry a)), fc_hint = pl_hint a\<rparr>"
  have "?c \<in> set (snd (settle_came ?gone ?came a x))" for x using a(2) \<open>w = v\<close> by (simp add: settle_came_def)
  then have "?c \<in> set (snd (fold (settle_came ?gone ?came) ?came x))" for x
    using fold_reports_each [of "settle_came ?gone ?came", OF settle_mono(2) a(1)] by blast
  then show ?thesis unfolding told_deleted_def pass_finish_def Let_def by (intro bexI [of _ ?c]) simp_all
qed

section \<open>A whole walk\<close>

fun looks_names :: "(string \<times> file_look) list \<Rightarrow> nat" where
  "looks_names [] = 0"
| "looks_names ((p, l) # ls) = 1 + look_names l + looks_names ls"

lemma root_goes_on:
  assumes "file_root ev p l roots st = (ok, roots', st')"
  shows "goes_on st st' \<and> fp_added st' \<le> fp_added st + 1 + look_names l" "q \<noteq> p \<Longrightarrow> map_of roots' q = map_of roots q"
proof -
  show "q \<noteq> p \<Longrightarrow> map_of roots' q = map_of roots q"
    using assms by (auto simp: file_root_def Let_def split: file_look.splits prod.splits)
  show "goes_on st st' \<and> fp_added st' \<le> fp_added st + 1 + look_names l"
  proof (cases l)
    case (Look_at s)
    let ?kept = "case map_of roots p of None \<Rightarrow> new_rooted | Some kept \<Rightarrow> kept"
    obtain r ok1 st1 where o: "file_observe ev p [] p None (ro_entry ?kept) (\<not> ro_observed ?kept) 0 0 s st = (r, ok1, st1)"
      by (metis prod_cases3)
    then show ?thesis using assms Look_at pass_goes_on(2) [OF o] by (auto simp: file_root_def Let_def)
  qed (use assms in \<open>auto simp: file_root_def Let_def goes_on_def split: option.splits if_splits\<close>)
qed

text \<open>The look at one of the paths of a walk that ended.\<close>

lemma walk_meets:
  assumes "walk_roots ev ls roots st = (True, roots', st')" "map_of ls p = Some l" "distinct (map fst ls)"
  shows "\<exists>roots1 st1 roots2 st2. file_root ev p l roots1 st1 = (True, roots2, st2) \<and> map_of roots1 p = map_of roots p
     \<and> goes_on st2 st' \<and> fp_added st1 + look_names l \<le> fp_added st + looks_names ls"
  using assms
proof (induction ls arbitrary: roots st)
  case (Cons y ls)
  obtain q k where y: "y = (q, k)" by fastforce
  obtain ok roots1 st1 where r: "file_root ev q k roots st = (ok, roots1, st1)" by (metis prod_cases3)
  then have ok: "ok = True" and w: "walk_roots ev ls roots1 st1 = (True, roots', st')" using Cons.prems(1) y by (cases ok; simp)+
  note g = root_goes_on [OF r]
  show ?case
  proof (cases "q = p")
    case True
    have "goes_on st1 st'"
    proof -
      have "goes_on s s'" if "walk_roots ev ks rs s = (True, rs', s')" for ks rs s rs' s'
        using that
      proof (induction ks arbitrary: rs s)
        case (Cons z ks)
        obtain zq zl where z: "z = (zq, zl)" by fastforce
        obtain zok zr zs where zr: "file_root ev zq zl rs s = (zok, zr, zs)" by (metis prod_cases3)
        then have "walk_roots ev ks zr zs = (True, rs', s')" using Cons.prems z by (cases zok) auto
        then show ?case using Cons.IH root_goes_on(1) [OF zr] goes_on_trans by blast
      qed simp
      then show ?thesis using w by blast
    qed
    moreover have "k = l" using Cons.prems(2) y True by simp
    ultimately show ?thesis using r ok True y
      by (intro exI [of _ roots] exI [of _ st] exI [of _ roots1] exI [of _ st1]) simp
  next
    case False
    have "map_of ls p = Some l" "distinct (map fst ls)" using Cons.prems(2,3) y False by auto
    from Cons.IH [OF w this] obtain ra sa rb sb where m: "file_root ev p l ra sa = (True, rb, sb)" "map_of ra p = map_of roots1 p"
      "goes_on sb st'" "fp_added sa + look_names l \<le> fp_added st1 + looks_names ls" by blast
    have "fp_added sa + look_names l \<le> fp_added st + looks_names (y # ls)" using m(4) g(1) y by simp
    then show ?thesis using m(1-3) g(2) [of p] False
      by (intro exI [of _ ra] exI [of _ sa] exI [of _ rb] exI [of _ sb]) simp
  qed
qed simp


text \<open>What a walk that ended reported of the names below a path it held.\<close>

definition walk_env :: "path_match \<Rightarrow> file_scope \<Rightarrow> file_baseline \<Rightarrow> file_env" where
  "walk_env mt s b = \<lparr>ev_match = mt, ev_scope = s, ev_fresh = fb_fresh b, ev_entries = fb_entries b\<rparr>"

lemma file_walk_cases:
  assumes "file_walk mt s whole ls b = (True, b', R)"
  obtains roots st where "walk_roots (walk_env mt s b) ls (fb_roots b) new_pass = (True, roots, st)" "R = snd (pass_finish roots st)"
    "fb_roots b' = fst (pass_finish roots st)"
  using assms
  by (cases whole) (auto simp: file_walk_def walk_env_def Let_def split: prod.splits bool.splits)

lemma walk_observes:
  assumes "file_walk mt s whole ls b = (True, b', R)" "distinct (map fst ls)" "map_of ls p = Some (Look_at sn)"
    and "map_of (fb_roots b) p = Some kept" "ro_observed kept" "ro_entry kept = Some e" "fb_entries b + looks_names ls \<le> maxEntries"
  obtains roots st st1 st2 r where "R = snd (pass_finish roots st)" "goes_on st2 st"
    "file_observe (walk_env mt s b) p [] p None (Some e) False 0 0 sn st1 = (r, True, st2)"
    "ev_entries (walk_env mt s b) + fp_added st1 + seen_names sn \<le> maxEntries"
proof -
  obtain roots st where w: "walk_roots (walk_env mt s b) ls (fb_roots b) new_pass = (True, roots, st)" "R = snd (pass_finish roots st)"
    using assms(1) by (rule file_walk_cases)
  obtain roots1 st1 roots2 st2 where m: "file_root (walk_env mt s b) p (Look_at sn) roots1 st1 = (True, roots2, st2)"
    "map_of roots1 p = Some kept" "goes_on st2 st" "fp_added st1 + seen_names sn \<le> fp_added new_pass + looks_names ls"
    using walk_meets [OF w(1) assms(3,2)] assms(4) by auto
  obtain r ok st3 where o: "file_observe (walk_env mt s b) p [] p None (Some e) False 0 0 sn st1 = (r, ok, st3)" by (metis prod_cases3)
  then have "ok" "st3 = st2" using m(1,2) assms(5,6) by (auto simp: file_root_def Let_def)
  then show thesis using that [OF w(2) m(3)] o m(4) assms(7) by (simp add: walk_env_def new_pass_def)
qed

lemma gone_reported:
  assumes "gone_told st p ns x"
  shows "\<exists>c \<in> set (snd (pass_finish roots st)). fc_operation c = Op_deleted \<and> fc_path c = join_names p ns
     \<or> fc_operation c = Op_renamed \<and> (\<exists>ms rest. ns = ms @ rest \<and> fc_previous c = join_names p ms)"
  using assms unfolding gone_told_def
proof (elim disjE bexE exE conjE)
  fix c assume "c \<in> set (fp_reports st)" "fc_operation c = Op_deleted" "fc_path c = join_names p ns"
  then show ?thesis using finish_keeps by blast
next
  fix v ms rest
  assume v: "v \<in> set (fp_vanished st)" "ns = ms @ rest" "pl_path v = join_names p ms" "entry_at (pl_entry v) rest = Some x"
  have "(join_names p ns, x) \<in> set (entry_each (pl_path v) (pl_entry v))"
    using entry_at_each [OF v(4), of "pl_path v"] v(2,3) by (simp add: join_names_append)
  from finish_gone [OF v(1) this, of roots] show ?thesis using v(2,3) unfolding told_deleted_def by auto
qed

lemma came_reported:
  assumes "came_told st p ns"
  shows "\<exists>c \<in> set (snd (pass_finish roots st)). fc_operation c = Op_created \<and> fc_path c = join_names p ns
     \<or> fc_operation c = Op_renamed \<and> (\<exists>ms rest. ns = ms @ rest \<and> fc_path c = join_names p ms)"
proof -
  obtain a ms rest x where a: "a \<in> set (fp_appeared st)" "ns = ms @ rest" "pl_path a = join_names p ms" "entry_at (pl_entry a) rest = Some x"
    using assms unfolding came_told_def by auto
  have "(join_names p ns, x) \<in> set (entry_each (pl_path a) (pl_entry a))"
    using entry_at_each [OF a(4), of "pl_path a"] a(2,3) by (simp add: join_names_append)
  from finish_came [OF a(1) this, of roots] show ?thesis using a(2,3) unfolding told_created_def by auto
qed

section \<open>A host that is as the baseline says\<close>

fun as_seen :: "file_env \<Rightarrow> string \<Rightarrow> string \<Rightarrow> nat \<Rightarrow> u64 \<Rightarrow> file_entry \<Rightarrow> file_seen \<Rightarrow> bool"
  and as_names :: "file_env \<Rightarrow> string \<Rightarrow> string \<Rightarrow> nat \<Rightarrow> file_entry \<Rightarrow> (string \<times> file_look) list \<Rightarrow> bool" where
  "as_seen ev rt p depth pdev e (Seen node t hs dl) =
     ((case now_entry (Some e) node t hs of None \<Rightarrow> False | Some now \<Rightarrow> same_look e now)
      \<and> (tn_Kind node = T_Directory \<longrightarrow>
           fe_listed e \<and> fe_gap e = G_covered \<and> sorted_wrt (\<lambda>x y. str_Compare (fst x) (fst y) < 0) (fe_children e)
           \<and> \<not> (depth > 0 \<and> tn_Device node \<noteq> pdev) \<and> depth < maxDepth
           \<and> (case dl of
                Dir_names xs \<Rightarrow>
                  length xs \<le> pass_room ev e new_pass \<and> as_names ev rt p (Suc depth) e xs
                  \<and> list_all (\<lambda>x. scope_walks (ev_match ev) (ev_scope ev) rt (path_Join p (fst x)) \<longrightarrow>
                       (case map_of xs (fst x) of Some (Look_at _) \<Rightarrow> walked_name ev rt p (fst x) | _ \<Rightarrow> False)) (fe_children e)
              | _ \<Rightarrow> False)))"
| "as_names ev rt p depth e [] = True"
| "as_names ev rt p depth e ((n, l) # xs) =
     ((if walked_name ev rt p n
       then (case l of
               Look_at s \<Rightarrow> (case entry_child e n of None \<Rightarrow> False | Some c \<Rightarrow> as_seen ev rt (path_Join p n) depth (tn_Device (fe_node e)) c s)
             | Look_gone \<Rightarrow> True
             | _ \<Rightarrow> False)
       else \<not> look_stops l)
      \<and> as_names ev rt p depth e xs)"

lemma map_put_same:
  assumes "sorted_wrt (\<lambda>x y. str_Compare (fst x) (fst y) < 0) m" "map_of m k = Some v"
  shows "map_put k v m = m"
  using assms
proof (induction m)
  case (Cons y m)
  obtain j w where y: "y = (j, w)" by fastforce
  show ?case
  proof (cases "k = j")
    case False
    then have "map_of m k = Some v" using Cons.prems(2) y by simp
    then have "str_Compare j k < 0" using Cons.prems(1) y by (force dest: map_of_SomeD)
    then have "\<not> str_Compare k j < 0" using str.flip [of j k] by simp
    then show ?thesis using False Cons y by simp
  qed (use Cons y in simp)
qed simp

lemma adopt_same:
  "sorted_wrt (\<lambda>x y. str_Compare (fst x) (fst y) < 0) (fe_children e) \<Longrightarrow> entry_child e n = Some c \<Longrightarrow> entry_adopt n c e = e"
  by (cases e) (simp add: entry_adopt_def entry_child_def map_put_same set_children_def)

lemma renew_same:
  assumes "same_look e now"
  shows "renew h p e now st = (e, st)"
proof -
  have "content_changed e now = False" using assms by (auto simp: same_look_def content_changed_def split: file_content.splits)
  then have "entry_compare e now False = []" using assms
    by (auto simp: same_look_def entry_compare_def node_Same_def Let_def split: tree_kind.splits)
  then show ?thesis using assms by (cases e) (auto simp: renew_def Let_def pass_update_def same_look_def)
qed

lemma visit_quiet:
  assumes "as_names ev rt p depth e xs" "sorted_wrt (\<lambda>x y. str_Compare (fst x) (fst y) < 0) (fe_children e)"
    and "\<And>n s c ms h. (n, Look_at s) \<in> set xs \<Longrightarrow> entry_child e n = Some c \<Longrightarrow> as_seen ev rt (path_Join p n) depth (tn_Device (fe_node e)) c s \<Longrightarrow>
      file_observe ev rt ms (path_Join p n) h (Some c) False (tn_Device (fe_node e)) depth s st = (Some c, True, st)"
  shows "\<exists>present'. dir_visit ev rt ns p True depth present xs e st = (e, present', True, st)
     \<and> set present' = set present \<union> {n. \<exists>s. (n, Look_at s) \<in> set xs \<and> walked_name ev rt p n}"
  using assms
proof (induction xs arbitrary: present)
  case (Cons y xs)
  obtain n l where y: "y = (n, l)" by fastforce
  have r: "as_names ev rt p depth e xs" using Cons.prems(1) y by simp
  note ih = Cons.IH [OF r Cons.prems(2) Cons.prems(3)]
  show ?case
  proof (cases "walked_name ev rt p n")
    case False
    then have "dir_visit ev rt ns p True depth present ((n, l) # xs) e st = dir_visit ev rt ns p True depth present xs e st"
      using Cons.prems(1) y by (auto simp: dir_visit.simps(2) walked_name_def Let_def)
    then show ?thesis using ih [of present] False y by auto
  next
    case w: True
    then have g: "\<not> (length (path_Join p n) > maxPathBytes \<or> \<not> scope_walks (ev_match ev) (ev_scope ev) rt (path_Join p n))"
      by (auto simp: walked_name_def)
    show ?thesis
    proof (cases l)
      case (Look_at s)
      then obtain c where c: "entry_child e n = Some c" "as_seen ev rt (path_Join p n) depth (tn_Device (fe_node e)) c s"
        using Cons.prems(1) y w by (auto split: option.splits)
      have "file_observe ev rt (ns @ [n]) (path_Join p n) None (Some c) False (tn_Device (fe_node e)) depth s st = (Some c, True, st)"
        using Cons.prems(3) [OF _ c] y Look_at by simp
      then have "dir_visit ev rt ns p True depth present ((n, l) # xs) e st = dir_visit ev rt ns p True depth (n # present) xs e st"
        using g Look_at c(1) adopt_same [OF Cons.prems(2) c(1)] by (simp add: dir_visit.simps(2) Let_def)
      then show ?thesis using ih [of "n # present"] w y Look_at by auto
    next
      case Look_gone
      then have "dir_visit ev rt ns p True depth present ((n, l) # xs) e st = dir_visit ev rt ns p True depth present xs e st"
        using g by (simp add: dir_visit.simps(2) Let_def)
      then show ?thesis using ih [of present] y Look_gone by auto
    qed (use Cons.prems(1) y w in auto)
  qed
qed simp

lemma as_seen_node:
  assumes "as_seen ev rt p depth pdev e (Seen node t hs dl)"
  obtains now where "now_entry (Some e) node t hs = Some now" "same_look e now" "fe_node e = node"
proof -
  obtain now where n: "now_entry (Some e) node t hs = Some now" "same_look e now"
    using assms by (cases "now_entry (Some e) node t hs") auto
  moreover have "fe_node e = node" using n by (auto simp: same_look_def now_entry_def split: if_splits)
  ultimately show thesis by (rule that)
qed

lemma descend_not:
  assumes "as_seen ev rt p depth pdev e (Seen node t hs dl)" "\<forall>xs. dl \<noteq> Dir_names xs"
  shows "dir_descend ev rt ms p e pdev depth dl st = (e, True, st)"
proof -
  have "tn_Kind node \<noteq> T_Directory" using assms by (cases dl) auto
  moreover have "fe_node e = node" using as_seen_node [OF assms(1)] by blast
  ultimately show ?thesis by (simp add: dir_descend.simps)
qed

lemma observe_quiet:
  "\<And>p depth pdev e ms h unseen. l = Look_at s \<Longrightarrow> as_seen ev rt p depth pdev e s \<Longrightarrow> fp_added st = 0 \<Longrightarrow>
     file_observe ev rt ms p h (Some e) unseen pdev depth s st = (Some e, True, st)"
  "\<And>p depth pdev e ms h unseen. as_seen ev rt p depth pdev e s \<Longrightarrow> fp_added st = 0 \<Longrightarrow>
     file_observe ev rt ms p h (Some e) unseen pdev depth s st = (Some e, True, st)"
  "\<And>p depth pdev e ms node t hs. as_seen ev rt p depth pdev e (Seen node t hs dl) \<Longrightarrow> fp_added st = 0 \<Longrightarrow>
     dir_descend ev rt ms p e pdev depth dl st = (e, True, st)"
proof (induction l and s and dl arbitrary: s)
  case (Seen node t hs dl)
  obtain now where n: "now_entry (Some e) node t hs = Some now" "same_look e now"
    using as_seen_node [OF Seen.prems(1)] by blast
  have "dir_descend ev rt ms p e pdev depth dl st = (e, True, st)" using Seen.IH [OF Seen.prems] .
  then show ?case using n renew_same [OF n(2)] by (simp add: file_observe.simps)
next
  case (Dir_names xs)
  have nd: "fe_node e = node" using as_seen_node [OF Dir_names.prems(1)] by blast
  show ?case
  proof (cases "tn_Kind node = T_Directory")
    case False
    then show ?thesis using nd by (simp add: dir_descend.simps)
  next
    case True
    have a: "fe_listed e" "fe_gap e = G_covered" "sorted_wrt (\<lambda>x y. str_Compare (fst x) (fst y) < 0) (fe_children e)"
      "\<not> (depth > 0 \<and> tn_Device node \<noteq> pdev)" "depth < maxDepth" "length xs \<le> pass_room ev e new_pass" "as_names ev rt p (Suc depth) e xs"
      "list_all (\<lambda>x. scope_walks (ev_match ev) (ev_scope ev) rt (path_Join p (fst x)) \<longrightarrow>
         (case map_of xs (fst x) of Some (Look_at _) \<Rightarrow> walked_name ev rt p (fst x) | _ \<Rightarrow> False)) (fe_children e)"
      using Dir_names.prems(1) True by simp_all
    have o: "file_observe ev rt ms' (path_Join p n) h' (Some c) False (tn_Device (fe_node e)) (Suc depth) s st = (Some c, True, st)"
      if "(n, Look_at s) \<in> set xs" "entry_child e n = Some c" "as_seen ev rt (path_Join p n) (Suc depth) (tn_Device (fe_node e)) c s" for n s c ms' h'
      using Dir_names.IH [OF that(1) _ refl that(3) Dir_names.prems(2)] by (simp add: snds.intros)
    from visit_quiet [OF a(7,3) o, where ns = ms and present = "[]"] obtain present where v:
      "dir_visit ev rt ms p True (Suc depth) [] xs e st = (e, present, True, st)"
      "set present = {n. \<exists>s. (n, Look_at s) \<in> set xs \<and> walked_name ev rt p n}" by auto
    have "fst x \<in> set present" if "x \<in> set (fe_children e)" "scope_walks (ev_match ev) (ev_scope ev) rt (path_Join p (fst x))" for x
    proof -
      have "\<exists>s. map_of xs (fst x) = Some (Look_at s) \<and> walked_name ev rt p (fst x)"
      proof (cases "map_of xs (fst x)")
        case (Some l)
        then show ?thesis using a(8) that by (cases l) (auto simp: list_all_iff)
      qed (use a(8) that in \<open>auto simp: list_all_iff\<close>)
      then show ?thesis using v(2) map_of_SomeD by fastforce
    qed
    then have g: "filter (\<lambda>x. fst x \<notin> set present \<and> scope_walks (ev_match ev) (ev_scope ev) rt (path_Join p (fst x))) (fe_children e) = []"
      by (auto simp: filter_empty_conv)
    have "set_gap G_covered (set_listed True e) = e" using a(1,2) by (cases e) (simp add: set_gap_def set_listed_def)
    then have "sweep ev rt ms p True present e st = (e, st)" by (simp add: sweep_def Let_def g)
    moreover have "length xs \<le> pass_room ev e st" using a(6) Dir_names.prems(2) by (simp add: pass_room_def new_pass_def)
    ultimately show ?thesis using True nd a(1,4,5) v(1) by (auto simp: dir_descend.simps)
  qed
qed (use descend_not in auto)


text \<open>The host is as the baseline says at a path: as it was seen, or it names nothing.\<close>

definition as_root :: "file_env \<Rightarrow> file_roots \<Rightarrow> string \<times> file_look \<Rightarrow> bool" where
  "as_root ev roots x =
     (case map_of roots (fst x) of
        None \<Rightarrow> False
      | Some kept \<Rightarrow>
          ro_observed kept
          \<and> (case (ro_entry kept, snd x) of
               (Some e, Look_at s) \<Rightarrow> as_seen ev (fst x) (fst x) 0 0 e s
             | (None, Look_gone) \<Rightarrow> True
             | (_, Look_failed) \<Rightarrow> True
             | _ \<Rightarrow> False))"

definition same_held :: "file_roots \<Rightarrow> file_roots \<Rightarrow> bool" where
  "same_held roots roots' \<longleftrightarrow> (\<forall>p kept. map_of roots p = Some kept \<longrightarrow>
     (\<exists>kept'. map_of roots' p = Some kept' \<and> ro_observed kept' = ro_observed kept \<and> ro_entry kept' = ro_entry kept))"

lemma same_held_trans: "same_held a b \<Longrightarrow> same_held b c \<Longrightarrow> same_held a c"
  unfolding same_held_def by metis

lemma root_quiet:
  assumes "as_root ev roots (p, l)" "fp_added st = 0"
  shows "\<exists>roots'. file_root ev p l roots st = (True, roots', st) \<and> same_held roots roots'"
proof -
  obtain kept where k: "map_of roots p = Some kept" "ro_observed kept"
    using assms(1) by (auto simp: as_root_def split: option.splits)
  show ?thesis
  proof (cases l)
    case (Look_at s)
    then obtain e where e: "ro_entry kept = Some e" "as_seen ev p p 0 0 e s"
      using assms(1) k by (auto simp: as_root_def split: option.splits)
    then show ?thesis using k Look_at observe_quiet(2) [OF e(2) assms(2)] by (auto simp: file_root_def same_held_def)
  next
    case Look_gone
    then have "ro_entry kept = None" using assms(1) k by (auto simp: as_root_def split: option.splits)
    then show ?thesis using k Look_gone by (auto simp: file_root_def same_held_def)
  next
    case Look_failed
    then show ?thesis using k by (auto simp: file_root_def same_held_def)
  qed (use assms(1) k in \<open>auto simp: as_root_def split: option.splits\<close>)
qed

lemma as_root_same: "as_root ev roots x \<Longrightarrow> same_held roots roots' \<Longrightarrow> as_root ev roots' x"
  unfolding as_root_def same_held_def by (force split: option.splits)

lemma walk_quiet:
  assumes "list_all (as_root ev roots) ls" "fp_added st = 0"
  shows "\<exists>roots'. walk_roots ev ls roots st = (True, roots', st) \<and> same_held roots roots'"
  using assms
proof (induction ls arbitrary: roots)
  case Nil
  then show ?case by (simp add: same_held_def)
next
  case (Cons y ls)
  obtain p l where y: "y = (p, l)" by fastforce
  obtain roots1 where r: "file_root ev p l roots st = (True, roots1, st)" "same_held roots roots1"
    using root_quiet [of ev roots p l st] Cons.prems y by auto
  have "list_all (as_root ev roots1) ls"
    using Cons.prems(1) as_root_same [OF _ r(2)] by (simp add: list_all_iff)
  then obtain roots' where "walk_roots ev ls roots1 st = (True, roots', st)" "same_held roots1 roots'"
    using Cons.IH Cons.prems(2) by blast
  then show ?case using r y same_held_trans by auto
qed


section \<open>A walk that nothing stops ends\<close>

fun lets_look :: "file_look \<Rightarrow> bool" and lets_seen :: "file_seen \<Rightarrow> bool" and lets_dir :: "dir_look \<Rightarrow> bool"
  and lets_names :: "(string \<times> file_look) list \<Rightarrow> bool" where
  "lets_look Look_stopped = False"
| "lets_look (Look_uncharged k) = False"
| "lets_look (Look_at s) = lets_seen s"
| "lets_look _ = True"
| "lets_seen (Seen n t hs dl) = (list_all (\<lambda>i. case hs i of Hash_stopped \<Rightarrow> False | _ \<Rightarrow> True) [0 ..< 3] \<and> lets_dir dl)"
| "lets_dir (Dir_refused stopped) = (\<not> stopped)"
| "lets_dir (Dir_unlisted stopped) = (\<not> stopped)"
| "lets_dir (Dir_names xs) = lets_names xs"
| "lets_names [] = True"
| "lets_names ((n, l) # xs) = (lets_look l \<and> lets_names xs)"

lemma hash_loop_ends:
  assumes "\<forall>j < k. hs (i + j) \<noteq> Hash_stopped"
  shows "hash_loop k i now hs c \<noteq> None"
  using assms
proof (induction k arbitrary: i c)
  case (Suc k)
  have "hs i \<noteq> Hash_stopped" using Suc.prems [rule_format, of 0] by simp
  then have "pass_hash now (hs i) \<noteq> None" by (auto simp: pass_hash_def split: hash_answer.splits option.splits)
  then obtain d where d: "pass_hash now (hs i) = Some d" by blast
  have "\<forall>j < k. hs (Suc i + j) \<noteq> Hash_stopped" using Suc.prems by (metis Suc_less_eq add_Suc_shift)
  then show ?case using Suc.IH [of "Suc i"] d by simp
qed simp

lemma now_entry_ends:
  assumes "lets_seen (Seen node t hs dl)"
  shows "\<exists>now. now_entry prior node t hs = Some now"
proof -
  have "\<forall>j < hashAttempts. hs (0 + j) \<noteq> Hash_stopped"
    using assms by (auto simp: hashAttempts_def list_all_iff split: hash_answer.splits)
  from hash_loop_ends [OF this] show ?thesis
    by (auto simp: now_entry_def pass_content_def Let_def split: option.splits file_content.splits)
qed

lemma pass_ends:
  "\<And>ev rt ns p h prior unseen pdev depth st. l = Look_at s \<Longrightarrow> lets_seen s \<Longrightarrow> fst (snd (file_observe ev rt ns p h prior unseen pdev depth s st))"
  "\<And>ev rt ns p h prior unseen pdev depth st. lets_seen s \<Longrightarrow> fst (snd (file_observe ev rt ns p h prior unseen pdev depth s st))"
  "\<And>ev rt ns p held pdev depth st. lets_dir dl \<Longrightarrow> fst (snd (dir_descend ev rt ns p held pdev depth dl st))"
proof (induction l and s and dl arbitrary: s)
  case (Seen node t hs dl)
  obtain now where "now_entry prior node t hs = Some now" using now_entry_ends [OF Seen.prems] by blast
  then show ?case using Seen.IH Seen.prems by (auto simp: file_observe.simps split: option.splits prod.splits) (metis fst_conv snd_conv)+
next
  case (Dir_names xs)
  have visit: "fst (snd (snd (dir_visit ev rt ns p listed depth present ys held st)))" if "lets_names ys" "set ys \<subseteq> set xs"
    for ys ev rt ns p listed depth present held st
    using that
  proof (induction ys arbitrary: present held st)
    case (Cons y ys)
    obtain name l where y: "y = (name, l)" by fastforce
    have ih: "fst (snd (snd (dir_visit ev rt ns p listed depth present' ys held' st')))" for present' held' st'
      using Cons.IH Cons.prems y by simp
    show ?case
    proof (cases l)
      case (Look_at s)
      have "fst (snd (file_observe ev rt (ns @ [name]) (path_Join p name) None (entry_child held name) (\<not> listed) (tn_Device (fe_node held)) depth s st))"
        using Dir_names.IH [OF _ _ Look_at, of y] Cons.prems y Look_at by (simp add: snds.intros)
      then show ?thesis using ih y Look_at by (auto simp: dir_visit.simps(2) Let_def split: prod.splits)
    qed (use Cons.prems y ih in \<open>auto simp: dir_visit.simps(2) Let_def\<close>)
  qed simp
  show ?case using visit [OF _ subset_refl, of ev rt ns p "fe_listed held" "Suc depth" "[]" held st] Dir_names.prems
    by (auto simp: dir_descend.simps split: prod.splits)
qed (auto simp: dir_descend.simps)

lemma walk_roots_ends: "list_all (\<lambda>x. lets_look (snd x)) ls \<Longrightarrow> fst (walk_roots ev ls roots st)"
proof (induction ls arbitrary: roots st)
  case (Cons y ls)
  obtain p l where y: "y = (p, l)" by fastforce
  have "fst (file_root ev p l roots st)"
    using Cons.prems y pass_ends(2) by (cases l) (auto simp: file_root_def Let_def split: prod.splits, metis fst_conv snd_conv)
  then show ?case using Cons y by (auto split: prod.splits bool.splits)
qed simp

lemma walk_ends:
  assumes "list_all (\<lambda>x. lets_look (snd x)) ls"
  shows "\<exists>b' R. file_walk mt s whole ls b = (True, b', R)"
  using walk_roots_ends [OF assms, of "walk_env mt s b" "fb_roots b" new_pass]
  by (auto simp: file_walk_def walk_env_def Let_def split: prod.splits bool.splits)

end
