(* ===== verification/Integrity_Hints.thy ===== *)
theory Integrity_Hints
  imports Integrity_Pass
begin

text \<open>
  What the kernel tells the integrity module of the directories it watches,
  \<open>internal/modules/integrity/hints.go\<close>, when a name it spoke of is looked at again, the pass over those
  names, \<open>hinted\<close> of \<open>pass.go\<close>, and how many changes are written down, \<open>report\<close> of \<open>report.go\<close>. A map is
  kept in the order of its keys; Go goes through it in any order, which does not change what is settled.
\<close>

unbundle bit_operations_syntax

section \<open>What the kernel said\<close>

definition W_Created :: u32 where "W_Created = 0x1"
definition W_Deleted :: u32 where "W_Deleted = 0x2"
definition W_MovedFrom :: u32 where "W_MovedFrom = 0x20"
definition W_MovedTo :: u32 where "W_MovedTo = 0x40"
definition W_SelfDeleted :: u32 where "W_SelfDeleted = 0x80"
definition W_SelfMoved :: u32 where "W_SelfMoved = 0x100"
definition W_Unmounted :: u32 where "W_Unmounted = 0x200"
definition W_Ignored :: u32 where "W_Ignored = 0x400"
definition W_Overflowed :: u32 where "W_Overflowed = 0x800"
definition W_OfDirectory :: u32 where "W_OfDirectory = 0x1000"

definition structural :: u32 where
  "structural = W_Created OR W_Deleted OR W_MovedFrom OR W_MovedTo OR W_SelfDeleted OR W_SelfMoved OR W_Unmounted"

definition file_settle :: duration where "file_settle = Second"
definition firstHold :: duration where "firstHold = 2 * Second"
definition longestHold :: duration where "longestHold = 5 * Minute"
definition maxDirty :: nat where "maxDirty = 65536"
definition maxCookies :: nat where "maxCookies = 8"

record inotify_event =
  ie_Watch :: int
  ie_What :: u32
  ie_Cookie :: u32
  ie_Name :: string

record file_watched =
  wa_path :: string
  wa_listing :: bool

record file_hold =
  ho_until :: time
  ho_length :: duration

record file_hints =
  fh_scope :: file_scope
  fh_byWatch :: "(int \<times> file_watched) list"
  fh_byPath :: "(string \<times> int) list"
  fh_dirty :: "(string \<times> file_hint) list"
  fh_cookies :: "(u32 \<times> string list) list"
  fh_moved :: "string list"
  fh_holds :: "(string \<times> file_hold) list"
  fh_lost :: nat

definition del_key :: "'k \<Rightarrow> ('k \<times> 'v) list \<Rightarrow> ('k \<times> 'v) list" where
  "del_key k m = filter (\<lambda>x. fst x \<noteq> k) m"

definition put_key :: "'k \<Rightarrow> 'v \<Rightarrow> ('k \<times> 'v) list \<Rightarrow> ('k \<times> 'v) list" where
  "put_key k v m = (k, v) # del_key k m"

text \<open>The cookie of a move is noted with the name, and the name with the cookie.\<close>

definition note_cookie :: "inotify_event \<Rightarrow> string \<Rightarrow> file_hint \<Rightarrow> file_hints \<Rightarrow> file_hint \<times> file_hints" where
  "note_cookie ie p noted a =
     (if ie_Cookie ie \<noteq> 0 \<and> ie_What ie AND (W_MovedFrom OR W_MovedTo) \<noteq> 0 \<and> length (hn_cookies noted) < maxCookies
         \<and> ie_Cookie ie \<notin> set (hn_cookies noted)
      then (noted\<lparr>hn_cookies := hn_cookies noted @ [ie_Cookie ie]\<rparr>,
            a\<lparr>fh_cookies := put_key (ie_Cookie ie) ((case map_of (fh_cookies a) (ie_Cookie ie) of None \<Rightarrow> [] | Some ps \<Rightarrow> ps) @ [p]) (fh_cookies a)\<rparr>)
      else (noted, a))"

definition note_hint :: "inotify_event \<Rightarrow> string \<Rightarrow> time \<Rightarrow> file_hints \<Rightarrow> file_hints" where
  "note_hint ie p now a =
     (if map_of (fh_dirty a) p = None \<and> length (fh_dirty a) \<ge> maxDirty
      then a\<lparr>fh_lost := fh_lost a + 1, fh_dirty := [], fh_cookies := []\<rparr>
      else
        let noted = (case map_of (fh_dirty a) p of None \<Rightarrow> \<lparr>hn_first = now, hn_count = 0, hn_seen = 0, hn_cookies = []\<rparr> | Some n \<Rightarrow> n);
            noted = noted\<lparr>hn_count := hn_count noted + 1, hn_seen := hn_seen noted OR ie_What ie\<rparr>
        in case note_cookie ie p noted a of (noted, a) \<Rightarrow> a\<lparr>fh_dirty := map_put p noted (fh_dirty a)\<rparr>)"

definition hear_event :: "path_match \<Rightarrow> time \<Rightarrow> inotify_event \<Rightarrow> file_hints \<Rightarrow> file_hints" where
  "hear_event mt now ie a =
     (if ie_What ie AND W_Overflowed \<noteq> 0 then a\<lparr>fh_lost := fh_lost a + 1\<rparr>
      else case map_of (fh_byWatch a) (ie_Watch ie) of
        None \<Rightarrow> a
      | Some held \<Rightarrow>
          let a = (if ie_What ie AND W_Ignored \<noteq> 0
                then a\<lparr>fh_byWatch := del_key (ie_Watch ie) (fh_byWatch a),
                       fh_byPath := (if map_of (fh_byPath a) (wa_path held) = Some (ie_Watch ie) then del_key (wa_path held) (fh_byPath a) else fh_byPath a)\<rparr>
                else a);
              p = (if ie_Name ie \<noteq> [] then path_Join (wa_path held) (ie_Name ie) else wa_path held)
          in if ie_Name ie \<noteq> [] \<and> (CHR ''/'' \<in> set (ie_Name ie) \<or> ie_Name ie = ''.'' \<or> ie_Name ie = ''..'') then a
             else case scope_root (fh_scope a) p of (root, covered) \<Rightarrow>
               if \<not> covered \<or> scope_excludes mt (fh_scope a) p then a
               else
                 let a = (if ie_What ie AND W_SelfMoved \<noteq> 0 \<or> ie_What ie AND W_OfDirectory \<noteq> 0 \<and> ie_What ie AND (W_MovedFrom OR W_MovedTo) \<noteq> 0
                       then a\<lparr>fh_moved := List.insert root (fh_moved a)\<rparr> else a)
                 in note_hint ie p now a)"

definition file_heard :: "path_match \<Rightarrow> time \<Rightarrow> inotify_event list \<Rightarrow> file_hints \<Rightarrow> file_hints" where
  "file_heard mt now events a = fold (hear_event mt now) events a"

section \<open>Which names settled\<close>

definition hint_at :: "file_hints \<Rightarrow> string \<Rightarrow> file_hint \<Rightarrow> time" where
  "hint_at a p noted =
     (let at = hn_first noted + file_settle in
      case map_of (fh_holds a) p of
        None \<Rightarrow> at
      | Some held \<Rightarrow> if ho_until held > at \<and> hn_seen noted AND structural = 0 then ho_until held else at)"

text \<open>The names that a name that settled brings with it: those that share a cookie with it.\<close>

definition partners :: "(string \<times> file_hint) list \<Rightarrow> (u32 \<times> string list) list \<Rightarrow> string list \<Rightarrow> file_hint \<Rightarrow> string list" where
  "partners dirty cookies ready noted =
     remdups (filter (\<lambda>q. map_of dirty q \<noteq> None \<and> q \<notin> set ready)
       (concat (map (\<lambda>c. case map_of cookies c of None \<Rightarrow> [] | Some ps \<Rightarrow> ps) (hn_cookies noted))))"

definition unsettled :: "(string \<times> file_hint) list \<Rightarrow> string list \<Rightarrow> nat" where
  "unsettled dirty ready = card (set (map fst dirty) - set ready)"

text \<open>The loop over what is pending: the names that are ready and the cookies that are left.\<close>

function settle_with :: "(string \<times> file_hint) list \<Rightarrow> (u32 \<times> string list) list \<Rightarrow> string list \<Rightarrow> string list \<Rightarrow> string list \<times> (u32 \<times> string list) list" where
  "settle_with dirty cookies ready [] = (ready, cookies)"
| "settle_with dirty cookies ready (p # pending) =
     (case map_of dirty p of
        None \<Rightarrow> settle_with dirty cookies ready pending
      | Some noted \<Rightarrow>
          let more = partners dirty cookies ready noted
          in settle_with dirty (filter (\<lambda>x. fst x \<notin> set (hn_cookies noted)) cookies) (ready @ more) (rev more @ pending))"
  by pat_completeness auto
termination
proof (relation "measure (\<lambda>(dirty, cookies, ready, pending). 2 * unsettled dirty ready + length pending)")
  fix dirty cookies ready p pending noted more
  assume m: "more = partners dirty cookies ready (noted :: file_hint)"
  have d: "distinct more" "set more \<subseteq> set (map fst dirty) - set ready"
    by (auto simp: m partners_def dest: map_of_SomeD intro: rev_image_eqI)
  have "unsettled dirty (ready @ more) = card ((set (map fst dirty) - set ready) - set more)"
    by (simp add: unsettled_def Diff_Diff_Int [symmetric]) (simp add: Diff_eq Int_assoc)
  also have "\<dots> = unsettled dirty ready - length more"
    using d by (simp add: unsettled_def card_Diff_subset distinct_card)
  finally have "unsettled dirty (ready @ more) + length more = unsettled dirty ready"
    using card_mono [OF _ d(2)] distinct_card [OF d(1)] by (simp add: unsettled_def)
  then show "((dirty, filter (\<lambda>x. fst x \<notin> set (hn_cookies noted)) cookies, ready @ more, rev more @ pending),
      (dirty, cookies, ready, p # pending)) \<in> measure (\<lambda>(dirty, cookies, ready, pending). 2 * unsettled dirty ready + length pending)"
    by simp
qed simp_all

definition file_due :: "time \<Rightarrow> file_hints \<Rightarrow> (string \<times> file_hint) list \<times> string list \<times> nat \<times> time option \<times> file_hints" where
  "file_due now a =
     (let first = map fst (filter (\<lambda>x. hint_at a (fst x) (snd x) \<le> now) (fh_dirty a)) in
      case settle_with (fh_dirty a) (fh_cookies a) first first of (ready, cookies) \<Rightarrow>
        let settled = filter (\<lambda>x. fst x \<in> set ready) (fh_dirty a);
            left = filter (\<lambda>x. fst x \<notin> set ready) (fh_dirty a);
            next = (if left = [] then None else Some (Min (set (map (\<lambda>x. hint_at a (fst x) (snd x)) left))))
        in (settled, fh_moved a, fh_lost a, next,
            a\<lparr>fh_dirty := left, fh_cookies := cookies,
              fh_holds := filter (\<lambda>x. \<not> now > ho_until (snd x) + ho_length (snd x)) (fh_holds a), fh_moved := [], fh_lost := 0\<rparr>))"

definition file_retain :: "string \<Rightarrow> time \<Rightarrow> file_hints \<Rightarrow> file_hints" where
  "file_retain p now a =
     (let len = (case map_of (fh_holds a) p of
          None \<Rightarrow> firstHold
        | Some held \<Rightarrow> if \<not> now > ho_until held + ho_length held then min (2 * ho_length held) longestHold else firstHold)
      in a\<lparr>fh_holds := put_key p \<lparr>ho_until = now + len, ho_length = len\<rparr> (fh_holds a)\<rparr>)"

section \<open>What is written down\<close>

definition loggedPerMinute :: nat where "loggedPerMinute = 1000"

record file_log =
  fl_changes :: nat
  fl_unlogged :: nat
  fl_changed :: time
  fl_window :: time
  fl_logged :: nat
  fl_withheld :: "file_operation \<Rightarrow> nat"
  fl_lines :: "file_change list"

definition file_report :: "file_change \<Rightarrow> time \<Rightarrow> file_log \<Rightarrow> file_log" where
  "file_report found now a =
     (let a = a\<lparr>fl_changes := fl_changes a + 1, fl_changed := now\<rparr>;
          a = (if now - fl_window a \<ge> Minute then a\<lparr>fl_window := now, fl_logged := 0\<rparr> else a)
      in if fl_logged a < loggedPerMinute
         then a\<lparr>fl_logged := fl_logged a + 1, fl_lines := fl_lines a @ [found]\<rparr>
         else a\<lparr>fl_unlogged := fl_unlogged a + 1,
               fl_withheld := (fl_withheld a)(fc_operation found := fl_withheld a (fc_operation found) + 1)\<rparr>)"

section \<open>The pass over the names that settled\<close>

text \<open>What the host answers of a name the kernel spoke of: the directory that holds it, as it is opened, and the name.\<close>

record hint_look =
  hl_path :: string
  hl_hint :: file_hint
  hl_opened :: "tree_node option"
  hl_stat :: file_look

datatype hint_way = Way_none | Way_relocated string | Way_ready string

definition hint_way_of :: "path_match \<Rightarrow> file_scope \<Rightarrow> file_baseline \<Rightarrow> hint_look \<Rightarrow> hint_way" where
  "hint_way_of mt s b x =
     (case scope_root s (hl_path x) of (root, held) \<Rightarrow>
        if \<not> held \<or> \<not> scope_covers mt s (hl_path x) then Way_none
        else if hl_path x = root then Way_relocated root
        else case baseline_find b s (path_Dir (hl_path x)) of
          None \<Rightarrow> Way_relocated root
        | Some parent \<Rightarrow>
            if tn_Kind (fe_node parent) \<noteq> T_Directory then Way_relocated root
            else case hl_opened x of
              None \<Rightarrow> Way_relocated root
            | Some dir \<Rightarrow> if node_Same dir (fe_node parent) then Way_ready root else Way_relocated root)"

definition pass_missing :: "string \<Rightarrow> string list \<Rightarrow> string \<Rightarrow> file_hint \<Rightarrow> file_entry option \<Rightarrow> bool \<Rightarrow> file_roots \<Rightarrow> file_pass \<Rightarrow> file_roots \<times> file_pass" where
  "pass_missing rt ns p h entry listed roots st =
     (case entry of
        Some e \<Rightarrow>
          (let at = \<lparr>pl_path = p, pl_root = rt, pl_names = ns, pl_entry = e, pl_hint = Some h\<rparr>
           in if listed then (roots, st\<lparr>fp_vanished := fp_vanished st @ [at]\<rparr>)
              else (pass_remove at roots, st\<lparr>fp_changed := True\<rparr>))
      | None \<Rightarrow>
          if listed \<and> hn_seen h AND (W_Created OR W_MovedTo) \<noteq> 0 \<and> hn_seen h AND W_MovedFrom = 0
          then (roots, report_change \<lparr>fc_operation = Op_transient, fc_path = p, fc_previous = [], fc_changes = [],
                  fc_before = None, fc_after = None, fc_hint = Some h\<rparr> st)
          else (roots, st))"

text \<open>One name that is ready; whether the pass goes on.\<close>

definition look_hinted :: "file_env \<Rightarrow> string \<Rightarrow> hint_look \<Rightarrow> file_baseline \<Rightarrow> file_pass \<Rightarrow> bool \<times> file_baseline \<times> file_pass" where
  "look_hinted ev root x b st =
     (let p = hl_path x; ns = path_elements root p in
      case (baseline_find b (ev_scope ev) (path_Dir p), hl_opened x) of
        (Some parent, Some dir) \<Rightarrow>
          if \<not> node_Same dir (fe_node parent) then (True, b, st)
          else (case hl_stat x of
                  Look_gone \<Rightarrow>
                    (case pass_missing root ns p (hl_hint x) (entry_child parent (path_Base p)) (fe_listed parent) (fb_roots b) st of
                       (roots, st) \<Rightarrow> (True, b\<lparr>fb_roots := roots\<rparr>, st))
                | Look_uncharged _ \<Rightarrow> (False, b, st)
                | Look_at s \<Rightarrow>
                    (case file_observe ev root ns p (Some (hl_hint x)) (entry_child parent (path_Base p)) (\<not> fe_listed parent)
                        (tn_Device dir) (length ns) s st of
                       (None, ok, st) \<Rightarrow> (ok, b, st)
                     | (Some e, ok, st) \<Rightarrow>
                         (ok, b\<lparr>fb_roots := pass_place \<lparr>pl_path = p, pl_root = root, pl_names = ns, pl_entry = e, pl_hint = None\<rparr> (fb_roots b)\<rparr>, st))
                | _ \<Rightarrow> (True, b, st))
      | _ \<Rightarrow> (True, b, st))"

fun look_hints :: "file_env \<Rightarrow> string list \<Rightarrow> (string \<times> hint_look) list \<Rightarrow> file_baseline \<Rightarrow> file_pass \<Rightarrow> bool \<times> file_baseline \<times> file_pass" where
  "look_hints ev relocated [] b st = (True, b, st)"
| "look_hints ev relocated ((root, x) # xs) b st =
     (if look_stops (hl_stat x) then (False, b, st)
      else if root \<in> set relocated then look_hints ev relocated xs b st
      else case look_hinted ev root x b st of
        (False, b, st) \<Rightarrow> (False, b, st)
      | (True, b, st) \<Rightarrow> look_hints ev relocated xs b st)"

text \<open>
  \<open>hinted\<close> and the end of the pass: the names in the order of their paths, then the paths that are walked
  whole, with what the host answers of each.
\<close>

definition file_hinted :: "path_match \<Rightarrow> file_scope \<Rightarrow> hint_look list \<Rightarrow> string list \<Rightarrow> (string \<Rightarrow> file_look) \<Rightarrow> file_baseline
     \<Rightarrow> bool \<times> file_baseline \<times> file_change list" where
  "file_hinted mt s hints moved answer b =
     (let ev = \<lparr>ev_match = mt, ev_scope = s, ev_fresh = fb_fresh b, ev_entries = fb_entries b\<rparr>;
          ways = map (\<lambda>x. (hint_way_of mt s b x, x)) hints;
          relocated = map fst (fold (\<lambda>r m. map_put r () m)
            (moved @ concat (map (\<lambda>w. case fst w of Way_relocated r \<Rightarrow> [r] | _ \<Rightarrow> []) ways)) []);
          ready = concat (map (\<lambda>w. case fst w of Way_ready r \<Rightarrow> [(r, snd w)] | _ \<Rightarrow> []) ways)
      in case look_hints ev relocated ready b new_pass of
           (False, b, st) \<Rightarrow> (False, b, fp_reports st)
         | (True, b, st) \<Rightarrow>
             (case walk_roots ev (map (\<lambda>r. (r, answer r)) relocated) (fb_roots b) st of
                (False, roots, st) \<Rightarrow> (False, b\<lparr>fb_roots := roots\<rparr>, fp_reports st)
              | (True, roots, st) \<Rightarrow>
                  (case pass_finish roots st of (roots, reports) \<Rightarrow>
                     let b = b\<lparr>fb_roots := roots\<rparr> in (True, b\<lparr>fb_entries := baseline_count b\<rparr>, reports))))"

section \<open>Names of a move\<close>

text \<open>A name that settled has every name that shares a cookie with it settle with it.\<close>

lemma settle_with_partners:
  assumes "settle_with dirty cookies ready pending = (R, K)"
  shows "set ready \<subseteq> set R \<and> (\<forall>p noted c ps q. p \<in> set R - (set ready - set pending) \<longrightarrow> map_of dirty p = Some noted \<longrightarrow> c \<in> set (hn_cookies noted)
     \<longrightarrow> map_of cookies c = Some ps \<longrightarrow> q \<in> set ps \<longrightarrow> map_of dirty q \<noteq> None \<longrightarrow> q \<in> set R)"
  using assms
proof (induction dirty cookies ready pending rule: settle_with.induct)
  case (2 dirty cookies ready p pending)
  show ?case
  proof (cases "map_of dirty p")
    case None
    then show ?thesis using 2 by fastforce
  next
    case (Some noted)
    define more where "more = partners dirty cookies ready noted"
    define left where "left = filter (\<lambda>x. fst x \<notin> set (hn_cookies noted)) cookies"
    have left: "map_of left c = (if c \<in> set (hn_cookies noted) then None else map_of cookies c)" for c
      unfolding left_def by (induction cookies) auto
    have brought: "q \<in> set ready \<union> set more"
      if "c \<in> set (hn_cookies noted)" "map_of cookies c = Some ps" "q \<in> set ps" "map_of dirty q \<noteq> None" for c ps q
    proof -
      have "q \<in> set (concat (map (\<lambda>c. case map_of cookies c of None \<Rightarrow> [] | Some ps \<Rightarrow> ps) (hn_cookies noted)))"
        using that(1-3) by (auto intro!: bexI [of _ c])
      then show ?thesis using that(4) unfolding more_def partners_def by simp
    qed
    have r: "settle_with dirty left (ready @ more) (rev more @ pending) = (R, K)"
      using "2.prems" Some by (simp add: more_def left_def Let_def)
    note ih = "2.IH"(2) [OF Some more_def, folded left_def, OF r]
    show ?thesis
    proof (intro conjI allI impI)
      show "set ready \<subseteq> set R" using ih by simp
      fix p' noted' c ps q
      assume a: "p' \<in> set R - (set ready - set (p # pending))" "map_of dirty p' = Some noted'" "c \<in> set (hn_cookies noted')"
        "map_of cookies c = Some ps" "q \<in> set ps" "map_of dirty q \<noteq> None"
      show "q \<in> set R"
      proof (cases "c \<in> set (hn_cookies noted)")
        case True
        then show ?thesis using brought [OF True a(4-6)] ih by auto
      next
        case False
        then have l: "map_of left c = Some ps" using left a(4) by simp
        have "p' \<noteq> p" using False a(2,3) Some by auto
        then have "p' \<in> set R - (set (ready @ more) - set (rev more @ pending))" using a(1) by auto
        then show ?thesis using ih a(2,3,5,6) l by blast
      qed
    qed
  qed
qed simp


section \<open>What is counted and held back\<close>

text \<open>Every change is counted, and written down or counted as withheld; a minute writes down a thousand.\<close>

definition log_ok :: "file_log \<Rightarrow> bool" where
  "log_ok a \<longleftrightarrow> fl_changes a = length (fl_lines a) + fl_unlogged a \<and> fl_logged a \<le> loggedPerMinute"

lemma file_report_ok: "log_ok a \<Longrightarrow> log_ok (file_report found now a)"
  by (auto simp: log_ok_def file_report_def Let_def)

lemma file_report_window:
  assumes "now - fl_window a < Minute" "fl_logged a \<ge> loggedPerMinute"
  shows "fl_lines (file_report found now a) = fl_lines a"
  using assms by (simp add: file_report_def Let_def)

text \<open>A name is held back for at most five minutes.\<close>

definition holds_ok :: "file_hints \<Rightarrow> bool" where
  "holds_ok a \<longleftrightarrow> (\<forall>x \<in> set (fh_holds a). 0 < ho_length (snd x) \<and> ho_length (snd x) \<le> longestHold)"

lemma file_retain_ok: "holds_ok a \<Longrightarrow> holds_ok (file_retain p now a)"
  by (auto simp: holds_ok_def file_retain_def Let_def put_key_def del_key_def firstHold_def longestHold_def duration_defs
      split: option.splits dest!: map_of_SomeD)

lemma file_due_holds: "holds_ok a \<Longrightarrow> file_due now a = (settled, moved, lost, next, a') \<Longrightarrow> holds_ok a'"
  by (auto simp: holds_ok_def file_due_def Let_def split: prod.splits)

text \<open>What a scope watches anew is what the one before it left out and it does not.\<close>

lemma scope_since_holds:
  assumes "x \<in> set (fr_paths (scope_since s before))"
  shows "x \<in> set (fs_Exclude before)" "x \<notin> set (fs_absolute s)"
  using assms by (auto simp: scope_since_def scoped_def Let_def)

lemma join_new_set: "set (join_new held other) = set held \<union> set other"
  unfolding join_new_def by (induction other arbitrary: held) (auto split: if_splits)

lemma fresh_join_holds: "fresh_holds mt (fresh_join f g) p \<longleftrightarrow> fresh_holds mt f p \<or> fresh_holds mt g p"
  by (auto simp: fresh_holds_def fresh_join_def name_matches_def list_ex_iff join_new_set)

end
