(* ===== verification/Integrity_Samples.thy ===== *)
theory Integrity_Samples
  imports Integrity_Inv Integrity_Hints
begin

text \<open>
  A directory that is watched, with a directory in it that is empty, and a file that comes.
\<close>

definition sample_node :: "tree_kind \<Rightarrow> u64 \<Rightarrow> tree_node" where
  "sample_node k inode = \<lparr>tn_Kind = k, tn_Device = 1, tn_Inode = inode, tn_Links = 1, tn_User = 0, tn_Group = 0, tn_Mode = 0,
     tn_Special = 0, tn_Size = 0, tn_Modified = 0, tn_Changed = 0\<rparr>"

definition sample_file :: file_seen where
  "sample_file = Seen (sample_node T_Regular 7) [] (\<lambda>_. Hash_all 0 [] (Some (sample_node T_Regular 7))) (Dir_refused False)"

text \<open>The directory \<open>/d/a\<close> as it is held, and as it is seen with the file and without it.\<close>

definition sample_inner :: file_entry where
  "sample_inner = File_Entry (sample_node T_Directory 3) C_unread [] True G_covered []"

definition sample_dir :: file_entry where
  "sample_dir = File_Entry (sample_node T_Directory 2) C_unread [] True G_covered [(''a'', sample_inner)]"

definition sample_inner_seen :: "(string \<times> file_look) list \<Rightarrow> file_seen" where
  "sample_inner_seen xs = Seen (sample_node T_Directory 3) [] (\<lambda>_. Hash_other) (Dir_names xs)"

definition sample_dir_seen :: "(string \<times> file_look) list \<Rightarrow> file_seen" where
  "sample_dir_seen xs = Seen (sample_node T_Directory 2) [] (\<lambda>_. Hash_other) (Dir_names [(''a'', Look_at (sample_inner_seen xs))])"

definition sample_match :: path_match where "sample_match p n = Some False"

definition sample_files :: file_scope where
  "sample_files = scoped \<lparr>fs_Paths = [''/d''], fs_Exclude = []\<rparr> []"

definition sample_baseline :: file_baseline where
  "sample_baseline = \<lparr>fb_scope = \<lparr>fs_Paths = [''/d''], fs_Exclude = []\<rparr>, fb_fresh = no_fresh,
     fb_roots = [(''/d'', \<lparr>ro_observed = True, ro_entry = Some sample_dir, ro_problem = None\<rparr>)], fb_entries = 2\<rparr>"

lemma sample_walked:
  "walked_name (walk_env sample_match sample_files b) ''/d'' ''/d'' ''a''"
  "walked_name (walk_env sample_match sample_files b) ''/d'' ''/d/a'' ''f''"
  by (simp_all add: walked_name_def walk_env_def sample_match_def sample_files_def scope_walks_def scope_root_def scoped_def
      path_Join_def maxPathBytes_def path_within_def path_HasPrefix_def scope_excludes_def isRoot_def name_matches_def)

lemma sample_kept: "kept_well sample_dir"
proof (rule kept_wellI)
  have inner: "kept_well sample_inner"
    by (rule kept_wellI) (simp_all add: sample_inner_def sample_node_def entry_child_def)
  show "kept_well c" if "entry_child sample_dir n = Some c" for n c
    using that inner by (auto simp: sample_dir_def entry_child_def split: if_splits)
qed (simp add: sample_dir_def sample_node_def)

lemma sample_on_walk:
  "on_walk (walk_env sample_match sample_files b) ''/d'' ''/d'' 0 0 (sample_dir_seen [(''f'', Look_at sample_file)]) [''a'', ''f'']"
  using sample_walked [of b]
  by (simp add: sample_dir_seen_def sample_inner_seen_def sample_file_def sample_node_def path_Join_def maxDepth_def)

lemma sample_once: "once_seen (sample_dir_seen [(''f'', Look_at sample_file)])"
  by (simp add: sample_dir_seen_def sample_inner_seen_def sample_file_def sample_node_def)

lemma sample_walk_ends:
  "\<exists>b' R. file_walk sample_match sample_files True [(''/d'', Look_at (sample_dir_seen [(''f'', Look_at sample_file)]))] sample_baseline = (True, b', R)"
  by (rule walk_ends) (simp add: sample_dir_seen_def sample_inner_seen_def sample_file_def list_all_iff)

text \<open>The kernel speaks of the directory and of the file that came in it.\<close>

definition sample_hint :: file_hint where
  "sample_hint = \<lparr>hn_first = 0, hn_count = 1, hn_seen = W_Created, hn_cookies = []\<rparr>"

definition sample_hints :: "hint_look list" where
  "sample_hints =
     [\<lparr>hl_path = ''/d/a'', hl_hint = sample_hint, hl_opened = Some (sample_node T_Directory 2),
        hl_stat = Look_at (sample_inner_seen [(''f'', Look_at sample_file)])\<rparr>,
      \<lparr>hl_path = ''/d/a/f'', hl_hint = sample_hint, hl_opened = Some (sample_node T_Directory 3), hl_stat = Look_at sample_file\<rparr>]"

definition file_now :: file_entry where
  "file_now = File_Entry (sample_node T_Regular 7) (C_hashed []) [] False G_covered []"

lemma file_is_now: "now_entry None (sample_node T_Regular 7) [] (\<lambda>_. Hash_all 0 [] (Some (sample_node T_Regular 7))) = Some file_now"
  by (simp add: now_entry_def sample_node_def pass_content_def maxHashBytes_def hashAttempts_def numeral_3_eq_3 pass_hash_def
      node_unchanged_def node_Same_def file_now_def)

lemma file_comes:
  "ev_fresh ev = no_fresh \<Longrightarrow> file_observe ev rt ns p h None False pdev depth sample_file st =
     (None, True, st\<lparr>fp_added := fp_added st + 1,
        fp_appeared := fp_appeared st @ [\<lparr>pl_path = p, pl_root = rt, pl_names = ns, pl_entry = file_now, pl_hint = h\<rparr>]\<rparr>)"
  by (simp add: sample_file_def file_observe.simps file_is_now dir_descend.simps) (simp add: file_now_def sample_node_def)

lemma inner_same: "same_look sample_inner (File_Entry (sample_node T_Directory 3) C_unread [] False G_covered [])"
  by (simp add: same_look_def sample_inner_def)

abbreviation sev :: file_env where
  "sev \<equiv> walk_env sample_match sample_files sample_baseline"

lemma sample_sweep: "sweep sev ''/d'' [''a''] ''/d/a'' True [''f''] sample_inner st = (sample_inner, st)"
  by (simp add: sweep_def sample_inner_def set_gap_def set_listed_def)

lemma inner_now: "now_entry (Some sample_inner) (sample_node T_Directory 3) [] hs = Some (File_Entry (sample_node T_Directory 3) C_unread [] False G_covered [])"
  by (simp add: now_entry_def sample_node_def)

lemma inner_visit:
  "dir_visit sev ''/d'' [''a''] ''/d/a'' True (Suc 1) [] [(''f'', Look_at sample_file)] sample_inner st =
     (sample_inner, [''f''], True, st\<lparr>fp_added := fp_added st + 1, fp_appeared := fp_appeared st @
        [\<lparr>pl_path = ''/d/a/f'', pl_root = ''/d'', pl_names = [''a'', ''f''], pl_entry = file_now, pl_hint = None\<rparr>]\<rparr>)"
proof -
  have c: "entry_child sample_inner ''f'' = None" by (simp add: sample_inner_def entry_child_def)
  have f: "ev_fresh sev = no_fresh" by (simp add: walk_env_def sample_baseline_def)
  show ?thesis using sample_walked(2) [of sample_baseline]
    by (simp add: dir_visit.simps(2) walked_name_def path_Join_def c file_comes [OF f])
qed

lemma inner_seen:
  assumes "fp_added st = 0"
  shows "file_observe sev ''/d'' [''a''] ''/d/a'' h (Some sample_inner) False 1 1 (sample_inner_seen [(''f'', Look_at sample_file)]) st =
     (Some sample_inner, True, st\<lparr>fp_added := 1, fp_appeared := fp_appeared st @
        [\<lparr>pl_path = ''/d/a/f'', pl_root = ''/d'', pl_names = [''a'', ''f''], pl_entry = file_now, pl_hint = None\<rparr>]\<rparr>)"
proof -
  have r: "renew h ''/d/a'' sample_inner (File_Entry (sample_node T_Directory 3) C_unread [] False G_covered []) st = (sample_inner, st)"
    using inner_same by (rule renew_same)
  have room: "pass_room sev sample_inner st = 99998"
    using assms by (simp add: pass_room_def walk_env_def sample_baseline_def sample_inner_def maxEntries_def)
  have n: "tn_Kind (fe_node sample_inner) = T_Directory" "tn_Device (fe_node sample_inner) = 1" "fe_listed sample_inner"
    by (simp_all add: sample_inner_def sample_node_def)
  show ?thesis
    using assms by (simp add: sample_inner_seen_def file_observe.simps inner_now r dir_descend.simps n room maxDepth_def sample_sweep
        inner_visit [simplified])
qed

lemma sample_found:
  "baseline_find sample_baseline sample_files ''/d'' = Some sample_dir"
  "baseline_find sample_baseline sample_files ''/d/a'' = Some sample_inner"
  by (simp_all add: baseline_find_def sample_baseline_def sample_files_def scoped_def scope_root_def path_within_def path_HasPrefix_def
      path_elements_def TrimPrefix_def sample_dir_def entry_child_def)

lemma sample_scope:
  "scope_root sample_files ''/d/a'' = (''/d'', True)" "scope_root sample_files ''/d/a/f'' = (''/d'', True)"
  "scope_covers sample_match sample_files ''/d/a''" "scope_covers sample_match sample_files ''/d/a/f''"
  by (simp_all add: sample_files_def scoped_def scope_root_def path_within_def path_HasPrefix_def scope_covers_def scope_excludes_def
      isRoot_def name_matches_def)

lemma sample_ways:
  "map (\<lambda>x. (hint_way_of sample_match sample_files sample_baseline x, x)) sample_hints = map (\<lambda>x. (Way_ready ''/d'', x)) sample_hints"
  by (simp add: sample_hints_def hint_way_of_def sample_scope sample_found path_Dir_def)
    (simp add: sample_dir_def sample_inner_def sample_node_def node_Same_def)

abbreviation comes :: "file_hint option \<Rightarrow> file_placed" where
  "comes h \<equiv> \<lparr>pl_path = ''/d/a/f'', pl_root = ''/d'', pl_names = [''a'', ''f''], pl_entry = file_now, pl_hint = h\<rparr>"

lemma sample_place:
  "pass_place \<lparr>pl_path = ''/d/a'', pl_root = ''/d'', pl_names = [''a''], pl_entry = sample_inner, pl_hint = None\<rparr> (fb_roots sample_baseline)
     = fb_roots sample_baseline"
  by (simp add: pass_place_def sample_baseline_def sample_dir_def entry_child_def entry_adopt_def set_children_def)

lemma hinted_first:
  "look_hinted sev ''/d'' (sample_hints ! 0) sample_baseline new_pass =
     (True, sample_baseline, new_pass\<lparr>fp_added := Suc 0, fp_appeared := [comes None]\<rparr>)"
proof -
  have d: "path_Dir ''/d/a'' = ''/d''" "path_Base ''/d/a'' = ''a''" "path_elements ''/d'' ''/d/a'' = [''a'']"
    by (simp_all add: path_Dir_def path_Base_def path_elements_def TrimPrefix_def path_HasPrefix_def)
  have c: "entry_child sample_dir ''a'' = Some sample_inner" "fe_listed sample_dir" "node_Same (sample_node T_Directory 2) (fe_node sample_dir)"
     "tn_Device (sample_node T_Directory 2) = 1" "ev_scope sev = sample_files"
    by (simp_all add: sample_dir_def entry_child_def node_Same_def sample_node_def walk_env_def)
  show ?thesis
    by (simp add: look_hinted_def sample_hints_def d sample_found c inner_seen [simplified] sample_place new_pass_def)
qed

lemma hinted_second:
  assumes "st = new_pass\<lparr>fp_added := Suc 0, fp_appeared := [comes None]\<rparr>"
  shows "look_hinted sev ''/d'' (sample_hints ! Suc 0) sample_baseline st =
     (True, sample_baseline, new_pass\<lparr>fp_added := Suc (Suc 0), fp_appeared := [comes None, comes (Some sample_hint)]\<rparr>)"
proof -
  have d: "path_Dir ''/d/a/f'' = ''/d/a''" "path_Base ''/d/a/f'' = ''f''" "path_elements ''/d'' ''/d/a/f'' = [''a'', ''f'']"
    by (simp_all add: path_Dir_def path_Base_def path_elements_def TrimPrefix_def path_HasPrefix_def)
  have c: "entry_child sample_inner ''f'' = None" "fe_listed sample_inner" "node_Same (sample_node T_Directory 3) (fe_node sample_inner)"
     "ev_scope sev = sample_files" "ev_fresh sev = no_fresh"
    by (simp_all add: sample_inner_def entry_child_def node_Same_def sample_node_def walk_env_def sample_baseline_def)
  show ?thesis
    by (simp add: look_hinted_def sample_hints_def d sample_found c file_comes [OF c(5)] assms new_pass_def Let_def)
qed

lemma twice_finish:
  "length (filter (\<lambda>c. fc_operation c = Op_created \<and> fc_path c = ''/d/a/f'')
     (snd (pass_finish roots (new_pass\<lparr>fp_added := n, fp_appeared := [comes None, comes (Some sample_hint)]\<rparr>)))) = 2"
  by (simp add: pass_finish_def new_pass_def settle_came_def moved_from_def same_file_def file_now_def created_change_def)

lemma told_twice:
  "\<exists>b' R. file_hinted sample_match sample_files sample_hints [] (\<lambda>_. Look_failed) sample_baseline = (True, b', R)
     \<and> length (filter (\<lambda>c. fc_operation c = Op_created \<and> fc_path c = ''/d/a/f'') R) = 2"
proof -
  have e: "\<lparr>ev_match = sample_match, ev_scope = sample_files, ev_fresh = fb_fresh sample_baseline, ev_entries = fb_entries sample_baseline\<rparr> = sev"
    by (simp add: walk_env_def)
  have h: "sample_hints = [sample_hints ! 0, sample_hints ! Suc 0]" "\<not> look_stops (hl_stat (sample_hints ! 0))" "\<not> look_stops (hl_stat (sample_hints ! Suc 0))"
    by (simp_all add: sample_hints_def)
  have l: "look_hints sev [] [(''/d'', sample_hints ! 0), (''/d'', sample_hints ! Suc 0)] sample_baseline new_pass
      = (True, sample_baseline, new_pass\<lparr>fp_added := Suc (Suc 0), fp_appeared := [comes None, comes (Some sample_hint)]\<rparr>)"
    using h(2,3) by (simp add: hinted_first hinted_second [OF refl])
  have r: "concat (map (\<lambda>w. case fst w of Way_ready r \<Rightarrow> [(r, snd w)] | _ \<Rightarrow> []) (map (\<lambda>x. (Way_ready ''/d'', x)) sample_hints))
      = [(''/d'', sample_hints ! 0), (''/d'', sample_hints ! Suc 0)]"
    "concat (map (\<lambda>w. case fst w of Way_relocated r \<Rightarrow> [r] | _ \<Rightarrow> []) (map (\<lambda>x. (Way_ready ''/d'', x)) sample_hints)) = []"
    by (subst h(1), simp)+
  show ?thesis
    using twice_finish [of "fb_roots sample_baseline" "Suc (Suc 0)"]
    unfolding file_hinted_def Let_def e sample_ways r by (auto simp add: l simp del: look_hints.simps split: prod.splits)
qed


text \<open>A file that was moved: the kernel spoke of the name it had and, a moment later, of the one it has.\<close>

definition sample_moved :: file_hint where
  "sample_moved = \<lparr>hn_first = 500000000, hn_count = 1, hn_seen = W_MovedTo, hn_cookies = [5]\<rparr>"

definition sample_heard :: file_hints where
  "sample_heard = \<lparr>fh_scope = sample_files, fh_byWatch = [], fh_byPath = [],
     fh_dirty = [(''/d/x'', sample_moved\<lparr>hn_first := 0\<rparr>), (''/d/y'', sample_moved)], fh_cookies = [(5, [''/d/x'', ''/d/y''])],
     fh_moved = [], fh_holds = [], fh_lost = 0\<rparr>"

lemma moved_is_first:
  assumes "file_due 1000000000 sample_heard = (settled, moved, lost, next, a')"
  shows "(''/d/x'', sample_moved\<lparr>hn_first := 0\<rparr>) \<in> set settled"
proof -
  let ?first = "map fst (filter (\<lambda>x. hint_at sample_heard (fst x) (snd x) \<le> 1000000000) (fh_dirty sample_heard))"
  obtain R K where r: "settle_with (fh_dirty sample_heard) (fh_cookies sample_heard) ?first ?first = (R, K)" by fastforce
  have s: "settled = filter (\<lambda>x. fst x \<in> set R) (fh_dirty sample_heard)" using assms r by (auto simp: file_due_def Let_def)
  have "''/d/x'' \<in> set ?first"
    by (simp add: sample_heard_def sample_moved_def hint_at_def file_settle_def duration_defs)
  then have "''/d/x'' \<in> set R" using settle_with_partners [OF r] by auto
  then show ?thesis unfolding s by (simp add: sample_heard_def)
qed

end
