(* ===== verification/Text_Patterns.thy ===== *)
theory Text_Patterns
  imports Strings
begin

text \<open>
  What the sources use of \<open>strings\<close>, \<open>regexp\<close> and \<open>unicode/utf8\<close> to read a line: searching and
  cutting, matching a whole text against a pattern, and making a text valid UTF-8 of a bounded length.
  A string is the list of its bytes.
\<close>

section \<open>Searching and cutting\<close>

fun str_Index :: "string \<Rightarrow> string \<Rightarrow> nat option" where
  "str_Index sep [] = (if sep = [] then Some 0 else None)"
| "str_Index sep (c # s) = (if take (length sep) (c # s) = sep then Some 0 else map_option Suc (str_Index sep s))"

definition str_Cut :: "string \<Rightarrow> string \<Rightarrow> string \<times> string \<times> bool" where
  "str_Cut sep s =
     (case str_Index sep s of
        None \<Rightarrow> (s, [], False)
      | Some i \<Rightarrow> (take i s, drop (i + length sep) s, True))"

definition CutPrefix :: "string \<Rightarrow> string \<Rightarrow> string \<times> bool" where
  "CutPrefix pre s = (if take (length pre) s = pre then (drop (length pre) s, True) else (s, False))"

lemma str_Index_bound: "str_Index sep s = Some i \<Longrightarrow> i + length sep \<le> length s \<and> take (length sep) (drop i s) = sep"
proof (induction s arbitrary: i)
  case Nil
  then show ?case by (simp split: if_splits)
next
  case (Cons c s)
  show ?case
  proof (cases "take (length sep) (c # s) = sep")
    case True
    then have "length sep \<le> length (c # s)" by (metis length_take min.cobounded1)
    then show ?thesis using Cons.prems True by simp
  next
    case False
    then show ?thesis using Cons by auto
  qed
qed

lemma str_Index_least: "str_Index sep s = Some i \<Longrightarrow> j < i \<Longrightarrow> take (length sep) (drop j s) \<noteq> sep"
proof (induction s arbitrary: i j)
  case (Cons c s)
  then show ?case by (cases j) (auto split: if_splits)
qed (simp split: if_splits)

lemma str_Index_none: "str_Index sep s = None \<Longrightarrow> j \<le> length s \<Longrightarrow> take (length sep) (drop j s) \<noteq> sep"
proof (induction s arbitrary: j)
  case (Cons c s)
  then show ?case by (cases j) (auto split: if_splits)
qed (auto split: if_splits)

text \<open>Text that does not hold the first character of the separator is cut where the separator follows it.\<close>

lemma str_Index_append: "c \<notin> set xs \<Longrightarrow> str_Index (c # sep) (xs @ (c # sep) @ ys) = Some (length xs)"
  by (induction xs) auto

lemma str_Cut_append: "c \<notin> set xs \<Longrightarrow> str_Cut (c # sep) (xs @ (c # sep) @ ys) = (xs, ys, True)"
  using str_Index_append [of c xs sep ys] by (simp add: str_Cut_def)

lemma str_Cut_parts: "str_Cut sep s = (a, b, True) \<Longrightarrow> s = a @ sep @ b"
  using str_Index_bound [of sep s] by (auto simp: str_Cut_def split: option.splits)
    (metis append_take_drop_id drop_drop add.commute)

lemma CutPrefix_append [simp]: "CutPrefix pre (pre @ s) = (s, True)"
  by (simp add: CutPrefix_def)

lemma CutPrefix_parts: "CutPrefix pre s = (t, True) \<Longrightarrow> s = pre @ t"
  by (auto simp: CutPrefix_def split: if_splits) (metis append_take_drop_id)

section \<open>Patterns\<close>

definition byte_in :: "nat \<Rightarrow> nat \<Rightarrow> char \<Rightarrow> bool" where
  "byte_in lo hi c \<longleftrightarrow> lo \<le> of_char c \<and> of_char c \<le> (hi :: nat)"

datatype pattern =
  PNever | PEmpty | POne "char \<Rightarrow> bool" | PThen pattern pattern | PEither pattern pattern | PMany pattern

fun empty_matches :: "pattern \<Rightarrow> bool" where
  "empty_matches PNever = False"
| "empty_matches PEmpty = True"
| "empty_matches (POne p) = False"
| "empty_matches (PThen a b) = (empty_matches a \<and> empty_matches b)"
| "empty_matches (PEither a b) = (empty_matches a \<or> empty_matches b)"
| "empty_matches (PMany a) = True"

text \<open>What is left of a pattern once it took a character.\<close>

fun pattern_after :: "char \<Rightarrow> pattern \<Rightarrow> pattern" where
  "pattern_after c PNever = PNever"
| "pattern_after c PEmpty = PNever"
| "pattern_after c (POne p) = (if p c then PEmpty else PNever)"
| "pattern_after c (PThen a b) = (if empty_matches a then PEither (PThen (pattern_after c a) b) (pattern_after c b) else PThen (pattern_after c a) b)"
| "pattern_after c (PEither a b) = PEither (pattern_after c a) (pattern_after c b)"
| "pattern_after c (PMany a) = PThen (pattern_after c a) (PMany a)"

definition MatchString :: "pattern \<Rightarrow> string \<Rightarrow> bool" where
  "MatchString r s = empty_matches (foldl (\<lambda>r c. pattern_after c r) r s)"

text \<open>The texts a pattern stands for.\<close>

inductive_set repeated :: "string set \<Rightarrow> string set" for A where
  repeated_none: "[] \<in> repeated A"
| repeated_more: "u \<in> A \<Longrightarrow> v \<in> repeated A \<Longrightarrow> u @ v \<in> repeated A"

fun texts_of :: "pattern \<Rightarrow> string set" where
  "texts_of PNever = {}"
| "texts_of PEmpty = {[]}"
| "texts_of (POne p) = {[c] | c. p c}"
| "texts_of (PThen a b) = {u @ v | u v. u \<in> texts_of a \<and> v \<in> texts_of b}"
| "texts_of (PEither a b) = texts_of a \<union> texts_of b"
| "texts_of (PMany a) = repeated (texts_of a)"

lemma empty_matches_texts: "empty_matches r \<longleftrightarrow> [] \<in> texts_of r"
  by (induction r) (auto intro: repeated_none)

lemma repeated_Cons:
  assumes "c # w \<in> repeated A"
  shows "\<exists>u v. w = u @ v \<and> c # u \<in> A \<and> v \<in> repeated A"
proof -
  have "s = c # w \<longrightarrow> (\<exists>u v. w = u @ v \<and> c # u \<in> A \<and> v \<in> repeated A)" if "s \<in> repeated A" for s
    using that by (induction rule: repeated.induct) (auto simp: append_eq_Cons_conv)
  then show ?thesis using assms by blast
qed

lemma pattern_after_texts: "w \<in> texts_of (pattern_after c r) \<longleftrightarrow> c # w \<in> texts_of r"
proof (induction r arbitrary: w)
  case (PThen a b)
  have "c # w \<in> texts_of (PThen a b) \<longleftrightarrow>
      ([] \<in> texts_of a \<and> c # w \<in> texts_of b) \<or> (\<exists>u v. w = u @ v \<and> c # u \<in> texts_of a \<and> v \<in> texts_of b)"
    by (auto simp: Cons_eq_append_conv)
  then show ?case using PThen by (auto simp: empty_matches_texts)
next
  case (PMany a)
  have "c # (u @ v) \<in> repeated (texts_of a)" if "c # u \<in> texts_of a" "v \<in> repeated (texts_of a)" for u v
    using repeated_more [OF that] by simp
  then show ?case using PMany by (auto dest: repeated_Cons)
qed auto

lemma MatchString_texts: "MatchString r s \<longleftrightarrow> s \<in> texts_of r"
  unfolding MatchString_def
  by (induction s arbitrary: r) (auto simp: empty_matches_texts pattern_after_texts)

fun pat_text :: "string \<Rightarrow> pattern" where
  "pat_text [] = PEmpty"
| "pat_text (c # s) = PThen (POne (\<lambda>d. d = c)) (pat_text s)"

primrec pat_times :: "nat \<Rightarrow> pattern \<Rightarrow> pattern" where
  "pat_times 0 r = PEmpty"
| "pat_times (Suc n) r = PThen r (pat_times n r)"

primrec pat_upto :: "nat \<Rightarrow> pattern \<Rightarrow> pattern" where
  "pat_upto 0 r = PEmpty"
| "pat_upto (Suc n) r = PEither PEmpty (PThen r (pat_upto n r))"

definition pat_some :: "pattern \<Rightarrow> pattern" where "pat_some r = PThen r (PMany r)"
definition pat_maybe :: "pattern \<Rightarrow> pattern" where "pat_maybe r = PEither PEmpty r"

fun pat_seq :: "pattern list \<Rightarrow> pattern" where
  "pat_seq [] = PEmpty"
| "pat_seq (r # rs) = PThen r (pat_seq rs)"

lemma texts_of_POne_then: "texts_of (PThen (POne p) r) = {c # v | c v. p c \<and> v \<in> texts_of r}"
proof -
  have "c # v \<in> texts_of (PThen (POne p) r)" if "p c" "v \<in> texts_of r" for c v
    using that by (simp, intro exI [of _ "[c]"] exI [of _ v]) simp
  then show ?thesis by auto
qed

lemma texts_of_pat_text [simp]: "texts_of (pat_text s) = {s}"
  by (induction s) (auto simp: texts_of_POne_then simp del: texts_of.simps(4))

lemma texts_of_pat_times: "texts_of (pat_times n (POne p)) = {s. length s = n \<and> list_all p s}"
proof (induction n)
  case (Suc n)
  have "s \<in> texts_of (pat_times (Suc n) (POne p)) \<longleftrightarrow> length s = Suc n \<and> list_all p s" for s
    using Suc by (cases s) (auto simp: texts_of_POne_then simp del: texts_of.simps(4))
  then show ?case by blast
qed auto

lemma texts_of_pat_upto: "texts_of (pat_upto n (POne p)) = {s. length s \<le> n \<and> list_all p s}"
proof (induction n)
  case (Suc n)
  have "s \<in> texts_of (pat_upto (Suc n) (POne p)) \<longleftrightarrow> length s \<le> Suc n \<and> list_all p s" for s
    using Suc by (cases s) (auto simp: texts_of_POne_then simp del: texts_of.simps(4))
  then show ?case by blast
qed auto

section \<open>UTF-8\<close>

abbreviation continues :: "char \<Rightarrow> bool" where "continues \<equiv> byte_in 128 191"

text \<open>How many bytes the rune at the start of a text takes; 0 where it is not valid.\<close>

fun rune_bytes :: "string \<Rightarrow> nat" where
  "rune_bytes (a # b # c # d # s) =
     (if byte_in 0 127 a then 1
      else if byte_in 194 223 a \<and> continues b then 2
      else if (byte_in 224 224 a \<and> byte_in 160 191 b \<or> byte_in 237 237 a \<and> byte_in 128 159 b
          \<or> (byte_in 225 236 a \<or> byte_in 238 239 a) \<and> continues b) \<and> continues c then 3
      else if (byte_in 240 240 a \<and> byte_in 144 191 b \<or> byte_in 241 243 a \<and> continues b
          \<or> byte_in 244 244 a \<and> byte_in 128 143 b) \<and> continues c \<and> continues d then 4
      else 0)"
| "rune_bytes [a, b, c] =
     (if byte_in 0 127 a then 1
      else if byte_in 194 223 a \<and> continues b then 2
      else if (byte_in 224 224 a \<and> byte_in 160 191 b \<or> byte_in 237 237 a \<and> byte_in 128 159 b
          \<or> (byte_in 225 236 a \<or> byte_in 238 239 a) \<and> continues b) \<and> continues c then 3
      else 0)"
| "rune_bytes [a, b] =
     (if byte_in 0 127 a then 1 else if byte_in 194 223 a \<and> continues b then 2 else 0)"
| "rune_bytes [a] = (if byte_in 0 127 a then 1 else 0)"
| "rune_bytes [] = 0"

text \<open>The bytes of the replacement character.\<close>

definition replacement :: string where
  "replacement = [char_of (239 :: nat), char_of (191 :: nat), char_of (189 :: nat)]"

text \<open>\<open>bad\<close> says that the byte before was not valid: a run of such bytes is replaced once.\<close>

function to_valid :: "bool \<Rightarrow> string \<Rightarrow> string" where
  "to_valid bad [] = []"
| "to_valid bad (c # s) =
     (if rune_bytes (c # s) = 0 then (if bad then [] else replacement) @ to_valid True s
      else take (rune_bytes (c # s)) (c # s) @ to_valid False (drop (rune_bytes (c # s)) (c # s)))"
  by pat_completeness auto
termination by (relation "measure (\<lambda>(_, s). length s)") auto

definition ToValidUTF8 :: "string \<Rightarrow> string" where
  "ToValidUTF8 s = to_valid False s"

definition RuneStart :: "char \<Rightarrow> bool" where
  "RuneStart c \<longleftrightarrow> \<not> continues c"

function valid_utf8 :: "string \<Rightarrow> bool" where
  "valid_utf8 [] = True"
| "valid_utf8 (c # s) = (if rune_bytes (c # s) = 0 then False else valid_utf8 (drop (rune_bytes (c # s)) (c # s)))"
  by pat_completeness auto
termination by (relation "measure length") auto

end
