(* ===== verification/Network_View.thy ===== *)
theory Network_View
  imports Strings "HOL-Library.AList" "HOL-Library.Multiset"
begin

text \<open>
  What one round of the network module sees of a namespace, \<open>internal/modules/network/view.go\<close>, with
  the sockets it is handed (\<open>internal/platform/sockets\<close>): the listeners and the flows of a namespace,
  who holds them, and which connections belong to which flow. A Go map is an association list with
  each key once. What Go's \<open>unicode\<close> and \<open>strconv.Quote\<close> say of a text is an argument.
\<close>

section \<open>Sorting by a comparison\<close>

text \<open>\<open>cmp.Compare\<close>.\<close>

definition cmp_Compare :: "'a :: linorder \<Rightarrow> 'a \<Rightarrow> int" where
  "cmp_Compare a b = (if a < b then -1 else if b < a then 1 else 0)"

interpretation compared: comparison "cmp_Compare :: 'a :: linorder \<Rightarrow> 'a \<Rightarrow> int"
  by unfold_locales (auto simp: cmp_Compare_def split: if_splits)

lemma cmp_Compare_0 [simp]: "cmp_Compare a b = 0 \<longleftrightarrow> a = b"
  by (auto simp: cmp_Compare_def)

text \<open>\<open>slices.SortFunc\<close>, where no two elements compare as equal.\<close>

fun insort_by :: "('a \<Rightarrow> 'a \<Rightarrow> int) \<Rightarrow> 'a \<Rightarrow> 'a list \<Rightarrow> 'a list" where
  "insort_by cmp x [] = [x]"
| "insort_by cmp x (y # ys) = (if cmp x y \<le> 0 then x # y # ys else y # insort_by cmp x ys)"

definition sort_by :: "('a \<Rightarrow> 'a \<Rightarrow> int) \<Rightarrow> 'a list \<Rightarrow> 'a list" where
  "sort_by cmp xs = foldr (insort_by cmp) xs []"

text \<open>\<open>ordered\<close>: the keys of a map in order.\<close>

definition ordered_keys :: "('k \<Rightarrow> 'k \<Rightarrow> int) \<Rightarrow> ('k \<times> 'v) list \<Rightarrow> 'k list" where
  "ordered_keys by m = sort_by by (List.map fst m)"

lemma mset_insort_by [simp]: "mset (insort_by cmp x xs) = add_mset x (mset xs)"
  by (induction xs) auto

lemma mset_sort_by [simp]: "mset (sort_by cmp xs) = mset xs"
  unfolding sort_by_def by (induction xs) auto

lemma sort_by_simps [simp]:
  "set (sort_by cmp xs) = set xs" "length (sort_by cmp xs) = length xs" "distinct (sort_by cmp xs) = distinct xs"
  using mset_sort_by [of cmp xs] by (metis set_mset_mset, metis size_mset, metis mset_eq_imp_distinct_iff)

context comparison
begin

lemma insort_sorted: "sorted_wrt (\<lambda>x y. cmp x y \<le> 0) xs \<Longrightarrow> sorted_wrt (\<lambda>x y. cmp x y \<le> 0) (insort_by cmp x xs)"
proof (induction xs)
  case (Cons y ys)
  have "set (insort_by cmp x ys) = insert x (set ys)" using mset_insort_by by (metis set_mset_mset set_mset_add_mset_insert)
  then show ?case using Cons flip [of y x] by (auto intro: le_trans [of x y])
qed simp

lemma sort_sorted: "sorted_wrt (\<lambda>x y. cmp x y \<le> 0) (sort_by cmp xs)"
  unfolding sort_by_def by (induction xs) (auto intro: insort_sorted)

end

section \<open>Addresses\<close>

text \<open>\<open>netip.Addr\<close>, and what the module asks of one.\<close>

datatype addr = No_addr | V4 "32 word" | V6 "128 word" (zone: string)

definition BitLen :: "addr \<Rightarrow> nat" where
  "BitLen a = (case a of No_addr \<Rightarrow> 0 | V4 _ \<Rightarrow> 32 | V6 _ _ \<Rightarrow> 128)"

definition addr_bits :: "addr \<Rightarrow> nat" where
  "addr_bits a = (case a of No_addr \<Rightarrow> 0 | V4 x \<Rightarrow> unat x | V6 x _ \<Rightarrow> unat x)"

definition addr_zone :: "addr \<Rightarrow> string" where
  "addr_zone a = (case a of V6 _ z \<Rightarrow> z | _ \<Rightarrow> [])"

definition addr_Compare :: "addr \<Rightarrow> addr \<Rightarrow> int" where
  "addr_Compare = compare_then (compare_on BitLen cmp_Compare)
     (compare_then (compare_on addr_bits cmp_Compare) (compare_on addr_zone str_Compare))"

definition Unmap :: "addr \<Rightarrow> addr" where
  "Unmap a = (case a of V6 x z \<Rightarrow> if drop_bit 32 x = 0xffff then V4 (ucast x) else a | _ \<Rightarrow> a)"

definition IsUnspecified :: "addr \<Rightarrow> bool" where
  "IsUnspecified a \<longleftrightarrow> a = V4 0 \<or> a = V6 0 []"

definition Is4 :: "addr \<Rightarrow> bool" where "Is4 a \<longleftrightarrow> (case a of V4 _ \<Rightarrow> True | _ \<Rightarrow> False)"
definition Is6 :: "addr \<Rightarrow> bool" where "Is6 a \<longleftrightarrow> (case a of V6 _ _ \<Rightarrow> True | _ \<Rightarrow> False)"

interpretation addresses: comparison addr_Compare
  unfolding addr_Compare_def
  by (intro comparison_then comparison_on compared.comparison_axioms str.comparison_axioms)

lemma addr_Compare_0 [simp]: "addr_Compare a b = 0 \<longleftrightarrow> a = b"
  by (cases a; cases b)
    (auto simp: addr_Compare_def compare_then_def compare_on_def BitLen_def addr_bits_def addr_zone_def str_Compare_0 word_unat_eq_iff)

section \<open>Sockets\<close>

datatype Protocol = TCP | UDP

definition protocol_order :: "Protocol \<Rightarrow> nat" where
  "protocol_order p = (case p of TCP \<Rightarrow> 1 | UDP \<Rightarrow> 2)"

definition Protocol_String :: "Protocol \<Rightarrow> string" where
  "Protocol_String p = (case p of TCP \<Rightarrow> ''tcp'' | UDP \<Rightarrow> ''udp'')"

text \<open>The numbers the kernel keeps for the states of a socket.\<close>

abbreviation (input) "Established \<equiv> 1 :: byte"
abbreviation (input) "SynReceived \<equiv> 3 :: byte"
abbreviation (input) "TimeWait \<equiv> 6 :: byte"
abbreviation (input) "Closed_socket \<equiv> 7 :: byte"
abbreviation (input) "Listen \<equiv> 10 :: byte"
abbreviation (input) "NewSynReceived \<equiv> 12 :: byte"

definition state_names :: "string list" where
  "state_names = [[], ''established'', ''syn-sent'', ''syn-recv'', ''fin-wait-1'', ''fin-wait-2'', ''time-wait'',
     ''close'', ''close-wait'', ''last-ack'', ''listen'', ''closing'', ''new-syn-recv'']"

record addr_port =
  ap_Addr :: addr
  ap_Port :: u16

record Socket =
  so_Protocol :: Protocol
  so_Local :: addr_port
  so_Remote :: addr_port
  so_State :: byte
  so_User :: u32
  so_Owned :: bool
  so_Inode :: u64

definition Socket_Listening :: "Socket \<Rightarrow> bool" where
  "Socket_Listening s = (if so_Protocol s = UDP then so_State s = Closed_socket else so_State s = Listen)"

definition Socket_StateName :: "Socket \<Rightarrow> string" where
  "Socket_StateName s =
     (if so_Protocol s = UDP \<and> so_State s = Established then ''connected''
      else if so_Protocol s = UDP \<and> so_State s = Closed_socket then ''unconnected''
      else if unat (so_State s) < length state_names \<and> state_names ! unat (so_State s) \<noteq> [] then state_names ! unat (so_State s)
      else ''state '' @ FormatNat (unat (so_State s)))"

record Process =
  pr_PID :: u32
  pr_Name :: string
  pr_StartedAt :: time

text \<open>A namespace as it was read, and a reading; a failure is whether there was one.\<close>

record Namespace =
  ns_Key :: u64
  ns_ID :: string
  ns_Own :: bool
  ns_Host :: bool
  ns_Through :: Process
  ns_Earliest :: "Process list"
  ns_Processes :: int
  ns_Sockets :: "Socket list"
  ns_Failure :: bool

record Reading =
  re_Boot :: string
  re_Namespaces :: "Namespace list"
  re_Hidden :: bool
  re_Unvisited :: bool
  re_Refused :: int
  re_Skipped :: int
  re_Holders :: "u64 \<Rightarrow> Process list"
  re_Unread :: int

section \<open>What the module keeps\<close>

datatype direction = Outbound | Inbound

definition direction_order :: "direction \<Rightarrow> nat" where
  "direction_order d = (case d of Outbound \<Rightarrow> 1 | Inbound \<Rightarrow> 2)"

datatype association = By_nobody | By_account | By_process

record holder =
  hr_PID :: u32
  hr_Name :: string
  hr_Started :: time

record listening =
  lg_protocol :: Protocol
  lg_address :: addr
  lg_port :: u16

record listener =
  li_accounts :: "u32 list"
  li_sockets :: nat
  li_processes :: "holder list"
  li_association :: association

record conversation =
  cv_direction :: direction
  cv_protocol :: Protocol
  cv_remote :: addr
  cv_port :: u16
  cv_account :: u32
  cv_owned :: bool

record flow =
  fl_first :: time
  fl_last :: time
  fl_connections :: nat
  fl_most :: nat
  fl_missed :: nat
  fl_states :: "string list"
  fl_processes :: "holder list"
  fl_association :: association

record connected =
  cn_protocol :: Protocol
  cn_local :: addr_port
  cn_remote :: addr_port

record space =
  sc_key :: u64
  sc_own :: bool
  sc_id :: string
  sc_host :: bool
  sc_through :: holder
  sc_earliest :: "holder list"
  sc_processes :: int
  sc_pending :: bool
  sc_listeners :: "(listening \<times> listener) list"
  sc_flows :: "(conversation \<times> flow) list"
  sc_connected :: "(connected \<times> conversation) list"

definition maxHolders :: nat where "maxHolders = 16"
definition maxText :: nat where "maxText = 256"

section \<open>Who holds a socket\<close>

text \<open>What Go says of a text: whether it is UTF-8, whether every rune of it is printable, and how it is quoted.\<close>

record texts =
  tx_valid :: "string \<Rightarrow> bool"
  tx_print :: "string \<Rightarrow> bool"
  tx_quote :: "string \<Rightarrow> string"

fun back_to_valid :: "(string \<Rightarrow> bool) \<Rightarrow> nat \<Rightarrow> string \<Rightarrow> string" where
  "back_to_valid valid 0 text = []"
| "back_to_valid valid (Suc n) text = (if valid (take (Suc n) text) then take (Suc n) text else back_to_valid valid n text)"

definition told :: "texts \<Rightarrow> string \<Rightarrow> string" where
  "told tx text =
     (let text = (if text = [] \<or> \<not> tx_valid tx text \<or> \<not> tx_print tx text then tx_quote tx text else text)
      in if length text \<le> maxText then text
         else back_to_valid (tx_valid tx) (maxText - 3) text @ ''...'')"

definition no_holder :: holder where
  "no_holder = \<lparr>hr_PID = 0, hr_Name = [], hr_Started = zero_time\<rparr>"

definition holding_of :: "texts \<Rightarrow> Process \<Rightarrow> holder" where
  "holding_of tx p =
     (if pr_PID p = 0 \<and> pr_StartedAt p = zero_time then no_holder
      else \<lparr>hr_PID = pr_PID p, hr_Name = told tx (pr_Name p), hr_Started = pr_StartedAt p\<rparr>)"

definition same_holder :: "holder \<Rightarrow> holder \<Rightarrow> bool" where
  "same_holder h other \<longleftrightarrow> hr_PID h = hr_PID other \<and> hr_Started h = hr_Started other"

fun join_each :: "holder list \<Rightarrow> holder list \<Rightarrow> holder list" where
  "join_each now [] = now"
| "join_each now (m # was) =
     (if length now \<ge> maxHolders then now
      else join_each (if list_ex (same_holder m) now then now else now @ [m]) was)"

definition by_holder :: "holder \<Rightarrow> holder \<Rightarrow> int" where
  "by_holder = compare_then (compare_on hr_PID cmp_Compare) (compare_on hr_Started cmp_Compare)"

definition joined :: "holder list \<Rightarrow> holder list \<Rightarrow> holder list" where
  "joined was now = sort_by by_holder (join_each now was)"

definition held_by_all :: "texts \<Rightarrow> holder list \<Rightarrow> Process list \<Rightarrow> holder list" where
  "held_by_all tx kept found = foldl (\<lambda>kept member. joined kept [holding_of tx member]) kept found"

text \<open>\<open>added\<close>: where \<open>slices.BinarySearch\<close> finds the place in a slice that is in order.\<close>

definition added_to :: "('a \<Rightarrow> 'a \<Rightarrow> int) \<Rightarrow> 'a list \<Rightarrow> 'a \<Rightarrow> 'a list" where
  "added_to cmp kept one =
     (let at = length (takeWhile (\<lambda>x. cmp x one < 0) kept)
      in if at < length kept \<and> cmp (kept ! at) one = 0 then kept else take at kept @ one # drop at kept)"

section \<open>One namespace\<close>

definition inward :: "Socket \<Rightarrow> addr list \<Rightarrow> bool" where
  "inward socket serving \<longleftrightarrow>
     so_Protocol socket = TCP \<and> (so_State socket = SynReceived \<or> so_State socket = NewSynReceived)
     \<or> list_ex (\<lambda>address. if IsUnspecified address then Is6 address \<or> Is4 (Unmap (ap_Addr (so_Local socket)))
          else Unmap address = Unmap (ap_Addr (so_Local socket))) serving"

definition no_listener :: listener where
  "no_listener = \<lparr>li_accounts = [], li_sockets = 0, li_processes = [], li_association = By_nobody\<rparr>"

definition listening_at :: "Socket \<Rightarrow> listening" where
  "listening_at socket = \<lparr>lg_protocol = so_Protocol socket, lg_address = ap_Addr (so_Local socket), lg_port = ap_Port (so_Local socket)\<rparr>"

text \<open>A value of a map is read, as \<open>d\<close> where there is none, changed and stored.\<close>

definition bump :: "'k \<Rightarrow> 'v \<Rightarrow> ('v \<Rightarrow> 'v) \<Rightarrow> ('k \<times> 'v) list \<Rightarrow> ('k \<times> 'v) list" where
  "bump k d g m = AList.update k (g (case map_of m k of None \<Rightarrow> d | Some v \<Rightarrow> v)) m"

definition saw_listener :: "texts \<Rightarrow> association \<Rightarrow> (u64 \<Rightarrow> Process list) \<Rightarrow> Socket \<Rightarrow> listener \<Rightarrow> listener" where
  "saw_listener tx known holders socket kept =
     (let kept = kept\<lparr>li_sockets := li_sockets kept + 1, li_association := known\<rparr>;
          kept = (if so_Owned socket then kept\<lparr>li_accounts := added_to cmp_Compare (li_accounts kept) (so_User socket)\<rparr> else kept)
      in kept\<lparr>li_processes := held_by_all tx (li_processes kept) (holders (so_Inode socket))\<rparr>)"

definition see_listener ::
  "texts \<Rightarrow> association \<Rightarrow> (u64 \<Rightarrow> Process list) \<Rightarrow> (listening \<times> listener) list \<Rightarrow> Socket \<Rightarrow> (listening \<times> listener) list" where
  "see_listener tx known holders listeners socket =
     (if \<not> Socket_Listening socket then listeners
      else bump (listening_at socket) no_listener (saw_listener tx known holders socket) listeners)"

text \<open>The addresses a local port is served on, in the order of the sockets.\<close>

definition serving :: "Socket list \<Rightarrow> Socket \<Rightarrow> addr list" where
  "serving sockets socket =
     List.map (\<lambda>s. ap_Addr (so_Local s))
       (filter (\<lambda>s. Socket_Listening s \<and> so_Protocol s = so_Protocol socket \<and> ap_Port (so_Local s) = ap_Port (so_Local socket)) sockets)"

definition tuple_of :: "Socket \<Rightarrow> connected" where
  "tuple_of socket = \<lparr>cn_protocol = so_Protocol socket, cn_local = so_Local socket, cn_remote = so_Remote socket\<rparr>"

definition talk_of :: "(connected \<times> conversation) list \<Rightarrow> addr list \<Rightarrow> Socket \<Rightarrow> conversation" where
  "talk_of before served socket =
     (let talk = (case map_of before (tuple_of socket) of
                    Some talk \<Rightarrow> talk
                  | None \<Rightarrow>
                      let talk = \<lparr>cv_direction = Outbound, cv_protocol = so_Protocol socket, cv_remote = Unmap (ap_Addr (so_Remote socket)),
                                  cv_port = ap_Port (so_Remote socket), cv_account = 0, cv_owned = False\<rparr>
                      in if inward socket served then talk\<lparr>cv_direction := Inbound, cv_port := ap_Port (so_Local socket)\<rparr> else talk)
      in if so_Owned socket then talk\<lparr>cv_account := so_User socket, cv_owned := True\<rparr> else talk)"

definition new_flow :: "time \<Rightarrow> flow" where
  "new_flow t = \<lparr>fl_first = t, fl_last = zero_time, fl_connections = 0, fl_most = 0, fl_missed = 0, fl_states = [], fl_processes = [],
     fl_association = By_nobody\<rparr>"

definition saw_flow :: "texts \<Rightarrow> association \<Rightarrow> (u64 \<Rightarrow> Process list) \<Rightarrow> time \<Rightarrow> conversation \<Rightarrow> Socket \<Rightarrow> flow \<Rightarrow> flow" where
  "saw_flow tx known holders t talk socket kept =
     (let kept = kept\<lparr>fl_last := t, fl_connections := fl_connections kept + 1\<rparr>;
          kept = kept\<lparr>fl_most := max (fl_most kept) (fl_connections kept),
                      fl_states := added_to str_Compare (fl_states kept) (Socket_StateName socket),
                      fl_processes := held_by_all tx (fl_processes kept) (holders (so_Inode socket))\<rparr>
      in if cv_owned talk then kept\<lparr>fl_association := known\<rparr> else kept)"

definition see_socket ::
  "texts \<Rightarrow> association \<Rightarrow> (u64 \<Rightarrow> Process list) \<Rightarrow> time \<Rightarrow> (connected \<times> conversation) list \<Rightarrow> Socket list
     \<Rightarrow> (connected \<times> conversation) list \<times> (conversation \<times> flow) list \<Rightarrow> Socket
     \<Rightarrow> (connected \<times> conversation) list \<times> (conversation \<times> flow) list" where
  "see_socket tx known holders t before sockets = (\<lambda>(conns, flows) socket.
     if Socket_Listening socket then (conns, flows)
     else
       let talk = talk_of before (serving sockets socket) socket
       in (AList.update (tuple_of socket) talk conns, bump talk (new_flow t) (saw_flow tx known holders t talk socket) flows))"

definition viewed ::
  "texts \<Rightarrow> Namespace \<Rightarrow> (u64 \<Rightarrow> Process list) \<Rightarrow> bool \<Rightarrow> (connected \<times> conversation) list \<Rightarrow> time \<Rightarrow> space" where
  "viewed tx read holders whole before t =
     (let known = (if whole then By_process else By_account);
          seen = foldl (see_socket tx known holders t before (ns_Sockets read)) ([], []) (ns_Sockets read)
      in \<lparr>sc_key = ns_Key read, sc_own = ns_Own read, sc_id = ns_ID read, sc_host = ns_Host read,
          sc_through = holding_of tx (ns_Through read), sc_earliest = List.map (holding_of tx) (ns_Earliest read),
          sc_processes = ns_Processes read, sc_pending = False,
          sc_listeners = foldl (see_listener tx known holders) [] (ns_Sockets read),
          sc_flows = snd seen, sc_connected = fst seen\<rparr>)"

section \<open>What a view holds\<close>

text \<open>The processes holding a socket: at most sixteen, each once, in order.\<close>

definition who :: "holder \<Rightarrow> u32 \<times> time" where "who h = (hr_PID h, hr_Started h)"

definition wf_holders :: "holder list \<Rightarrow> bool" where
  "wf_holders hs \<longleftrightarrow> length hs \<le> maxHolders \<and> sorted_wrt (\<lambda>a b. by_holder a b < 0) hs"

interpretation by_holders: comparison by_holder
  unfolding by_holder_def by (intro comparison_then comparison_on compared.comparison_axioms)

lemma by_holder_0: "by_holder a b = 0 \<longleftrightarrow> who a = who b" "same_holder a b \<longleftrightarrow> who a = who b"
  by (auto simp: by_holder_def compare_then_def compare_on_def who_def same_holder_def)

lemma sorted_distinct_who:
  "sorted_wrt (\<lambda>a b. by_holder a b < 0) hs \<longleftrightarrow> sorted_wrt (\<lambda>a b. by_holder a b \<le> 0) hs \<and> distinct (List.map who hs)"
proof (induction hs)
  case (Cons h hs)
  have "by_holder h x < 0 \<longleftrightarrow> by_holder h x \<le> 0 \<and> who h \<noteq> who x" for x using by_holder_0(1) [of h x] by linarith
  then show ?case using Cons by auto
qed simp

lemma distinct_map_sort_by [simp]: "distinct (List.map f (sort_by c xs)) = distinct (List.map f xs)"
  by (metis mset_eq_imp_distinct_iff mset_map mset_sort_by)

lemma join_each_ok:
  assumes "length now \<le> maxHolders" "distinct (List.map who now)"
  shows "length (join_each now was) \<le> maxHolders \<and> distinct (List.map who (join_each now was)) \<and> set now \<subseteq> set (join_each now was)
    \<and> set (join_each now was) \<subseteq> set now \<union> set was"
  using assms
proof (induction was arbitrary: now)
  case (Cons m was)
  let ?n = "if list_ex (same_holder m) now then now else now @ [m]"
  show ?case
  proof (cases "maxHolders \<le> length now")
    case False
    have "length ?n \<le> maxHolders" "distinct (List.map who ?n)"
      using Cons.prems False by (auto simp: by_holder_0(2) list_ex_iff)
    then show ?thesis using Cons.IH [of ?n] False by (auto split: if_splits)
  qed (use Cons.prems in auto)
qed simp

lemma joined_wf:
  assumes "length now \<le> maxHolders" "distinct (List.map who now)"
  shows "wf_holders (joined was now)" "set now \<subseteq> set (joined was now)" "set (joined was now) \<subseteq> set now \<union> set was"
  using join_each_ok [OF assms, of was] by_holders.sort_sorted [of "join_each now was"]
  by (auto simp: wf_holders_def joined_def sorted_distinct_who)

lemma wf_holdersD: "wf_holders hs \<Longrightarrow> length hs \<le> maxHolders \<and> distinct (List.map who hs)"
  by (simp add: wf_holders_def sorted_distinct_who)

lemma held_by_all_wf: "wf_holders kept \<Longrightarrow> wf_holders (held_by_all tx kept found)"
  unfolding held_by_all_def by (induction found arbitrary: kept) (auto simp: joined_wf maxHolders_def)

text \<open>Adding to a slice in order keeps it in order, each element once.\<close>

context comparison
begin

lemma added_sorted:
  assumes "sorted_wrt (\<lambda>x y. cmp x y < 0) xs" "\<And>x y. cmp x y = 0 \<longleftrightarrow> x = y"
  shows "sorted_wrt (\<lambda>x y. cmp x y < 0) (added_to cmp xs one) \<and> set (added_to cmp xs one) = insert one (set xs)"
  using assms(1)
proof (induction xs)
  case (Cons x xs)
  show ?case
  proof (cases "cmp x one < 0")
    case True
    then have "added_to cmp (x # xs) one = x # added_to cmp xs one" by (simp add: added_to_def Let_def)
    then show ?thesis using Cons True by auto
  next
    case False
    then have "added_to cmp (x # xs) one = (if cmp x one = 0 then x # xs else one # x # xs)" by (simp add: added_to_def Let_def)
    moreover have "cmp one x < 0" if "cmp x one \<noteq> 0" using False that flip [of x one] by linarith
    ultimately show ?thesis
      using Cons.prems assms(2) less_le_trans [of one x] by (cases "x = one") (auto simp: order.order_iff_strict)
  qed
qed (simp add: added_to_def)

end

lemmas added_accounts = compared.added_sorted [OF _ cmp_Compare_0]
lemmas added_states = str.added_sorted [OF _ str_Compare_0]

section \<open>A view is well formed and counts every socket\<close>

definition linger :: nat where "linger = 3"

definition wf_listener :: "listener \<Rightarrow> bool" where
  "wf_listener l \<longleftrightarrow> 0 < li_sockets l \<and> sorted_wrt (<) (li_accounts l) \<and> wf_holders (li_processes l)"

definition wf_flow :: "flow \<Rightarrow> bool" where
  "wf_flow f \<longleftrightarrow> fl_connections f \<le> fl_most f \<and> fl_missed f < linger \<and> sorted_wrt (\<lambda>x y. str_Compare x y < 0) (fl_states f)
     \<and> wf_holders (fl_processes f)"

definition wf_space :: "space \<Rightarrow> bool" where
  "wf_space s \<longleftrightarrow> distinct (List.map fst (sc_listeners s)) \<and> distinct (List.map fst (sc_flows s))
     \<and> (\<forall>l \<in> snd ` set (sc_listeners s). wf_listener l) \<and> (\<forall>f \<in> snd ` set (sc_flows s). wf_flow f)"

definition sum_over :: "('v \<Rightarrow> nat) \<Rightarrow> ('k \<times> 'v) list \<Rightarrow> nat" where
  "sum_over f m = sum_list (List.map (\<lambda>x. f (snd x)) m)"

lemma sum_over_Nil [simp]: "sum_over f [] = 0"
  by (simp add: sum_over_def)

lemma update_values: "snd ` set (AList.update k w m) \<subseteq> insert w (snd ` set m)"
  by (induction m) auto

lemma sum_update:
  fixes f :: "'v \<Rightarrow> nat"
  assumes "distinct (List.map fst m)"
  shows "sum_over f (AList.update k v m) + (case map_of m k of Some w \<Rightarrow> f w | None \<Rightarrow> 0)
    = sum_over f m + f v"
  using assms
proof (induction m)
  case (Cons x m)
  then show ?case by (cases x) (auto split: option.splits simp: map_of_eq_None_iff sum_over_def)
qed (simp add: sum_over_def)

lemma ball_subset: "A \<subseteq> B \<Longrightarrow> \<forall>v \<in> B. P v \<Longrightarrow> \<forall>v \<in> A. P v"
  by blast

lemma bump_ok:
  assumes "distinct (List.map fst m)" "\<forall>v \<in> snd ` set m. P v"
    and g: "\<And>v. P v \<or> v = d \<Longrightarrow> P (g v)" "\<And>v. f (g v) = f v + (1 :: nat)" "f d = 0"
  shows "distinct (List.map fst (bump k d g m))" "\<forall>v \<in> snd ` set (bump k d g m). P v"
    "sum_over f (bump k d g m) = sum_over f m + 1"
proof -
  let ?w = "case map_of m k of None \<Rightarrow> d | Some v \<Rightarrow> v"
  have w: "P ?w \<or> ?w = d" using assms(2) by (cases "map_of m k") (force dest: map_of_SomeD)+
  show "distinct (List.map fst (bump k d g m))" using assms(1) by (simp add: bump_def distinct_update)
  have "P (g ?w)" using g(1) w by simp
  then have "\<forall>v \<in> insert (g ?w) (snd ` set m). P v" using assms(2) by simp
  then show "\<forall>v \<in> snd ` set (bump k d g m). P v" unfolding bump_def by (rule ball_subset [OF update_values])
  show "sum_over f (bump k d g m) = sum_over f m + 1"
    using sum_update [OF assms(1), of f k "g ?w"] g(2,3) by (cases "map_of m k") (simp_all add: bump_def)
qed

lemma wf_listener_seen:
  assumes "wf_listener l \<or> l = no_listener"
  shows "wf_listener (saw_listener tx known holders s l)"
proof -
  have less: "(cmp_Compare x y < 0) = (x < y)" for x y :: u32 by (auto simp: cmp_Compare_def)
  have "sorted_wrt (<) (li_accounts l)" "wf_holders (li_processes l)"
    using assms by (auto simp: wf_listener_def no_listener_def wf_holders_def)
  then show ?thesis
    using added_accounts [of "li_accounts l" "so_User s"] held_by_all_wf by (simp add: wf_listener_def less saw_listener_def Let_def)
qed

lemma see_listeners_wf:
  assumes "distinct (List.map fst ls)" "\<forall>l \<in> snd ` set ls. wf_listener l"
  shows "distinct (List.map fst (foldl (see_listener tx known holders) ls ss))
     \<and> (\<forall>l \<in> snd ` set (foldl (see_listener tx known holders) ls ss). wf_listener l)
     \<and> sum_over li_sockets (foldl (see_listener tx known holders) ls ss)
         = sum_over li_sockets ls + length (filter Socket_Listening ss)"
  using assms
proof (induction ss arbitrary: ls)
  case (Cons s ss)
  have counts: "li_sockets (saw_listener tx known holders s l) = li_sockets l + 1" "li_sockets no_listener = 0" for l
    by (simp_all add: saw_listener_def Let_def no_listener_def)
  note b = bump_ok [OF Cons.prems wf_listener_seen counts]
  have e: "see_listener tx known holders ls s
      = (if Socket_Listening s then bump (listening_at s) no_listener (saw_listener tx known holders s) ls else ls)"
    by (simp add: see_listener_def)
  show ?case using Cons.IH [OF b(1,2)] Cons.IH [OF Cons.prems] b(3) by (cases "Socket_Listening s") (simp_all add: e)
qed simp

lemma wf_flow_seen:
  assumes "wf_flow f \<or> f = new_flow t"
  shows "wf_flow (saw_flow tx known holders t talk s f)"
proof -
  have "sorted_wrt (\<lambda>x y. str_Compare x y < 0) (fl_states f)" "wf_holders (fl_processes f)" "fl_missed f < linger"
    using assms by (auto simp: wf_flow_def new_flow_def wf_holders_def linger_def)
  then show ?thesis
    using added_states [of "fl_states f" "Socket_StateName s"] held_by_all_wf by (simp add: wf_flow_def saw_flow_def Let_def)
qed

text \<open>A flow a view holds was seen in this round, first and last.\<close>

definition fresh_flow :: "time \<Rightarrow> flow \<Rightarrow> bool" where
  "fresh_flow t f \<longleftrightarrow> wf_flow f \<and> fl_first f = t \<and> fl_last f = t \<and> fl_missed f = 0 \<and> 0 < fl_connections f \<and> fl_most f = fl_connections f"

lemma fresh_flow_seen:
  assumes "fresh_flow t f \<or> f = new_flow t"
  shows "fresh_flow t (saw_flow tx known holders t talk s f)"
  using assms wf_flow_seen [of f t tx known holders talk s]
  by (auto simp: fresh_flow_def saw_flow_def Let_def new_flow_def)

lemma see_sockets_wf:
  assumes "distinct (List.map fst fs)" "\<forall>f \<in> snd ` set fs. fresh_flow t f"
  shows "distinct (List.map fst (snd (foldl (see_socket tx known holders t before all) (cs, fs) ss)))
     \<and> (\<forall>f \<in> snd ` set (snd (foldl (see_socket tx known holders t before all) (cs, fs) ss)). fresh_flow t f)
     \<and> sum_over fl_connections (snd (foldl (see_socket tx known holders t before all) (cs, fs) ss))
         = sum_over fl_connections fs + length (filter (\<lambda>s. \<not> Socket_Listening s) ss)"
  using assms
proof (induction ss arbitrary: cs fs)
  case (Cons s ss)
  let ?talk = "talk_of before (serving all s) s"
  have counts: "fl_connections (saw_flow tx known holders t ?talk s f) = fl_connections f + 1" "fl_connections (new_flow t) = 0" for f
    by (simp_all add: saw_flow_def Let_def new_flow_def)
  note b = bump_ok [OF Cons.prems fresh_flow_seen counts]
  have e: "see_socket tx known holders t before all (cs, fs) s
      = (if Socket_Listening s then (cs, fs)
         else (AList.update (tuple_of s) ?talk cs, bump ?talk (new_flow t) (saw_flow tx known holders t ?talk s) fs))"
    by (simp add: see_socket_def Let_def)
  show ?case using Cons.IH [OF b(1,2)] Cons.IH [OF Cons.prems] b(3) by (cases "Socket_Listening s") (simp_all add: e)
qed simp

lemma viewed_wf:
  "wf_space (viewed tx read holders whole before t) \<and> \<not> sc_pending (viewed tx read holders whole before t)
   \<and> (\<forall>f \<in> snd ` set (sc_flows (viewed tx read holders whole before t)). fresh_flow t f)"
  "sum_over li_sockets (sc_listeners (viewed tx read holders whole before t))
     = length (filter Socket_Listening (ns_Sockets read))"
  "sum_over fl_connections (sc_flows (viewed tx read holders whole before t))
     = length (filter (\<lambda>s. \<not> Socket_Listening s) (ns_Sockets read))"
  using see_listeners_wf [of "[]" tx "if whole then By_process else By_account" holders "ns_Sockets read"]
    see_sockets_wf [of "[]" t tx "if whole then By_process else By_account" holders before "ns_Sockets read" "[]" "ns_Sockets read"]
  by (auto simp: viewed_def Let_def wf_space_def fresh_flow_def)

end
