(* ===== verification/Protocol_Batch.thy ===== *)
theory Protocol_Batch
  imports Prelude
begin

text \<open>
  The batches the agent sends, \<open>internal/protocol/batch.go\<close>. The wire format is that of the
  \<open>protowire\<close> package, a parameter: \<open>Tag\<close>, \<open>Varint\<close> and \<open>Bytes\<close> are what \<open>AppendTag\<close>,
  \<open>AppendVarint\<close> and \<open>AppendBytes\<close> append, and a \<open>Consume\<close> function that fails returns nothing.
  The numbers of fields are those of the contracts. A loop over fields is a partial function, since
  only what \<open>protowire\<close> promises makes it end.
\<close>

datatype Route = To_events | To_inventory | To_status | To_assessments

record wire =
  Tag :: "nat \<Rightarrow> nat \<Rightarrow> byte list"
  Varint :: "nat \<Rightarrow> byte list"
  Bytes :: "byte list \<Rightarrow> byte list"
  ConsumeTag :: "byte list \<Rightarrow> (nat \<times> nat \<times> nat) option"
  ConsumeBytes :: "byte list \<Rightarrow> (byte list \<times> nat) option"
  ConsumeFieldValue :: "nat \<Rightarrow> nat \<Rightarrow> byte list \<Rightarrow> nat option"
  SizeTag :: "nat \<Rightarrow> nat"
  SizeBytes :: "nat \<Rightarrow> nat"
  SizeVarint :: "nat \<Rightarrow> nat"
  ValidString :: "byte list \<Rightarrow> bool"
  number :: "Route \<Rightarrow> string \<Rightarrow> nat"

definition VarintType :: nat where "VarintType = 0"
definition BytesType :: nat where "BytesType = 2"
definition Version_number :: nat where "Version_number = 1"

definition MaxEventAge :: duration where "MaxEventAge = 168 * Hour"
definition MaxInventoryAge :: duration where "MaxInventoryAge = 720 * Hour"
definition MaxAssessmentAge :: duration where "MaxAssessmentAge = 720 * Hour"
definition MaxClockSkew :: duration where "MaxClockSkew = 5 * Minute"
definition MaxInventoryItemsPerBatch :: int where "MaxInventoryItemsPerBatch = 20000"

record shape =
  sh_path :: string
  sh_batchID :: nat
  sh_version :: nat
  sh_records :: nat
  sh_recordID :: nat
  sh_items :: nat
  sh_refusing :: string
  sh_maxAge :: duration

definition shapes :: "wire \<Rightarrow> Route \<Rightarrow> shape" where
  "shapes wr r =
     (case r of
        To_events \<Rightarrow>
          \<lparr>sh_path = ''/v1/events'', sh_batchID = number wr r ''batch_id'', sh_version = number wr r ''protocol_version'',
           sh_records = number wr r ''events'', sh_recordID = number wr r ''event_id'', sh_items = 0,
           sh_refusing = ''invalid_event'', sh_maxAge = MaxEventAge\<rparr>
      | To_inventory \<Rightarrow>
          \<lparr>sh_path = ''/v1/inventory'', sh_batchID = number wr r ''batch_id'', sh_version = number wr r ''protocol_version'',
           sh_records = number wr r ''records'', sh_recordID = number wr r ''record_id'', sh_items = number wr r ''items'',
           sh_refusing = ''invalid_record'', sh_maxAge = MaxInventoryAge\<rparr>
      | To_status \<Rightarrow>
          \<lparr>sh_path = ''/v1/status'', sh_batchID = number wr r ''batch_id'', sh_version = number wr r ''protocol_version'',
           sh_records = number wr r ''reports'', sh_recordID = 0, sh_items = 0,
           sh_refusing = ''invalid_report'', sh_maxAge = MaxEventAge\<rparr>
      | To_assessments \<Rightarrow>
          \<lparr>sh_path = ''/v1/assessments'', sh_batchID = number wr r ''batch_id'', sh_version = number wr r ''protocol_version'',
           sh_records = number wr r ''assessments'', sh_recordID = number wr r ''assessment_id'', sh_items = 0,
           sh_refusing = ''invalid_assessment'', sh_maxAge = MaxAssessmentAge\<rparr>)"

definition Batch :: "wire \<Rightarrow> Route \<Rightarrow> byte list \<Rightarrow> byte list list \<Rightarrow> byte list" where
  "Batch wr r ident records =
     (let shape = shapes wr r;
          body = Tag wr (sh_batchID shape) BytesType @ Bytes wr ident
            @ Tag wr (sh_version shape) VarintType @ Varint wr Version_number
      in foldl (\<lambda>body record. body @ Tag wr (sh_records shape) BytesType @ Bytes wr record) body records)"

partial_function (option) Records_from ::
  "wire \<Rightarrow> shape \<Rightarrow> byte list list \<Rightarrow> byte list \<Rightarrow> byte list list option" where
  "Records_from wr shape records rest =
     (if rest = [] then Some records
      else case ConsumeTag wr rest of
             None \<Rightarrow> Some records
           | Some (field, kind, read) \<Rightarrow>
               if field = sh_records shape \<and> kind = BytesType
               then (case ConsumeBytes wr (drop read rest) of
                       None \<Rightarrow> Some records
                     | Some (record, len) \<Rightarrow> Records_from wr shape (records @ [record]) (drop len (drop read rest)))
               else (case ConsumeFieldValue wr field kind (drop read rest) of
                       None \<Rightarrow> Some records
                     | Some len \<Rightarrow> Records_from wr shape records (drop len (drop read rest))))"

definition Records :: "wire \<Rightarrow> Route \<Rightarrow> byte list \<Rightarrow> byte list list option" where
  "Records wr r batch = Records_from wr (shapes wr r) [] batch"

definition Envelope_size :: "wire \<Rightarrow> Route \<Rightarrow> byte list \<Rightarrow> int" where
  "Envelope_size wr r ident =
     int (SizeTag wr (sh_batchID (shapes wr r)) + SizeBytes wr (length ident) + SizeTag wr (sh_version (shapes wr r))
       + SizeVarint wr Version_number)"

definition Framed :: "wire \<Rightarrow> Route \<Rightarrow> nat \<Rightarrow> int" where
  "Framed wr r record = int (SizeTag wr (sh_records (shapes wr r)) + SizeBytes wr record)"

record Identity =
  ident_ID :: "byte list"
  ident_Items :: int

partial_function (option) Identify_from ::
  "wire \<Rightarrow> shape \<Rightarrow> Identity \<Rightarrow> bool \<Rightarrow> byte list \<Rightarrow> (Identity \<times> bool) option option" where
  "Identify_from wr shape found named rest =
     (if rest = [] then Some (Some (found, named))
      else case ConsumeTag wr rest of
             None \<Rightarrow> Some None
           | Some (field, kind, read) \<Rightarrow>
               if field = sh_recordID shape \<and> kind = BytesType
               then (case ConsumeBytes wr (drop read rest) of
                       None \<Rightarrow> Some None
                     | Some (value, len) \<Rightarrow>
                         Identify_from wr shape (found\<lparr>ident_ID := value\<rparr>) True (drop len (drop read rest)))
               else
                 let found = (if field = sh_items shape \<and> kind = BytesType
                              then found\<lparr>ident_Items := ident_Items found + 1\<rparr> else found)
                 in case ConsumeFieldValue wr field kind (drop read rest) of
                      None \<Rightarrow> Some None
                    | Some len \<Rightarrow> Identify_from wr shape found named (drop len (drop read rest)))"

text \<open>What a record is identified as, or \<open>ErrMalformed\<close>, which is \<open>Some None\<close>.\<close>

definition Identify :: "wire \<Rightarrow> Route \<Rightarrow> byte list \<Rightarrow> Identity option option" where
  "Identify wr r record =
     (case Identify_from wr (shapes wr r) \<lparr>ident_ID = [], ident_Items = 0\<rparr> False record of
        None \<Rightarrow> None
      | Some None \<Rightarrow> Some None
      | Some (Some (found, named)) \<Rightarrow>
          if \<not> named \<or> ident_ID found = [] \<or> \<not> ValidString wr (ident_ID found) then Some None else Some (Some found))"

section \<open>What the wire format promises\<close>

text \<open>
  The documented behaviour of \<open>protowire\<close> the sources rely on: what is appended is read back, its
  length is what the size functions say, and the fields of a batch have numbers of their own.
\<close>

definition wire_ok :: "wire \<Rightarrow> bool" where
  "wire_ok wr \<longleftrightarrow>
     (\<forall>n k rest. 0 < n \<and> n < 2 ^ 29 \<and> (k = VarintType \<or> k = BytesType) \<longrightarrow> ConsumeTag wr (Tag wr n k @ rest) = Some (n, k, length (Tag wr n k))
        \<and> length (Tag wr n k) = SizeTag wr n \<and> 0 < length (Tag wr n k))
     \<and> (\<forall>v rest. ConsumeBytes wr (Bytes wr v @ rest) = Some (v, length (Bytes wr v))
        \<and> length (Bytes wr v) = SizeBytes wr (length v))
     \<and> (\<forall>n v rest. ConsumeFieldValue wr n BytesType (Bytes wr v @ rest) = Some (length (Bytes wr v)))
     \<and> (\<forall>n v rest. ConsumeFieldValue wr n VarintType (Varint wr v @ rest) = Some (length (Varint wr v))
        \<and> length (Varint wr v) = SizeVarint wr v)"

definition numbers_ok :: "wire \<Rightarrow> Route \<Rightarrow> bool" where
  "numbers_ok wr r \<longleftrightarrow>
     (let s = shapes wr r
      in list_all (\<lambda>n. 0 < n \<and> n < 2 ^ 29) [sh_batchID s, sh_version s, sh_records s]
         \<and> sh_batchID s \<noteq> sh_records s \<and> sh_version s \<noteq> sh_records s)"

lemma wire_tag:
  assumes "wire_ok wr" "0 < n" "n < 2 ^ 29" "k = VarintType \<or> k = BytesType"
  shows "ConsumeTag wr (Tag wr n k @ rest) = Some (n, k, length (Tag wr n k))" "length (Tag wr n k) = SizeTag wr n"
    "Tag wr n k \<noteq> []"
  using assms by (auto simp: wire_ok_def)

lemma wire_values:
  assumes "wire_ok wr"
  shows "ConsumeBytes wr (Bytes wr v @ rest) = Some (v, length (Bytes wr v))" "length (Bytes wr v) = SizeBytes wr (length v)"
    "ConsumeFieldValue wr n BytesType (Bytes wr v @ rest) = Some (length (Bytes wr v))"
    "ConsumeFieldValue wr n VarintType (Varint wr m @ rest) = Some (length (Varint wr m))" "length (Varint wr m) = SizeVarint wr m"
  using assms by (auto simp: wire_ok_def)

section \<open>A batch is read back\<close>

definition frames :: "wire \<Rightarrow> shape \<Rightarrow> byte list list \<Rightarrow> byte list" where
  "frames wr s records = concat (map (\<lambda>record. Tag wr (sh_records s) BytesType @ Bytes wr record) records)"

lemma Batch_frames:
  "Batch wr r ident records =
     Tag wr (sh_batchID (shapes wr r)) BytesType @ Bytes wr ident
     @ Tag wr (sh_version (shapes wr r)) VarintType @ Varint wr Version_number @ frames wr (shapes wr r) records"
proof -
  have "foldl (\<lambda>body record. body @ t @ Bytes wr record) body records
      = body @ concat (map (\<lambda>record. t @ Bytes wr record) records)" for t body
    by (induction records arbitrary: body) simp_all
  then show ?thesis by (simp add: Batch_def Let_def frames_def)
qed

lemma Records_field:
  assumes "ConsumeTag wr (t @ v @ rest) = Some (n, k, length t)" "t \<noteq> []" "n \<noteq> sh_records s \<or> k \<noteq> BytesType"
    "ConsumeFieldValue wr n k (v @ rest) = Some (length v)"
  shows "Records_from wr s records (t @ v @ rest) = Records_from wr s records rest"
  using assms by (simp add: Records_from.simps [of wr s records "t @ v @ rest"]) blast

lemma Records_record:
  assumes "ConsumeTag wr (t @ v @ rest) = Some (sh_records s, BytesType, length t)" "t \<noteq> []"
    "ConsumeBytes wr (v @ rest) = Some (x, length v)"
  shows "Records_from wr s records (t @ v @ rest) = Records_from wr s (records @ [x]) rest"
  using assms by (simp add: Records_from.simps [of wr s records "t @ v @ rest"])

lemma Records_frames:
  assumes "wire_ok wr" "0 < sh_records s" "sh_records s < 2 ^ 29"
  shows "Records_from wr s passed (frames wr s xs) = Some (passed @ xs)"
proof (induction xs arbitrary: passed)
  case Nil
  then show ?case by (simp add: frames_def Records_from.simps [of wr s passed "[]"])
next
  case (Cons x xs)
  have "frames wr s (x # xs) = Tag wr (sh_records s) BytesType @ Bytes wr x @ frames wr s xs" by (simp add: frames_def)
  then have "Records_from wr s passed (frames wr s (x # xs)) = Records_from wr s (passed @ [x]) (frames wr s xs)"
    using Records_record [OF wire_tag(1,3) [OF assms disjI2 [OF refl]] wire_values(1) [OF assms(1)]] by simp
  then show ?case using Cons [of "passed @ [x]"] by simp
qed

lemma Records_Batch:
  assumes "wire_ok wr" "numbers_ok wr r"
  shows "Records wr r (Batch wr r ident records) = Some records"
proof -
  let ?s = "shapes wr r"
  have n: "0 < sh_batchID ?s" "sh_batchID ?s < 2 ^ 29" "0 < sh_version ?s" "sh_version ?s < 2 ^ 29"
    "0 < sh_records ?s" "sh_records ?s < 2 ^ 29" "sh_batchID ?s \<noteq> sh_records ?s" "sh_version ?s \<noteq> sh_records ?s"
    using assms(2) by (simp_all add: numbers_ok_def Let_def)
  have "Records_from wr ?s [] (Batch wr r ident records)
      = Records_from wr ?s [] (Tag wr (sh_version ?s) VarintType @ Varint wr Version_number @ frames wr ?s records)"
    unfolding Batch_frames
    by (rule Records_field [OF wire_tag(1,3) [OF assms(1) n(1,2) disjI2 [OF refl]] _ wire_values(3) [OF assms(1)]]) (simp add: n(7))
  also have "\<dots> = Records_from wr ?s [] (frames wr ?s records)"
    by (rule Records_field [OF wire_tag(1,3) [OF assms(1) n(3,4) disjI1 [OF refl]] _ wire_values(4) [OF assms(1)]]) (simp add: n(8))
  finally show ?thesis using Records_frames [OF assms(1) n(5,6), of "[]"] by (simp add: Records_def)
qed

lemma length_Batch:
  assumes "wire_ok wr" "numbers_ok wr r"
  shows "int (length (Batch wr r ident records))
     = Envelope_size wr r ident + sum_list (map (\<lambda>record. Framed wr r (length record)) records)"
proof -
  let ?s = "shapes wr r"
  have n: "0 < sh_batchID ?s" "sh_batchID ?s < 2 ^ 29" "0 < sh_version ?s" "sh_version ?s < 2 ^ 29"
    "0 < sh_records ?s" "sh_records ?s < 2 ^ 29"
    using assms(2) by (simp_all add: numbers_ok_def Let_def)
  have "int (length (frames wr ?s records)) = sum_list (map (\<lambda>record. Framed wr r (length record)) records)"
    by (induction records)
      (simp_all add: frames_def Framed_def wire_tag(2) [OF assms(1) n(5,6)] wire_values(2) [OF assms(1)])
  then show ?thesis
    by (simp add: Batch_frames Envelope_size_def wire_tag(2) [OF assms(1) n(1,2)] wire_tag(2) [OF assms(1) n(3,4)]
        wire_values [OF assms(1)])
qed

section \<open>Reading ends\<close>

text \<open>
  Whatever the bytes are, a tag that \<open>protowire\<close> consumed took at least one of them, so both loops over
  fields end.
\<close>

definition tags_advance :: "wire \<Rightarrow> bool" where
  "tags_advance wr \<longleftrightarrow> (\<forall>bs n k m. ConsumeTag wr bs = Some (n, k, m) \<longrightarrow> 0 < m)"

lemma tag_drops:
  assumes "tags_advance wr" "rest \<noteq> []" "ConsumeTag wr rest = Some (n, k, m)"
  shows "length (drop len (drop m rest)) < length rest"
proof -
  have "0 < m" using assms(1,3) by (auto simp: tags_advance_def)
  then show ?thesis using assms(2) by (cases rest) auto
qed

lemma Records_from_ends:
  assumes "tags_advance wr"
  shows "\<exists>xs. Records_from wr s records rest = Some xs"
proof (induction "length rest" arbitrary: records rest rule: less_induct)
  case less
  show ?case
  proof (cases "rest = [] \<or> ConsumeTag wr rest = None")
    case True
    then show ?thesis by (auto simp: Records_from.simps [of wr s records rest])
  next
    case False
    then obtain n k m where t: "rest \<noteq> []" "ConsumeTag wr rest = Some (n, k, m)" by (cases "ConsumeTag wr rest") auto
    have "\<exists>xs. Records_from wr s records' (drop len (drop m rest)) = Some xs" for records' len
      using less [OF tag_drops [OF assms t]] .
    then show ?thesis using t by (auto simp: Records_from.simps [of wr s records rest] simp del: drop_drop split: option.splits)
  qed
qed

lemma Identify_from_ends:
  assumes "tags_advance wr"
  shows "\<exists>x. Identify_from wr s found named rest = Some x"
proof (induction "length rest" arbitrary: found named rest rule: less_induct)
  case less
  show ?case
  proof (cases "rest = [] \<or> ConsumeTag wr rest = None")
    case True
    then show ?thesis by (auto simp: Identify_from.simps [of wr s found named rest])
  next
    case False
    then obtain n k m where t: "rest \<noteq> []" "ConsumeTag wr rest = Some (n, k, m)" by (cases "ConsumeTag wr rest") auto
    have "\<exists>x. Identify_from wr s found' named' (drop len (drop m rest)) = Some x" for found' named' len
      using less [OF tag_drops [OF assms t]] .
    then show ?thesis
      using t by (auto simp: Identify_from.simps [of wr s found named rest] Let_def simp del: drop_drop split: option.splits)
  qed
qed

lemma reading_ends:
  assumes "tags_advance wr"
  shows "\<exists>xs. Records wr r body = Some xs" "\<exists>x. Identify wr r body = Some x"
  using Records_from_ends [OF assms] Identify_from_ends [OF assms, of "shapes wr r" "\<lparr>ident_ID = [], ident_Items = 0\<rparr>" False body]
  by (auto simp: Records_def Identify_def split: option.splits)

end
