(* ===== verification/Protocol_Answer.thy ===== *)
theory Protocol_Answer
  imports Protocol_Batch Strings
begin

text \<open>
  What an answer of the platform lets the agent do with a batch, \<open>internal/protocol/answer.go\<close>, with
  the exclusions of \<open>exclusion.go\<close> and the incompatibilities of \<open>protocol.go\<close>. Reading a media type
  and decoding a message are parameters. A decoded record is the tree of its fields, a field that
  is not set with its zero value; what a reason reads like is left out.
\<close>

datatype Outcome =
  No_outcome | Durable | Unconfirmed | Busy | RecordRefused | BatchTooLarge | BatchUndecodable | AgentRefused
| Incompatible | Disputed | Unexpected

definition Outcome_String :: "Outcome \<Rightarrow> string" where
  "Outcome_String out =
     (case out of Durable \<Rightarrow> ''durable'' | Unconfirmed \<Rightarrow> ''unconfirmed'' | Busy \<Rightarrow> ''busy''
      | RecordRefused \<Rightarrow> ''record_refused'' | BatchTooLarge \<Rightarrow> ''batch_too_large''
      | BatchUndecodable \<Rightarrow> ''batch_undecodable'' | AgentRefused \<Rightarrow> ''agent_refused''
      | Incompatible \<Rightarrow> ''incompatible'' | Disputed \<Rightarrow> ''disputed'' | Unexpected \<Rightarrow> ''unexpected''
      | No_outcome \<Rightarrow> ''outcome(0)'')"

datatype Exclusion_Reason = Unidentified | Unregistered | Unadmitted

record BatchAck =
  ak_accepted :: bool
  ak_durable :: bool
  ak_received :: int

record Rejection =
  rj_code :: string
  rj_field :: string
  rj_index :: int

datatype pvalue =
  Message_v bool "(string \<times> pvalue) list"
| Timestamp_v "time option option"
| Enum_v int "string option"
| Uint32_v nat
| List_v "pvalue list"
| Map_v
| Other_v

record decoders =
  ParseMediaType :: "string \<Rightarrow> string option"
  DecodeAck :: "byte list \<Rightarrow> BatchAck option"
  DecodeRejection :: "byte list \<Rightarrow> Rejection option"
  DecodeRecord :: "Route \<Rightarrow> byte list \<Rightarrow> pvalue option"

record Answer =
  an_Status :: int
  an_ContentType :: string
  an_Body :: "byte list"
  an_Date :: time

record Sent =
  sn_Record :: "byte list"
  sn_Admitted :: time

text \<open>Why a verdict is what it is; a refusal carries its status.\<close>

datatype why = No_reason | Refusal int | Exclusion Exclusion_Reason | Incompatibility | Dispute | Not_confirmed | No_acknowledgement

record Verdict =
  vd_Outcome :: Outcome
  vd_Record :: int
  vd_Reason :: why

abbreviation verdict :: "Outcome \<Rightarrow> int \<Rightarrow> why \<Rightarrow> Verdict" where
  "verdict outcome index reason \<equiv> \<lparr>vd_Outcome = outcome, vd_Record = index, vd_Reason = reason\<rparr>"

definition busy :: "string list" where "busy = [''rate_limited'', ''gateway_at_capacity'']"
definition unavailable :: "string list" where "unavailable = [''backbone_unavailable'', ''unreadable_body'']"
definition oversized :: "string list" where "oversized = [''batch_body_too_large'', ''batch_too_large'']"
definition undecodable :: string where "undecodable = ''malformed_payload''"
definition unsupportedProtocol :: string where "unsupportedProtocol = ''unsupported_protocol_version''"
definition schemaVersion :: string where "schemaVersion = ''schema_version''"
definition maxFieldPath :: nat where "maxFieldPath = 256"

definition excluding :: "string \<Rightarrow> Exclusion_Reason option" where
  "excluding code =
     (if code = ''unauthenticated_agent'' then Some Unidentified
      else if code = ''agent_not_registered'' then Some Unregistered
      else if code = ''agent_not_admitted'' then Some Unadmitted else None)"

definition is_protobuf :: "decoders \<Rightarrow> string \<Rightarrow> bool" where
  "is_protobuf rd contentType =
     (case ParseMediaType rd contentType of
        None \<Rightarrow> False | Some media \<Rightarrow> media = ''application/x-protobuf'' \<or> media = ''application/protobuf'')"

definition holding :: "int \<Rightarrow> bool" where "holding status \<longleftrightarrow> status = 429 \<or> status = 503"
definition passing :: "int \<Rightarrow> bool" where "passing status \<longleftrightarrow> status = 408 \<or> status \<ge> 500"

section \<open>Fields a refusal names\<close>

definition fields_of :: "pvalue \<Rightarrow> (string \<times> pvalue) list" where
  "fields_of v = (case v of Message_v _ fs \<Rightarrow> fs | _ \<Rightarrow> [])"

definition is_valid_message :: "pvalue \<Rightarrow> bool" where
  "is_valid_message v = (case v of Message_v valid _ \<Rightarrow> valid | Timestamp_v (Some _) \<Rightarrow> True | _ \<Rightarrow> False)"

text \<open>\<open>strconv.Atoi\<close> of a position; a negative number, which no list has, is none either.\<close>

definition Atoi :: "string \<Rightarrow> nat option" where
  "Atoi s =
     (let signed_s = (s \<noteq> [] \<and> hd s \<in> {CHR ''+'', CHR ''-''}); digits = (if signed_s then tl s else s);
          n = digits_value digits
      in if digits = [] \<or> \<not> list_all is_digit digits \<or> n \<ge> 2 ^ 63 \<or> (signed_s \<and> hd s = CHR ''-'' \<and> n \<noteq> 0)
         then None else Some n)"

definition element :: "pvalue \<Rightarrow> string \<Rightarrow> pvalue option" where
  "element message segment =
     (case Cut CHR ''['' segment of
        (name, position, listed) \<Rightarrow>
          (case map_of (fields_of message) name of
             None \<Rightarrow> None
           | Some Map_v \<Rightarrow> None
           | Some (List_v vs) \<Rightarrow>
               if \<not> listed \<or> position = [] \<or> last position \<noteq> CHR '']'' then None
               else (case Atoi (butlast position) of
                       None \<Rightarrow> None
                     | Some i \<Rightarrow> if i < length vs then Some (vs ! i) else None)
           | Some v \<Rightarrow> if listed then None else Some v))"

definition declared :: "pvalue \<Rightarrow> bool" where
  "declared v = (case v of Enum_v n name \<Rightarrow> n \<noteq> 0 \<and> name \<noteq> None | _ \<Rightarrow> False)"

fun refused_at :: "pvalue \<Rightarrow> string list \<Rightarrow> bool" where
  "refused_at message [] = False"
| "refused_at message [segment] = (case element message segment of None \<Rightarrow> False | Some v \<Rightarrow> declared v)"
| "refused_at message (segment # path) =
     (case element message segment of None \<Rightarrow> False | Some v \<Rightarrow> is_valid_message v \<and> refused_at v path)"

text \<open>\<open>unspoken\<close>: whether the field is one the agent meant to send and the contracts declare.\<close>

definition unspoken :: "pvalue \<Rightarrow> string \<Rightarrow> bool" where
  "unspoken record_v path =
     (if \<not> is_valid_message record_v \<or> length path > maxFieldPath then False
      else if path = schemaVersion
      then (case map_of (fields_of record_v) schemaVersion of Some (Uint32_v v) \<Rightarrow> v \<noteq> 0 | _ \<Rightarrow> False)
      else refused_at record_v (Split CHR ''.'' path))"

fun instant_at :: "pvalue \<Rightarrow> string list \<Rightarrow> time option" where
  "instant_at message [] = None"
| "instant_at message [segment] =
     (case element message segment of Some (Timestamp_v (Some held)) \<Rightarrow> held | _ \<Rightarrow> None)"
| "instant_at message (segment # path) =
     (case element message segment of None \<Rightarrow> None | Some v \<Rightarrow> if is_valid_message v then instant_at v path else None)"

definition instant :: "pvalue \<Rightarrow> string \<Rightarrow> time option" where
  "instant record_v path =
     (if \<not> is_valid_message record_v \<or> length path > maxFieldPath then None
      else instant_at record_v (Split CHR ''.'' path))"

section \<open>The verdict\<close>

definition acknowledged :: "decoders \<Rightarrow> nat \<Rightarrow> Answer \<Rightarrow> Verdict" where
  "acknowledged rd sent answer =
     (if \<not> is_protobuf rd (an_ContentType answer) then verdict Unexpected (-1) No_acknowledgement
      else case DecodeAck rd (an_Body answer) of
             None \<Rightarrow> verdict Unexpected (-1) No_acknowledgement
           | Some a \<Rightarrow>
               if ak_accepted a \<and> ak_durable a \<and> ak_received a = int sent then verdict Durable (-1) No_reason
               else verdict Unconfirmed (-1) Not_confirmed)"

definition refused ::
  "wire \<Rightarrow> decoders \<Rightarrow> Route \<Rightarrow> Sent list \<Rightarrow> Rejection \<Rightarrow> why \<Rightarrow> time \<Rightarrow> Verdict" where
  "refused wr rd r sent refusal said date =
     (let index = rj_index refusal
      in if index < 0 \<or> index \<ge> int (length sent) then verdict Unexpected (-1) said
         else case DecodeRecord rd r (sn_Record (sent ! nat index)) of
                None \<Rightarrow> verdict RecordRefused index said
              | Some v \<Rightarrow>
                  if unspoken v (rj_field refusal) then verdict Incompatible index Incompatibility
                  else
                    let admitted = sn_Admitted (sent ! nat index)
                    in case instant v (rj_field refusal) of
                         None \<Rightarrow> verdict RecordRefused index said
                       | Some t \<Rightarrow>
                           if t > admitted + MaxClockSkew \<or> (date \<noteq> zero_time \<and> \<not> t > date)
                              \<or> (date = zero_time \<and> t < admitted - sh_maxAge (shapes wr r))
                           then verdict RecordRefused index said
                           else verdict Disputed index Dispute)"

definition refusalIn :: "decoders \<Rightarrow> Answer \<Rightarrow> Rejection option" where
  "refusalIn rd answer =
     (if \<not> is_protobuf rd (an_ContentType answer) then None
      else case DecodeRejection rd (an_Body answer) of
             None \<Rightarrow> None | Some refusal \<Rightarrow> if rj_code refusal = [] then None else Some refusal)"

text \<open>What the status alone says, where the answer carries no code the agent acts on.\<close>

definition by_status :: "int \<Rightarrow> Verdict" where
  "by_status status =
     (if holding status then verdict Busy (-1) (Refusal status)
      else if passing status then verdict Unconfirmed (-1) (Refusal status)
      else verdict Unexpected (-1) (Refusal status))"

definition by_code :: "wire \<Rightarrow> decoders \<Rightarrow> Route \<Rightarrow> Sent list \<Rightarrow> Rejection \<Rightarrow> Answer \<Rightarrow> Verdict" where
  "by_code wr rd r sent refusal answer =
     (let code = rj_code refusal; said = Refusal (an_Status answer)
      in if code = unsupportedProtocol then verdict Incompatible (-1) Incompatibility
         else if code \<in> set busy then verdict Busy (-1) said
         else if code \<in> set unavailable then verdict Unconfirmed (-1) said
         else if code \<in> set oversized then verdict BatchTooLarge (-1) said
         else if code = undecodable then verdict BatchUndecodable (-1) said
         else if code = sh_refusing (shapes wr r) then refused wr rd r sent refusal said (an_Date answer)
         else by_status (an_Status answer))"

definition Judge_answer :: "wire \<Rightarrow> decoders \<Rightarrow> Route \<Rightarrow> Sent list \<Rightarrow> Answer \<Rightarrow> Verdict" where
  "Judge_answer wr rd r sent answer =
     (if an_Status answer = 200 then acknowledged rd (length sent) answer
      else case refusalIn rd answer of
             None \<Rightarrow>
               if an_Status answer = 413 then verdict BatchTooLarge (-1) (Refusal 413) else by_status (an_Status answer)
           | Some refusal \<Rightarrow>
               (case excluding (rj_code refusal) of
                  Some reason \<Rightarrow> verdict AgentRefused (-1) (Exclusion reason)
                | None \<Rightarrow> by_code wr rd r sent refusal answer))"

section \<open>When a record may be let go of\<close>

lemma by_status_outcomes [simp]: "vd_Outcome (by_status status) \<noteq> Durable" "vd_Outcome (by_status status) \<noteq> RecordRefused"
  by (simp_all add: by_status_def)

lemma refused_outcomes:
  "vd_Outcome (refused wr rd r sent refusal said date) \<noteq> Durable"
  "vd_Outcome (refused wr rd r sent refusal said date) = RecordRefused \<Longrightarrow>
     vd_Record (refused wr rd r sent refusal said date) = rj_index refusal
     \<and> 0 \<le> rj_index refusal \<and> rj_index refusal < int (length sent)"
  by (auto simp: refused_def Let_def split: option.splits)

lemma by_code_outcomes:
  "vd_Outcome (by_code wr rd r sent refusal answer) \<noteq> Durable"
  "vd_Outcome (by_code wr rd r sent refusal answer) = RecordRefused \<Longrightarrow> rj_code refusal = sh_refusing (shapes wr r)
     \<and> by_code wr rd r sent refusal answer = refused wr rd r sent refusal (Refusal (an_Status answer)) (an_Date answer)"
  by (auto simp: by_code_def Let_def refused_outcomes(1) split: if_splits)

lemma Judge_Durable:
  assumes "vd_Outcome (Judge_answer wr rd r sent answer) = Durable"
  shows "an_Status answer = 200 \<and> is_protobuf rd (an_ContentType answer)
    \<and> (\<exists>a. DecodeAck rd (an_Body answer) = Some a \<and> ak_accepted a \<and> ak_durable a \<and> ak_received a = int (length sent))"
  using assms
  by (auto simp: Judge_answer_def acknowledged_def by_code_outcomes(1) split: if_splits option.splits)

lemma Judge_RecordRefused:
  assumes "vd_Outcome (Judge_answer wr rd r sent answer) = RecordRefused"
  obtains refusal where "an_Status answer \<noteq> 200" "refusalIn rd answer = Some refusal" "excluding (rj_code refusal) = None"
    "rj_code refusal = sh_refusing (shapes wr r)"
    "Judge_answer wr rd r sent answer = refused wr rd r sent refusal (Refusal (an_Status answer)) (an_Date answer)"
proof -
  have "an_Status answer \<noteq> 200" using assms by (auto simp: Judge_answer_def acknowledged_def split: if_splits option.splits)
  moreover obtain refusal where "refusalIn rd answer = Some refusal" "excluding (rj_code refusal) = None"
    "Judge_answer wr rd r sent answer = by_code wr rd r sent refusal answer"
    using assms calculation by (auto simp: Judge_answer_def split: if_splits option.splits)
  ultimately show thesis using that by_code_outcomes(2) assms by simp
qed

lemma Judge_Record:
  assumes "vd_Outcome (Judge_answer wr rd r sent answer) = RecordRefused"
  shows "0 \<le> vd_Record (Judge_answer wr rd r sent answer)" "vd_Record (Judge_answer wr rd r sent answer) < int (length sent)"
proof -
  obtain refusal where "Judge_answer wr rd r sent answer = refused wr rd r sent refusal (Refusal (an_Status answer)) (an_Date answer)"
    using Judge_RecordRefused [OF assms] by blast
  then show "0 \<le> vd_Record (Judge_answer wr rd r sent answer)" "vd_Record (Judge_answer wr rd r sent answer) < int (length sent)"
    using refused_outcomes(2) assms by metis+
qed

lemma Judge_excluded:
  assumes "an_Status answer \<noteq> 200" "refusalIn rd answer = Some refusal" "excluding (rj_code refusal) = Some reason"
  shows "Judge_answer wr rd r sent answer = verdict AgentRefused (-1) (Exclusion reason)"
  using assms by (simp add: Judge_answer_def)

end
