(* ===== verification/Inventory_Snapshot.thy ===== *)
theory Inventory_Snapshot
  imports Text_Patterns Network_View Protocol_Answer
begin

text \<open>
  What the inventory module admits of one kind of thing the host has: the checks a record passes,
  \<open>internal/protocol/inventory.go\<close>, and how a snapshot is made of what was enumerated,
  \<open>internal/modules/inventory/snapshot.go\<close>. The generated enumerations, \<open>netip\<close>, the digest, the
  encoding of a message and the text of a moment are arguments.
\<close>

section \<open>Items\<close>

datatype inv_kind = OPERATING_SYSTEM | KERNEL | HARDWARE | PACKAGE | SERVICE | NETWORK_INTERFACE | USER | PROCESS

text \<open>A \<open>timestamppb.Timestamp\<close>: whether it is valid, and the moment.\<close>

datatype timestamp = Timestamp bool time

fun stamp_valid :: "timestamp \<Rightarrow> bool" where "stamp_valid (Timestamp v t) = v"
fun stamp_time :: "timestamp \<Rightarrow> time" where "stamp_time (Timestamp v t) = t"

record inv_os =
  os_Name :: string
  os_Version :: string
  os_Build :: string
  os_Platform :: string
  os_Codename :: string
  os_Family :: string

record inv_kernel =
  ke_Name :: string
  ke_Release :: string
  ke_Version :: string
  ke_Architecture :: string

record inv_hardware =
  hw_CpuName :: string
  hw_CpuCores :: u32
  hw_CpuMhz :: u32
  hw_Memory :: u64
  hw_Serial :: string
  hw_Vendor :: string
  hw_Model :: string

record inv_package =
  pk_Name :: string
  pk_Version :: string
  pk_Architecture :: string
  pk_Manager :: string
  pk_Source :: string
  pk_Vendor :: string
  pk_InstalledAt :: "timestamp option"

record inv_service =
  sv_Name :: string
  sv_DisplayName :: string
  sv_State :: int
  sv_StartMode :: string
  sv_Path :: string

record inv_interface =
  ni_Name :: string
  ni_Mac :: string
  ni_State :: int
  ni_Type :: string
  ni_Addresses :: "string list"

record inv_user =
  us_Name :: string
  us_Uid :: string
  us_Gid :: string
  us_Home :: string
  us_Shell :: string
  us_LastLogin :: "timestamp option"
  us_Groups :: "string list"

record inv_process =
  pr_Pid :: u32
  pr_Name :: string
  pr_Path :: string
  pr_CommandLine :: string
  pr_User :: string
  pr_StartedAt :: "timestamp option"

datatype inv_item =
  Item_OperatingSystem inv_os | Item_Kernel inv_kernel | Item_Hardware inv_hardware | Item_Package inv_package
| Item_Service inv_service | Item_NetworkInterface inv_interface | Item_User inv_user | Item_Process inv_process | Item_empty

definition FormatInt :: "int \<Rightarrow> string" where
  "FormatInt i = (if i < 0 then CHR ''-'' # FormatNat (nat (- i)) else FormatNat (nat i))"

text \<open>\<open>InventoryIdentity\<close>; a getter of another body returns the empty text.\<close>

fun InventoryIdentity :: "inv_kind \<Rightarrow> inv_item \<Rightarrow> string list" where
  "InventoryIdentity PACKAGE i =
     (case i of Item_Package p \<Rightarrow> [pk_Name p, pk_Architecture p, pk_Manager p] | _ \<Rightarrow> [[], [], []])"
| "InventoryIdentity SERVICE i = [case i of Item_Service s \<Rightarrow> sv_Name s | _ \<Rightarrow> []]"
| "InventoryIdentity NETWORK_INTERFACE i = [case i of Item_NetworkInterface n \<Rightarrow> ni_Name n | _ \<Rightarrow> []]"
| "InventoryIdentity USER i = [case i of Item_User u \<Rightarrow> if us_Uid u \<noteq> [] then us_Uid u else us_Name u | _ \<Rightarrow> []]"
| "InventoryIdentity PROCESS i =
     (case i of
        Item_Process p \<Rightarrow> [FormatNat (unat (pr_Pid p)),
          (case pr_StartedAt p of None \<Rightarrow> [] | Some at \<Rightarrow> FormatInt (stamp_time at))]
      | _ \<Rightarrow> [FormatNat 0, []])"
| "InventoryIdentity k i = []"

section \<open>What the platform takes\<close>

definition MaxInventoryItemsPerRecord :: nat where "MaxInventoryItemsPerRecord = 10000"
definition MaxInventoryRecordBytes :: nat where "MaxInventoryRecordBytes = 983040"
definition MaxInterfaceAddresses :: nat where "MaxInterfaceAddresses = 64"
definition MaxAccountGroups :: nat where "MaxAccountGroups = 256"

datatype inv_reason =
  Empty_delta | Too_many nat nat | Not_single nat | Not_a_moment
| No_body | Not_an_address | Required | Longer_than nat | Not_text | Not_declared

datatype inadmissible = Inadmissible string inv_reason

fun first_of :: "inadmissible option list \<Rightarrow> inadmissible option" where
  "first_of [] = None"
| "first_of (Some e # es) = Some e"
| "first_of (None # es) = first_of es"

definition check_text :: "string \<Rightarrow> string \<Rightarrow> nat \<Rightarrow> bool \<Rightarrow> inadmissible option" where
  "check_text fld v most required =
     (if v = [] \<and> required then Some (Inadmissible fld Required)
      else if length v > most then Some (Inadmissible fld (Longer_than most))
      else if \<not> valid_utf8 v then Some (Inadmissible fld Not_text)
      else None)"

definition check_enumerated :: "string \<Rightarrow> bool \<Rightarrow> inadmissible option" where
  "check_enumerated fld named = (if named then None else Some (Inadmissible fld Not_declared))"

definition check_moment :: "string \<Rightarrow> timestamp option \<Rightarrow> inadmissible option" where
  "check_moment fld at =
     (if (case at of None \<Rightarrow> True | Some s \<Rightarrow> stamp_valid s) then None else Some (Inadmissible fld Not_a_moment))"

text \<open>
  \<open>il_service\<close> and \<open>il_interface\<close> say whether the contract names a state, \<open>il_address\<close> whether
  \<open>netip\<close> reads an address and \<open>il_prefix\<close> whether it reads a prefix.
\<close>

record inv_contract =
  il_service :: "int \<Rightarrow> bool"
  il_interface :: "int \<Rightarrow> bool"
  il_address :: "string \<Rightarrow> bool"
  il_prefix :: "string \<Rightarrow> bool"

text \<open>The text of \<open>name[index]\<close>.\<close>

definition indexed :: "string \<Rightarrow> nat \<Rightarrow> string" where
  "indexed name i = name @ ''['' @ FormatNat i @ '']''"

fun check_each :: "(nat \<Rightarrow> 'a \<Rightarrow> inadmissible option) \<Rightarrow> nat \<Rightarrow> 'a list \<Rightarrow> inadmissible option" where
  "check_each f i [] = None"
| "check_each f i (x # xs) = (case f i x of Some e \<Rightarrow> Some e | None \<Rightarrow> check_each f (Suc i) xs)"

definition checkInterface :: "inv_contract \<Rightarrow> string \<Rightarrow> inv_interface \<Rightarrow> inadmissible option" where
  "checkInterface lc fld n =
     (let addresses = fld @ ''.network_interface.addresses'' in
      case first_of
        [check_text (fld @ ''.network_interface.name'') (ni_Name n) 256 True,
         check_text (fld @ ''.network_interface.mac'') (ni_Mac n) 64 False,
         check_enumerated (fld @ ''.network_interface.state'') (il_interface lc (ni_State n)),
         check_text (fld @ ''.network_interface.type'') (ni_Type n) 32 False] of
        Some e \<Rightarrow> Some e
      | None \<Rightarrow>
          if length (ni_Addresses n) > MaxInterfaceAddresses
          then Some (Inadmissible addresses (Too_many (length (ni_Addresses n)) MaxInterfaceAddresses))
          else check_each (\<lambda>i written.
             case check_text (indexed addresses i) written 49 True of
               Some e \<Rightarrow> Some e
             | None \<Rightarrow> if il_prefix lc written \<or> il_address lc written then None
                 else Some (Inadmissible (indexed addresses i) Not_an_address)) 0 (ni_Addresses n))"

definition checkAccount :: "string \<Rightarrow> inv_user \<Rightarrow> inadmissible option" where
  "checkAccount fld u =
     (let groups = fld @ ''.user.groups'' in
      case first_of
        [check_text (fld @ ''.user.name'') (us_Name u) 256 True,
         check_text (fld @ ''.user.uid'') (us_Uid u) 192 False,
         check_text (fld @ ''.user.gid'') (us_Gid u) 192 False,
         check_text (fld @ ''.user.home'') (us_Home u) 4096 False,
         check_text (fld @ ''.user.shell'') (us_Shell u) 4096 False,
         check_moment (fld @ ''.user.last_login'') (us_LastLogin u)] of
        Some e \<Rightarrow> Some e
      | None \<Rightarrow>
          if length (us_Groups u) > MaxAccountGroups
          then Some (Inadmissible groups (Too_many (length (us_Groups u)) MaxAccountGroups))
          else check_each (\<lambda>i group. check_text (indexed groups i) group 256 True) 0 (us_Groups u))"

text \<open>\<open>checkItem\<close>, of an item that carries a body of the kind.\<close>

fun checkItem :: "inv_contract \<Rightarrow> string \<Rightarrow> inv_item \<Rightarrow> inadmissible option" where
  "checkItem lc fld (Item_OperatingSystem s) = first_of
     [check_text (fld @ ''.operating_system.name'') (os_Name s) 256 True,
      check_text (fld @ ''.operating_system.version'') (os_Version s) 128 False,
      check_text (fld @ ''.operating_system.build'') (os_Build s) 128 False,
      check_text (fld @ ''.operating_system.platform'') (os_Platform s) 64 False,
      check_text (fld @ ''.operating_system.codename'') (os_Codename s) 64 False,
      check_text (fld @ ''.operating_system.family'') (os_Family s) 32 False]"
| "checkItem lc fld (Item_Kernel k) = first_of
     [check_text (fld @ ''.kernel.name'') (ke_Name k) 256 True,
      check_text (fld @ ''.kernel.release'') (ke_Release k) 128 False,
      check_text (fld @ ''.kernel.version'') (ke_Version k) 128 False,
      check_text (fld @ ''.kernel.architecture'') (ke_Architecture k) 32 False]"
| "checkItem lc fld (Item_Package p) = first_of
     [check_text (fld @ ''.package.name'') (pk_Name p) 256 True,
      check_text (fld @ ''.package.version'') (pk_Version p) 128 False,
      check_text (fld @ ''.package.architecture'') (pk_Architecture p) 32 False,
      check_text (fld @ ''.package.manager'') (pk_Manager p) 32 False,
      check_text (fld @ ''.package.source'') (pk_Source p) 256 False,
      check_text (fld @ ''.package.vendor'') (pk_Vendor p) 256 False,
      check_moment (fld @ ''.package.installed_at'') (pk_InstalledAt p)]"
| "checkItem lc fld (Item_Service s) = first_of
     [check_text (fld @ ''.service.name'') (sv_Name s) 256 True,
      check_text (fld @ ''.service.display_name'') (sv_DisplayName s) 256 False,
      check_enumerated (fld @ ''.service.state'') (il_service lc (sv_State s)),
      check_text (fld @ ''.service.start_mode'') (sv_StartMode s) 32 False,
      check_text (fld @ ''.service.path'') (sv_Path s) 4096 False]"
| "checkItem lc fld (Item_NetworkInterface n) = checkInterface lc fld n"
| "checkItem lc fld (Item_User u) = checkAccount fld u"
| "checkItem lc fld (Item_Hardware h) = first_of
     [check_text (fld @ ''.hardware.cpu_name'') (hw_CpuName h) 256 False,
      check_text (fld @ ''.hardware.serial'') (hw_Serial h) 128 False,
      check_text (fld @ ''.hardware.vendor'') (hw_Vendor h) 256 False,
      check_text (fld @ ''.hardware.model'') (hw_Model h) 256 False]"
| "checkItem lc fld (Item_Process p) = first_of
     [check_text (fld @ ''.process.name'') (pr_Name p) 256 True,
      check_text (fld @ ''.process.path'') (pr_Path p) 4096 False,
      check_text (fld @ ''.process.command_line'') (pr_CommandLine p) 8192 False,
      check_text (fld @ ''.process.user'') (pr_User p) 256 False,
      check_moment (fld @ ''.process.started_at'') (pr_StartedAt p)]"
| "checkItem lc fld Item_empty = None"

definition body_kind :: "inv_item \<Rightarrow> inv_kind option" where
  "body_kind i =
     (case i of Item_OperatingSystem _ \<Rightarrow> Some OPERATING_SYSTEM | Item_Kernel _ \<Rightarrow> Some KERNEL
      | Item_Hardware _ \<Rightarrow> Some HARDWARE | Item_Package _ \<Rightarrow> Some PACKAGE | Item_Service _ \<Rightarrow> Some SERVICE
      | Item_NetworkInterface _ \<Rightarrow> Some NETWORK_INTERFACE | Item_User _ \<Rightarrow> Some USER
      | Item_Process _ \<Rightarrow> Some PROCESS | Item_empty \<Rightarrow> None)"

definition body_present :: "inv_kind \<Rightarrow> inv_item \<Rightarrow> bool" where
  "body_present k i \<longleftrightarrow> body_kind i = Some k"

definition singleton_kind :: "inv_kind \<Rightarrow> bool" where
  "singleton_kind k \<longleftrightarrow> k \<in> {OPERATING_SYSTEM, KERNEL, HARDWARE}"

datatype inv_mode = SNAPSHOT | DELTA

record inv_record =
  ir_RecordId :: string
  ir_Kind :: inv_kind
  ir_Mode :: inv_mode
  ir_CollectedAt :: "timestamp option"
  ir_Hostname :: string
  ir_Os :: string
  ir_Architecture :: string
  ir_Ip :: string
  ir_Collector :: string
  ir_Source :: string
  ir_Items :: "inv_item list"

text \<open>
  \<open>CheckInventory\<close>; a kind the platform does not identify and a mode that is neither of the two are not
  values of the model.
\<close>

definition CheckInventory :: "inv_contract \<Rightarrow> inv_record \<Rightarrow> inadmissible option" where
  "CheckInventory lc r =
     (let items = ir_Items r in
      if items = [] \<and> ir_Mode r = DELTA then Some (Inadmissible ''items'' Empty_delta)
      else if length items > MaxInventoryItemsPerRecord
        then Some (Inadmissible ''items'' (Too_many (length items) MaxInventoryItemsPerRecord))
      else if singleton_kind (ir_Kind r) \<and> length items > 1 then Some (Inadmissible ''items'' (Not_single (length items)))
      else if (case ir_CollectedAt r of None \<Rightarrow> True | Some at \<Rightarrow> \<not> stamp_valid at)
        then Some (Inadmissible ''collected_at'' Not_a_moment)
      else case first_of
        [check_text ''origin.host.hostname'' (ir_Hostname r) 255 False,
         check_text ''origin.host.os'' (ir_Os r) 128 False,
         check_text ''origin.host.architecture'' (ir_Architecture r) 32 False,
         (if ir_Ip r \<noteq> [] \<and> (\<not> il_address lc (ir_Ip r) \<or> length (ir_Ip r) > 45)
          then Some (Inadmissible ''origin.host.ip'' Not_an_address) else None),
         check_text ''collection.collector'' (ir_Collector r) 64 True,
         check_text ''collection.source'' (ir_Source r) 512 False] of
        Some e \<Rightarrow> Some e
      | None \<Rightarrow> check_each (\<lambda>i item.
          if \<not> body_present (ir_Kind r) item then Some (Inadmissible (indexed ''items'' i) No_body)
          else checkItem lc (indexed ''items'' i) item) 0 items)"

section \<open>Taking a snapshot\<close>

definition KindName :: "inv_kind \<Rightarrow> string" where
  "KindName k =
     (case k of OPERATING_SYSTEM \<Rightarrow> ''operating_system'' | KERNEL \<Rightarrow> ''kernel'' | HARDWARE \<Rightarrow> ''hardware''
      | PACKAGE \<Rightarrow> ''package'' | SERVICE \<Rightarrow> ''service'' | NETWORK_INTERFACE \<Rightarrow> ''network_interface''
      | USER \<Rightarrow> ''user'' | PROCESS \<Rightarrow> ''process'')"

definition kind_source :: "inv_kind \<Rightarrow> string" where
  "kind_source k =
     (case k of OPERATING_SYSTEM \<Rightarrow> ''os-release'' | KERNEL \<Rightarrow> ''uname'' | HARDWARE \<Rightarrow> ''procfs''
      | PACKAGE \<Rightarrow> ''dpkg'' | SERVICE \<Rightarrow> ''systemd'' | NETWORK_INTERFACE \<Rightarrow> ''sysfs''
      | USER \<Rightarrow> ''passwd'' | PROCESS \<Rightarrow> ''procfs'')"

definition inv_kinds :: "inv_kind list" where
  "inv_kinds = [OPERATING_SYSTEM, KERNEL, HARDWARE, PACKAGE, SERVICE, NETWORK_INTERFACE, USER, PROCESS]"

definition moduleOf :: "inv_kind \<Rightarrow> string" where
  "moduleOf k = (if k = PROCESS then ''processes'' else ''inventory'')"

text \<open>\<open>ib_encode\<close> is the deterministic encoding of a record, \<open>ib_moment\<close> a moment as RFC 3339 writes it.\<close>

record inv_libs =
  ib_contract :: inv_contract
  ib_sha :: "byte list \<Rightarrow> byte list"
  ib_encode :: "inv_record \<Rightarrow> byte list option"
  ib_moment :: "time \<Rightarrow> string"
  ib_hostname :: string
  ib_os :: string
  ib_arch :: string

definition inv_identify :: "inv_libs \<Rightarrow> string \<Rightarrow> string \<Rightarrow> string \<Rightarrow> time \<Rightarrow> string" where
  "inv_identify lb collector installation kind at =
     (let sum = ib_sha lb (map of_char (''seagull-agent/'' @ collector @ [CHR 0x00] @ installation @ [CHR 0x00] @ kind
            @ [CHR 0x00] @ ib_moment lb at));
          sum = sum[6 := or (and (sum ! 6) 0x0f) 0x80];
          sum = sum[8 := or (and (sum ! 8) 0x3f) 0x80];
          slice = (\<lambda>a b. EncodeToString (take (b - a) (drop a sum)))
      in slice 0 4 @ ''-'' @ slice 4 6 @ ''-'' @ slice 6 8 @ ''-'' @ slice 8 10 @ ''-'' @ slice 10 16)"

text \<open>What the adapter of a kind answers: the items and how many entries it skipped, or an error.\<close>

datatype taken = Holds "inv_item list" nat | Absent_kind | Not_enumerated

datatype take_error = Unsupported_kind | Enumeration | Too_large | Refused_by inadmissible | Unencodable | Beyond_batch | Clock_behind

record inv_snapshot =
  sn_Kind :: inv_kind
  sn_Record :: inv_record
  sn_Encoded :: "byte list"
  sn_Digest :: string
  sn_Skipped :: nat

definition join_identity :: "string list \<Rightarrow> string" where
  "join_identity parts = Join (CHR 0x00) parts"

definition sorted_items :: "inv_kind \<Rightarrow> inv_item list \<Rightarrow> inv_item list" where
  "sorted_items k items = sort_by (compare_on (\<lambda>i. join_identity (InventoryIdentity k i)) str_Compare) items"

text \<open>What a record says of the host, without when it was taken and its name.\<close>

definition stated_of :: "inv_record \<Rightarrow> inv_record" where
  "stated_of r = r\<lparr>ir_RecordId := [], ir_CollectedAt := None\<rparr>"

definition Take :: "inv_libs \<Rightarrow> string \<Rightarrow> inv_kind \<Rightarrow> time \<Rightarrow> taken \<Rightarrow> take_error + inv_snapshot" where
  "Take lb installation k at found =
     (case found of
        Absent_kind \<Rightarrow> Inl Unsupported_kind
      | Not_enumerated \<Rightarrow> Inl Enumeration
      | Holds items skipped \<Rightarrow>
          if length items > MaxInventoryItemsPerRecord then Inl Too_large
          else
            let r = \<lparr>ir_RecordId = inv_identify lb (moduleOf k) installation (KindName k) at, ir_Kind = k,
                  ir_Mode = SNAPSHOT, ir_CollectedAt = Some (Timestamp True at), ir_Hostname = ib_hostname lb,
                  ir_Os = ib_os lb, ir_Architecture = ib_arch lb, ir_Ip = [], ir_Collector = moduleOf k,
                  ir_Source = kind_source k, ir_Items = sorted_items k items\<rparr>
            in (case CheckInventory (ib_contract lb) r of
                  Some e \<Rightarrow> Inl (Refused_by e)
                | None \<Rightarrow>
                    (case ib_encode lb r of
                       None \<Rightarrow> Inl Unencodable
                     | Some encoded \<Rightarrow>
                         if length encoded > MaxInventoryRecordBytes then Inl Too_large
                         else (case ib_encode lb (stated_of r) of
                                 None \<Rightarrow> Inl Unencodable
                               | Some stated \<Rightarrow>
                                   Inr \<lparr>sn_Kind = k, sn_Record = r, sn_Encoded = encoded,
                                     sn_Digest = EncodeToString (ib_sha lb stated), sn_Skipped = skipped\<rparr>))))"

section \<open>What a snapshot says\<close>

text \<open>A list sorted by a strict order is determined by what it holds.\<close>

lemma strictly_sorted_unique:
  assumes "comparison cmp" "sorted_wrt (\<lambda>x y. cmp x y < 0) xs" "sorted_wrt (\<lambda>x y. cmp x y < 0) ys" "set xs = set ys"
  shows "xs = ys"
  using assms(2-)
proof (induction xs arbitrary: ys)
  case (Cons x xs)
  obtain y ys' where ys: "ys = y # ys'" using Cons.prems(3) by (cases ys) auto
  have irr: "\<not> cmp z z < 0" for z using comparison.refl [OF assms(1), of z] by simp
  have "x = y"
  proof (rule ccontr)
    assume "x \<noteq> y"
    then have "cmp y x < 0" "cmp x y < 0" using Cons.prems ys by auto
    then show False using comparison.flip [OF assms(1), of x y] by simp
  qed
  moreover have "x \<notin> set xs" "y \<notin> set ys'" using Cons.prems ys irr by auto
  ultimately show ?case using Cons ys by (metis insert_ident list.simps(15) sorted_wrt.simps(2))
qed simp

definition item_identity :: "inv_kind \<Rightarrow> inv_item \<Rightarrow> string" where
  "item_identity k i = join_identity (InventoryIdentity k i)"

lemma sorted_items_strict:
  assumes "distinct items" "inj_on (item_identity k) (set items)"
  shows "sorted_wrt (\<lambda>x y. compare_on (item_identity k) str_Compare x y < 0) (sorted_items k items)"
proof -
  let ?cmp = "compare_on (item_identity k) str_Compare"
  have s: "sorted_items k items = sort_by ?cmp items"
    by (simp add: sorted_items_def item_identity_def [abs_def])
  have le: "sorted_wrt (\<lambda>x y. ?cmp x y \<le> 0) (sort_by ?cmp items)"
    by (rule comparison.sort_sorted [OF comparison_on [OF str.comparison_axioms]])
  have d: "distinct (sort_by ?cmp items)" using assms(1) by simp
  have ne: "?cmp x y \<noteq> 0" if "x \<in> set items" "y \<in> set items" "x \<noteq> y" for x y
    using assms(2) that by (auto simp: compare_on_def inj_on_def str_Compare_0)
  have "sorted_wrt (\<lambda>x y. ?cmp x y < 0) xs"
    if "sorted_wrt (\<lambda>x y. ?cmp x y \<le> 0) xs" "distinct xs" "set xs \<subseteq> set items" for xs
    using that ne by (induction xs) (auto simp: order_less_le)
  then show ?thesis using le d unfolding s by simp
qed

lemma sorted_items_unique:
  assumes "distinct items" "distinct items'" "set items = set items'" "inj_on (item_identity k) (set items)"
  shows "sorted_items k items = sorted_items k items'"
  using assms sorted_items_strict [of items k] sorted_items_strict [of items' k]
  by (intro strictly_sorted_unique [OF comparison_on [OF str.comparison_axioms]]) (auto simp: sorted_items_def)

lemma Take_Inr:
  assumes "Take lb installation k at found = Inr s"
  obtains items where "found = Holds items (sn_Skipped s)" "length items \<le> MaxInventoryItemsPerRecord"
    "ir_Items (sn_Record s) = sorted_items k items" "CheckInventory (ib_contract lb) (sn_Record s) = None"
    "ib_encode lb (sn_Record s) = Some (sn_Encoded s)" "length (sn_Encoded s) \<le> MaxInventoryRecordBytes"
    "\<exists>stated. ib_encode lb \<lparr>ir_RecordId = [], ir_Kind = k,
                  ir_Mode = SNAPSHOT, ir_CollectedAt = None, ir_Hostname = ib_hostname lb,
                  ir_Os = ib_os lb, ir_Architecture = ib_arch lb, ir_Ip = [], ir_Collector = moduleOf k,
                  ir_Source = kind_source k, ir_Items = sorted_items k items\<rparr> = Some stated
       \<and> sn_Digest s = EncodeToString (ib_sha lb stated)"
    "sn_Kind s = k"
  using assms
  by (auto simp: Take_def Let_def stated_of_def split: taken.splits if_splits option.splits)


text \<open>The digest is one of what is held, in the order of the items.\<close>

lemma Take_digest:
  assumes "Take lb installation k at (Holds items skipped) = Inr s" "Take lb installation' k at' (Holds items' skipped') = Inr s'"
    and "sorted_items k items = sorted_items k items'"
  shows "sn_Digest s = sn_Digest s'"
  using assms by (auto simp: Take_def Let_def stated_of_def split: if_splits option.splits)

end
