(* ===== verification/Auth_Sshd.thy ===== *)
theory Auth_Sshd
  imports Text_Patterns
begin

text \<open>
  What the authentication module reads of a line sshd wrote, \<open>internal/modules/authentication/sshd.go\<close>:
  the outcome, the meth, the user and the place the connection came from. The user a client names
  and the identifier of its certificate are its own words; a place is taken only where it is the only
  one that fits the line. What \<open>netip.ParseAddr\<close> makes of an address is the argument \<open>pa\<close>.
\<close>

definition maxMessage :: nat where "maxMessage = 1024"
definition maxUser :: nat where "maxUser = 256"
definition maxAddress :: nat where "maxAddress = 45"

datatype extra = Without | Key | Described

definition methods :: "(string \<times> extra) list" where
  "methods = [(''password'', Without), (''keyboard-interactive'', Without), (''none'', Without),
     (''publickey'', Key), (''hostbased'', Described), (''gssapi-with-mic'', Described)]"

abbreviation upper_or_digit :: pattern where
  "upper_or_digit \<equiv> POne (\<lambda>c. byte_in 65 90 c \<or> byte_in 48 57 c)"

abbreviation digit :: pattern where "digit \<equiv> POne (byte_in 48 57)"

abbreviation any_char :: pattern where "any_char \<equiv> POne (\<lambda>c. c \<noteq> CHR 0x0A)"

definition submethod :: pattern where
  "submethod = PThen (POne (byte_in 97 122)) (pat_upto 15 (POne (byte_in 97 122)))"

definition fingerprint :: pattern where
  "fingerprint =
     PEither (PThen (pat_text ''SHA256:'')
       (pat_times 43 (POne (\<lambda>c. byte_in 65 90 c \<or> byte_in 97 122 c \<or> byte_in 48 57 c \<or> c = CHR ''+'' \<or> c = CHR ''/''))))
    (PEither (PThen (pat_text ''MD5:'')
       (PThen (pat_times 15 (PThen (pat_times 2 (POne (\<lambda>c. byte_in 48 57 c \<or> byte_in 97 102 c))) (pat_text '':'')))
         (pat_times 2 (POne (\<lambda>c. byte_in 48 57 c \<or> byte_in 97 102 c)))))
     (pat_text ''(null)''))"

definition key_type :: pattern where
  "key_type = PThen (pat_some upper_or_digit) (pat_maybe (pat_text ''-SK''))"

definition plainKey :: pattern where
  "plainKey = pat_seq [key_type, pat_text '' '', fingerprint,
     pat_maybe (PThen (pat_text '', signature count = '') (PThen digit (pat_upto 9 digit)))]"

definition certified :: pattern where
  "certified = pat_seq [key_type, pat_text ''-CERT '', fingerprint, pat_text '' ID '', PMany any_char,
     pat_text '' (serial '', PThen digit (pat_upto 19 digit), pat_text '') CA '', key_type, pat_text '' '',
     fingerprint, pat_maybe (PThen (pat_text '', '') (PMany any_char))]"

record 'a auth_attempt =
  at_accepted :: bool
  at_method :: string
  at_invalid :: bool
  at_placed :: bool
  at_user :: string
  at_address :: "'a option"
  at_port :: u32

record 'a auth_place =
  pl_at :: nat
  pl_address :: "'a option"
  pl_port :: u32

definition printable :: "string \<Rightarrow> bool" where
  "printable s = list_all (byte_in 32 126) s"

text \<open>The loop of \<open>bounded\<close> that steps back to the start of a rune.\<close>

fun rune_cut :: "string \<Rightarrow> nat \<Rightarrow> nat" where
  "rune_cut s 0 = 0"
| "rune_cut s (Suc n) = (if RuneStart (s ! Suc n) then Suc n else rune_cut s n)"

definition bounded_text :: "string \<Rightarrow> nat \<Rightarrow> string" where
  "bounded_text s most =
     (let v = ToValidUTF8 s in if length v \<le> most then v else take (rune_cut v most) v)"

text \<open>\<open>fits\<close>, with \<open>at\<close> left at zero.\<close>

definition place_fits :: "(string \<Rightarrow> 'a option) \<Rightarrow> string \<Rightarrow> extra \<Rightarrow> 'a auth_place option" where
  "place_fits pa line kind =
     (case str_Cut '' port '' line of (address, rest, ok) \<Rightarrow>
      if \<not> ok \<or> address = [] \<or> CHR '' '' \<in> set address then None
      else case str_Cut '' ssh2'' rest of (digits, said, ok) \<Rightarrow>
        if \<not> ok \<or> digits = [] \<or> length digits > 5 \<or> \<not> list_all is_digit digits
          \<or> length digits > 1 \<and> hd digits = CHR ''0'' then None
        else if digits_value digits > 65535 then None
        else if said \<noteq> [] \<and>
            (case CutPrefix '': '' said of (info, ok) \<Rightarrow>
               \<not> ok \<or> info = [] \<or> kind = Without
               \<or> kind = Key \<and> \<not> MatchString plainKey info \<and> \<not> MatchString certified info) then None
        else Some \<lparr>pl_at = 0,
          pl_address = (if length address \<le> maxAddress then pa address else None),
          pl_port = of_nat (digits_value digits)\<rparr>)"

text \<open>The loop over the places that may fit, from \<open>from\<close> on.\<close>

function places_from :: "(string \<Rightarrow> 'a option) \<Rightarrow> string \<Rightarrow> extra \<Rightarrow> nat \<Rightarrow> 'a auth_place list" where
  "places_from pa rest kind frm =
     (case str_Index '' from '' (drop frm rest) of
        None \<Rightarrow> []
      | Some i \<Rightarrow>
          (case place_fits pa (drop (i + frm + 6) rest) kind of
             None \<Rightarrow> []
           | Some fitted \<Rightarrow> [fitted\<lparr>pl_at := i + frm\<rparr>])
          @ places_from pa rest kind (i + frm + 1))"
  by pat_completeness auto
termination
  by (relation "measure (\<lambda>(_, rest, _, frm). length rest - frm)") (auto dest!: str_Index_bound)

text \<open>\<open>parse\<close> from where the outcome was cut off.\<close>

definition parse_decided :: "(string \<Rightarrow> 'a option) \<Rightarrow> bool \<Rightarrow> string \<Rightarrow> 'a auth_attempt option" where
  "parse_decided pa accepted line =
     (case str_Cut '' for '' line of (meth, rest, ok) \<Rightarrow>
      case str_Cut ''/'' meth of (name, sub, specified) \<Rightarrow>
      (case map_of methods name of
         None \<Rightarrow> None
       | Some kind \<Rightarrow>
           if \<not> ok \<or> specified \<and> (name \<noteq> ''keyboard-interactive'' \<or> \<not> MatchString submethod sub) then None
           else case CutPrefix ''invalid user '' rest of (rest, invalid) \<Rightarrow>
             if accepted \<and> invalid then None
             else
               let found = \<lparr>at_accepted = accepted, at_method = meth, at_invalid = invalid,
                     at_placed = False, at_user = [], at_address = None, at_port = 0\<rparr>
               in Some (case places_from pa rest kind 0 of
                    [p] \<Rightarrow> found\<lparr>at_placed := True, at_user := bounded_text (take (pl_at p) rest) maxUser,
                             at_address := pl_address p, at_port := pl_port p\<rparr>
                  | _ \<Rightarrow> found)))"

definition parse_attempt :: "(string \<Rightarrow> 'a option) \<Rightarrow> string \<Rightarrow> 'a auth_attempt option" where
  "parse_attempt pa message =
     (if length message > maxMessage \<or> \<not> printable message then None
      else case CutPrefix ''Accepted '' message of
        (rest, True) \<Rightarrow> parse_decided pa True rest
      | (_, False) \<Rightarrow>
          (case CutPrefix ''Failed '' message of
             (rest, True) \<Rightarrow> parse_decided pa False rest
           | (_, False) \<Rightarrow> None))"

section \<open>Every place that fits is found\<close>

declare places_from.simps [simp del]

definition place_at :: "(string \<Rightarrow> 'a option) \<Rightarrow> string \<Rightarrow> extra \<Rightarrow> nat \<Rightarrow> 'a auth_place option" where
  "place_at pa rest kind i =
     (if take 6 (drop i rest) = '' from '' then
        map_option (pl_at_update (\<lambda>_. i)) (place_fits pa (drop (i + 6) rest) kind)
      else None)"

lemma map_filter_none: "(\<And>x. x \<in> set xs \<Longrightarrow> f x = None) \<Longrightarrow> List.map_filter f xs = []"
  by (induction xs) auto

lemma map_filter_append: "List.map_filter f (xs @ ys) = List.map_filter f xs @ List.map_filter f ys"
  by (simp add: map_filter_def)

lemma from_length: "length '' from '' = 6"
  by simp

lemmas from_none = str_Index_none [where sep = "'' from ''", unfolded from_length]
lemmas from_least = str_Index_least [where sep = "'' from ''", unfolded from_length]
lemmas from_bound = str_Index_bound [where sep = "'' from ''", unfolded from_length]

lemma upt_split: "a \<le> i \<Longrightarrow> i < b \<Longrightarrow> [a..<b] = [a..<i] @ i # [Suc i..<b]"
  using upt_add_eq_append [of a i "b - i"] by (simp add: upt_conv_Cons)

lemma places_from_all: "places_from pa rest kind frm = List.map_filter (place_at pa rest kind) [frm..<length rest]"
proof (induction pa rest kind frm rule: places_from.induct)
  case (1 pa rest kind frm)
  show ?case
  proof (cases "str_Index '' from '' (drop frm rest)")
    case None
    have none: "place_at pa rest kind i = None" if "i \<in> set [frm..<length rest]" for i
      using from_none [OF None, of "i - frm"] that by (auto simp: place_at_def diff_le_mono)
    have "List.map_filter (place_at pa rest kind) [frm..<length rest] = []" by (rule map_filter_none) (rule none)
    then show ?thesis using None by (simp add: places_from.simps)
  next
    case (Some i)
    note b = from_bound [OF Some]
    have here: "take 6 (drop (i + frm) rest) = '' from ''" "i + frm < length rest" using b by auto
    have before: "List.map_filter (place_at pa rest kind) [frm..<i + frm] = []"
    proof (rule map_filter_none)
      fix j assume "j \<in> set [frm..<i + frm]"
      then have j: "j - frm < i" "drop (j - frm) (drop frm rest) = drop j rest" by auto
      then show "place_at pa rest kind j = None" using from_least [OF Some j(1)] by (simp add: place_at_def)
    qed
    have "[frm..<length rest] = [frm..<i + frm] @ (i + frm) # [Suc (i + frm)..<length rest]"
      using here(2) by (intro upt_split) simp_all
    then have "List.map_filter (place_at pa rest kind) [frm..<length rest]
        = (case place_at pa rest kind (i + frm) of None \<Rightarrow> [] | Some p \<Rightarrow> [p])
          @ places_from pa rest kind (i + frm + 1)"
      using before 1 [OF Some] by (simp add: map_filter_append split: option.splits)
    also have "\<dots> = places_from pa rest kind frm"
      using Some here(1) by (subst (2) places_from.simps) (auto simp: place_at_def split: option.splits)
    finally show ?thesis by simp
  qed
qed

lemma in_map_filter: "y \<in> set (List.map_filter f xs) \<longleftrightarrow> (\<exists>x \<in> set xs. f x = Some y)"
  by (force simp: map_filter_def)

lemma place_at_pl: "place_at pa rest kind i = Some p \<Longrightarrow> pl_at p = i"
  by (auto simp: place_at_def split: if_splits)

text \<open>One place fits: it is the one that is known to fit.\<close>

lemma only_place:
  assumes "places_from pa rest kind 0 = [p]" "place_at pa rest kind i = Some q"
  shows "p = q" "pl_at p = i"
proof -
  have "i < length rest" using assms(2) by (cases "i < length rest") (auto simp: place_at_def split: if_splits)
  then have "q \<in> set (places_from pa rest kind 0)"
    using assms(2) by (auto simp: places_from_all in_map_filter)
  then show "p = q" using assms(1) by simp
  then show "pl_at p = i" using place_at_pl [OF assms(2)] by simp
qed

section \<open>What a line says\<close>

text \<open>The end of a line as sshd writes it.\<close>

definition place_text :: "string \<Rightarrow> string \<Rightarrow> string \<Rightarrow> string" where
  "place_text address digits said = address @ '' port '' @ digits @ '' ssh2'' @ said"

definition said_ok :: "extra \<Rightarrow> string \<Rightarrow> bool" where
  "said_ok kind said \<longleftrightarrow> said = [] \<or> (\<exists>info. said = '': '' @ info \<and> info \<noteq> [] \<and> kind \<noteq> Without
     \<and> (kind = Key \<longrightarrow> MatchString plainKey info \<or> MatchString certified info))"

definition digits_ok :: "string \<Rightarrow> bool" where
  "digits_ok ds \<longleftrightarrow> ds \<noteq> [] \<and> length ds \<le> 5 \<and> list_all is_digit ds \<and> (length ds > 1 \<longrightarrow> hd ds \<noteq> CHR ''0'')
     \<and> digits_value ds \<le> 65535"

lemma place_fits_text:
  assumes "address \<noteq> []" "CHR '' '' \<notin> set address" "digits_ok digits" "said_ok kind said"
  shows "place_fits pa (place_text address digits said) kind
     = Some \<lparr>pl_at = 0, pl_address = (if length address \<le> maxAddress then pa address else None),
         pl_port = of_nat (digits_value digits)\<rparr>"
proof -
  have d: "CHR '' '' \<notin> set digits" using assms(3) by (auto simp: digits_ok_def list_all_iff is_digit_def)
  have c1: "str_Cut '' port '' (place_text address digits said) = (address, digits @ '' ssh2'' @ said, True)"
    using str_Cut_append [OF assms(2), of "''port ''" "digits @ '' ssh2'' @ said"] by (simp add: place_text_def)
  have c2: "str_Cut '' ssh2'' (digits @ '' ssh2'' @ said) = (digits, said, True)"
    using str_Cut_append [OF d, of "''ssh2''" said] by simp
  show ?thesis unfolding place_fits_def c1 using assms c2
    by (auto simp: digits_ok_def said_ok_def CutPrefix_def)
qed

definition method_ok :: "string \<Rightarrow> extra \<Rightarrow> bool" where
  "method_ok meth kind \<longleftrightarrow> (case str_Cut ''/'' meth of (name, sub, specified) \<Rightarrow>
     map_of methods name = Some kind
     \<and> (specified \<longrightarrow> name = ''keyboard-interactive'' \<and> MatchString submethod sub))"

text \<open>A line sshd writes: what it decided, the method, the user and where the connection came from.\<close>

definition sshd_line :: "bool \<Rightarrow> string \<Rightarrow> bool \<Rightarrow> string \<Rightarrow> string \<Rightarrow> string" where
  "sshd_line accepted meth invalid user where_from =
     (if accepted then ''Accepted '' else ''Failed '') @ meth @ '' for ''
     @ (if invalid then ''invalid user '' else []) @ user @ '' from '' @ where_from"

lemma method_ok_space:
  assumes "method_ok meth kind"
  shows "CHR '' '' \<notin> set meth"
proof -
  obtain name sub specified where c: "str_Cut ''/'' meth = (name, sub, specified)" by (metis prod_cases3)
  then have m: "map_of methods name = Some kind" "specified \<Longrightarrow> MatchString submethod sub"
    using assms by (auto simp: method_ok_def)
  have n: "CHR '' '' \<notin> set name" using m(1) by (auto simp: methods_def split: if_splits)
  show ?thesis
  proof (cases specified)
    case True
    have "CHR '' '' \<notin> set s" if "s \<in> texts_of (pat_upto n (POne (byte_in 97 122)))" for s n
      using that by (induction n arbitrary: s) (auto simp: byte_in_def)
    then have "CHR '' '' \<notin> set sub"
      using m(2) [OF True] by (auto simp: MatchString_texts submethod_def byte_in_def)
    then show ?thesis using str_Cut_parts [of "''/''" meth name sub] c True n by auto
  next
    case False
    then have "name = meth" using c by (auto simp: str_Cut_def split: option.splits)
    then show ?thesis using n by simp
  qed
qed

text \<open>How a line as sshd writes it is read, up to the places that fit.\<close>

lemma parse_sshd_line:
  fixes pa :: "string \<Rightarrow> 'a option"
  assumes m: "method_ok meth kind" and p: "printable (sshd_line accepted meth invalid user w)"
    and len: "length (sshd_line accepted meth invalid user w) \<le> maxMessage"
    and inv: "invalid \<longrightarrow> \<not> accepted" "\<not> invalid \<longrightarrow> take 13 (user @ '' from '' @ w) \<noteq> ''invalid user ''"
  shows "parse_attempt pa (sshd_line accepted meth invalid user w) =
     (let found = \<lparr>at_accepted = accepted, at_method = meth, at_invalid = invalid,
            at_placed = False, at_user = [], at_address = None, at_port = 0\<rparr>;
          rest = user @ '' from '' @ w
      in Some (case places_from pa rest kind 0 of
           [q] \<Rightarrow> found\<lparr>at_placed := True, at_user := bounded_text (take (pl_at q) rest) maxUser,
                    at_address := pl_address q, at_port := pl_port q\<rparr>
         | _ \<Rightarrow> found))"
proof -
  let ?rest = "user @ '' from '' @ w"
  let ?pre = "if invalid then ''invalid user '' else []"
  let ?line = "sshd_line accepted meth invalid user w"
  obtain name sub specified where c: "str_Cut ''/'' meth = (name, sub, specified)" by (metis prod_cases3)
  then have k: "map_of methods name = Some kind"
    "\<not> (specified \<and> (name \<noteq> ''keyboard-interactive'' \<or> \<not> MatchString submethod sub))"
    using m by (auto simp: method_ok_def)
  have cut: "str_Cut '' for '' (meth @ '' for '' @ ?pre @ ?rest) = (meth, ?pre @ ?rest, True)"
    using str_Cut_append [OF method_ok_space [OF m], of "''for ''" "?pre @ ?rest"] by simp
  have l13: "length ''invalid user '' = 13" by simp
  have i: "CutPrefix ''invalid user '' (?pre @ ?rest) = (?rest, invalid)"
    using inv(2) unfolding CutPrefix_def l13 by auto
  have nb: "\<not> (length ?line > maxMessage \<or> \<not> printable ?line)" using p len by auto
  have ni: "\<not> (accepted \<and> invalid)" using inv(1) by blast
  have "parse_attempt pa ?line = parse_decided pa accepted (meth @ '' for '' @ ?pre @ ?rest)"
    unfolding parse_attempt_def if_not_P [OF nb] by (simp add: sshd_line_def CutPrefix_def)
  then show ?thesis unfolding parse_decided_def cut c k(1) i prod.case option.case
    using k(2) ni by (simp only: if_False simp_thms Let_def)
qed

text \<open>What a text bounded to so many bytes is.\<close>

lemma rune_bytes_le: "rune_bytes s \<le> length s"
  by (cases s rule: rune_bytes.cases) auto

lemma to_valid_ascii: "list_all (byte_in 0 127) s \<Longrightarrow> to_valid bad s = s"
proof (induction s arbitrary: bad)
  case (Cons c s)
  have "rune_bytes (c # s) = 1" using Cons.prems by (cases "c # s" rule: rune_bytes.cases) auto
  then show ?case using Cons by simp
qed simp

lemma rune_cut_le: "rune_cut s n \<le> n"
  by (induction n) auto

lemma bounded_text_le: "length (bounded_text s most) \<le> most"
  using rune_cut_le [of "ToValidUTF8 s" most] by (simp add: bounded_text_def Let_def min_def)

lemma bounded_text_ascii:
  assumes "list_all (byte_in 0 127) s"
  shows "bounded_text s most = take most s"
proof -
  have v: "ToValidUTF8 s = s" using to_valid_ascii [OF assms] by (simp add: ToValidUTF8_def)
  have "rune_cut s most = most" if "most < length s"
    using that assms by (cases most) (auto simp: RuneStart_def byte_in_def list_all_length)
  then show ?thesis by (auto simp: bounded_text_def v)
qed

lemma printable_ascii: "printable s \<Longrightarrow> list_all (byte_in 0 127) s"
  by (auto simp: printable_def list_all_iff byte_in_def)

text \<open>
  The place is the one sshd wrote, or none: whatever the client chose as the user and however it is
  described, no other place is taken for it.
\<close>

lemma parse_place:
  fixes pa :: "string \<Rightarrow> 'a option"
  assumes m: "method_ok meth kind" and p: "printable (sshd_line accepted meth invalid user w)"
    and len: "length (sshd_line accepted meth invalid user w) \<le> maxMessage"
    and inv: "invalid \<longrightarrow> \<not> accepted" "\<not> invalid \<longrightarrow> take 13 (user @ '' from '' @ w) \<noteq> ''invalid user ''"
    and w: "w = place_text address digits said" "address \<noteq> []" "CHR '' '' \<notin> set address" "digits_ok digits" "said_ok kind said"
  shows "\<exists>a. parse_attempt pa (sshd_line accepted meth invalid user w) = Some a
     \<and> at_accepted a = accepted \<and> at_method a = meth \<and> at_invalid a = invalid
     \<and> (at_placed a \<longrightarrow> at_user a = take maxUser user
          \<and> at_address a = (if length address \<le> maxAddress then pa address else None)
          \<and> at_port a = of_nat (digits_value digits))
     \<and> (at_placed a \<longleftrightarrow> (\<forall>i. i \<noteq> length user \<longrightarrow> place_at pa (user @ '' from '' @ w) kind i = None))
     \<and> (\<not> at_placed a \<longrightarrow> at_user a = [] \<and> at_address a = None)"
proof -
  let ?rest = "user @ '' from '' @ w" and ?i = "length user"
  let ?q = "\<lparr>pl_at = ?i, pl_address = (if length address \<le> maxAddress then pa address else None),
     pl_port = of_nat (digits_value digits)\<rparr>"
  have q: "place_at pa ?rest kind ?i = Some ?q"
    using place_fits_text [OF w(2-5), of pa] w(1) by (simp add: place_at_def)
  have i: "?i < length ?rest" by simp
  have u: "list_all (byte_in 0 127) user"
    using printable_ascii [OF p] by (simp add: sshd_line_def split: if_splits)
  have single: "places_from pa ?rest kind 0 = [?q] \<longleftrightarrow> (\<forall>j. j \<noteq> ?i \<longrightarrow> place_at pa ?rest kind j = None)"
  proof
    assume one: "places_from pa ?rest kind 0 = [?q]"
    have "j = ?i" if "place_at pa ?rest kind j = Some x" for j x
      using only_place(2) [OF one that] by simp
    then show "\<forall>j. j \<noteq> ?i \<longrightarrow> place_at pa ?rest kind j = None" by (metis not_Some_eq)
  next
    assume none: "\<forall>j. j \<noteq> ?i \<longrightarrow> place_at pa ?rest kind j = None"
    have "[0..<length ?rest] = [0..<?i] @ ?i # [Suc ?i..<length ?rest]"
      using i by (intro upt_split) simp_all
    moreover have "List.map_filter (place_at pa ?rest kind) [0..<?i] = []"
      by (rule map_filter_none) (metis none atLeastLessThan_iff set_upt less_irrefl)
    moreover have "List.map_filter (place_at pa ?rest kind) [Suc ?i..<length ?rest] = []"
      by (rule map_filter_none) (metis none atLeastLessThan_iff set_upt Suc_n_not_le_n)
    ultimately show "places_from pa ?rest kind 0 = [?q]"
      using q unfolding places_from_all by (simp add: map_filter_append)
  qed
  have only: "x = ?q" if "places_from pa ?rest kind 0 = [x]" for x using only_place(1) [OF that q] .
  note e = parse_sshd_line [OF m p len inv, of pa]
  show ?thesis
  proof (cases "places_from pa ?rest kind 0 = [?q]")
    case True
    then show ?thesis unfolding e Let_def using single bounded_text_ascii [OF u] by simp
  next
    case False
    then have "\<not> (\<exists>x. places_from pa ?rest kind 0 = [x])" using only by blast
    then have "(case places_from pa ?rest kind 0 of [x] \<Rightarrow> f x | _ \<Rightarrow> g) = g" for f and g :: "'a auth_attempt"
      by (auto split: list.splits)
    then show ?thesis unfolding e Let_def using single False by simp
  qed
qed

end
