(* ===== verification/Spool_Base.thy ===== *)
theory Spool_Base
  imports Prelude
begin

text \<open>
  The vocabulary of \<open>internal/spool\<close>: streams and their share of the budget, the
  limits, the sentinel errors, and the files the spool reads. A \<open>Stream\<close> is a byte,
  as in the source, since it is read back from files that may hold any byte.
\<close>

type_synonym stream = byte

definition Events :: stream where "Events = 1"
definition Inventory :: stream where "Inventory = 2"
definition Assessments :: stream where "Assessments = 3"

definition streams :: "stream list" where
  "streams = [Events, Inventory, Assessments]"

text \<open>The part of the budget a stream may hold, as a fraction.\<close>

definition share :: "stream \<Rightarrow> int \<times> int" where
  "share s = (if s = Inventory then (1, 2) else if s = Assessments then (1, 16) else (7, 8))"

abbreviation MaxIDBytes :: nat where "MaxIDBytes \<equiv> 255"
abbreviation MaxPayloadBytes :: nat where "MaxPayloadBytes \<equiv> 8388608"
abbreviation reserved :: int where "reserved \<equiv> 65536"
abbreviation minFree :: int where "minFree \<equiv> 67108864"
abbreviation minSegmentBytes :: int where "minSegmentBytes \<equiv> 1048576"
abbreviation maxSegmentBytes :: int where "maxSegmentBytes \<equiv> 67108864"
abbreviation segmentsPerLoad :: int where "segmentsPerLoad \<equiv> 16"

definition expiryInterval :: duration where
  "expiryInterval = Minute"

text \<open>
  The sentinels of \<open>spool.go\<close> and \<open>ledger.go\<close>, the ones of the standard library the
  spool tells apart, and \<open>Fault\<close> for any other failure of the host.
\<close>

datatype sentinel =
    ErrFull | ErrUnavailable | ErrRefused | ErrDamaged | ErrNewer | ErrInsecure | ErrLocked
  | ErrClosed | errUnreadable | EOF | ErrNotExist | ErrExist | ENOSPC | EDQUOT | ErrUnsupported
  | Fault

type_synonym error = "sentinel err"

text \<open>
  A file as \<open>io.ReaderAt\<close>: what it holds, and where the host fails to read it.
  \<open>ReadAt\<close> returns what it read and the error, \<open>EOF\<close> when the file ends first.
\<close>

record reader =
  content :: "byte list"
  faulty :: "nat \<Rightarrow> nat \<Rightarrow> error option"

definition ReadAt :: "reader \<Rightarrow> nat \<Rightarrow> nat \<Rightarrow> byte list \<times> error option" where
  "ReadAt f n at =
     (case faulty f at n of
        Some e \<Rightarrow> ([], Some e)
      | None \<Rightarrow> (take n (drop at (content f)),
                if at + n \<le> length (content f) then None else Some [EOF]))"

text \<open>A file the host reads without failing.\<close>

definition sound_file :: "reader \<Rightarrow> bool" where
  "sound_file f \<longleftrightarrow> faulty f = (\<lambda>_ _. None)"

definition plain_file :: "byte list \<Rightarrow> reader" where
  "plain_file bs = \<lparr>content = bs, faulty = (\<lambda>_ _. None)\<rparr>"

lemma sound_plain_file [simp]: "sound_file (plain_file bs)"
  by (simp add: sound_file_def plain_file_def)

lemma content_plain_file [simp]: "content (plain_file bs) = bs"
  by (simp add: plain_file_def)

lemma ReadAt_whole:
  "ReadAt f n at = (bs, None) \<Longrightarrow>
     bs = take n (drop at (content f)) \<and> length bs = n \<and> at + n \<le> length (content f)"
  by (auto simp: ReadAt_def split: option.splits if_splits)

lemma ReadAt_sound:
  "sound_file f \<Longrightarrow> at + n \<le> length (content f) \<Longrightarrow>
     ReadAt f n at = (take n (drop at (content f)), None)"
  by (simp add: ReadAt_def sound_file_def)

lemma share_cases [simp]:
  "share Events = (7, 8)" "share Inventory = (1, 2)" "share Assessments = (1, 16)"
  by (simp_all add: share_def Events_def Inventory_def Assessments_def)

lemma distinct_streams [simp]:
  "Events \<noteq> Inventory" "Events \<noteq> Assessments" "Inventory \<noteq> Assessments"
  "Inventory \<noteq> Events" "Assessments \<noteq> Events" "Assessments \<noteq> Inventory"
  by (simp_all add: Events_def Inventory_def Assessments_def)

end
