(* ===== verification/Auth_Event.thy ===== *)
theory Auth_Event
  imports Auth_Sshd Protocol_Batch Spool_Base
begin

unbundle bit_operations_syntax

text \<open>
  What the authentication module makes of an entry of the journal,
  \<open>internal/modules/authentication/event.go\<close>, how \<open>internal/platform/journal/journal.go\<close> reads an entry
  and where a reading starts. The digest, the encoding of a message, addresses and the values of a
  JSON object are arguments.
\<close>

section \<open>Entries of the journal\<close>

record journal_entry =
  en_Cursor :: string
  en_Realtime :: time
  en_Fields :: "string \<Rightarrow> string option"

definition entry_field :: "journal_entry \<Rightarrow> string \<Rightarrow> string" where
  "entry_field e name = (case en_Fields e name of None \<Rightarrow> [] | Some v \<Rightarrow> v)"

definition hex_char :: pattern where
  "hex_char = POne (\<lambda>c. byte_in 48 57 c \<or> byte_in 97 102 c)"

definition cursorPattern :: pattern where
  "cursorPattern = pat_seq [pat_text ''s='', pat_times 32 hex_char, pat_text '';i='', PThen hex_char (pat_upto 15 hex_char),
     pat_text '';b='', pat_times 32 hex_char, pat_text '';m='', PThen hex_char (pat_upto 15 hex_char),
     pat_text '';t='', PThen hex_char (pat_upto 15 hex_char), pat_text '';x='', PThen hex_char (pat_upto 15 hex_char)]"

definition journal_Cursor :: "string \<Rightarrow> bool" where
  "journal_Cursor s = MatchString cursorPattern s"

text \<open>\<open>strconv.ParseInt(s, 10, 64)\<close>.\<close>

definition ParseInt :: "string \<Rightarrow> int option" where
  "ParseInt s =
     (let negative = (s \<noteq> [] \<and> hd s = CHR ''-'');
          ds = (if negative \<or> s \<noteq> [] \<and> hd s = CHR ''+'' then tl s else s)
      in if ds = [] \<or> \<not> list_all is_digit ds then None
         else if negative then (if digits_value ds \<le> 2 ^ 63 then Some (- int (digits_value ds)) else None)
         else if digits_value ds < 2 ^ 63 then Some (int (digits_value ds)) else None)"

definition UnixMicro :: "int \<Rightarrow> time" where "UnixMicro micros = micros * 1000"

text \<open>
  \<open>decode\<close>: \<open>texts\<close> and \<open>values\<close> are what \<open>text\<close> and \<open>value\<close> find under a name of the object that was
  read; \<open>None\<close> is an entry that cannot be read.
\<close>

definition journal_decode ::
  "string list \<Rightarrow> (string \<Rightarrow> string option) \<Rightarrow> (string \<Rightarrow> string option) \<Rightarrow> journal_entry option" where
  "journal_decode wanted texts values =
     (case texts ''__CURSOR'' of
        None \<Rightarrow> None
      | Some cursor \<Rightarrow>
          if \<not> journal_Cursor cursor then None
          else case Option.bind (texts ''__REALTIME_TIMESTAMP'') ParseInt of
            None \<Rightarrow> None
          | Some micros \<Rightarrow>
              if micros \<le> 0 then None
              else Some \<lparr>en_Cursor = cursor, en_Realtime = UnixMicro micros,
                en_Fields = (\<lambda>name. if name \<in> set wanted then values name else None)\<rparr>)"

record journal_position =
  jp_Cursor :: string
  jp_Since :: time
  jp_Last :: int

definition MaxLast :: int where "MaxLast = 10000"

text \<open>\<open>argument\<close>: how journalctl is told where to start; \<open>None\<close> is an error.\<close>

datatype journal_start = Lines int | At_cursor string | Since_micros int

definition journal_argument :: "journal_position \<Rightarrow> journal_start option" where
  "journal_argument p =
     (if length (filter id [jp_Cursor p \<noteq> [], jp_Since p \<noteq> zero_time, jp_Last p \<noteq> 0]) > 1 then None
      else if jp_Last p < 0 \<or> jp_Last p > MaxLast then None
      else if jp_Last p > 0 then Some (Lines (jp_Last p))
      else if jp_Cursor p \<noteq> [] then
        (if journal_Cursor (jp_Cursor p) then Some (At_cursor (jp_Cursor p)) else None)
      else if jp_Since p \<noteq> zero_time then
        (if jp_Since p div 1000 < 0 then None else Some (Since_micros (jp_Since p div 1000)))
      else None)"

lemma journal_decode_ok:
  "journal_decode wanted texts values = Some e \<Longrightarrow> journal_Cursor (en_Cursor e) \<and> 0 < en_Realtime e"
  by (auto simp: journal_decode_def UnixMicro_def split: option.splits if_splits)

section \<open>Events\<close>

definition auth_Name :: string where "auth_Name = ''authentication''"
definition maxRaw :: nat where "maxRaw = 4096"
definition maxHostname :: nat where "maxHostname = 255"
definition auth_commands :: "string list" where "auth_commands = [''sshd'', ''sshd-session'']"

datatype outcome_code = OUTCOME_FAILURE | OUTCOME_SUCCESS

text \<open>The fields of the message that are not the same in every event.\<close>

record auth_event =
  ev_EventId :: string
  ev_EventTime :: time
  ev_ObservedTime :: time
  ev_Hostname :: string
  ev_Architecture :: string
  ev_Source :: string
  ev_Outcome :: outcome_code
  ev_OutcomeReason :: string
  ev_Method :: string
  ev_User :: "string option"
  ev_Endpoint :: "(string \<times> u32) option"
  ev_RawRecord :: string

text \<open>\<open>ou_text\<close> is \<open>netip.Addr.String\<close> and \<open>ou_arch\<close> is \<open>runtime.GOARCH\<close>.\<close>

record 'a auth_libs =
  ou_sha :: "string \<Rightarrow> byte list"
  ou_addr :: "string \<Rightarrow> 'a option"
  ou_text :: "'a \<Rightarrow> string"
  ou_marshal :: "auth_event \<Rightarrow> byte list option"
  ou_arch :: string

definition identify :: "'a auth_libs \<Rightarrow> string \<Rightarrow> string \<Rightarrow> string" where
  "identify lb installation cursor =
     (let sum = ou_sha lb (''seagull-agent/'' @ auth_Name @ [CHR 0x00] @ installation @ [CHR 0x00] @ cursor);
          sum = sum[6 := (sum ! 6 AND 0x0f) OR 0x80];
          sum = sum[8 := (sum ! 8 AND 0x3f) OR 0x80];
          slice = (\<lambda>a b. EncodeToString (take (b - a) (drop a sum)))
      in slice 0 4 @ ''-'' @ slice 4 6 @ ''-'' @ slice 6 8 @ ''-'' @ slice 8 10 @ ''-'' @ slice 10 16)"

datatype observation = Unrelated | Aged | Observed "byte list" string

definition happened_at :: "journal_entry \<Rightarrow> time" where
  "happened_at e =
     (case ParseInt (entry_field e ''_SOURCE_REALTIME_TIMESTAMP'') of
        None \<Rightarrow> en_Realtime e
      | Some micros \<Rightarrow> if micros > 0 then UnixMicro micros else en_Realtime e)"

definition event_of :: "'a auth_libs \<Rightarrow> string \<Rightarrow> journal_entry \<Rightarrow> 'a auth_attempt \<Rightarrow> auth_event" where
  "event_of lb installation e found =
     \<lparr>ev_EventId = identify lb installation (en_Cursor e),
      ev_EventTime = happened_at e, ev_ObservedTime = en_Realtime e,
      ev_Hostname = bounded_text (entry_field e ''_HOSTNAME'') maxHostname, ev_Architecture = ou_arch lb,
      ev_Source = ''journal:'' @ entry_field e ''_COMM'',
      ev_Outcome = (if at_accepted found then OUTCOME_SUCCESS else OUTCOME_FAILURE),
      ev_OutcomeReason = (if at_invalid found then ''invalid user'' else []),
      ev_Method = at_method found,
      ev_User = (if at_user found \<noteq> [] then Some (at_user found) else None),
      ev_Endpoint = map_option (\<lambda>a. (ou_text lb a, at_port found)) (at_address found),
      ev_RawRecord = bounded_text (entry_field e ''MESSAGE'') maxRaw\<rparr>"

definition observe :: "'a auth_libs \<Rightarrow> string \<Rightarrow> journal_entry \<Rightarrow> time \<Rightarrow> observation" where
  "observe lb installation e t =
     (if entry_field e ''_UID'' \<noteq> ''0'' \<or> entry_field e ''_COMM'' \<notin> set auth_commands then Unrelated
      else case parse_attempt (ou_addr lb) (entry_field e ''MESSAGE'') of
        None \<Rightarrow> Unrelated
      | Some found \<Rightarrow>
          if happened_at e < t - MaxEventAge \<or> en_Realtime e < t - MaxEventAge then Aged
          else case ou_marshal lb (event_of lb installation e found) of
            None \<Rightarrow> Unrelated
          | Some payload \<Rightarrow> Observed payload (identify lb installation (en_Cursor e)))"

lemma observe_again:
  assumes "observe lb installation e t = Observed p i" "observe lb installation e u = Observed q j"
  shows "p = q \<and> i = j"
  using assms by (auto simp: observe_def split: if_splits option.splits)

text \<open>An event comes only from a line sshd wrote as the superuser, and was not too old.\<close>

lemma observed_from:
  assumes "observe lb installation e t = Observed p i"
  shows "entry_field e ''_UID'' = ''0''" "entry_field e ''_COMM'' \<in> set auth_commands"
    "\<exists>found. parse_attempt (ou_addr lb) (entry_field e ''MESSAGE'') = Some found
       \<and> ou_marshal lb (event_of lb installation e found) = Some p"
    "i = identify lb installation (en_Cursor e)" "t - MaxEventAge \<le> en_Realtime e"
  using assms by (auto simp: observe_def split: if_splits option.splits)

end
