(* ===== verification/Crc32.thy ===== *)
theory Crc32
  imports Prelude
begin

text \<open>
  The part of Go's \<open>hash/crc32\<close> the spool checks its files with: the reflected
  Castagnoli polynomial, the table of one step per byte value, and
  \<open>crc32.Update\<close> over a byte slice. The sources call it as
  \<open>checksum\<close> (\<open>internal/spool/frame.go\<close>) and \<open>crc32.Update\<close>.
\<close>

definition Castagnoli :: u32 where
  "Castagnoli = 0x82f63b78"

definition crc_shift :: "u32 \<Rightarrow> u32" where
  "crc_shift c = (if bit c 0 then drop_bit 1 c XOR Castagnoli else drop_bit 1 c)"

definition crc_table :: "byte \<Rightarrow> u32" where
  "crc_table i = (crc_shift ^^ 8) (ucast i)"

definition crc_byte :: "u32 \<Rightarrow> byte \<Rightarrow> u32" where
  "crc_byte c v = crc_table (ucast c XOR v) XOR drop_bit 8 c"

definition crc_Update :: "u32 \<Rightarrow> byte list \<Rightarrow> u32" where
  "crc_Update c p = NOT (foldl crc_byte (NOT c) p)"

definition checksum :: "byte list \<Rightarrow> u32" where
  "checksum content = crc_Update 0 content"

text \<open>Updating over two slices in turn is updating over both joined, so a chunked sum is the sum.\<close>

lemma crc_Update_append: "crc_Update (crc_Update c p) q = crc_Update c (p @ q)"
  by (simp add: crc_Update_def)

lemma crc_Update_Nil [simp]: "crc_Update c [] = c"
  by (simp add: crc_Update_def)

lemma checksum_append: "crc_Update (checksum p) q = checksum (p @ q)"
  by (simp add: checksum_def crc_Update_append)

end
