(* ===== verification/Frame.thy ===== *)
theory Frame
  imports Spool_Base Crc32
begin

text \<open>
  The on-disk codec of \<open>internal/spool/frame.go\<close>: the header a segment starts with and
  the header every record is framed in. The lemmas show that what is encoded decodes to
  itself, and that a frame header that decodes is, byte for byte, the one the encoder
  writes for the record it describes.
\<close>

abbreviation segmentFormat :: u16 where "segmentFormat \<equiv> 1"
abbreviation segmentHeaderBytes :: nat where "segmentHeaderBytes \<equiv> 20"
abbreviation frameHeaderBytes :: nat where "frameHeaderBytes \<equiv> 32"
abbreviation sectorBytes :: nat where "sectorBytes \<equiv> 512"
abbreviation chunkBytes :: nat where "chunkBytes \<equiv> 65536"
abbreviation maxSequence :: u64 where "maxSequence \<equiv> 4611686018427387904"

definition segmentMagic :: "byte list" where
  "segmentMagic = [0x53, 0x47, 0x53, 0x47]"

definition frameMagic :: "byte list" where
  "frameMagic = [0x53, 0x52]"

section \<open>The segment header\<close>

definition encodeSegmentHeader :: "stream \<Rightarrow> u64 \<Rightarrow> byte list" where
  "encodeSegmentHeader s first =
     (let header = segmentMagic;
          header = AppendUint16 header segmentFormat;
          header = header @ [s, 0];
          header = AppendUint64 header first
      in AppendUint32 header (checksum header))"

record segmentHeader =
  sh_format :: u16
  sh_stream :: stream
  sh_first :: u64

definition decodeSegmentHeader :: "byte list \<Rightarrow> segmentHeader option" where
  "decodeSegmentHeader header =
     (if length header < segmentHeaderBytes
         \<or> take (length segmentMagic) header \<noteq> segmentMagic then None
      else
        let described = \<lparr>sh_format = Uint16 (drop 4 header), sh_stream = header ! 6,
                         sh_first = Uint64 (drop 8 header)\<rparr>
        in if sh_format described > segmentFormat then Some described
           else if sh_format described \<noteq> segmentFormat \<or> header ! 7 \<noteq> 0 then None
           else if Uint32 (drop 16 header) \<noteq> checksum (take 16 header) then None
           else Some described)"

section \<open>The frame header\<close>

record frame =
  offset :: nat
  sequence :: u64
  admitted :: int
  idBytes :: nat
  payload :: nat
  frame_sum :: u32

definition frame_size :: "frame \<Rightarrow> nat" where
  "frame_size f = frameHeaderBytes + idBytes f + payload f"

definition encodeFrameHeader ::
  "stream \<Rightarrow> u64 \<Rightarrow> int \<Rightarrow> byte list \<Rightarrow> byte list \<Rightarrow> byte list" where
  "encodeFrameHeader s seq adm ident pl =
     (let header = frameMagic;
          header = header @ [s, of_nat (length ident)];
          header = AppendUint32 header (of_nat (length pl));
          header = AppendUint64 header seq;
          header = AppendUint64 header (word_of_int adm);
          header = AppendUint32 header (crc_Update (checksum ident) pl)
      in AppendUint32 header (checksum header))"

definition decodeFrameHeader :: "stream \<Rightarrow> byte list \<Rightarrow> nat \<Rightarrow> frame option" where
  "decodeFrameHeader s header off =
     (if take (length frameMagic) header \<noteq> frameMagic \<or> header ! 2 \<noteq> s
         \<or> Uint32 (drop 28 header) \<noteq> checksum (take 28 header) then None
      else
        let found = \<lparr>offset = off, sequence = Uint64 (drop 8 header),
                     admitted = sint (Uint64 (drop 16 header)),
                     idBytes = unat (header ! 3), payload = unat (Uint32 (drop 4 header)),
                     frame_sum = Uint32 (drop 24 header)\<rparr>
        in if sequence found = 0 \<or> sequence found > maxSequence \<or> idBytes found = 0
              \<or> payload found = 0 \<or> payload found > MaxPayloadBytes then None
           else Some found)"

text \<open>What one record occupies in a segment: its header, its identifier and its payload.\<close>

definition frameBytes ::
  "stream \<Rightarrow> u64 \<Rightarrow> int \<Rightarrow> byte list \<Rightarrow> byte list \<Rightarrow> byte list" where
  "frameBytes s seq adm ident pl = encodeFrameHeader s seq adm ident pl @ ident @ pl"

text \<open>What \<open>encodeFrameHeader\<close> can describe, and \<open>admit\<close> checks before it writes.\<close>

definition writable :: "u64 \<Rightarrow> int \<Rightarrow> byte list \<Rightarrow> byte list \<Rightarrow> bool" where
  "writable seq adm ident pl \<longleftrightarrow>
     0 < seq \<and> seq \<le> maxSequence \<and> - (2 ^ 63) \<le> adm \<and> adm < 2 ^ 63 \<and>
     ident \<noteq> [] \<and> length ident \<le> MaxIDBytes \<and> pl \<noteq> [] \<and> length pl \<le> MaxPayloadBytes"

section \<open>Lengths\<close>

lemma length_magic [simp]:
  "length segmentMagic = 4" "length frameMagic = 2"
  by (simp_all add: segmentMagic_def frameMagic_def)

lemma length_encodeSegmentHeader [simp]: "length (encodeSegmentHeader s f) = 20"
  by (simp add: encodeSegmentHeader_def Let_def)

lemma length_encodeFrameHeader [simp]: "length (encodeFrameHeader s seq adm ident pl) = 32"
  by (simp add: encodeFrameHeader_def Let_def)

lemma length_frameBytes [simp]:
  "length (frameBytes s seq adm ident pl) = 32 + length ident + length pl"
  by (simp add: frameBytes_def)

lemma writable_words:
  assumes "writable seq adm ident pl"
  shows "unat (of_nat (length ident) :: byte) = length ident"
    and "unat (of_nat (length pl) :: u32) = length pl"
    and "sint (word_of_int adm :: u64) = adm"
  using assms by (simp_all add: writable_def unat_of_nat sint_sbintrunc' signed_take_bit_int_eq_self)

section \<open>Round trips\<close>

lemma decode_encode_segment_header:
  "decodeSegmentHeader (encodeSegmentHeader s f) =
     Some \<lparr>sh_format = segmentFormat, sh_stream = s, sh_first = f\<rparr>"
  by (simp add: decodeSegmentHeader_def encodeSegmentHeader_def segmentMagic_def append_defs
      codec_simps Let_def nth_append)

lemma decode_encode_frame_header:
  assumes "writable seq adm ident pl"
  shows "decodeFrameHeader s (encodeFrameHeader s seq adm ident pl) off =
     Some \<lparr>offset = off, sequence = seq, admitted = adm, idBytes = length ident,
           payload = length pl, frame_sum = checksum (ident @ pl)\<rparr>"
proof -
  have "0 < length ident" "0 < length pl" "length pl \<le> MaxPayloadBytes" "seq \<noteq> 0" "\<not> maxSequence < seq"
    using assms by (auto simp: writable_def)
  then show ?thesis
    using writable_words [OF assms]
    by (simp add: decodeFrameHeader_def encodeFrameHeader_def frameMagic_def append_defs
        codec_simps Let_def checksum_append)
qed

lemma decodeFrameHeader_SomeD:
  assumes "decodeFrameHeader s header off = Some f"
  shows "take 2 header = frameMagic" "header ! 2 = s"
    "Uint32 (drop 28 header) = checksum (take 28 header)"
    "f = \<lparr>offset = off, sequence = Uint64 (drop 8 header),
          admitted = sint (Uint64 (drop 16 header)),
          idBytes = unat (header ! 3), payload = unat (Uint32 (drop 4 header)),
          frame_sum = Uint32 (drop 24 header)\<rparr>"
    "0 < sequence f" "sequence f \<le> maxSequence" "0 < idBytes f" "idBytes f \<le> MaxIDBytes"
    "0 < payload f" "payload f \<le> MaxPayloadBytes"
  using assms unsigned_less [of "header ! 3", where 'a = nat]
  by (auto simp: decodeFrameHeader_def Let_def word_neq_0_conv split: if_splits)

lemma slices_of_32:
  assumes "length (h :: byte list) = 32"
  shows "h = take 2 h @ [h ! 2, h ! 3] @ take 4 (drop 4 h) @ take 8 (drop 8 h)
             @ take 8 (drop 16 h) @ take 4 (drop 24 h) @ take 4 (drop 28 h)"
    and "take 28 h = take 2 h @ [h ! 2, h ! 3] @ take 4 (drop 4 h) @ take 8 (drop 8 h)
             @ take 8 (drop 16 h) @ take 4 (drop 24 h)"
proof -
  have two: "[h ! 2, h ! 3] = take 2 (drop 2 h)"
    using assms by (simp add: numeral_2_eq_2 numeral_3_eq_3 take_Suc_conv_app_nth)
  have join: "take n xs @ take m (drop n xs) = take (n + m) xs" for n m and xs :: "byte list"
    by (simp add: take_add)
  have a: "take 2 h @ take 2 (drop 2 h) = take 4 h" "take 4 h @ take 4 (drop 4 h) = take 8 h"
    "take 8 h @ take 8 (drop 8 h) = take 16 h" "take 16 h @ take 8 (drop 16 h) = take 24 h"
    "take 24 h @ take 4 (drop 24 h) = take 28 h" "take 28 h @ take 4 (drop 28 h) = h"
    using assms by (simp_all add: join)
  show "take 28 h = take 2 h @ [h ! 2, h ! 3] @ take 4 (drop 4 h) @ take 8 (drop 8 h)
             @ take 8 (drop 16 h) @ take 4 (drop 24 h)"
    unfolding two by (simp add: a append_assoc [symmetric] del: append_assoc)
  then show "h = take 2 h @ [h ! 2, h ! 3] @ take 4 (drop 4 h) @ take 8 (drop 8 h)
             @ take 8 (drop 16 h) @ take 4 (drop 24 h) @ take 4 (drop 28 h)"
    using a(6) by (metis append_assoc)
qed

text \<open>
  A header that decodes is the one the encoder writes for any identifier and payload of
  the lengths and the checksum it declares: nothing else verifies as a frame.
\<close>

lemma encode_decode_frame_header:
  assumes len: "length header = 32"
    and dec: "decodeFrameHeader s header off = Some f"
    and ident: "length ident = idBytes f" and pl: "length pl = payload f"
    and sum: "checksum (ident @ pl) = frame_sum f"
  shows "encodeFrameHeader s (sequence f) (admitted f) ident pl = header"
    and "writable (sequence f) (admitted f) ident pl"
proof -
  note d = decodeFrameHeader_SomeD [OF dec]
  have f: "of_nat (length ident) = header ! 3" "of_nat (length pl) = Uint32 (drop 4 header)"
    "sequence f = Uint64 (drop 8 header)" "word_of_int (admitted f) = Uint64 (drop 16 header)"
    "crc_Update (checksum ident) pl = Uint32 (drop 24 header)"
    using ident pl sum by (simp_all add: d(4) checksum_append)
  let ?body = "take 2 header @ [header ! 2, header ! 3] @ take 4 (drop 4 header)
    @ take 8 (drop 8 header) @ take 8 (drop 16 header) @ take 4 (drop 24 header)"
  have "encodeFrameHeader s (sequence f) (admitted f) ident pl
      = ?body @ le_bytes 4 (checksum ?body)"
    using len by (simp add: encodeFrameHeader_def Let_def append_defs f d(1,2) le_bytes_Uint)
  also have "\<dots> = take 28 header @ take 4 (drop 28 header)"
    using len le_bytes_Uint(2) [of "drop 28 header"]
    unfolding slices_of_32(2) [OF len, symmetric] by (simp add: d(3))
  also have "\<dots> = header"
    using len by simp
  finally show "encodeFrameHeader s (sequence f) (admitted f) ident pl = header" .
  show "writable (sequence f) (admitted f) ident pl"
    using d ident pl sint_range_size [of "Uint64 (drop 16 header)"]
    by (auto simp: writable_def word_size)
qed

end
