(* ===== verification/Ledger.thy ===== *)
theory Ledger
  imports Frame "HOL-Library.Multiset"
begin

text \<open>
  \<open>internal/spool/ledger.go\<close>: what a stream has settled, as a watermark and the spans
  above it. The ledger is a canonical representation of a finite set of sequences: the
  lemmas show that \<open>settled\<close>, \<open>count\<close>, \<open>covered\<close> and \<open>settle\<close> compute membership,
  cardinality and union of that set, that the representation stays canonical, and that
  the file format reads back what it wrote and nothing that is not a ledger.
\<close>

abbreviation ledgerFormat :: u16 where "ledgerFormat \<equiv> 2"
abbreviation ledgerHeaderBytes :: nat where "ledgerHeaderBytes \<equiv> 52"
abbreviation firstHeaderBytes :: nat where "firstHeaderBytes \<equiv> 36"
abbreviation spanBytes :: nat where "spanBytes \<equiv> 16"
abbreviation maxLedgerBytes :: nat where "maxLedgerBytes \<equiv> 16777216"

definition ledgerMagic :: "byte list" where
  "ledgerMagic = [0x53, 0x47, 0x4C, 0x47]"

record span =
  span_first :: u64
  span_end :: u64

definition Span :: "u64 \<Rightarrow> u64 \<Rightarrow> span" where
  "Span a b = \<lparr>span_first = a, span_end = b\<rparr>"

record ledger =
  watermark :: u64
  spans :: "span list"
  delivered :: u64
  lost :: u64
  expired :: u64
  quarantined :: u64

text \<open>The zero value of the Go struct.\<close>

definition empty_ledger :: ledger where
  "empty_ledger =
     \<lparr>watermark = 0, spans = [], delivered = 0, lost = 0, expired = 0, quarantined = 0\<rparr>"

section \<open>Operations\<close>

text \<open>The loop of \<open>slices.BinarySearchFunc\<close>, whose comparison is negative before the target.\<close>

function search_loop :: "('a \<Rightarrow> bool) \<Rightarrow> 'a list \<Rightarrow> nat \<Rightarrow> nat \<Rightarrow> nat" where
  "search_loop before xs i j =
     (if i < j then
        let h = (i + j) div 2
        in if before (xs ! h) then search_loop before xs (h + 1) j else search_loop before xs i h
      else i)"
  by pat_completeness auto
termination
  by (relation "measure (\<lambda>(before, xs, i, j). j - i)") auto

declare search_loop.simps [simp del]

definition ledger_settled :: "ledger \<Rightarrow> u64 \<Rightarrow> bool" where
  "ledger_settled l seq =
     (if seq < watermark l then True
      else let found = search_loop (\<lambda>held. span_end held \<le> seq) (spans l) 0 (length (spans l))
           in found < length (spans l) \<and> span_first (spans l ! found) \<le> seq)"

definition ledger_count :: "ledger \<Rightarrow> u64 \<Rightarrow> u64 \<Rightarrow> u64" where
  "ledger_count l first e =
     (if e \<le> first then 0
      else foldl (\<lambda>settled held.
             let low = max (span_first held) first; high = min (span_end held) e
             in if low < high then settled + (high - low) else settled)
           (if watermark l > first then min (watermark l) e - first else 0)
           (spans l))"

definition ledger_highest :: "ledger \<Rightarrow> u64" where
  "ledger_highest l = (if spans l \<noteq> [] then span_end (last (spans l)) else watermark l)"

definition ledger_covered :: "ledger \<Rightarrow> u64" where
  "ledger_covered l = foldl (\<lambda>c held. c + (span_end held - span_first held)) (watermark l) (spans l)"

text \<open>
  The joining loop of \<open>settle\<close>, with the span at the end of \<open>joined\<close> as its first
  argument. In the source \<open>joined\<close> shares its array with \<open>merged\<close> and never grows past
  the element being read, so no element is overwritten before it is read.
\<close>

fun join_from :: "span \<Rightarrow> span list \<Rightarrow> span list" where
  "join_from final [] = [final]"
| "join_from final (held # rest) =
     (if span_first held \<le> span_end final
      then join_from (final\<lparr>span_end := max (span_end final) (span_end held)\<rparr>) rest
      else final # join_from held rest)"

definition join_spans :: "span list \<Rightarrow> span list" where
  "join_spans merged = (case merged of [] \<Rightarrow> [] | h # rest \<Rightarrow> join_from h rest)"

definition ledger_settle :: "ledger \<Rightarrow> span list \<Rightarrow> ledger \<times> u64" where
  "ledger_settle l added =
     (let merged = Span 0 (watermark l) # spans l
                     @ filter (\<lambda>held. span_first held < span_end held) added;
          joined = join_spans (sort_key span_first merged);
          updated = l\<lparr>watermark := span_end (hd joined), spans := tl joined\<rparr>
      in (updated, ledger_covered updated - ledger_covered l))"

text \<open>\<open>consecutive\<close>: the runs of the sequences given, sorted and without repetition.\<close>

fun runs_from :: "span \<Rightarrow> u64 list \<Rightarrow> span list" where
  "runs_from run [] = [run]"
| "runs_from run (seq # rest) =
     (if span_end run = seq then runs_from (run\<lparr>span_end := span_end run + 1\<rparr>) rest
      else run # runs_from (Span seq (seq + 1)) rest)"

definition consecutive :: "u64 list \<Rightarrow> span list" where
  "consecutive sequences =
     (case remdups_adj (sort sequences) of
        [] \<Rightarrow> []
      | seq # rest \<Rightarrow> runs_from (Span seq (seq + 1)) rest)"

section \<open>The file format\<close>

definition encode_spans :: "byte list \<Rightarrow> span list \<Rightarrow> byte list" where
  "encode_spans = foldl (\<lambda>b held. AppendUint64 (AppendUint64 b (span_first held)) (span_end held))"

definition ledger_encode :: "ledger \<Rightarrow> stream \<Rightarrow> byte list" where
  "ledger_encode l s =
     (let b = AppendUint16 ledgerMagic ledgerFormat;
          b = b @ [s, 0];
          b = foldl AppendUint64 b [watermark l, delivered l, lost l, expired l, quarantined l];
          b = AppendUint32 b (of_nat (length (spans l)));
          b = encode_spans b (spans l)
      in AppendUint32 b (checksum b))"

text \<open>The loop that reads the spans, each of which follows what was settled before it.\<close>

fun decode_spans :: "byte list \<Rightarrow> nat \<Rightarrow> u64 \<Rightarrow> error + span list" where
  "decode_spans b 0 bound = Inr []"
| "decode_spans b (Suc n) bound =
     (let held = Span (Uint64 b) (Uint64 (drop 8 b))
      in if span_first held \<le> bound \<or> span_end held \<le> span_first held
            \<or> span_end held > maxSequence + 1
         then Inl [errUnreadable]
         else case decode_spans (drop spanBytes b) n (span_end held) of
                Inl err \<Rightarrow> Inl err
              | Inr rest \<Rightarrow> Inr (held # rest))"

definition decodeLedger :: "stream \<Rightarrow> byte list \<Rightarrow> error + ledger" where
  "decodeLedger s b =
     (if length b < firstHeaderBytes + 4 \<or> take (length ledgerMagic) b \<noteq> ledgerMagic
      then Inl [errUnreadable]
      else
        let written = Uint16 (drop 4 b)
        in if written > ledgerFormat then Inl [ErrNewer]
           else if written \<noteq> 1 \<and> written \<noteq> ledgerFormat then Inl [errUnreadable]
           else
             let header = (if written = 1 then firstHeaderBytes else ledgerHeaderBytes)
             in if length b < header + 4 then Inl [errUnreadable]
                else
                  let body = take (length b - 4) b
                  in if Uint32 (drop (length b - 4) b) \<noteq> checksum body then Inl [errUnreadable]
                     else
                       let n = unat (Uint32 (drop (header - 4) body))
                       in if body ! 6 \<noteq> s \<or> body ! 7 \<noteq> 0 then Inl [errUnreadable]
                          else if length body \<noteq> header + spanBytes * n then Inl [errUnreadable]
                          else
                            let read = \<lparr>watermark = Uint64 (drop 8 body), spans = [],
                                  delivered = Uint64 (drop 16 body), lost = Uint64 (drop 24 body),
                                  expired = (if header = ledgerHeaderBytes
                                             then Uint64 (drop 32 body) else 0),
                                  quarantined = (if header = ledgerHeaderBytes
                                             then Uint64 (drop 40 body) else 0)\<rparr>
                            in if watermark read = 0 \<or> watermark read > maxSequence + 1
                               then Inl [errUnreadable]
                               else case decode_spans (drop header body) n (watermark read) of
                                      Inl err \<Rightarrow> Inl err
                                    | Inr held \<Rightarrow> Inr (read\<lparr>spans := held\<rparr>))"

section \<open>The set a ledger stands for\<close>

definition span_set :: "span \<Rightarrow> u64 set" where
  "span_set x = {span_first x ..< span_end x}"

definition spans_set :: "span list \<Rightarrow> u64 set" where
  "spans_set xs = (\<Union>x \<in> set xs. span_set x)"

definition settled_set :: "ledger \<Rightarrow> u64 set" where
  "settled_set l = {..< watermark l} \<union> spans_set (spans l)"

fun wf_spans :: "u64 \<Rightarrow> span list \<Rightarrow> bool" where
  "wf_spans bound [] = True"
| "wf_spans bound (x # xs) =
     (bound < span_first x \<and> span_first x < span_end x \<and> wf_spans (span_end x) xs)"

definition wf_ledger :: "ledger \<Rightarrow> bool" where
  "wf_ledger l \<longleftrightarrow>
     0 < watermark l \<and> wf_spans (watermark l) (spans l) \<and> ledger_highest l \<le> maxSequence + 1"

section \<open>Facts about spans\<close>

definition spans_top :: "u64 \<Rightarrow> span list \<Rightarrow> u64" where
  "spans_top bound xs = (if xs \<noteq> [] then span_end (last xs) else bound)"

lemma ledger_highest_top: "ledger_highest l = spans_top (watermark l) (spans l)"
  by (simp add: ledger_highest_def spans_top_def)

lemma spans_top_simps [simp]:
  "spans_top b [] = b" "spans_top b (x # xs) = spans_top (span_end x) xs"
  by (simp_all add: spans_top_def)

lemma Span_simps [simp]: "span_first (Span a b) = a" "span_end (Span a b) = b"
  by (simp_all add: Span_def)

lemma spans_set_simps [simp]:
  "spans_set [] = {}" "spans_set (x # xs) = span_set x \<union> spans_set xs"
  "spans_set (xs @ ys) = spans_set xs \<union> spans_set ys"
  by (auto simp: spans_set_def)

lemma spans_set_cong: "set xs = set ys \<Longrightarrow> spans_set xs = spans_set ys"
  by (simp add: spans_set_def)

lemma spans_set_filter:
  "spans_set (filter (\<lambda>x. span_first x < span_end x) xs) = spans_set xs"
  by (force simp: spans_set_def span_set_def intro: order_le_less_trans)

lemma finite_words [simp]: "finite (A :: 'a::len word set)"
  by (rule finite_subset [OF subset_UNIV]) (rule finite)

lemma card_word_interval: "card {a ..< b :: 'a::len word} = unat b - unat a"
proof -
  have "unat ` {a ..< b} = {unat a ..< unat b}"
  proof
    show "{unat a ..< unat b} \<subseteq> unat ` {a ..< b}"
    proof
      fix n assume n: "n \<in> {unat a ..< unat b}"
      have "n < 2 ^ LENGTH('a)"
        by (rule order.strict_trans [of _ "unat b"]) (use n in \<open>auto intro: unsigned_less\<close>)
      then have "unat (of_nat n :: 'a word) = n" by (simp add: unat_of_nat)
      with n show "n \<in> unat ` {a ..< b}"
        by (intro image_eqI [of _ _ "of_nat n"]) (auto simp: unat_order)
    qed
  qed (auto simp: unat_order)
  moreover have "inj_on unat {a ..< b}" by (rule inj_onI) (rule unsigned_word_eqI)
  ultimately show ?thesis using card_image [of unat "{a ..< b}"] by simp
qed

lemma card_word_below: "card {..< b :: 'a::len word} = unat b"
proof -
  have "{..< b} = {0 ..< b}" by auto
  then show ?thesis by (simp add: card_word_interval)
qed

lemma wf_spans_range:
  "wf_spans b xs \<Longrightarrow> b \<le> spans_top b xs \<and> spans_set xs \<subseteq> {b <..< spans_top b xs}"
proof (induction xs arbitrary: b)
  case (Cons x xs)
  then have "span_end x \<le> spans_top (span_end x) xs"
    "spans_set xs \<subseteq> {span_end x <..< spans_top (span_end x) xs}"
    "b < span_first x" "span_first x < span_end x" by auto
  then show ?case by (fastforce simp: span_set_def)
qed simp

lemma wf_spans_disjoint:
  assumes "wf_spans b (x # xs)"
  shows "span_set x \<inter> spans_set xs = {}" "span_end x \<notin> spans_set xs"
  using assms wf_spans_range [of "span_end x" xs] by (fastforce simp: span_set_def)+

lemma wf_spans_weaken: "wf_spans b xs \<Longrightarrow> c \<le> b \<Longrightarrow> wf_spans c xs"
  by (cases xs) auto

lemma wf_spans_member: "wf_spans b xs \<Longrightarrow> x \<in> set xs \<Longrightarrow> b < span_first x \<and> span_first x < span_end x"
  by (induction xs arbitrary: b) fastforce+

text \<open>Adding up what each span contributes counts the set, as long as the sum does not wrap.\<close>

lemma fold_spans_card:
  assumes "wf_spans b xs"
    and "\<And>x. x \<in> set xs \<Longrightarrow> unat (c x :: u64) = card (span_set x \<inter> A)"
    and "unat acc + card (spans_set xs \<inter> A) < 2 ^ 64"
  shows "unat (foldl (\<lambda>n x. n + c x) acc xs) = unat acc + card (spans_set xs \<inter> A)"
  using assms
proof (induction xs arbitrary: acc b)
  case (Cons x xs)
  have "card (spans_set (x # xs) \<inter> A) = card (span_set x \<inter> A) + card (spans_set xs \<inter> A)"
    using wf_spans_disjoint(1) [OF Cons.prems(1)]
    by (simp add: Int_Un_distrib2 card_Un_disjoint disjoint_iff)
  moreover have "unat (acc + c x) = unat acc + card (span_set x \<inter> A)"
    using Cons.prems(2) [of x] Cons.prems(3) calculation by (subst unat_plus) auto
  ultimately show ?case
    using Cons.IH [of "span_end x" "acc + c x"] Cons.prems by simp
qed simp

text \<open>The representation is canonical: the set determines the spans.\<close>

lemma wf_spans_unique:
  "wf_spans b xs \<Longrightarrow> wf_spans b ys \<Longrightarrow> spans_set xs = spans_set ys \<Longrightarrow> xs = ys"
proof (induction xs arbitrary: b ys)
  case Nil
  then show ?case by (cases ys) (auto simp: span_set_def)
next
  case (Cons x xs)
  then obtain y ys' where ys: "ys = y # ys'"
    by (cases ys) (auto simp: span_set_def)
  note wx = Cons.prems(1) and wy = Cons.prems(2) [unfolded ys] and eq = Cons.prems(3) [unfolded ys]
  have rx: "spans_set xs \<subseteq> {span_end x <..}" and ry: "spans_set ys' \<subseteq> {span_end y <..}"
    using wf_spans_range [of "span_end x" xs] wf_spans_range [of "span_end y" ys'] wx wy by auto
  have lt: "span_first x < span_end x" "span_first y < span_end y" using wx wy by auto
  have "span_first y \<le> span_first x" "span_first x \<le> span_first y"
    using eq lt rx ry unfolding span_set_def set_eq_iff subset_iff spans_set_simps Un_iff
      atLeastLessThan_iff greaterThan_iff
    by (metis leD less_le_not_le linorder_linear order_less_trans)+
  then have f: "span_first x = span_first y" by simp
  have "span_end x = span_end y"
  proof (rule ccontr)
    assume "span_end x \<noteq> span_end y"
    then consider "span_end x < span_end y" | "span_end y < span_end x" by fastforce
    then show False
    proof cases
      case 1
      then have "span_end x \<in> span_set y" using f lt by (simp add: span_set_def)
      then show False using eq rx by (auto simp: span_set_def set_eq_iff subset_iff)
    next
      case 2
      then have "span_end y \<in> span_set x" using f lt by (simp add: span_set_def)
      then show False using eq ry by (auto simp: span_set_def set_eq_iff subset_iff)
    qed
  qed
  with f have xy: "x = y" by simp
  have "spans_set xs = spans_set ys'"
    using eq wf_spans_disjoint(1) [OF wx] wf_spans_disjoint(1) [OF wy] xy by auto
  with Cons.IH [of "span_end x" ys'] wx wy xy ys show ?case by simp
qed

section \<open>Searching and counting\<close>

text \<open>Where what comes before the target is a prefix, the search ends right after that prefix.\<close>

lemma search_loop_bound:
  "i \<le> j \<Longrightarrow> j \<le> length xs \<Longrightarrow> \<forall>k < i. before (xs ! k) \<Longrightarrow>
    \<forall>k. j \<le> k \<and> k < length xs \<longrightarrow> \<not> before (xs ! k) \<Longrightarrow>
    \<forall>k m. k \<le> m \<and> m < length xs \<and> before (xs ! m) \<longrightarrow> before (xs ! k) \<Longrightarrow>
    search_loop before xs i j \<le> length xs
    \<and> (\<forall>k < search_loop before xs i j. before (xs ! k))
    \<and> (\<forall>k. search_loop before xs i j \<le> k \<and> k < length xs \<longrightarrow> \<not> before (xs ! k))"
proof (induction before xs i j rule: search_loop.induct)
  case (1 before xs i j)
  let ?h = "(i + j) div 2"
  show ?case
  proof (cases "i < j")
    case False
    then have "search_loop before xs i j = i" by (simp add: search_loop.simps)
    with False "1.prems" show ?thesis by simp
  next
    case True
    then have h: "i \<le> ?h" "?h + 1 \<le> j" by auto
    show ?thesis
    proof (cases "before (xs ! ?h)")
      case b: True
      have "before (xs ! k)" if "k < ?h + 1" for k
      proof -
        have "k \<le> ?h" "?h < length xs" using that h "1.prems"(2) by auto
        with b "1.prems"(5) show ?thesis by blast
      qed
      then have left: "\<forall>k < ?h + 1. before (xs ! k)" by blast
      have eq: "search_loop before xs i j = search_loop before xs (?h + 1) j"
        using True b by (subst search_loop.simps) simp
      show ?thesis
        unfolding eq by (rule "1.IH"(1) [OF True refl b h(2) "1.prems"(2) left "1.prems"(4,5)])
    next
      case b: False
      have right: "\<forall>k. ?h \<le> k \<and> k < length xs \<longrightarrow> \<not> before (xs ! k)" using b "1.prems"(5) by blast
      have eq: "search_loop before xs i j = search_loop before xs i ?h"
        using True b by (subst search_loop.simps) simp
      have "?h \<le> length xs" using h(2) "1.prems"(2) by simp
      then show ?thesis
        unfolding eq by (rule "1.IH"(2) [OF True refl b h(1) _ "1.prems"(3) right "1.prems"(5)])
    qed
  qed
qed

lemma wf_spans_nth:
  "wf_spans b xs \<Longrightarrow> i < j \<Longrightarrow> j < length xs \<Longrightarrow> span_end (xs ! i) < span_first (xs ! j)"
proof (induction xs arbitrary: b i j)
  case (Cons x xs)
  then obtain j' where j: "j = Suc j'" by (cases j) auto
  show ?case
  proof (cases i)
    case 0
    then show ?thesis using Cons.prems j wf_spans_member [of "span_end x" xs "xs ! j'"] by simp
  next
    case (Suc i')
    then show ?thesis using Cons.prems Cons.IH [of "span_end x" i' j'] j by simp
  qed
qed simp

lemma ledger_settled_iff:
  assumes "wf_ledger l"
  shows "ledger_settled l seq \<longleftrightarrow> seq \<in> settled_set l"
proof (cases "seq < watermark l")
  case True
  then show ?thesis by (simp add: ledger_settled_def settled_set_def)
next
  case False
  let ?xs = "spans l" and ?before = "\<lambda>held. span_end held \<le> seq"
  define i where "i = search_loop ?before ?xs 0 (length ?xs)"
  have wf: "wf_spans (watermark l) ?xs" using assms by (simp add: wf_ledger_def)
  have "?before (?xs ! k)" if "k \<le> m" "m < length ?xs" "?before (?xs ! m)" for k m
  proof (cases "k = m")
    case False
    then have "span_end (?xs ! k) < span_first (?xs ! m)" "span_first (?xs ! m) < span_end (?xs ! m)"
      using wf_spans_nth [OF wf, of k m] wf_spans_member [OF wf nth_mem, of m] that by simp_all
    with that(3) show ?thesis by (meson order_less_imp_le order_less_trans order_less_le_trans)
  qed (use that in simp)
  then have prefix: "\<forall>k m. k \<le> m \<and> m < length ?xs \<and> ?before (?xs ! m) \<longrightarrow> ?before (?xs ! k)"
    by blast
  have i: "i \<le> length ?xs" "\<forall>k < i. ?before (?xs ! k)"
    "\<forall>k. i \<le> k \<and> k < length ?xs \<longrightarrow> \<not> ?before (?xs ! k)"
    unfolding i_def
    by (insert search_loop_bound [OF le0 order_refl _ _ prefix], fastforce+)
  have "seq \<in> spans_set ?xs \<longleftrightarrow> (\<exists>k < length ?xs. span_first (?xs ! k) \<le> seq \<and> seq < span_end (?xs ! k))"
    unfolding spans_set_def span_set_def by (simp add: Bex_def in_set_conv_nth) blast
  also have "\<dots> \<longleftrightarrow> i < length ?xs \<and> span_first (?xs ! i) \<le> seq"
  proof
    assume "\<exists>k < length ?xs. span_first (?xs ! k) \<le> seq \<and> seq < span_end (?xs ! k)"
    then obtain k where k: "k < length ?xs" "span_first (?xs ! k) \<le> seq" "seq < span_end (?xs ! k)" by blast
    have "i \<le> k" using i(2) k by (meson leD linorder_not_less)
    moreover have "\<not> i < k"
    proof
      assume "i < k"
      then have "span_end (?xs ! i) < span_first (?xs ! k)" using wf_spans_nth [OF wf] k by blast
      moreover have "\<not> span_end (?xs ! i) \<le> seq" using i(3) \<open>i < k\<close> k by simp
      ultimately show False using k by auto
    qed
    ultimately show "i < length ?xs \<and> span_first (?xs ! i) \<le> seq" using k by auto
  next
    assume "i < length ?xs \<and> span_first (?xs ! i) \<le> seq"
    moreover from this have "seq < span_end (?xs ! i)" using i(3) by (simp add: linorder_not_le)
    ultimately show "\<exists>k < length ?xs. span_first (?xs ! k) \<le> seq \<and> seq < span_end (?xs ! k)" by blast
  qed
  finally show ?thesis
    using False by (simp add: ledger_settled_def settled_set_def i_def Let_def)
qed

lemma wf_ledger_spans: "wf_ledger l \<Longrightarrow> wf_spans (watermark l) (spans l)"
  by (simp add: wf_ledger_def)

lemma settled_set_below:
  assumes "wf_ledger l"
  shows "settled_set l \<subseteq> {..< ledger_highest l}" "card (settled_set l) \<le> 2 ^ 62 + 1"
proof -
  show sub: "settled_set l \<subseteq> {..< ledger_highest l}"
    using assms wf_spans_range [of "watermark l" "spans l"]
    by (fastforce simp: settled_set_def wf_ledger_def ledger_highest_top)
  have "card (settled_set l) \<le> unat (ledger_highest l)"
    using card_mono [OF _ sub] by (simp add: card_word_below)
  also have "\<dots> \<le> 2 ^ 62 + 1"
    using assms by (simp add: wf_ledger_def unat_le_iff)
  finally show "card (settled_set l) \<le> 2 ^ 62 + 1" .
qed

lemma settled_split:
  assumes "wf_ledger l"
  shows "card (settled_set l \<inter> A) = card ({..< watermark l} \<inter> A) + card (spans_set (spans l) \<inter> A)"
proof -
  have "{..< watermark l} \<inter> spans_set (spans l) = {}"
    using assms wf_spans_range [of "watermark l" "spans l"] by (fastforce simp: wf_ledger_def)
  then show ?thesis
    by (simp add: settled_set_def Int_Un_distrib2 card_Un_disjoint disjoint_iff)
qed

lemma unat_ledger_covered:
  assumes "wf_ledger l"
  shows "unat (ledger_covered l) = card (settled_set l)"
proof -
  have "unat (span_end x - span_first x) = card (span_set x \<inter> UNIV)" if "x \<in> set (spans l)" for x
    using wf_spans_member [OF _ that] assms
    by (auto simp: wf_ledger_def span_set_def card_word_interval unat_minus order_less_imp_le)
  moreover have "unat (watermark l) + card (spans_set (spans l) \<inter> UNIV) < 2 ^ 64"
    using settled_split [OF assms, of UNIV] settled_set_below(2) [OF assms] by (simp add: card_word_below)
  ultimately show ?thesis
    using fold_spans_card [of "watermark l" "spans l" "\<lambda>x. span_end x - span_first x" UNIV "watermark l"]
      settled_split [OF assms, of UNIV] assms
    by (simp add: ledger_covered_def wf_ledger_def card_word_below)
qed

lemma unat_ledger_count:
  assumes "wf_ledger l"
  shows "unat (ledger_count l first e) = card (settled_set l \<inter> {first ..< e})"
proof (cases "e \<le> first")
  case True
  then show ?thesis by (simp add: ledger_count_def)
next
  case False
  let ?A = "{first ..< e}"
  define c where "c x = (if max (span_first x) first < min (span_end x) e
    then min (span_end x) e - max (span_first x) first else 0)" for x :: span
  define acc where "acc = (if watermark l > first then min (watermark l) e - first else 0)"
  have interval: "{a ..< b} \<inter> ?A = {max a first ..< min b e}" for a b by auto
  have below: "{..< watermark l} \<inter> ?A = {first ..< min (watermark l) e}" by auto
  have acc: "unat acc = card ({..< watermark l} \<inter> ?A)"
    using False by (auto simp: acc_def below card_word_interval unat_minus unat_order min_def)
  have c: "unat (c x) = card (span_set x \<inter> ?A)" for x
  proof (cases "max (span_first x) first < min (span_end x) e")
    case True
    then show ?thesis
      by (simp only: span_set_def interval card_word_interval c_def)
        (simp add: unat_minus order_less_imp_le)
  next
    case False
    then show ?thesis by (simp only: span_set_def interval c_def) simp
  qed
  have "card (settled_set l \<inter> ?A) \<le> card (settled_set l)" by (rule card_mono) auto
  then have "unat acc + card (spans_set (spans l) \<inter> ?A) < 2 ^ 64"
    using settled_split [OF assms, of ?A] settled_set_below(2) [OF assms] acc by simp
  from fold_spans_card [OF wf_ledger_spans [OF assms] c this]
  have "unat (foldl (\<lambda>n x. n + c x) acc (spans l)) = card (settled_set l \<inter> ?A)"
    using settled_split [OF assms, of ?A] acc by simp
  moreover have "(\<lambda>n x. n + c x) = (\<lambda>settled held.
      let low = max (span_first held) first; high = min (span_end held) e
      in if low < high then settled + (high - low) else settled)"
    by (rule ext)+ (simp add: c_def Let_def)
  ultimately show ?thesis
    using False by (simp add: ledger_count_def acc_def)
qed

section \<open>Settling\<close>

lemma span_eta: "(x :: span) = Span (span_first x) (span_end x)"
  by (simp add: Span_def)

lemma interval_union:
  "a \<le> c \<Longrightarrow> c \<le> b \<Longrightarrow> {a ..< max b d} = {a ..< b} \<union> {c ..< (d :: 'a::linorder)}"
  by (auto simp: max_def)

lemma join_from_canonical:
  assumes "sorted (map span_first (f # xs))"
    and "\<And>x. x \<in> set (f # xs) \<Longrightarrow> span_first x < span_end x \<and> span_end x \<le> M"
  shows "\<exists>e rest. join_from f xs = Span (span_first f) e # rest \<and> span_first f < e \<and> wf_spans e rest
     \<and> spans_top e rest \<le> M \<and> spans_set (join_from f xs) = spans_set (f # xs)"
  using assms
proof (induction f xs rule: join_from.induct)
  case (1 f)
  then show ?case
    by (intro exI [of _ "span_end f"] exI [of _ "[]"]) (simp add: span_eta [symmetric])
next
  case (2 f held rest)
  show ?case
  proof (cases "span_first held \<le> span_end f")
    case True
    let ?f = "f\<lparr>span_end := max (span_end f) (span_end held)\<rparr>"
    have union: "span_set ?f = span_set f \<union> span_set held"
      using True "2.prems"(1) interval_union [of "span_first f" "span_first held" "span_end f" "span_end held"]
      by (simp add: span_set_def)
    have less: "span_first ?f < span_end ?f \<and> span_end ?f \<le> M"
      using "2.prems"(2) [of f] "2.prems"(2) [of held] by (auto simp: less_max_iff_disj)
    have "sorted (map span_first (?f # rest))" using "2.prems"(1) by auto
    moreover have "span_first x < span_end x \<and> span_end x \<le> M" if "x \<in> set (?f # rest)" for x
      using that less "2.prems"(2) [of x] by auto
    ultimately show ?thesis
      using "2.IH"(1) [OF True] True by (simp add: union Un_assoc)
  next
    case False
    then obtain e r where r: "join_from held rest = Span (span_first held) e # r"
      "span_first held < e" "wf_spans e r" "spans_top e r \<le> M"
      "spans_set (join_from held rest) = spans_set (held # rest)"
      using "2.IH"(2) "2.prems" by auto
    show ?thesis
      using False r "2.prems"(2) [of f]
      by (intro exI [of _ "span_end f"] exI [of _ "Span (span_first held) e # r"])
        (simp add: span_eta [symmetric])
  qed
qed

text \<open>
  Joining spans sorted by where they begin gives the canonical form of their union, so the
  order in which an unstable sort leaves spans that begin together does not matter.
\<close>

lemma join_spans_canonical:
  assumes "sorted (map span_first xs)" "Span 0 w \<in> set xs" "0 < w"
    and "\<And>x. x \<in> set xs \<Longrightarrow> span_first x < span_end x \<and> span_end x \<le> M"
  shows "\<exists>e rest. join_spans xs = Span 0 e # rest \<and> 0 < e \<and> wf_spans e rest \<and> spans_top e rest \<le> M
     \<and> {..< e} \<union> spans_set rest = spans_set xs"
proof -
  from assms(2) obtain f ys where xs: "xs = f # ys" by (cases xs) auto
  have "span_first f \<le> 0" using assms(1,2) xs by (auto simp: Span_def)
  then have f: "span_first f = 0" by simp
  obtain e rest where j: "join_from f ys = Span 0 e # rest" "0 < e" "wf_spans e rest" "spans_top e rest \<le> M"
    "spans_set (join_from f ys) = spans_set (f # ys)"
    using join_from_canonical [of f ys M] assms(1,4) xs f by auto
  have "{..< e} = span_set (Span 0 e)" by (auto simp: span_set_def)
  with j xs show ?thesis by (intro exI [of _ e] exI [of _ rest]) (simp add: join_spans_def)
qed

lemma join_spans_perm:
  assumes "sorted (map span_first xs)" "sorted (map span_first ys)" "set xs = set ys"
    and "Span 0 w \<in> set xs" "0 < w" "\<And>x. x \<in> set xs \<Longrightarrow> span_first x < span_end x"
  shows "join_spans xs = join_spans ys"
proof -
  let ?M = "Max (span_end ` set xs)"
  have M: "\<And>x. x \<in> set xs \<Longrightarrow> span_first x < span_end x \<and> span_end x \<le> ?M"
    using assms(6) by simp
  obtain e r where x: "join_spans xs = Span 0 e # r" "0 < e" "wf_spans e r" "{..< e} \<union> spans_set r = spans_set xs"
    using join_spans_canonical [OF assms(1,4,5) M] by blast
  obtain e' r' where y: "join_spans ys = Span 0 e' # r'" "0 < e'" "wf_spans e' r'" "{..< e'} \<union> spans_set r' = spans_set ys"
    using join_spans_canonical [of ys w ?M] assms(2-5) M by metis
  have *: "{..< e} \<union> spans_set r = {..< e'} \<union> spans_set r'"
    using x(4) y(4) spans_set_cong [OF assms(3)] by simp
  have "e \<notin> {..< e} \<union> spans_set r" "e' \<notin> {..< e'} \<union> spans_set r'"
    using wf_spans_range [OF x(3)] wf_spans_range [OF y(3)] by auto
  with * have e: "e = e'" by (metis UnI1 lessThan_iff linorder_neqE)
  have "{..< e} \<inter> spans_set r = {}" "{..< e'} \<inter> spans_set r' = {}"
    using wf_spans_range [OF x(3)] wf_spans_range [OF y(3)] by fastforce+
  with * e have "spans_set r = spans_set r'" by blast
  with wf_spans_unique x(3) y(3) e have "r = r'" by blast
  with x(1) y(1) e show ?thesis by simp
qed

text \<open>What \<open>settle\<close> joins, before it is sorted.\<close>

definition merged_spans :: "ledger \<Rightarrow> span list \<Rightarrow> span list" where
  "merged_spans l added =
     Span 0 (watermark l) # spans l @ filter (\<lambda>held. span_first held < span_end held) added"

lemma merged_spans_set: "spans_set (merged_spans l added) = settled_set l \<union> spans_set added"
  by (auto simp: merged_spans_def settled_set_def spans_set_filter span_set_def)

lemma ledger_highest_member: "wf_ledger l \<Longrightarrow> x \<in> set (spans l) \<Longrightarrow> span_end x \<le> ledger_highest l"
proof -
  have "wf_spans b xs \<Longrightarrow> x \<in> set xs \<Longrightarrow> span_end x \<le> spans_top b xs" for b xs
  proof (induction xs arbitrary: b)
    case (Cons y ys)
    then show ?case using wf_spans_range [of "span_end y" ys] by auto
  qed simp
  then show "wf_ledger l \<Longrightarrow> x \<in> set (spans l) \<Longrightarrow> span_end x \<le> ledger_highest l"
    by (simp add: wf_ledger_def ledger_highest_top)
qed

lemma merged_spans_member:
  assumes "wf_ledger l" "\<And>x. x \<in> set added \<Longrightarrow> span_end x \<le> maxSequence + 1" "x \<in> set (merged_spans l added)"
  shows "span_first x < span_end x \<and> span_end x \<le> maxSequence + 1"
proof -
  have "watermark l \<le> ledger_highest l" "ledger_highest l \<le> maxSequence + 1" "0 < watermark l"
    using assms(1) wf_spans_range [OF wf_ledger_spans [OF assms(1)]]
    by (simp_all add: wf_ledger_def ledger_highest_top)
  with assms show ?thesis
    using wf_spans_member [OF wf_ledger_spans [OF assms(1)]] ledger_highest_member [OF assms(1)]
    by (fastforce simp: merged_spans_def)
qed

lemma ledger_settle_spec:
  assumes wf: "wf_ledger l" and added: "\<And>x. x \<in> set added \<Longrightarrow> span_end x \<le> maxSequence + 1"
  shows "wf_ledger (fst (ledger_settle l added))"
    and "settled_set (fst (ledger_settle l added)) = settled_set l \<union> spans_set added"
    and "unat (snd (ledger_settle l added)) = card (spans_set added - settled_set l)"
proof -
  let ?m = "merged_spans l added"
  let ?l = "fst (ledger_settle l added)"
  have "0 < watermark l" using wf by (simp add: wf_ledger_def)
  moreover have "Span 0 (watermark l) \<in> set (sort_key span_first ?m)"
    unfolding set_sort by (simp add: merged_spans_def)
  moreover have "span_first x < span_end x \<and> span_end x \<le> maxSequence + 1"
    if "x \<in> set (sort_key span_first ?m)" for x
    using merged_spans_member [OF wf added, where x = x] that unfolding set_sort by simp
  ultimately obtain e rest where j: "join_spans (sort_key span_first ?m) = Span 0 e # rest" "0 < e"
    "wf_spans e rest" "spans_top e rest \<le> maxSequence + 1"
    "{..< e} \<union> spans_set rest = spans_set (sort_key span_first ?m)"
    using join_spans_canonical [of "sort_key span_first ?m" "watermark l" "maxSequence + 1"]
    by (metis sorted_sort_key)
  have l: "?l = l\<lparr>watermark := e, spans := rest\<rparr>"
    using j(1) by (simp add: ledger_settle_def Let_def merged_spans_def)
  show wf': "wf_ledger ?l"
    using j by (simp add: l wf_ledger_def ledger_highest_top)
  have "spans_set (sort_key span_first ?m) = spans_set ?m" by (rule spans_set_cong) simp
  then show set: "settled_set ?l = settled_set l \<union> spans_set added"
    using j(5) by (simp add: l settled_set_def [of "l\<lparr>watermark := e, spans := rest\<rparr>"] merged_spans_set)
  have "unat (snd (ledger_settle l added)) = unat (ledger_covered ?l - ledger_covered l)"
    by (simp add: ledger_settle_def Let_def)
  also have "\<dots> = card (settled_set ?l) - card (settled_set l)"
  proof -
    have "card (settled_set l) \<le> card (settled_set ?l)" unfolding set by (rule card_mono) auto
    then have "ledger_covered l \<le> ledger_covered ?l"
      unfolding unat_le_iff unat_ledger_covered [OF wf] unat_ledger_covered [OF wf'] .
    then show ?thesis
      unfolding unat_ledger_covered [OF wf, symmetric] unat_ledger_covered [OF wf', symmetric]
      by (rule unat_minus)
  qed
  also have "\<dots> = card (spans_set added - settled_set l)"
  proof -
    have "settled_set ?l = settled_set l \<union> (spans_set added - settled_set l)" using set by blast
    then have "card (settled_set ?l) = card (settled_set l) + card (spans_set added - settled_set l)"
      by (simp add: card_Un_disjoint del: Un_Diff_cancel)
    then show ?thesis by simp
  qed
  finally show "unat (snd (ledger_settle l added)) = card (spans_set added - settled_set l)" .
qed

lemma ledger_settle_counters [simp]:
  "delivered (fst (ledger_settle l added)) = delivered l" "lost (fst (ledger_settle l added)) = lost l"
  "expired (fst (ledger_settle l added)) = expired l"
  "quarantined (fst (ledger_settle l added)) = quarantined l"
  by (simp_all add: ledger_settle_def Let_def)

section \<open>Runs of sequences\<close>

lemma distinct_remdups_adj_sorted: "sorted xs \<Longrightarrow> distinct (remdups_adj xs)"
  by (induction xs rule: remdups_adj.induct) auto

text \<open>Sequences stay far below where the successor of one wraps.\<close>

lemma sequence_succ:
  assumes "(x :: u64) \<le> maxSequence"
  shows "x < x + 1" "x + 1 \<le> maxSequence + 1" "x < y \<Longrightarrow> x + 1 \<le> y" "y < x + 1 \<longleftrightarrow> y \<le> x"
    and "a \<le> x \<Longrightarrow> {a ..< x + 1} = insert x {a ..< x}"
proof -
  have succ: "unat (x + 1) = unat x + 1" using assms by (simp add: unat_order unat_plus)
  show "x < x + 1" "x + 1 \<le> maxSequence + 1" "x < y \<Longrightarrow> x + 1 \<le> y"
    using assms by (simp_all add: unat_order succ)
  show le: "y < x + 1 \<longleftrightarrow> y \<le> x" for y by (auto simp: unat_order succ)
  show "a \<le> x \<Longrightarrow> {a ..< x + 1} = insert x {a ..< x}"
    by (auto simp: le order.order_iff_strict)
qed

lemma runs_from_spec:
  assumes "sorted_wrt (<) rest" "\<And>x. x \<in> set rest \<Longrightarrow> span_end run \<le> x \<and> x \<le> maxSequence"
    and "span_first run < span_end run" "span_end run \<le> maxSequence + 1"
  shows "spans_set (runs_from run rest) = span_set run \<union> set rest
     \<and> (\<forall>b. b < span_first run \<longrightarrow> wf_spans b (runs_from run rest))
     \<and> (\<forall>x \<in> set (runs_from run rest). span_end x \<le> maxSequence + 1)"
  using assms
proof (induction run rest rule: runs_from.induct)
  case (2 run seq rest)
  have seq: "span_end run \<le> seq" "seq \<le> maxSequence" using "2.prems"(2) [of seq] by auto
  note succ = sequence_succ [OF seq(2)]
  have above: "seq + 1 \<le> x \<and> x \<le> maxSequence" if "x \<in> set rest" for x
    using "2.prems"(1) "2.prems"(2) [of x] that succ(3) by auto
  have sorted: "sorted_wrt (<) rest" using "2.prems"(1) by simp
  show ?case
  proof (cases "span_end run = seq")
    case True
    let ?run = "run\<lparr>span_end := span_end run + 1\<rparr>"
    have "span_set ?run = insert seq (span_set run)"
      using True "2.prems"(3) succ(5) [of "span_first run"] by (simp add: span_set_def)
    moreover have "span_first ?run < span_end ?run" using True succ(1) "2.prems"(3) by simp
    moreover have "span_end ?run \<le> maxSequence + 1" using True succ(2) by simp
    moreover have "span_end ?run \<le> x \<and> x \<le> maxSequence" if "x \<in> set rest" for x
      using above [OF that] True by simp
    ultimately show ?thesis using "2.IH"(1) [OF True sorted] True by simp
  next
    case False
    then have gap: "span_end run < seq" using seq by simp
    have "span_set (Span seq (seq + 1)) = {seq}"
      using succ(5) [of seq] by (simp add: span_set_def)
    then show ?thesis
      using "2.IH"(2) [OF False sorted] False above succ(1,2) gap "2.prems"(3,4) by simp
  qed
qed simp

lemma consecutive_spec:
  assumes "\<And>x. x \<in> set xs \<Longrightarrow> x \<le> maxSequence"
  shows "spans_set (consecutive xs) = set xs"
    and "x \<in> set (consecutive xs) \<Longrightarrow> span_end x \<le> maxSequence + 1"
    and "0 \<notin> set xs \<Longrightarrow> wf_spans 0 (consecutive xs)"
proof -
  let ?s = "remdups_adj (sort xs)"
  have s: "sorted_wrt (<) ?s" "set ?s = set xs"
    by (simp_all add: strict_sorted_iff distinct_remdups_adj_sorted sorted_remdups_adj)
  have "spans_set (consecutive xs) = set xs
     \<and> (\<forall>x \<in> set (consecutive xs). span_end x \<le> maxSequence + 1)
     \<and> (0 \<notin> set xs \<longrightarrow> wf_spans 0 (consecutive xs))"
  proof (cases ?s)
    case Nil
    with s(2) show ?thesis by (simp add: consecutive_def)
  next
    case (Cons seq rest)
    have xs: "set xs = insert seq (set rest)" "sorted_wrt (<) rest" "\<And>x. x \<in> set rest \<Longrightarrow> seq < x"
      using s Cons by auto
    have seq: "seq \<le> maxSequence" using assms xs(1) by simp
    note succ = sequence_succ [OF seq]
    have one: "span_set (Span seq (seq + 1)) = {seq}"
      using succ(5) [of seq] by (simp add: span_set_def)
    have "seq + 1 \<le> x \<and> x \<le> maxSequence" if "x \<in> set rest" for x
      using succ(3) [OF xs(3) [OF that]] assms [of x] xs(1) that by simp
    with runs_from_spec [OF xs(2), of "Span seq (seq + 1)"] succ(1,2) Cons one show ?thesis
      by (simp add: consecutive_def xs(1) word_neq_0_conv [symmetric])
  qed
  then show "spans_set (consecutive xs) = set xs"
    "x \<in> set (consecutive xs) \<Longrightarrow> span_end x \<le> maxSequence + 1"
    "0 \<notin> set xs \<Longrightarrow> wf_spans 0 (consecutive xs)" by auto
qed

section \<open>Reading a ledger back\<close>

lemma length_ledgerMagic [simp]: "length ledgerMagic = 4"
  by (simp add: ledgerMagic_def)

definition span_bytes :: "span list \<Rightarrow> byte list" where
  "span_bytes xs = concat (map (\<lambda>x. le_bytes 8 (span_first x) @ le_bytes 8 (span_end x)) xs)"

lemma encode_spans_eq: "encode_spans b xs = b @ span_bytes xs"
  unfolding encode_spans_def
  by (induction xs arbitrary: b) (simp_all add: append_defs span_bytes_def)

lemma length_span_bytes [simp]: "length (span_bytes xs) = spanBytes * length xs"
  by (induction xs) (simp_all add: span_bytes_def)

lemma decode_spans_bytes:
  "wf_spans bound xs \<Longrightarrow> spans_top bound xs \<le> maxSequence + 1 \<Longrightarrow>
     decode_spans (span_bytes xs) (length xs) bound = Inr xs"
proof (induction xs arbitrary: bound)
  case (Cons x xs)
  have "span_end x \<le> spans_top (span_end x) xs" using Cons.prems wf_spans_range by simp
  then have "span_end x \<le> maxSequence + 1" using Cons.prems by (auto intro: order_trans)
  then show ?case
    using Cons by (simp add: span_bytes_def codec_simps span_eta [symmetric] Let_def linorder_not_le)
qed (simp add: span_bytes_def)

lemma decode_spans_wf:
  "decode_spans b n bound = Inr xs \<Longrightarrow> bound \<le> maxSequence + 1 \<Longrightarrow>
     wf_spans bound xs \<and> spans_top bound xs \<le> maxSequence + 1 \<and> length xs = n"
  by (induction n arbitrary: b bound xs)
    (auto simp: Let_def not_le not_less split: if_splits sum.splits)

lemma decode_encode_ledger:
  assumes wf: "wf_ledger l" and n: "length (spans l) < 2 ^ 32"
  shows "decodeLedger s (ledger_encode l s) = Inr l"
proof -
  define head where "head = ledgerMagic @ le_bytes 2 ledgerFormat @ [s, 0]
    @ le_bytes 8 (watermark l) @ le_bytes 8 (delivered l) @ le_bytes 8 (lost l)
    @ le_bytes 8 (expired l) @ le_bytes 8 (quarantined l) @ le_bytes 4 (of_nat (length (spans l)) :: u32)"
  define body where "body = head @ span_bytes (spans l)"
  have enc: "ledger_encode l s = body @ le_bytes 4 (checksum body)"
    by (simp add: ledger_encode_def Let_def append_defs encode_spans_eq body_def head_def)
  have count: "unat (of_nat (length (spans l)) :: u32) = length (spans l)"
    using n by (simp add: unat_of_nat)
  have len: "length body = ledgerHeaderBytes + spanBytes * length (spans l)"
    by (simp add: body_def head_def)
  have fields: "take 4 body = ledgerMagic" "\<And>r. Uint16 (drop 4 body @ r) = ledgerFormat" "body ! 6 = s" "body ! 7 = 0"
    "Uint64 (drop 8 body) = watermark l" "Uint64 (drop 16 body) = delivered l"
    "Uint64 (drop 24 body) = lost l" "Uint64 (drop 32 body) = expired l"
    "Uint64 (drop 40 body) = quarantined l" "Uint32 (drop 48 body) = of_nat (length (spans l))"
    "drop 52 body = span_bytes (spans l)"
    by (simp_all add: body_def head_def ledgerMagic_def codec_simps nth_append)
  have "decode_spans (span_bytes (spans l)) (length (spans l)) (watermark l) = Inr (spans l)"
    using wf by (intro decode_spans_bytes) (simp_all add: wf_ledger_def ledger_highest_top)
  moreover have "watermark l \<le> maxSequence + 1" "watermark l \<noteq> 0"
    using wf wf_spans_range [OF wf_ledger_spans [OF wf]]
    by (auto simp: wf_ledger_def ledger_highest_top)
  ultimately show ?thesis
    using len count
    by (simp add: decodeLedger_def enc Let_def fields nth_append leD codec_simps)
qed

lemma decodeLedger_wf:
  assumes "decodeLedger s b = Inr l"
  shows "wf_ledger l"
proof -
  obtain body n where "decode_spans body n (watermark l) = Inr (spans l)" "0 < watermark l"
    "watermark l \<le> maxSequence + 1"
    using assms
    by (auto simp: decodeLedger_def Let_def word_neq_0_conv not_less split: if_splits sum.splits)
  with decode_spans_wf [OF this(1)] show ?thesis
    by (simp add: wf_ledger_def ledger_highest_top)
qed

section \<open>The contract of a settlement ledger\<close>

text \<open>
  What the queue relies on: a well-formed ledger stands for a set of sequences, settling
  adds spans to it and says how many sequences that settled for the first time.
\<close>

definition spans_bounded :: "span list \<Rightarrow> bool" where
  "spans_bounded added \<longleftrightarrow> (\<forall>x \<in> set added. span_end x \<le> maxSequence + 1)"

locale settlement =
  fixes wf :: "'l \<Rightarrow> bool"
    and elems :: "'l \<Rightarrow> u64 set"
    and member :: "'l \<Rightarrow> u64 \<Rightarrow> bool"
    and counted :: "'l \<Rightarrow> u64 \<Rightarrow> u64 \<Rightarrow> u64"
    and settle :: "'l \<Rightarrow> span list \<Rightarrow> 'l \<times> u64"
  assumes member_iff: "wf l \<Longrightarrow> member l x \<longleftrightarrow> x \<in> elems l"
    and counted_card: "wf l \<Longrightarrow> unat (counted l a b) = card (elems l \<inter> {a ..< b})"
    and settle_wf: "wf l \<Longrightarrow> spans_bounded added \<Longrightarrow> wf (fst (settle l added))"
    and settle_elems: "wf l \<Longrightarrow> spans_bounded added \<Longrightarrow>
      elems (fst (settle l added)) = elems l \<union> spans_set added"
    and settle_newly: "wf l \<Longrightarrow> spans_bounded added \<Longrightarrow>
      unat (snd (settle l added)) = card (spans_set added - elems l)"
begin

lemma settle_member:
  "wf l \<Longrightarrow> spans_bounded added \<Longrightarrow>
     member (fst (settle l added)) x \<longleftrightarrow> member l x \<or> x \<in> spans_set added"
  by (simp add: member_iff settle_wf settle_elems)

lemma settle_nothing_new:
  assumes "wf l" "spans_bounded added"
  shows "snd (settle l added) = 0 \<longleftrightarrow> spans_set added \<subseteq> elems l"
proof -
  have "snd (settle l added) = 0 \<longleftrightarrow> unat (snd (settle l added)) = 0"
    by (simp add: unat_eq_zero)
  also have "\<dots> \<longleftrightarrow> spans_set added \<subseteq> elems l"
    by (simp add: settle_newly [OF assms])
  finally show ?thesis .
qed

text \<open>A sequence is counted once: settling it again counts nothing.\<close>

lemma settle_again:
  "wf l \<Longrightarrow> spans_bounded added \<Longrightarrow> snd (settle (fst (settle l added)) added) = 0"
  by (simp add: settle_nothing_new settle_wf settle_elems)

lemma settle_in_turn:
  assumes "wf l" "spans_bounded a" "spans_bounded b"
  shows "unat (snd (settle l a)) + unat (snd (settle (fst (settle l a)) b))
     = card (spans_set a \<union> spans_set b - elems l)"
proof -
  have "card (spans_set a \<union> spans_set b - elems l)
      = card ((spans_set a - elems l) \<union> (spans_set b - (elems l \<union> spans_set a)))"
    by (rule arg_cong [where f = card]) blast
  also have "\<dots> = card (spans_set a - elems l) + card (spans_set b - (elems l \<union> spans_set a))"
    by (rule card_Un_disjoint) auto
  finally show ?thesis
    using assms by (simp add: settle_newly settle_wf settle_elems)
qed

text \<open>A stretch is settled whole exactly when as many of it are counted as it is long.\<close>

lemma counted_whole:
  assumes "wf l" "a \<le> b"
  shows "counted l a b = b - a \<longleftrightarrow> {a ..< b} \<subseteq> elems l"
proof -
  have "counted l a b = b - a \<longleftrightarrow> card (elems l \<inter> {a ..< b}) = card {a ..< b}"
    using assms by (metis counted_card card_word_interval unat_minus unsigned_word_eqI)
  also have "\<dots> \<longleftrightarrow> elems l \<inter> {a ..< b} = {a ..< b}"
    by (metis card_subset_eq finite_words inf_le2)
  finally show ?thesis by blast
qed

end

interpretation led: settlement wf_ledger settled_set ledger_settled ledger_count ledger_settle
  by unfold_locales
    (simp_all add: ledger_settled_iff unat_ledger_count ledger_settle_spec spans_bounded_def)

end
