(* ===== verification/Disk.thy ===== *)
theory Disk
  imports Spool_Base "HOL-Library.AList"
begin

text \<open>
  The host as \<open>internal/spool\<close> sees it: one directory, opened as an \<open>os.Root\<close>, and the files it
  names. A file is an inode with what it holds now and what its last sync made durable; the
  directory is the names it holds now and the names its last sync made durable. What the host
  answers is part of the state: every system call takes the next answer from \<open>answers\<close>, which is
  success or an error (a write may have written some bytes first), and succeeds once they are
  used up, so a theorem that holds for every state holds for every sequence of failures. A file
  that is swapped while it is opened is a failure of the second \<open>Stat\<close>. Reads fail where
  \<open>faults\<close> of the inode says. \<open>drawn\<close> is what \<open>crypto/rand\<close> draws.
\<close>

datatype answer = Done | Failed error nat

datatype kind = Regular | Directory | Other

record inode =
  data :: "byte list"
  durable :: "byte list"
  faults :: "nat \<Rightarrow> nat \<Rightarrow> error option"
  ikind :: kind
  privacy :: "error option"

record disk =
  names :: "(string \<times> nat) list"
  durable_names :: "(string \<times> nat) list"
  inodes :: "nat \<Rightarrow> inode"
  fresh :: nat
  answers :: "answer list"
  drawn :: "nat \<Rightarrow> byte list"
  draws :: nat

definition empty_inode :: inode where
  "empty_inode = \<lparr>data = [], durable = [], faults = (\<lambda>_ _. None), ikind = Regular, privacy = None\<rparr>"

section \<open>System calls\<close>

definition ask :: "disk \<Rightarrow> answer \<times> disk" where
  "ask d = (case answers d of [] \<Rightarrow> (Done, d) | a # rest \<Rightarrow> (a, d\<lparr>answers := rest\<rparr>))"

text \<open>A call that only fails or succeeds, such as \<open>Close\<close> or \<open>Stat\<close>.\<close>

definition attempt :: "disk \<Rightarrow> error option \<times> disk" where
  "attempt d = (case ask d of (Done, d) \<Rightarrow> (None, d) | (Failed e _, d) \<Rightarrow> (Some e, d))"

definition set_inode :: "disk \<Rightarrow> nat \<Rightarrow> inode \<Rightarrow> disk" where
  "set_inode d i f = d\<lparr>inodes := (inodes d)(i := f)\<rparr>"

definition file_write :: "disk \<Rightarrow> nat \<Rightarrow> byte list \<Rightarrow> error option \<times> disk" where
  "file_write d i bs =
     (case ask d of
        (Done, d) \<Rightarrow> (None, set_inode d i ((inodes d i)\<lparr>data := data (inodes d i) @ bs\<rparr>))
      | (Failed e n, d) \<Rightarrow>
          (Some e, set_inode d i ((inodes d i)\<lparr>data := data (inodes d i) @ take n bs\<rparr>)))"

definition file_sync :: "disk \<Rightarrow> nat \<Rightarrow> error option \<times> disk" where
  "file_sync d i =
     (case ask d of
        (Done, d) \<Rightarrow> (None, set_inode d i ((inodes d i)\<lparr>durable := data (inodes d i)\<rparr>))
      | (Failed e _, d) \<Rightarrow> (Some e, d))"

definition file_truncate :: "disk \<Rightarrow> nat \<Rightarrow> nat \<Rightarrow> error option \<times> disk" where
  "file_truncate d i n =
     (case ask d of
        (Done, d) \<Rightarrow>
          (None, set_inode d i ((inodes d i)\<lparr>data :=
             take n (data (inodes d i)) @ replicate (n - length (data (inodes d i))) 0\<rparr>))
      | (Failed e _, d) \<Rightarrow> (Some e, d))"

text \<open>\<open>O_CREATE|O_EXCL\<close>: a new, empty file, private to the account.\<close>

definition file_create :: "disk \<Rightarrow> string \<Rightarrow> (error + nat) \<times> disk" where
  "file_create d name =
     (case attempt d of
        (Some e, d) \<Rightarrow> (Inl e, d)
      | (None, d) \<Rightarrow>
          if map_of (names d) name \<noteq> None then (Inl [ErrExist], d)
          else (Inr (fresh d),
                set_inode (d\<lparr>names := names d @ [(name, fresh d)], fresh := fresh d + 1\<rparr>)
                  (fresh d) empty_inode))"

definition file_lookup :: "disk \<Rightarrow> string \<Rightarrow> (error + nat) \<times> disk" where
  "file_lookup d name =
     (case attempt d of
        (Some e, d) \<Rightarrow> (Inl e, d)
      | (None, d) \<Rightarrow>
          (case map_of (names d) name of None \<Rightarrow> (Inl [ErrNotExist], d) | Some i \<Rightarrow> (Inr i, d)))"

definition file_remove :: "disk \<Rightarrow> string \<Rightarrow> error option \<times> disk" where
  "file_remove d name =
     (case file_lookup d name of
        (Inl e, d) \<Rightarrow> (Some e, d)
      | (Inr _, d) \<Rightarrow> (None, d\<lparr>names := AList.delete name (names d)\<rparr>))"

definition file_rename :: "disk \<Rightarrow> string \<Rightarrow> string \<Rightarrow> error option \<times> disk" where
  "file_rename d a b =
     (case file_lookup d a of
        (Inl e, d) \<Rightarrow> (Some e, d)
      | (Inr i, d) \<Rightarrow> (None, d\<lparr>names := AList.update b i (AList.delete a (names d))\<rparr>))"

definition readdirnames :: "disk \<Rightarrow> (error + string list) \<times> disk" where
  "readdirnames d =
     (case attempt d of
        (Some e, d) \<Rightarrow> (Inl e, d)
      | (None, d) \<Rightarrow>
          (case attempt d of
             (Some e, d) \<Rightarrow> (Inl e, d)
           | (None, d) \<Rightarrow> (Inr (List.map fst (names d)), d)))"

definition opened :: "disk \<Rightarrow> nat \<Rightarrow> reader" where
  "opened d i = \<lparr>content = data (inodes d i), faulty = faults (inodes d i)\<rparr>"

text \<open>\<open>io.ReadAll(io.LimitReader(file, limit))\<close>.\<close>

definition read_all :: "reader \<Rightarrow> nat \<Rightarrow> error + byte list" where
  "read_all f limit =
     (case faulty f 0 limit of Some e \<Rightarrow> Inl e | None \<Rightarrow> Inr (take limit (content f)))"

section \<open>What the spool makes of them\<close>

text \<open>\<open>syncDirectory\<close>: the sync and the close both run once the directory is open.\<close>

definition syncDirectory :: "disk \<Rightarrow> error option \<times> disk" where
  "syncDirectory d =
     (case attempt d of
        (Some e, d) \<Rightarrow> (Some e, d)
      | (None, d) \<Rightarrow>
          (case ask d of
             (Done, d) \<Rightarrow> attempt (d\<lparr>durable_names := names d\<rparr>)
           | (Failed e _, d) \<Rightarrow> (case attempt d of (c, d) \<Rightarrow> (JoinErr (Some e) c, d))))"

definition private_file :: "inode \<Rightarrow> error option" where
  "private_file described =
     (case privacy described of
        None \<Rightarrow> None
      | Some err \<Rightarrow> if Is err ErrUnsupported then Some err else Some [ErrInsecure])"

text \<open>\<open>queue.open\<close>: what is opened is a private regular file, and the one that was inspected.\<close>

definition open_file :: "disk \<Rightarrow> string \<Rightarrow> (error + nat) \<times> disk" where
  "open_file d name =
     (case file_lookup d name of
        (Inl err, d) \<Rightarrow> (Inl err, d)
      | (Inr i, d) \<Rightarrow>
          if ikind (inodes d i) \<noteq> Regular then (Inl [ErrDamaged], d)
          else (case private_file (inodes d i) of
             Some err \<Rightarrow> (Inl err, d)
           | None \<Rightarrow>
               (case attempt d of
                  (Some err, d) \<Rightarrow> (Inl err, d)
                | (None, d) \<Rightarrow>
                    (case attempt d of
                       (Some _, d) \<Rightarrow> (case attempt d of (_, d) \<Rightarrow> (Inl [ErrInsecure], d))
                     | (None, d) \<Rightarrow> (Inr i, d)))))"

definition ignoreMissing :: "error option \<Rightarrow> error option" where
  "ignoreMissing err = (if IsSome err ErrNotExist then None else err)"

section \<open>What the calls leave of the other files\<close>

text \<open>
  Every name of a well-formed directory has a file of its own, made before the next one. A file is
  kept when it is found under its name, now and after a crash, with the same bytes.
\<close>

definition wf_disk :: "disk \<Rightarrow> bool" where
  "wf_disk d \<longleftrightarrow>
     (\<forall>n i. map_of (names d) n = Some i \<longrightarrow> i < fresh d)
     \<and> (\<forall>n m i. map_of (names d) n = Some i \<and> map_of (names d) m = Some i \<longrightarrow> n = m)"

definition kept_file :: "disk \<Rightarrow> string \<Rightarrow> nat \<Rightarrow> byte list \<Rightarrow> bool" where
  "kept_file d n i bs \<longleftrightarrow>
     map_of (names d) n = Some i \<and> map_of (durable_names d) n = Some i \<and> i < fresh d
     \<and> data (inodes d i) = bs \<and> durable (inodes d i) = bs"

lemma ask_eq: "ask d = (a, d') \<Longrightarrow> \<exists>as. d' = d\<lparr>answers := as\<rparr>"
  by (auto simp: ask_def split: list.splits intro: exI [of _ "answers d"])

lemma attempt_eq: "attempt d = (e, d') \<Longrightarrow> \<exists>as. d' = d\<lparr>answers := as\<rparr>"
  by (auto simp: attempt_def split: prod.splits answer.splits dest!: ask_eq)

lemma answers_transparent [simp]:
  "wf_disk (d\<lparr>answers := as\<rparr>) = wf_disk d"
  "kept_file (d\<lparr>answers := as\<rparr>) n i bs = kept_file d n i bs"
  "opened (d\<lparr>answers := as\<rparr>) i = opened d i"
  by (simp_all add: wf_disk_def kept_file_def opened_def)

lemma draws_transparent [simp]:
  "wf_disk (d\<lparr>draws := k\<rparr>) = wf_disk d"
  "kept_file (d\<lparr>draws := k\<rparr>) n i bs = kept_file d n i bs"
  by (simp_all add: wf_disk_def kept_file_def)

lemma set_inode_simps [simp]:
  "names (set_inode d i f) = names d" "durable_names (set_inode d i f) = durable_names d"
  "fresh (set_inode d i f) = fresh d" "inodes (set_inode d i f) = (inodes d)(i := f)"
  "answers (set_inode d i f) = answers d"
  by (simp_all add: set_inode_def)

lemma file_write_eq:
  assumes "file_write d j bs = (e, d')"
  obtains as k where "d' = set_inode (d\<lparr>answers := as\<rparr>) j ((inodes d j)\<lparr>data := data (inodes d j) @ take k bs\<rparr>)"
    and "e = None \<Longrightarrow> take k bs = bs"
proof -
  obtain a d0 where a: "ask d = (a, d0)" by (cases "ask d")
  obtain as where d0: "d0 = d\<lparr>answers := as\<rparr>" using ask_eq [OF a] by blast
  show ?thesis
  proof (cases a)
    case Done
    then show ?thesis
      using assms a d0 that [of as "length bs"] by (auto simp: file_write_def set_inode_def)
  next
    case (Failed err k)
    then show ?thesis
      using assms a d0 that [of as k] by (auto simp: file_write_def set_inode_def)
  qed
qed

lemma file_sync_eq:
  assumes "file_sync d j = (e, d')"
  shows "\<exists>as. d' = (if e = None
       then set_inode (d\<lparr>answers := as\<rparr>) j ((inodes d j)\<lparr>durable := data (inodes d j)\<rparr>)
       else d\<lparr>answers := as\<rparr>)"
  using assms by (auto simp: file_sync_def set_inode_def split: prod.splits answer.splits dest!: ask_eq)

lemma file_truncate_eq:
  assumes "file_truncate d j n = (e, d')"
  shows "\<exists>as. d' = (if e = None
       then set_inode (d\<lparr>answers := as\<rparr>) j ((inodes d j)\<lparr>data := take n (data (inodes d j))
              @ replicate (n - length (data (inodes d j))) 0\<rparr>)
       else d\<lparr>answers := as\<rparr>)"
  using assms by (auto simp: file_truncate_def set_inode_def split: prod.splits answer.splits dest!: ask_eq)

lemma file_create_Inl: "file_create d n = (Inl e, d') \<Longrightarrow> \<exists>as. d' = d\<lparr>answers := as\<rparr>"
  by (auto simp: file_create_def split: prod.splits option.splits if_splits dest!: attempt_eq)

lemma file_create_Inr:
  assumes "file_create d n = (Inr i, d')"
  shows "i = fresh d" "map_of (names d) n = None"
    "\<exists>as. d' = set_inode (d\<lparr>answers := as, names := names d @ [(n, fresh d)], fresh := fresh d + 1\<rparr>)
       (fresh d) empty_inode"
  using assms
  by (auto simp: file_create_def set_inode_def split: prod.splits option.splits if_splits dest!: attempt_eq)

lemma file_lookup_eq:
  assumes "file_lookup d n = (r, d')"
  shows "\<exists>as. d' = d\<lparr>answers := as\<rparr>" "r = Inr i \<Longrightarrow> map_of (names d) n = Some i"
  using assms by (auto simp: file_lookup_def split: prod.splits option.splits dest!: attempt_eq)

lemma file_remove_eq:
  assumes "file_remove d n = (e, d')"
  shows "\<exists>as. d' = (if e = None then d\<lparr>answers := as, names := AList.delete n (names d)\<rparr>
       else d\<lparr>answers := as\<rparr>)"
  using assms
  by (auto simp: file_remove_def split: prod.splits sum.splits dest!: file_lookup_eq(1))

lemma file_rename_eq:
  assumes "file_rename d a b = (e, d')"
  shows "\<exists>as i. d' = (if e = None
         then d\<lparr>answers := as, names := AList.update b i (AList.delete a (names d))\<rparr>
         else d\<lparr>answers := as\<rparr>) \<and> (e = None \<longrightarrow> map_of (names d) a = Some i)"
proof -
  obtain r d1 where r: "file_lookup d a = (r, d1)" by (cases "file_lookup d a")
  then obtain as where "d1 = d\<lparr>answers := as\<rparr>" using file_lookup_eq(1) by blast
  then show ?thesis
    using assms r file_lookup_eq(2) [OF r] by (cases r) (auto simp: file_rename_def)
qed

lemma syncDirectory_eq:
  assumes "syncDirectory d = (e, d')"
  shows "\<exists>as. d' = d\<lparr>answers := as\<rparr> \<or> d' = d\<lparr>durable_names := names d, answers := as\<rparr>"
    and "e = None \<Longrightarrow> \<exists>as. d' = d\<lparr>durable_names := names d, answers := as\<rparr>"
  using assms
  by (fastforce simp: syncDirectory_def split: prod.splits option.splits answer.splits
      dest!: attempt_eq ask_eq)+

lemma open_file_eq:
  assumes "open_file d n = (r, d')"
  shows "\<exists>as. d' = d\<lparr>answers := as\<rparr>" "r = Inr i \<Longrightarrow> map_of (names d) n = Some i"
proof -
  obtain r1 d1 where l: "file_lookup d n = (r1, d1)" by (cases "file_lookup d n")
  then obtain as where d1: "d1 = d\<lparr>answers := as\<rparr>" using file_lookup_eq(1) by blast
  show "\<exists>as. d' = d\<lparr>answers := as\<rparr>"
    using assms l d1
    by (auto simp: open_file_def split: sum.splits if_splits option.splits prod.splits dest!: attempt_eq)
  show "r = Inr i \<Longrightarrow> map_of (names d) n = Some i"
    using assms l file_lookup_eq(2) [OF l, of i]
    by (auto simp: open_file_def split: sum.splits if_splits option.splits prod.splits)
qed

text \<open>One lemma per call: the directory stays well formed, and files the call is not given are kept.\<close>

lemma attempt_keeps:
  assumes "attempt d = (e, d')"
  shows "wf_disk d' = wf_disk d" "kept_file d' n i bs = kept_file d n i bs"
  using attempt_eq [OF assms] by auto

lemma file_write_keeps:
  assumes "file_write d j x = (e, d')"
  shows "wf_disk d' = wf_disk d" "kept_file d n i bs \<Longrightarrow> i \<noteq> j \<Longrightarrow> kept_file d' n i bs" "fresh d' = fresh d"
    "names d' = names d" "durable_names d' = durable_names d"
  using assms by (auto elim!: file_write_eq simp: wf_disk_def kept_file_def)

lemma file_sync_keeps:
  assumes "file_sync d j = (e, d')"
  shows "wf_disk d' = wf_disk d" "kept_file d n i bs \<Longrightarrow> kept_file d' n i bs" "fresh d' = fresh d"
    "names d' = names d" "durable_names d' = durable_names d"
  using file_sync_eq [OF assms] by (cases e; auto simp: wf_disk_def kept_file_def)+

lemma file_truncate_keeps:
  assumes "file_truncate d j k = (e, d')"
  shows "wf_disk d' = wf_disk d" "kept_file d n i bs \<Longrightarrow> i \<noteq> j \<Longrightarrow> kept_file d' n i bs" "fresh d' = fresh d"
    "names d' = names d" "durable_names d' = durable_names d"
  using file_truncate_eq [OF assms] by (cases e; auto simp: wf_disk_def kept_file_def)+

lemma file_create_keeps:
  assumes "file_create d m = (r, d')" "wf_disk d"
  shows "wf_disk d'" "kept_file d n i bs \<Longrightarrow> kept_file d' n i bs" "fresh d \<le> fresh d'"
    "r = Inr j \<Longrightarrow> map_of (names d') m = Some j \<and> j = fresh d \<and> data (inodes d' j) = [] \<and> j < fresh d'"
proof -
  have "wf_disk d' \<and> (kept_file d n i bs \<longrightarrow> kept_file d' n i bs) \<and> fresh d \<le> fresh d'
      \<and> (r = Inr j \<longrightarrow> map_of (names d') m = Some j \<and> j = fresh d \<and> data (inodes d' j) = [] \<and> j < fresh d')"
  proof (cases r)
    case (Inl e)
    then show ?thesis using file_create_Inl [of d m e d'] assms by auto
  next
    case (Inr k)
    note c = file_create_Inr [OF assms(1) [unfolded Inr]]
    have new: "map_of (names d @ [(m, fresh d)]) x = (if x = m then Some (fresh d) else map_of (names d) x)" for x
      using c(2) by (auto simp: map_add_def split: option.splits)
    have lt: "map_of (names d) x \<noteq> Some (fresh d)" for x
      using assms(2) by (auto simp: wf_disk_def)
    have "wf_disk d'"
      using c(3) assms(2) lt by (auto simp: wf_disk_def new less_Suc_eq simp del: map_of_append split: if_splits)
    then show ?thesis
      using c lt by (auto simp: kept_file_def new Inr empty_inode_def simp del: map_of_append)
  qed
  then show "wf_disk d'" "kept_file d n i bs \<Longrightarrow> kept_file d' n i bs" "fresh d \<le> fresh d'"
    "r = Inr j \<Longrightarrow> map_of (names d') m = Some j \<and> j = fresh d \<and> data (inodes d' j) = [] \<and> j < fresh d'"
    by auto
qed

lemma file_remove_keeps:
  assumes "file_remove d m = (e, d')"
  shows "wf_disk d \<Longrightarrow> wf_disk d'" "kept_file d n i bs \<Longrightarrow> n \<noteq> m \<Longrightarrow> kept_file d' n i bs"
    "e \<noteq> None \<Longrightarrow> kept_file d n i bs \<Longrightarrow> kept_file d' n i bs"
  using file_remove_eq [OF assms]
  by (auto simp: wf_disk_def kept_file_def delete_conv split: if_splits)

lemma file_rename_keeps:
  assumes "file_rename d a b = (e, d')"
  shows "wf_disk d \<Longrightarrow> wf_disk d'"
    "kept_file d n i bs \<Longrightarrow> n \<noteq> a \<Longrightarrow> n \<noteq> b \<Longrightarrow> kept_file d' n i bs"
  using file_rename_eq [OF assms]
  by (auto simp: wf_disk_def kept_file_def delete_conv update_conv split: if_splits)

lemma syncDirectory_keeps:
  assumes "syncDirectory d = (e, d')"
  shows "wf_disk d' = wf_disk d" "kept_file d n i bs \<Longrightarrow> kept_file d' n i bs" "names d' = names d"
    "inodes d' = inodes d" "fresh d' = fresh d"
  using syncDirectory_eq(1) [OF assms] by (auto simp: wf_disk_def kept_file_def)

lemma open_file_keeps:
  assumes "open_file d m = (r, d')"
  shows "wf_disk d' = wf_disk d" "kept_file d' n i bs = kept_file d n i bs"
    "opened d' i = opened d i"
  using open_file_eq(1) [OF assms] by auto

end
