(* ===== verification/Segment.thy ===== *)
theory Segment
  imports Ledger Disk Strings
begin

text \<open>
  The names of \<open>internal/spool/queue.go\<close>: what a segment, the ledger and an unfinished ledger are
  called in the directory of a stream, and how the names are read back. The lemmas show that a
  segment's name is read back as its first sequence, that two segments never share a name, and that
  the names the spool gives are told apart by the patterns it recovers with.
\<close>

record segment =
  seg_first :: u64
  seg_size :: nat

section \<open>Names\<close>

definition segmentSuffix :: string where "segmentSuffix = ''.seg''"

definition ledgerName :: string where "ledgerName = ''ledger''"

definition first_name :: "u64 \<Rightarrow> string" where
  "first_name first = decimal 20 (unat first) @ segmentSuffix"

definition segment_name :: "segment \<Rightarrow> string" where
  "segment_name s = first_name (seg_first s)"

text \<open>\<open>^[0-9]{20}\.seg$\<close> and \<open>^\.ledger\.[0-9a-f]{16}\.tmp$\<close>.\<close>

definition segmentPattern :: "string \<Rightarrow> bool" where
  "segmentPattern name \<longleftrightarrow>
     length name = 24 \<and> list_all is_digit (take 20 name) \<and> drop 20 name = segmentSuffix"

definition interruptedPattern :: "string \<Rightarrow> bool" where
  "interruptedPattern name \<longleftrightarrow>
     length name = 28 \<and> take 8 name = ''.ledger.'' \<and> list_all is_hex (take 16 (drop 8 name))
     \<and> drop 24 name = ''.tmp''"

definition temporary_name :: "byte list \<Rightarrow> string" where
  "temporary_name bs = ''.'' @ ledgerName @ ''.'' @ EncodeToString bs @ ''.tmp''"

section \<open>Reading them back\<close>

lemma first_name_parses:
  "segmentPattern (first_name f)" "ParseUint (take 20 (first_name f)) = Some f"
proof -
  show "segmentPattern (first_name f)"
    using decimal_digits by (simp add: segmentPattern_def first_name_def segmentSuffix_def)
  have "unat f < 2 ^ 64" using unsigned_less [of f, where 'a = nat] by simp
  then show "ParseUint (take 20 (first_name f)) = Some f"
    using u64_decimal [of f] by (simp add: ParseUint_def first_name_def digits_value_decimal)
qed

lemma first_name_inj [simp]: "first_name a = first_name b \<longleftrightarrow> a = b"
  using first_name_parses(2) by (metis option.inject)

lemma length_first_name [simp]: "length (first_name f) = 24"
  by (simp add: first_name_def segmentSuffix_def)

lemma temporary_name_interrupted:
  "length bs = 8 \<Longrightarrow> interruptedPattern (temporary_name bs)"
  using EncodeToString_hex [of bs]
  by (simp add: interruptedPattern_def temporary_name_def ledgerName_def)

lemma names_apart:
  "\<not> interruptedPattern (first_name f)" "first_name f \<noteq> ledgerName"
  "\<not> interruptedPattern ledgerName" "\<not> segmentPattern ledgerName"
  "first_name f \<noteq> temporary_name bs" "ledgerName \<noteq> temporary_name bs"
proof -
  have d: "hd (first_name f) \<noteq> CHR ''.''"
  proof
    assume "hd (first_name f) = CHR ''.''"
    moreover have "is_digit (hd (first_name f))"
      using decimal_digits [of 20 "unat f"] length_decimal [of 20 "unat f"]
      by (cases "decimal 20 (unat f)") (auto simp: first_name_def)
    ultimately show False by (simp add: is_digit_def)
  qed
  show "first_name f \<noteq> temporary_name bs"
    using d by (auto simp: temporary_name_def)
  have "length (first_name f) \<noteq> length ledgerName" by (simp add: ledgerName_def)
  then show "first_name f \<noteq> ledgerName" by metis
  show "\<not> interruptedPattern (first_name f)"
    by (simp add: interruptedPattern_def)
  show "\<not> interruptedPattern ledgerName" "\<not> segmentPattern ledgerName" "ledgerName \<noteq> temporary_name bs"
    by (simp_all add: interruptedPattern_def segmentPattern_def ledgerName_def temporary_name_def)
qed

end
