(* ===== verification/Budget.thy ===== *)
theory Budget
  imports Spool_Base "HOL-Library.Signed_Division"
begin

text \<open>
  The \<open>budget\<close> of \<open>internal/spool/spool.go\<close>, shared by the three queues: what the spool
  may hold, what each stream may hold of it, the room the filesystem must keep, and the
  growing wait after a write found no room. Byte counts are Go's \<open>int64\<close>, modelled as
  integers: they stay below the size of a filesystem. Division truncates, as Go's does.
  \<open>room\<close> and \<open>now\<close> are what the host answers while the operation runs.
\<close>

record limits =
  MaxBytes :: int
  MaxRecordBytes :: int
  MaxAge :: "stream \<Rightarrow> duration"

record budget =
  b_limit :: int
  b_record :: int
  b_used :: int
  b_held :: "stream \<Rightarrow> int"
  b_crowded :: time
  b_wait :: duration

text \<open>What the host answers an operation: the time, and the free bytes of the filesystem.\<close>

record host =
  now :: time
  room :: "error + int"

definition new_budget :: budget where
  "new_budget = \<lparr>b_limit = 0, b_record = 0, b_used = 0, b_held = (\<lambda>_. 0),
     b_crowded = zero_time, b_wait = 0\<rparr>"

definition budget_set :: "budget \<Rightarrow> limits \<Rightarrow> budget" where
  "budget_set b ls =
     (let b = b\<lparr>b_limit := MaxBytes ls, b_record := MaxRecordBytes ls\<rparr>
      in if b_record b \<le> 0 \<or> b_record b > int MaxPayloadBytes
         then b\<lparr>b_record := int MaxPayloadBytes\<rparr> else b)"

definition stream_share :: "budget \<Rightarrow> stream \<Rightarrow> int" where
  "stream_share b s = (case share s of (numerator, denominator) \<Rightarrow>
     b_limit b sdiv denominator * numerator)"

definition budget_waiting :: "host \<Rightarrow> budget \<Rightarrow> bool" where
  "budget_waiting h b \<longleftrightarrow> b_wait b > 0 \<and> now h < b_crowded b + b_wait b"

definition budget_reserve :: "host \<Rightarrow> budget \<Rightarrow> stream \<Rightarrow> int \<Rightarrow> error option \<times> budget" where
  "budget_reserve h b s bytes =
     (if b_used b + bytes > b_limit b - reserved then (Some [ErrFull], b)
      else if b_held b s + bytes > stream_share b s then (Some [ErrFull], b)
      else if budget_waiting h b then (Some [ErrFull], b)
      else case room h of
             Inl err \<Rightarrow> (Some err, b)
           | Inr free \<Rightarrow>
               if free - bytes < minFree then (Some [ErrFull], b)
               else (None, b\<lparr>b_used := b_used b + bytes,
                             b_held := (b_held b)(s := b_held b s + bytes)\<rparr>))"

definition budget_left :: "host \<Rightarrow> budget \<Rightarrow> stream \<Rightarrow> int" where
  "budget_left h b s =
     (let left = min (b_limit b - reserved - b_used b) (stream_share b s - b_held b s)
      in case room h of
           Inl _ \<Rightarrow> 0
         | Inr free \<Rightarrow> if budget_waiting h b then 0 else max (min left (free - minFree)) 0)"

definition budget_crowd :: "host \<Rightarrow> budget \<Rightarrow> error \<Rightarrow> error \<times> budget" where
  "budget_crowd h b err =
     (ErrFull # err,
      b\<lparr>b_crowded := now h, b_wait := min (max (2 * b_wait b) Second) Minute\<rparr>)"

definition budget_relieve :: "budget \<Rightarrow> budget" where
  "budget_relieve b = b\<lparr>b_wait := 0\<rparr>"

definition budget_add :: "budget \<Rightarrow> stream \<Rightarrow> int \<Rightarrow> budget" where
  "budget_add b s bytes =
     b\<lparr>b_used := b_used b + bytes, b_held := (b_held b)(s := b_held b s + bytes)\<rparr>"

definition budget_largest :: "budget \<Rightarrow> int" where
  "budget_largest b = b_record b"

definition budget_segment :: "budget \<Rightarrow> int" where
  "budget_segment b = min (max (b_limit b sdiv segmentsPerLoad) minSegmentBytes) maxSegmentBytes"

section \<open>What a reservation leaves\<close>

lemma budget_reserve_None:
  "budget_reserve h b s n = (None, b') \<longleftrightarrow>
     b_used b + n \<le> b_limit b - reserved \<and> b_held b s + n \<le> stream_share b s
     \<and> \<not> budget_waiting h b \<and> (\<exists>free. room h = Inr free \<and> minFree \<le> free - n)
     \<and> b' = budget_add b s n"
  by (auto simp: budget_reserve_def budget_add_def not_less split: if_splits sum.splits)

lemma budget_reserve_Some: "budget_reserve h b s n = (Some err, b') \<Longrightarrow> b' = b"
  by (auto simp: budget_reserve_def split: if_splits sum.splits)

lemma budget_reserve_full:
  "budget_reserve h b s n = (Some err, b') \<Longrightarrow> Is err ErrFull \<or> room h = Inl err"
  by (auto simp: budget_reserve_def split: if_splits sum.splits)

text \<open>What \<open>left\<close> measures is what \<open>reserve\<close> grants at the same moment.\<close>

lemma budget_left_reserves:
  assumes "0 < n" "n \<le> budget_left h b s"
  shows "budget_reserve h b s n = (None, budget_add b s n)"
  using assms
  by (auto simp: budget_left_def budget_reserve_None Let_def split: sum.splits if_splits)

lemma budget_left_tight:
  assumes "0 < n" "budget_reserve h b s n = (None, b')"
  shows "n \<le> budget_left h b s"
  using assms
  by (auto simp: budget_left_def budget_reserve_None Let_def)

lemma budget_add_inverse [simp]: "budget_add (budget_add b s n) s (- n) = b"
  by (simp add: budget_add_def)

lemma budget_add_merge: "budget_add (budget_add b s m) s n = budget_add b s (m + n)"
  by (simp add: budget_add_def add.assoc)

lemma stream_share_bound:
  assumes "0 \<le> b_limit b"
  shows "0 \<le> stream_share b s" "stream_share b s \<le> b_limit b"
proof -
  have sdiv: "b_limit b sdiv d = b_limit b div d" if "0 < d" for d
    using assms that by (simp add: signed_divide_int_def sgn_if)
  show "0 \<le> stream_share b s" "stream_share b s \<le> b_limit b"
    using assms by (simp_all add: stream_share_def share_def sdiv pos_imp_zdiv_nonneg_iff) linarith+
qed

text \<open>The wait after a crowded write doubles, between a second and a minute.\<close>

lemma budget_crowd_wait:
  "b_wait (snd (budget_crowd h b err)) = min (max (2 * b_wait b) Second) Minute"
  "Second \<le> b_wait (snd (budget_crowd h b err))" "b_wait (snd (budget_crowd h b err)) \<le> Minute"
  by (auto simp: budget_crowd_def duration_defs)

end
