(* ===== verification/Queue.thy ===== *)
theory Queue
  imports Segment Budget
begin

text \<open>
  The queue of one stream, \<open>internal/spool/queue.go\<close>: its state and the operations that change its
  files. An operation runs with its mutexes held, so it is one step on the state. The budget the
  queues share is the field \<open>q_budget\<close> while an operation runs, the directory is \<open>q_disk\<close>, and
  \<open>q_broke\<close> says that the callback \<open>broke\<close> was called. The clock is read once per operation, from
  the answers of the host. What is only logged is left out.
\<close>

record cursor =
  cur_first :: u64
  cur_offset :: nat
  cur_prev :: u64

definition no_cursor :: cursor where
  "no_cursor = \<lparr>cur_first = 0, cur_offset = 0, cur_prev = 0\<rparr>"

record loss =
  loss_segment :: string
  loss_span :: span
  loss_bytes :: nat

datatype settlement = Delivered | Lost | Expired | Quarantined

definition credit :: "settlement \<Rightarrow> u64 \<Rightarrow> ledger \<Rightarrow> ledger" where
  "credit kind records l =
     (case kind of
        Delivered \<Rightarrow> l\<lparr>delivered := delivered l + records\<rparr>
      | Lost \<Rightarrow> l\<lparr>lost := lost l + records\<rparr>
      | Expired \<Rightarrow> l\<lparr>expired := expired l + records\<rparr>
      | Quarantined \<Rightarrow> l\<lparr>quarantined := quarantined l + records\<rparr>)"

record Record =
  ID :: "byte list"
  Payload :: "byte list"

record Receipt =
  rc_Stream :: stream
  rc_First :: u64
  rc_Last :: u64

record queue =
  q_stream :: stream
  q_disk :: disk
  q_budget :: budget
  q_broke :: bool
  q_closed :: bool
  q_broken :: "error option"
  q_segments :: "segment list"
  q_active :: "nat option"
  q_next :: u64
  q_ledger :: ledger
  q_held :: int
  q_bytes :: int
  q_cursor :: cursor
  q_maxAge :: duration
  q_swept :: time
  q_paused :: time
  q_refused :: u64
  q_withheld :: u64
  q_signal :: bool

text \<open>Every segment with the first sequence after it: \<open>next\<close>, for the last one.\<close>

fun uppers :: "u64 \<Rightarrow> segment list \<Rightarrow> (segment \<times> u64) list" where
  "uppers n [] = []"
| "uppers n [s] = [(s, n)]"
| "uppers n (s # t # rest) = (s, seg_first t) # uppers n (t # rest)"

section \<open>Small operations\<close>

definition q_fail :: "error \<Rightarrow> queue \<Rightarrow> queue" where
  "q_fail err q = q\<lparr>q_broken := Some err, q_broke := True\<rparr>"

definition q_admitting :: "queue \<Rightarrow> bool" where
  "q_admitting q \<longleftrightarrow> \<not> q_closed q \<and> q_broken q = None"

definition q_announce :: "queue \<Rightarrow> queue" where
  "q_announce q = q\<lparr>q_signal := False\<rparr>"

text \<open>Whether the channel it returns is already closed.\<close>

definition q_admitted :: "queue \<Rightarrow> bool \<times> queue" where
  "q_admitted q = (if q_closed q then (True, q) else (False, q\<lparr>q_signal := True\<rparr>))"

definition q_limit :: "duration \<Rightarrow> queue \<Rightarrow> queue" where
  "q_limit age q = q\<lparr>q_maxAge := age\<rparr>"

definition q_holds :: "u64 \<Rightarrow> queue \<Rightarrow> bool" where
  "q_holds first q = list_ex (\<lambda>held. seg_first held = first) (q_segments q)"

definition q_charge :: "int \<Rightarrow> queue \<Rightarrow> queue" where
  "q_charge n q = q\<lparr>q_budget := budget_add (q_budget q) (q_stream q) n\<rparr>"

definition q_pressure :: "host \<Rightarrow> nat \<Rightarrow> error option \<Rightarrow> queue \<Rightarrow> queue" where
  "q_pressure h records err q =
     (if IsSome err ErrFull then
        q\<lparr>q_refused := q_refused q + of_nat records, q_withheld := q_withheld q + of_nat records,
          q_paused := (if q_paused q = zero_time then now h else q_paused q)\<rparr>
      else if err = None then q\<lparr>q_paused := zero_time, q_withheld := 0\<rparr>
      else q)"

definition q_rejected :: "host \<Rightarrow> error \<Rightarrow> queue \<Rightarrow> error \<times> queue" where
  "q_rejected h err q =
     (if \<not> q_admitting q then (ErrUnavailable # err, q)
      else if Is err ENOSPC \<or> Is err EDQUOT then
        (case budget_crowd h (q_budget q) err of (err, b) \<Rightarrow> (err, q\<lparr>q_budget := b\<rparr>))
      else (ErrUnavailable # err, q_fail err q))"

section \<open>The ledger file\<close>

text \<open>
  \<open>store\<close>: the ledger is written whole to a temporary file, synced, and renamed over the last one,
  and the directory is synced; only then does the queue take it as its ledger.
\<close>

definition store_write :: "disk \<Rightarrow> nat \<Rightarrow> string \<Rightarrow> byte list \<Rightarrow> error option \<times> disk" where
  "store_write d i temporary bs =
     (case file_write d i bs of (err, d) \<Rightarrow>
      case (if err = None then file_sync d i else (err, d)) of (err, d) \<Rightarrow>
      case attempt d of (closed, d) \<Rightarrow>
      let err = JoinErr err closed
      in if err = None then file_rename d temporary ledgerName else (err, d))"

definition q_store :: "ledger \<Rightarrow> queue \<Rightarrow> error option \<times> queue" where
  "q_store succ q =
     (let bs = ledger_encode succ (q_stream q)
      in if length bs > maxLedgerBytes then (Some [Fault], q)
         else
           let d = q_disk q;
               temporary = temporary_name (drawn d (draws d));
               d = d\<lparr>draws := draws d + 1\<rparr>
           in case file_create d temporary of
                (Inl err, d) \<Rightarrow> (Some err, q\<lparr>q_disk := d\<rparr>)
              | (Inr i, d) \<Rightarrow>
                  (case store_write d i temporary bs of
                     (Some err, d) \<Rightarrow>
                       (case file_remove d temporary of (undone, d) \<Rightarrow>
                          (JoinErr (Some err) (ignoreMissing undone), q\<lparr>q_disk := d\<rparr>))
                   | (None, d) \<Rightarrow>
                       (case syncDirectory d of
                          (Some err, d) \<Rightarrow> (Some err, q\<lparr>q_disk := d\<rparr>)
                        | (None, d) \<Rightarrow>
                            let grown = int (length bs) - q_held q
                            in (None, q_charge grown
                                 (q\<lparr>q_disk := d, q_ledger := succ, q_held := int (length bs),
                                    q_bytes := q_bytes q + grown\<rparr>)))))"

section \<open>Compaction\<close>

definition whole :: "ledger \<Rightarrow> segment \<times> u64 \<Rightarrow> bool" where
  "whole l held =
     (case held of (s, upper) \<Rightarrow> ledger_count l (seg_first s) upper = upper - seg_first s)"

text \<open>The active segment is closed before it is removed.\<close>

definition compact_seal :: "segment \<Rightarrow> queue \<Rightarrow> queue" where
  "compact_seal held q =
     (if seg_first (last (q_segments q)) = seg_first held \<and> q_active q \<noteq> None
      then q\<lparr>q_disk := snd (attempt (q_disk q)), q_active := None\<rparr> else q)"

text \<open>One segment that holds nothing unsettled: whether it was removed.\<close>

definition compact_step :: "segment \<Rightarrow> queue \<Rightarrow> bool \<times> queue" where
  "compact_step held q =
     (let q = compact_seal held q
      in case file_remove (q_disk q) (segment_name held) of (err, d) \<Rightarrow>
         let q = q\<lparr>q_disk := d\<rparr>
         in if err \<noteq> None \<and> \<not> IsSome err ErrNotExist then (False, q)
            else
              (True, q_charge (- int (seg_size held))
                 (q\<lparr>q_segments := filter (\<lambda>kept. seg_first kept \<noteq> seg_first held) (q_segments q),
                    q_bytes := q_bytes q - int (seg_size held),
                    q_cursor := (if cur_first (q_cursor q) = seg_first held then no_cursor
                                 else q_cursor q)\<rparr>)))"

fun compact_each :: "segment list \<Rightarrow> bool \<Rightarrow> queue \<Rightarrow> bool \<times> queue" where
  "compact_each [] removed q = (removed, q)"
| "compact_each (held # rest) removed q =
     (case compact_step held q of (r, q) \<Rightarrow> compact_each rest (removed \<or> r) q)"

definition q_compact :: "queue \<Rightarrow> queue" where
  "q_compact q =
     (let removable = List.map fst (filter (whole (q_ledger q)) (uppers (q_next q) (q_segments q)))
      in case compact_each removable False q of (removed, q) \<Rightarrow>
         if removed then q\<lparr>q_disk := snd (syncDirectory (q_disk q))\<rparr> else q)"

section \<open>Settling\<close>

definition q_settle :: "u64 list \<Rightarrow> settlement \<Rightarrow> queue \<Rightarrow> error option \<times> queue" where
  "q_settle sequences kind q =
     (if q_closed q then (Some [ErrClosed], q)
      else if list_ex (\<lambda>seq. seq = 0 \<or> seq \<ge> q_next q) sequences then (Some [ErrRefused], q)
      else case ledger_settle (q_ledger q) (consecutive sequences) of (updated, newly) \<Rightarrow>
        if newly = 0 then (None, q)
        else case q_store (credit kind newly updated) q of
               (Some err, q) \<Rightarrow> (Some err, q)
             | (None, q) \<Rightarrow> (None, q_compact q))"

text \<open>What the losses settle, and whether any of it was not settled before.\<close>

fun lost_each :: "loss list \<Rightarrow> ledger \<Rightarrow> bool \<Rightarrow> ledger \<times> bool" where
  "lost_each [] l reports = (l, reports)"
| "lost_each (x # rest) l reports =
     (case ledger_settle l [loss_span x] of (l, newly) \<Rightarrow>
        lost_each rest (l\<lparr>lost := lost l + newly\<rparr>) (reports \<or> newly \<noteq> 0))"

definition q_settleLost :: "loss list \<Rightarrow> queue \<Rightarrow> error option \<times> queue" where
  "q_settleLost losses q =
     (if losses = [] then (None, q)
      else if q_closed q then (Some [ErrClosed], q)
      else case lost_each losses (q_ledger q) False of (updated, reports) \<Rightarrow>
        if \<not> reports then (None, q)
        else case q_store updated q of
               (Some err, q) \<Rightarrow> (Some err, q)
             | (None, q) \<Rightarrow> (None, q_compact q))"

section \<open>Admission\<close>

fun admit_size :: "int \<Rightarrow> Record list \<Rightarrow> int \<Rightarrow> error + int" where
  "admit_size largest [] frames = Inr frames"
| "admit_size largest (r # rs) frames =
     (if ID r = [] \<or> length (ID r) > MaxIDBytes then Inl [ErrRefused]
      else if length (Payload r) = 0 \<or> int (length (Payload r)) > largest then Inl [ErrRefused]
      else admit_size largest rs
             (frames + (int frameHeaderBytes + int (length (ID r)) + int (length (Payload r)))))"

text \<open>What the loop over the records writes, from the sequence of the first one.\<close>

fun admit_frames :: "stream \<Rightarrow> u64 \<Rightarrow> int \<Rightarrow> Record list \<Rightarrow> byte list" where
  "admit_frames s seq adm [] = []"
| "admit_frames s seq adm (r # rs) =
     encodeFrameHeader s seq adm (ID r) (Payload r) @ ID r @ Payload r
       @ admit_frames s (seq + 1) adm rs"

definition rotate_write :: "disk \<Rightarrow> nat \<Rightarrow> byte list \<Rightarrow> error option \<times> disk" where
  "rotate_write d i header =
     (case file_write d i header of (err, d) \<Rightarrow>
      case (if err = None then file_sync d i else (err, d)) of (err, d) \<Rightarrow>
      if err = None then syncDirectory d else (err, d))"

definition q_rotate :: "u64 \<Rightarrow> queue \<Rightarrow> error option \<times> queue" where
  "q_rotate first q =
     (case (if q_active q \<noteq> None then attempt (q_disk q) else (None, q_disk q)) of (closed, d) \<Rightarrow>
      let q = q\<lparr>q_active := None, q_disk := d\<rparr>
      in case closed of
           Some err \<Rightarrow> (Some err, q)
         | None \<Rightarrow>
             let created = \<lparr>seg_first = first, seg_size = segmentHeaderBytes\<rparr>;
                 name = segment_name created
             in case file_create d name of
                  (Inl err, d) \<Rightarrow> (Some err, q\<lparr>q_disk := d\<rparr>)
                | (Inr i, d) \<Rightarrow>
                    (case rotate_write d i (encodeSegmentHeader (q_stream q) first) of
                       (Some err, d) \<Rightarrow>
                         (case attempt d of (closed, d) \<Rightarrow>
                          case file_remove d name of (removed, d) \<Rightarrow>
                          let q = q\<lparr>q_disk := d\<rparr>
                          in case JoinErr closed removed of
                               None \<Rightarrow> (Some err, q)
                             | Some undone \<Rightarrow> (Some err, q_fail undone q))
                     | (None, d) \<Rightarrow>
                         (None, q\<lparr>q_disk := d, q_segments := q_segments q @ [created],
                                  q_active := Some i,
                                  q_bytes := q_bytes q + int segmentHeaderBytes\<rparr>)))"

text \<open>The write of the frames, from the moment the segment is open.\<close>

definition q_append :: "host \<Rightarrow> Record list \<Rightarrow> u64 \<Rightarrow> int \<Rightarrow> queue \<Rightarrow> (error + Receipt) \<times> queue" where
  "q_append h records first frames q =
     (let i = the (q_active q); final = last (q_segments q)
      in case file_write (q_disk q) i (admit_frames (q_stream q) first (now h) records) of
           (Some err, d) \<Rightarrow>
             (case file_truncate d i (seg_size final) of (truncated, d) \<Rightarrow>
              case file_sync d i of (synced, d) \<Rightarrow>
              let q = q_charge (- frames) (q\<lparr>q_disk := d\<rparr>);
                  q = (case JoinErr truncated synced of None \<Rightarrow> q | Some undone \<Rightarrow> q_fail undone q)
              in case q_rejected h err q of (err, q) \<Rightarrow> (Inl err, q))
         | (None, d) \<Rightarrow>
             (case file_sync d i of
                (Some err, d) \<Rightarrow> (Inl (ErrUnavailable # err), q_fail err (q\<lparr>q_disk := d\<rparr>))
              | (None, d) \<Rightarrow>
                  (Inr \<lparr>rc_Stream = q_stream q, rc_First = first,
                        rc_Last = first + of_nat (length records) - 1\<rparr>,
                   q_announce
                     (q\<lparr>q_disk := d, q_budget := budget_relieve (q_budget q),
                        q_segments := butlast (q_segments q)
                          @ [final\<lparr>seg_size := seg_size final + nat frames\<rparr>],
                        q_next := q_next q + of_nat (length records),
                        q_bytes := q_bytes q + frames\<rparr>))))"

definition q_rotates :: "queue \<Rightarrow> bool" where
  "q_rotates q \<longleftrightarrow>
     q_active q = None \<or> int (seg_size (last (q_segments q))) \<ge> budget_segment (q_budget q)"

definition q_admit :: "host \<Rightarrow> Record list \<Rightarrow> queue \<Rightarrow> (error + Receipt) \<times> queue" where
  "q_admit h records q =
     (case admit_size (budget_largest (q_budget q)) records 0 of
        Inl err \<Rightarrow> (Inl err, q)
      | Inr frames \<Rightarrow>
          let first = q_next q; rotate = q_rotates q
          in if q_closed q then (Inl [ErrClosed], q)
             else case q_broken q of
               Some broken \<Rightarrow> (Inl (ErrUnavailable # broken), q)
             | None \<Rightarrow>
                 let needed = (if rotate then frames + int segmentHeaderBytes else frames)
                 in case budget_reserve h (q_budget q) (q_stream q) needed of
                      (Some err, b) \<Rightarrow> (Inl err, q\<lparr>q_budget := b\<rparr>)
                    | (None, b) \<Rightarrow>
                        let q = q\<lparr>q_budget := b\<rparr>
                        in case (if rotate then q_rotate first q else (None, q)) of
                             (Some err, q) \<Rightarrow>
                               (case q_rejected h err (q_charge (- needed) q) of
                                  (err, q) \<Rightarrow> (Inl err, q))
                           | (None, q) \<Rightarrow> q_append h records first frames q)"

section \<open>Statistics and closing\<close>

record StreamStats =
  st_Stream :: stream
  st_MaxAge :: duration
  st_Outstanding :: u64
  st_Bytes :: int
  st_Delivered :: u64
  st_Lost :: u64
  st_Expired :: u64
  st_Quarantined :: u64
  st_Refused :: u64
  st_Paused :: time
  st_Unavailable :: "error option"

definition q_stats :: "queue \<Rightarrow> StreamStats" where
  "q_stats q =
     \<lparr>st_Stream = q_stream q, st_MaxAge = q_maxAge q,
      st_Outstanding =
        (case q_segments q of
           [] \<Rightarrow> 0
         | s # _ \<Rightarrow> q_next q - seg_first s - ledger_count (q_ledger q) (seg_first s) (q_next q)),
      st_Bytes = q_bytes q, st_Delivered = delivered (q_ledger q), st_Lost = lost (q_ledger q),
      st_Expired = expired (q_ledger q), st_Quarantined = quarantined (q_ledger q),
      st_Refused = q_refused q, st_Paused = q_paused q, st_Unavailable = q_broken q\<rparr>"

definition q_close :: "queue \<Rightarrow> error option \<times> queue" where
  "q_close q =
     (if q_closed q then (None, q)
      else
        let q = q_announce (q\<lparr>q_closed := True\<rparr>)
        in case (if q_active q \<noteq> None then attempt (q_disk q) else (None, q_disk q)) of (closed, d) \<Rightarrow>
           case attempt d of (root, d) \<Rightarrow>
             (JoinErr closed root, q\<lparr>q_active := None, q_disk := d\<rparr>))"

end
