(* ===== verification/Auth_Collector.thy ===== *)
theory Auth_Collector
  imports Auth_Event Queue
begin

text \<open>
  How the authentication module reads the journal and writes down how far it came,
  \<open>internal/modules/authentication/collector.go\<close> and \<open>checkpoint.go\<close>. A turn of the loop of \<open>read\<close> is a
  function of what the journal, the spool and the disk answer in it; where an answer is that the agent
  stops, what was admitted and written down by then is all that is left. \<open>au_written\<close> lists the places
  that were written down, the last one first: the directory is not synced, so a crash may leave any of
  them. The statistics of waiting for room and the text of errors are left out.
\<close>

section \<open>The place that is written down\<close>

definition auth_format :: int where "auth_format = 1"
definition maxPosition :: nat where "maxPosition = 4096"

record auth_position =
  po_Format :: int
  po_Cursor :: string
  po_Read :: time
  po_Since :: time

definition place_in_journal :: "auth_position \<Rightarrow> journal_position" where
  "place_in_journal p =
     (if po_Cursor p \<noteq> [] then \<lparr>jp_Cursor = po_Cursor p, jp_Since = zero_time, jp_Last = 0\<rparr>
      else \<lparr>jp_Cursor = [], jp_Since = po_Since p, jp_Last = 0\<rparr>)"

text \<open>
  What \<open>encoding/json\<close> does: \<open>pc_format\<close> reads the format alone, and \<open>pc_Unmarshal\<close> one document,
  with no field it does not know and nothing after it.
\<close>

record position_codec =
  pc_format :: "byte list \<Rightarrow> int option"
  pc_Unmarshal :: "byte list \<Rightarrow> auth_position option"
  pc_Marshal :: "auth_position \<Rightarrow> byte list"

datatype auth_sentinel = Auth_Damaged | Auth_Newer

definition decode_position :: "position_codec \<Rightarrow> byte list \<Rightarrow> auth_sentinel + auth_position" where
  "decode_position cd bytes =
     (if length bytes > maxPosition then Inl Auth_Damaged
      else case pc_format cd bytes of
        None \<Rightarrow> Inl Auth_Damaged
      | Some declared \<Rightarrow>
          if declared > auth_format then Inl Auth_Newer
          else case pc_Unmarshal cd bytes of
            None \<Rightarrow> Inl Auth_Damaged
          | Some held \<Rightarrow>
              if po_Format held \<noteq> auth_format then Inl Auth_Damaged
              else if po_Cursor held \<noteq> [] \<and> (\<not> journal_Cursor (po_Cursor held) \<or> po_Read held = zero_time \<or> po_Since held \<noteq> zero_time)
                then Inl Auth_Damaged
              else if po_Cursor held = [] \<and> (po_Since held = zero_time \<or> po_Read held \<noteq> zero_time) then Inl Auth_Damaged
              else Inr held)"

definition encode_position :: "position_codec \<Rightarrow> auth_position \<Rightarrow> byte list" where
  "encode_position cd p = pc_Marshal cd p @ [10]"

section \<open>The state of the collector\<close>

record auth_stats =
  as_Admitted :: u64
  as_Unreadable :: u64
  as_Aged :: u64
  as_Gaps :: u64
  as_Reached :: time

record auth_batch =
  ab_records :: "Record list"
  ab_bytes :: int
  ab_cursor :: string
  ab_read :: time

definition empty_batch :: auth_batch where
  "empty_batch = \<lparr>ab_records = [], ab_bytes = 0, ab_cursor = [], ab_read = zero_time\<rparr>"

definition maxAuthRecords :: nat where "maxAuthRecords = 256"
definition maxAuthBytes :: int where "maxAuthBytes = 1048576"
definition authFrameBytes :: int where "authFrameBytes = 64"

definition batch_full :: "auth_batch \<Rightarrow> bool" where
  "batch_full b \<longleftrightarrow> length (ab_records b) \<ge> maxAuthRecords \<or> ab_bytes b \<ge> maxAuthBytes"

text \<open>\<open>au_admitted\<close> is what the spool took, in order.\<close>

record auth_state =
  au_from :: auth_position
  au_held :: auth_batch
  au_first :: bool
  au_stats :: auth_stats
  au_written :: "auth_position list"
  au_admitted :: "Record list"

section \<open>Admitting and writing down\<close>

text \<open>
  One turn of the loop of \<open>admit\<close>: the spool takes the records or refuses them, or it is full and the
  governor says that there is room or that there will not be.
\<close>

datatype admit_try = Takes | Refuses | Full_then bool

datatype auth_result = Went | Failed_to | Stopped_at

fun admit_loop :: "admit_try list \<Rightarrow> auth_result" where
  "admit_loop [] = Stopped_at"
| "admit_loop (Takes # tries) = Went"
| "admit_loop (Refuses # tries) = Failed_to"
| "admit_loop (Full_then True # tries) = admit_loop tries"
| "admit_loop (Full_then False # tries) = Failed_to"

definition auth_flush :: "admit_try list \<Rightarrow> auth_result \<Rightarrow> auth_state \<Rightarrow> auth_result \<times> auth_state" where
  "auth_flush tries saving a =
     (let held = au_held a in
      if ab_cursor held = [] then (Went, a)
      else case (if ab_records held = [] then Went else admit_loop tries) of
        Went \<Rightarrow>
          (let a = a\<lparr>au_admitted := au_admitted a @ ab_records held,
                 au_stats := (au_stats a)\<lparr>as_Admitted := as_Admitted (au_stats a) + of_nat (length (ab_records held))\<rparr>\<rparr>;
               reached = \<lparr>po_Format = auth_format, po_Cursor = ab_cursor held, po_Read = ab_read held, po_Since = zero_time\<rparr>
           in case saving of
                Went \<Rightarrow> (Went, a\<lparr>au_written := reached # au_written a, au_from := reached, au_held := empty_batch,
                  au_stats := (au_stats a)\<lparr>as_Reached := ab_read held\<rparr>\<rparr>)
              | r \<Rightarrow> (r, a))
      | r \<Rightarrow> (r, a))"

section \<open>Reading\<close>

definition record_of :: "byte list \<Rightarrow> string \<Rightarrow> Record" where
  "record_of pl ident = \<lparr>ID = map of_char ident, Payload = pl\<rparr>"

definition auth_take :: "'a auth_libs \<Rightarrow> string \<Rightarrow> journal_entry \<Rightarrow> time \<Rightarrow> auth_state \<Rightarrow> auth_state" where
  "auth_take lb installation e t a =
     (let held = (au_held a)\<lparr>ab_cursor := en_Cursor e, ab_read := en_Realtime e\<rparr> in
      case observe lb installation e t of
        Unrelated \<Rightarrow> a\<lparr>au_held := held\<rparr>
      | Aged \<Rightarrow> a\<lparr>au_held := held, au_stats := (au_stats a)\<lparr>as_Aged := as_Aged (au_stats a) + 1\<rparr>\<rparr>
      | Observed pl ident \<Rightarrow>
          a\<lparr>au_held := held\<lparr>ab_records := ab_records held @ [record_of pl ident],
              ab_bytes := ab_bytes held + authFrameBytes + int (length ident) + int (length pl)\<rparr>\<rparr>)"

definition auth_gap :: "auth_state \<Rightarrow> auth_state" where
  "auth_gap a = a\<lparr>au_stats := (au_stats a)\<lparr>as_Gaps := as_Gaps (au_stats a) + 1\<rparr>\<rparr>"

datatype next_answer = Gives journal_entry | Gives_unreadable | Gives_end | Gives_error

record auth_turn =
  tu_pending :: bool
  tu_tries :: "admit_try list"
  tu_saving :: auth_result
  tu_next :: next_answer
  tu_now :: time
  tu_last_tries :: "admit_try list"
  tu_last_saving :: auth_result

datatype turn_result = Turns_on | Reached_end | Stops_reading | Agent_stops

text \<open>One turn after the flush at its start.\<close>

definition read_next :: "'a auth_libs \<Rightarrow> string \<Rightarrow> bool \<Rightarrow> auth_turn \<Rightarrow> auth_state \<Rightarrow> turn_result \<times> auth_state" where
  "read_next lb installation follow tu a =
     (case tu_next tu of
        Gives_unreadable \<Rightarrow>
          (Turns_on, a\<lparr>au_stats := (au_stats a)\<lparr>as_Unreadable := as_Unreadable (au_stats a) + 1\<rparr>\<rparr>)
      | Gives_end \<Rightarrow>
          (let a = (if au_first a \<and> \<not> follow \<and> po_Cursor (au_from a) \<noteq> [] then auth_gap a else a)
           in case auth_flush (tu_last_tries tu) (tu_last_saving tu) a of
                (Went, a) \<Rightarrow> (Reached_end, a)
              | (Failed_to, a) \<Rightarrow> (Stops_reading, a)
              | (Stopped_at, a) \<Rightarrow> (Agent_stops, a))
      | Gives_error \<Rightarrow>
          (case auth_flush (tu_last_tries tu) (tu_last_saving tu) a of
             (Stopped_at, a) \<Rightarrow> (Agent_stops, a)
           | (_, a) \<Rightarrow> (Stops_reading, a))
      | Gives e \<Rightarrow>
          if au_first a \<and> po_Cursor (au_from a) \<noteq> [] \<and> en_Cursor e = po_Cursor (au_from a)
          then (Turns_on, a\<lparr>au_first := False\<rparr>)
          else
            let a = (if au_first a \<and> po_Cursor (au_from a) \<noteq> [] \<and> \<not> follow then auth_gap a else a)
            in (Turns_on, auth_take lb installation e (tu_now tu) (a\<lparr>au_first := False\<rparr>)))"

definition read_turn :: "'a auth_libs \<Rightarrow> string \<Rightarrow> bool \<Rightarrow> auth_turn \<Rightarrow> auth_state \<Rightarrow> turn_result \<times> auth_state" where
  "read_turn lb installation follow tu a =
     (if ab_cursor (au_held a) \<noteq> [] \<and> (batch_full (au_held a) \<or> \<not> tu_pending tu) then
        (case auth_flush (tu_tries tu) (tu_saving tu) a of
           (Went, a) \<Rightarrow> read_next lb installation follow tu a
         | (Failed_to, a) \<Rightarrow> (Stops_reading, a)
         | (Stopped_at, a) \<Rightarrow> (Agent_stops, a))
      else read_next lb installation follow tu a)"

fun read_turns :: "'a auth_libs \<Rightarrow> string \<Rightarrow> bool \<Rightarrow> auth_turn list \<Rightarrow> auth_state \<Rightarrow> turn_result \<times> auth_state" where
  "read_turns lb installation follow [] a = (Agent_stops, a)"
| "read_turns lb installation follow (tu # tus) a =
     (case read_turn lb installation follow tu a of
        (Turns_on, a) \<Rightarrow> read_turns lb installation follow tus a
      | r \<Rightarrow> r)"

definition start_reading :: "auth_position \<Rightarrow> auth_state \<Rightarrow> auth_state" where
  "start_reading p a = a\<lparr>au_from := p, au_held := empty_batch, au_first := True\<rparr>"

text \<open>\<open>read\<close> where the journal could be opened.\<close>

definition auth_read ::
  "'a auth_libs \<Rightarrow> string \<Rightarrow> bool \<Rightarrow> auth_turn list \<Rightarrow> auth_position \<Rightarrow> auth_state \<Rightarrow> turn_result \<times> auth_state" where
  "auth_read lb installation follow tus p a = read_turns lb installation follow tus (start_reading p a)"

section \<open>Beginning\<close>

text \<open>What \<open>load\<close> finds: no file, one it does not read, or the content of one.\<close>

datatype auth_file = No_file | Unloadable | File_holds "byte list"

text \<open>\<open>begin\<close>: where to read from, or \<open>None\<close> where the collector stops with an error.\<close>

definition auth_begin ::
  "position_codec \<Rightarrow> bool \<Rightarrow> auth_file \<Rightarrow> time \<Rightarrow> bool \<Rightarrow> auth_state \<Rightarrow> auth_position option \<times> auth_state" where
  "auth_begin cd discards found t saves a =
     (let write = (\<lambda>p. if saves then (Some p, a\<lparr>au_written := p # au_written a\<rparr>) else (None, a));
          since = (\<lambda>s. \<lparr>po_Format = auth_format, po_Cursor = [], po_Read = zero_time, po_Since = s\<rparr>)
      in if \<not> discards then (None, a)
         else case found of
           No_file \<Rightarrow> write (since t)
         | Unloadable \<Rightarrow> (None, a)
         | File_holds bytes \<Rightarrow>
             (case decode_position cd bytes of
                Inr held \<Rightarrow> (Some held, a)
              | Inl Auth_Damaged \<Rightarrow> write (since (t - MaxEventAge))
              | Inl Auth_Newer \<Rightarrow> (None, a)))"

text \<open>\<open>Collect\<close>: what the journal holds, then what is written to it.\<close>

definition auth_Collect ::
  "'a auth_libs \<Rightarrow> string \<Rightarrow> position_codec \<Rightarrow> bool \<Rightarrow> auth_file \<Rightarrow> time \<Rightarrow> bool \<Rightarrow> auth_turn list option
     \<Rightarrow> auth_turn list option \<Rightarrow> auth_state \<Rightarrow> turn_result \<times> auth_state" where
  "auth_Collect lb installation cd discards found t saves held_turns follow_turns a =
     (case auth_begin cd discards found t saves a of
        (None, a) \<Rightarrow> (Stops_reading, a)
      | (Some p, a) \<Rightarrow>
          (case held_turns of
             None \<Rightarrow> (Stops_reading, a)
           | Some tus \<Rightarrow>
               (case auth_read lb installation False tus p a of
                  (Reached_end, a) \<Rightarrow>
                    (case follow_turns of
                       None \<Rightarrow> (Stops_reading, a)
                     | Some fus \<Rightarrow> auth_read lb installation True fus (au_from a) a)
                | r \<Rightarrow> r)))"

end
