(* ===== verification/Inventory_Collector.thy ===== *)
theory Inventory_Collector
  imports Inventory_Snapshot Auth_Collector
begin

text \<open>
  When the inventory module admits a snapshot and what it writes down of it,
  \<open>internal/modules/inventory/collector.go\<close> and \<open>baseline.go\<close>. A round is a function of what the host,
  the governor, the spool and the disk answer; \<open>iv_admitted\<close> lists what the spool took and \<open>iv_written\<close>
  the baselines that were written down, the last one first. Log lines and the statistics of waiting
  for room are left out.
\<close>

section \<open>The baseline\<close>

record base_entry =
  be_CollectedAt :: time
  be_RecordID :: string
  be_Items :: int
  be_Bytes :: int
  be_Digest :: string

type_synonym baseline = "string \<Rightarrow> base_entry option"

definition maxBaseline :: nat where "maxBaseline = 65536"
definition maxRecordID :: nat where "maxRecordID = 64"
definition leastNeeds :: int where "leastNeeds = 65536"
definition inv_format :: int where "inv_format = 1"

text \<open>\<open>needs\<close>; a baseline speaks of kinds alone.\<close>

definition baseline_needs :: "baseline \<Rightarrow> int" where
  "baseline_needs b =
     max (sum_list (map (\<lambda>k. case b (KindName k) of None \<Rightarrow> 0 | Some e \<Rightarrow> be_Bytes e) inv_kinds)) leastNeeds"

record base_codec =
  bc_format :: "byte list \<Rightarrow> int option"
  bc_Unmarshal :: "byte list \<Rightarrow> (int \<times> (string \<times> base_entry) list) option"

definition digested :: pattern where
  "digested = pat_times 64 (POne (\<lambda>c. byte_in 48 57 c \<or> byte_in 97 102 c))"

definition entry_reads :: "string \<Rightarrow> string \<times> base_entry \<Rightarrow> bool" where
  "entry_reads module x = (case x of (name, e) \<Rightarrow>
     name \<in> set (map KindName (filter (\<lambda>k. moduleOf k = module) inv_kinds))
     \<and> be_CollectedAt e \<noteq> zero_time \<and> be_RecordID e \<noteq> [] \<and> length (be_RecordID e) \<le> maxRecordID
     \<and> 0 \<le> be_Items e \<and> 0 \<le> be_Bytes e \<and> MatchString digested (be_Digest e))"

definition decode_baseline :: "base_codec \<Rightarrow> string \<Rightarrow> byte list \<Rightarrow> auth_sentinel + baseline" where
  "decode_baseline cd module bytes =
     (if length bytes > maxBaseline then Inl Auth_Damaged
      else case bc_format cd bytes of
        None \<Rightarrow> Inl Auth_Damaged
      | Some said \<Rightarrow>
          if said > inv_format then Inl Auth_Newer
          else case bc_Unmarshal cd bytes of
            None \<Rightarrow> Inl Auth_Damaged
          | Some (form, kinds) \<Rightarrow>
              if form \<noteq> inv_format then Inl Auth_Damaged
              else if \<not> list_all (entry_reads module) kinds then Inl Auth_Damaged
              else Inr (map_of kinds))"

section \<open>Judging a snapshot\<close>

definition refresh_after :: duration where "refresh_after = 24 * Hour"
definition everyHour :: duration where "everyHour = Hour"

definition inv_interval :: "duration \<Rightarrow> duration" where
  "inv_interval wanted = (if wanted > 0 then wanted else everyHour)"

text \<open>A moment to the millisecond.\<close>

definition to_millis :: "time \<Rightarrow> time" where "to_millis t = t - t mod 1000000"

datatype admit_reason = First | Clock_went_back | Changed | Refreshed

definition judge_snapshot ::
  "duration \<Rightarrow> inv_snapshot \<Rightarrow> base_entry option \<Rightarrow> time \<Rightarrow> take_error + admit_reason option" where
  "judge_snapshot every s recent t =
     (case recent of
        None \<Rightarrow> Inr (Some First)
      | Some e \<Rightarrow>
          if be_CollectedAt e - t > MaxClockSkew then Inr (Some Clock_went_back)
          else
            (case (if sn_Digest s \<noteq> be_Digest e then Some Changed
                   else if t \<ge> be_CollectedAt e + (refresh_after - every div 2) then Some Refreshed
                   else None) of
               None \<Rightarrow> Inr None
             | Some w \<Rightarrow>
                 if to_millis t > to_millis (be_CollectedAt e) then Inr (Some w) else Inl Clock_behind))"

section \<open>A round\<close>

record kind_stats =
  ks_Items :: int
  ks_Taken :: time
  ks_Sent :: time
  ks_Failure :: "take_error option"
  ks_Skipped :: nat

record inv_state =
  iv_held :: baseline
  iv_stats :: "string \<Rightarrow> kind_stats"
  iv_round :: time
  iv_written :: "baseline list"
  iv_admitted :: "inv_snapshot list"

text \<open>
  What a round sees of a kind: the clock, what the host answers, whether the governor lets the bytes
  be charged, and the largest record a batch carries.
\<close>

record inv_look =
  lk_kind :: inv_kind
  lk_at :: time
  lk_found :: taken
  lk_charged :: bool
  lk_largest :: int

definition take_look :: "inv_libs \<Rightarrow> string \<Rightarrow> inv_look \<Rightarrow> take_error + inv_snapshot" where
  "take_look lb installation l =
     (case Take lb installation (lk_kind l) (lk_at l) (lk_found l) of
        Inl e \<Rightarrow> Inl e
      | Inr s \<Rightarrow> if int (length (sn_Encoded s)) > lk_largest l then Inl Beyond_batch else Inr s)"

text \<open>The governor refuses the bytes of a snapshot that was made.\<close>

definition uncharged :: "inv_libs \<Rightarrow> string \<Rightarrow> inv_look \<Rightarrow> bool" where
  "uncharged lb installation l =
     (case Take lb installation (lk_kind l) (lk_at l) (lk_found l) of Inl e \<Rightarrow> False | Inr s \<Rightarrow> \<not> lk_charged l)"

definition judge_look :: "inv_libs \<Rightarrow> string \<Rightarrow> duration \<Rightarrow> baseline \<Rightarrow> inv_look \<Rightarrow> take_error + admit_reason option" where
  "judge_look lb installation every b l =
     (case take_look lb installation l of
        Inl e \<Rightarrow> Inl e
      | Inr s \<Rightarrow> judge_snapshot every s (b (KindName (lk_kind l))) (lk_at l))"

definition noted :: "inv_look \<Rightarrow> take_error + inv_snapshot \<Rightarrow> take_error option \<Rightarrow> (string \<Rightarrow> kind_stats) \<Rightarrow> string \<Rightarrow> kind_stats" where
  "noted l made failure st =
     (let n = KindName (lk_kind l); k = (st n)\<lparr>ks_Failure := failure\<rparr>
      in st(n := (case made of
           Inr s \<Rightarrow> if failure = None \<or> failure = Some Clock_behind
             then k\<lparr>ks_Items := int (length (ir_Items (sn_Record s))), ks_Taken := lk_at l, ks_Skipped := sn_Skipped s\<rparr> else k
         | Inl e \<Rightarrow> k)))"

text \<open>The loop over the kinds: \<open>None\<close> where the round fails, else what it admits.\<close>

fun choose_each ::
  "inv_libs \<Rightarrow> string \<Rightarrow> duration \<Rightarrow> baseline \<Rightarrow> inv_look list \<Rightarrow> (string \<Rightarrow> kind_stats)
     \<Rightarrow> (inv_snapshot \<times> time) list option \<times> (string \<Rightarrow> kind_stats)" where
  "choose_each lb installation every b [] st = (Some [], st)"
| "choose_each lb installation every b (l # ls) st =
     (if uncharged lb installation l then (None, st)
      else
        let made = take_look lb installation l; judged = judge_look lb installation every b l;
            st = noted l made (case judged of Inl e \<Rightarrow> Some e | Inr _ \<Rightarrow> None) st
        in case choose_each lb installation every b ls st of
             (None, st) \<Rightarrow> (None, st)
           | (Some chosen, st) \<Rightarrow>
               ((case (made, judged) of (Inr s, Inr (Some w)) \<Rightarrow> Some ((s, lk_at l) # chosen) | _ \<Rightarrow> Some chosen), st))"

definition entry_of :: "inv_snapshot \<times> time \<Rightarrow> base_entry" where
  "entry_of x = (case x of (s, t) \<Rightarrow>
     \<lparr>be_CollectedAt = t, be_RecordID = ir_RecordId (sn_Record s), be_Items = int (length (ir_Items (sn_Record s))),
      be_Bytes = int (length (sn_Encoded s)), be_Digest = sn_Digest s\<rparr>)"

definition record_entries :: "(inv_snapshot \<times> time) list \<Rightarrow> baseline \<Rightarrow> baseline" where
  "record_entries chosen b = fold (\<lambda>x b. b(KindName (sn_Kind (fst x)) \<mapsto> entry_of x)) chosen b"

datatype round_end = Round_done | Round_failed | Round_stopped

definition end_of :: "auth_result \<Rightarrow> round_end" where
  "end_of r = (case r of Went \<Rightarrow> Round_done | Failed_to \<Rightarrow> Round_failed | Stopped_at \<Rightarrow> Round_stopped)"

definition inv_ended :: "(inv_snapshot \<times> time) list \<Rightarrow> time \<Rightarrow> inv_state \<Rightarrow> inv_state" where
  "inv_ended chosen t a =
     a\<lparr>iv_stats := fold (\<lambda>x st. st(KindName (sn_Kind (fst x)) := (st (KindName (sn_Kind (fst x))))\<lparr>ks_Sent := snd x\<rparr>)) chosen (iv_stats a),
       iv_round := t\<rparr>"

definition inv_take ::
  "inv_libs \<Rightarrow> string \<Rightarrow> duration \<Rightarrow> inv_look list \<Rightarrow> admit_try list \<Rightarrow> auth_result \<Rightarrow> time \<Rightarrow> inv_state \<Rightarrow> round_end \<times> inv_state" where
  "inv_take lb installation every looks tries saving t a =
     (case choose_each lb installation every (iv_held a) looks (iv_stats a) of
        (None, st) \<Rightarrow> (Round_failed, a\<lparr>iv_stats := st\<rparr>)
      | (Some chosen, st) \<Rightarrow>
          let a = a\<lparr>iv_stats := st\<rparr> in
          if chosen = [] then (Round_done, inv_ended [] t a)
          else case admit_loop tries of
            Went \<Rightarrow>
              (let a = a\<lparr>iv_admitted := iv_admitted a @ map fst chosen, iv_held := record_entries chosen (iv_held a)\<rparr>
               in case saving of
                    Went \<Rightarrow> (Round_done, inv_ended chosen t (a\<lparr>iv_written := iv_held a # iv_written a\<rparr>))
                  | r \<Rightarrow> (end_of r, a))
          | r \<Rightarrow> (end_of r, a))"

text \<open>\<open>begin\<close>: \<open>None\<close> where the collector stops with an error.\<close>

definition inv_begin :: "base_codec \<Rightarrow> string \<Rightarrow> bool \<Rightarrow> auth_file \<Rightarrow> inv_state \<Rightarrow> inv_state option" where
  "inv_begin cd module discards found a =
     (if \<not> discards then None
      else case found of
        No_file \<Rightarrow> Some (a\<lparr>iv_held := (\<lambda>_. None)\<rparr>)
      | Unloadable \<Rightarrow> None
      | File_holds bytes \<Rightarrow>
          (case decode_baseline cd module bytes of
             Inr b \<Rightarrow> Some (a\<lparr>iv_held := b,
               iv_stats := (\<lambda>n. case b n of None \<Rightarrow> iv_stats a n
                 | Some e \<Rightarrow> (iv_stats a n)\<lparr>ks_Sent := be_CollectedAt e, ks_Items := be_Items e\<rparr>)\<rparr>)
           | Inl Auth_Damaged \<Rightarrow> Some (a\<lparr>iv_held := (\<lambda>_. None)\<rparr>)
           | Inl Auth_Newer \<Rightarrow> None))"

end
