(* ===== verification/Inventory_Inv.thy ===== *)
theory Inventory_Inv
  imports Inventory_Collector
begin

text \<open>
  What the rounds of the inventory module keep: the baseline speaks of the snapshots admitted last, and
  a round that is done leaves the spool with a snapshot that says what the host holds.
\<close>

lemma KindName_inj [simp]: "KindName j = KindName k \<longleftrightarrow> j = k"
  by (cases j; cases k) (simp_all add: KindName_def)

text \<open>The snapshot of a kind that was admitted last.\<close>

definition latest :: "inv_kind \<Rightarrow> inv_snapshot list \<Rightarrow> inv_snapshot option" where
  "latest k adm = find (\<lambda>s. sn_Kind s = k) (rev adm)"

definition tells :: "inv_snapshot \<Rightarrow> base_entry \<Rightarrow> bool" where
  "tells s e \<longleftrightarrow> be_Digest e = sn_Digest s \<and> ir_CollectedAt (sn_Record s) = Some (Timestamp True (be_CollectedAt e))"

definition in_step :: "baseline \<Rightarrow> inv_snapshot list \<Rightarrow> bool" where
  "in_step b adm \<longleftrightarrow> (\<forall>k e. b (KindName k) = Some e \<longrightarrow> (\<exists>s. latest k adm = Some s \<and> tells s e))"

section \<open>What a round chooses\<close>

definition pick :: "inv_libs \<Rightarrow> string \<Rightarrow> duration \<Rightarrow> baseline \<Rightarrow> inv_look \<Rightarrow> (inv_snapshot \<times> time) option" where
  "pick lb installation every b l =
     (case (take_look lb installation l, judge_look lb installation every b l) of
        (Inr s, Inr (Some w)) \<Rightarrow> Some (s, lk_at l)
      | _ \<Rightarrow> None)"

lemma choose_each_picks:
  "choose_each lb installation every b ls st = (Some chosen, st') \<Longrightarrow> chosen = List.map_filter (pick lb installation every b) ls"
proof (induction ls arbitrary: st chosen st')
  case (Cons l ls)
  obtain r st1 where c: "choose_each lb installation every b ls (noted l (take_look lb installation l)
      (case judge_look lb installation every b l of Inl e \<Rightarrow> Some e | Inr _ \<Rightarrow> None) st) = (r, st1)" by fastforce
  obtain rest where r: "r = Some rest" using Cons.prems c by (cases r) (auto simp: Let_def split: if_splits)
  then have "rest = List.map_filter (pick lb installation every b) ls" using Cons.IH c by blast
  then show ?case using Cons.prems c r
    by (auto simp: Let_def pick_def [of lb installation every b l] split: if_splits sum.splits option.splits)
qed simp

lemma take_look_Inr:
  assumes "take_look lb installation l = Inr s"
  shows "sn_Kind s = lk_kind l" "ir_CollectedAt (sn_Record s) = Some (Timestamp True (lk_at l))"
    "CheckInventory (ib_contract lb) (sn_Record s) = None" "length (sn_Encoded s) \<le> MaxInventoryRecordBytes"
    "int (length (sn_Encoded s)) \<le> lk_largest l" "ib_encode lb (sn_Record s) = Some (sn_Encoded s)"
  using assms
  by (auto simp: take_look_def Take_def Let_def split: sum.splits taken.splits if_splits option.splits)

lemma pick_Some:
  assumes "pick lb installation every b l = Some x"
  shows "sn_Kind (fst x) = lk_kind l" "tells (fst x) (entry_of x)" "take_look lb installation l = Inr (fst x)" "snd x = lk_at l"
proof -
  obtain s where s: "take_look lb installation l = Inr s" "x = (s, lk_at l)"
    using assms by (auto simp: pick_def split: sum.splits option.splits)
  then show "sn_Kind (fst x) = lk_kind l" "tells (fst x) (entry_of x)" "take_look lb installation l = Inr (fst x)" "snd x = lk_at l"
    using take_look_Inr [OF s(1)] by (simp_all add: tells_def entry_of_def)
qed

text \<open>The choice of a kind, the last one where there are several.\<close>

definition choice :: "inv_kind \<Rightarrow> (inv_snapshot \<times> time) list \<Rightarrow> (inv_snapshot \<times> time) option" where
  "choice k chosen = find (\<lambda>x. sn_Kind (fst x) = k) (rev chosen)"

lemma find_append: "find P (xs @ ys) = (case find P xs of None \<Rightarrow> find P ys | Some x \<Rightarrow> Some x)"
  by (induction xs) auto

lemma find_in: "find P xs = Some x \<Longrightarrow> x \<in> set xs \<and> P x"
  by (induction xs) (auto split: if_splits)

lemma record_entries_choice:
  "record_entries chosen b (KindName k) = (case choice k chosen of None \<Rightarrow> b (KindName k) | Some x \<Rightarrow> Some (entry_of x))"
proof (induction chosen arbitrary: b)
  case (Cons x chosen)
  then show ?case by (auto simp: record_entries_def choice_def find_append split: option.splits)
qed (simp add: record_entries_def choice_def)

lemma latest_choice:
  "latest k (adm @ map fst chosen) = (case choice k chosen of None \<Rightarrow> latest k adm | Some x \<Rightarrow> Some (fst x))"
proof (induction chosen rule: rev_induct)
  case (snoc x chosen)
  then show ?case by (auto simp: latest_def choice_def find_append rev_map split: option.splits)
qed (simp add: latest_def choice_def)

lemma choice_picked:
  assumes "choice k chosen = Some x" "chosen = List.map_filter (pick lb installation every b) ls"
  obtains l where "l \<in> set ls" "pick lb installation every b l = Some x" "lk_kind l = k"
proof -
  have "x \<in> set chosen" "sn_Kind (fst x) = k"
    using assms(1) by (auto simp: choice_def dest: find_in)
  then obtain l where l: "l \<in> set ls" "pick lb installation every b l = Some x" using assms(2) by (auto simp: map_filter_def)
  then show thesis using that pick_Some(1) [OF l(2)] \<open>sn_Kind (fst x) = k\<close> by simp
qed

lemma in_step_record:
  assumes "in_step b adm" "chosen = List.map_filter (pick lb installation every b0) ls"
  shows "in_step (record_entries chosen b) (adm @ map fst chosen)"
proof -
  have "tells (fst x) (entry_of x)" if "choice k chosen = Some x" for k x
    using choice_picked [OF that assms(2)] pick_Some(2) by metis
  then show ?thesis
    using assms(1) by (auto simp: in_step_def record_entries_choice latest_choice split: option.splits)
qed

section \<open>Rounds\<close>

lemma inv_ended_fields [simp]:
  "iv_held (inv_ended c t a) = iv_held a" "iv_written (inv_ended c t a) = iv_written a"
  "iv_admitted (inv_ended c t a) = iv_admitted a"
  by (simp_all add: inv_ended_def)

text \<open>A round that is done recorded what it chose, whether that was something or nothing.\<close>

lemma inv_take_done:
  assumes "inv_take lb installation every looks tries saving t a = (Round_done, a')"
  obtains chosen where "chosen = List.map_filter (pick lb installation every (iv_held a)) looks"
    "iv_held a' = record_entries chosen (iv_held a)" "iv_admitted a' = iv_admitted a @ map fst chosen"
    "iv_written a' = (if chosen = [] then iv_written a else iv_held a' # iv_written a)"
    "\<forall>l \<in> set looks. \<not> uncharged lb installation l"
proof -
  obtain r st where c: "choose_each lb installation every (iv_held a) looks (iv_stats a) = (r, st)" by fastforce
  obtain chosen where r: "r = Some chosen" using assms c by (cases r) (auto simp: inv_take_def)
  have ch: "\<forall>l \<in> set looks. \<not> uncharged lb installation l"
    if "choose_each lb installation every b looks st = (Some chosen, st')" for b st chosen st' looks
    using that
  proof (induction looks arbitrary: st chosen)
    case (Cons l ls)
    then show ?case by (auto simp: Let_def split: if_splits prod.splits option.splits)
  qed simp
  show thesis
  proof (cases "chosen = []")
    case True
    then show ?thesis using assms c r choose_each_picks [of lb installation every "iv_held a" looks] ch
      by (intro that [of chosen]) (auto simp: inv_take_def record_entries_def)
  next
    case False
    then show ?thesis using assms c r choose_each_picks [of lb installation every "iv_held a" looks] ch
      by (intro that [of chosen])
        (auto simp: inv_take_def Let_def end_of_def split: auth_result.splits)
  qed
qed

text \<open>A round that is not done and admitted nothing left the baseline as it was.\<close>

lemma inv_take_failed:
  assumes "inv_take lb installation every looks tries saving t a = (res, a')" "res \<noteq> Round_done"
    "iv_admitted a' = iv_admitted a"
  shows "iv_held a' = iv_held a" "iv_written a' = iv_written a"
  using assms
  by (auto simp: inv_take_def Let_def end_of_def split: option.splits prod.splits if_splits auth_result.splits)

text \<open>
  The rounds and restarts of a collector that wrote down every snapshot it admitted, and finds the
  baseline it wrote last, none at all before it wrote one, or a damaged one.
\<close>

inductive inv_runs :: "inv_libs \<Rightarrow> string \<Rightarrow> base_codec \<Rightarrow> inv_state \<Rightarrow> bool" for lb installation cd where
  inv_new: "iv_held a = (\<lambda>_. None) \<Longrightarrow> iv_written a = [] \<Longrightarrow> iv_admitted a = [] \<Longrightarrow> inv_runs lb installation cd a"
| inv_round: "inv_runs lb installation cd a \<Longrightarrow> inv_take lb installation every looks tries saving t a = (res, a') \<Longrightarrow>
     res = Round_done \<or> iv_admitted a' = iv_admitted a \<Longrightarrow> inv_runs lb installation cd a'"
| inv_restart: "inv_runs lb installation cd a \<Longrightarrow> inv_begin cd module discards found a = Some a' \<Longrightarrow>
     (case found of
        File_holds bytes \<Rightarrow> (case decode_baseline cd module bytes of
            Inr b \<Rightarrow> iv_written a \<noteq> [] \<and> b = hd (iv_written a) | Inl _ \<Rightarrow> True)
      | _ \<Rightarrow> True) \<Longrightarrow> inv_runs lb installation cd a'"

definition told_of :: "inv_state \<Rightarrow> bool" where
  "told_of a \<longleftrightarrow> in_step (iv_held a) (iv_admitted a)
     \<and> (iv_written a \<noteq> [] \<longrightarrow> in_step (hd (iv_written a)) (iv_admitted a))"

lemma in_step_empty: "in_step (\<lambda>_. None) adm"
  by (simp add: in_step_def)

lemma inv_take_told:
  assumes "told_of a" "inv_take lb installation every looks tries saving t a = (res, a')"
    "res = Round_done \<or> iv_admitted a' = iv_admitted a"
  shows "told_of a'"
proof (cases "res = Round_done")
  case True
  then obtain chosen where c: "chosen = List.map_filter (pick lb installation every (iv_held a)) looks"
    "iv_held a' = record_entries chosen (iv_held a)" "iv_admitted a' = iv_admitted a @ map fst chosen"
    "iv_written a' = (if chosen = [] then iv_written a else iv_held a' # iv_written a)"
    using inv_take_done [OF assms(2) [unfolded True]] by metis
  have "in_step (iv_held a') (iv_admitted a')"
    unfolding c(2,3) using assms(1) c(1) by (intro in_step_record) (simp_all add: told_of_def)
  then show ?thesis using assms(1) c by (auto simp: told_of_def)
next
  case False
  then show ?thesis using assms inv_take_failed [OF assms(2) False] by (auto simp: told_of_def)
qed

lemma inv_runs_told: "inv_runs lb installation cd a \<Longrightarrow> told_of a"
proof (induction rule: inv_runs.induct)
  case (inv_new a)
  then show ?case by (simp add: told_of_def in_step_empty)
next
  case (inv_round a every looks tries saving t res a')
  then show ?case using inv_take_told by blast
next
  case (inv_restart a module discards found a')
  then show ?case
    by (auto simp: told_of_def inv_begin_def in_step_empty split: if_splits auth_file.splits sum.splits auth_sentinel.splits)
qed

section \<open>What a round that is done says\<close>

lemma choice_of_look:
  assumes "distinct (map lk_kind looks)" "l \<in> set looks"
    and "chosen = List.map_filter (pick lb installation every b) looks"
  shows "choice (lk_kind l) chosen = pick lb installation every b l"
proof (cases "choice (lk_kind l) chosen")
  case None
  then have "x \<notin> set chosen \<or> sn_Kind (fst x) \<noteq> lk_kind l" for x by (cases x) (auto simp: choice_def find_None_iff)
  moreover have "x \<in> set chosen \<and> sn_Kind (fst x) = lk_kind l" if "pick lb installation every b l = Some x" for x
    using pick_Some(1) [OF that] that assms(2,3) by (force simp: map_filter_def)
  ultimately show ?thesis using None by (metis not_Some_eq)
next
  case (Some x)
  from choice_picked [OF this assms(3)] obtain m where m: "m \<in> set looks" "pick lb installation every b m = Some x" "lk_kind m = lk_kind l" .
  then have "m = l" using assms(1,2) by (meson distinct_map inj_onD)
  then show ?thesis using Some m by simp
qed

lemma judged_not:
  assumes "judge_snapshot every s e t = Inr None"
  obtains e' where "e = Some e'" "sn_Digest s = be_Digest e'" "t < be_CollectedAt e' + (refresh_after - every div 2)"
    "be_CollectedAt e' \<le> t + MaxClockSkew"
  using assms by (auto simp: judge_snapshot_def split: option.splits if_splits)

lemma judged_in_order:
  assumes "judge_snapshot every s (Some e) t = Inr (Some w)"
  shows "to_millis (be_CollectedAt e) < to_millis t \<or> be_CollectedAt e - t > MaxClockSkew"
  using assms by (auto simp: judge_snapshot_def split: option.splits if_splits)

lemma host_told:
  assumes told: "told_of a" and r: "inv_take lb installation every looks tries saving t a = (Round_done, a')"
    and d: "distinct (map lk_kind looks)" and l: "l \<in> set looks" and s: "take_look lb installation l = Inr s"
    and j: "judge_look lb installation every (iv_held a) l = Inr w" and e: "every div 2 < refresh_after"
  shows "\<exists>x n. latest (lk_kind l) (iv_admitted a') = Some x \<and> sn_Digest x = sn_Digest s
     \<and> iv_held a' (KindName (lk_kind l)) = Some n \<and> tells x n
     \<and> lk_at l < be_CollectedAt n + (refresh_after - every div 2) \<and> be_CollectedAt n \<le> lk_at l + MaxClockSkew"
proof -
  let ?k = "lk_kind l"
  obtain chosen where c: "chosen = List.map_filter (pick lb installation every (iv_held a)) looks"
    "iv_held a' = record_entries chosen (iv_held a)" "iv_admitted a' = iv_admitted a @ map fst chosen"
    using inv_take_done [OF r] by metis
  note ch = choice_of_look [OF d l c(1)]
  have jd: "judge_snapshot every s (iv_held a (KindName ?k)) (lk_at l) = Inr w" using j s by (simp add: judge_look_def)
  show ?thesis
  proof (cases w)
    case None
    then have p: "choice ?k chosen = None" using ch s j by (simp add: pick_def)
    obtain n where n: "iv_held a (KindName ?k) = Some n" "sn_Digest s = be_Digest n"
      "lk_at l < be_CollectedAt n + (refresh_after - every div 2)" "be_CollectedAt n \<le> lk_at l + MaxClockSkew"
      using judged_not [OF jd [unfolded None]] by metis
    obtain x where "latest ?k (iv_admitted a) = Some x" "tells x n"
      using told n(1) unfolding told_of_def in_step_def by blast
    then show ?thesis using n p by (auto simp: c latest_choice record_entries_choice tells_def)
  next
    case (Some v)
    then have p: "choice ?k chosen = Some (s, lk_at l)" using ch s j by (simp add: pick_def)
    have "tells s (entry_of (s, lk_at l))" using take_look_Inr(2) [OF s] by (simp add: tells_def entry_of_def)
    moreover have "0 \<le> MaxClockSkew" by (simp add: MaxClockSkew_def duration_defs)
    ultimately show ?thesis using p e by (auto simp: c latest_choice record_entries_choice entry_of_def)
  qed
qed

text \<open>
  A snapshot that was admitted and not written down: the next run compares with the one before it.
\<close>

lemma round_of_one:
  assumes s: "take_look lb installation l = Inr s" and c: "lk_charged l"
    and j: "judge_snapshot every s (iv_held a (KindName (lk_kind l))) (lk_at l) = Inr w"
  shows "choose_each lb installation every (iv_held a) [l] (iv_stats a) =
     (Some (if w = None then [] else [(s, lk_at l)]), noted l (Inr s) None (iv_stats a))"
  using assms by (cases w) (auto simp: Let_def judge_look_def uncharged_def split: sum.splits)

lemma unwritten_hides_return:
  assumes k: "lk_kind l1 = lk_kind l2" "iv_held a (KindName (lk_kind l2)) = Some e"
    and s1: "take_look lb installation l1 = Inr s1" "lk_charged l1" "sn_Digest s1 \<noteq> be_Digest e"
      "be_CollectedAt e - lk_at l1 \<le> MaxClockSkew" "to_millis (be_CollectedAt e) < to_millis (lk_at l1)"
    and s2: "take_look lb installation l2 = Inr s2" "lk_charged l2" "sn_Digest s2 = be_Digest e"
      "be_CollectedAt e - lk_at l2 \<le> MaxClockSkew" "lk_at l2 < be_CollectedAt e + (refresh_after - every div 2)"
    and r1: "inv_take lb installation every [l1] [Takes] saving t a = (res, a1)" "saving \<noteq> Went"
    and b: "inv_begin cd module True (File_holds bytes) a1 = Some a2" "decode_baseline cd module bytes = Inr (iv_held a)"
  shows "\<exists>a3. inv_take lb installation every [l2] tries saving' t' a2 = (Round_done, a3)
     \<and> latest (lk_kind l2) (iv_admitted a3) = Some s1 \<and> sn_Digest s1 \<noteq> sn_Digest s2"
proof -
  have "judge_snapshot every s1 (iv_held a (KindName (lk_kind l1))) (lk_at l1) = Inr (Some Changed)"
    using k s1 by (simp add: judge_snapshot_def)
  note c1 = round_of_one [OF s1(1,2) this]
  have a1: "iv_admitted a1 = iv_admitted a @ [s1]"
    using r1 by (cases saving) (auto simp: inv_take_def c1 Let_def end_of_def simp del: choose_each.simps)
  have a2: "iv_held a2 = iv_held a" "iv_admitted a2 = iv_admitted a @ [s1]"
    using b a1 by (auto simp: inv_begin_def)
  have "judge_snapshot every s2 (iv_held a2 (KindName (lk_kind l2))) (lk_at l2) = Inr None"
    using k s2 a2 by (simp add: judge_snapshot_def)
  note c2 = round_of_one [OF s2(1,2) this]
  have "inv_take lb installation every [l2] tries saving' t' a2
      = (Round_done, inv_ended [] t' (a2\<lparr>iv_stats := noted l2 (Inr s2) None (iv_stats a2)\<rparr>))"
    by (simp add: inv_take_def c2 del: choose_each.simps)
  moreover have "latest (lk_kind l2) (iv_admitted a @ [s1]) = Some s1"
    using take_look_Inr(1) [OF s1(1)] k by (simp add: latest_def)
  ultimately show ?thesis using a2 s1(3) s2(3) by simp
qed

end
