(* ===== verification/Inventory_Samples.thy ===== *)
theory Inventory_Samples
  imports Inventory_Inv
begin

text \<open>
  A host that has no service, then one, then none again, and a collector that takes stock of it.
\<close>

definition sample_inv_libs :: inv_libs where
  "sample_inv_libs = \<lparr>ib_contract = \<lparr>il_service = (\<lambda>_. True), il_interface = (\<lambda>_. True), il_address = (\<lambda>_. True), il_prefix = (\<lambda>_. True)\<rparr>,
     ib_sha = (\<lambda>b. take 32 (b @ replicate 32 0)), ib_encode = (\<lambda>r. Some [of_nat (length (ir_Items r))]), ib_moment = (\<lambda>_. []),
     ib_hostname = [], ib_os = [], ib_arch = []\<rparr>"

definition sample_service :: inv_item where
  "sample_service = Item_Service \<lparr>sv_Name = ''ssh'', sv_DisplayName = [], sv_State = 1, sv_StartMode = [], sv_Path = []\<rparr>"

definition sample_look :: "time \<Rightarrow> inv_item list \<Rightarrow> inv_look" where
  "sample_look t items = \<lparr>lk_kind = SERVICE, lk_at = t, lk_found = Holds items 0, lk_charged = True, lk_largest = 100\<rparr>"

definition sample_snapshot :: "time \<Rightarrow> inv_item list \<Rightarrow> inv_snapshot" where
  "sample_snapshot t items =
     (let r = \<lparr>ir_RecordId = inv_identify sample_inv_libs ''inventory'' [] ''service'' t, ir_Kind = SERVICE,
           ir_Mode = SNAPSHOT, ir_CollectedAt = Some (Timestamp True t), ir_Hostname = [], ir_Os = [],
           ir_Architecture = [], ir_Ip = [], ir_Collector = ''inventory'', ir_Source = ''systemd'', ir_Items = items\<rparr>
      in \<lparr>sn_Kind = SERVICE, sn_Record = r, sn_Encoded = [of_nat (length items)],
          sn_Digest = EncodeToString (of_nat (length items) # replicate 31 0), sn_Skipped = 0\<rparr>)"

lemma sample_sum: "take 32 (x # replicate 32 y) = x # replicate 31 y"
  by (simp add: take_Cons')

lemma sample_take:
  "take_look sample_inv_libs [] (sample_look t []) = Inr (sample_snapshot t [])"
  "take_look sample_inv_libs [] (sample_look t [sample_service]) = Inr (sample_snapshot t [sample_service])"
  by (simp_all add: take_look_def Take_def sample_look_def sample_inv_libs_def sample_service_def sample_snapshot_def
      MaxInventoryItemsPerRecord_def MaxInventoryRecordBytes_def CheckInventory_def check_text_def check_enumerated_def
      singleton_kind_def sorted_items_def sort_by_def moduleOf_def kind_source_def KindName_def Let_def
      byte_in_def body_present_def body_kind_def stated_of_def sample_sum)

lemma sample_digests: "sn_Digest (sample_snapshot t [sample_service]) \<noteq> sn_Digest (sample_snapshot u [])"
  by (simp add: sample_snapshot_def Let_def EncodeToString_def hex_digit_def)

definition sample_inv_state :: inv_state where
  "sample_inv_state = \<lparr>iv_held = (\<lambda>_. None), iv_stats = (\<lambda>_. \<lparr>ks_Items = 0, ks_Taken = 0, ks_Sent = 0, ks_Failure = None, ks_Skipped = 0\<rparr>),
     iv_round = 0, iv_written = [], iv_admitted = []\<rparr>"

definition told_state :: inv_state where
  "told_state = snd (inv_take sample_inv_libs [] Hour [sample_look 1000000000 []] [Takes] Went 1 sample_inv_state)"

lemma sample_inv_runs: "inv_runs sample_inv_libs [] cd sample_inv_state"
  by (rule inv_new) (simp_all add: sample_inv_state_def)

lemma sample_judge: "judge_look sample_inv_libs [] Hour (iv_held sample_inv_state) (sample_look t []) = Inr (Some First)"
  by (simp add: judge_look_def sample_take judge_snapshot_def sample_inv_state_def)

lemma sample_choose:
  "choose_each sample_inv_libs [] Hour (iv_held sample_inv_state) [sample_look 1000000000 []] (iv_stats sample_inv_state)
     = (Some [(sample_snapshot 1000000000 [], 1000000000)],
        noted (sample_look 1000000000 []) (Inr (sample_snapshot 1000000000 [])) None (iv_stats sample_inv_state))"
  using round_of_one [OF sample_take(1), of 1000000000 Hour sample_inv_state "Some First"]
  by (simp add: sample_look_def judge_snapshot_def sample_inv_state_def del: choose_each.simps)

lemma sample_round:
  "inv_take sample_inv_libs [] Hour [sample_look 1000000000 []] [Takes] Went 1 sample_inv_state = (Round_done, told_state)"
  unfolding told_state_def by (simp add: inv_take_def sample_choose Let_def del: choose_each.simps)

lemma sample_held: "iv_held told_state = [''service'' \<mapsto> entry_of (sample_snapshot 1000000000 [], 1000000000)]"
proof -
  have k: "KindName (sn_Kind (sample_snapshot 1000000000 [])) = ''service''"
    by (simp add: sample_snapshot_def KindName_def)
  have "iv_held told_state = record_entries [(sample_snapshot 1000000000 [], 1000000000)] (iv_held sample_inv_state)"
    unfolding told_state_def by (simp add: inv_take_def sample_choose Let_def del: choose_each.simps)
  then show ?thesis by (simp add: record_entries_def k) (simp add: sample_inv_state_def)
qed

text \<open>A baseline that holds what the first round admitted.\<close>

definition sample_base_codec :: base_codec where
  "sample_base_codec = \<lparr>bc_format = (\<lambda>_. Some 1),
     bc_Unmarshal = (\<lambda>_. Some (1, [(''service'', entry_of (sample_snapshot 1000000000 [], 1000000000))]))\<rparr>"

lemma hex_digested: "length bs = 32 \<Longrightarrow> MatchString digested (EncodeToString bs)"
  using EncodeToString_hex [of bs]
  by (auto simp: MatchString_texts digested_def texts_of_pat_times is_hex_def is_digit_def byte_in_def elim!: list.pred_mono_strong)

lemma sample_decoded: "decode_baseline sample_base_codec ''inventory'' [] = Inr (iv_held told_state)"
proof -
  have "ir_RecordId (sn_Record (sample_snapshot 1000000000 [])) \<noteq> []"
    "length (ir_RecordId (sn_Record (sample_snapshot 1000000000 []))) \<le> 64"
    by (simp_all add: sample_snapshot_def inv_identify_def Let_def)
  moreover have "MatchString digested (sn_Digest (sample_snapshot 1000000000 []))"
    by (simp add: sample_snapshot_def Let_def hex_digested)
  ultimately have "entry_reads ''inventory'' (''service'', entry_of (sample_snapshot 1000000000 [], 1000000000))"
    by (simp add: entry_reads_def entry_of_def inv_kinds_def moduleOf_def KindName_def zero_time_def maxRecordID_def)
  then show ?thesis unfolding sample_held
    by (simp add: decode_baseline_def sample_base_codec_def maxBaseline_def inv_format_def)
qed

end
