(* ===== verification/Auth_Inv.thy ===== *)
theory Auth_Inv
  imports Auth_Collector
begin

text \<open>
  What the authentication module keeps as it reads the journal, is stopped and starts again: no place
  that was ever written down passes over an entry whose event the spool has not taken.
\<close>

section \<open>Places in the journal\<close>

text \<open>
  The journal is the list of the entries it gives from where the collection started. Opened at a
  place it gives the entry the cursor names and those after it, or those from the moment on.
\<close>

definition entries_from :: "journal_entry list \<Rightarrow> auth_position \<Rightarrow> journal_entry list" where
  "entries_from J p =
     (if po_Cursor p \<noteq> [] then dropWhile (\<lambda>e. en_Cursor e \<noteq> po_Cursor p) J
      else dropWhile (\<lambda>e. en_Realtime e < po_Since p) J)"

text \<open>The entries up to a place, and those that come after it.\<close>

definition passed_entries :: "journal_entry list \<Rightarrow> auth_position \<Rightarrow> journal_entry list" where
  "passed_entries J p =
     (if po_Cursor p \<noteq> [] then takeWhile (\<lambda>e. en_Cursor e \<noteq> po_Cursor p) J @ take 1 (entries_from J p)
      else takeWhile (\<lambda>e. en_Realtime e < po_Since p) J)"

definition entries_ahead :: "journal_entry list \<Rightarrow> auth_position \<Rightarrow> journal_entry list" where
  "entries_ahead J p = (if po_Cursor p \<noteq> [] then drop 1 (entries_from J p) else entries_from J p)"

text \<open>
  What is an event of an entry is one the spool took. \<open>T\<close> bounds the clock: an entry that was too old
  when it was read is too old at \<open>T\<close>.
\<close>

definition entry_handled :: "'a auth_libs \<Rightarrow> string \<Rightarrow> time \<Rightarrow> Record list \<Rightarrow> journal_entry \<Rightarrow> bool" where
  "entry_handled lb installation T adm e \<longleftrightarrow>
     (\<forall>pl ident. observe lb installation e T = Observed pl ident \<longrightarrow> record_of pl ident \<in> set adm)"

text \<open>A place that \<open>decode\<close> reads: an entry and when it was written, or a moment.\<close>

definition place_ok :: "auth_position \<Rightarrow> bool" where
  "place_ok p \<longleftrightarrow> po_Format p = auth_format
     \<and> (if po_Cursor p \<noteq> [] then journal_Cursor (po_Cursor p) \<and> po_Read p \<noteq> zero_time \<and> po_Since p = zero_time
        else po_Since p \<noteq> zero_time \<and> po_Read p = zero_time)"

definition place_covered :: "'a auth_libs \<Rightarrow> string \<Rightarrow> time \<Rightarrow> journal_entry list \<Rightarrow> Record list \<Rightarrow> auth_position \<Rightarrow> bool" where
  "place_covered lb installation T J adm p \<longleftrightarrow> place_ok p \<and>
     (\<forall>e \<in> set (passed_entries J p). entry_handled lb installation T adm e)
     \<and> (po_Cursor p \<noteq> [] \<longrightarrow> po_Cursor p \<in> en_Cursor ` set J)"

definition good_journal :: "journal_entry list \<Rightarrow> bool" where
  "good_journal J \<longleftrightarrow> distinct (map en_Cursor J) \<and> (\<forall>e \<in> set J. journal_Cursor (en_Cursor e) \<and> 0 < en_Realtime e)"

lemma journal_Cursor_nonempty: "\<not> journal_Cursor []"
  by (simp add: journal_Cursor_def MatchString_def cursorPattern_def)

lemma good_journal_cursor: "good_journal J \<Longrightarrow> e \<in> set J \<Longrightarrow> en_Cursor e \<noteq> []"
  using journal_Cursor_nonempty by (auto simp: good_journal_def)

lemma passed_ahead: "passed_entries J p @ entries_ahead J p = J"
proof (cases "po_Cursor p = []")
  case True
  then show ?thesis by (simp add: passed_entries_def entries_ahead_def entries_from_def)
next
  case False
  then show ?thesis
    by (simp add: passed_entries_def entries_ahead_def entries_from_def)
qed

lemma passed_reached:
  assumes g: "good_journal (pre @ e # post)" and p: "po_Cursor p = en_Cursor e"
  shows "passed_entries (pre @ e # post) p = pre @ [e]"
proof -
  have c: "po_Cursor p \<noteq> []" using good_journal_cursor [OF g, of e] p by simp
  have before: "\<And>x. x \<in> set pre \<Longrightarrow> en_Cursor x \<noteq> po_Cursor p"
    using g p by (auto simp: good_journal_def) (metis imageI)
  have "takeWhile (\<lambda>x. en_Cursor x \<noteq> po_Cursor p) (pre @ e # post) = pre"
    using before p by (simp add: takeWhile_append2)
  moreover have "entries_from (pre @ e # post) p = e # post"
    using before p c by (simp add: entries_from_def dropWhile_append2)
  ultimately show ?thesis using c by (simp add: passed_entries_def)
qed

lemma opened_at_ahead:
  assumes "po_Cursor p \<noteq> [] \<longrightarrow> po_Cursor p \<in> en_Cursor ` set J"
  shows "entries_from J p = (if po_Cursor p \<noteq> [] then [last (passed_entries J p)] else []) @ entries_ahead J p"
    and "po_Cursor p \<noteq> [] \<Longrightarrow> en_Cursor (last (passed_entries J p)) = po_Cursor p"
proof -
  have "entries_from J p \<noteq> [] \<and> en_Cursor (hd (entries_from J p)) = po_Cursor p" if c: "po_Cursor p \<noteq> []"
  proof -
    have "po_Cursor p \<in> en_Cursor ` set J" using assms c by simp
    then have ne: "entries_from J p \<noteq> []" using c by (auto simp: entries_from_def)
    then show ?thesis using hd_dropWhile [of "\<lambda>e. en_Cursor e \<noteq> po_Cursor p" J] c by (auto simp: entries_from_def)
  qed
  then show "entries_from J p = (if po_Cursor p \<noteq> [] then [last (passed_entries J p)] else []) @ entries_ahead J p"
    "po_Cursor p \<noteq> [] \<Longrightarrow> en_Cursor (last (passed_entries J p)) = po_Cursor p"
    by (cases "entries_from J p"; auto simp: passed_entries_def entries_ahead_def)+
qed

lemma handled_more: "entry_handled lb installation T adm e \<Longrightarrow> entry_handled lb installation T (adm @ later) e"
  by (auto simp: entry_handled_def)

lemma observe_later:
  assumes "observe lb installation e T = Observed pl i" "t \<le> T"
  shows "observe lb installation e t = Observed pl i"
  using assms by (auto simp: observe_def split: if_splits option.splits)

lemma handled_unobserved:
  "observe lb installation e t = Unrelated \<or> observe lb installation e t = Aged \<Longrightarrow> t \<le> T \<Longrightarrow> entry_handled lb installation T adm e"
  using observe_later [of lb installation e T _ _ t] by (auto simp: entry_handled_def)

lemma handled_observed:
  "observe lb installation e t = Observed pl i \<Longrightarrow> t \<le> T \<Longrightarrow> record_of pl i \<in> set adm \<Longrightarrow> entry_handled lb installation T adm e"
  using observe_later [of lb installation e T _ _ t] by (auto simp: entry_handled_def)

lemma covered_more: "place_covered lb installation T J adm p \<Longrightarrow> place_covered lb installation T J (adm @ later) p"
  by (auto simp: place_covered_def intro: handled_more)

section \<open>What a reading keeps\<close>

text \<open>\<open>behind\<close> are the entries that are behind the place reached, \<open>rest\<close> those held in the batch.\<close>

definition auth_reading ::
  "'a auth_libs \<Rightarrow> string \<Rightarrow> time \<Rightarrow> journal_entry list \<Rightarrow> auth_position \<Rightarrow> journal_entry list \<Rightarrow> journal_entry list \<Rightarrow> auth_state \<Rightarrow> bool" where
  "auth_reading lb installation T J p behind rest a \<longleftrightarrow>
     (\<forall>e \<in> set (passed_entries J p @ behind). entry_handled lb installation T (au_admitted a) e)
     \<and> (\<forall>e \<in> set rest. entry_handled lb installation T (au_admitted a @ ab_records (au_held a)) e)
     \<and> ab_cursor (au_held a) = (if rest = [] then [] else en_Cursor (last rest))
     \<and> (rest = [] \<longrightarrow> ab_records (au_held a) = [])
     \<and> (rest \<noteq> [] \<longrightarrow> ab_read (au_held a) = en_Realtime (last rest))
     \<and> (\<forall>q \<in> set (au_written a). place_covered lb installation T J (au_admitted a) q)
     \<and> place_covered lb installation T J (au_admitted a) (au_from a)
     \<and> (behind = [] \<longrightarrow> au_from a = p)"

lemma reading_written: "auth_reading lb installation T J p behind rest a \<Longrightarrow> q \<in> set (au_written a) \<Longrightarrow> place_covered lb installation T J (au_admitted a) q"
  by (simp add: auth_reading_def)

lemma reading_flush:
  assumes g: "good_journal J" and r: "auth_reading lb installation T J p behind rest a"
    and a: "entries_ahead J p = behind @ rest @ later" and f: "auth_flush tries saving a = (res, a')"
  shows "(\<forall>q \<in> set (au_written a'). place_covered lb installation T J (au_admitted a') q)
     \<and> (res = Went \<longrightarrow> auth_reading lb installation T J p (behind @ rest) [] a') \<and> au_first a' = au_first a"
proof (cases "rest = []")
  case True
  then show ?thesis using r f by (auto simp: auth_reading_def auth_flush_def Let_def)
next
  case False
  let ?adm = "au_admitted a @ ab_records (au_held a)"
  have J: "J = passed_entries J p @ behind @ rest @ later" using passed_ahead [of J p] a by simp
  then have inJ: "last rest \<in> set J" using False by (metis Un_iff last_in_set set_append)
  have cur: "ab_cursor (au_held a) = en_Cursor (last rest)" "ab_cursor (au_held a) \<noteq> []"
    using r False good_journal_cursor [OF g inJ] by (auto simp: auth_reading_def)
  have all: "\<forall>e \<in> set (passed_entries J p @ behind @ rest). entry_handled lb installation T ?adm e"
    using r by (auto simp: auth_reading_def intro: handled_more)
  define q where "q = \<lparr>po_Format = auth_format, po_Cursor = ab_cursor (au_held a), po_Read = ab_read (au_held a), po_Since = zero_time\<rparr>"
  have J': "J = (passed_entries J p @ behind @ butlast rest) @ last rest # later"
    using J False by (metis append.assoc append_Cons append_Nil append_butlast_last_id)
  have "passed_entries J q = (passed_entries J p @ behind @ butlast rest) @ [last rest]"
    by (subst (1) J', rule passed_reached) (use g J' cur in \<open>simp_all add: q_def\<close>)
  then have pq: "passed_entries J q = passed_entries J p @ behind @ rest" using False by simp
  have "place_ok q"
    using r False cur g inJ by (auto simp: place_ok_def q_def auth_reading_def good_journal_def zero_time_def)
  then have covq: "place_covered lb installation T J ?adm q"
    using all inJ cur unfolding place_covered_def pq by (auto simp: q_def)
  have w: "\<forall>x \<in> set (au_written a). place_covered lb installation T J ?adm x" using r by (auto simp: auth_reading_def covered_more)
  have w0: "\<forall>x \<in> set (au_written a). place_covered lb installation T J (au_admitted a) x" using r by (simp add: auth_reading_def)
  consider "res = Went" "au_admitted a' = ?adm" "au_written a' = q # au_written a" "au_from a' = q" "au_held a' = empty_batch" "au_first a' = au_first a"
    | "res \<noteq> Went" "au_admitted a' = ?adm" "au_written a' = au_written a" "au_first a' = au_first a"
    | "res \<noteq> Went" "au_admitted a' = au_admitted a" "au_written a' = au_written a" "au_first a' = au_first a"
    using f cur(2) unfolding auth_flush_def Let_def q_def
    by (cases "if ab_records (au_held a) = [] then Went else admit_loop tries"; cases saving) auto
  then show ?thesis
  proof cases
    case 1
    then show ?thesis using all w covq False by (auto simp: auth_reading_def empty_batch_def)
  qed (use w w0 in auto)
qed

lemma reading_gap [simp]:
  "auth_reading lb installation T J p behind rest (auth_gap a) = auth_reading lb installation T J p behind rest a"
  "auth_reading lb installation T J p behind rest (a\<lparr>au_first := f\<rparr>) = auth_reading lb installation T J p behind rest a"
  "auth_reading lb installation T J p behind rest (a\<lparr>au_stats := st\<rparr>) = auth_reading lb installation T J p behind rest a"
  "au_first (auth_gap a) = au_first a" "au_from (auth_gap a) = au_from a"
  by (simp_all add: auth_reading_def auth_gap_def)

lemma reading_take:
  assumes "auth_reading lb installation T J p behind rest a" "t \<le> T"
  shows "auth_reading lb installation T J p behind (rest @ [e]) (auth_take lb installation e t a)"
    and "au_first (auth_take lb installation e t a) = au_first a"
proof -
  have old: "\<forall>x \<in> set rest. entry_handled lb installation T (au_admitted a @ ab_records (au_held a) @ ms) x" for ms
    using assms handled_more [of lb installation T "au_admitted a @ ab_records (au_held a)" _ ms] by (simp add: auth_reading_def)
  show "auth_reading lb installation T J p behind (rest @ [e]) (auth_take lb installation e t a)"
  proof (cases "observe lb installation e t")
    case (Observed pl i)
    then have "entry_handled lb installation T (au_admitted a @ ab_records (au_held a) @ [record_of pl i]) e"
      using assms(2) by (rule handled_observed) simp
    then show ?thesis using assms Observed old [of "[record_of pl i]"] by (auto simp: auth_reading_def auth_take_def Let_def)
  qed (use assms old [of "[]"] handled_unobserved [of lb installation e t T] in
      \<open>auto simp: auth_reading_def auth_take_def Let_def\<close>)
  show "au_first (auth_take lb installation e t a) = au_first a"
    by (simp add: auth_take_def Let_def split: observation.splits)
qed

text \<open>The entries \<open>gs\<close> that the journal gave so far, the one the cursor names included.\<close>

definition reading_given ::
  "'a auth_libs \<Rightarrow> string \<Rightarrow> time \<Rightarrow> journal_entry list \<Rightarrow> auth_position \<Rightarrow> journal_entry list \<Rightarrow> auth_state \<Rightarrow> bool" where
  "reading_given lb installation T J p gs a \<longleftrightarrow> (\<exists>behind rest.
     gs = (if po_Cursor p \<noteq> [] \<and> \<not> au_first a then [last (passed_entries J p)] else []) @ behind @ rest
     \<and> (au_first a \<longrightarrow> behind = [] \<and> rest = []) \<and> auth_reading lb installation T J p behind rest a)"

definition turn_given :: "auth_turn \<Rightarrow> journal_entry list" where
  "turn_given tu = (case tu_next tu of Gives e \<Rightarrow> [e] | _ \<Rightarrow> [])"

lemma reading_given_flush:
  assumes g: "good_journal J" and c: "po_Cursor p \<noteq> [] \<longrightarrow> po_Cursor p \<in> en_Cursor ` set J"
    and r: "reading_given lb installation T J p gs a" and o: "entries_from J p = gs @ later"
    and f: "auth_flush tries saving a = (res, a')"
  shows "\<forall>q \<in> set (au_written a'). place_covered lb installation T J (au_admitted a') q"
    and "res = Went \<Longrightarrow> reading_given lb installation T J p gs a'"
    and "res = Went \<Longrightarrow> place_covered lb installation T J (au_admitted a') (au_from a')"
proof -
  obtain behind rest where b: "gs = (if po_Cursor p \<noteq> [] \<and> \<not> au_first a then [last (passed_entries J p)] else []) @ behind @ rest"
    "au_first a \<longrightarrow> behind = [] \<and> rest = []" "auth_reading lb installation T J p behind rest a"
    using r unfolding reading_given_def by blast
  have fl: "(\<forall>q \<in> set (au_written a'). place_covered lb installation T J (au_admitted a') q)
     \<and> (res = Went \<longrightarrow> auth_reading lb installation T J p (behind @ rest) [] a') \<and> au_first a' = au_first a"
  proof (cases "au_first a")
    case True
    then have "ab_cursor (au_held a) = []" using b by (simp add: auth_reading_def)
    then show ?thesis using f b True by (auto simp: auth_flush_def Let_def auth_reading_def)
  next
    case False
    then have "entries_ahead J p = behind @ rest @ later" using opened_at_ahead(1) [OF c] o b(1) by (auto split: if_splits)
    then show ?thesis using reading_flush [OF g b(3) _ f] by blast
  qed
  then show "\<forall>q \<in> set (au_written a'). place_covered lb installation T J (au_admitted a') q" by blast
  show "reading_given lb installation T J p gs a'" if "res = Went"
    using fl that b(1,2) unfolding reading_given_def by (intro exI [of _ "behind @ rest"] exI [of _ "[]"]) auto
  show "place_covered lb installation T J (au_admitted a') (au_from a')" if "res = Went"
    using fl that by (auto simp: auth_reading_def)
qed

lemma reading_given_next:
  assumes g: "good_journal J" and c: "po_Cursor p \<noteq> [] \<longrightarrow> po_Cursor p \<in> en_Cursor ` set J"
    and r: "reading_given lb installation T J p gs a" and o: "entries_from J p = gs @ e # later"
    and n: "tu_next tu = Gives e" "read_next lb installation follow tu a = (res, a')" and now: "tu_now tu \<le> T"
  shows "res = Turns_on" "reading_given lb installation T J p (gs @ [e]) a'"
proof -
  obtain behind rest where b: "gs = (if po_Cursor p \<noteq> [] \<and> \<not> au_first a then [last (passed_entries J p)] else []) @ behind @ rest"
    "au_first a \<longrightarrow> behind = [] \<and> rest = []" "auth_reading lb installation T J p behind rest a"
    using r unfolding reading_given_def by blast
  show "res = Turns_on" using n by (auto simp: read_next_def Let_def split: if_splits)
  show "reading_given lb installation T J p (gs @ [e]) a'"
  proof (cases "au_first a \<and> po_Cursor p \<noteq> []")
    case True
    then have from_p: "au_from a = p" "gs = []" using b by (simp_all add: auth_reading_def)
    have e: "e = last (passed_entries J p)" using opened_at_ahead(1) [OF c] o True from_p by simp
    then have "en_Cursor e = po_Cursor (au_from a)" using opened_at_ahead(2) [OF c] True from_p by simp
    then have a': "a' = a\<lparr>au_first := False\<rparr>" using n True from_p by (simp add: read_next_def)
    show ?thesis unfolding reading_given_def a'
      by (intro exI [of _ "[]"]) (use b True e from_p in simp)
  next
    case False
    have first: "po_Cursor (au_from a) = []" if "au_first a" using that False b by (simp add: auth_reading_def)
    let ?a = "(if au_first a \<and> po_Cursor (au_from a) \<noteq> [] \<and> \<not> follow then auth_gap a else a)\<lparr>au_first := False\<rparr>"
    have a': "a' = auth_take lb installation e (tu_now tu) ?a"
      using n first by (auto simp: read_next_def Let_def split: if_splits)
    have "auth_reading lb installation T J p behind rest ?a" using b(3) by simp
    from reading_take [OF this now, of e] show ?thesis unfolding reading_given_def a'
      by (intro exI [of _ behind] exI [of _ "rest @ [e]"]) (use b False in auto)
  qed
qed

definition all_covered :: "'a auth_libs \<Rightarrow> string \<Rightarrow> time \<Rightarrow> journal_entry list \<Rightarrow> auth_state \<Rightarrow> bool" where
  "all_covered lb installation T J a \<longleftrightarrow> (\<forall>q \<in> set (au_written a). place_covered lb installation T J (au_admitted a) q)"

lemma reading_given_covered: "reading_given lb installation T J p gs a \<Longrightarrow> all_covered lb installation T J a"
  by (auto simp: reading_given_def all_covered_def dest: reading_written)

text \<open>What a turn leaves, whatever comes of it.\<close>

definition turn_keeps ::
  "'a auth_libs \<Rightarrow> string \<Rightarrow> time \<Rightarrow> journal_entry list \<Rightarrow> auth_position \<Rightarrow> journal_entry list \<Rightarrow> turn_result \<Rightarrow> auth_state \<Rightarrow> bool" where
  "turn_keeps lb installation T J p gs res a \<longleftrightarrow> all_covered lb installation T J a
     \<and> (res = Turns_on \<longrightarrow> reading_given lb installation T J p gs a)
     \<and> (res = Reached_end \<longrightarrow> place_covered lb installation T J (au_admitted a) (au_from a))"

lemma reading_given_stats [simp]:
  "reading_given lb installation T J p gs (auth_gap a) = reading_given lb installation T J p gs a"
  "reading_given lb installation T J p gs (a\<lparr>au_stats := st\<rparr>) = reading_given lb installation T J p gs a"
  by (simp_all add: reading_given_def)

lemma read_next_keeps:
  assumes g: "good_journal J" and c: "po_Cursor p \<noteq> [] \<longrightarrow> po_Cursor p \<in> en_Cursor ` set J"
    and r: "reading_given lb installation T J p gs a" and o: "entries_from J p = gs @ turn_given tu @ later"
    and n: "read_next lb installation follow tu a = (res, a')" and now: "tu_now tu \<le> T"
  shows "turn_keeps lb installation T J p (gs @ turn_given tu) res a'"
proof (cases "tu_next tu")
  case (Gives e)
  then have "entries_from J p = gs @ e # later" using o by (simp add: turn_given_def)
  from reading_given_next [OF g c r this Gives n now] show ?thesis
    using Gives reading_given_covered by (auto simp: turn_keeps_def turn_given_def)
next
  case Gives_unreadable
  then have a': "res = Turns_on" "reading_given lb installation T J p gs a'" using n r by (auto simp: read_next_def)
  then show ?thesis using Gives_unreadable reading_given_covered [OF a'(2)] by (auto simp: turn_keeps_def turn_given_def)
next
  case Gives_end
  let ?a = "if au_first a \<and> \<not> follow \<and> po_Cursor (au_from a) \<noteq> [] then auth_gap a else a"
  obtain fr a1 where f: "auth_flush (tu_last_tries tu) (tu_last_saving tu) ?a = (fr, a1)" by fastforce
  have r': "reading_given lb installation T J p gs ?a" using r by simp
  have o': "entries_from J p = gs @ later" using o Gives_end by (simp add: turn_given_def)
  note k = reading_given_flush [OF g c r' o' f]
  have "a' = a1 \<and> (res = Reached_end \<longrightarrow> fr = Went) \<and> res \<noteq> Turns_on"
    using n f Gives_end by (cases fr) (auto simp: read_next_def Let_def)
  then show ?thesis using k by (auto simp: turn_keeps_def all_covered_def)
next
  case Gives_error
  obtain fr a1 where f: "auth_flush (tu_last_tries tu) (tu_last_saving tu) a = (fr, a1)" by fastforce
  have o': "entries_from J p = gs @ later" using o Gives_error by (simp add: turn_given_def)
  have "a' = a1 \<and> res \<noteq> Reached_end \<and> res \<noteq> Turns_on" using n f Gives_error by (cases fr) (auto simp: read_next_def)
  then show ?thesis using reading_given_flush(1) [OF g c r o' f] by (auto simp: turn_keeps_def all_covered_def)
qed

lemma read_turn_keeps:
  assumes g: "good_journal J" and c: "po_Cursor p \<noteq> [] \<longrightarrow> po_Cursor p \<in> en_Cursor ` set J"
    and r: "reading_given lb installation T J p gs a" and o: "entries_from J p = gs @ turn_given tu @ later"
    and n: "read_turn lb installation follow tu a = (res, a')" and now: "tu_now tu \<le> T"
  shows "turn_keeps lb installation T J p (gs @ turn_given tu) res a'"
proof (cases "ab_cursor (au_held a) \<noteq> [] \<and> (batch_full (au_held a) \<or> \<not> tu_pending tu)")
  case True
  obtain fr a1 where f: "auth_flush (tu_tries tu) (tu_saving tu) a = (fr, a1)" by fastforce
  note k = reading_given_flush [OF g c r o f]
  show ?thesis
  proof (cases "fr = Went")
    case True
    then have "read_next lb installation follow tu a1 = (res, a')" using n f \<open>_ \<and> _\<close> by (simp add: read_turn_def)
    then show ?thesis by (rule read_next_keeps [OF g c k(2) [OF True] o _ now])
  next
    case False
    then have "a' = a1 \<and> res \<noteq> Reached_end \<and> res \<noteq> Turns_on"
      using n f True by (cases fr) (auto simp: read_turn_def)
    then show ?thesis using k(1) by (auto simp: turn_keeps_def all_covered_def)
  qed
next
  case False
  then have "read_next lb installation follow tu a = (res, a')" using n by (auto simp: read_turn_def)
  then show ?thesis by (rule read_next_keeps [OF g c r o _ now])
qed

lemma read_turns_keeps:
  assumes g: "good_journal J" and c: "po_Cursor p \<noteq> [] \<longrightarrow> po_Cursor p \<in> en_Cursor ` set J"
  shows "\<lbrakk>reading_given lb installation T J p gs a; entries_from J p = gs @ concat (map turn_given tus) @ later;
     read_turns lb installation follow tus a = (res, a'); \<forall>tu \<in> set tus. tu_now tu \<le> T\<rbrakk> \<Longrightarrow>
     all_covered lb installation T J a' \<and> (res = Reached_end \<longrightarrow> place_covered lb installation T J (au_admitted a') (au_from a'))"
proof (induction tus arbitrary: gs a)
  case Nil
  then show ?case using reading_given_covered by fastforce
next
  case (Cons tu tus)
  obtain r1 a1 where t: "read_turn lb installation follow tu a = (r1, a1)" by fastforce
  have o': "entries_from J p = gs @ turn_given tu @ (concat (map turn_given tus) @ later)" using Cons.prems(2) by simp
  have "tu_now tu \<le> T" using Cons.prems(4) by simp
  note k = read_turn_keeps [OF g c Cons.prems(1) o' t this]
  show ?case
  proof (cases "r1 = Turns_on")
    case True
    then have "reading_given lb installation T J p (gs @ turn_given tu) a1" using k by (simp add: turn_keeps_def)
    then show ?thesis using Cons.IH [of "gs @ turn_given tu" a1] Cons.prems(2-4) t True by simp
  next
    case False
    then have "res = r1 \<and> a' = a1" using Cons.prems(3) t by (auto split: turn_result.splits)
    then show ?thesis using k False by (auto simp: turn_keeps_def)
  qed
qed

lemma auth_read_keeps:
  assumes g: "good_journal J" and k: "all_covered lb installation T J a" "place_covered lb installation T J (au_admitted a) p"
    and o: "\<exists>later. entries_from J p = concat (map turn_given tus) @ later"
    and n: "auth_read lb installation follow tus p a = (res, a')" and now: "\<forall>tu \<in> set tus. tu_now tu \<le> T"
  shows "all_covered lb installation T J a'"
    and "res = Reached_end \<Longrightarrow> place_covered lb installation T J (au_admitted a') (au_from a')"
proof -
  obtain later where o': "entries_from J p = [] @ concat (map turn_given tus) @ later" using o by auto
  have c: "po_Cursor p \<noteq> [] \<longrightarrow> po_Cursor p \<in> en_Cursor ` set J" using k(2) by (simp add: place_covered_def)
  have "reading_given lb installation T J p [] (start_reading p a)"
    using k unfolding reading_given_def start_reading_def
    by (intro exI [of _ "[]"]) (auto simp: auth_reading_def empty_batch_def all_covered_def place_covered_def)
  from read_turns_keeps [OF g c this o' _ now] n
  show "all_covered lb installation T J a'"
    "res = Reached_end \<Longrightarrow> place_covered lb installation T J (au_admitted a') (au_from a')"
    by (auto simp: auth_read_def)
qed

section \<open>Runs\<close>

definition position_codec_ok :: "position_codec \<Rightarrow> auth_position \<Rightarrow> bool" where
  "position_codec_ok cd p \<longleftrightarrow> pc_format cd (encode_position cd p) = Some (po_Format p)
     \<and> pc_Unmarshal cd (encode_position cd p) = Some p \<and> length (encode_position cd p) \<le> maxPosition"

lemma decode_encode_position: "place_ok p \<Longrightarrow> position_codec_ok cd p \<Longrightarrow> decode_position cd (encode_position cd p) = Inr p"
  by (auto simp: decode_position_def position_codec_ok_def place_ok_def split: if_splits)

text \<open>An entry that is too old at a moment is never an event at that moment.\<close>

lemma handled_old: "en_Realtime e < t - MaxEventAge \<Longrightarrow> t \<le> T \<Longrightarrow> entry_handled lb installation T adm e"
  using handled_unobserved [of lb installation e t T] by (auto simp: observe_def split: option.splits)

text \<open>
  What a run finds where the place is kept: nothing as long as nothing was written, a place that was
  written, or a file that is damaged. A collection that starts reads what is written from then on.
\<close>

definition file_found :: "position_codec \<Rightarrow> time \<Rightarrow> journal_entry list \<Rightarrow> auth_file \<Rightarrow> time \<Rightarrow> auth_state \<Rightarrow> bool" where
  "file_found cd T J found t a \<longleftrightarrow> t \<le> T \<and> t \<noteq> zero_time \<and> t - MaxEventAge \<noteq> zero_time \<and>
     (case found of
        No_file \<Rightarrow> au_written a = [] \<and> (\<forall>e \<in> set J. t \<le> en_Realtime e)
      | Unloadable \<Rightarrow> True
      | File_holds bytes \<Rightarrow> (case decode_position cd bytes of Inr q \<Rightarrow> q \<in> set (au_written a) | Inl _ \<Rightarrow> True))"

lemma auth_begin_keeps:
  assumes k: "all_covered lb installation T J a" and f: "file_found cd T J found t a"
    and b: "auth_begin cd discards found t saves a = (r, a')"
  shows "all_covered lb installation T J a'"
    and "r = Some p \<Longrightarrow> place_covered lb installation T J (au_admitted a') p"
proof -
  let ?since = "\<lambda>s. \<lparr>po_Format = auth_format, po_Cursor = [], po_Read = zero_time, po_Since = s\<rparr>"
  have new: "place_covered lb installation T J (au_admitted a) (?since t)" if "found = No_file"
  proof -
    have "takeWhile (\<lambda>e. en_Realtime e < t) J = []"
      using f that by (cases J) (auto simp: file_found_def)
    then show ?thesis using f by (simp add: place_covered_def place_ok_def passed_entries_def file_found_def)
  qed
  have old: "place_covered lb installation T J (au_admitted a) (?since (t - MaxEventAge))"
    using f by (auto simp: place_covered_def place_ok_def passed_entries_def file_found_def dest!: set_takeWhileD intro: handled_old [of _ t])
  have kept: "place_covered lb installation T J (au_admitted a) q" if "q \<in> set (au_written a)" for q
    using k that by (simp add: all_covered_def)
  have "all_covered lb installation T J a' \<and> (r = Some p \<longrightarrow> place_covered lb installation T J (au_admitted a') p)"
    using b k new old kept f
    by (auto simp: auth_begin_def file_found_def all_covered_def Let_def
        split: if_splits auth_file.splits sum.splits auth_sentinel.splits)
  then show "all_covered lb installation T J a'" "r = Some p \<Longrightarrow> place_covered lb installation T J (au_admitted a') p" by simp_all
qed

definition gives_from :: "journal_entry list \<Rightarrow> auth_turn list \<Rightarrow> auth_position \<Rightarrow> bool" where
  "gives_from J tus p \<longleftrightarrow> (\<exists>later. entries_from J p = concat (map turn_given tus) @ later)"

lemma auth_Collect_keeps:
  assumes g: "good_journal J" and k: "all_covered lb installation T J a" and f: "file_found cd T J found t a"
    and h: "\<And>p a1. auth_begin cd discards found t saves a = (Some p, a1) \<Longrightarrow> gives_from J tus p"
    and w: "\<And>p a1 a2. auth_begin cd discards found t saves a = (Some p, a1) \<Longrightarrow>
       auth_read lb installation False tus p a1 = (Reached_end, a2) \<Longrightarrow> gives_from J fus (au_from a2)"
    and n: "auth_Collect lb installation cd discards found t saves (Some tus) (Some fus) a = (res, a')"
    and now: "\<forall>tu \<in> set tus \<union> set fus. tu_now tu \<le> T"
  shows "all_covered lb installation T J a'"
proof -
  obtain r a1 where b: "auth_begin cd discards found t saves a = (r, a1)" by fastforce
  note k1 = auth_begin_keeps [OF k f b]
  show ?thesis
  proof (cases r)
    case None
    then show ?thesis using n b k1(1) by (simp add: auth_Collect_def)
  next
    case (Some p)
    obtain r2 a2 where d: "auth_read lb installation False tus p a1 = (r2, a2)" by fastforce
    have o: "\<exists>later. entries_from J p = concat (map turn_given tus) @ later" using h [OF b [unfolded Some]] by (simp add: gives_from_def)
    have nows: "\<forall>tu \<in> set tus. tu_now tu \<le> T" "\<forall>tu \<in> set fus. tu_now tu \<le> T" using now by auto
    note k2 = auth_read_keeps [OF g k1(1) k1(2) [OF Some] o d nows(1)]
    show ?thesis
    proof (cases "r2 = Reached_end")
      case True
      have "\<exists>later. entries_from J (au_from a2) = concat (map turn_given fus) @ later"
        using w [OF b [unfolded Some] d [unfolded True]] by (simp add: gives_from_def)
      moreover have "auth_read lb installation True fus (au_from a2) a2 = (res, a')"
        using n b d Some True by (simp add: auth_Collect_def)
      ultimately show ?thesis using auth_read_keeps(1) [OF g k2(1) k2(2) [OF True] _ _ nows(2)] by blast
    next
      case False
      then have "a' = a2" using n b d Some by (auto simp: auth_Collect_def split: turn_result.splits)
      then show ?thesis using k2(1) by simp
    qed
  qed
qed

text \<open>
  The runs of the collector one after the other, each from what the one before it left written and
  admitted.
\<close>

inductive auth_runs ::
  "'a auth_libs \<Rightarrow> string \<Rightarrow> position_codec \<Rightarrow> time \<Rightarrow> journal_entry list \<Rightarrow> auth_state \<Rightarrow> bool"
  for lb installation cd T J where
  runs_new: "au_written a = [] \<Longrightarrow> au_admitted a = [] \<Longrightarrow> auth_runs lb installation cd T J a"
| runs_more: "\<lbrakk>auth_runs lb installation cd T J a; file_found cd T J found t a;
     \<And>p a1. auth_begin cd discards found t saves a = (Some p, a1) \<Longrightarrow> gives_from J tus p;
     \<And>p a1 a2. auth_begin cd discards found t saves a = (Some p, a1) \<Longrightarrow>
       auth_read lb installation False tus p a1 = (Reached_end, a2) \<Longrightarrow> gives_from J fus (au_from a2);
     auth_Collect lb installation cd discards found t saves (Some tus) (Some fus) a = (res, a');
     \<forall>tu \<in> set tus \<union> set fus. tu_now tu \<le> T\<rbrakk>
   \<Longrightarrow> auth_runs lb installation cd T J a'"

lemma auth_runs_covered: "auth_runs lb installation cd T J a \<Longrightarrow> good_journal J \<Longrightarrow> all_covered lb installation T J a"
proof (induction rule: auth_runs.induct)
  case (runs_new a)
  then show ?case by (simp add: all_covered_def)
next
  case (runs_more a found t discards saves tus fus res a')
  then show ?case using auth_Collect_keeps by blast
qed

end
