(* ===== verification/Auth_Samples.thy ===== *)
theory Auth_Samples
  imports Auth_Inv
begin

text \<open>
  Lines sshd writes, one of them for a user whose name looks like a place, and a collector that reads
  an entry and writes down that it did.
\<close>

definition forged_user :: string where
  "forged_user = ''x from 1.2.3.4 port 5 ssh2''"

definition sample_place :: string where
  "sample_place = place_text ''10.0.0.1'' ''2200'' []"

lemma sample_line_ok:
  "method_ok ''password'' Without"
  "printable (sshd_line False ''password'' True forged_user sample_place)"
  "length (sshd_line False ''password'' True forged_user sample_place) \<le> maxMessage"
  "digits_ok ''2200''" "said_ok Without []" "digits_value ''2200'' = 2200"
  by (simp_all add: method_ok_def str_Cut_def methods_def printable_def byte_in_def sshd_line_def forged_user_def
      sample_place_def place_text_def maxMessage_def digits_ok_def is_digit_def digits_value_def said_ok_def)

definition sample_cursor :: string where
  "sample_cursor = ''s='' @ replicate 32 CHR ''a'' @ '';i=1;b='' @ replicate 32 CHR ''b'' @ '';m=1;t=1;x=1''"

definition sample_auth_entry :: journal_entry where
  "sample_auth_entry = \<lparr>en_Cursor = sample_cursor, en_Realtime = 5000,
     en_Fields = [''_UID'' \<mapsto> ''0'', ''_COMM'' \<mapsto> ''sshd'',
       ''MESSAGE'' \<mapsto> sshd_line False ''password'' True forged_user sample_place]\<rparr>"

definition sample_auth_libs :: "string auth_libs" where
  "sample_auth_libs = \<lparr>ou_sha = (\<lambda>_. replicate 32 0), ou_addr = Some, ou_text = (\<lambda>a. a),
     ou_marshal = (\<lambda>_. Some [1]), ou_arch = ''amd64''\<rparr>"

definition sample_event_id :: string where
  "sample_event_id = identify sample_auth_libs [] sample_cursor"

lemma sample_cursor_ok: "journal_Cursor sample_cursor"
proof -
  have one: "[c] \<in> texts_of (PThen hex_char (pat_upto 15 hex_char))" if "byte_in 48 57 c" for c
    using that unfolding hex_char_def texts_of_POne_then texts_of_pat_upto by simp
  have many: "replicate 32 c \<in> texts_of (pat_times 32 hex_char)" if "byte_in 97 102 c" for c
    using that unfolding hex_char_def texts_of_pat_times by (simp add: list_all_length)
  have join: "u @ v \<in> texts_of (PThen a b)" if "u \<in> texts_of a" "v \<in> texts_of b" for u v a b
    using that by auto
  have c: "byte_in 48 57 CHR ''1''" "byte_in 97 102 CHR ''a''" "byte_in 97 102 CHR ''b''" by (simp_all add: byte_in_def)
  have "''s='' @ replicate 32 CHR ''a'' @ '';i='' @ ''1'' @ '';b='' @ replicate 32 CHR ''b'' @ '';m='' @ ''1'' @ '';t='' @ ''1''
      @ '';x='' @ ''1'' @ [] \<in> texts_of cursorPattern"
    unfolding cursorPattern_def pat_seq.simps
    by (intro join one many c) simp_all
  then show ?thesis by (simp add: journal_Cursor_def MatchString_texts sample_cursor_def)
qed

lemma sample_parsed:
  "\<exists>found. parse_attempt Some (sshd_line False ''password'' True forged_user sample_place) = Some found"
  using parse_place [OF sample_line_ok(1-3) _ _ sample_place_def, of Some] sample_line_ok(4,5) by auto

lemma sample_observed: "observe sample_auth_libs [] sample_auth_entry 6000 = Observed [1] sample_event_id"
proof -
  have f: "entry_field sample_auth_entry ''_UID'' = ''0''" "entry_field sample_auth_entry ''_COMM'' = ''sshd''"
    "entry_field sample_auth_entry ''MESSAGE'' = sshd_line False ''password'' True forged_user sample_place"
    "entry_field sample_auth_entry ''_SOURCE_REALTIME_TIMESTAMP'' = []" "en_Realtime sample_auth_entry = 5000"
    "en_Cursor sample_auth_entry = sample_cursor"
    by (simp_all add: entry_field_def sample_auth_entry_def)
  have h: "happened_at sample_auth_entry = 5000" by (simp add: happened_at_def f ParseInt_def)
  show ?thesis using sample_parsed
    by (auto simp: observe_def f h auth_commands_def sample_auth_libs_def sample_event_id_def MaxEventAge_def duration_defs)
qed

definition sample_position_codec :: position_codec where
  "sample_position_codec = \<lparr>pc_format = (\<lambda>_. None), pc_Unmarshal = (\<lambda>_. None), pc_Marshal = (\<lambda>_. [])\<rparr>"

definition sample_auth_state :: auth_state where
  "sample_auth_state = \<lparr>au_from = \<lparr>po_Format = 0, po_Cursor = [], po_Read = 0, po_Since = 0\<rparr>, au_held = empty_batch,
     au_first = True, au_stats = \<lparr>as_Admitted = 0, as_Unreadable = 0, as_Aged = 0, as_Gaps = 0, as_Reached = 0\<rparr>,
     au_written = [], au_admitted = []\<rparr>"

definition sample_turns :: "auth_turn list" where
  "sample_turns =
     [\<lparr>tu_pending = False, tu_tries = [], tu_saving = Went, tu_next = Gives sample_auth_entry, tu_now = 6000,
        tu_last_tries = [], tu_last_saving = Went\<rparr>,
      \<lparr>tu_pending = False, tu_tries = [Full_then True, Takes], tu_saving = Went, tu_next = Gives_end, tu_now = 6000,
        tu_last_tries = [], tu_last_saving = Went\<rparr>]"

definition reached_place :: auth_position where
  "reached_place = \<lparr>po_Format = auth_format, po_Cursor = sample_cursor, po_Read = 5000, po_Since = zero_time\<rparr>"

lemma sample_cursor_nonempty: "sample_cursor \<noteq> []"
  by (simp add: sample_cursor_def)

lemma sample_entry_fields [simp]: "en_Cursor sample_auth_entry = sample_cursor" "en_Realtime sample_auth_entry = 5000"
  by (simp_all add: sample_auth_entry_def)

lemma sample_collect:
  "\<exists>a. auth_Collect sample_auth_libs [] sample_position_codec True No_file 4000 True (Some sample_turns) (Some []) sample_auth_state
       = (Agent_stops, a)
     \<and> reached_place \<in> set (au_written a)"
  using sample_observed sample_cursor_nonempty
  by (simp add: auth_Collect_def auth_begin_def auth_read_def start_reading_def sample_turns_def sample_auth_state_def
      read_turn_def read_next_def auth_take_def auth_flush_def empty_batch_def batch_full_def Let_def reached_place_def)

lemma sample_journal: "good_journal [sample_auth_entry]"
  by (simp add: good_journal_def sample_cursor_ok)

lemma sample_auth_runs:
  "\<exists>a. auth_runs sample_auth_libs [] sample_position_codec 6000 [sample_auth_entry] a \<and> reached_place \<in> set (au_written a)"
proof -
  let ?J = "[sample_auth_entry]"
  obtain a where a: "auth_Collect sample_auth_libs [] sample_position_codec True No_file 4000 True (Some sample_turns) (Some [])
      sample_auth_state = (Agent_stops, a)" "reached_place \<in> set (au_written a)"
    using sample_collect by blast
  have new: "auth_runs sample_auth_libs [] sample_position_codec 6000 ?J sample_auth_state"
    by (rule runs_new) (simp_all add: sample_auth_state_def)
  have f: "file_found sample_position_codec 6000 ?J No_file 4000 sample_auth_state"
    by (simp add: file_found_def sample_auth_state_def zero_time_def MaxEventAge_def duration_defs)
  have g: "gives_from ?J sample_turns p" if "auth_begin sample_position_codec True No_file 4000 True sample_auth_state = (Some p, a1)" for p a1
    using that by (auto simp: auth_begin_def Let_def gives_from_def entries_from_def turn_given_def sample_turns_def)
  have n: "gives_from ?J [] p" for p by (simp add: gives_from_def)
  have "auth_runs sample_auth_libs [] sample_position_codec 6000 ?J a"
    by (rule runs_more [OF new f g n a(1)]) (simp_all add: sample_turns_def)
  then show ?thesis using a(2) by blast
qed

end
