(* ===== verification/Modules_Collection.thy ===== *)
theory Modules_Collection
  imports Strings Complex_Main
begin

text \<open>
  The collection that supervises the modules of a build, \<open>internal/modules/modules.go\<close>: how it is
  composed, how the set of collecting modules is applied, and what the goroutine of a module does
  between two locks. A goroutine is a point of \<open>collect\<close> at which it may be held up; every move from
  one point to the next is a total function of the state, and \<open>None\<close> when it cannot be made there.
  The channel \<open>done\<close> of a module and the context its \<open>cancel\<close> ends are named by the goroutine they
  were made for. What \<open>Collect\<close> returns, the clock and the draws of \<open>rand\<close> are inputs of the moves.
  Counters are integers, which stand for \<open>int\<close> as long as it does not wrap; the arithmetic of the
  jitter is in exact rationals. Log lines are left out.
\<close>

section \<open>Composing\<close>

text \<open>\<open>md_Collect\<close> says whether there is a function to collect with.\<close>

record Module =
  md_Name :: string
  md_Enabled :: bool
  md_Collect :: bool

datatype mod_state = Mod_Disabled | Mod_Running | Mod_Degraded | Mod_Failed

record Health =
  he_Name :: string
  he_State :: mod_state
  he_Since :: time
  he_Restarts :: int
  he_Reason :: string

record mod_policy =
  mp_Backoff :: duration
  mp_MaxBackoff :: duration
  mp_Budget :: int
  mp_Recovered :: duration
  mp_Stop :: duration

definition default_policy :: mod_policy where
  "default_policy = \<lparr>mp_Backoff = Second, mp_MaxBackoff = 5 * Minute, mp_Budget = 5,
     mp_Recovered = 5 * Minute, mp_Stop = 5 * Second\<rparr>"

definition mod_jitter :: rat where "mod_jitter = 1 / 5"

definition maxReason :: nat where "maxReason = 256"

definition errStoppedEarly :: string where
  "errStoppedEarly = ''stopped before the agent was asked to stop''"

datatype compose_problem =
  NoLogger | NotATime string duration | NotABudget int | LongBackoff duration duration
| NoName string | ComposedTwice string | NothingToCollect string

definition settle_time :: "string \<Rightarrow> duration \<Rightarrow> duration \<Rightarrow> duration \<times> compose_problem list" where
  "settle_time name given fallback =
     (if given < 0 then (given, [NotATime name given])
      else if given = 0 then (fallback, []) else (given, []))"

definition settled_policy :: "mod_policy \<Rightarrow> mod_policy \<times> compose_problem list" where
  "settled_policy p =
     (let (b, ps1) = settle_time ''backoff'' (mp_Backoff p) (mp_Backoff default_policy);
          (m, ps2) = settle_time ''maximum backoff'' (mp_MaxBackoff p) (mp_MaxBackoff default_policy);
          (r, ps3) = settle_time ''recovery'' (mp_Recovered p) (mp_Recovered default_policy);
          (s, ps4) = settle_time ''stop'' (mp_Stop p) (mp_Stop default_policy);
          bs = (if mp_Budget p < 0 then [NotABudget (mp_Budget p)] else []);
          n = (if mp_Budget p = 0 then mp_Budget default_policy else mp_Budget p)
      in (\<lparr>mp_Backoff = b, mp_MaxBackoff = m, mp_Budget = n, mp_Recovered = r, mp_Stop = s\<rparr>,
          ps1 @ ps2 @ ps3 @ ps4 @ bs @ (if m < b then [LongBackoff b m] else [])))"

record held_module = Module +
  hm_desired :: bool
  hm_running :: bool
  hm_spent :: bool
  hm_since :: time
  hm_restarts :: int
  hm_failures :: int
  hm_reason :: string
  hm_done :: "nat option"

definition hm_state :: "held_module \<Rightarrow> mod_state" where
  "hm_state m =
     (if \<not> hm_desired m then Mod_Disabled
      else if hm_running m then Mod_Running
      else if hm_spent m then Mod_Failed else Mod_Degraded)"

definition new_module :: "Module \<Rightarrow> time \<Rightarrow> held_module" where
  "new_module m now =
     \<lparr>md_Name = md_Name m, md_Enabled = md_Enabled m, md_Collect = md_Collect m,
      hm_desired = md_Enabled m, hm_running = False, hm_spent = False, hm_since = now,
      hm_restarts = 0, hm_failures = 0, hm_reason = '''', hm_done = None\<rparr>"

text \<open>
  Where a goroutine of \<open>collect\<close> may be held up: at the head of the loop, inside \<open>Collect\<close>, before
  the lock of \<open>failed\<close>, at the timer, before the lock of a restart, before that of \<open>stopped\<close>, and
  before that of \<open>released\<close> with the error it spent its budget on.
\<close>

datatype point =
  Entering | Collecting time | Returned "string option" duration | AtTimer duration
| Restarting | Leaving | Releasing "string option"

record goroutine =
  go_module :: string
  go_point :: point
  go_cancelled :: bool

text \<open>
  \<open>col_work\<close> says whether \<open>work\<close> is set and \<open>col_ended\<close> whether the context of \<open>Run\<close> is cancelled.
  \<open>col_live\<close> holds the goroutines that have not been released, \<open>col_number\<close> names the next, and
  \<open>col_closed\<close> lists the channels that were closed, the last one first.
\<close>

record collection =
  col_policy :: mod_policy
  col_modules :: "string \<Rightarrow> held_module option"
  col_order :: "string list"
  col_work :: bool
  col_stopping :: bool
  col_ran :: bool
  col_ended :: bool
  col_live :: "nat \<Rightarrow> goroutine option"
  col_number :: nat
  col_closed :: "nat list"

text \<open>One turn of the loop of \<open>New\<close>, for the module at position \<open>i\<close>.\<close>

definition compose_one ::
  "nat \<Rightarrow> Module \<Rightarrow> time \<Rightarrow> collection \<times> compose_problem list \<Rightarrow> collection \<times> compose_problem list" where
  "compose_one i m now s =
     (let (c, problems) = s;
          label = (if md_Name m = '''' then ''module '' @ FormatNat i else md_Name m);
          ps = (if md_Name m = '''' then [NoName label]
                else if col_modules c label \<noteq> None then [ComposedTwice label] else [])
             @ (if md_Collect m then [] else [NothingToCollect label]);
          order = (if col_modules c label = None then col_order c @ [label] else col_order c)
      in (c\<lparr>col_order := order, col_modules := (col_modules c)(label \<mapsto> new_module m now)\<rparr>,
          problems @ ps))"

fun compose_from ::
  "nat \<Rightarrow> (Module \<times> time) list \<Rightarrow> collection \<times> compose_problem list \<Rightarrow> collection \<times> compose_problem list" where
  "compose_from i [] s = s"
| "compose_from i ((m, now) # ms) s = compose_from (Suc i) ms (compose_one i m now s)"

definition empty_collection :: "mod_policy \<Rightarrow> collection" where
  "empty_collection p =
     \<lparr>col_policy = p, col_modules = (\<lambda>_. None), col_order = [], col_work = False, col_stopping = False,
      col_ran = False, col_ended = False, col_live = (\<lambda>_. None), col_number = 0, col_closed = []\<rparr>"

definition New_collection ::
  "bool \<Rightarrow> mod_policy \<Rightarrow> (Module \<times> time) list \<Rightarrow> compose_problem list + collection" where
  "New_collection logger p ms =
     (let (settled, refused) = settled_policy p;
          (c, problems) =
            compose_from 0 ms (empty_collection settled, (if logger then [] else [NoLogger]) @ refused)
      in if problems \<noteq> [] then Inl problems else Inr c)"

section \<open>Starting and stopping\<close>

definition set_module :: "string \<Rightarrow> (held_module \<Rightarrow> held_module) \<Rightarrow> collection \<Rightarrow> collection" where
  "set_module name f c =
     c\<lparr>col_modules := (col_modules c)(name := map_option f (col_modules c name))\<rparr>"

definition at_point :: "nat \<Rightarrow> point \<Rightarrow> collection \<Rightarrow> collection" where
  "at_point g p c =
     c\<lparr>col_live := (col_live c)(g := map_option (go_point_update (\<lambda>_. p)) (col_live c g))\<rparr>"

definition col_start :: "time \<Rightarrow> string \<Rightarrow> collection \<Rightarrow> collection" where
  "col_start now name c =
     (set_module name (\<lambda>m. m\<lparr>hm_done := Some (col_number c), hm_running := True, hm_reason := '''',
        hm_since := now\<rparr>) c)
     \<lparr>col_live := (col_live c)(col_number c \<mapsto>
        \<lparr>go_module = name, go_point = Entering, go_cancelled = False\<rparr>),
      col_number := Suc (col_number c)\<rparr>"

definition col_cancel :: "nat \<Rightarrow> collection \<Rightarrow> collection" where
  "col_cancel g c =
     c\<lparr>col_live := (col_live c)(g := map_option (go_cancelled_update (\<lambda>_. True)) (col_live c g))\<rparr>"

definition col_waiting :: "collection \<Rightarrow> string list \<Rightarrow> (string \<times> nat) list" where
  "col_waiting c names =
     List.map_filter (\<lambda>n. case col_modules c n of
        None \<Rightarrow> None | Some m \<Rightarrow> map_option (Pair n) (hm_done m)) names"

text \<open>
  What the selects of \<open>await\<close> see of each channel in turn: that it is closed, or that the deadline
  passed first and whether a look at the channel then finds it closed.
\<close>

datatype sighting = SawClosed | SawDeadline bool

fun found_closed :: "sighting \<Rightarrow> bool" where
  "found_closed SawClosed = True"
| "found_closed (SawDeadline found) = found"

fun col_await :: "bool \<Rightarrow> ((string \<times> nat) \<times> sighting) list \<Rightarrow> string list" where
  "col_await late [] = []"
| "col_await late (((name, g), s) # ws) =
     (if late then (if found_closed s then [] else [name]) @ col_await True ws
      else case s of
        SawClosed \<Rightarrow> col_await False ws
      | SawDeadline found \<Rightarrow> (if found then [] else [name]) @ col_await True ws)"

datatype col_error =
  RunsOnce | UnknownModules "string list" | ErrStopping | StillRunning "string list"

definition await_error :: "string list \<Rightarrow> col_error option" where
  "await_error stuck = (if stuck = [] then None else Some (StillRunning stuck))"

definition desired_module :: "collection \<Rightarrow> string \<Rightarrow> bool" where
  "desired_module c n = (case col_modules c n of None \<Rightarrow> False | Some m \<Rightarrow> hm_desired m)"

text \<open>\<open>Run\<close> up to where it waits for its context; \<open>clock\<close> is what each start reads.\<close>

definition Run_begin :: "(string \<Rightarrow> time) \<Rightarrow> collection \<Rightarrow> col_error option \<times> collection" where
  "Run_begin clock c =
     (if col_ran c then (Some RunsOnce, c)
      else (None, fold (\<lambda>n c. if desired_module c n then col_start (clock n) n c else c) (col_order c)
              (c\<lparr>col_ran := True, col_work := True\<rparr>)))"

text \<open>\<open>Run\<close> after its context was cancelled: the channels it waits for, and the state it leaves.\<close>

definition Run_stop :: "collection \<Rightarrow> (string \<times> nat) list \<times> collection" where
  "Run_stop c =
     (let c' = c\<lparr>col_stopping := True, col_work := False\<rparr> in (col_waiting c' (col_order c'), c'))"

section \<open>Applying a set of modules\<close>

definition unknown_modules :: "collection \<Rightarrow> string list \<Rightarrow> string list" where
  "unknown_modules c enabled =
     foldl (\<lambda>u n. if col_modules c n = None \<and> n \<notin> set u then u @ [n] else u) [] enabled"

text \<open>The module is named and was disabled or spent.\<close>

definition asked_again :: "string list \<Rightarrow> string \<Rightarrow> held_module \<Rightarrow> bool" where
  "asked_again enabled name m \<longleftrightarrow> name \<in> set enabled \<and> (\<not> hm_desired m \<or> hm_spent m)"

text \<open>One turn of the loop of \<open>Apply\<close>; the list is \<open>releasing\<close>.\<close>

definition apply_one ::
  "string list \<Rightarrow> (string \<Rightarrow> time) \<Rightarrow> string \<Rightarrow> string list \<times> collection \<Rightarrow> string list \<times> collection" where
  "apply_one enabled clock name s =
     (let (releasing, c) = s in
      case col_modules c name of
        None \<Rightarrow> s
      | Some m \<Rightarrow>
          if asked_again enabled name m then
            let c = set_module name (\<lambda>m. m\<lparr>hm_restarts := (if hm_spent m then hm_restarts m + 1 else hm_restarts m),
                      hm_desired := True, hm_spent := False, hm_failures := 0\<rparr>) c
            in (releasing, if col_work c \<and> hm_done m = None then col_start (clock name) name c else c)
          else if name \<notin> set enabled \<and> hm_desired m then
            let c = set_module name (\<lambda>m. m\<lparr>hm_desired := False\<rparr>) c
            in (case hm_done m of None \<Rightarrow> (releasing, c) | Some g \<Rightarrow> (releasing @ [name], col_cancel g c))
          else s)"

text \<open>\<open>Apply\<close> up to where it waits: an error, or the channels it waits for.\<close>

definition col_Apply ::
  "string list \<Rightarrow> (string \<Rightarrow> time) \<Rightarrow> collection \<Rightarrow> (col_error + (string \<times> nat) list) \<times> collection" where
  "col_Apply enabled clock c =
     (let unknown = unknown_modules c enabled in
      if unknown \<noteq> [] then (Inl (UnknownModules unknown), c)
      else if col_stopping c then (Inl ErrStopping, c)
      else let (releasing, c') = fold (apply_one enabled clock) (col_order c) ([], c)
           in (Inr (col_waiting c' releasing), c'))"

definition col_Health :: "collection \<Rightarrow> Health list" where
  "col_Health c =
     map (\<lambda>n. let m = the (col_modules c n) in
       \<lparr>he_Name = n, he_State = hm_state m, he_Since = hm_since m, he_Restarts = hm_restarts m,
        he_Reason = hm_reason m\<rparr>) (col_order c)"

section \<open>The goroutine of a module\<close>

primrec backoff_loop :: "duration \<Rightarrow> nat \<Rightarrow> duration \<Rightarrow> duration" where
  "backoff_loop longest 0 wait = wait"
| "backoff_loop longest (Suc n) wait =
     (if wait \<ge> longest div 2 then longest else backoff_loop longest n (wait * 2))"

definition col_backoff :: "mod_policy \<Rightarrow> int \<Rightarrow> rat \<Rightarrow> duration" where
  "col_backoff p failures draw =
     (let wait = of_int (backoff_loop (mp_MaxBackoff p) (nat (failures - 1)) (mp_Backoff p));
          spread = wait * mod_jitter
      in \<lfloor>wait - spread + draw * 2 * spread\<rfloor>)"

definition bounded_reason :: "string \<Rightarrow> string" where
  "bounded_reason r = (if length r \<le> maxReason then r else take maxReason r @ ''...'')"

text \<open>\<open>failed\<close>: the state it leaves, and how long to wait or the error that spent the budget.\<close>

definition failed_module :: "mod_policy \<Rightarrow> string option \<Rightarrow> duration \<Rightarrow> time \<Rightarrow> held_module \<Rightarrow> held_module" where
  "failed_module p err lasted now m =
     m\<lparr>hm_running := False,
       hm_failures := (if lasted \<ge> mp_Recovered p then 0 else hm_failures m) + 1,
       hm_since := now,
       hm_reason := bounded_reason (case err of None \<Rightarrow> errStoppedEarly | Some e \<Rightarrow> e)\<rparr>"

definition col_failed ::
  "string \<Rightarrow> string option \<Rightarrow> duration \<Rightarrow> time \<Rightarrow> rat \<Rightarrow> collection \<Rightarrow> (string + duration) \<times> collection" where
  "col_failed name err lasted now draw c =
     (let c' = set_module name (failed_module (col_policy c) err lasted now) c;
          failures = (case col_modules c' name of None \<Rightarrow> 0 | Some m \<Rightarrow> hm_failures m)
      in (if failures \<ge> mp_Budget (col_policy c)
          then Inl (case err of None \<Rightarrow> errStoppedEarly | Some e \<Rightarrow> e)
          else Inr (col_backoff (col_policy c) failures draw), c'))"

definition col_stopped :: "string \<Rightarrow> time \<Rightarrow> collection \<Rightarrow> collection" where
  "col_stopped name now = set_module name (\<lambda>m. m\<lparr>hm_running := False, hm_since := now\<rparr>)"

text \<open>\<open>released\<close>, for the goroutine \<open>g\<close> that ends with it.\<close>

definition col_released :: "nat \<Rightarrow> string \<Rightarrow> string option \<Rightarrow> collection \<Rightarrow> collection" where
  "col_released g name spent c =
     (set_module name (\<lambda>m. m\<lparr>hm_done := None, hm_running := False,
        hm_spent := hm_spent m \<or> spent \<noteq> None\<rparr>) c)
     \<lparr>col_live := (col_live c)(g := None),
      col_closed := (case Option.bind (col_modules c name) hm_done of
         None \<Rightarrow> col_closed c | Some d \<Rightarrow> d # col_closed c)\<rparr>"

datatype move =
  Enter time | Return "string option" time | Fail time rat | Fire | Quit | Restart time | Leave time | Finish

definition ctx_ended :: "collection \<Rightarrow> goroutine \<Rightarrow> bool" where
  "ctx_ended c r \<longleftrightarrow> go_cancelled r \<or> col_ended c"

text \<open>One move of \<open>collect\<close> from the point its goroutine is held up at to the next.\<close>

definition col_move :: "nat \<Rightarrow> move \<Rightarrow> collection \<Rightarrow> collection option" where
  "col_move g mv c =
     (case col_live c g of
        None \<Rightarrow> None
      | Some r \<Rightarrow>
          (case (go_point r, mv) of
             (Entering, Enter now) \<Rightarrow> Some (at_point g (Collecting now) c)
           | (Collecting started, Return err now) \<Rightarrow>
               Some (at_point g (if ctx_ended c r then Leaving else Returned err (now - started)) c)
           | (Returned err lasted, Fail now draw) \<Rightarrow>
               (case col_failed (go_module r) err lasted now draw c of
                  (Inl e, c') \<Rightarrow> Some (at_point g (Releasing (Some e)) c')
                | (Inr wait, c') \<Rightarrow> Some (at_point g (AtTimer wait) c'))
           | (AtTimer wait, Fire) \<Rightarrow> Some (at_point g Restarting c)
           | (AtTimer wait, Quit) \<Rightarrow> if ctx_ended c r then Some (at_point g Leaving c) else None
           | (Restarting, Restart now) \<Rightarrow>
               Some (at_point g Entering (set_module (go_module r)
                 (\<lambda>m. m\<lparr>hm_restarts := hm_restarts m + 1, hm_running := True, hm_reason := '''', hm_since := now\<rparr>) c))
           | (Leaving, Leave now) \<Rightarrow> Some (at_point g (Releasing None) (col_stopped (go_module r) now c))
           | (Releasing spent, Finish) \<Rightarrow> Some (col_released g (go_module r) spent c)
           | _ \<Rightarrow> None))"

section \<open>The steps of a collection\<close>

text \<open>
  What the steps tell: that a module was asked for again (\<open>Apply\<close> forgot its failures), and that a
  call of \<open>Collect\<close> of a module failed after so long.
\<close>

datatype col_event = Again string | Ran string duration

fun move_event :: "goroutine \<Rightarrow> move \<Rightarrow> col_event list" where
  "move_event r mv =
     (case (go_point r, mv) of (Returned err lasted, Fail now draw) \<Rightarrow> [Ran (go_module r) lasted] | _ \<Rightarrow> [])"

definition apply_events :: "string list \<Rightarrow> collection \<Rightarrow> col_event list" where
  "apply_events enabled c =
     (if unknown_modules c enabled \<noteq> [] \<or> col_stopping c then []
      else map Again (filter (\<lambda>n. case col_modules c n of None \<Rightarrow> False | Some m \<Rightarrow> asked_again enabled n m)
             (col_order c)))"

inductive col_step :: "collection \<Rightarrow> col_event list \<Rightarrow> collection \<Rightarrow> bool" where
  step_Run: "Run_begin clock c = (None, c') \<Longrightarrow> col_step c [] c'"
| step_ended: "col_step c [] (c\<lparr>col_ended := True\<rparr>)"
| step_stop: "col_ran c \<Longrightarrow> col_ended c \<Longrightarrow> \<not> col_stopping c \<Longrightarrow> Run_stop c = (ws, c') \<Longrightarrow> col_step c [] c'"
| step_Apply: "col_Apply enabled clock c = (r, c') \<Longrightarrow> col_step c (apply_events enabled c) c'"
| step_move: "col_live c g = Some r \<Longrightarrow> col_move g mv c = Some c' \<Longrightarrow> col_step c (move_event r mv) c'"

inductive col_runs :: "collection \<Rightarrow> col_event list \<Rightarrow> collection \<Rightarrow> bool" where
  runs_none: "col_runs c [] c"
| runs_step: "col_runs c tr c' \<Longrightarrow> col_step c' es c'' \<Longrightarrow> col_runs c (tr @ es) c''"

end
