(* ===== verification/Modules_Inv.thy ===== *)
theory Modules_Inv
  imports Modules_Collection
begin

text \<open>
  The invariant of a collection of modules, \<open>internal/modules/modules.go\<close>: every module has at most
  one goroutine, the one its channel was made for, and a channel is closed once. Every step keeps it.
\<close>

section \<open>The invariant\<close>

definition policy_fine :: "mod_policy \<Rightarrow> bool" where
  "policy_fine p \<longleftrightarrow> 0 < mp_Backoff p \<and> mp_Backoff p \<le> mp_MaxBackoff p \<and> 0 < mp_Budget p
     \<and> 0 < mp_Recovered p \<and> 0 < mp_Stop p"

fun point_ok :: "int \<Rightarrow> held_module \<Rightarrow> point \<Rightarrow> bool" where
  "point_ok limit m (Releasing (Some e)) \<longleftrightarrow> \<not> hm_running m"
| "point_ok limit m (Releasing None) \<longleftrightarrow> \<not> hm_running m \<and> hm_failures m < limit"
| "point_ok limit m Leaving \<longleftrightarrow> hm_failures m < limit"
| "point_ok limit m (AtTimer w) \<longleftrightarrow> \<not> hm_running m \<and> hm_failures m < limit"
| "point_ok limit m Restarting \<longleftrightarrow> \<not> hm_running m \<and> hm_failures m < limit"
| "point_ok limit m p \<longleftrightarrow> hm_running m \<and> hm_failures m < limit"

definition module_ok :: "mod_policy \<Rightarrow> (nat \<Rightarrow> goroutine option) \<Rightarrow> string \<Rightarrow> held_module \<Rightarrow> bool" where
  "module_ok p live n m \<longleftrightarrow> 0 \<le> hm_failures m \<and>
     (case hm_done m of
        None \<Rightarrow> \<not> hm_running m
      | Some g \<Rightarrow> \<not> hm_spent m
          \<and> (\<exists>r. live g = Some r \<and> go_module r = n \<and> point_ok (mp_Budget p) m (go_point r)))"

definition module_idle :: "held_module \<Rightarrow> bool" where
  "module_idle m \<longleftrightarrow> hm_done m = None \<and> \<not> hm_spent m \<and> hm_failures m = 0"

definition wf_collection :: "collection \<Rightarrow> bool" where
  "wf_collection c \<longleftrightarrow>
     policy_fine (col_policy c)
     \<and> distinct (col_order c) \<and> set (col_order c) = dom (col_modules c)
     \<and> (\<forall>n m. col_modules c n = Some m \<longrightarrow> module_ok (col_policy c) (col_live c) n m)
     \<and> (\<forall>g r. col_live c g = Some r \<longrightarrow> g < col_number c
          \<and> (\<exists>m. col_modules c (go_module r) = Some m \<and> hm_done m = Some g))
     \<and> distinct (col_closed c) \<and> (\<forall>g. g \<in> set (col_closed c) \<longrightarrow> g < col_number c \<and> col_live c g = None)
     \<and> (\<not> col_ran c \<longrightarrow> \<not> col_work c \<and> (\<forall>n m. col_modules c n = Some m \<longrightarrow> module_idle m))"

lemma wf_module: "wf_collection c \<Longrightarrow> col_modules c n = Some m \<Longrightarrow> module_ok (col_policy c) (col_live c) n m"
  by (simp add: wf_collection_def)

lemma wf_live:
  assumes "wf_collection c" "col_live c g = Some r"
  obtains m where "g < col_number c" "col_modules c (go_module r) = Some m" "hm_done m = Some g"
    "\<not> hm_spent m" "0 \<le> hm_failures m" "point_ok (mp_Budget (col_policy c)) m (go_point r)"
proof -
  from assms obtain m where m: "g < col_number c" "col_modules c (go_module r) = Some m" "hm_done m = Some g"
    unfolding wf_collection_def by metis
  then have "module_ok (col_policy c) (col_live c) (go_module r) m" using assms(1) by (simp add: wf_module)
  then show thesis using m assms(2) by (auto simp: module_ok_def intro!: that)
qed

lemma col_simps [simp]:
  "col_modules (at_point g p c) = col_modules c"
  "col_order (at_point g p c) = col_order c"
  "col_policy (at_point g p c) = col_policy c"
  "col_number (at_point g p c) = col_number c"
  "col_closed (at_point g p c) = col_closed c"
  "col_ran (at_point g p c) = col_ran c"
  "col_work (at_point g p c) = col_work c"
  "col_stopping (at_point g p c) = col_stopping c"
  "col_ended (at_point g p c) = col_ended c"
  "col_live (at_point g p c) = (col_live c)(g := map_option (go_point_update (\<lambda>_. p)) (col_live c g))"
  "col_modules (set_module n f c) = (col_modules c)(n := map_option f (col_modules c n))"
  "col_order (set_module n f c) = col_order c"
  "col_policy (set_module n f c) = col_policy c"
  "col_number (set_module n f c) = col_number c"
  "col_closed (set_module n f c) = col_closed c"
  "col_ran (set_module n f c) = col_ran c"
  "col_work (set_module n f c) = col_work c"
  "col_stopping (set_module n f c) = col_stopping c"
  "col_ended (set_module n f c) = col_ended c"
  "col_live (set_module n f c) = col_live c"
  by (simp_all add: at_point_def set_module_def)

lemma set_module_same: "set_module n (\<lambda>m. m) c = c"
  by (simp add: set_module_def option.map_ident)

lemma dom_set_module [simp]: "dom ((f :: 'a \<Rightarrow> 'b option)(n := map_option h (f n))) = dom f"
  by (auto simp: dom_def)

section \<open>The moves\<close>

text \<open>A goroutine moves to another point and changes its own module, short of releasing it.\<close>

lemma wf_moved:
  assumes wf: "wf_collection c" and r: "col_live c g = Some r"
    and keep: "\<And>m. hm_done (f m) = hm_done m \<and> hm_spent (f m) = hm_spent m"
    and ok: "\<And>m. col_modules c (go_module r) = Some m \<Longrightarrow> 0 \<le> hm_failures m \<Longrightarrow>
        point_ok (mp_Budget (col_policy c)) m (go_point r) \<Longrightarrow>
        0 \<le> hm_failures (f m) \<and> point_ok (mp_Budget (col_policy c)) (f m) p"
  shows "wf_collection (at_point g p (set_module (go_module r) f c))"
proof -
  from wf_live [OF wf r] obtain m where m: "g < col_number c" "col_modules c (go_module r) = Some m"
    "hm_done m = Some g" "\<not> hm_spent m" "0 \<le> hm_failures m"
    "point_ok (mp_Budget (col_policy c)) m (go_point r)" .
  let ?live = "(col_live c)(g := map_option (go_point_update (\<lambda>_. p)) (col_live c g))"
  have own: "module_ok (col_policy c) ?live (go_module r) (f m)"
    using ok [OF m(2,5,6)] keep [of m] m r by (simp add: module_ok_def)
  have other: "module_ok (col_policy c) ?live n k" if n: "n \<noteq> go_module r" "col_modules c n = Some k" for n k
  proof -
    have k: "module_ok (col_policy c) (col_live c) n k" using wf_module [OF wf n(2)] .
    then have "hm_done k \<noteq> Some g" using r n(1) by (auto simp: module_ok_def)
    then show ?thesis using k by (auto simp: module_ok_def split: option.splits)
  qed
  have mods: "\<forall>n k. col_modules (at_point g p (set_module (go_module r) f c)) n = Some k
      \<longrightarrow> module_ok (col_policy c) ?live n k"
    using own other m(2) by auto
  have ran: "col_ran c" using wf m by (auto simp: wf_collection_def module_idle_def)
  have live: "h < col_number c \<and> (\<exists>k. ((col_modules c)(go_module r := map_option f (col_modules c (go_module r))))
        (go_module s) = Some k \<and> hm_done k = Some h)" if "?live h = Some s" for h s
  proof -
    from that obtain s' where s': "col_live c h = Some s'" "go_module s' = go_module s"
      by (auto split: if_splits simp: r)
    from wf_live [OF wf s'(1)] obtain k where "h < col_number c" "col_modules c (go_module s') = Some k" "hm_done k = Some h" .
    then show ?thesis using s'(2) keep [of k] by auto
  qed
  show ?thesis using wf mods live ran r unfolding wf_collection_def by auto
qed

lemma wf_released:
  assumes wf: "wf_collection c" and r: "col_live c g = Some r" and p: "go_point r = Releasing spent"
  shows "wf_collection (col_released g (go_module r) spent c)"
proof -
  from wf_live [OF wf r] obtain m where m: "g < col_number c" "col_modules c (go_module r) = Some m"
    "hm_done m = Some g" "\<not> hm_spent m" "0 \<le> hm_failures m" .
  have other: "module_ok (col_policy c) ((col_live c)(g := None)) n k"
    if n: "n \<noteq> go_module r" "col_modules c n = Some k" for n k
  proof -
    have k: "module_ok (col_policy c) (col_live c) n k" using wf_module [OF wf n(2)] .
    then have "hm_done k \<noteq> Some g" using r n(1) by (auto simp: module_ok_def)
    then show ?thesis using k by (auto simp: module_ok_def split: option.splits)
  qed
  have ran: "col_ran c" using wf m by (auto simp: wf_collection_def module_idle_def)
  have "g \<notin> set (col_closed c)" using wf r by (auto simp: wf_collection_def)
  moreover have "go_module s \<noteq> go_module r" if "h \<noteq> g" "col_live c h = Some s" for h s
    using wf_live [OF wf that(2)] m that(1) by (metis option.inject)
  ultimately show ?thesis
    using wf m other ran unfolding wf_collection_def col_released_def
    by (auto simp: module_ok_def)
qed

lemma wf_start:
  assumes wf: "wf_collection c" and m: "col_modules c n = Some m" "module_idle m" and ran: "col_ran c"
  shows "wf_collection (col_start now n c)"
proof -
  let ?r = "\<lparr>go_module = n, go_point = Entering, go_cancelled = False\<rparr>"
  let ?live = "(col_live c)(col_number c \<mapsto> ?r)"
  have new: "col_live c (col_number c) = None"
    using wf unfolding wf_collection_def by (metis less_irrefl not_None_eq)
  have other: "module_ok (col_policy c) ?live k l" if "col_modules c k = Some l" for k l
    using wf_module [OF wf that] new by (auto simp: module_ok_def split: option.splits)
  have apart: "go_module s \<noteq> n" if "col_live c h = Some s" for h s
    using wf_live [OF wf that] m by (metis module_idle_def option.distinct(1) option.inject)
  have limit: "0 < mp_Budget (col_policy c)" using wf by (simp add: wf_collection_def policy_fine_def)
  have fit: "h < col_number c" if "col_live c h = Some s" for h s using wf_live [OF wf that] by metis
  show ?thesis
    using wf m other apart ran limit fit unfolding wf_collection_def col_start_def
    by (auto simp: module_ok_def module_idle_def less_Suc_eq)
qed

lemma wf_failed:
  assumes wf: "wf_collection c" and r: "col_live c g = Some r" and p: "go_point r = Returned err lasted"
    and e: "col_failed (go_module r) err lasted now draw c = (res, c')"
  shows "c' = set_module (go_module r) (failed_module (col_policy c) err lasted now) c"
    and "wf_collection (at_point g (case res of Inl e \<Rightarrow> Releasing (Some e) | Inr w \<Rightarrow> AtTimer w) c')"
proof -
  show c': "c' = set_module (go_module r) (failed_module (col_policy c) err lasted now) c"
    using e by (auto simp: col_failed_def Let_def)
  have "point_ok (mp_Budget (col_policy c)) (failed_module (col_policy c) err lasted now m)
      (case res of Inl e \<Rightarrow> Releasing (Some e) | Inr w \<Rightarrow> AtTimer w)" if "col_modules c (go_module r) = Some m" for m
    using e that by (auto simp: col_failed_def Let_def failed_module_def split: if_splits)
  then show "wf_collection (at_point g (case res of Inl e \<Rightarrow> Releasing (Some e) | Inr w \<Rightarrow> AtTimer w) c')"
    unfolding c' by (intro wf_moved [OF wf r]) (auto simp: failed_module_def)
qed

lemmas wf_moved_alone = wf_moved [where f = "\<lambda>m. m", unfolded set_module_same]

lemma wf_move:
  assumes wf: "wf_collection c" and mv: "col_move g mv c = Some c'"
  shows "wf_collection c'"
proof -
  from mv obtain r where r: "col_live c g = Some r" by (auto simp: col_move_def split: option.splits)
  note moved = wf_moved_alone [OF wf r]
  show ?thesis
  proof (cases "go_point r")
    case (Returned err lasted)
    then obtain now draw where "mv = Fail now draw" using mv r by (cases mv) (auto simp: col_move_def)
    then show ?thesis
      using mv r Returned wf_failed(2) [OF wf r Returned, of now draw]
      by (cases "col_failed (go_module r) err lasted now draw c") (auto simp: col_move_def split: sum.splits)
  next
    case (Releasing spent)
    then show ?thesis using mv r wf_released [OF wf r Releasing] by (cases mv) (auto simp: col_move_def)
  next
    case Restarting
    then show ?thesis using mv r by (cases mv) (auto simp: col_move_def intro!: wf_moved [OF wf r])
  next
    case Leaving
    then show ?thesis using mv r by (cases mv) (auto simp: col_move_def col_stopped_def intro!: wf_moved [OF wf r])
  qed (use mv r in \<open>cases mv; auto simp: col_move_def intro!: moved split: if_splits\<close>)+
qed

section \<open>Applying a set, and running\<close>

lemma wf_modified:
  assumes wf: "wf_collection c"
    and keep: "\<And>m. col_modules c n = Some m \<Longrightarrow>
        hm_done (f m) = hm_done m \<and> hm_running (f m) = hm_running m
        \<and> (hm_failures (f m) = hm_failures m \<or> hm_failures (f m) = 0) \<and> (hm_spent (f m) \<longrightarrow> hm_spent m)"
  shows "wf_collection (set_module n f c)"
proof -
  have limit: "0 < mp_Budget (col_policy c)" using wf by (simp add: wf_collection_def policy_fine_def)
  have pt: "point_ok l (f m) p" if "point_ok l m p" "hm_running (f m) = hm_running m"
    "hm_failures (f m) = hm_failures m \<or> hm_failures (f m) = 0" "0 < l" for l m p
    using that by (cases "(l, m, p)" rule: point_ok.cases) auto
  have "module_ok (col_policy c) (col_live c) n (f m)" if "col_modules c n = Some m" for m
    using wf_module [OF wf that] keep [OF that] limit pt
    by (auto simp: module_ok_def split: option.splits)
  moreover have "module_idle (f m)" if "\<not> col_ran c" "col_modules c n = Some m" for m
    using wf that keep [OF that(2)] unfolding wf_collection_def module_idle_def by metis
  moreover have "\<exists>k. col_modules (set_module n f c) (go_module s) = Some k \<and> hm_done k = Some h"
    if "col_live c h = Some s" for h s
    using wf_live [OF wf that] keep by (metis col_simps(11) fun_upd_apply option.simps(9))
  ultimately show ?thesis using wf unfolding wf_collection_def by auto
qed

lemma wf_cancel: "wf_collection c \<Longrightarrow> wf_collection (col_cancel g c)"
proof -
  assume wf: "wf_collection c"
  let ?live = "(col_live c)(g := map_option (go_cancelled_update (\<lambda>_. True)) (col_live c g))"
  have "module_ok (col_policy c) ?live n m" if "module_ok (col_policy c) (col_live c) n m" for n m
    using that by (auto simp: module_ok_def split: option.splits)
  then show ?thesis using wf unfolding wf_collection_def col_cancel_def
    by (auto split: if_splits)
qed

lemma apply_one_keeps [simp]:
  "col_policy (snd (apply_one enabled clock n s)) = col_policy (snd s)"
  "col_order (snd (apply_one enabled clock n s)) = col_order (snd s)"
  "col_work (snd (apply_one enabled clock n s)) = col_work (snd s)"
  "col_ran (snd (apply_one enabled clock n s)) = col_ran (snd s)"
  "col_stopping (snd (apply_one enabled clock n s)) = col_stopping (snd s)"
  "col_ended (snd (apply_one enabled clock n s)) = col_ended (snd s)"
  "k \<noteq> n \<Longrightarrow> col_modules (snd (apply_one enabled clock n s)) k = col_modules (snd s) k"
  by (auto simp: apply_one_def col_start_def col_cancel_def Let_def split: prod.splits option.splits)

lemma wf_apply_one:
  assumes wf: "wf_collection (snd s)"
  shows "wf_collection (snd (apply_one enabled clock n s))"
proof (cases "col_modules (snd s) n")
  case None
  then show ?thesis using wf by (auto simp: apply_one_def split: prod.splits)
next
  case (Some m)
  let ?f = "\<lambda>m. m\<lparr>hm_restarts := (if hm_spent m then hm_restarts m + 1 else hm_restarts m),
              hm_desired := True, hm_spent := False, hm_failures := 0\<rparr>"
  have a: "wf_collection (set_module n ?f (snd s))" by (rule wf_modified [OF wf]) simp
  have b: "wf_collection (set_module n (hm_desired_update (\<lambda>_. False)) (snd s))"
    by (rule wf_modified [OF wf]) simp
  have "col_work (snd s) \<Longrightarrow> col_ran (snd s)" using wf by (auto simp: wf_collection_def)
  moreover have "wf_collection (col_start t n (set_module n ?f (snd s)))"
    if "hm_done m = None" "col_ran (snd s)" for t
    by (rule wf_start [OF a]) (use Some that in \<open>auto simp: module_idle_def\<close>)
  ultimately show ?thesis using Some a b wf
    by (auto simp: apply_one_def Let_def wf_cancel split: prod.splits option.splits)
qed

lemma fold_keeps: "\<lbrakk>P s; \<And>x s. x \<in> set xs \<Longrightarrow> P s \<Longrightarrow> P (f x s)\<rbrakk> \<Longrightarrow> P (fold f xs s)"
  by (induction xs arbitrary: s) auto

lemma wf_Apply: "wf_collection c \<Longrightarrow> col_Apply enabled clock c = (res, c') \<Longrightarrow> wf_collection c'"
  using fold_keeps [of "\<lambda>s. wf_collection (snd s)" "([], c)" "col_order c" "apply_one enabled clock"]
  by (auto simp: col_Apply_def Let_def wf_apply_one split: if_splits prod.splits)

lemma wf_Run_begin:
  assumes wf: "wf_collection c" and run: "Run_begin clock c = (None, c')"
  shows "wf_collection c'"
proof -
  let ?f = "\<lambda>n c. if desired_module c n then col_start (clock n) n c else c"
  have idle: "module_idle m" if "col_modules c n = Some m" for n m
    using wf run that by (auto simp: wf_collection_def Run_begin_def split: if_splits)
  have started: "wf_collection (fold ?f ns d)"
    if "wf_collection d" "col_ran d" "distinct ns" "\<And>n m. n \<in> set ns \<Longrightarrow> col_modules d n = Some m \<Longrightarrow> module_idle m"
    for ns d using that
  proof (induction ns arbitrary: d)
    case (Cons n ns)
    have "wf_collection (?f n d)"
      using Cons.prems wf_start [of d n] by (auto simp: desired_module_def split: option.splits)
    moreover have "col_ran (?f n d)" using Cons.prems by (simp add: col_start_def)
    moreover have "module_idle m" if "k \<in> set ns" "col_modules (?f n d) k = Some m" for k m
      using Cons.prems that by (auto simp: col_start_def split: if_splits)
    ultimately show ?case using Cons.IH [of "?f n d"] Cons.prems(3) by (simp only: fold_simps distinct.simps comp_apply)
  qed simp
  have "wf_collection (c\<lparr>col_ran := True, col_work := True\<rparr>)"
    using wf by (auto simp: wf_collection_def)
  moreover have "distinct (col_order c)" using wf by (simp add: wf_collection_def)
  moreover have "c' = fold ?f (col_order c) (c\<lparr>col_ran := True, col_work := True\<rparr>)"
    using run by (auto simp: Run_begin_def split: if_splits)
  ultimately show ?thesis using started [of "c\<lparr>col_ran := True, col_work := True\<rparr>" "col_order c"] idle by simp
qed

theorem wf_col_step: "col_step c es c' \<Longrightarrow> wf_collection c \<Longrightarrow> wf_collection c'"
proof (induction rule: col_step.induct)
  case (step_ended c)
  then show ?case by (simp add: wf_collection_def)
next
  case (step_stop c ws c')
  then show ?case by (auto simp: wf_collection_def Run_stop_def Let_def)
qed (auto intro: wf_Run_begin wf_Apply wf_move)

lemma wf_col_runs: "col_runs c tr c' \<Longrightarrow> wf_collection c \<Longrightarrow> wf_collection c'"
  by (induction rule: col_runs.induct) (auto intro: wf_col_step)

section \<open>Composing\<close>

lemma settled_policy_fine:
  assumes "settled_policy p = (q, [])"
  shows "policy_fine q"
  using assms
  by (auto simp: settled_policy_def settle_time_def policy_fine_def default_policy_def Second_def
      Minute_def Let_def split: if_splits)

lemma compose_from_problems: "snd (compose_from i ms s) = [] \<Longrightarrow> snd s = []"
  by (induction i ms s rule: compose_from.induct) (auto simp: compose_one_def Let_def split: prod.splits)

lemma wf_compose:
  "snd (compose_from i ms s) = [] \<Longrightarrow> wf_collection (fst s) \<Longrightarrow> \<not> col_ran (fst s) \<Longrightarrow>
   wf_collection (fst (compose_from i ms s)) \<and> \<not> col_ran (fst (compose_from i ms s))
   \<and> col_order (fst (compose_from i ms s)) = col_order (fst s) @ map (md_Name \<circ> fst) ms"
proof (induction i ms s rule: compose_from.induct)
  case (2 i m now ms s)
  let ?s = "compose_one i m now s"
  have none: "snd ?s = []" using 2(2) compose_from_problems by simp
  then have n: "md_Name m \<noteq> ''''" "col_modules (fst s) (md_Name m) = None"
    by (auto simp: compose_one_def Let_def split: prod.splits if_splits)
  have "col_live (fst s) g = None" for g
  proof (rule ccontr)
    assume "col_live (fst s) g \<noteq> None"
    then obtain r where "col_live (fst s) g = Some r" by auto
    from wf_live [OF 2(3) this] 2(3,4) show False by (auto simp: wf_collection_def module_idle_def)
  qed
  then have "wf_collection (fst ?s) \<and> \<not> col_ran (fst ?s) \<and> col_order (fst ?s) = col_order (fst s) @ [md_Name m]"
    using 2(3,4) n
    by (auto simp: compose_one_def Let_def wf_collection_def module_ok_def module_idle_def new_module_def
        domIff split: prod.splits if_splits)
  then show ?case using 2(1) 2(2) by simp
qed simp

lemma wf_New:
  assumes "New_collection logger p ms = Inr c"
  shows "wf_collection c" "\<not> col_ran c" "col_order c = map (md_Name \<circ> fst) ms"
proof -
  obtain q ps where q: "settled_policy p = (q, ps)" by fastforce
  let ?s = "(empty_collection q, (if logger then [] else [NoLogger]) @ ps)"
  have c: "compose_from 0 ms ?s = (c, [])"
    using assms q by (auto simp: New_collection_def Let_def split: prod.splits if_splits)
  then have "ps = []" using compose_from_problems [of 0 ms ?s] by simp
  then have "wf_collection (empty_collection q)"
    using settled_policy_fine q by (auto simp: wf_collection_def empty_collection_def)
  then show "wf_collection c" "\<not> col_ran c" "col_order c = map (md_Name \<circ> fst) ms"
    using wf_compose [of 0 ms ?s] c by (simp_all add: empty_collection_def)
qed

section \<open>What a collection does with its goroutines\<close>

text \<open>Once its context ended a goroutine takes at most so many more moves.\<close>

fun moves_left :: "point \<Rightarrow> nat" where
  "moves_left (Returned err lasted) = 7"
| "moves_left (AtTimer w) = 6"
| "moves_left Restarting = 5"
| "moves_left Entering = 4"
| "moves_left (Collecting t) = 3"
| "moves_left Leaving = 2"
| "moves_left (Releasing e) = 1"

lemma ended_moves_left:
  assumes r: "col_live c g = Some r" "ctx_ended c r" and mv: "col_move g mv c = Some c'"
  shows "col_live c' g = None \<and> moves_left (go_point r) = 1
     \<or> (\<exists>r'. col_live c' g = Some r' \<and> ctx_ended c' r' \<and> moves_left (go_point r') < moves_left (go_point r))"
proof (cases "go_point r")
  case (Returned err lasted)
  then obtain now draw where "mv = Fail now draw" using mv r by (cases mv) (auto simp: col_move_def)
  moreover have "col_live (snd (col_failed (go_module r) err lasted now draw c)) = col_live c"
    "col_ended (snd (col_failed (go_module r) err lasted now draw c)) = col_ended c"
    by (simp_all add: col_failed_def Let_def)
  ultimately show ?thesis using mv r Returned
    by (cases "col_failed (go_module r) err lasted now draw c")
      (auto simp: col_move_def ctx_ended_def split: sum.splits)
qed (use mv r in \<open>cases mv; auto simp: col_move_def ctx_ended_def col_stopped_def col_released_def split: if_splits\<close>)+

lemma backoff_loop_bounds:
  "0 < wait \<Longrightarrow> wait \<le> longest \<Longrightarrow>
   min (wait * 2 ^ n) longest \<le> backoff_loop longest n wait
   \<and> backoff_loop longest n wait \<le> min (wait * 2 ^ n + 1) longest"
proof (induction n arbitrary: wait)
  case (Suc n)
  show ?case
  proof (cases "longest div 2 \<le> wait")
    case True
    have "2 * wait \<le> wait * 2 ^ Suc n" using Suc.prems(1) by simp
    then show ?thesis using True by (auto simp del: power_Suc)
  next
    case False
    then show ?thesis using Suc.IH [of "wait * 2"] Suc.prems by (simp add: algebra_simps)
  qed
qed simp

lemma backoff_bounds:
  assumes p: "policy_fine p" and draw: "0 \<le> draw" "draw < 1" and f: "1 \<le> failures"
    and w: "w = min (mp_Backoff p * 2 ^ nat (failures - 1)) (mp_MaxBackoff p)"
  shows "4 * w - 5 < 5 * col_backoff p failures draw"
    and "5 * col_backoff p failures draw \<le> 6 * min (w + 1) (mp_MaxBackoff p)"
proof -
  let ?b = "backoff_loop (mp_MaxBackoff p) (nat (failures - 1)) (mp_Backoff p)"
  let ?r = "of_int ?b :: rat"
  let ?x = "?r - ?r * mod_jitter + draw * 2 * (?r * mod_jitter)"
  have fine: "0 < mp_Backoff p" "mp_Backoff p \<le> mp_MaxBackoff p" using p by (simp_all add: policy_fine_def)
  then have "0 < w" unfolding w by simp
  then have b: "w \<le> ?b" "?b \<le> min (w + 1) (mp_MaxBackoff p)" "0 < ?b"
    using backoff_loop_bounds [OF fine, of "nat (failures - 1)"] unfolding w [symmetric]
    by (auto simp: w min_def split: if_splits)
  have v: "col_backoff p failures draw = \<lfloor>?x\<rfloor>" by (simp add: col_backoff_def Let_def)
  have x: "?x = ?r * (4 / 5 + draw * 2 / 5)" by (simp add: mod_jitter_def algebra_simps)
  have pos: "0 < ?r" using b(3) by simp
  have lo: "?r * (4 / 5) \<le> ?x" unfolding x by (rule mult_left_mono) (use pos draw in auto)
  have hi: "?x \<le> ?r * (6 / 5)" unfolding x by (rule mult_left_mono) (use pos draw in auto)
  define x where "x = ?x"
  have fl: "of_int \<lfloor>x\<rfloor> \<le> x" "x < of_int \<lfloor>x\<rfloor> + 1" by linarith+
  have "5 * of_int \<lfloor>x\<rfloor> \<le> 6 * ?r" using hi fl(1) unfolding x_def [symmetric] by linarith
  then have "(of_int (5 * \<lfloor>x\<rfloor>) :: rat) \<le> of_int (6 * ?b)" by simp
  then have "5 * \<lfloor>x\<rfloor> \<le> 6 * ?b" by (simp only: of_int_le_iff)
  then show "5 * col_backoff p failures draw \<le> 6 * min (w + 1) (mp_MaxBackoff p)"
    unfolding v x_def [symmetric] using b(2) by (meson mult_left_mono order_trans zero_le_numeral)
  have "4 * ?r < 5 * of_int \<lfloor>x\<rfloor> + 5" using lo fl(2) unfolding x_def [symmetric] by linarith
  then have "(of_int (4 * ?b) :: rat) < of_int (5 * \<lfloor>x\<rfloor> + 5)" by simp
  then have "4 * ?b < 5 * \<lfloor>x\<rfloor> + 5" by (simp only: of_int_less_iff)
  then show "4 * w - 5 < 5 * col_backoff p failures draw"
    unfolding v x_def [symmetric] using b(1) by linarith
qed

section \<open>What a set of modules does when it is applied\<close>

text \<open>What becomes of a module \<open>m\<close>, with the goroutines \<open>live\<close> after it.\<close>

definition applied_module ::
  "string list \<Rightarrow> bool \<Rightarrow> string \<Rightarrow> (nat \<Rightarrow> goroutine option) \<Rightarrow> held_module \<Rightarrow> held_module \<Rightarrow> bool" where
  "applied_module enabled work n live m m' \<longleftrightarrow>
     hm_desired m' = (n \<in> set enabled)
     \<and> (if asked_again enabled n m then
          \<not> hm_spent m' \<and> hm_failures m' = 0
          \<and> hm_restarts m' = hm_restarts m + (if hm_spent m then 1 else 0)
          \<and> (if hm_done m = None \<and> work then
               hm_running m' \<and> (\<exists>g. hm_done m' = Some g
                 \<and> live g = Some \<lparr>go_module = n, go_point = Entering, go_cancelled = False\<rparr>)
             else hm_done m' = hm_done m \<and> hm_running m' = hm_running m)
        else m' = m\<lparr>hm_desired := n \<in> set enabled\<rparr>
          \<and> (\<forall>g. n \<notin> set enabled \<and> hm_desired m \<and> hm_done m = Some g \<longrightarrow>
               (\<exists>r. live g = Some r \<and> go_module r = n \<and> go_cancelled r)))"

lemma apply_one_live:
  assumes wf: "wf_collection (snd s)" and r: "col_live (snd s) g = Some r" and k: "go_module r \<noteq> k"
  shows "col_live (snd (apply_one enabled clock k s)) g = Some r"
proof -
  have "g \<noteq> col_number (snd s)" using wf_live [OF wf r] by (metis less_irrefl)
  moreover have "hm_done m \<noteq> Some g" if "col_modules (snd s) k = Some m" for m
    using wf_module [OF wf that] r k by (auto simp: module_ok_def)
  ultimately show ?thesis using r
    by (auto simp: apply_one_def col_start_def col_cancel_def Let_def split: prod.splits option.splits)
qed

lemma applied_module_later:
  assumes wf: "wf_collection (snd s)" and m': "col_modules (snd s) n = Some m'" and k: "k \<noteq> n"
    and a: "applied_module enabled work n (col_live (snd s)) m m'"
  shows "applied_module enabled work n (col_live (snd (apply_one enabled clock k s))) m m'"
  using a apply_one_live [OF wf, of _ _ k enabled clock] k
  unfolding applied_module_def by (auto split: if_splits)

lemma applied_module_now:
  assumes wf: "wf_collection (snd s)" and m: "col_modules (snd s) n = Some m"
  shows "\<exists>m'. col_modules (snd (apply_one enabled clock n s)) n = Some m'
    \<and> applied_module enabled (col_work (snd s)) n (col_live (snd (apply_one enabled clock n s))) m m'"
proof -
  obtain rel c where s: "s = (rel, c)" by fastforce
  have same: "m\<lparr>hm_desired := hm_desired m\<rparr> = m" by simp
  have own: "\<exists>r. col_live c g = Some r \<and> go_module r = n" if "hm_done m = Some g" for g
    using wf_module [OF wf m] that s by (auto simp: module_ok_def)
  consider "asked_again enabled n m" | "\<not> asked_again enabled n m" "n \<in> set enabled" "hm_desired m"
    | "n \<notin> set enabled" "hm_desired m" | "n \<notin> set enabled" "\<not> hm_desired m"
    by (auto simp: asked_again_def)
  then show ?thesis
  proof cases
    case 1
    then have "n \<in> set enabled" by (simp add: asked_again_def)
    then show ?thesis using m 1 unfolding s
      by (cases "hm_done m = None \<and> col_work c"; cases "hm_spent m")
        (auto simp: apply_one_def applied_module_def col_start_def Let_def)
  next
    case 2
    then show ?thesis using m same unfolding s by (simp add: apply_one_def applied_module_def)
  next
    case 3
    then have "\<not> asked_again enabled n m" by (simp add: asked_again_def)
    then show ?thesis using m 3 own unfolding s
      by (cases "hm_done m") (auto simp: apply_one_def applied_module_def col_cancel_def)
  next
    case 4
    then have "\<not> asked_again enabled n m" by (simp add: asked_again_def)
    then show ?thesis using m 4 same unfolding s by (simp add: apply_one_def applied_module_def)
  qed
qed

lemma applied_modules:
  assumes "wf_collection (snd s)" "col_modules (snd s) n = Some m" "distinct ns" "n \<in> set ns"
  shows "\<exists>m'. col_modules (snd (fold (apply_one enabled clock) ns s)) n = Some m'
    \<and> applied_module enabled (col_work (snd s)) n (col_live (snd (fold (apply_one enabled clock) ns s))) m m'"
proof -
  have later: "\<exists>m'. col_modules (snd (fold (apply_one enabled clock) ks t)) n = Some m'
      \<and> applied_module enabled w n (col_live (snd (fold (apply_one enabled clock) ks t))) m m'"
    if "wf_collection (snd t)" "n \<notin> set ks" "col_modules (snd t) n = Some m''"
      "applied_module enabled w n (col_live (snd t)) m m''" for ks t w m''
    using that
  proof (induction ks arbitrary: t)
    case (Cons k ks)
    have k: "k \<noteq> n" using Cons.prems(2) by auto
    have "applied_module enabled w n (col_live (snd (apply_one enabled clock k t))) m m''"
      using Cons.prems k by (intro applied_module_later)
    then show ?case
      using Cons.IH [of "apply_one enabled clock k t"] Cons.prems k wf_apply_one [of t enabled clock k] by auto
  qed auto
  show ?thesis using assms
  proof (induction ns arbitrary: s)
    case (Cons k ns)
    let ?t = "apply_one enabled clock k s"
    have wf: "wf_collection (snd ?t)" using Cons.prems(1) by (rule wf_apply_one)
    show ?case
    proof (cases "k = n")
      case True
      then show ?thesis
        using applied_module_now [OF Cons.prems(1,2), of enabled clock] later [OF wf, of ns] Cons.prems(3) by auto
    next
      case False
      then show ?thesis using Cons.IH [OF wf] Cons.prems by simp
    qed
  qed simp
qed

end
