(* ===== verification/Modules_Told.thy ===== *)
theory Modules_Told
  imports Modules_Inv
begin

text \<open>
  What \<open>Apply\<close> does to a collection of modules, and when the collection gives a module up
  (\<open>internal/modules/modules.go\<close>): only after the failures its policy allows in a row, as the
  history of the steps tells.
\<close>

lemma unknown_modules_set: "set (unknown_modules c enabled) = {n \<in> set enabled. col_modules c n = None}"
proof -
  have "set (foldl (\<lambda>u n. if col_modules c n = None \<and> n \<notin> set u then u @ [n] else u) us xs)
      = set us \<union> {n \<in> set xs. col_modules c n = None}" for us xs
    by (induction xs arbitrary: us) auto
  then show ?thesis by (simp add: unknown_modules_def)
qed

lemma apply_one_releasing: "n \<in> set (fst s) \<Longrightarrow> n \<in> set (fst (apply_one enabled clock k s))"
  by (auto simp: apply_one_def Let_def split: prod.splits option.splits)

lemma applied_releasing:
  assumes "col_modules (snd s) n = Some m" "n \<notin> set enabled" "hm_desired m" "hm_done m \<noteq> None" "n \<in> set ns"
  shows "n \<in> set (fst (fold (apply_one enabled clock) ns s))"
  using assms
proof (induction ns arbitrary: s)
  case (Cons k ns)
  have stays: "n \<in> set (fst (fold (apply_one enabled clock) ks t))" if "n \<in> set (fst t)" for ks t
    using fold_keeps [of "\<lambda>s. n \<in> set (fst s)" t ks "apply_one enabled clock"] that
    by (simp add: apply_one_releasing)
  show ?case
  proof (cases "k = n")
    case True
    then have "n \<in> set (fst (apply_one enabled clock k s))"
      using Cons.prems by (auto simp: apply_one_def asked_again_def Let_def split: prod.splits)
    then show ?thesis by (simp add: stays)
  next
    case False
    then show ?thesis using Cons.IH [of "apply_one enabled clock k s"] Cons.prems by simp
  qed
qed simp

lemma in_col_waiting:
  "(n, g) \<in> set (col_waiting c ns) \<longleftrightarrow> n \<in> set ns \<and> (\<exists>m. col_modules c n = Some m \<and> hm_done m = Some g)"
  by (force simp: col_waiting_def map_filter_def split: option.splits)

lemma Apply_Inr:
  assumes wf: "wf_collection c" and a: "col_Apply enabled clock c = (Inr ws, c')" and m: "col_modules c n = Some m"
  shows "\<exists>m'. col_modules c' n = Some m' \<and> applied_module enabled (col_work c) n (col_live c') m m'
    \<and> (\<forall>g. n \<notin> set enabled \<and> hm_desired m \<and> hm_done m = Some g \<longrightarrow> (n, g) \<in> set ws)"
proof -
  obtain rel where f: "fold (apply_one enabled clock) (col_order c) ([], c) = (rel, c')"
      and ws: "ws = col_waiting c' rel"
    using a by (auto simp: col_Apply_def Let_def split: if_splits prod.splits)
  have o: "distinct (col_order c)" "n \<in> set (col_order c)" using wf m by (auto simp: wf_collection_def)
  obtain m' where m': "col_modules c' n = Some m'" "applied_module enabled (col_work c) n (col_live c') m m'"
    using applied_modules [of "([], c)" n m "col_order c" enabled clock] wf m o f by auto
  have "(n, g) \<in> set ws" if "n \<notin> set enabled" "hm_desired m" "hm_done m = Some g" for g
    using applied_releasing [of "([], c)" n m enabled "col_order c" clock] that m m' o f ws
    by (auto simp: in_col_waiting applied_module_def asked_again_def)
  then show ?thesis using m' by blast
qed

lemma Apply_cases:
  obtains us where "col_Apply enabled clock c = (Inl (UnknownModules us), c)" "us \<noteq> []"
      "set us = {n \<in> set enabled. col_modules c n = None}"
  | "col_Apply enabled clock c = (Inl ErrStopping, c)" "col_stopping c" "set enabled \<subseteq> dom (col_modules c)"
  | ws c' where "col_Apply enabled clock c = (Inr ws, c')" "\<not> col_stopping c" "set enabled \<subseteq> dom (col_modules c)"
proof (cases "unknown_modules c enabled = []")
  case True
  then have "set enabled \<subseteq> dom (col_modules c)" using unknown_modules_set [of c enabled] by auto
  then show thesis using that(2,3) True
    by (cases "fold (apply_one enabled clock) (col_order c) ([], c)"; cases "col_stopping c")
      (auto simp: col_Apply_def)
next
  case False
  then show thesis using that(1) unknown_modules_set [of c enabled] by (auto simp: col_Apply_def)
qed

section \<open>When a module is given up\<close>

text \<open>How long the failed calls of \<open>Collect\<close> lasted that a history tells of a module.\<close>

fun run_times :: "string \<Rightarrow> col_event list \<Rightarrow> duration list" where
  "run_times n [] = []"
| "run_times n (Ran k d # es) = (if k = n then d # run_times n es else run_times n es)"
| "run_times n (Again k # es) = run_times n es"

definition in_a_row :: "duration \<Rightarrow> string \<Rightarrow> int \<Rightarrow> col_event list \<Rightarrow> bool" where
  "in_a_row recovered n k es \<longleftrightarrow> Again n \<notin> set es \<and> int (length (run_times n es)) = k
     \<and> (\<forall>d \<in> set (tl (run_times n es)). d < recovered)"

text \<open>
  The last failures of the module were as many in a row as the policy allows: nobody asked for it
  between them, and only the first may have come after a run that was long enough to be forgiven.
\<close>

definition gave_up :: "mod_policy \<Rightarrow> string \<Rightarrow> col_event list \<Rightarrow> bool" where
  "gave_up p n tr \<longleftrightarrow> (\<exists>pre mid post. tr = pre @ mid @ post
     \<and> in_a_row (mp_Recovered p) n (mp_Budget p) mid \<and> run_times n post = [])"

definition giving_up :: "collection \<Rightarrow> string \<Rightarrow> bool" where
  "giving_up c n \<longleftrightarrow> (\<exists>m. col_modules c n = Some m \<and> (hm_spent m
     \<or> (\<exists>g r e. hm_done m = Some g \<and> col_live c g = Some r \<and> go_point r = Releasing (Some e))))"

definition history :: "collection \<Rightarrow> col_event list \<Rightarrow> bool" where
  "history c tr \<longleftrightarrow> (\<forall>n m. col_modules c n = Some m \<longrightarrow>
     (\<exists>pre mid. tr = pre @ mid \<and> in_a_row (mp_Recovered (col_policy c)) n (hm_failures m) mid)
     \<and> (giving_up c n \<longrightarrow> gave_up (col_policy c) n tr))"

lemma run_times_append [simp]: "run_times n (es @ fs) = run_times n es @ run_times n fs"
  by (induction n es rule: run_times.induct) auto

lemma gave_up_later: "gave_up p n tr \<Longrightarrow> run_times n es = [] \<Longrightarrow> gave_up p n (tr @ es)"
  unfolding gave_up_def by (metis append.assoc append_Nil2 run_times_append)

lemma in_a_row_later: "in_a_row r n k mid \<Longrightarrow> Again n \<notin> set es \<Longrightarrow> run_times n es = [] \<Longrightarrow> in_a_row r n k (mid @ es)"
  by (simp add: in_a_row_def)

lemma in_a_row_none: "in_a_row r n 0 []"
  by (simp add: in_a_row_def)

lemma in_a_row_fails:
  assumes "in_a_row r n k mid" "d < r"
  shows "in_a_row r n (k + 1) (mid @ [Ran n d])"
  using assms by (auto simp: in_a_row_def tl_append split: list.splits)

text \<open>A step in which no call of \<open>Collect\<close> fails.\<close>

definition calm :: "collection \<Rightarrow> col_event list \<Rightarrow> collection \<Rightarrow> bool" where
  "calm c es c' \<longleftrightarrow> col_policy c' = col_policy c \<and> (\<forall>n m'. col_modules c' n = Some m' \<longrightarrow>
     run_times n es = [] \<and> (giving_up c' n \<longrightarrow> giving_up c n)
     \<and> (\<exists>m. col_modules c n = Some m \<and> (hm_failures m' = hm_failures m \<and> Again n \<notin> set es \<or> hm_failures m' = 0)))"

lemma told_calm:
  assumes t: "history c tr" and k: "calm c es c'"
  shows "history c' (tr @ es)"
proof -
  have pol: "col_policy c' = col_policy c" using k by (simp add: calm_def)
  have "(\<exists>pre mid. tr @ es = pre @ mid \<and> in_a_row (mp_Recovered (col_policy c)) n (hm_failures m') mid)
     \<and> (giving_up c' n \<longrightarrow> gave_up (col_policy c) n (tr @ es))" if m': "col_modules c' n = Some m'" for n m'
  proof -
    from k m' obtain m where es: "run_times n es = []" and g: "giving_up c' n \<Longrightarrow> giving_up c n"
      and m: "col_modules c n = Some m"
      and f: "hm_failures m' = hm_failures m \<and> Again n \<notin> set es \<or> hm_failures m' = 0"
      unfolding calm_def by blast
    from t m obtain pre mid where tr: "tr = pre @ mid"
        "in_a_row (mp_Recovered (col_policy c)) n (hm_failures m) mid"
      unfolding history_def by blast
    have "\<exists>pre mid. tr @ es = pre @ mid \<and> in_a_row (mp_Recovered (col_policy c)) n (hm_failures m') mid"
      using f
    proof
      assume "hm_failures m' = hm_failures m \<and> Again n \<notin> set es"
      then show ?thesis using in_a_row_later [OF tr(2) _ es] tr(1) by (metis append.assoc)
    next
      assume "hm_failures m' = 0"
      then show ?thesis using in_a_row_none by (metis append_Nil2)
    qed
    moreover have "giving_up c' n \<longrightarrow> gave_up (col_policy c) n (tr @ es)"
      using t m g es gave_up_later unfolding history_def by blast
    ultimately show ?thesis by blast
  qed
  then show ?thesis unfolding history_def pol by blast
qed

lemma calm_same:
  assumes "col_policy c' = col_policy c" "\<And>n. giving_up c' n \<Longrightarrow> giving_up c n"
    and "\<And>n m'. col_modules c' n = Some m' \<Longrightarrow> \<exists>m. col_modules c n = Some m \<and> hm_failures m' = hm_failures m"
  shows "calm c [] c'"
  using assms by (fastforce simp: calm_def)

text \<open>A goroutine moves and changes its module, but neither its failures nor whether it is spent.\<close>

lemma calm_moved:
  assumes r: "col_live c g = Some r" and p: "\<And>e. p \<noteq> Releasing (Some e)"
    and keep: "\<And>m. hm_failures (f m) = hm_failures m \<and> hm_spent (f m) = hm_spent m \<and> hm_done (f m) = hm_done m"
  shows "calm c [] (at_point g p (set_module (go_module r) f c))"
proof (rule calm_same)
  show "giving_up c n" if "giving_up (at_point g p (set_module (go_module r) f c)) n" for n
    using that keep p r unfolding giving_up_def by (fastforce split: if_splits)
qed (auto simp: keep split: if_splits)

lemmas calm_moved_alone = calm_moved [where f = "\<lambda>m. m", unfolded set_module_same]

lemma calm_released:
  assumes wf: "wf_collection c" and r: "col_live c g = Some r" "go_point r = Releasing spent"
  shows "calm c [] (col_released g (go_module r) spent c)"
proof (rule calm_same)
  from wf_live [OF wf r(1)] obtain m where m: "col_modules c (go_module r) = Some m" "hm_done m = Some g" .
  show "giving_up c n" if "giving_up (col_released g (go_module r) spent c) n" for n
    using that m r unfolding giving_up_def col_released_def
    by (fastforce split: if_splits)
qed (auto simp: col_released_def split: if_splits)

lemma calm_Run_begin:
  assumes wf: "wf_collection c" and run: "Run_begin clock c = (None, c')"
  shows "calm c [] c'"
proof -
  define P where "P d \<longleftrightarrow> col_policy d = col_policy c
     \<and> (\<forall>n m'. col_modules d n = Some m' \<longrightarrow>
          (\<exists>m. col_modules c n = Some m \<and> hm_failures m' = hm_failures m \<and> hm_spent m' = hm_spent m))
     \<and> (\<forall>g r. col_live d g = Some r \<longrightarrow> go_point r = Entering)" for d :: collection
  have idle: "\<not> col_ran c" using run by (simp add: Run_begin_def split: if_splits)
  have "col_live c g \<noteq> Some r" for g r
    using wf_live [OF wf, of g r] wf idle by (metis module_idle_def option.distinct(1) wf_collection_def)
  then have "P (c\<lparr>col_ran := True, col_work := True\<rparr>)" by (simp add: P_def)
  moreover have "P (if desired_module d n then col_start (clock n) n d else d)" if "P d" for n d
    using that unfolding P_def by (auto simp: col_start_def split: if_splits)
  moreover have "c' = fold (\<lambda>n c. if desired_module c n then col_start (clock n) n c else c) (col_order c)
      (c\<lparr>col_ran := True, col_work := True\<rparr>)"
    using run by (auto simp: Run_begin_def split: if_splits)
  ultimately have "P c'"
    using fold_keeps [of P _ _ "\<lambda>n c. if desired_module c n then col_start (clock n) n c else c"] by simp
  then show ?thesis unfolding P_def giving_up_def [abs_def]
    by (intro calm_same) (fastforce simp: giving_up_def)+
qed

lemma apply_keeps_points:
  assumes "wf_collection (snd s)" "col_live (snd s) g = Some r"
  shows "\<exists>r'. col_live (snd (fold (apply_one enabled clock) ns s)) g = Some r' \<and> go_point r' = go_point r"
proof -
  define P where "P s \<longleftrightarrow> wf_collection (snd s)
    \<and> (\<exists>r'. col_live (snd s) g = Some r' \<and> go_point r' = go_point r)" for s :: "string list \<times> collection"
  have "P (apply_one enabled clock k t)" if "P t" for k t
  proof -
    from that obtain r' where t: "wf_collection (snd t)" "col_live (snd t) g = Some r'" "go_point r' = go_point r"
      by (auto simp: P_def)
    have "g \<noteq> col_number (snd t)" using wf_live [OF t(1,2)] by (metis less_irrefl)
    then have "\<exists>r''. col_live (snd (apply_one enabled clock k t)) g = Some r'' \<and> go_point r'' = go_point r"
      using t(2,3) by (auto simp: apply_one_def col_start_def col_cancel_def Let_def split: prod.splits option.splits)
    then show ?thesis using wf_apply_one [OF t(1)] by (simp add: P_def)
  qed
  then have "P (fold (apply_one enabled clock) ns s)"
    using fold_keeps [of P s ns "apply_one enabled clock"] assms by (auto simp: P_def)
  then show ?thesis by (simp add: P_def)
qed

lemma Apply_keeps:
  assumes "wf_collection c" "col_Apply enabled clock c = (res, c')"
  shows "col_policy c' = col_policy c" "dom (col_modules c') = dom (col_modules c)"
    "col_live c g = Some r \<Longrightarrow> \<exists>r'. col_live c' g = Some r' \<and> go_point r' = go_point r"
proof -
  have k: "col_policy c' = col_policy c \<and> col_order c' = col_order c"
    using assms(2) fold_keeps [of "\<lambda>s. col_policy (snd s) = col_policy c \<and> col_order (snd s) = col_order c"
        "([], c)" "col_order c" "apply_one enabled clock"]
    by (auto simp: col_Apply_def Let_def split: if_splits prod.splits)
  then show "col_policy c' = col_policy c" by simp
  show "dom (col_modules c') = dom (col_modules c)"
    using k wf_Apply [OF assms] assms(1) by (metis wf_collection_def)
  show "\<exists>r'. col_live c' g = Some r' \<and> go_point r' = go_point r" if "col_live c g = Some r"
    using apply_keeps_points [of "([], c)" g r enabled clock "col_order c"] assms that
    by (auto simp: col_Apply_def Let_def split: if_splits prod.splits)
qed

lemma run_times_Again [simp]: "run_times n (map Again ns) = []"
  by (induction ns) auto

lemma calm_Apply:
  assumes wf: "wf_collection c" and a: "col_Apply enabled clock c = (res, c')"
  shows "calm c (apply_events enabled c) c'"
proof (cases rule: Apply_cases [of enabled clock c])
  case (3 ws d)
  then have d: "d = c'" using a by simp
  have "set (unknown_modules c enabled) = {}" using 3(3) unfolding unknown_modules_set by auto
  have none: "run_times n (apply_events enabled c) = []" for n by (simp add: apply_events_def)
  have "(giving_up c' n \<longrightarrow> giving_up c n) \<and> (\<exists>m. col_modules c n = Some m
      \<and> (hm_failures m' = hm_failures m \<and> Again n \<notin> set (apply_events enabled c) \<or> hm_failures m' = 0))"
    if m': "col_modules c' n = Some m'" for n m'
  proof -
    obtain m where m: "col_modules c n = Some m" using Apply_keeps(2) [OF wf a] m' by blast
    have am: "applied_module enabled (col_work c) n (col_live c') m m'"
      using Apply_Inr [OF wf 3(1) m] m' d by auto
    have f: "hm_failures m' = hm_failures m \<and> Again n \<notin> set (apply_events enabled c) \<or> hm_failures m' = 0"
      using am m by (auto simp: applied_module_def apply_events_def split: if_splits)
    have "hm_spent m' \<Longrightarrow> hm_spent m" using am by (auto simp: applied_module_def split: if_splits)
    moreover have "go_point r = Entering \<or> hm_done m = Some g"
      if "hm_done m' = Some g" "col_live c' g = Some r" for g r
      using am that by (auto simp: applied_module_def split: if_splits)
    moreover have "\<exists>r'. col_live c g = Some r' \<and> go_point r' = go_point r"
      if "hm_done m = Some g" "col_live c' g = Some r" for g r
      using wf_module [OF wf m] Apply_keeps(3) [OF wf a, of g] that by (auto simp: module_ok_def)
    ultimately have "giving_up c' n \<longrightarrow> giving_up c n"
      using m m' unfolding giving_up_def by (metis option.inject point.distinct(11))
    then show ?thesis using m f by blast
  qed
  then show ?thesis using none Apply_keeps(1) [OF wf a] unfolding calm_def by blast
next
  case (1 us)
  have "unknown_modules c enabled \<noteq> []"
    using 1(2,3) unknown_modules_set [of c enabled] by (metis set_empty)
  then show ?thesis using a 1(1) by (auto simp: apply_events_def intro: calm_same)
qed (use a in \<open>auto simp: apply_events_def intro: calm_same\<close>)

lemma told_failed:
  assumes wf: "wf_collection c" and r: "col_live c g = Some r" and p: "go_point r = Returned err lasted"
    and t: "history c tr" and e: "col_failed (go_module r) err lasted now draw c = (res, c1)"
    and c': "c' = at_point g (case res of Inl e \<Rightarrow> Releasing (Some e) | Inr w \<Rightarrow> AtTimer w) c1"
  shows "history c' (tr @ [Ran (go_module r) lasted])"
proof -
  let ?pol = "col_policy c" and ?n = "go_module r"
  have c1: "c1 = set_module ?n (failed_module ?pol err lasted now) c" by (rule wf_failed(1) [OF wf r p e])
  from wf_live [OF wf r] obtain m where m: "col_modules c ?n = Some m" "hm_done m = Some g" "\<not> hm_spent m"
    "0 \<le> hm_failures m" "point_ok (mp_Budget ?pol) m (go_point r)" .
  let ?m = "failed_module ?pol err lasted now m"
  from t m(1) obtain pre mid where tr: "tr = pre @ mid" "in_a_row (mp_Recovered ?pol) ?n (hm_failures m) mid"
    unfolding history_def by blast
  obtain pre' mid' where own: "tr @ [Ran ?n lasted] = pre' @ mid'"
    "in_a_row (mp_Recovered ?pol) ?n (hm_failures ?m) mid'"
  proof (cases "mp_Recovered ?pol \<le> lasted")
    case True
    then show ?thesis by (intro that [of tr "[Ran ?n lasted]"]) (simp_all add: in_a_row_def failed_module_def)
  next
    case False
    then show ?thesis using tr in_a_row_fails [OF tr(2), of lasted]
      by (intro that [of pre "mid @ [Ran ?n lasted]"]) (simp_all add: failed_module_def)
  qed
  have most: "hm_failures ?m \<le> mp_Budget ?pol"
    using m(4,5) p wf by (auto simp: failed_module_def wf_collection_def policy_fine_def)
  have "hm_failures ?m = mp_Budget ?pol" if "giving_up c' ?n"
    using that most m r e unfolding c' c1 giving_up_def
    by (auto simp: col_failed_def Let_def failed_module_def split: if_splits)
  then have up: "gave_up ?pol ?n (tr @ [Ran ?n lasted])" if "giving_up c' ?n"
    using that own unfolding gave_up_def by (metis append_Nil2 run_times.simps(1))
  have "history c' (tr @ [Ran ?n lasted])" if other: "\<And>k l. k \<noteq> ?n \<Longrightarrow> col_modules c k = Some l \<Longrightarrow>
      (\<exists>pre mid. tr @ [Ran ?n lasted] = pre @ mid \<and> in_a_row (mp_Recovered ?pol) k (hm_failures l) mid)
      \<and> (giving_up c' k \<longrightarrow> gave_up ?pol k (tr @ [Ran ?n lasted]))"
  proof -
    have mods: "col_modules c' = (col_modules c)(?n \<mapsto> ?m)" "col_policy c' = ?pol"
      using m(1) by (simp_all add: c' c1)
    show ?thesis unfolding history_def mods using own up other by (metis fun_upd_apply option.inject)
  qed
  moreover have "giving_up c' k \<Longrightarrow> giving_up c k" if "k \<noteq> ?n" for k
    using that wf_module [OF wf, of k] r unfolding c' c1 giving_up_def
    by (fastforce simp: module_ok_def split: if_splits)
  moreover have "\<exists>pre mid. tr @ [Ran ?n lasted] = pre @ mid \<and> in_a_row (mp_Recovered ?pol) k (hm_failures l) mid"
    if "k \<noteq> ?n" "col_modules c k = Some l" for k l
  proof -
    from t that(2) obtain pre mid where "tr = pre @ mid" "in_a_row (mp_Recovered ?pol) k (hm_failures l) mid"
      unfolding history_def by blast
    then show ?thesis using that(1) in_a_row_later [of _ k _ mid "[Ran ?n lasted]"] by (metis append.assoc
      run_times.simps(1,2) col_event.distinct(1) empty_iff list.set(1) set_ConsD)
  qed
  moreover have "gave_up ?pol k (tr @ [Ran ?n lasted])" if "k \<noteq> ?n" "giving_up c k" for k
    using t that gave_up_later [of ?pol k tr "[Ran ?n lasted]"] unfolding history_def giving_up_def by auto
  ultimately show ?thesis by blast
qed

lemma calm_move:
  assumes wf: "wf_collection c" and r: "col_live c g = Some r" and mv: "col_move g mv c = Some c'"
    and p: "\<And>err lasted. go_point r \<noteq> Returned err lasted"
  shows "calm c [] c'"
proof (cases "go_point r")
  case (Releasing spent)
  then show ?thesis using mv r calm_released [OF wf r] by (cases mv) (auto simp: col_move_def)
next
  case Restarting
  then show ?thesis using mv r by (cases mv) (auto simp: col_move_def intro!: calm_moved)
next
  case Leaving
  then show ?thesis using mv r by (cases mv) (auto simp: col_move_def col_stopped_def intro!: calm_moved)
qed (use mv r p in \<open>cases mv; auto simp: col_move_def split: if_splits intro!: calm_moved_alone\<close>)+

lemma told_move:
  assumes wf: "wf_collection c" and r: "col_live c g = Some r" and mv: "col_move g mv c = Some c'"
    and t: "history c tr"
  shows "history c' (tr @ move_event r mv)"
proof (cases "\<exists>err lasted. go_point r = Returned err lasted")
  case True
  then obtain err lasted where p: "go_point r = Returned err lasted" by blast
  then obtain now draw where f: "mv = Fail now draw" using mv r by (cases mv) (auto simp: col_move_def)
  obtain res c1 where e: "col_failed (go_module r) err lasted now draw c = (res, c1)" by fastforce
  have "c' = at_point g (case res of Inl e \<Rightarrow> Releasing (Some e) | Inr w \<Rightarrow> AtTimer w) c1"
    using mv r p f e by (auto simp: col_move_def split: sum.splits)
  from told_failed [OF wf r p t e this] show ?thesis using p f by simp
next
  case False
  then have "calm c [] c'" using calm_move [OF wf r mv] by blast
  then have "history c' (tr @ [])" by (rule told_calm [OF t])
  moreover have "move_event r mv = []" using False by (auto split: point.splits)
  ultimately show ?thesis by simp
qed

lemma told_step: "col_step c es c' \<Longrightarrow> wf_collection c \<Longrightarrow> history c tr \<Longrightarrow> history c' (tr @ es)"
proof (induction rule: col_step.induct)
  case (step_ended c)
  have "calm c [] (c\<lparr>col_ended := True\<rparr>)" by (rule calm_same) (auto simp: giving_up_def)
  then show ?case by (rule told_calm [OF step_ended(2)])
next
  case (step_stop c ws c')
  then have "calm c [] c'" by (intro calm_same) (auto simp: giving_up_def Run_stop_def Let_def)
  then show ?case by (rule told_calm [OF step_stop(6)])
next
  case (step_Run clock c c')
  then show ?case using told_calm [OF _ calm_Run_begin] by blast
next
  case (step_Apply enabled clock c r c')
  then show ?case using told_calm [OF _ calm_Apply] by blast
next
  case (step_move c g r mv c')
  then show ?case using told_move by blast
qed

lemma told_runs: "col_runs c tr c' \<Longrightarrow> wf_collection c \<Longrightarrow> history c [] \<Longrightarrow> history c' tr"
  by (induction rule: col_runs.induct) (auto intro: told_step wf_col_runs)

lemma told_new: "wf_collection c \<Longrightarrow> \<not> col_ran c \<Longrightarrow> history c []"
  by (auto simp: history_def wf_collection_def module_idle_def giving_up_def in_a_row_def)

section \<open>Goroutines that are asked to stop\<close>

text \<open>A module that is asked for again while its goroutine has not returned keeps that goroutine.\<close>

lemma Apply_keeps_goroutine:
  assumes wf: "wf_collection c" and m: "col_modules c n = Some m" "hm_done m = Some g"
    and r: "col_live c g = Some r" and a: "col_Apply enabled clock c = (Inr ws, c')" "n \<in> set enabled"
  shows "col_live c' g = Some r"
proof -
  define P where "P s \<longleftrightarrow> wf_collection (snd s) \<and> col_live (snd s) g = Some r
    \<and> (\<exists>m'. col_modules (snd s) n = Some m' \<and> hm_done m' = Some g)" for s :: "string list \<times> collection"
  have n: "go_module r = n" using wf_module [OF wf m(1)] m(2) r by (auto simp: module_ok_def)
  have "P (apply_one enabled clock k t)" if t: "P t" for k t
  proof (cases "k = n")
    case True
    from t obtain m' where "col_modules (snd t) n = Some m'" "hm_done m' = Some g" by (auto simp: P_def)
    then have "col_live (snd (apply_one enabled clock n t)) g = Some r
        \<and> (\<exists>m'. col_modules (snd (apply_one enabled clock n t)) n = Some m' \<and> hm_done m' = Some g)"
      using t a(2) by (auto simp: P_def apply_one_def Let_def split: prod.splits)
    then show ?thesis using t True wf_apply_one by (simp add: P_def)
  next
    case False
    then show ?thesis using t n apply_one_live [of t g r k enabled clock] wf_apply_one [of t enabled clock k]
      by (auto simp: P_def)
  qed
  then have "P (fold (apply_one enabled clock) (col_order c) ([], c))"
    using fold_keeps [of P "([], c)" "col_order c" "apply_one enabled clock"] wf m r by (auto simp: P_def)
  then show ?thesis using a by (auto simp: P_def col_Apply_def Let_def split: if_splits prod.splits)
qed

text \<open>The moves a goroutine makes one after the other.\<close>

fun col_moves :: "nat \<Rightarrow> move list \<Rightarrow> collection \<Rightarrow> collection option" where
  "col_moves g [] c = Some c"
| "col_moves g (mv # mvs) c = Option.bind (col_move g mv c) (col_moves g mvs)"

lemma wf_moves: "col_moves g mvs c = Some c' \<Longrightarrow> wf_collection c \<Longrightarrow> wf_collection c'"
  by (induction mvs arbitrary: c) (auto split: bind_splits intro: wf_move)

lemma col_moves_leave:
  assumes wf: "wf_collection c" and r: "col_live c g = Some r" "go_point r = Collecting started" "ctx_ended c r"
    and m: "col_modules c (go_module r) = Some m"
  shows "\<exists>c'. col_moves g [Return err now, Leave now, Finish] c = Some c'
     \<and> col_modules c' (go_module r) = Some (m\<lparr>hm_running := False, hm_since := now, hm_done := None\<rparr>)"
  using assms wf_module [OF wf m]
  by (simp add: col_move_def col_stopped_def col_released_def)

lemma asked_again_stranded:
  assumes wf: "wf_collection c" and m: "col_modules c n = Some m" "\<not> hm_desired m" "hm_done m = Some g"
    and r: "col_live c g = Some r" "go_point r = Collecting started" "go_cancelled r"
    and a: "col_Apply enabled clock c = (Inr ws, c1)" "n \<in> set enabled"
  shows "\<exists>c2 m2. col_moves g [Return err now, Leave now, Finish] c1 = Some c2
     \<and> col_modules c2 n = Some m2 \<and> hm_state m2 = Mod_Degraded \<and> hm_done m2 = None
     \<and> (\<forall>enabled' clock' ws' c3. n \<in> set enabled' \<and> col_Apply enabled' clock' c2 = (Inr ws', c3)
          \<longrightarrow> col_modules c3 n = Some m2)"
proof -
  have n: "go_module r = n" using wf_module [OF wf m(1)] m(3) r(1) by (auto simp: module_ok_def)
  have wf1: "wf_collection c1" using wf_Apply [OF wf a(1)] .
  have r1: "col_live c1 g = Some r" by (rule Apply_keeps_goroutine [OF wf m(1,3) r(1) a])
  obtain m1 where m1: "col_modules c1 n = Some m1" "applied_module enabled (col_work c) n (col_live c1) m m1"
    using Apply_Inr [OF wf a(1) m(1)] by blast
  then have d: "hm_desired m1" "\<not> hm_spent m1" using m(2) a(2) by (auto simp: applied_module_def asked_again_def)
  let ?m2 = "m1\<lparr>hm_running := False, hm_since := now, hm_done := None\<rparr>"
  obtain c2 where c2: "col_moves g [Return err now, Leave now, Finish] c1 = Some c2" "col_modules c2 n = Some ?m2"
    using col_moves_leave [OF wf1 r1 r(2), of m1 err now] r(3) m1(1) n by (auto simp: ctx_ended_def)
  have wf2: "wf_collection c2" by (rule wf_moves [OF c2(1) wf1])
  have "col_modules c3 n = Some ?m2" if n': "n \<in> set enabled'" and a': "col_Apply enabled' clock' c2 = (Inr ws', c3)"
    for enabled' clock' ws' c3
  proof -
    obtain m3 where "col_modules c3 n = Some m3" "applied_module enabled' (col_work c2) n (col_live c3) ?m2 m3"
      using Apply_Inr [OF wf2 a' c2(2)] by blast
    then show ?thesis using d n' by (simp add: applied_module_def asked_again_def)
  qed
  then show ?thesis using c2 d by (auto simp: hm_state_def)
qed

text \<open>Every goroutine can move.\<close>

lemma col_move_enabled: "col_live c g = Some r \<Longrightarrow> \<exists>mv c'. col_move g mv c = Some c'"
proof (cases "go_point r")
  case (Returned err lasted)
  assume "col_live c g = Some r"
  then have "\<exists>c'. col_move g (Fail 0 0) c = Some c'"
    using Returned by (cases "col_failed (go_module r) err lasted 0 0 c") (auto simp: col_move_def split: sum.splits)
  then show ?thesis by blast
qed (auto simp: col_move_def intro: exI [of _ "Enter 0"] exI [of _ "Return None 0"] exI [of _ Fire]
    exI [of _ "Restart 0"] exI [of _ "Leave 0"] exI [of _ Finish])

end
