(* ===== verification/Modules_Samples.thy ===== *)
theory Modules_Samples
  imports Modules_Told
begin

text \<open>
  A collection of two modules of which one spends its budget, and one of a module that is asked for
  again before its goroutine returned.
\<close>

definition sample_modules :: "(Module \<times> time) list" where
  "sample_modules = [(\<lparr>md_Name = ''auth'', md_Enabled = True, md_Collect = True\<rparr>, 0),
     (\<lparr>md_Name = ''files'', md_Enabled = False, md_Collect = True\<rparr>, 0)]"

definition sample_mod_policy :: mod_policy where
  "sample_mod_policy = \<lparr>mp_Backoff = 10, mp_MaxBackoff = 40, mp_Budget = 1, mp_Recovered = 100, mp_Stop = 5\<rparr>"

definition composed_collection :: collection where
  "composed_collection =
     (empty_collection sample_mod_policy)\<lparr>col_order := [''auth'', ''files''],
        col_modules := (\<lambda>_. None)(''auth'' \<mapsto> new_module (fst (sample_modules ! 0)) 0,
          ''files'' \<mapsto> new_module (fst (sample_modules ! 1)) 0)\<rparr>"

definition running_collection :: collection where
  "running_collection = snd (Run_begin (\<lambda>_. 1) composed_collection)"

lemma sample_new_collection: "New_collection True sample_mod_policy sample_modules = Inr composed_collection"
  by (simp add: New_collection_def sample_mod_policy_def sample_modules_def settled_policy_def settle_time_def
      compose_one_def composed_collection_def empty_collection_def Let_def)

lemma sample_running: "col_runs composed_collection [] running_collection"
  "col_live running_collection 0 = Some \<lparr>go_module = ''auth'', go_point = Entering, go_cancelled = False\<rparr>"
proof -
  have "Run_begin (\<lambda>_. 1) composed_collection = (None, running_collection)"
    by (simp add: running_collection_def Run_begin_def composed_collection_def empty_collection_def)
  from runs_step [OF runs_none step_Run [OF this]] show "col_runs composed_collection [] running_collection" by simp
  show "col_live running_collection 0 = Some \<lparr>go_module = ''auth'', go_point = Entering, go_cancelled = False\<rparr>"
    by (simp add: running_collection_def Run_begin_def composed_collection_def empty_collection_def
        col_start_def desired_module_def sample_modules_def new_module_def)
qed

text \<open>The goroutine of the module fails once and ends.\<close>

lemma sample_spent:
  "\<exists>c m. col_runs composed_collection [Ran ''auth'' 7] c \<and> col_modules c ''auth'' = Some m
     \<and> hm_state m = Mod_Failed \<and> hm_done m = None"
proof -
  let ?c = running_collection
  let ?r = "\<lparr>go_module = ''auth'', go_point = Entering, go_cancelled = False\<rparr>"
  note d = running_collection_def Run_begin_def composed_collection_def empty_collection_def col_start_def
    desired_module_def sample_modules_def new_module_def sample_mod_policy_def
  define c1 where "c1 = at_point 0 (Collecting 2) ?c"
  define c2 where "c2 = at_point 0 (Returned (Some ''gone'') 7) c1"
  define c3 where "c3 = at_point 0 (Releasing (Some ''gone''))
    (set_module ''auth'' (failed_module sample_mod_policy (Some ''gone'') 7 9) c2)"
  define c4 where "c4 = col_released 0 ''auth'' (Some ''gone'') c3"
  have l1: "col_live c1 0 = Some (?r\<lparr>go_point := Collecting 2\<rparr>)" by (simp add: c1_def sample_running)
  have l2: "col_live c2 0 = Some (?r\<lparr>go_point := Returned (Some ''gone'') 7\<rparr>)" by (simp add: c2_def l1)
  have l3: "col_live c3 0 = Some (?r\<lparr>go_point := Releasing (Some ''gone'')\<rparr>)" by (simp add: c3_def l2)
  have p: "col_policy ?c = sample_mod_policy" "col_ended ?c = False" by (simp_all add: d)
  have m0: "\<exists>m. col_modules ?c ''auth'' = Some m \<and> hm_failures m = 0 \<and> hm_desired m" by (simp add: d)
  have s1: "col_move 0 (Enter 2) ?c = Some c1" by (simp add: col_move_def sample_running c1_def)
  have s2: "col_move 0 (Return (Some ''gone'') 9) c1 = Some c2"
    using p by (simp add: col_move_def l1 c2_def ctx_ended_def) (simp add: c1_def)
  have q: "col_policy c2 = sample_mod_policy" "\<exists>m. col_modules c2 ''auth'' = Some m \<and> hm_failures m = 0"
    using m0 p by (auto simp: c2_def c1_def)
  have s3: "col_move 0 (Fail 9 0) c2 = Some c3"
    using q by (auto simp: col_move_def l2 c3_def col_failed_def Let_def failed_module_def sample_mod_policy_def)
  have s4: "col_move 0 Finish c3 = Some c4" by (simp add: col_move_def l3 c4_def)
  have f: "hm_desired (failed_module q e l t m) = hm_desired m" for q e l t m by (simp add: failed_module_def)
  note r1 = runs_step [OF sample_running(1) step_move [OF sample_running(2) s1]]
  note r2 = runs_step [OF r1 step_move [OF l1 s2]]
  note r3 = runs_step [OF r2 step_move [OF l2 s3]]
  note r4 = runs_step [OF r3 step_move [OF l3 s4]]
  from m0 obtain m where m: "col_modules ?c ''auth'' = Some m" "hm_desired m" by blast
  let ?m = "(failed_module sample_mod_policy (Some ''gone'') 7 9 m)\<lparr>hm_done := None, hm_running := False, hm_spent := True\<rparr>"
  have "col_modules c4 ''auth'' = Some ?m" using m by (simp add: c4_def col_released_def c3_def c2_def c1_def)
  moreover have "hm_state ?m = Mod_Failed" "hm_done ?m = None" using m f by (simp_all add: hm_state_def)
  ultimately show ?thesis using r4 by auto
qed

text \<open>The module is disabled while its goroutine is inside \<open>Collect\<close>.\<close>

definition leaving_collection :: collection where
  "leaving_collection = snd (col_Apply [] (\<lambda>_. 3) (at_point 0 (Collecting 2) running_collection))"

definition again_collection :: collection where
  "again_collection = snd (col_Apply [''auth''] (\<lambda>_. 4) leaving_collection)"

lemma sample_leaving:
  "wf_collection leaving_collection"
  "col_live leaving_collection 0 = Some \<lparr>go_module = ''auth'', go_point = Collecting 2, go_cancelled = True\<rparr>"
  "\<exists>m. col_modules leaving_collection ''auth'' = Some m \<and> \<not> hm_desired m \<and> hm_done m = Some 0"
  "\<exists>ws. col_Apply [''auth''] (\<lambda>_. 4) leaving_collection = (Inr ws, again_collection)"
proof -
  note d = leaving_collection_def running_collection_def Run_begin_def composed_collection_def
    empty_collection_def col_start_def desired_module_def sample_modules_def new_module_def
    col_Apply_def apply_one_def asked_again_def unknown_modules_def col_cancel_def
  have wf: "wf_collection running_collection"
    using wf_New(1) [OF sample_new_collection] wf_col_runs [OF sample_running(1)] by simp
  have "col_move 0 (Enter 2) running_collection = Some (at_point 0 (Collecting 2) running_collection)"
    by (simp add: col_move_def sample_running)
  note wf1 = wf_move [OF wf this]
  show "wf_collection leaving_collection"
    unfolding leaving_collection_def by (rule wf_Apply [OF wf1 prod.collapse [symmetric]])
  show "col_live leaving_collection 0 = Some \<lparr>go_module = ''auth'', go_point = Collecting 2, go_cancelled = True\<rparr>"
    by (simp add: d)
  show "\<exists>m. col_modules leaving_collection ''auth'' = Some m \<and> \<not> hm_desired m \<and> hm_done m = Some 0"
    by (simp add: d)
  have "\<not> col_stopping leaving_collection" "unknown_modules leaving_collection [''auth''] = []" by (simp_all add: d)
  then show "\<exists>ws. col_Apply [''auth''] (\<lambda>_. 4) leaving_collection = (Inr ws, again_collection)"
    unfolding again_collection_def by (auto simp: col_Apply_def split: prod.splits)
qed

end
