(* ===== verification/Network_Changes.thy ===== *)
theory Network_Changes
  imports Network_View
begin

text \<open>
  How a round is compared with the last one, \<open>internal/modules/network/changes.go\<close>: which namespaces
  match, what opened, closed and changed, which flows are kept through the rounds they are missed in,
  and how many flows are tracked. The largest number of flows is an argument, as the variable of the
  source is.
\<close>

definition byListening :: "listening \<Rightarrow> listening \<Rightarrow> int" where
  "byListening = compare_then (compare_on (protocol_order \<circ> lg_protocol) cmp_Compare)
     (compare_then (compare_on lg_address addr_Compare) (compare_on lg_port cmp_Compare))"

text \<open>\<open>compareOwned\<close> puts what is owned after what is not.\<close>

definition byConversation :: "conversation \<Rightarrow> conversation \<Rightarrow> int" where
  "byConversation = compare_then (compare_on (direction_order \<circ> cv_direction) cmp_Compare)
     (compare_then (compare_on (protocol_order \<circ> cv_protocol) cmp_Compare)
     (compare_then (compare_on cv_remote addr_Compare)
     (compare_then (compare_on cv_port cmp_Compare)
     (compare_then (compare_on cv_owned cmp_Compare) (compare_on cv_account cmp_Compare)))))"

interpretation listenings: comparison byListening
  unfolding byListening_def by (intro comparison_then comparison_on compared.comparison_axioms addresses.comparison_axioms)

interpretation conversations: comparison byConversation
  unfolding byConversation_def by (intro comparison_then comparison_on compared.comparison_axioms addresses.comparison_axioms)

lemma byListening_0 [simp]: "byListening a b = 0 \<longleftrightarrow> a = b"
  by (cases a; cases b; cases "lg_protocol a"; cases "lg_protocol b")
    (auto simp: byListening_def compare_then_def compare_on_def protocol_order_def)

lemma byConversation_0 [simp]: "byConversation a b = 0 \<longleftrightarrow> a = b"
  by (cases a; cases b; cases "cv_protocol a"; cases "cv_protocol b"; cases "cv_direction a"; cases "cv_direction b")
    (auto simp: byConversation_def compare_then_def compare_on_def protocol_order_def direction_order_def)

section \<open>Changes\<close>

text \<open>
  What changed in a namespace, and in which one: the place among the spaces of the new state, which
  the pointer of the source is to, or the space that is gone.
\<close>

datatype event =
    Listener_opened listening listener
  | Listener_closed listening listener
  | Listener_changed listening listener listener "string list"
  | Flow_started conversation flow
  | Flow_ended conversation flow
  | Namespace_seen

datatype change = At nat event | Namespace_gone space

record net_state =
  st_boot :: string
  st_spaces :: "space list"

definition named_of :: "holder list \<Rightarrow> string list" where
  "named_of hs = foldl (added_to str_Compare) [] (List.map hr_Name hs)"

definition differences :: "listener \<Rightarrow> listener \<Rightarrow> string list" where
  "differences was now =
     (if li_accounts was \<noteq> li_accounts now then [''accounts''] else [])
     @ (if li_association was = By_process \<and> li_association now = By_process
           \<and> named_of (li_processes was) \<noteq> named_of (li_processes now) then [''processes''] else [])"

record comparing =
  cp_now :: time
  cp_adopting :: bool
  cp_quiet :: bool
  cp_ending :: bool
  cp_complete :: bool
  cp_left :: int
  cp_untracked :: nat
  cp_at :: nat
  cp_changes :: "change list"

definition say :: "event \<Rightarrow> comparing \<Rightarrow> comparing" where
  "say x c = c\<lparr>cp_changes := cp_changes c @ [At (cp_at c) x]\<rparr>"

definition track :: "comparing \<Rightarrow> bool \<times> comparing" where
  "track c = (if cp_left c \<le> 0 then (False, c\<lparr>cp_untracked := cp_untracked c + 1\<rparr>) else (True, c\<lparr>cp_left := cp_left c - 1\<rparr>))"

section \<open>A namespace seen first\<close>

fun arrive_listeners :: "space \<Rightarrow> listening list \<Rightarrow> comparing \<Rightarrow> comparing" where
  "arrive_listeners seen [] c = c"
| "arrive_listeners seen (at # rest) c =
     arrive_listeners seen rest (say (Listener_opened at (the (map_of (sc_listeners seen) at))) c)"

fun arrive_flows :: "bool \<Rightarrow> conversation list \<Rightarrow> space \<Rightarrow> comparing \<Rightarrow> space \<times> comparing" where
  "arrive_flows adopting [] seen c = (seen, c)"
| "arrive_flows adopting (talk # rest) seen c =
     (case track c of
        (False, c) \<Rightarrow> arrive_flows adopting rest (seen\<lparr>sc_flows := AList.delete talk (sc_flows seen)\<rparr>) c
      | (True, c) \<Rightarrow>
          arrive_flows adopting rest seen
            (if adopting then c else say (Flow_started talk (the (map_of (sc_flows seen) talk))) c))"

definition arrive :: "space \<Rightarrow> bool \<Rightarrow> comparing \<Rightarrow> space \<times> comparing" where
  "arrive seen adopting c =
     (let c = (if adopting then c
               else arrive_listeners seen (ordered_keys byListening (sc_listeners seen)) (say Namespace_seen c))
      in arrive_flows adopting (ordered_keys byConversation (sc_flows seen)) seen c)"

section \<open>A namespace seen again\<close>

fun merge_opened :: "space \<Rightarrow> space \<Rightarrow> listening list \<Rightarrow> comparing \<Rightarrow> comparing" where
  "merge_opened kept seen [] c = c"
| "merge_opened kept seen (at # rest) c =
     (let now = the (map_of (sc_listeners seen) at)
      in merge_opened kept seen rest
           (case map_of (sc_listeners kept) at of
              None \<Rightarrow> say (Listener_opened at now) c
            | Some was \<Rightarrow> if differences was now \<noteq> [] then say (Listener_changed at now was (differences was now)) c else c))"

fun merge_closed :: "space \<Rightarrow> space \<Rightarrow> listening list \<Rightarrow> comparing \<Rightarrow> comparing" where
  "merge_closed kept seen [] c = c"
| "merge_closed kept seen (at # rest) c =
     merge_closed kept seen rest
       (if map_of (sc_listeners seen) at = None then say (Listener_closed at (the (map_of (sc_listeners kept) at))) c else c)"

definition seen_again :: "flow \<Rightarrow> flow \<Rightarrow> flow" where
  "seen_again was now = now\<lparr>fl_first := fl_first was, fl_most := max (fl_most was) (fl_most now),
     fl_processes := joined (fl_processes was) (fl_processes now)\<rparr>"

fun merge_seen ::
  "space \<Rightarrow> space \<Rightarrow> conversation list \<Rightarrow> (conversation \<times> flow) list \<Rightarrow> comparing \<Rightarrow> (conversation \<times> flow) list \<times> comparing" where
  "merge_seen kept seen [] flows c = (flows, c)"
| "merge_seen kept seen (talk # rest) flows c =
     (let now = the (map_of (sc_flows seen) talk)
      in case map_of (sc_flows kept) talk of
           Some was \<Rightarrow> merge_seen kept seen rest (AList.update talk (seen_again was now) flows) (c\<lparr>cp_left := cp_left c - 1\<rparr>)
         | None \<Rightarrow>
             (case track c of
                (False, c) \<Rightarrow> merge_seen kept seen rest flows c
              | (True, c) \<Rightarrow>
                  merge_seen kept seen rest (AList.update talk now flows)
                    (if cp_quiet c then c else say (Flow_started talk now) c)))"

definition missed_again :: "flow \<Rightarrow> flow" where
  "missed_again was = was\<lparr>fl_missed := fl_missed was + 1, fl_connections := 0\<rparr>"

fun merge_missed ::
  "space \<Rightarrow> space \<Rightarrow> conversation list \<Rightarrow> (conversation \<times> flow) list \<Rightarrow> comparing \<Rightarrow> (conversation \<times> flow) list \<times> comparing" where
  "merge_missed kept seen [] flows c = (flows, c)"
| "merge_missed kept seen (talk # rest) flows c =
     (if map_of (sc_flows seen) talk \<noteq> None then merge_missed kept seen rest flows c
      else
        let was = missed_again (the (map_of (sc_flows kept) talk))
        in if fl_missed was \<ge> linger \<or> cp_ending c then
             merge_missed kept seen rest flows (if cp_quiet c then c else say (Flow_ended talk was) c)
           else merge_missed kept seen rest (AList.update talk was flows) (c\<lparr>cp_left := cp_left c - 1\<rparr>))"

definition merge_space :: "space \<Rightarrow> space \<Rightarrow> comparing \<Rightarrow> space \<times> comparing" where
  "merge_space kept seen c =
     (let c = merge_opened kept seen (ordered_keys byListening (sc_listeners seen)) c;
          c = merge_closed kept seen (ordered_keys byListening (sc_listeners kept)) c
      in case merge_seen kept seen (ordered_keys byConversation (sc_flows seen)) [] c of (flows, c) \<Rightarrow>
         case merge_missed kept seen (ordered_keys byConversation (sc_flows kept)) flows c of (flows, c) \<Rightarrow>
           (seen\<lparr>sc_flows := flows\<rparr>, c))"

section \<open>A whole reading\<close>

definition space_match :: "texts \<Rightarrow> Namespace \<Rightarrow> space \<Rightarrow> bool" where
  "space_match tx read kept =
     (if sc_own kept \<or> ns_Own read then sc_own kept \<and> ns_Own read
      else sc_key kept = ns_Key read
        \<and> list_ex (\<lambda>member. list_ex (same_holder (holding_of tx member)) (sc_earliest kept)) (ns_Earliest read))"

text \<open>\<open>match\<close>, as the place of what it returns among the spaces held.\<close>

fun match_from :: "texts \<Rightarrow> Namespace \<Rightarrow> nat \<Rightarrow> space list \<Rightarrow> nat option" where
  "match_from tx read i [] = None"
| "match_from tx read i (s # rest) = (if space_match tx read s then Some i else match_from tx read (i + 1) rest)"

definition awaited :: "texts \<Rightarrow> bool \<Rightarrow> time \<Rightarrow> Namespace \<Rightarrow> space" where
  "awaited tx whole t read = (viewed tx (read\<lparr>ns_Sockets := [], ns_Failure := False\<rparr>) (\<lambda>_. []) whole [] t)\<lparr>sc_pending := True\<rparr>"

definition compare_read :: "texts \<Rightarrow> (u64 \<Rightarrow> Process list) \<Rightarrow> space option \<Rightarrow> Namespace \<Rightarrow> comparing \<Rightarrow> space \<times> comparing" where
  "compare_read tx holders kept read c =
     (case (ns_Failure read, kept) of
        (True, Some kept) \<Rightarrow> (kept, c\<lparr>cp_left := cp_left c - int (length (sc_flows kept))\<rparr>)
      | (True, None) \<Rightarrow> (awaited tx (cp_complete c) (cp_now c) read, c)
      | (False, kept) \<Rightarrow>
          if (case kept of None \<Rightarrow> True | Some kept \<Rightarrow> sc_pending kept) then
            arrive (viewed tx read holders (cp_complete c) [] (cp_now c)) (cp_adopting c \<or> kept \<noteq> None) c
          else merge_space (the kept) (viewed tx read holders (cp_complete c) (sc_connected (the kept)) (cp_now c)) c)"

fun compare_reads ::
  "texts \<Rightarrow> (u64 \<Rightarrow> Process list) \<Rightarrow> space list \<Rightarrow> Namespace list \<Rightarrow> nat set \<Rightarrow> space list \<Rightarrow> comparing \<Rightarrow> nat set \<times> space list \<times> comparing" where
  "compare_reads tx holders previous [] matched spaces c = (matched, spaces, c)"
| "compare_reads tx holders previous (read # rest) matched spaces c =
     (let at = match_from tx read 0 previous;
          matched = (case at of None \<Rightarrow> matched | Some i \<Rightarrow> insert i matched)
      in case compare_read tx holders (map_option ((!) previous) at) read (c\<lparr>cp_at := length spaces\<rparr>) of (seen, c) \<Rightarrow>
           compare_reads tx holders previous rest matched (spaces @ [seen]) c)"

fun compare_rest :: "bool \<Rightarrow> bool \<Rightarrow> nat set \<Rightarrow> nat \<Rightarrow> space list \<Rightarrow> space list \<Rightarrow> comparing \<Rightarrow> space list \<times> comparing" where
  "compare_rest whole hidden matched i [] spaces c = (spaces, c)"
| "compare_rest whole hidden matched i (kept # rest) spaces c =
     (if i \<in> matched then compare_rest whole hidden matched (i + 1) rest spaces c
      else if whole \<and> \<not> sc_pending kept then compare_rest whole hidden matched (i + 1) rest spaces (c\<lparr>cp_changes := cp_changes c @ [Namespace_gone kept]\<rparr>)
      else if whole \<or> hidden \<and> \<not> sc_own kept then compare_rest whole hidden matched (i + 1) rest spaces c
      else compare_rest whole hidden matched (i + 1) rest (spaces @ [kept]) (c\<lparr>cp_left := cp_left c - int (length (sc_flows kept))\<rparr>))"

definition held_spaces :: "net_state option \<Rightarrow> space list" where
  "held_spaces s = (case s of None \<Rightarrow> [] | Some s \<Rightarrow> st_spaces s)"

definition reading_whole :: "Reading \<Rightarrow> bool" where
  "reading_whole r \<longleftrightarrow> \<not> re_Unvisited r \<and> \<not> re_Hidden r \<and> re_Refused r = 0 \<and> re_Skipped r = 0"

definition compare :: "texts \<Rightarrow> int \<Rightarrow> net_state option \<Rightarrow> Reading \<Rightarrow> comparing \<Rightarrow> net_state \<times> comparing" where
  "compare tx maxFlows previous reading c =
     (case compare_reads tx (re_Holders reading) (held_spaces previous) (re_Namespaces reading) {} [] (c\<lparr>cp_left := maxFlows\<rparr>) of
        (matched, spaces, c) \<Rightarrow>
      case compare_rest (reading_whole reading) (re_Hidden reading) matched 0 (held_spaces previous) spaces c of
        (spaces, c) \<Rightarrow> (\<lparr>st_boot = re_Boot reading, st_spaces = spaces\<rparr>, c))"

end
