(* ===== verification/Network_Inv.thy ===== *)
theory Network_Inv
  imports Network_Changes
begin

text \<open>
  What comparing two rounds keeps and reports: the changes reported are exactly the difference between
  what was held and what is held, a flow is held while one of the last three rounds saw it, and every
  space held is well formed.
\<close>

lemma ordered_keys_simps [simp]:
  "set (ordered_keys by m) = fst ` set m" "distinct (ordered_keys by m) = distinct (List.map fst m)"
  by (simp_all add: ordered_keys_def)

lemma say_simps [simp]:
  "cp_now (say e c) = cp_now c" "cp_quiet (say e c) = cp_quiet c" "cp_ending (say e c) = cp_ending c"
  "cp_adopting (say e c) = cp_adopting c" "cp_complete (say e c) = cp_complete c" "cp_at (say e c) = cp_at c"
  "cp_left (say e c) = cp_left c" "cp_changes (say e c) = cp_changes c @ [At (cp_at c) e]"
  by (simp_all add: say_def)

lemma track_cases:
  obtains (full) "cp_left c \<le> 0" "track c = (False, c\<lparr>cp_untracked := cp_untracked c + 1\<rparr>)"
    | (room) "0 < cp_left c" "track c = (True, c\<lparr>cp_left := cp_left c - 1\<rparr>)"
  by (cases "cp_left c \<le> 0") (auto simp: track_def)

text \<open>One comparison leads to another: only the changes it appends, and what it counts, are different.\<close>

definition says :: "comparing \<Rightarrow> event list \<Rightarrow> comparing \<Rightarrow> bool" where
  "says c es c' \<longleftrightarrow> cp_changes c' = cp_changes c @ List.map (At (cp_at c)) es \<and> cp_at c' = cp_at c
     \<and> cp_quiet c' = cp_quiet c \<and> cp_ending c' = cp_ending c \<and> cp_adopting c' = cp_adopting c
     \<and> cp_complete c' = cp_complete c \<and> cp_now c' = cp_now c"

lemma says_refl [simp]: "says c [] c"
  by (simp add: says_def)

lemma says_trans: "says c es c' \<Longrightarrow> says c' fs c'' \<Longrightarrow> says c (es @ fs) c''"
  by (simp add: says_def)

lemma says_say: "says (say e c) es c' \<Longrightarrow> says c (e # es) c'"
  by (simp add: says_def)

lemma says_count: "says (c\<lparr>cp_left := n\<rparr>) es c' = says c es c'" "says (c\<lparr>cp_untracked := k\<rparr>) es c' = says c es c'"
  by (simp_all add: says_def)

section \<open>Replaying what is reported\<close>

text \<open>The listeners and the flows of a namespace, by their keys, and what an event makes of them.\<close>

type_synonym seen_keys = "listening set \<times> conversation set"

definition keys_of :: "space \<Rightarrow> seen_keys" where
  "keys_of s = (fst ` set (sc_listeners s), fst ` set (sc_flows s))"

text \<open>An event can be replayed where it fits what is there: only what is absent opens or starts, and only what is there closes, changes or ends.\<close>

fun replay :: "event \<Rightarrow> seen_keys \<Rightarrow> seen_keys option" where
  "replay (Listener_opened at _) (ls, fs) = (if at \<in> ls then None else Some (insert at ls, fs))"
| "replay (Listener_closed at _) (ls, fs) = (if at \<in> ls then Some (ls - {at}, fs) else None)"
| "replay (Listener_changed at _ _ _) (ls, fs) = (if at \<in> ls then Some (ls, fs) else None)"
| "replay (Flow_started talk _) (ls, fs) = (if talk \<in> fs then None else Some (ls, insert talk fs))"
| "replay (Flow_ended talk _) (ls, fs) = (if talk \<in> fs then Some (ls, fs - {talk}) else None)"
| "replay Namespace_seen s = Some s"

fun replays :: "event list \<Rightarrow> seen_keys \<Rightarrow> seen_keys option" where
  "replays [] s = Some s"
| "replays (e # es) s = (case replay e s of None \<Rightarrow> None | Some s \<Rightarrow> replays es s)"

lemma replays_append: "replays (es @ fs) s = (case replays es s of None \<Rightarrow> None | Some s \<Rightarrow> replays fs s)"
  by (induction es arbitrary: s) (auto split: option.splits)

definition opened_events :: "space \<Rightarrow> space \<Rightarrow> listening \<Rightarrow> event list" where
  "opened_events kept seen at =
     (let now = the (map_of (sc_listeners seen) at)
      in case map_of (sc_listeners kept) at of
           None \<Rightarrow> [Listener_opened at now]
         | Some was \<Rightarrow> if differences was now \<noteq> [] then [Listener_changed at now was (differences was now)] else [])"

definition closed_events :: "space \<Rightarrow> space \<Rightarrow> listening \<Rightarrow> event list" where
  "closed_events kept seen at =
     (if map_of (sc_listeners seen) at = None then [Listener_closed at (the (map_of (sc_listeners kept) at))] else [])"

lemma merge_listeners_says:
  "says c (concat (List.map (opened_events kept seen) ats)) (merge_opened kept seen ats c)"
  "says c (concat (List.map (closed_events kept seen) ats)) (merge_closed kept seen ats c)"
  "cp_left (merge_opened kept seen ats c) = cp_left c" "cp_left (merge_closed kept seen ats c) = cp_left c"
proof -
  show "says c (concat (List.map (opened_events kept seen) ats)) (merge_opened kept seen ats c)"
    "cp_left (merge_opened kept seen ats c) = cp_left c"
    by (induction ats arbitrary: c) (auto simp: opened_events_def Let_def says_say split: option.splits)
  show "says c (concat (List.map (closed_events kept seen) ats)) (merge_closed kept seen ats c)"
    "cp_left (merge_closed kept seen ats c) = cp_left c"
    by (induction ats arbitrary: c) (auto simp: closed_events_def says_say)
qed

lemma opened_replays:
  assumes "distinct ats" "\<forall>at \<in> set ats. at \<in> ls \<longleftrightarrow> map_of (sc_listeners kept) at \<noteq> None"
  shows "replays (concat (List.map (opened_events kept seen) ats)) (ls, fs) = Some (ls \<union> set ats, fs)"
  using assms
proof (induction ats arbitrary: ls)
  case (Cons at ats)
  have "replays (opened_events kept seen at) (ls, fs) = Some (insert at ls, fs)"
    using Cons.prems(2) by (auto simp: opened_events_def Let_def insert_absorb split: option.splits)
  then show ?case using Cons.IH [of "insert at ls"] Cons.prems by (auto simp: replays_append)
qed simp

lemma closed_replays:
  assumes "distinct ats" "set ats \<subseteq> ls"
  shows "replays (concat (List.map (closed_events kept seen) ats)) (ls, fs)
    = Some (ls - {at \<in> set ats. map_of (sc_listeners seen) at = None}, fs)"
  using assms
proof (induction ats arbitrary: ls)
  case (Cons at ats)
  have "{x \<in> set (at # ats). map_of (sc_listeners seen) x = None}
      = (if map_of (sc_listeners seen) at = None then {at} else {}) \<union> {x \<in> set ats. map_of (sc_listeners seen) x = None}" by auto
  moreover have "set ats \<subseteq> ls - {at}" using Cons.prems by auto
  ultimately show ?case using Cons.IH [of "ls - {at}"] Cons.IH [of ls] Cons.prems
    by (auto simp: closed_events_def replays_append)
qed simp

lemma merge_listeners_replays:
  assumes "distinct (List.map fst (sc_listeners kept))" "distinct (List.map fst (sc_listeners seen))"
  shows "replays (concat (List.map (opened_events kept seen) (ordered_keys byListening (sc_listeners seen)))
      @ concat (List.map (closed_events kept seen) (ordered_keys byListening (sc_listeners kept)))) (fst ` set (sc_listeners kept), fs)
    = Some (fst ` set (sc_listeners seen), fs)"
proof -
  let ?K = "fst ` set (sc_listeners kept)" and ?S = "fst ` set (sc_listeners seen)"
  have "replays (concat (List.map (opened_events kept seen) (ordered_keys byListening (sc_listeners seen)))) (?K, fs) = Some (?K \<union> ?S, fs)"
    using opened_replays [of "ordered_keys byListening (sc_listeners seen)" ?K kept] assms by (simp add: map_of_eq_None_iff)
  moreover have "replays (concat (List.map (closed_events kept seen) (ordered_keys byListening (sc_listeners kept)))) (?K \<union> ?S, fs)
      = Some (?K \<union> ?S - {at \<in> ?K. map_of (sc_listeners seen) at = None}, fs)"
    using closed_replays [of "ordered_keys byListening (sc_listeners kept)" "?K \<union> ?S" kept] assms by simp
  moreover have "?K \<union> ?S - {at \<in> ?K. map_of (sc_listeners seen) at = None} = ?S" by (auto simp: map_of_eq_None_iff)
  ultimately show ?thesis by (simp add: replays_append)
qed

section \<open>The flows of a namespace seen again\<close>

text \<open>Of the flows seen, in order, the ones held: those held before, and new ones while there is room.\<close>

fun let_in :: "(conversation \<Rightarrow> bool) \<Rightarrow> int \<Rightarrow> conversation list \<Rightarrow> conversation list" where
  "let_in old left [] = []"
| "let_in old left (t # ts) = (if old t \<or> 0 < left then t # let_in old (left - 1) ts else let_in old left ts)"

lemma let_in_sub: "set (let_in old left ts) \<subseteq> set ts"
  by (induction ts arbitrary: left) auto

lemma let_in_spec:
  "{t \<in> set ts. old t} \<subseteq> set (let_in old left ts)" "distinct ts \<Longrightarrow> distinct (let_in old left ts)"
  "int (length ts) \<le> left \<Longrightarrow> let_in old left ts = ts"
proof -
  show "{t \<in> set ts. old t} \<subseteq> set (let_in old left ts)" "int (length ts) \<le> left \<Longrightarrow> let_in old left ts = ts"
    by (induction ts arbitrary: left) auto
  show "distinct ts \<Longrightarrow> distinct (let_in old left ts)"
    by (induction ts arbitrary: left) (use let_in_sub in fastforce)+
qed

definition held_before :: "space \<Rightarrow> conversation \<Rightarrow> bool" where
  "held_before kept t \<longleftrightarrow> map_of (sc_flows kept) t \<noteq> None"

definition held_as :: "space \<Rightarrow> space \<Rightarrow> conversation \<Rightarrow> flow" where
  "held_as kept seen t =
     (let now = the (map_of (sc_flows seen) t)
      in case map_of (sc_flows kept) t of None \<Rightarrow> now | Some was \<Rightarrow> seen_again was now)"

lemma update_fresh: "k \<notin> fst ` set m \<Longrightarrow> AList.update k v m = m @ [(k, v)]"
  by (induction m) auto

definition started_events :: "space \<Rightarrow> space \<Rightarrow> conversation list \<Rightarrow> event list" where
  "started_events kept seen ins = List.map (\<lambda>t. Flow_started t (held_as kept seen t)) (filter (\<lambda>t. \<not> held_before kept t) ins)"

lemma merge_seen_eq:
  assumes "distinct talks" "fst ` set flows \<inter> set talks = {}"
  shows "fst (merge_seen kept seen talks flows c) = flows @ List.map (\<lambda>t. (t, held_as kept seen t)) (let_in (held_before kept) (cp_left c) talks)
    \<and> says c (if cp_quiet c then [] else started_events kept seen (let_in (held_before kept) (cp_left c) talks)) (snd (merge_seen kept seen talks flows c))
    \<and> cp_left (snd (merge_seen kept seen talks flows c)) = cp_left c - int (length (let_in (held_before kept) (cp_left c) talks))"
  using assms
proof (induction talks arbitrary: flows c)
  case (Cons talk rest)
  let ?now = "the (map_of (sc_flows seen) talk)"
  have fresh: "AList.update talk x flows = flows @ [(talk, x)]" "distinct rest" "fst ` set (flows @ [(talk, x)]) \<inter> set rest = {}"
    "fst ` set flows \<inter> set rest = {}" for x
    using Cons.prems by (auto simp: update_fresh)
  note go = Cons.IH [OF fresh(2,3)] and stay = Cons.IH [OF fresh(2,4)]
  show ?case
  proof (cases "map_of (sc_flows kept) talk")
    case (Some was)
    then have h: "held_before kept talk" "held_as kept seen talk = seen_again was ?now" by (simp_all add: held_before_def held_as_def Let_def)
    have m: "merge_seen kept seen (talk # rest) flows c
        = merge_seen kept seen rest (flows @ [(talk, seen_again was ?now)]) (c\<lparr>cp_left := cp_left c - 1\<rparr>)"
      using Some fresh(1) by (simp add: Let_def)
    show ?thesis unfolding m using go [of "seen_again was ?now" "c\<lparr>cp_left := cp_left c - 1\<rparr>"] h
      by (auto simp: says_count started_events_def split: if_splits)
  next
    case None
    then have h: "\<not> held_before kept talk" "held_as kept seen talk = ?now" by (simp_all add: held_before_def held_as_def Let_def)
    show ?thesis
    proof (cases rule: track_cases [of c])
      case full
      then have m: "merge_seen kept seen (talk # rest) flows c = merge_seen kept seen rest flows (c\<lparr>cp_untracked := cp_untracked c + 1\<rparr>)"
        using None by (simp add: Let_def)
      show ?thesis unfolding m using stay [of "c\<lparr>cp_untracked := cp_untracked c + 1\<rparr>"] h full(1)
        by (auto simp: says_count split: if_splits)
    next
      case room
      define c1 where "c1 = (if cp_quiet c then c\<lparr>cp_left := cp_left c - 1\<rparr> else say (Flow_started talk ?now) (c\<lparr>cp_left := cp_left c - 1\<rparr>))"
      have m: "merge_seen kept seen (talk # rest) flows c = merge_seen kept seen rest (flows @ [(talk, ?now)]) c1"
        using None room fresh(1) by (simp add: Let_def c1_def)
      have c1: "cp_left c1 = cp_left c - 1" "cp_quiet c1 = cp_quiet c" by (simp_all add: c1_def)
      have "says c (if cp_quiet c then [] else Flow_started talk ?now # es) c'" if "says c1 (if cp_quiet c then [] else es) c'" for es c'
        using that by (auto simp: c1_def says_def split: if_splits)
      then show ?thesis unfolding m using go [of ?now c1] h room(1) c1 by (auto simp: started_events_def)
    qed
  qed
qed (simp add: started_events_def)

definition ends :: "comparing \<Rightarrow> space \<Rightarrow> space \<Rightarrow> conversation \<Rightarrow> bool" where
  "ends c kept seen t \<longleftrightarrow> map_of (sc_flows seen) t = None \<and> (fl_missed (the (map_of (sc_flows kept) t)) + 1 \<ge> linger \<or> cp_ending c)"

definition stays :: "comparing \<Rightarrow> space \<Rightarrow> space \<Rightarrow> conversation \<Rightarrow> bool" where
  "stays c kept seen t \<longleftrightarrow> map_of (sc_flows seen) t = None \<and> \<not> ends c kept seen t"

definition missed_as :: "space \<Rightarrow> conversation \<Rightarrow> flow" where
  "missed_as kept t = missed_again (the (map_of (sc_flows kept) t))"

definition ended_events :: "comparing \<Rightarrow> space \<Rightarrow> space \<Rightarrow> conversation list \<Rightarrow> event list" where
  "ended_events c kept seen ts = List.map (\<lambda>t. Flow_ended t (missed_as kept t)) (filter (ends c kept seen) ts)"

lemma ending_cong: "cp_ending c' = cp_ending c \<Longrightarrow> ends c' = ends c \<and> stays c' = stays c \<and> ended_events c' = ended_events c"
proof -
  assume "cp_ending c' = cp_ending c"
  then have "ends c' = ends c" by (simp add: ends_def fun_eq_iff)
  moreover from this have "stays c' = stays c" "ended_events c' = ended_events c"
    by (simp add: stays_def fun_eq_iff, intro ext) (simp add: ended_events_def)
  ultimately show ?thesis by simp
qed

lemma merge_missed_eq:
  assumes "distinct talks" "fst ` set flows \<inter> {t \<in> set talks. map_of (sc_flows seen) t = None} = {}"
  shows "fst (merge_missed kept seen talks flows c) = flows @ List.map (\<lambda>t. (t, missed_as kept t)) (filter (stays c kept seen) talks)
    \<and> says c (if cp_quiet c then [] else ended_events c kept seen talks) (snd (merge_missed kept seen talks flows c))
    \<and> cp_left (snd (merge_missed kept seen talks flows c)) = cp_left c - int (length (filter (stays c kept seen) talks))"
  using assms
proof (induction talks arbitrary: flows c)
  case (Cons talk rest)
  let ?was = "missed_as kept talk"
  have rest: "distinct rest" "fst ` set flows \<inter> {t \<in> set rest. map_of (sc_flows seen) t = None} = {}" using Cons.prems by auto
  consider (seen) "map_of (sc_flows seen) talk \<noteq> None" | (ends) "ends c kept seen talk" | (stays) "stays c kept seen talk"
    by (cases "map_of (sc_flows seen) talk"; cases "ends c kept seen talk") (simp_all add: stays_def)
  then show ?case
  proof cases
    case seen
    then have "\<not> ends c kept seen talk" "\<not> stays c kept seen talk" by (auto simp: ends_def stays_def)
    then show ?thesis using Cons.IH [OF rest, of c] seen by (auto simp: ended_events_def)
  next
    case ends
    define c1 where "c1 = (if cp_quiet c then c else say (Flow_ended talk ?was) c)"
    have c1: "cp_left c1 = cp_left c" "cp_quiet c1 = cp_quiet c" "cp_ending c1 = cp_ending c" by (simp_all add: c1_def)
    note cong = ending_cong [OF c1(3)]
    have m: "merge_missed kept seen (talk # rest) flows c = merge_missed kept seen rest flows c1" "\<not> stays c kept seen talk"
      using ends by (auto simp: ends_def stays_def c1_def missed_as_def missed_again_def Let_def)
    have "says c (if cp_quiet c then [] else Flow_ended talk ?was # es) c'" if "says c1 (if cp_quiet c then [] else es) c'" for es c'
      using that by (auto simp: c1_def says_def split: if_splits)
    then show ?thesis unfolding m(1) using Cons.IH [OF rest, of c1] ends m(2) c1 cong by (auto simp: ended_events_def)
  next
    case stays
    then have s: "map_of (sc_flows seen) talk = None" "\<not> ends c kept seen talk" by (auto simp: stays_def)
    have "talk \<in> {t \<in> set (talk # rest). map_of (sc_flows seen) t = None}" using s(1) by simp
    then have "talk \<notin> fst ` set flows" using Cons.prems(2) by blast
    then have fresh: "AList.update talk ?was flows = flows @ [(talk, ?was)]"
      "fst ` set (flows @ [(talk, ?was)]) \<inter> {t \<in> set rest. map_of (sc_flows seen) t = None} = {}"
      using Cons.prems rest(2) by (auto simp: update_fresh)
    have m: "merge_missed kept seen (talk # rest) flows c
        = merge_missed kept seen rest (flows @ [(talk, ?was)]) (c\<lparr>cp_left := cp_left c - 1\<rparr>)"
      using s fresh(1) by (auto simp: ends_def missed_as_def missed_again_def Let_def)
    show ?thesis
      unfolding m using Cons.IH [of "flows @ [(talk, ?was)]" "c\<lparr>cp_left := cp_left c - 1\<rparr>"] fresh(2) Cons.prems(1) stays s(2)
        ending_cong [of "c\<lparr>cp_left := cp_left c - 1\<rparr>" c]
      by (auto simp: says_count ended_events_def split: if_splits)
  qed
qed (simp add: ended_events_def)

section \<open>A namespace seen again\<close>

definition merge_events :: "space \<Rightarrow> space \<Rightarrow> comparing \<Rightarrow> event list" where
  "merge_events kept seen c =
     concat (List.map (opened_events kept seen) (ordered_keys byListening (sc_listeners seen)))
     @ concat (List.map (closed_events kept seen) (ordered_keys byListening (sc_listeners kept)))
     @ (if cp_quiet c then []
        else started_events kept seen (let_in (held_before kept) (cp_left c) (ordered_keys byConversation (sc_flows seen)))
          @ ended_events c kept seen (ordered_keys byConversation (sc_flows kept)))"

definition merged_flows :: "space \<Rightarrow> space \<Rightarrow> comparing \<Rightarrow> (conversation \<times> flow) list" where
  "merged_flows kept seen c =
     List.map (\<lambda>t. (t, held_as kept seen t)) (let_in (held_before kept) (cp_left c) (ordered_keys byConversation (sc_flows seen)))
     @ List.map (\<lambda>t. (t, missed_as kept t)) (filter (stays c kept seen) (ordered_keys byConversation (sc_flows kept)))"

lemma merge_space_eq:
  assumes "wf_space kept" "wf_space seen"
  shows "fst (merge_space kept seen c) = seen\<lparr>sc_flows := merged_flows kept seen c\<rparr>"
    "says c (merge_events kept seen c) (snd (merge_space kept seen c))"
    "cp_left (snd (merge_space kept seen c)) = cp_left c - int (length (merged_flows kept seen c))"
proof -
  define c1 where "c1 = merge_opened kept seen (ordered_keys byListening (sc_listeners seen)) c"
  define c2 where "c2 = merge_closed kept seen (ordered_keys byListening (sc_listeners kept)) c1"
  let ?s = "ordered_keys byConversation (sc_flows seen)" and ?k = "ordered_keys byConversation (sc_flows kept)"
  define r where "r = merge_seen kept seen ?s [] c2"
  define r2 where "r2 = merge_missed kept seen ?k (fst r) (snd r)"
  have d: "distinct ?s" "distinct ?k" using assms by (simp_all add: wf_space_def)
  note o = merge_listeners_says(1,3) [where c = c and kept = kept and seen = seen and ats = "ordered_keys byListening (sc_listeners seen)", folded c1_def]
  note k = merge_listeners_says(2,4) [where c = c1 and kept = kept and seen = seen and ats = "ordered_keys byListening (sc_listeners kept)", folded c2_def]
  have c2: "cp_left c2 = cp_left c" "cp_quiet c2 = cp_quiet c" "cp_ending c2 = cp_ending c"
    using o k by (auto simp: says_def)
  have r: "fst r = List.map (\<lambda>t. (t, held_as kept seen t)) (let_in (held_before kept) (cp_left c) ?s)"
    "says c2 (if cp_quiet c then [] else started_events kept seen (let_in (held_before kept) (cp_left c) ?s)) (snd r)"
    "cp_left (snd r) = cp_left c - int (length (let_in (held_before kept) (cp_left c) ?s))"
    using merge_seen_eq [OF d(1), of "[]" kept seen c2] c2 by (auto simp: r_def)
  have "fst ` set (fst r) \<inter> {t \<in> set ?k. map_of (sc_flows seen) t = None} = {}"
    using let_in_sub [of "held_before kept" "cp_left c" ?s] by (auto simp: r(1) map_of_eq_None_iff)
  note m = merge_missed_eq [OF d(2) this, of kept "snd r", folded r2_def]
  have q: "cp_quiet (snd r) = cp_quiet c" "cp_ending (snd r) = cp_ending c" using r(2) c2 by (auto simp: says_def)
  have e: "ends (snd r) = ends c" "stays (snd r) = stays c" "ended_events (snd r) = ended_events c" using ending_cong [OF q(2)] by simp_all
  have run: "merge_space kept seen c = (seen\<lparr>sc_flows := fst r2\<rparr>, snd r2)"
    by (simp add: merge_space_def Let_def r_def r2_def c1_def c2_def split: prod.splits)
  show "fst (merge_space kept seen c) = seen\<lparr>sc_flows := merged_flows kept seen c\<rparr>"
    using m e by (simp add: run merged_flows_def r(1))
  show "cp_left (snd (merge_space kept seen c)) = cp_left c - int (length (merged_flows kept seen c))"
    using m e r(3) by (simp add: run merged_flows_def)
  show "says c (merge_events kept seen c) (snd (merge_space kept seen c))"
    using says_trans [OF says_trans [OF o(1) k(1)] says_trans [OF r(2) conjunct1 [OF conjunct2 [OF m]]]] q e
    by (cases "cp_quiet c") (simp_all add: run merge_events_def)
qed

lemma started_replays:
  assumes "distinct ins" "\<forall>t \<in> set ins. t \<in> fs \<longleftrightarrow> held_before kept t"
  shows "replays (started_events kept seen ins) (ls, fs) = Some (ls, fs \<union> set ins)"
  using assms
proof (induction ins arbitrary: fs)
  case (Cons t ins)
  show ?case
  proof (cases "held_before kept t")
    case True
    then have "t \<in> fs" using Cons.prems by simp
    then show ?thesis using Cons True by (auto simp: started_events_def insert_absorb)
  next
    case False
    then have "t \<notin> fs" using Cons.prems by simp
    then show ?thesis using Cons.IH [of "insert t fs"] Cons.prems False by (auto simp: started_events_def)
  qed
qed (simp add: started_events_def)

lemma ended_replays:
  assumes "distinct ts" "set ts \<subseteq> fs"
  shows "replays (ended_events c kept seen ts) (ls, fs) = Some (ls, fs - {t \<in> set ts. ends c kept seen t})"
  using assms
proof (induction ts arbitrary: fs)
  case (Cons t ts)
  show ?case
  proof (cases "ends c kept seen t")
    case True
    have "set ts \<subseteq> fs - {t}" using Cons.prems by auto
    then have "replays (ended_events c kept seen ts) (ls, fs - {t}) = Some (ls, fs - {t} - {x \<in> set ts. ends c kept seen x})"
      using Cons.IH [of "fs - {t}"] Cons.prems(1) by simp
    moreover have "fs - {t} - {x \<in> set ts. ends c kept seen x} = fs - {x \<in> set (t # ts). ends c kept seen x}" using True by auto
    ultimately show ?thesis using True Cons.prems(2) by (simp add: ended_events_def)
  next
    case False
    then have "{x \<in> set (t # ts). ends c kept seen x} = {x \<in> set ts. ends c kept seen x}" by auto
    then show ?thesis using Cons.IH [of fs] Cons.prems False by (simp add: ended_events_def)
  qed
qed (simp add: ended_events_def)

lemma map_of_None: "map_of m k = None \<longleftrightarrow> k \<notin> fst ` set m"
  by (simp add: map_of_eq_None_iff)

lemma merged_keys:
  "fst ` set (merged_flows kept seen c) = set (let_in (held_before kept) (cp_left c) (ordered_keys byConversation (sc_flows seen)))
     \<union> {t \<in> fst ` set (sc_flows kept). stays c kept seen t}"
  by (simp add: merged_flows_def image_Un image_image)

lemma merge_replays:
  assumes "wf_space kept" "wf_space seen" "\<not> cp_quiet c"
  shows "replays (merge_events kept seen c) (keys_of kept) = Some (keys_of (fst (merge_space kept seen c)))"
proof -
  let ?K = "fst ` set (sc_flows kept)" and ?S = "fst ` set (sc_flows seen)"
  let ?s = "ordered_keys byConversation (sc_flows seen)" and ?k = "ordered_keys byConversation (sc_flows kept)"
  let ?ins = "let_in (held_before kept) (cp_left c) ?s"
  have d: "distinct ?s" "distinct ?k" "distinct ?ins"
    using assms let_in_spec(2) [of ?s] by (simp_all add: wf_space_def)
  have hb: "held_before kept t \<longleftrightarrow> t \<in> ?K" for t by (auto simp: held_before_def map_of_None)
  have listeners: "replays (concat (List.map (opened_events kept seen) (ordered_keys byListening (sc_listeners seen)))
      @ concat (List.map (closed_events kept seen) (ordered_keys byListening (sc_listeners kept)))) (keys_of kept)
      = Some (fst ` set (sc_listeners seen), ?K)"
    using merge_listeners_replays [of kept seen ?K] assms by (simp add: wf_space_def keys_of_def)
  have started: "replays (started_events kept seen ?ins) (ls, ?K) = Some (ls, ?K \<union> set ?ins)" for ls
    by (rule started_replays [OF d(3)]) (simp add: hb)
  have ended: "replays (ended_events c kept seen ?k) (ls, ?K \<union> set ?ins) = Some (ls, ?K \<union> set ?ins - {t \<in> set ?k. ends c kept seen t})" for ls
    by (rule ended_replays [OF d(2)]) simp
  have old: "?K \<inter> ?S \<subseteq> set ?ins" using let_in_spec(1) [of ?s "held_before kept" "cp_left c"] by (auto simp: hb)
  have new: "set ?ins \<subseteq> ?S" using let_in_sub [of "held_before kept" "cp_left c" ?s] by simp
  have "?K \<union> set ?ins - {t \<in> set ?k. ends c kept seen t} = fst ` set (merged_flows kept seen c)"
  proof (rule set_eqI)
    fix t
    show "t \<in> ?K \<union> set ?ins - {t \<in> set ?k. ends c kept seen t} \<longleftrightarrow> t \<in> fst ` set (merged_flows kept seen c)"
    proof (cases "t \<in> ?S")
      case True
      then have "\<not> ends c kept seen t" "\<not> stays c kept seen t" by (simp_all add: ends_def stays_def map_of_None)
      then show ?thesis using old True unfolding merged_keys by blast
    next
      case False
      then have "stays c kept seen t \<longleftrightarrow> \<not> ends c kept seen t" "t \<notin> set ?ins" using new by (auto simp: stays_def map_of_None)
      then show ?thesis unfolding merged_keys by auto
    qed
  qed
  moreover have "merge_events kept seen c
      = (concat (List.map (opened_events kept seen) (ordered_keys byListening (sc_listeners seen)))
         @ concat (List.map (closed_events kept seen) (ordered_keys byListening (sc_listeners kept))))
        @ started_events kept seen ?ins @ ended_events c kept seen ?k"
    using assms(3) by (simp add: merge_events_def)
  ultimately have "replays (merge_events kept seen c) (keys_of kept) = Some (fst ` set (sc_listeners seen), fst ` set (merged_flows kept seen c))"
    using listeners started ended by (simp only: replays_append [of "_ @ _"] replays_append [of "started_events _ _ _"] option.case)
  then show ?thesis using merge_space_eq(1) [OF assms(1,2)] by (simp add: keys_of_def)
qed

lemma joined_flow_wf:
  assumes "wf_flow was" "wf_flow now" "fl_missed now = 0"
  shows "wf_flow (seen_again was now)" "fl_missed (seen_again was now) = 0"
proof -
  have "wf_holders (joined (fl_processes was) (fl_processes now))"
    using joined_wf(1) [of "fl_processes now"] wf_holdersD assms(2) by (simp add: wf_flow_def)
  then show "wf_flow (seen_again was now)" "fl_missed (seen_again was now) = 0"
    using assms by (auto simp: wf_flow_def seen_again_def)
qed

lemma merged_wf:
  assumes "wf_space kept" "wf_space seen" "\<forall>f \<in> snd ` set (sc_flows seen). fl_missed f = 0"
  shows "wf_space (fst (merge_space kept seen c))"
proof -
  let ?s = "ordered_keys byConversation (sc_flows seen)" and ?k = "ordered_keys byConversation (sc_flows kept)"
  let ?ins = "let_in (held_before kept) (cp_left c) ?s"
  have d: "distinct ?k" "distinct ?ins" using assms let_in_spec(2) [of ?s] by (simp_all add: wf_space_def)
  have new: "set ?ins \<subseteq> fst ` set (sc_flows seen)" using let_in_sub [of "held_before kept" "cp_left c" ?s] by simp
  have kept_value: "wf_flow (the (map_of (sc_flows s) t)) \<and> (the (map_of (sc_flows s) t)) \<in> snd ` set (sc_flows s)"
    if "wf_space s" "t \<in> fst ` set (sc_flows s)" for s t
  proof (cases "map_of (sc_flows s) t")
    case (Some f)
    then have "f \<in> snd ` set (sc_flows s)" by (force dest: map_of_SomeD)
    then show ?thesis using that(1) Some by (auto simp: wf_space_def)
  qed (use that(2) in \<open>simp add: map_of_None\<close>)
  have held: "wf_flow (held_as kept seen t)" if "t \<in> set ?ins" for t
  proof -
    have now: "wf_flow (the (map_of (sc_flows seen) t))" "fl_missed (the (map_of (sc_flows seen) t)) = 0"
      using kept_value [OF assms(2), of t] new that assms(3) by blast+
    show ?thesis
    proof (cases "map_of (sc_flows kept) t")
      case (Some was)
      then have "wf_flow was" using kept_value [OF assms(1), of t] map_of_None [of "sc_flows kept" t] by auto
      then show ?thesis using joined_flow_wf(1) now Some by (simp add: held_as_def Let_def)
    qed (use now in \<open>simp add: held_as_def Let_def\<close>)
  qed
  have missed: "wf_flow (missed_as kept t)" if "t \<in> set ?k" "stays c kept seen t" for t
    using kept_value [OF assms(1), of t] that by (auto simp: missed_as_def missed_again_def wf_flow_def stays_def ends_def)
  have "distinct (List.map fst (merged_flows kept seen c))"
    using d new by (auto simp: merged_flows_def comp_def stays_def map_of_None)
  moreover have "\<forall>f \<in> snd ` set (merged_flows kept seen c). wf_flow f" using held missed by (simp add: merged_flows_def ball_Un)
  ultimately show ?thesis using merge_space_eq(1) [OF assms(1,2), of c] assms(2) by (simp add: wf_space_def)
qed

section \<open>A namespace seen first\<close>

text \<open>It is compared with one that holds nothing.\<close>

definition emptied :: "space \<Rightarrow> space" where
  "emptied s = s\<lparr>sc_listeners := [], sc_flows := []\<rparr>"

lemma emptied_simps [simp]:
  "held_before (emptied s) t = False" "held_as (emptied s) s' t = the (map_of (sc_flows s') t)"
  "opened_events (emptied s) s' at = [Listener_opened at (the (map_of (sc_listeners s') at))]" "keys_of (emptied s) = ({}, {})"
  by (simp_all add: emptied_def held_before_def held_as_def opened_events_def keys_of_def)

lemma arrive_listeners_says:
  "says c (concat (List.map (opened_events (emptied s) seen) ats)) (arrive_listeners seen ats c)
   \<and> cp_left (arrive_listeners seen ats c) = cp_left c"
  by (induction ats arbitrary: c) (auto intro: says_say)

lemma started_emptied:
  "started_events (emptied s) seen ins = List.map (\<lambda>t. Flow_started t (the (map_of (sc_flows seen) t))) ins"
  by (simp add: started_events_def)

lemma arrive_flows_eq:
  assumes "distinct talks"
  shows "fst (arrive_flows adopting talks seen c)
      = seen\<lparr>sc_flows := filter (\<lambda>x. fst x \<in> set (let_in (\<lambda>_. False) (cp_left c) talks) \<or> fst x \<notin> set talks) (sc_flows seen)\<rparr>
    \<and> says c (if adopting then [] else started_events (emptied s) seen (let_in (\<lambda>_. False) (cp_left c) talks)) (snd (arrive_flows adopting talks seen c))
    \<and> cp_left (snd (arrive_flows adopting talks seen c)) = cp_left c - int (length (let_in (\<lambda>_. False) (cp_left c) talks))"
  using assms
proof (induction talks arbitrary: seen c)
  case (Cons talk rest)
  show ?case
  proof (cases rule: track_cases [of c])
    case full
    let ?seen = "seen\<lparr>sc_flows := AList.delete talk (sc_flows seen)\<rparr>" and ?c = "c\<lparr>cp_untracked := cp_untracked c + 1\<rparr>"
    have m: "arrive_flows adopting (talk # rest) seen c = arrive_flows adopting rest ?seen ?c" using full(2) by simp
    have none: "let_in (\<lambda>_. False) n ts = []" if "n \<le> 0" for n ts using that by (induction ts) auto
    have f: "filter (\<lambda>x. fst x \<in> set [] \<or> fst x \<notin> set rest) (AList.delete talk (sc_flows seen))
        = filter (\<lambda>x. fst x \<in> set [] \<or> fst x \<notin> set (talk # rest)) (sc_flows seen)"
      by (auto simp: AList.delete_eq intro!: filter_cong)
    have d: "distinct rest" using Cons.prems by simp
    have l: "let_in (\<lambda>_. False) (cp_left c) ts = []" for ts using none full(1) by simp
    show ?thesis unfolding m l using Cons.IH [OF d, of ?seen ?c] f
      by (cases adopting) (simp_all add: l says_count started_emptied del: set_simps)
  next
    case room
    let ?e = "Flow_started talk (the (map_of (sc_flows seen) talk))"
    define c1 where "c1 = (if adopting then c\<lparr>cp_left := cp_left c - 1\<rparr> else say ?e (c\<lparr>cp_left := cp_left c - 1\<rparr>))"
    have m: "arrive_flows adopting (talk # rest) seen c = arrive_flows adopting rest seen c1" using room(2) by (simp add: c1_def)
    have c1: "cp_left c1 = cp_left c - 1" by (simp add: c1_def)
    have "says c (if adopting then [] else ?e # es) c'" if "says c1 (if adopting then [] else es) c'" for es c'
      using that by (auto simp: c1_def says_def split: if_splits)
    moreover have "talk \<notin> set (let_in (\<lambda>_. False) (cp_left c - 1) rest)" using let_in_sub Cons.prems by fastforce
    moreover have "filter (\<lambda>x. fst x \<in> set (let_in (\<lambda>_. False) (cp_left c - 1) rest) \<or> fst x \<notin> set rest) (sc_flows seen)
        = filter (\<lambda>x. fst x \<in> set (talk # let_in (\<lambda>_. False) (cp_left c - 1) rest) \<or> fst x \<notin> set (talk # rest)) (sc_flows seen)"
      using Cons.prems by (intro filter_cong) auto
    ultimately show ?thesis unfolding m using Cons.IH [of seen c1] Cons.prems room(1) c1
      by (cases adopting) (simp_all add: started_emptied del: set_simps)
  qed
qed (simp add: started_emptied)

definition arrive_events :: "space \<Rightarrow> comparing \<Rightarrow> event list" where
  "arrive_events seen c =
     Namespace_seen # concat (List.map (opened_events (emptied seen) seen) (ordered_keys byListening (sc_listeners seen)))
     @ started_events (emptied seen) seen (let_in (\<lambda>_. False) (cp_left c) (ordered_keys byConversation (sc_flows seen)))"

definition arrived_flows :: "space \<Rightarrow> comparing \<Rightarrow> (conversation \<times> flow) list" where
  "arrived_flows seen c =
     filter (\<lambda>x. fst x \<in> set (let_in (\<lambda>_. False) (cp_left c) (ordered_keys byConversation (sc_flows seen)))) (sc_flows seen)"

lemma arrive_eq:
  assumes "wf_space seen"
  shows "fst (arrive seen adopting c) = seen\<lparr>sc_flows := arrived_flows seen c\<rparr>"
    "says c (if adopting then [] else arrive_events seen c) (snd (arrive seen adopting c))"
    "cp_left (snd (arrive seen adopting c)) = cp_left c - int (length (arrived_flows seen c))"
proof -
  let ?s = "ordered_keys byConversation (sc_flows seen)"
  let ?ins = "let_in (\<lambda>_. False) (cp_left c) ?s"
  define c1 where "c1 = (if adopting then c else arrive_listeners seen (ordered_keys byListening (sc_listeners seen)) (say Namespace_seen c))"
  have d: "distinct ?s" "distinct (List.map fst (sc_flows seen))" using assms by (simp_all add: wf_space_def)
  let ?l = "concat (List.map (opened_events (emptied seen) seen) (ordered_keys byListening (sc_listeners seen)))"
  have c1: "says c (if adopting then [] else Namespace_seen # ?l) c1" "cp_left c1 = cp_left c"
    using arrive_listeners_says [where c = "say Namespace_seen c" and s = seen and seen = seen and ats = "ordered_keys byListening (sc_listeners seen)"]
    by (auto simp: c1_def intro: says_say)
  have r: "arrive seen adopting c = arrive_flows adopting ?s seen c1" by (simp add: arrive_def c1_def)
  note a = arrive_flows_eq [OF d(1), of adopting seen c1 seen, folded r, unfolded c1(2)]
  have "filter (\<lambda>x. fst x \<in> set ?ins \<or> fst x \<notin> set ?s) (sc_flows seen) = arrived_flows seen c"
    unfolding arrived_flows_def by (rule filter_cong) auto
  then show "fst (arrive seen adopting c) = seen\<lparr>sc_flows := arrived_flows seen c\<rparr>" using a by simp
  show "says c (if adopting then [] else arrive_events seen c) (snd (arrive seen adopting c))"
    using says_trans [OF c1(1) conjunct1 [OF conjunct2 [OF a]]] by (cases adopting) (simp_all add: arrive_events_def)
  have "set (List.map fst (arrived_flows seen c)) = set ?ins"
    using let_in_sub [of "\<lambda>_. False" "cp_left c" ?s] by (auto simp: arrived_flows_def)
  moreover have "distinct (List.map fst (arrived_flows seen c))" using d(2) by (simp add: arrived_flows_def distinct_map_filter)
  ultimately have "length (arrived_flows seen c) = length ?ins"
    using let_in_spec(2) [OF d(1)] by (metis distinct_card length_map)
  then show "cp_left (snd (arrive seen adopting c)) = cp_left c - int (length (arrived_flows seen c))" using a by simp
qed

lemma arrive_replays:
  assumes "wf_space seen"
  shows "replays (arrive_events seen c) ({}, {}) = Some (keys_of (fst (arrive seen adopting c)))"
proof -
  let ?s = "ordered_keys byConversation (sc_flows seen)"
  let ?ins = "let_in (\<lambda>_. False) (cp_left c) ?s"
  have d: "distinct (ordered_keys byListening (sc_listeners seen))" "distinct ?ins"
    using assms let_in_spec(2) [of ?s] by (simp_all add: wf_space_def)
  have l: "replays (concat (List.map (opened_events (emptied seen) seen) (ordered_keys byListening (sc_listeners seen)))) ({}, {})
      = Some (fst ` set (sc_listeners seen), {})"
    using opened_replays [OF d(1), of "{}" "emptied seen"] by (simp add: emptied_def)
  have f: "replays (started_events (emptied seen) seen ?ins) (ls, {}) = Some (ls, set ?ins)" for ls
    using started_replays [OF d(2), of "{}" "emptied seen"] by simp
  have "fst ` set (arrived_flows seen c) = set ?ins"
    using let_in_sub [of "\<lambda>_. False" "cp_left c" ?s] by (auto simp: arrived_flows_def)
  then show ?thesis
    using l f arrive_eq(1) [OF assms, of adopting c] by (simp add: arrive_events_def replays_append keys_of_def)
qed

lemma arrived_wf: "wf_space seen \<Longrightarrow> wf_space (fst (arrive seen adopting c))"
  using arrive_eq(1) [of seen adopting c] by (auto simp: wf_space_def arrived_flows_def distinct_map_filter)

end
