(* ===== verification/Network_Compare.thy ===== *)
theory Network_Compare
  imports Network_Inv
begin

text \<open>
  A whole comparison: for each namespace read, what is reported of it leads from what was held of it to
  what is held now; a namespace is reported gone only when every namespace was found.
\<close>

definition events_at :: "nat \<Rightarrow> change list \<Rightarrow> event list" where
  "events_at i xs = concat (List.map (\<lambda>x. case x of At j e \<Rightarrow> if j = i then [e] else [] | Namespace_gone _ \<Rightarrow> []) xs)"

definition gone_of :: "change list \<Rightarrow> space list" where
  "gone_of xs = concat (List.map (\<lambda>x. case x of At j e \<Rightarrow> [] | Namespace_gone s \<Rightarrow> [s]) xs)"

definition matched_space :: "texts \<Rightarrow> space list \<Rightarrow> Namespace \<Rightarrow> space option" where
  "matched_space tx previous read = map_option ((!) previous) (match_from tx read 0 previous)"

text \<open>What was held of a namespace, and whether what changes in it is reported in full.\<close>

definition held_of :: "texts \<Rightarrow> space list \<Rightarrow> Namespace \<Rightarrow> seen_keys" where
  "held_of tx previous read =
     (case matched_space tx previous read of Some kept \<Rightarrow> if sc_pending kept then ({}, {}) else keys_of kept | None \<Rightarrow> ({}, {}))"

definition reported :: "texts \<Rightarrow> space list \<Rightarrow> bool \<Rightarrow> bool \<Rightarrow> Namespace \<Rightarrow> bool" where
  "reported tx previous adopting quiet read \<longleftrightarrow> \<not> ns_Failure read
     \<and> (case matched_space tx previous read of None \<Rightarrow> \<not> adopting | Some kept \<Rightarrow> \<not> sc_pending kept \<and> \<not> quiet)"

lemma events_at_simps [simp]:
  "events_at i [] = []" "events_at i (xs @ ys) = events_at i xs @ events_at i ys" "events_at i [Namespace_gone s] = []"
  "events_at i (List.map (At j) es) = (if j = i then es else [])"
  by (simp_all add: events_at_def) (induction es; simp)

lemma gone_of_simps [simp]:
  "gone_of [] = []" "gone_of (xs @ ys) = gone_of xs @ gone_of ys" "gone_of [Namespace_gone s] = [s]" "gone_of (List.map (At j) es) = []"
  by (simp_all add: gone_of_def)

lemma match_from_Some: "match_from tx read i ss = Some j \<Longrightarrow> i \<le> j \<and> j < i + length ss \<and> space_match tx read (ss ! (j - i))"
proof (induction ss arbitrary: i)
  case (Cons s ss)
  then show ?case by (cases "space_match tx read s") (fastforce simp: nth_Cons' dest: Cons.IH)+
qed simp

lemma matched_in: "matched_space tx previous read = Some kept \<Longrightarrow> kept \<in> set previous"
  using match_from_Some [of tx read 0 previous] by (auto simp: matched_space_def)

section \<open>One namespace\<close>

lemma awaited_wf: "wf_space (awaited tx whole t read)"
  using viewed_wf(1) [of tx "read\<lparr>ns_Sockets := [], ns_Failure := False\<rparr>" "\<lambda>_. []" whole "[]" t]
  by (simp add: awaited_def wf_space_def)

text \<open>What one namespace comes to: it is well formed, its changes lead to it where they are reported, and what it takes of the room is what it holds.\<close>

definition compared_to :: "texts \<Rightarrow> space list \<Rightarrow> bool \<Rightarrow> bool \<Rightarrow> Namespace \<Rightarrow> event list \<Rightarrow> space \<Rightarrow> bool" where
  "compared_to tx previous adopting quiet read es s \<longleftrightarrow> wf_space s
     \<and> (reported tx previous adopting quiet read \<longrightarrow> replays es (held_of tx previous read) = Some (keys_of s))
     \<and> (ns_Failure read \<longrightarrow> es = [])"

lemma compare_read_spec:
  assumes "\<forall>s \<in> set previous. wf_space s"
    and "compare_read tx holders (matched_space tx previous read) read c = (s, c')"
  shows "\<exists>es. says c es c' \<and> compared_to tx previous (cp_adopting c) (cp_quiet c) read es s \<and> cp_left c' = cp_left c - int (length (sc_flows s))"
proof (cases "matched_space tx previous read")
  case None
  define seen where "seen = viewed tx read holders (cp_complete c) [] (cp_now c)"
  note v = conjunct1 [OF viewed_wf(1), of tx read holders "cp_complete c" "[]" "cp_now c", folded seen_def]
  show ?thesis
  proof (cases "ns_Failure read")
    case True
    then have "s = awaited tx (cp_complete c) (cp_now c) read" "c' = c" using assms(2) None by (auto simp: compare_read_def)
    moreover have "sc_flows (awaited tx (cp_complete c) (cp_now c) read) = []" by (simp add: awaited_def viewed_def Let_def)
    ultimately show ?thesis using awaited_wf True by (intro exI [of _ "[]"]) (simp add: compared_to_def reported_def)
  next
    case False
    then have a: "arrive seen (cp_adopting c) c = (s, c')" using assms(2) None by (simp add: compare_read_def seen_def)
    show ?thesis
      using arrive_eq [OF v, where adopting = "cp_adopting c" and c = c] arrive_replays [OF v, where c = c and adopting = "cp_adopting c"] arrived_wf [OF v, where adopting = "cp_adopting c" and c = c] a None False
      by (intro exI [of _ "if cp_adopting c then [] else arrive_events seen c"]) (auto simp: compared_to_def reported_def held_of_def)
  qed
next
  case (Some kept)
  then have k: "wf_space kept" using assms(1) matched_in by blast
  show ?thesis
  proof (cases "ns_Failure read")
    case True
    then have "s = kept" "c' = c\<lparr>cp_left := cp_left c - int (length (sc_flows kept))\<rparr>" using assms(2) Some by (auto simp: compare_read_def)
    then show ?thesis using k True by (intro exI [of _ "[]"]) (simp add: compared_to_def reported_def says_def)
  next
    case read: False
    show ?thesis
    proof (cases "sc_pending kept")
      case True
      define seen where "seen = viewed tx read holders (cp_complete c) [] (cp_now c)"
      note v = conjunct1 [OF viewed_wf(1), of tx read holders "cp_complete c" "[]" "cp_now c", folded seen_def]
      have a: "arrive seen True c = (s, c')" using assms(2) Some read True by (simp add: compare_read_def seen_def)
      show ?thesis
        using arrive_eq [OF v, where adopting = True and c = c] arrived_wf [OF v, where adopting = True and c = c] a Some read True
        by (intro exI [of _ "[]"]) (auto simp: compared_to_def reported_def)
    next
      case False
      define seen where "seen = viewed tx read holders (cp_complete c) (sc_connected kept) (cp_now c)"
      note v = viewed_wf(1) [of tx read holders "cp_complete c" "sc_connected kept" "cp_now c", folded seen_def]
      have a: "merge_space kept seen c = (s, c')" using assms(2) Some read False by (simp add: compare_read_def seen_def)
      have w: "wf_space seen" "\<forall>f \<in> snd ` set (sc_flows seen). fl_missed f = 0" using v by (auto simp: fresh_flow_def)
      have "cp_quiet c \<or> replays (merge_events kept seen c) (keys_of kept) = Some (keys_of s)"
        using merge_replays [OF k w(1), of c] a by auto
      then show ?thesis
        using merge_space_eq [OF k w(1), of c] merged_wf [OF k w, of c] a Some read False
        by (intro exI [of _ "merge_events kept seen c"]) (auto simp: compared_to_def reported_def held_of_def)
    qed
  qed
qed

section \<open>Every namespace\<close>

definition room_left :: "comparing \<Rightarrow> space list \<Rightarrow> int" where
  "room_left c ss = cp_left c - int (sum_list (List.map (\<lambda>s. length (sc_flows s)) ss))"

lemma compare_reads_spec:
  assumes "\<forall>s \<in> set previous. wf_space s"
    and "compare_reads tx holders previous reads matched spaces c = (matched', spaces', c')"
  shows "\<exists>new ess. spaces' = spaces @ new \<and> length new = length reads \<and> length ess = length reads
     \<and> (\<forall>i < length reads. compared_to tx previous (cp_adopting c) (cp_quiet c) (reads ! i) (ess ! i) (new ! i) \<and> events_at (length spaces + i) (cp_changes c')
            = events_at (length spaces + i) (cp_changes c) @ ess ! i)
     \<and> (\<forall>i. i < length spaces \<or> length spaces' \<le> i \<longrightarrow> events_at i (cp_changes c') = events_at i (cp_changes c))
     \<and> gone_of (cp_changes c') = gone_of (cp_changes c)
     \<and> matched' = matched \<union> {i. \<exists>read \<in> set reads. match_from tx read 0 previous = Some i}
     \<and> cp_left c' = room_left c new"
  using assms(2)
proof (induction reads arbitrary: matched spaces c)
  case Nil
  then show ?case by (auto simp: room_left_def)
next
  case (Cons read reads)
  let ?at = "match_from tx read 0 previous" and ?c = "c\<lparr>cp_at := length spaces\<rparr>"
  define m1 where "m1 = (case ?at of None \<Rightarrow> matched | Some i \<Rightarrow> insert i matched)"
  obtain s c1 where r: "compare_read tx holders (matched_space tx previous read) read ?c = (s, c1)"
    by (cases "compare_read tx holders (matched_space tx previous read) read ?c")
  have run: "compare_reads tx holders previous reads m1 (spaces @ [s]) c1 = (matched', spaces', c')"
    using Cons.prems r by (simp add: matched_space_def m1_def Let_def)
  obtain es where es: "says ?c es c1" "compared_to tx previous (cp_adopting c) (cp_quiet c) read es s" "cp_left c1 = cp_left c - int (length (sc_flows s))"
    using compare_read_spec [OF assms(1) r] by auto
  have c1: "cp_changes c1 = cp_changes c @ List.map (At (length spaces)) es" "cp_adopting c1 = cp_adopting c" "cp_quiet c1 = cp_quiet c"
    using es(1) by (simp_all add: says_def)
  obtain new ess where n: "spaces' = (spaces @ [s]) @ new" "length new = length reads" "length ess = length reads"
    "\<And>i. i < length reads \<Longrightarrow> compared_to tx previous (cp_adopting c) (cp_quiet c) (reads ! i) (ess ! i) (new ! i)
       \<and> events_at (length (spaces @ [s]) + i) (cp_changes c') = events_at (length (spaces @ [s]) + i) (cp_changes c1) @ ess ! i"
    "\<And>i. i < length (spaces @ [s]) \<or> length spaces' \<le> i \<Longrightarrow> events_at i (cp_changes c') = events_at i (cp_changes c1)"
    "gone_of (cp_changes c') = gone_of (cp_changes c1)"
    "matched' = m1 \<union> {i. \<exists>read \<in> set reads. match_from tx read 0 previous = Some i}" "cp_left c' = room_left c1 new"
    using Cons.IH [OF run] unfolding c1(2,3) by blast
  have each: "compared_to tx previous (cp_adopting c) (cp_quiet c) ((read # reads) ! i) ((es # ess) ! i) ((s # new) ! i)
      \<and> events_at (length spaces + i) (cp_changes c') = events_at (length spaces + i) (cp_changes c) @ (es # ess) ! i"
    if "i < length (read # reads)" for i
  proof (cases i)
    case 0
    then show ?thesis using es(2) n(5) [of "length spaces"] c1(1) by simp
  next
    case (Suc j)
    then show ?thesis using n(4) [of j] c1(1) that by simp
  qed
  have other: "events_at i (cp_changes c') = events_at i (cp_changes c)" if "i < length spaces \<or> length spaces' \<le> i" for i
    using n(5) [of i] that n(1) c1(1) by auto
  have m: "matched' = matched \<union> {i. \<exists>r \<in> set (read # reads). match_from tx r 0 previous = Some i}"
    unfolding n(7) m1_def by (cases ?at) auto
  show ?case
    using each other m n(1,2,3,6,8) c1(1) es(3)
    by (intro exI [of _ "s # new"] exI [of _ "es # ess"]) (simp add: room_left_def)
qed

text \<open>What was held and matches nothing read.\<close>

fun leftover :: "nat set \<Rightarrow> nat \<Rightarrow> space list \<Rightarrow> space list" where
  "leftover matched i [] = []"
| "leftover matched i (kept # rest) = (if i \<in> matched then leftover matched (i + 1) rest else kept # leftover matched (i + 1) rest)"

lemma set_leftover: "set (leftover matched i previous) \<subseteq> set previous"
  by (induction matched i previous rule: leftover.induct) auto

lemma compare_rest_spec:
  assumes "compare_rest whole hidden matched i previous spaces c = (spaces', c')"
  shows "spaces' = spaces @ (if whole then [] else filter (\<lambda>s. \<not> (hidden \<and> \<not> sc_own s)) (leftover matched i previous))
     \<and> (\<forall>j. events_at j (cp_changes c') = events_at j (cp_changes c))
     \<and> gone_of (cp_changes c') = gone_of (cp_changes c) @ (if whole then filter (\<lambda>s. \<not> sc_pending s) (leftover matched i previous) else [])
     \<and> cp_left c' = room_left c (if whole then [] else filter (\<lambda>s. \<not> (hidden \<and> \<not> sc_own s)) (leftover matched i previous))"
  using assms
proof (induction previous arbitrary: i spaces c)
  case (Cons kept previous)
  let ?run = "compare_rest whole hidden matched (i + 1) previous"
  consider (same) "i \<in> matched" "?run spaces c = (spaces', c')"
    | (gone) "i \<notin> matched" "whole" "\<not> sc_pending kept" "?run spaces (c\<lparr>cp_changes := cp_changes c @ [Namespace_gone kept]\<rparr>) = (spaces', c')"
    | (quietly) "i \<notin> matched" "whole \<and> sc_pending kept \<or> \<not> whole \<and> hidden \<and> \<not> sc_own kept" "?run spaces c = (spaces', c')"
    | (stays) "i \<notin> matched" "\<not> whole" "\<not> (hidden \<and> \<not> sc_own kept)"
        "?run (spaces @ [kept]) (c\<lparr>cp_left := cp_left c - int (length (sc_flows kept))\<rparr>) = (spaces', c')"
    using Cons.prems by (auto split: if_splits)
  then show ?case
  proof cases
    case stays
    then show ?thesis using Cons.IH [OF stays(4)] by (auto simp: room_left_def)
  next
    case gone
    then show ?thesis using Cons.IH [OF gone(4)] by (auto simp: room_left_def)
  next
    case quietly
    then show ?thesis using Cons.IH [OF quietly(3)] by auto
  qed (use Cons.IH in auto)
qed (auto simp: room_left_def)

definition flows_held :: "space list \<Rightarrow> nat" where
  "flows_held ss = sum_list (List.map (\<lambda>s. length (sc_flows s)) ss)"

lemma compare_spec:
  assumes wf: "\<forall>s \<in> set (held_spaces previous). wf_space s"
    and run: "compare tx maxFlows previous reading c = (s, c')" and none: "cp_changes c = []"
  shows "\<forall>x \<in> set (st_spaces s). wf_space x" "length (re_Namespaces reading) \<le> length (st_spaces s)"
    "\<forall>i < length (re_Namespaces reading). reported tx (held_spaces previous) (cp_adopting c) (cp_quiet c) (re_Namespaces reading ! i) \<longrightarrow>
       replays (events_at i (cp_changes c')) (held_of tx (held_spaces previous) (re_Namespaces reading ! i)) = Some (keys_of (st_spaces s ! i))"
    "\<forall>i. length (re_Namespaces reading) \<le> i \<longrightarrow> events_at i (cp_changes c') = []"
    "gone_of (cp_changes c') \<noteq> [] \<longrightarrow> reading_whole reading"
    "cp_left c' = maxFlows - int (flows_held (st_spaces s))"
proof -
  let ?P = "held_spaces previous" and ?N = "re_Namespaces reading"
  obtain matched spaces c1 where r: "compare_reads tx (re_Holders reading) ?P ?N {} [] (c\<lparr>cp_left := maxFlows\<rparr>) = (matched, spaces, c1)"
    by (metis prod_cases3)
  obtain spaces' c2 where q: "compare_rest (reading_whole reading) (re_Hidden reading) matched 0 ?P spaces c1 = (spaces', c2)"
    by (metis surj_pair)
  have s: "st_spaces s = spaces'" "c' = c2" using run r q by (auto simp: compare_def)
  obtain ess where e: "length spaces = length ?N" "length ess = length ?N"
    "\<And>i. i < length ?N \<Longrightarrow> compared_to tx ?P (cp_adopting c) (cp_quiet c) (?N ! i) (ess ! i) (spaces ! i) \<and> events_at i (cp_changes c1) = ess ! i"
    "\<And>i. length ?N \<le> i \<Longrightarrow> events_at i (cp_changes c1) = []" "gone_of (cp_changes c1) = []"
    "cp_left c1 = maxFlows - int (flows_held spaces)"
    using compare_reads_spec [OF wf r] none by (auto simp: room_left_def flows_held_def)
  note t = compare_rest_spec [OF q]
  define stay where "stay = (if reading_whole reading then [] else filter (\<lambda>s. \<not> (re_Hidden reading \<and> \<not> sc_own s)) (leftover matched 0 ?P))"
  have st: "spaces' = spaces @ stay" "cp_left c2 = room_left c1 stay" "\<And>j. events_at j (cp_changes c2) = events_at j (cp_changes c1)"
    using t by (simp_all add: stay_def)
  have "set stay \<subseteq> set ?P" using set_leftover [of matched 0 ?P] by (auto simp: stay_def)
  moreover have "wf_space x" if "x \<in> set spaces" for x
    using that e(1,3) by (metis compared_to_def in_set_conv_nth)
  ultimately show "\<forall>x \<in> set (st_spaces s). wf_space x" using wf s(1) st(1) by auto
  show "length ?N \<le> length (st_spaces s)" using e(1) s(1) st(1) by simp
  show "\<forall>i < length ?N. reported tx ?P (cp_adopting c) (cp_quiet c) (?N ! i) \<longrightarrow>
       replays (events_at i (cp_changes c')) (held_of tx ?P (?N ! i)) = Some (keys_of (st_spaces s ! i))"
    using e(1,3) s st(1,3) by (auto simp: compared_to_def nth_append)
  show "\<forall>i. length ?N \<le> i \<longrightarrow> events_at i (cp_changes c') = []" using e(4) s(2) st(3) by simp
  show "gone_of (cp_changes c') \<noteq> [] \<longrightarrow> reading_whole reading" using t e(5) s(2) by auto
  show "cp_left c' = maxFlows - int (flows_held (st_spaces s))"
    using e(6) s st(1,2) by (simp add: flows_held_def room_left_def)
qed

section \<open>How long a flow is held\<close>

text \<open>
  A namespace seen round after round: a flow is held exactly while one of the last three rounds saw
  it, where there is room for every flow seen.
\<close>

fun rounds :: "space \<Rightarrow> (space \<times> comparing) list \<Rightarrow> space" where
  "rounds kept [] = kept"
| "rounds kept ((seen, c) # rest) = rounds (fst (merge_space kept seen c)) rest"

definition roomy :: "space \<times> comparing \<Rightarrow> bool" where
  "roomy = (\<lambda>(seen, c). wf_space seen \<and> (\<forall>f \<in> snd ` set (sc_flows seen). fl_missed f = 0) \<and> \<not> cp_ending c \<and> int (length (sc_flows seen)) \<le> cp_left c)"

definition missed_in :: "conversation \<Rightarrow> space \<Rightarrow> nat option" where
  "missed_in t s = map_option fl_missed (map_of (sc_flows s) t)"

lemma map_of_keys: "map_of (List.map (\<lambda>t. (t, f t)) ts) t = (if t \<in> set ts then Some (f t) else None)"
  by (induction ts) auto

lemma merge_missed_in:
  assumes "wf_space kept" "roomy (seen, c)"
  shows "missed_in t (fst (merge_space kept seen c)) =
     (if map_of (sc_flows seen) t \<noteq> None then Some 0
      else case missed_in t kept of None \<Rightarrow> None | Some n \<Rightarrow> if n + 1 < linger then Some (n + 1) else None)"
proof -
  let ?s = "ordered_keys byConversation (sc_flows seen)"
  have r: "wf_space seen" "\<not> cp_ending c" "int (length ?s) \<le> cp_left c" using assms(2) by (auto simp: roomy_def ordered_keys_def)
  have all: "let_in (held_before kept) (cp_left c) ?s = ?s" by (rule let_in_spec(3) [OF r(3)])
  have flows: "map_of (merged_flows kept seen c) t =
      (if t \<in> fst ` set (sc_flows seen) then Some (held_as kept seen t)
       else if t \<in> fst ` set (sc_flows kept) \<and> stays c kept seen t then Some (missed_as kept t) else None)"
    by (simp add: merged_flows_def all map_of_keys map_add_def)
  show ?thesis
  proof (cases "map_of (sc_flows seen) t")
    case (Some now)
    then have "now \<in> snd ` set (sc_flows seen)" by (force dest: map_of_SomeD)
    then have "fl_missed now = 0" using assms(2) by (auto simp: roomy_def)
    then have "fl_missed (held_as kept seen t) = 0" using Some by (simp add: held_as_def Let_def seen_again_def split: option.splits)
    moreover have "t \<in> fst ` set (sc_flows seen)" using Some map_of_None [of "sc_flows seen" t] by auto
    ultimately show ?thesis using merge_space_eq(1) [OF assms(1) r(1), of c] Some by (simp add: missed_in_def flows)
  next
    case None
    then have "t \<notin> fst ` set (sc_flows seen)" by (simp add: map_of_None)
    then have m: "missed_in t (fst (merge_space kept seen c))
        = (if t \<in> fst ` set (sc_flows kept) \<and> stays c kept seen t then Some (fl_missed (missed_as kept t)) else None)"
      using merge_space_eq(1) [OF assms(1) r(1), of c] by (simp add: missed_in_def flows)
    show ?thesis
    proof (cases "map_of (sc_flows kept) t")
      case (Some was)
      then have "t \<in> fst ` set (sc_flows kept)" using map_of_None [of "sc_flows kept" t] by auto
      then show ?thesis
        unfolding m using None r(2) Some by (auto simp: missed_in_def stays_def ends_def missed_as_def missed_again_def)
    next
      case unknown: None
      then have "t \<notin> fst ` set (sc_flows kept)" by (simp add: map_of_None)
      then show ?thesis unfolding m using None unknown by (simp add: missed_in_def)
    qed
  qed
qed

definition seen_in :: "conversation \<Rightarrow> space \<times> comparing \<Rightarrow> bool" where
  "seen_in t v \<longleftrightarrow> t \<in> fst ` set (sc_flows (fst v))"

lemma rounds_append: "rounds kept (vs @ [v]) = fst (merge_space (rounds kept vs) (fst v) (snd v))"
  by (induction kept vs rule: rounds.induct) (cases v; simp)+

lemma rounds_wf: "wf_space kept \<Longrightarrow> list_all roomy vs \<Longrightarrow> wf_space (rounds kept vs)"
proof (induction vs rule: rev_induct)
  case (snoc v vs)
  then show ?case by (cases v) (auto simp: rounds_append roomy_def intro!: merged_wf)
qed simp

lemma rounds_missed:
  assumes "wf_space kept" "list_all roomy vs" "map_of (sc_flows kept) t = None"
  shows "missed_in t (rounds kept vs) =
     (let n = length (takeWhile (\<lambda>v. \<not> seen_in t v) (rev vs)) in if n < length vs \<and> n < linger then Some n else None)"
  using assms(2)
proof (induction vs rule: rev_induct)
  case Nil
  then show ?case using assms(3) by (simp add: missed_in_def)
next
  case (snoc v vs)
  obtain seen c where v: "v = (seen, c)" by (cases v)
  have r: "wf_space (rounds kept vs)" "roomy (seen, c)" using rounds_wf [OF assms(1)] snoc.prems v by auto
  note m = merge_missed_in [OF r, of t]
  have s: "seen_in t v \<longleftrightarrow> map_of (sc_flows seen) t \<noteq> None" by (simp add: seen_in_def v map_of_None)
  show ?case
  proof (cases "seen_in t v")
    case True
    then show ?thesis using m s by (simp add: rounds_append v linger_def)
  next
    case False
    then have "missed_in t (rounds kept (vs @ [v]))
        = (case missed_in t (rounds kept vs) of None \<Rightarrow> None | Some n \<Rightarrow> if n + 1 < linger then Some (n + 1) else None)"
      using m s by (simp add: rounds_append v)
    then show ?thesis using snoc False by (auto simp: Let_def)
  qed
qed

lemma rounds_hold:
  assumes "wf_space kept" "list_all roomy vs" "sc_flows kept = []"
  shows "t \<in> fst ` set (sc_flows (rounds kept vs)) \<longleftrightarrow> list_ex (seen_in t) (take linger (rev vs))"
proof -
  let ?n = "length (takeWhile (\<lambda>v. \<not> seen_in t v) (rev vs))"
  have "t \<in> fst ` set (sc_flows (rounds kept vs)) \<longleftrightarrow> missed_in t (rounds kept vs) \<noteq> None"
    by (simp add: missed_in_def map_of_None)
  also have "\<dots> \<longleftrightarrow> ?n < length vs \<and> ?n < linger"
    using rounds_missed [OF assms(1,2), of t] assms(3) by (simp add: Let_def)
  also have "\<dots> \<longleftrightarrow> list_ex (seen_in t) (take linger (rev vs))"
  proof
    assume n: "?n < length vs \<and> ?n < linger"
    then have "seen_in t (rev vs ! ?n)" using nth_length_takeWhile [of "\<lambda>v. \<not> seen_in t v" "rev vs"] by simp
    moreover have "rev vs ! ?n \<in> set (take linger (rev vs))" using n by (metis length_rev length_take min_less_iff_conj nth_mem nth_take)
    ultimately show "list_ex (seen_in t) (take linger (rev vs))" by (auto simp: list_ex_iff)
  next
    assume "list_ex (seen_in t) (take linger (rev vs))"
    then obtain i where i: "i < linger" "i < length vs" "seen_in t (rev vs ! i)" by (auto simp: list_ex_iff in_set_conv_nth)
    then have "?n \<le> i" using takeWhile_nth [of i "\<lambda>v. \<not> seen_in t v" "rev vs"] set_takeWhileD [of _ "\<lambda>v. \<not> seen_in t v" "rev vs"]
      by (metis not_le nth_mem)
    then show "?n < length vs \<and> ?n < linger" using i by simp
  qed
  finally show ?thesis .
qed

end
