(* ===== verification/Network_State.thy ===== *)
theory Network_State
  imports Network_Compare
begin

text \<open>
  How the module writes down what it saw and reads it back, \<open>internal/modules/network/state.go\<close>: the
  fields that are stored, the checks a file passes, and which states are read back as they were
  written. What \<open>encoding/json\<close> and \<open>netip\<close> make of the fields is an argument.
\<close>

record storedHolder =
  sh_PID :: u32
  sh_Name :: string
  sh_Started :: int

record storedListener =
  sl_Protocol :: string
  sl_Address :: string
  sl_Port :: u16
  sl_Accounts :: "u32 list"
  sl_Sockets :: int
  sl_Processes :: "storedHolder list"
  sl_Association :: string

record storedFlow =
  sf_Direction :: string
  sf_Protocol :: string
  sf_Remote :: string
  sf_Port :: u16
  sf_Account :: u32
  sf_Owned :: bool
  sf_First :: int
  sf_Last :: int
  sf_Most :: int
  sf_Missed :: int
  sf_States :: "string list"
  sf_Processes :: "storedHolder list"
  sf_Association :: string

record storedSpace =
  ss_Key :: u64
  ss_Own :: bool
  ss_ID :: string
  ss_Host :: bool
  ss_Through :: storedHolder
  ss_Earliest :: "storedHolder list"
  ss_Processes :: int
  ss_Pending :: bool
  ss_Listeners :: "storedListener list"
  ss_Flows :: "storedFlow list"

record stored_state =
  sd_Format :: int
  sd_Boot :: string
  sd_Namespaces :: "storedSpace list"

text \<open>
  What the libraries do: \<open>Unmarshal_format\<close> reads the format alone, \<open>Unmarshal\<close> one document and
  nothing after it, with no field it does not know.
\<close>

record codec =
  Marshal :: "stored_state \<Rightarrow> byte list"
  Unmarshal :: "byte list \<Rightarrow> stored_state option"
  Unmarshal_format :: "byte list \<Rightarrow> int option"
  Addr_String :: "addr \<Rightarrow> string"
  ParseAddr :: "string \<Rightarrow> addr option"

datatype network_sentinel = Net_Damaged | Net_Newer

definition state_format :: int where "state_format = 1"
definition maxState :: nat where "maxState = 33554432"
definition maxNamespaces :: nat where "maxNamespaces = 256"
definition maxListeners :: nat where "maxListeners = 65536"
definition maxStateText :: nat where "maxStateText = 256"
definition maxStateStates :: nat where "maxStateStates = 16"

definition direction_String :: "direction \<Rightarrow> string" where
  "direction_String d = (if d = Inbound then ''inbound'' else ''outbound'')"

definition association_String :: "association \<Rightarrow> string" where
  "association_String a = (case a of By_process \<Rightarrow> ''processes'' | By_account \<Rightarrow> ''accounts'' | By_nobody \<Rightarrow> ''none'')"

definition protocols :: "(string \<times> Protocol) list" where
  "protocols = [(''tcp'', TCP), (''udp'', UDP)]"

definition directions :: "(string \<times> direction) list" where
  "directions = [(''inbound'', Inbound), (''outbound'', Outbound)]"

definition associations :: "(string \<times> association) list" where
  "associations = [(''none'', By_nobody), (''accounts'', By_account), (''processes'', By_process)]"

lemma names_back [simp]:
  "map_of protocols (Protocol_String p) = Some p" "map_of directions (direction_String d) = Some d"
  "map_of associations (association_String a) = Some a"
proof -
  show "map_of protocols (Protocol_String p) = Some p" by (cases p) (simp_all add: protocols_def Protocol_String_def)
  show "map_of directions (direction_String d) = Some d" by (cases d) (simp_all add: directions_def direction_String_def)
  show "map_of associations (association_String a) = Some a" by (cases a) (simp_all add: associations_def association_String_def)
qed

section \<open>Writing\<close>

definition storing :: "holder \<Rightarrow> storedHolder" where
  "storing h = \<lparr>sh_PID = hr_PID h, sh_Name = hr_Name h, sh_Started = (if hr_Started h = zero_time then 0 else hr_Started h)\<rparr>"

definition store_listener :: "codec \<Rightarrow> listening \<Rightarrow> listener \<Rightarrow> storedListener" where
  "store_listener cd at now =
     \<lparr>sl_Protocol = Protocol_String (lg_protocol at), sl_Address = Addr_String cd (lg_address at), sl_Port = lg_port at,
      sl_Accounts = li_accounts now, sl_Sockets = int (li_sockets now), sl_Processes = List.map storing (li_processes now),
      sl_Association = association_String (li_association now)\<rparr>"

definition store_flow :: "codec \<Rightarrow> conversation \<Rightarrow> flow \<Rightarrow> storedFlow" where
  "store_flow cd talk now =
     \<lparr>sf_Direction = direction_String (cv_direction talk), sf_Protocol = Protocol_String (cv_protocol talk),
      sf_Remote = Addr_String cd (cv_remote talk), sf_Port = cv_port talk, sf_Account = cv_account talk, sf_Owned = cv_owned talk,
      sf_First = fl_first now, sf_Last = fl_last now, sf_Most = int (fl_most now), sf_Missed = int (fl_missed now),
      sf_States = fl_states now, sf_Processes = List.map storing (fl_processes now),
      sf_Association = association_String (fl_association now)\<rparr>"

definition in_order :: "('k \<Rightarrow> 'k \<Rightarrow> int) \<Rightarrow> ('k \<times> 'v) list \<Rightarrow> ('k \<times> 'v) list" where
  "in_order by m = List.map (\<lambda>k. (k, the (map_of m k))) (ordered_keys by m)"

definition store_space :: "codec \<Rightarrow> space \<Rightarrow> storedSpace" where
  "store_space cd kept =
     \<lparr>ss_Key = sc_key kept, ss_Own = sc_own kept, ss_ID = sc_id kept, ss_Host = sc_host kept, ss_Through = storing (sc_through kept),
      ss_Earliest = List.map storing (sc_earliest kept), ss_Processes = sc_processes kept, ss_Pending = sc_pending kept,
      ss_Listeners = List.map (\<lambda>(at, now). store_listener cd at now) (in_order byListening (sc_listeners kept)),
      ss_Flows = List.map (\<lambda>(talk, now). store_flow cd talk now) (in_order byConversation (sc_flows kept))\<rparr>"

definition stored_of :: "codec \<Rightarrow> net_state \<Rightarrow> stored_state" where
  "stored_of cd held =
     \<lparr>sd_Format = state_format, sd_Boot = st_boot held, sd_Namespaces = List.map (store_space cd) (st_spaces held)\<rparr>"

definition encode_state :: "codec \<Rightarrow> net_state \<Rightarrow> byte list" where
  "encode_state cd held = Marshal cd (stored_of cd held)"

section \<open>Reading\<close>

text \<open>Where a file is refused as damaged the value is \<open>None\<close>.\<close>

definition holderOf :: "storedHolder \<Rightarrow> holder option" where
  "holderOf w =
     (if length (sh_Name w) > maxStateText then None
      else Some \<lparr>hr_PID = sh_PID w, hr_Name = sh_Name w, hr_Started = (if sh_Started w = 0 then zero_time else sh_Started w)\<rparr>)"

definition holdersOf :: "storedHolder list \<Rightarrow> holder list option" where
  "holdersOf ws = (if length ws > maxHolders then None else those (List.map holderOf ws))"

definition decoded_listener :: "codec \<Rightarrow> storedListener \<Rightarrow> (listening \<times> listener) option" where
  "decoded_listener cd saw =
     (case (map_of protocols (sl_Protocol saw), ParseAddr cd (sl_Address saw), map_of associations (sl_Association saw), holdersOf (sl_Processes saw)) of
        (Some protocol, Some address, Some known, Some processes) \<Rightarrow>
          if sl_Sockets saw < 1 \<or> length (sl_Accounts saw) > maxHolders \<or> \<not> sorted_wrt (\<le>) (sl_Accounts saw) then None
          else Some (\<lparr>lg_protocol = protocol, lg_address = address, lg_port = sl_Port saw\<rparr>,
                     \<lparr>li_accounts = sl_Accounts saw, li_sockets = nat (sl_Sockets saw), li_processes = processes, li_association = known\<rparr>)
      | _ \<Rightarrow> None)"

definition decoded_flow :: "codec \<Rightarrow> storedFlow \<Rightarrow> (conversation \<times> flow) option" where
  "decoded_flow cd saw =
     (case (map_of directions (sf_Direction saw), map_of protocols (sf_Protocol saw), ParseAddr cd (sf_Remote saw),
            map_of associations (sf_Association saw), holdersOf (sf_Processes saw)) of
        (Some way, Some protocol, Some remote, Some known, Some processes) \<Rightarrow>
          if sf_Most saw < 0 \<or> sf_Missed saw < 0 \<or> sf_Missed saw \<ge> int linger \<or> length (sf_States saw) > maxStateStates
             \<or> list_ex (\<lambda>s. length s > maxStateText) (sf_States saw) then None
          else Some (\<lparr>cv_direction = way, cv_protocol = protocol, cv_remote = remote, cv_port = sf_Port saw, cv_account = sf_Account saw,
                      cv_owned = sf_Owned saw\<rparr>,
                     \<lparr>fl_first = sf_First saw, fl_last = sf_Last saw, fl_connections = 0, fl_most = nat (sf_Most saw),
                      fl_missed = nat (sf_Missed saw), fl_states = sf_States saw, fl_processes = processes, fl_association = known\<rparr>)
      | _ \<Rightarrow> None)"

text \<open>The loop over the entries of a map: none is held twice.\<close>

fun decoded_each :: "('a \<Rightarrow> ('k \<times> 'v) option) \<Rightarrow> 'a list \<Rightarrow> ('k \<times> 'v) list \<Rightarrow> ('k \<times> 'v) list option" where
  "decoded_each dec [] held = Some held"
| "decoded_each dec (saw # rest) held =
     (case dec saw of
        None \<Rightarrow> None
      | Some (k, v) \<Rightarrow> if map_of held k \<noteq> None then None else decoded_each dec rest (held @ [(k, v)]))"

definition decoded :: "codec \<Rightarrow> storedSpace \<Rightarrow> space option" where
  "decoded cd w =
     (case holderOf (ss_Through w) of
        None \<Rightarrow> None
      | Some through \<Rightarrow>
          if length (ss_ID w) > maxStateText \<or> length (ss_Earliest w) > maxHolders \<or> ss_Processes w < 0 then None
          else (case (holdersOf (ss_Earliest w), decoded_each (decoded_listener cd) (ss_Listeners w) [], decoded_each (decoded_flow cd) (ss_Flows w) []) of
             (Some earliest, Some listeners, Some flows) \<Rightarrow>
               Some \<lparr>sc_key = ss_Key w, sc_own = ss_Own w, sc_id = ss_ID w, sc_host = ss_Host w, sc_through = through,
                     sc_earliest = earliest, sc_processes = ss_Processes w, sc_pending = ss_Pending w,
                     sc_listeners = listeners, sc_flows = flows, sc_connected = []\<rparr>
           | _ \<Rightarrow> None))"

fun decode_each :: "codec \<Rightarrow> int \<Rightarrow> storedSpace list \<Rightarrow> int \<Rightarrow> space list option" where
  "decode_each cd maxFlows [] flows = Some []"
| "decode_each cd maxFlows (w # rest) flows =
     (let flows = flows + int (length (ss_Flows w))
      in case decoded cd w of
           None \<Rightarrow> None
         | Some kept \<Rightarrow>
             if flows > maxFlows \<or> length (ss_Listeners w) > maxListeners then None
             else map_option ((#) kept) (decode_each cd maxFlows rest flows))"

definition decode_state :: "codec \<Rightarrow> int \<Rightarrow> byte list \<Rightarrow> network_sentinel + net_state" where
  "decode_state cd maxFlows content =
     (if length content > maxState then Inl Net_Damaged
      else case Unmarshal_format cd content of
        None \<Rightarrow> Inl Net_Damaged
      | Some fmt \<Rightarrow>
          if fmt > state_format then Inl Net_Newer
          else case Unmarshal cd content of
            None \<Rightarrow> Inl Net_Damaged
          | Some w \<Rightarrow>
              if sd_Format w \<noteq> state_format \<or> length (sd_Namespaces w) > maxNamespaces \<or> length (sd_Boot w) > maxStateText
                 \<or> sd_Namespaces w = [] \<or> \<not> ss_Own (hd (sd_Namespaces w)) \<or> list_ex ss_Own (tl (sd_Namespaces w)) then Inl Net_Damaged
              else (case decode_each cd maxFlows (sd_Namespaces w) 0 of
                 None \<Rightarrow> Inl Net_Damaged
               | Some spaces \<Rightarrow> Inr \<lparr>st_boot = sd_Boot w, st_spaces = spaces\<rparr>))"

section \<open>What is read back\<close>

text \<open>A state is read back with each map in the order it was written in, no connection counted, and none remembered.\<close>

definition uncounted :: "flow \<Rightarrow> flow" where "uncounted f = f\<lparr>fl_connections := 0\<rparr>"

definition remembered :: "space \<Rightarrow> space" where
  "remembered s = s\<lparr>sc_listeners := in_order byListening (sc_listeners s),
     sc_flows := List.map (\<lambda>(talk, f). (talk, uncounted f)) (in_order byConversation (sc_flows s)), sc_connected := []\<rparr>"

definition remembered_state :: "net_state \<Rightarrow> net_state" where
  "remembered_state s = s\<lparr>st_spaces := List.map remembered (st_spaces s)\<rparr>"

text \<open>
  The documented behaviour of the libraries: a document is read as it was written, which holds of valid
  text and of numbers within 64 bits, and so is an address without a zone.
\<close>

definition addr_plain :: "addr \<Rightarrow> bool" where
  "addr_plain a \<longleftrightarrow> a \<noteq> No_addr \<and> addr_zone a = []"

definition addresses_ok :: "codec \<Rightarrow> bool" where
  "addresses_ok cd \<longleftrightarrow> (\<forall>a. addr_plain a \<longrightarrow> ParseAddr cd (Addr_String cd a) = Some a)"

definition document_ok :: "codec \<Rightarrow> stored_state \<Rightarrow> bool" where
  "document_ok cd w \<longleftrightarrow>
     Unmarshal cd (Marshal cd w @ [10]) = Some w \<and> Unmarshal_format cd (Marshal cd w @ [10]) = Some (sd_Format w)"

text \<open>What is within the bounds the reading checks.\<close>

definition holder_fits :: "holder \<Rightarrow> bool" where
  "holder_fits h \<longleftrightarrow> length (hr_Name h) \<le> maxStateText \<and> hr_Started h \<noteq> 0"

definition listener_fits :: "listening \<Rightarrow> listener \<Rightarrow> bool" where
  "listener_fits at l \<longleftrightarrow> addr_plain (lg_address at) \<and> length (li_accounts l) \<le> maxHolders \<and> list_all holder_fits (li_processes l)"

definition flow_fits :: "conversation \<Rightarrow> flow \<Rightarrow> bool" where
  "flow_fits talk f \<longleftrightarrow> addr_plain (cv_remote talk) \<and> length (fl_states f) \<le> maxStateStates
     \<and> list_all (\<lambda>s. length s \<le> maxStateText) (fl_states f) \<and> list_all holder_fits (fl_processes f)"

definition space_fits :: "space \<Rightarrow> bool" where
  "space_fits s \<longleftrightarrow> holder_fits (sc_through s) \<and> length (sc_id s) \<le> maxStateText \<and> length (sc_earliest s) \<le> maxHolders
     \<and> list_all holder_fits (sc_earliest s) \<and> 0 \<le> sc_processes s \<and> length (sc_listeners s) \<le> maxListeners
     \<and> (\<forall>(at, l) \<in> set (sc_listeners s). listener_fits at l) \<and> (\<forall>(talk, f) \<in> set (sc_flows s). flow_fits talk f)"

definition state_fits :: "codec \<Rightarrow> int \<Rightarrow> net_state \<Rightarrow> bool" where
  "state_fits cd maxFlows s \<longleftrightarrow> length (encode_state cd s @ [10]) \<le> maxState \<and> length (st_spaces s) \<le> maxNamespaces
     \<and> length (st_boot s) \<le> maxStateText \<and> list_all space_fits (st_spaces s) \<and> int (flows_held (st_spaces s)) \<le> maxFlows
     \<and> st_spaces s \<noteq> [] \<and> sc_own (hd (st_spaces s)) \<and> \<not> list_ex sc_own (tl (st_spaces s))"

lemma holder_back: "holder_fits h \<Longrightarrow> holderOf (storing h) = Some h"
  by (simp add: holder_fits_def holderOf_def storing_def zero_time_def)

lemma holders_back:
  assumes "length hs \<le> maxHolders" "list_all holder_fits hs"
  shows "holdersOf (List.map storing hs) = Some hs"
proof -
  have "those (List.map (\<lambda>x. holderOf (storing x)) hs) = Some hs"
    using assms(2) by (induction hs) (auto simp: holder_back)
  then show ?thesis using assms(1) by (simp add: holdersOf_def comp_def)
qed

lemma listener_back:
  assumes "addresses_ok cd" "wf_listener l" "listener_fits at l"
  shows "decoded_listener cd (store_listener cd at l) = Some (at, l)"
proof -
  have "ParseAddr cd (Addr_String cd (lg_address at)) = Some (lg_address at)"
    using assms(1,3) by (simp add: addresses_ok_def listener_fits_def)
  moreover have "holdersOf (List.map storing (li_processes l)) = Some (li_processes l)"
    using assms(2,3) by (intro holders_back) (auto simp: wf_listener_def wf_holders_def listener_fits_def)
  moreover have "sorted_wrt (\<le>) (li_accounts l)" using assms(2) by (auto simp: wf_listener_def intro: sorted_wrt_mono_rel [rotated])
  ultimately show ?thesis
    using assms(2,3) by (simp add: decoded_listener_def store_listener_def wf_listener_def listener_fits_def)
qed

lemma flow_back:
  assumes "addresses_ok cd" "wf_flow f" "flow_fits talk f"
  shows "decoded_flow cd (store_flow cd talk f) = Some (talk, uncounted f)"
proof -
  have "ParseAddr cd (Addr_String cd (cv_remote talk)) = Some (cv_remote talk)"
    using assms(1,3) by (simp add: addresses_ok_def flow_fits_def)
  moreover have "holdersOf (List.map storing (fl_processes f)) = Some (fl_processes f)"
    using assms(2,3) by (intro holders_back) (auto simp: wf_flow_def wf_holders_def flow_fits_def)
  ultimately show ?thesis
    using assms(2,3) by (simp add: decoded_flow_def store_flow_def wf_flow_def flow_fits_def uncounted_def list_ex_iff list_all_iff not_less)
qed

lemma each_back:
  assumes "distinct (List.map fst held @ List.map fst xs)" "\<forall>(k, v) \<in> set xs. dec (enc k v) = Some (k, g v)"
  shows "decoded_each dec (List.map (\<lambda>(k, v). enc k v) xs) held = Some (held @ List.map (\<lambda>(k, v). (k, g v)) xs)"
  using assms
proof (induction xs arbitrary: held)
  case (Cons x xs)
  obtain k v where x: "x = (k, v)" by (cases x)
  have "map_of held k = None" using Cons.prems(1) x by (simp add: map_of_None)
  moreover have "distinct (List.map fst (held @ [(k, g v)]) @ List.map fst xs)" using Cons.prems(1) x by auto
  ultimately show ?case using Cons.IH [of "held @ [(k, g v)]"] Cons.prems(2) x by auto
qed simp

lemma in_order_simps [simp]:
  "List.map fst (in_order by m) = ordered_keys by m" "length (in_order by m) = length m"
  by (simp_all add: in_order_def comp_def ordered_keys_def)

lemma in_order_set: "distinct (List.map fst m) \<Longrightarrow> set (in_order by m) = set m"
proof -
  assume d: "distinct (List.map fst m)"
  have "set (in_order by m) = (\<lambda>k. (k, the (map_of m k))) ` (fst ` set m)" by (simp add: in_order_def)
  also have "\<dots> = (\<lambda>x. x) ` set m"
    unfolding image_image by (rule image_cong) (use d in auto)
  finally show ?thesis by simp
qed

lemma in_order_map_of: "distinct (List.map fst m) \<Longrightarrow> map_of (in_order by m) = map_of m"
  by (rule map_of_eqI) (auto simp: in_order_set image_iff Bex_def dest: in_order_set)

lemma space_back:
  assumes "addresses_ok cd" "wf_space s" "space_fits s"
  shows "decoded cd (store_space cd s) = Some (remembered s)"
proof -
  have d: "distinct (List.map fst (sc_listeners s))" "distinct (List.map fst (sc_flows s))" using assms(2) by (simp_all add: wf_space_def)
  have "\<forall>(at, l) \<in> set (in_order byListening (sc_listeners s)). decoded_listener cd (store_listener cd at l) = Some (at, l)"
    using listener_back [OF assms(1)] assms(2,3) unfolding in_order_set [OF d(1)] by (force simp: wf_space_def space_fits_def)
  then have l: "decoded_each (decoded_listener cd) (List.map (\<lambda>(at, now). store_listener cd at now) (in_order byListening (sc_listeners s))) []
      = Some (in_order byListening (sc_listeners s))"
    using each_back [of "[]" "in_order byListening (sc_listeners s)" "decoded_listener cd" "store_listener cd" "\<lambda>x. x"] d(1) by simp
  have "\<forall>(talk, f) \<in> set (in_order byConversation (sc_flows s)). decoded_flow cd (store_flow cd talk f) = Some (talk, uncounted f)"
    using flow_back [OF assms(1)] assms(2,3) unfolding in_order_set [OF d(2)] by (force simp: wf_space_def space_fits_def)
  then have f: "decoded_each (decoded_flow cd) (List.map (\<lambda>(talk, now). store_flow cd talk now) (in_order byConversation (sc_flows s))) []
      = Some (List.map (\<lambda>(talk, f). (talk, uncounted f)) (in_order byConversation (sc_flows s)))"
    using each_back [of "[]" "in_order byConversation (sc_flows s)" "decoded_flow cd" "store_flow cd" uncounted] d(2) by simp
  show ?thesis
    using l f assms(3) holder_back [of "sc_through s"] holders_back [of "sc_earliest s"]
    by (simp add: decoded_def store_space_def remembered_def space_fits_def)
qed

lemma spaces_back:
  assumes "addresses_ok cd" "\<forall>s \<in> set ss. wf_space s \<and> space_fits s" "flows + int (flows_held ss) \<le> maxFlows"
  shows "decode_each cd maxFlows (List.map (store_space cd) ss) flows = Some (List.map remembered ss)"
  using assms(2,3)
proof (induction ss arbitrary: flows)
  case (Cons s ss)
  have w: "length (ss_Flows (store_space cd s)) = length (sc_flows s)" "length (ss_Listeners (store_space cd s)) = length (sc_listeners s)"
    by (simp_all add: store_space_def)
  have "flows + int (length (sc_flows s)) + int (flows_held ss) \<le> maxFlows" using Cons.prems(2) by (simp add: flows_held_def)
  moreover have "length (sc_listeners s) \<le> maxListeners" using Cons.prems(1) by (simp add: space_fits_def)
  ultimately show ?case
    using Cons.IH [of "flows + int (length (sc_flows s))"] Cons.prems(1) space_back [OF assms(1), of s] w by (simp add: Let_def)
qed simp

lemma state_back:
  assumes "addresses_ok cd" "\<forall>s \<in> set (st_spaces held). wf_space s" "state_fits cd maxFlows held" "document_ok cd (stored_of cd held)"
  shows "decode_state cd maxFlows (encode_state cd held @ [10]) = Inr (remembered_state held)"
proof -
  have j: "Unmarshal cd (encode_state cd held @ [10]) = Some (stored_of cd held)" "Unmarshal_format cd (encode_state cd held @ [10]) = Some state_format"
    using assms(4) by (simp_all add: document_ok_def encode_state_def) (simp add: stored_of_def)
  obtain s ss where ss: "st_spaces held = s # ss" using assms(3) by (cases "st_spaces held") (auto simp: state_fits_def)
  have own: "ss_Own (store_space cd x) = sc_own x" for x by (simp add: store_space_def)
  have e: "decode_each cd maxFlows (List.map (store_space cd) (st_spaces held)) 0 = Some (List.map remembered (st_spaces held))"
    using assms(2,3) by (intro spaces_back [OF assms(1)]) (auto simp: state_fits_def list_all_iff)
  show ?thesis
    using assms(3) j e own ss
    by (auto simp: decode_state_def stored_of_def state_fits_def remembered_state_def list_ex_iff)
qed

text \<open>What is outside them is not.\<close>

lemma decode_each_flows:
  assumes "decode_each cd maxFlows (List.map (store_space cd) ss) flows \<noteq> None"
  shows "ss = [] \<or> flows + int (flows_held ss) \<le> maxFlows" "\<forall>s \<in> set ss. decoded cd (store_space cd s) \<noteq> None"
proof -
  have "(ss = [] \<or> flows + int (flows_held ss) \<le> maxFlows) \<and> (\<forall>s \<in> set ss. decoded cd (store_space cd s) \<noteq> None)"
    using assms
  proof (induction ss arbitrary: flows)
    case (Cons s ss)
    have w: "length (ss_Flows (store_space cd s)) = length (sc_flows s)" by (simp add: store_space_def)
    have "decode_each cd maxFlows (List.map (store_space cd) ss) (flows + int (length (sc_flows s))) \<noteq> None"
      "flows + int (length (sc_flows s)) \<le> maxFlows" "decoded cd (store_space cd s) \<noteq> None"
      using Cons.prems w by (auto simp: Let_def split: option.splits if_splits)
    then show ?case using Cons.IH [of "flows + int (length (sc_flows s))"] by (cases ss) (auto simp: flows_held_def)
  qed simp
  then show "ss = [] \<or> flows + int (flows_held ss) \<le> maxFlows" "\<forall>s \<in> set ss. decoded cd (store_space cd s) \<noteq> None" by blast+
qed

lemma decoded_each_all: "decoded_each dec xs held \<noteq> None \<Longrightarrow> \<forall>x \<in> set xs. dec x \<noteq> None"
proof (induction xs arbitrary: held)
  case (Cons x xs)
  then obtain k v where "dec x = Some (k, v)" "decoded_each dec xs (held @ [(k, v)]) \<noteq> None"
    by (auto split: option.splits if_splits)
  then show ?case using Cons.IH by fastforce
qed simp

lemma decoded_accounts:
  assumes "decoded cd (store_space cd s) \<noteq> None" "distinct (List.map fst (sc_listeners s))" "(at, l) \<in> set (sc_listeners s)"
  shows "length (li_accounts l) \<le> maxHolders"
proof -
  have "decoded_each (decoded_listener cd) (ss_Listeners (store_space cd s)) [] \<noteq> None"
    using assms(1) by (auto simp: decoded_def split: option.splits if_splits)
  moreover have "store_listener cd at l \<in> set (ss_Listeners (store_space cd s))"
    using assms(3) in_order_set [OF assms(2)] by (force simp: store_space_def)
  ultimately have "decoded_listener cd (store_listener cd at l) \<noteq> None" using decoded_each_all by blast
  then show ?thesis by (auto simp: decoded_listener_def store_listener_def split: option.splits if_splits)
qed

lemma state_not_back:
  assumes "document_ok cd (stored_of cd held)" "st_spaces held \<noteq> []" "\<forall>s \<in> set (st_spaces held). wf_space s"
    and "maxFlows < int (flows_held (st_spaces held)) \<or> maxNamespaces < length (st_spaces held)
      \<or> (\<exists>s \<in> set (st_spaces held). \<exists>(at, l) \<in> set (sc_listeners s). maxHolders < length (li_accounts l))"
  shows "decode_state cd maxFlows (encode_state cd held @ [10]) = Inl Net_Damaged"
proof -
  have j: "Unmarshal cd (encode_state cd held @ [10]) = Some (stored_of cd held)" "Unmarshal_format cd (encode_state cd held @ [10]) = Some state_format"
    using assms(1) by (simp_all add: document_ok_def encode_state_def) (simp add: stored_of_def)
  have "decode_each cd maxFlows (List.map (store_space cd) (st_spaces held)) 0 = None \<or> maxNamespaces < length (st_spaces held)"
    using decode_each_flows [of cd maxFlows "st_spaces held" 0] decoded_accounts [of cd] assms(2-4)
    by (fastforce simp: wf_space_def)
  then show ?thesis using j by (auto simp: decode_state_def stored_of_def)
qed

end
