(* ===== verification/Network_Round.thy ===== *)
theory Network_Round
  imports Network_State
begin

text \<open>
  The rounds of the network module, \<open>internal/modules/network/network.go\<close> and the counting of
  \<open>internal/modules/network/report.go\<close>: what the collector holds across rounds, failures, restarts and
  reboots, and how many changes it writes down. What the host is read as, the moments and whether a
  write succeeds are inputs.
\<close>

record collector =
  co_held :: "net_state option"
  co_whole :: bool
  co_written :: "byte list option"
  co_failures :: nat
  co_window :: time
  co_logged :: nat
  co_withheld :: "(string \<times> nat) list"
  co_changes :: u64
  co_unlogged :: u64
  co_changed :: time

definition new_collector :: collector where
  "new_collector = \<lparr>co_held = None, co_whole = False, co_written = None, co_failures = 0, co_window = zero_time, co_logged = 0,
     co_withheld = [], co_changes = 0, co_unlogged = 0, co_changed = zero_time\<rparr>"

section \<open>Writing a change down\<close>

definition loggedPerMinute :: nat where "loggedPerMinute = 1000"
definition minute :: duration where "minute = 60000000000"

definition message :: "change \<Rightarrow> string" where
  "message x = (case x of
      At _ (Listener_opened _ _) \<Rightarrow> ''listener_opened'' | At _ (Listener_closed _ _) \<Rightarrow> ''listener_closed''
    | At _ (Listener_changed _ _ _ _) \<Rightarrow> ''listener_changed'' | At _ (Flow_started _ _) \<Rightarrow> ''flow_started''
    | At _ (Flow_ended _ _) \<Rightarrow> ''flow_ended'' | At _ Namespace_seen \<Rightarrow> ''network_namespace_seen''
    | Namespace_gone _ \<Rightarrow> ''network_namespace_gone'')"

text \<open>\<open>report\<close>: whether the change is written down.\<close>

definition report :: "time \<Rightarrow> change \<Rightarrow> collector \<Rightarrow> bool \<times> collector" where
  "report t found c =
     (let c = c\<lparr>co_changes := co_changes c + 1, co_changed := t\<rparr>;
          c = (if t - co_window c \<ge> minute then c\<lparr>co_window := t, co_logged := 0\<rparr> else c)
      in if co_logged c < loggedPerMinute then (True, c\<lparr>co_logged := co_logged c + 1\<rparr>)
         else (False, c\<lparr>co_unlogged := co_unlogged c + 1,
                co_withheld := bump (message found) 0 (\<lambda>n. n + 1) (co_withheld c)\<rparr>))"

fun report_each :: "(time \<times> change) list \<Rightarrow> collector \<Rightarrow> (time \<times> change) list \<times> collector" where
  "report_each [] c = ([], c)"
| "report_each ((t, found) # rest) c =
     (case report t found c of (allowed, c) \<Rightarrow>
      case report_each rest c of (out, c) \<Rightarrow> (if allowed then (t, found) # out else out, c))"

text \<open>\<open>withholding\<close>: what was held back is said, and counted anew.\<close>

definition withholding :: "collector \<Rightarrow> (string \<times> nat) list \<times> collector" where
  "withholding c = (in_order str_Compare (co_withheld c), c\<lparr>co_withheld := []\<rparr>)"

section \<open>A round\<close>

datatype loaded = Unwritten | Loads "byte list" | Load_fails

text \<open>\<open>begin\<close>: \<open>None\<close> where the collector stops with an error.\<close>

definition begin_collector :: "codec \<Rightarrow> int \<Rightarrow> bool \<Rightarrow> loaded \<Rightarrow> collector \<Rightarrow> collector option" where
  "begin_collector cd maxFlows discards found c =
     (let c = c\<lparr>co_held := None, co_whole := True, co_written := None, co_failures := 0\<rparr>
      in if \<not> discards then None
         else case found of
           Unwritten \<Rightarrow> Some c
         | Load_fails \<Rightarrow> None
         | Loads content \<Rightarrow>
             (case decode_state cd maxFlows content of
                Inr held \<Rightarrow> Some (c\<lparr>co_held := Some held\<rparr>)
              | Inl Net_Damaged \<Rightarrow> Some c
              | Inl Net_Newer \<Rightarrow> None))"

definition rebooted :: "net_state \<Rightarrow> net_state" where
  "rebooted held = \<lparr>st_boot = st_boot held, st_spaces = [(hd (st_spaces held))\<lparr>sc_flows := [], sc_connected := []\<rparr>]\<rparr>"

datatype scan = Ended | Unsupported | Fails | Reads Reading

definition start_comparing :: "bool \<Rightarrow> time \<Rightarrow> Reading \<Rightarrow> collector \<Rightarrow> comparing" where
  "start_comparing starts t reading c =
     \<lparr>cp_now = t, cp_adopting = co_held c = None \<or> starts \<or> \<not> co_whole c,
      cp_quiet = (case co_held c of None \<Rightarrow> False | Some held \<Rightarrow> starts \<and> st_boot held \<noteq> re_Boot reading),
      cp_ending = starts,
      cp_complete = \<not> re_Unvisited reading \<and> \<not> re_Hidden reading \<and> re_Refused reading = 0 \<and> re_Unread reading = 0,
      cp_left = 0, cp_untracked = 0, cp_at = 0, cp_changes = []\<rparr>"

definition previous_of :: "bool \<Rightarrow> Reading \<Rightarrow> collector \<Rightarrow> net_state option" where
  "previous_of starts reading c =
     (case co_held c of
        None \<Rightarrow> None
      | Some held \<Rightarrow> Some (if starts \<and> st_boot held \<noteq> re_Boot reading then rebooted held else held))"

datatype round_result = Goes_on_watching | Stops

definition watch_round ::
  "texts \<Rightarrow> codec \<Rightarrow> int \<Rightarrow> bool \<Rightarrow> scan \<Rightarrow> time \<Rightarrow> time list \<Rightarrow> bool \<Rightarrow> collector \<Rightarrow> byte list option
     \<Rightarrow> round_result \<times> (time \<times> change) list \<times> collector \<times> byte list option" where
  "watch_round tx cd maxFlows starts scanned t moments saves c disk =
     (case scanned of
        Ended \<Rightarrow> (Goes_on_watching, [], c, disk)
      | Unsupported \<Rightarrow> (Stops, [], c, disk)
      | Fails \<Rightarrow> (Goes_on_watching, [], c\<lparr>co_failures := co_failures c + 1\<rparr>, disk)
      | Reads reading \<Rightarrow>
          (case compare tx maxFlows (previous_of starts reading c) reading (start_comparing starts t reading c) of
             (held, compared) \<Rightarrow>
           let c = c\<lparr>co_failures := 0, co_held := Some held, co_whole := reading_whole reading\<rparr>
           in case report_each (zip moments (cp_changes compared)) c of (out, c) \<Rightarrow>
              let c = snd (withholding c); content = encode_state cd held
              in if co_written c = Some content then (Goes_on_watching, out, c, disk)
                 else if saves then (Goes_on_watching, out, c\<lparr>co_written := Some content\<rparr>, Some (content @ [10]))
                 else (Stops, out, c, disk)))"

section \<open>What the rounds keep\<close>

lemma report_fields:
  assumes "report t found c = (allowed, c')"
  shows "co_held c' = co_held c" "co_written c' = co_written c" "co_whole c' = co_whole c" "co_failures c' = co_failures c"
    "co_changes c' = co_changes c + 1" "co_unlogged c' = co_unlogged c + (if allowed then 0 else 1)"
    "t - co_window c < minute \<Longrightarrow> co_window c' = co_window c \<and> co_logged c' = co_logged c + (if allowed then 1 else 0)
       \<and> (allowed \<longleftrightarrow> co_logged c < loggedPerMinute)"
  using assms by (auto simp: report_def Let_def split: if_splits)

text \<open>Every change is counted, and those that are not written down are; within a minute no more than a thousand are.\<close>

lemma report_each_counts:
  assumes "report_each xs c = (out, c')"
  shows "co_held c' = co_held c" "co_written c' = co_written c"
    "co_changes c' = co_changes c + of_nat (length xs)" "co_unlogged c' = co_unlogged c + of_nat (length xs - length out)"
    "length out \<le> length xs"
    "\<forall>(t, found) \<in> set xs. t - co_window c < minute \<Longrightarrow> co_logged c \<le> loggedPerMinute \<Longrightarrow> length out = min (length xs) (loggedPerMinute - co_logged c)"
proof -
  have "co_held c' = co_held c \<and> co_written c' = co_written c \<and> co_changes c' = co_changes c + of_nat (length xs)
    \<and> length out \<le> length xs \<and> co_unlogged c' = co_unlogged c + of_nat (length xs - length out)
    \<and> ((\<forall>(t, found) \<in> set xs. t - co_window c < minute) \<longrightarrow> co_logged c \<le> loggedPerMinute
         \<longrightarrow> length out = min (length xs) (loggedPerMinute - co_logged c))"
    using assms
  proof (induction xs c arbitrary: out rule: report_each.induct)
    case (2 t found rest c)
    obtain allowed c1 out1 where r: "report t found c = (allowed, c1)" "report_each rest c1 = (out1, c')"
      "out = (if allowed then (t, found) # out1 else out1)"
      using "2.prems" by (auto split: prod.splits)
    note f = report_fields [OF r(1)] and h = "2.IH" [OF r(1) [symmetric] r(2)]
    have "length out = min (length ((t, found) # rest)) (loggedPerMinute - co_logged c)"
      if w: "\<forall>(t, found) \<in> set ((t, found) # rest). t - co_window c < minute" "co_logged c \<le> loggedPerMinute"
    proof -
      have "co_window c1 = co_window c" "co_logged c1 = co_logged c + (if allowed then 1 else 0)" "allowed \<longleftrightarrow> co_logged c < loggedPerMinute"
        using f(7) w by auto
      then show ?thesis using h w r(3) by (auto split: if_splits)
    qed
    moreover have "co_unlogged c' = co_unlogged c + of_nat (length ((t, found) # rest) - length out)"
      using h f(6) r(3) by (auto simp: Suc_diff_le)
    ultimately show ?case using h f r(3) by (auto simp: algebra_simps)
  qed auto
  then show "co_held c' = co_held c" "co_written c' = co_written c" "co_changes c' = co_changes c + of_nat (length xs)"
    "co_unlogged c' = co_unlogged c + of_nat (length xs - length out)" "length out \<le> length xs"
    "\<forall>(t, found) \<in> set xs. t - co_window c < minute \<Longrightarrow> co_logged c \<le> loggedPerMinute \<Longrightarrow> length out = min (length xs) (loggedPerMinute - co_logged c)"
    by blast+
qed

definition wf_held :: "net_state option \<Rightarrow> bool" where
  "wf_held s \<longleftrightarrow> (\<forall>x \<in> set (held_spaces s). wf_space x)"

lemma rebooted_wf: "\<forall>x \<in> set (st_spaces s). wf_space x \<Longrightarrow> st_spaces s \<noteq> [] \<Longrightarrow> \<forall>x \<in> set (st_spaces (rebooted s)). wf_space x"
proof -
  assume "\<forall>x \<in> set (st_spaces s). wf_space x" "st_spaces s \<noteq> []"
  then have "wf_space (hd (st_spaces s))" by simp
  then show ?thesis by (simp add: rebooted_def wf_space_def)
qed

lemma previous_wf:
  assumes "wf_held (co_held c)" "\<forall>s. co_held c = Some s \<longrightarrow> st_spaces s \<noteq> []"
  shows "wf_held (previous_of starts reading c)"
proof (cases "co_held c")
  case (Some s)
  then have s: "\<forall>x \<in> set (st_spaces s). wf_space x" "st_spaces s \<noteq> []" using assms by (simp_all add: wf_held_def held_spaces_def)
  then show ?thesis using Some rebooted_wf [OF s] by (simp add: wf_held_def held_spaces_def previous_of_def)
qed (simp add: wf_held_def held_spaces_def previous_of_def)

lemma round_reads:
  assumes "watch_round tx cd maxFlows starts (Reads reading) t moments saves c disk = (res, out, c', disk')"
  shows "\<exists>held compared. compare tx maxFlows (previous_of starts reading c) reading (start_comparing starts t reading c) = (held, compared)
     \<and> co_held c' = Some held \<and> (res = Goes_on_watching \<longrightarrow> co_written c' = Some (encode_state cd held))
     \<and> (res = Goes_on_watching \<longrightarrow> (if co_written c = Some (encode_state cd held) then disk' = disk else disk' = Some (encode_state cd held @ [10])))
     \<and> (res = Stops \<longrightarrow> disk' = disk)"
proof -
  obtain held compared where k: "compare tx maxFlows (previous_of starts reading c) reading (start_comparing starts t reading c) = (held, compared)"
    by (metis surj_pair)
  let ?c = "c\<lparr>co_failures := 0, co_held := Some held, co_whole := reading_whole reading\<rparr>"
  obtain o1 c1 where r: "report_each (zip moments (cp_changes compared)) ?c = (o1, c1)" by (metis surj_pair)
  have f: "co_held c1 = Some held" "co_written c1 = co_written c" using report_each_counts(1,2) [OF r] by simp_all
  show ?thesis
    using assms k r f by (auto simp: watch_round_def withholding_def Let_def split: if_splits)
qed

lemma round_wf:
  assumes "wf_held (co_held c)" "\<forall>s. co_held c = Some s \<longrightarrow> st_spaces s \<noteq> []" "re_Namespaces reading \<noteq> []"
    and "watch_round tx cd maxFlows starts (Reads reading) t moments saves c disk = (res, out, c', disk')"
  shows "\<exists>held. co_held c' = Some held \<and> st_spaces held \<noteq> [] \<and> (\<forall>x \<in> set (st_spaces held). wf_space x)"
proof -
  obtain held compared where k: "compare tx maxFlows (previous_of starts reading c) reading (start_comparing starts t reading c) = (held, compared)"
    "co_held c' = Some held"
    using round_reads [OF assms(4)] by blast
  have "\<forall>x \<in> set (held_spaces (previous_of starts reading c)). wf_space x"
    using previous_wf [OF assms(1,2)] by (simp add: wf_held_def)
  note s = compare_spec(1,2) [OF this k(1)]
  have "cp_changes (start_comparing starts t reading c) = []" by (simp add: start_comparing_def)
  then show ?thesis using s k(2) assms(3) by (intro exI [of _ held]) auto
qed

text \<open>What a restart finds: the state as it was written where it is within the bounds, and none where it is not.\<close>

lemma restart_finds:
  assumes "wf_held (Some held)" "document_ok cd (stored_of cd held)"
  shows "addresses_ok cd \<Longrightarrow> state_fits cd maxFlows held \<Longrightarrow>
      map_option co_held (begin_collector cd maxFlows True (Loads (encode_state cd held @ [10])) c) = Some (Some (remembered_state held))"
    "st_spaces held \<noteq> [] \<Longrightarrow> maxFlows < int (flows_held (st_spaces held)) \<or> maxNamespaces < length (st_spaces held)
        \<or> (\<exists>s \<in> set (st_spaces held). \<exists>(at, l) \<in> set (sc_listeners s). maxHolders < length (li_accounts l)) \<Longrightarrow>
      map_option co_held (begin_collector cd maxFlows True (Loads (encode_state cd held @ [10])) c) = Some None"
  using state_back [of cd held maxFlows] state_not_back [of cd held maxFlows] assms
  by (auto simp: begin_collector_def Let_def wf_held_def held_spaces_def)

lemma round_writes:
  assumes "watch_round tx cd maxFlows starts (Reads reading) t moments saves c disk = (Goes_on_watching, out, c', disk')"
    and "co_held c' = Some held" "\<forall>b. co_written c = Some b \<longrightarrow> disk = Some (b @ [10])"
  shows "disk' = Some (encode_state cd held @ [10])"
  using round_reads [OF assms(1)] assms(2,3) by (auto split: if_splits)

end
