(* ===== verification/Network_Samples.thy ===== *)
theory Network_Samples
  imports Network_Round
begin

text \<open>
  A host to watch: one namespace with a listener and connections to ports of one remote address, read
  in rounds, and a codec that reads back what the last of them writes.
\<close>

definition sample_texts :: texts where
  "sample_texts = \<lparr>tx_valid = \<lambda>_. True, tx_print = \<lambda>_. True, tx_quote = \<lambda>s. s\<rparr>"

definition sample_socket :: "u16 \<Rightarrow> Socket" where
  "sample_socket port =
     \<lparr>so_Protocol = TCP, so_Local = \<lparr>ap_Addr = V4 1, ap_Port = 5000\<rparr>, so_Remote = \<lparr>ap_Addr = V4 9, ap_Port = port\<rparr>,
      so_State = Established, so_User = 7, so_Owned = True, so_Inode = 0\<rparr>"

definition sample_listening :: "u16 \<Rightarrow> Socket" where
  "sample_listening port =
     \<lparr>so_Protocol = TCP, so_Local = \<lparr>ap_Addr = V4 0, ap_Port = port\<rparr>, so_Remote = \<lparr>ap_Addr = V4 0, ap_Port = 0\<rparr>,
      so_State = Listen, so_User = 7, so_Owned = True, so_Inode = 0\<rparr>"

definition sample_reading :: "Socket list \<Rightarrow> Reading" where
  "sample_reading socks =
     \<lparr>re_Boot = ''a'', re_Namespaces = [\<lparr>ns_Key = 4, ns_ID = [], ns_Own = True, ns_Host = True,
        ns_Through = \<lparr>pr_PID = 0, pr_Name = [], pr_StartedAt = zero_time\<rparr>, ns_Earliest = [], ns_Processes = 1,
        ns_Sockets = socks, ns_Failure = False\<rparr>],
      re_Hidden = False, re_Unvisited = False, re_Refused = 0, re_Skipped = 0, re_Holders = \<lambda>_. [], re_Unread = 0\<rparr>"

definition sample_talk :: "u16 \<Rightarrow> conversation" where
  "sample_talk port = \<lparr>cv_direction = Outbound, cv_protocol = TCP, cv_remote = V4 9, cv_port = port, cv_account = 7, cv_owned = True\<rparr>"

definition sample_comparing :: "bool \<Rightarrow> comparing" where
  "sample_comparing adopting = \<lparr>cp_now = 50, cp_adopting = adopting, cp_quiet = False, cp_ending = False, cp_complete = True, cp_left = 0,
     cp_untracked = 0, cp_at = 0, cp_changes = []\<rparr>"

lemmas view_defs = viewed_def see_listener_def see_socket_def saw_listener_def saw_flow_def bump_def Socket_Listening_def serving_def tuple_of_def
  talk_of_def inward_def listening_at_def no_listener_def new_flow_def held_by_all_def added_to_def Socket_StateName_def state_names_def
  Unmap_def IsUnspecified_def Is4_def Is6_def holding_of_def no_holder_def Let_def

lemmas compare_defs = compare_def held_spaces_def compare_read_def arrive_def merge_space_def track_def say_def ordered_keys_def sort_by_def
  byListening_def byConversation_def compare_then_def compare_on_def cmp_Compare_def addr_Compare_def addr_bits_def addr_zone_def BitLen_def
  protocol_order_def direction_order_def reading_whole_def space_match_def seen_again_def missed_again_def joined_def linger_def

lemmas sample_net = sample_texts_def sample_socket_def sample_listening_def sample_reading_def sample_comparing_def

definition sample_seen :: "net_state" where
  "sample_seen = fst (compare sample_texts 1 None (sample_reading [sample_listening 80, sample_socket 443]) (sample_comparing True))"

lemma sample_first:
  "List.map keys_of (st_spaces sample_seen)
    = [({\<lparr>lg_protocol = TCP, lg_address = V4 0, lg_port = 80\<rparr>}, {sample_talk 443})]"
  by (simp add: sample_seen_def sample_net view_defs compare_defs keys_of_def sample_talk_def)

definition sample_later :: "Reading" where
  "sample_later = sample_reading [sample_listening 81, sample_socket 22, sample_socket 443]"

definition sample_pair :: "net_state \<times> comparing" where
  "sample_pair = compare sample_texts 1 (Some sample_seen) sample_later (sample_comparing False)"

lemma sample_second:
  "List.map keys_of (st_spaces (fst sample_pair))
    = [({\<lparr>lg_protocol = TCP, lg_address = V4 0, lg_port = 81\<rparr>}, {sample_talk 22, sample_talk 443})]"
  "flows_held (st_spaces (fst sample_pair)) = 2"
  "length (cp_changes (snd sample_pair)) = 3"
  by (simp_all add: sample_pair_def sample_later_def sample_seen_def sample_net view_defs compare_defs differences_def keys_of_def sample_talk_def flows_held_def)

section \<open>Writing it down\<close>

definition sample_addr_text :: "addr \<Rightarrow> string" where
  "sample_addr_text a = (case a of No_addr \<Rightarrow> [] | V4 x \<Rightarrow> CHR ''4'' # FormatNat (unat x) | V6 x _ \<Rightarrow> CHR ''6'' # FormatNat (unat x))"

definition sample_addr_parse :: "string \<Rightarrow> addr option" where
  "sample_addr_parse s = (case s of [] \<Rightarrow> None | k # ds \<Rightarrow>
     Some (if k = CHR ''4'' then V4 (of_nat (digits_value ds)) else V6 (of_nat (digits_value ds)) []))"

definition blank_codec :: codec where
  "blank_codec = \<lparr>Marshal = \<lambda>w. [of_nat (length (sd_Namespaces w))], Unmarshal = \<lambda>_. None, Unmarshal_format = \<lambda>_. Some 1,
     Addr_String = sample_addr_text, ParseAddr = sample_addr_parse\<rparr>"

definition sample_codec :: codec where
  "sample_codec = blank_codec\<lparr>Unmarshal := \<lambda>_. Some (stored_of blank_codec (fst sample_pair))\<rparr>"

lemma sample_addresses: "addresses_ok sample_codec"
  by (auto simp: addresses_ok_def addr_plain_def sample_codec_def blank_codec_def sample_addr_text_def sample_addr_parse_def
      addr_zone_def digits_value_FormatNat split: addr.splits)

lemma sample_document: "document_ok sample_codec (stored_of sample_codec (fst sample_pair))"
proof -
  have "stored_of sample_codec s = stored_of blank_codec s" for s
    by (simp add: stored_of_def store_space_def store_listener_def store_flow_def sample_codec_def)
  then show ?thesis by (simp add: document_ok_def) (simp add: sample_codec_def blank_codec_def stored_of_def state_format_def)
qed

definition sample_collector :: collector where
  "sample_collector = new_collector\<lparr>co_held := Some sample_seen, co_whole := True\<rparr>"

definition sample_round :: "round_result \<times> (time \<times> change) list \<times> collector \<times> byte list option" where
  "sample_round = watch_round sample_texts sample_codec 1 False (Reads sample_later) 50 [1, 2, 3] True sample_collector None"

lemma sample_seen_wf: "wf_held (co_held sample_collector)" "\<forall>s. co_held sample_collector = Some s \<longrightarrow> st_spaces s \<noteq> []"
proof -
  have "\<forall>x \<in> set (st_spaces sample_seen). wf_space x"
    unfolding sample_seen_def by (rule compare_spec(1) [OF _ surjective_pairing]) (simp_all add: held_spaces_def sample_comparing_def)
  then show "wf_held (co_held sample_collector)" by (simp add: wf_held_def held_spaces_def sample_collector_def)
  show "\<forall>s. co_held sample_collector = Some s \<longrightarrow> st_spaces s \<noteq> []" using sample_first by (auto simp: sample_collector_def)
qed

lemma sample_compared:
  "compare sample_texts 1 (previous_of False sample_later sample_collector) sample_later (start_comparing False 50 sample_later sample_collector)
    = sample_pair"
proof -
  have "start_comparing False 50 sample_later sample_collector = sample_comparing False"
    by (simp add: start_comparing_def sample_comparing_def sample_collector_def sample_later_def sample_reading_def)
  then show ?thesis by (simp add: previous_of_def sample_collector_def sample_pair_def)
qed

lemma sample_round_runs:
  "\<exists>out c' content. sample_round = (Goes_on_watching, out, c', Some content) \<and> co_held c' = Some (fst sample_pair)"
proof -
  obtain res out c' disk' where r: "sample_round = (res, out, c', disk')" by (metis prod_cases4)
  note f = round_reads [OF r [unfolded sample_round_def]]
  have "res = Goes_on_watching"
    using r by (auto simp: sample_round_def watch_round_def Let_def withholding_def split: prod.splits if_splits)
  moreover have "co_written sample_collector = None" by (simp add: sample_collector_def new_collector_def)
  moreover obtain held compared where p: "sample_pair = (held, compared)" "co_held c' = Some held"
      "res = Goes_on_watching \<longrightarrow> (if co_written sample_collector = Some (encode_state sample_codec held) then disk' = None
         else disk' = Some (encode_state sample_codec held @ [10]))"
    using f unfolding sample_compared by blast
  ultimately have "disk' = Some (encode_state sample_codec (fst sample_pair) @ [10])" "co_held c' = Some (fst sample_pair)"
    by (simp_all add: p(1))
  then show ?thesis using r \<open>res = Goes_on_watching\<close> by blast
qed

lemma sample_fits: "state_fits sample_codec 2 (fst sample_pair)"
proof -
  have "length (encode_state sample_codec (fst sample_pair) @ [10]) \<le> maxState" "int (flows_held (st_spaces (fst sample_pair))) \<le> 2"
    using sample_second(2) by (simp_all add: encode_state_def sample_codec_def blank_codec_def maxState_def)
  then show ?thesis
    unfolding state_fits_def
    by (simp add: sample_pair_def sample_later_def sample_seen_def sample_net view_defs compare_defs differences_def space_fits_def
        listener_fits_def flow_fits_def holder_fits_def addr_plain_def zero_time_def maxNamespaces_def maxStateText_def maxHolders_def
        maxListeners_def maxStateStates_def)
qed

section \<open>A flow missed\<close>

definition sample_view :: "space \<times> comparing" where
  "sample_view = (viewed sample_texts (hd (re_Namespaces (sample_reading [sample_socket 443]))) (\<lambda>_. []) True [] 50,
     (sample_comparing False)\<lparr>cp_left := 5\<rparr>)"

definition sample_void :: "space \<times> comparing" where
  "sample_void = (viewed sample_texts (hd (re_Namespaces (sample_reading []))) (\<lambda>_. []) True [] 60, (sample_comparing False)\<lparr>cp_left := 5\<rparr>)"

definition sample_blank :: space where "sample_blank = fst sample_void"

lemma sample_roomy:
  "roomy sample_view" "roomy sample_void" "wf_space sample_blank" "sc_flows sample_blank = []"
  "seen_in (sample_talk 443) sample_view" "\<not> seen_in (sample_talk 443) sample_void"
proof -
  have f: "fst ` set (sc_flows (fst sample_view)) = {sample_talk 443}" "length (sc_flows (fst sample_view)) = 1" "sc_flows (fst sample_void) = []"
    by (simp_all add: sample_view_def sample_void_def sample_net view_defs sample_talk_def)
  then show "seen_in (sample_talk 443) sample_view" "\<not> seen_in (sample_talk 443) sample_void" "sc_flows sample_blank = []"
    by (simp_all add: seen_in_def sample_blank_def)
  show "roomy sample_view" "roomy sample_void" "wf_space sample_blank"
    using f viewed_wf(1) by (auto simp: roomy_def sample_view_def sample_void_def sample_comparing_def sample_blank_def fresh_flow_def)
qed

end
