(* ===== verification/Walk.thy ===== *)
theory Walk
  imports Frame
begin

text \<open>
  The recovery walk of \<open>internal/spool/frame.go\<close>: \<open>walk\<close> and its \<open>next\<close>,
  \<open>header\<close>, \<open>body\<close> and \<open>seek\<close>, and \<open>torn\<close>. A walk is passed as a value and
  returned updated. Its buffer is scratch space every caller makes \<open>chunkBytes\<close> long,
  so it is the constant here, and what was read into it is a value.
\<close>

record walk =
  walk_file :: reader
  walk_stream :: stream
  walk_at :: nat
  walk_end :: nat
  walk_headed :: u64

definition newWalk :: "reader \<Rightarrow> stream \<Rightarrow> nat \<Rightarrow> nat \<Rightarrow> walk" where
  "newWalk f s a e =
     \<lparr>walk_file = f, walk_stream = s, walk_at = a, walk_end = e, walk_headed = 0\<rparr>"

datatype reading = Verified | HeaderOnly | Kept

section \<open>Seeking the next magic\<close>

text \<open>\<open>bytes.Index\<close>: where the separator first occurs.\<close>

fun bytes_Index :: "byte list \<Rightarrow> byte list \<Rightarrow> nat option" where
  "bytes_Index [] sep = (if sep = [] then Some 0 else None)"
| "bytes_Index (b # s) sep =
     (if take (length sep) (b # s) = sep then Some 0 else map_option Suc (bytes_Index s sep))"

function seek_from :: "reader \<Rightarrow> nat \<Rightarrow> nat \<Rightarrow> error + nat" where
  "seek_from f frm e =
     (if length frameMagic \<le> e - frm then
        let n = min chunkBytes (e - frm)
        in case ReadAt f n frm of
             (_, Some err) \<Rightarrow> Inl err
           | (chunk, None) \<Rightarrow>
               (case bytes_Index chunk frameMagic of
                  Some found \<Rightarrow> Inr (frm + found)
                | None \<Rightarrow> seek_from f (frm + (n - length frameMagic + 1)) e)
      else Inr e)"
  by pat_completeness auto
termination
  by (relation "measure (\<lambda>(f, frm, e). e - frm)") auto

definition walk_seek :: "walk \<Rightarrow> error option \<times> walk" where
  "walk_seek w =
     (case seek_from (walk_file w) (walk_at w + 1) (walk_end w) of
        Inl err \<Rightarrow> (Some err, w)
      | Inr found \<Rightarrow> (None, w\<lparr>walk_at := found\<rparr>))"

declare seek_from.simps [simp del]

text \<open>Where the file holds the magic of a frame.\<close>

definition magic_at :: "byte list \<Rightarrow> nat \<Rightarrow> bool" where
  "magic_at bs i \<longleftrightarrow> take (length frameMagic) (drop i bs) = frameMagic"

lemma bytes_Index_Some:
  "bytes_Index s sep = Some i \<Longrightarrow>
     i \<le> length s \<and> take (length sep) (drop i s) = sep
     \<and> (\<forall>j < i. take (length sep) (drop j s) \<noteq> sep)"
proof (induction s sep arbitrary: i rule: bytes_Index.induct)
  case (2 b s sep)
  then show ?case
    by (cases i) (auto simp: less_Suc_eq_0_disj split: if_splits)
qed (auto split: if_splits)

lemma bytes_Index_None:
  "bytes_Index s sep = None \<Longrightarrow> take (length sep) (drop j s) \<noteq> sep"
proof (induction s sep arbitrary: j rule: bytes_Index.induct)
  case (2 b s sep)
  then show ?case
    by (cases j) (auto split: if_splits)
qed (auto split: if_splits)

lemma magic_in_chunk:
  assumes "chunk = take n (drop frm bs)" "length chunk = n"
  shows "take (length frameMagic) (drop j chunk) = frameMagic \<longleftrightarrow> j + 2 \<le> n \<and> magic_at bs (frm + j)"
proof (cases "j + 2 \<le> n")
  case True
  then have "take 2 (drop j chunk) = take 2 (drop (frm + j) bs)"
    by (simp add: assms(1) drop_take min_absorb1 add.commute)
  with True show ?thesis by (simp add: magic_at_def)
next
  case False
  then have "length (take 2 (drop j chunk)) \<noteq> length frameMagic"
    using assms(2) by simp
  then have "take 2 (drop j chunk) \<noteq> frameMagic" by metis
  with False show ?thesis by simp
qed

lemma seek_from_found:
  "seek_from f frm e = Inr p \<Longrightarrow> frm \<le> e \<Longrightarrow>
     frm \<le> p \<and> p \<le> e \<and> (p \<noteq> e \<longrightarrow> p + 2 \<le> e \<and> magic_at (content f) p)
     \<and> (\<forall>j. frm \<le> j \<and> j < p \<and> j + 2 \<le> e \<longrightarrow> \<not> magic_at (content f) j)"
proof (induction f frm e rule: seek_from.induct)
  case (1 f frm e)
  define n where "n = min chunkBytes (e - frm)"
  show ?case
  proof (cases "2 \<le> e - frm")
    case False
    with "1.prems" show ?thesis by (subst (asm) seek_from.simps) auto
  next
    case True
    then have n: "2 \<le> n" "n \<le> e - frm" by (simp_all add: n_def)
    have unfolded: "(case ReadAt f n frm of (_, Some err) \<Rightarrow> Inl err
        | (chunk, None) \<Rightarrow> (case bytes_Index chunk frameMagic of
             Some found \<Rightarrow> Inr (frm + found)
           | None \<Rightarrow> seek_from f (frm + (n - length frameMagic + 1)) e)) = Inr p"
      using "1.prems"(1) True unfolding n_def by (subst (asm) seek_from.simps) (simp add: Let_def)
    then obtain chunk where chunk: "ReadAt f n frm = (chunk, None)"
      by (auto split: prod.splits option.splits)
    have c: "chunk = take n (drop frm (content f))" "length chunk = n"
      using ReadAt_whole [OF chunk] by auto
    have here: "magic_at (content f) j \<longleftrightarrow> take 2 (drop (j - frm) chunk) = frameMagic"
      if "frm \<le> j" "j - frm + 2 \<le> n" for j
      using magic_in_chunk [OF c, of "j - frm"] that by simp
    show ?thesis
    proof (cases "bytes_Index chunk frameMagic")
      case (Some i)
      then have p: "p = frm + i" using unfolded chunk by simp
      have i: "i + 2 \<le> n" "magic_at (content f) p"
        using bytes_Index_Some [OF Some] magic_in_chunk [OF c, of i] p by auto
      have "\<not> magic_at (content f) j" if j: "frm \<le> j" "j < p" for j
      proof -
        have "j - frm < i" "j - frm + 2 \<le> n" using j p i(1) by linarith+
        with j(1) show ?thesis using bytes_Index_Some [OF Some] here [of j] by auto
      qed
      with i n p show ?thesis by auto
    next
      case None
      have rest: "seek_from f (frm + (n - 2 + 1)) e = Inr p" "frm + (n - 2 + 1) \<le> e"
        using unfolded chunk None "1.prems"(2) n by simp_all
      have later: "frm + (n - 2 + 1) \<le> p \<and> p \<le> e \<and> (p \<noteq> e \<longrightarrow> p + 2 \<le> e \<and> magic_at (content f) p)
          \<and> (\<forall>j. frm + (n - 2 + 1) \<le> j \<and> j < p \<and> j + 2 \<le> e \<longrightarrow> \<not> magic_at (content f) j)"
        using "1.IH" [OF _ n_def chunk [symmetric] refl None] True rest by simp
      have "\<not> magic_at (content f) j" if j: "frm \<le> j" "j < frm + (n - 2 + 1)" for j
      proof -
        have "j - frm + 2 \<le> n" using j n by linarith
        with j(1) show ?thesis using bytes_Index_None [OF None, of "j - frm"] here [of j] by simp
      qed
      with later show ?thesis by (meson add_leE linorder_not_less)
    qed
  qed
qed

lemma seek_from_sound:
  "sound_file f \<Longrightarrow> e \<le> length (content f) \<Longrightarrow> \<exists>p. seek_from f frm e = Inr p"
proof (induction f frm e rule: seek_from.induct)
  case (1 f frm e)
  show ?case
  proof (cases "2 \<le> e - frm")
    case True
    then have read: "ReadAt f (min chunkBytes (e - frm)) frm
        = (take (min chunkBytes (e - frm)) (drop frm (content f)), None)"
      using "1.prems" by (intro ReadAt_sound) auto
    show ?thesis
      by (subst seek_from.simps)
        (use "1.IH" [OF _ refl read [symmetric] refl] "1.prems" read True in
          \<open>auto simp: Let_def split: option.splits\<close>)
  qed (simp add: seek_from.simps)
qed

section \<open>Reading a frame\<close>

definition walk_header :: "walk \<Rightarrow> error + frame option" where
  "walk_header w =
     (if walk_end w - walk_at w < frameHeaderBytes then Inr None
      else case ReadAt (walk_file w) frameHeaderBytes (walk_at w) of
             (_, Some err) \<Rightarrow> Inl err
           | (header, None) \<Rightarrow> Inr (decodeFrameHeader (walk_stream w) header (walk_at w)))"

text \<open>The checksum of a stretch of the file, a chunk at a time.\<close>

function body_sum :: "reader \<Rightarrow> nat \<Rightarrow> nat \<Rightarrow> u32 \<Rightarrow> error + u32" where
  "body_sum f a len acc =
     (if len > 0 then
        let n = min chunkBytes len
        in case ReadAt f n a of
             (_, Some err) \<Rightarrow> Inl err
           | (chunk, None) \<Rightarrow> body_sum f (a + n) (len - n) (crc_Update acc chunk)
      else Inr acc)"
  by pat_completeness auto
termination
  by (relation "measure (\<lambda>(f, a, len, acc). len)") auto

declare body_sum.simps [simp del]

definition walk_body :: "walk \<Rightarrow> frame \<Rightarrow> bool \<Rightarrow> error + byte list \<times> bool" where
  "walk_body w found keep =
     (let a = offset found + frameHeaderBytes; len = idBytes found + payload found
      in if keep then
           (case ReadAt (walk_file w) len a of
              (_, Some err) \<Rightarrow> Inl err
            | (body, None) \<Rightarrow> Inr (body, checksum body = frame_sum found))
         else
           (case body_sum (walk_file w) a len 0 of
              Inl err \<Rightarrow> Inl err
            | Inr acc \<Rightarrow> Inr ([], acc = frame_sum found)))"

text \<open>
  What \<open>next\<close> returns: a frame, what was read of its body and the bytes stepped over
  before it, or the error it stopped on (\<open>io.EOF\<close> at the end of the walk) and the bytes
  stepped over.
\<close>

datatype next_result =
    Found frame "byte list" nat
  | Stopped nat error

text \<open>How much of a frame is read: its body, unless only its header is asked for.\<close>

definition mode_of :: "(frame \<Rightarrow> reading) option \<Rightarrow> frame \<Rightarrow> reading" where
  "mode_of mode f = (case mode of None \<Rightarrow> Verified | Some m \<Rightarrow> m f)"

definition walk_read :: "(frame \<Rightarrow> reading) option \<Rightarrow> walk \<Rightarrow> frame \<Rightarrow> error + byte list \<times> bool" where
  "walk_read mode w found =
     (let read = mode_of mode found
      in if read \<noteq> HeaderOnly then walk_body w found (read = Kept) else Inr ([], True))"

function next_from ::
  "(frame \<Rightarrow> reading) option \<Rightarrow> nat \<Rightarrow> walk \<Rightarrow> next_result \<times> walk" where
  "next_from mode start w =
     (if walk_at w < walk_end w then
        case walk_header w of
          Inl err \<Rightarrow> (Stopped 0 err, w)
        | Inr None \<Rightarrow>
            (case walk_seek w of
               (Some err, w') \<Rightarrow> (Stopped 0 err, w')
             | (None, w') \<Rightarrow> next_from mode start w')
        | Inr (Some found) \<Rightarrow>
            if frame_size found > walk_end w - walk_at w then
              (Stopped (walk_end w - start) [EOF],
               w\<lparr>walk_headed := max (walk_headed w) (sequence found), walk_at := walk_end w\<rparr>)
            else
              (case walk_read mode w found of
                 Inl err \<Rightarrow> (Stopped 0 err, w)
               | Inr (body, valid) \<Rightarrow>
                   if \<not> valid then
                     next_from mode start
                       (w\<lparr>walk_at := walk_at w + frame_size found,
                          walk_headed := max (walk_headed w) (sequence found)\<rparr>)
                   else
                     (Found found body (offset found - start),
                      w\<lparr>walk_at := walk_at w + frame_size found\<rparr>))
      else (Stopped (walk_end w - start) [EOF], w))"
  by pat_completeness auto
termination
  by (relation "measure (\<lambda>(mode, start, w). walk_end w - walk_at w)")
    (auto simp: walk_seek_def frame_size_def split: sum.splits dest!: seek_from_found)

declare next_from.simps [simp del]

definition walk_next :: "(frame \<Rightarrow> reading) option \<Rightarrow> walk \<Rightarrow> next_result \<times> walk" where
  "walk_next mode w = next_from mode (walk_at w) (w\<lparr>walk_headed := 0\<rparr>)"

section \<open>Interrupted writes\<close>

definition zeroed :: "byte list \<Rightarrow> bool" where
  "zeroed bs = list_all (\<lambda>held. held = 0) bs"

fun zeroed_sector :: "byte list \<Rightarrow> bool" where
  "zeroed_sector [] = False"
| "zeroed_sector (b # bs) =
     (zeroed (take sectorBytes (b # bs)) \<or> zeroed_sector (drop sectorBytes (b # bs)))"

function torn_sectors :: "reader \<Rightarrow> nat \<Rightarrow> nat \<Rightarrow> error + bool" where
  "torn_sectors f a limit =
     (if a + sectorBytes \<le> limit then
        let n = min ((limit - a) div sectorBytes * sectorBytes) chunkBytes
        in case ReadAt f n a of
             (_, Some err) \<Rightarrow> Inl err
           | (chunk, None) \<Rightarrow>
               if zeroed_sector chunk then Inr True else torn_sectors f (a + n) limit
      else Inr False)"
  by pat_completeness auto
termination
  by (relation "measure (\<lambda>(f, a, limit). limit - a)") (auto simp: div_greater_zero_iff)

declare torn_sectors.simps [simp del]

definition torn :: "reader \<Rightarrow> stream \<Rightarrow> nat \<Rightarrow> nat \<Rightarrow> error + bool" where
  "torn f s frm e =
     (if e - frm < frameHeaderBytes then Inr True
      else case ReadAt f frameHeaderBytes frm of
             (_, Some err) \<Rightarrow> Inl err
           | (header, None) \<Rightarrow>
               (let start = (frm + sectorBytes - 1) div sectorBytes * sectorBytes
                in case decodeFrameHeader s header frm of
                     None \<Rightarrow> torn_sectors f start e
                   | Some found \<Rightarrow>
                       if frame_size found > e - frm then Inr True
                       else torn_sectors f start (frm + frame_size found)))"

section \<open>What a walk returns\<close>

text \<open>The bytes of a frame's body, and what verifying one means.\<close>

definition body_bytes :: "byte list \<Rightarrow> frame \<Rightarrow> byte list" where
  "body_bytes bs f = take (idBytes f + payload f) (drop (offset f + frameHeaderBytes) bs)"

definition headed_at :: "stream \<Rightarrow> byte list \<Rightarrow> frame \<Rightarrow> bool" where
  "headed_at s bs f \<longleftrightarrow>
     offset f + frameHeaderBytes \<le> length bs
     \<and> decodeFrameHeader s (take frameHeaderBytes (drop (offset f) bs)) (offset f) = Some f"

lemma body_sum_eq:
  "body_sum f a len acc = Inr r \<Longrightarrow>
     r = crc_Update acc (take len (drop a (content f)))"
proof (induction f a len acc rule: body_sum.induct)
  case (1 f a len acc)
  define n where "n = min chunkBytes len"
  show ?case
  proof (cases "len > 0")
    case True
    then have unfolded: "(case ReadAt f n a of (_, Some err) \<Rightarrow> Inl err
        | (chunk, None) \<Rightarrow> body_sum f (a + n) (len - n) (crc_Update acc chunk)) = Inr r"
      using "1.prems" unfolding n_def by (subst (asm) body_sum.simps) (simp add: Let_def)
    then obtain chunk where chunk: "ReadAt f n a = (chunk, None)"
      by (auto split: prod.splits option.splits)
    have "r = crc_Update (crc_Update acc chunk) (take (len - n) (drop (a + n) (content f)))"
      using "1.IH" [OF True n_def chunk [symmetric] refl] unfolded chunk by simp
    moreover have "chunk @ take (len - n) (drop (a + n) (content f)) = take len (drop a (content f))"
      using ReadAt_whole [OF chunk] take_add [of n "len - n" "drop a (content f)"]
      by (simp add: n_def add.commute)
    ultimately show ?thesis by (simp add: crc_Update_append)
  qed (use "1.prems" in \<open>simp add: body_sum.simps\<close>)
qed

lemma body_sum_sound:
  "sound_file f \<Longrightarrow> a + len \<le> length (content f) \<Longrightarrow> \<exists>r. body_sum f a len acc = Inr r"
proof (induction f a len acc rule: body_sum.induct)
  case (1 f a len acc)
  then have read: "ReadAt f (min chunkBytes len) a = (take (min chunkBytes len) (drop a (content f)), None)"
    by (intro ReadAt_sound) auto
  show ?case
    by (subst body_sum.simps) (use "1.IH" [OF _ refl read [symmetric] refl] "1.prems" read in \<open>auto simp: Let_def\<close>)
qed

lemma walk_body_Inr:
  assumes "walk_body w f keep = Inr (body, ok)"
  shows "ok \<longleftrightarrow> checksum (body_bytes (content (walk_file w)) f) = frame_sum f"
    and "keep \<Longrightarrow> body = body_bytes (content (walk_file w)) f"
    and "\<not> keep \<Longrightarrow> body = []"
  using assms
  by (auto simp: walk_body_def Let_def body_bytes_def checksum_def
      split: if_splits prod.splits option.splits sum.splits dest!: ReadAt_whole body_sum_eq)

lemma walk_read_Inr:
  assumes "walk_read mode w f = Inr (body, ok)"
  shows "mode_of mode f \<noteq> HeaderOnly \<Longrightarrow>
      ok \<longleftrightarrow> checksum (body_bytes (content (walk_file w)) f) = frame_sum f"
    and "body = (if mode_of mode f = Kept then body_bytes (content (walk_file w)) f else [])"
  using assms walk_body_Inr [of w f "mode_of mode f = Kept" body ok]
  by (auto simp: walk_read_def Let_def split: if_splits)

lemma walk_header_Inr:
  assumes "walk_header w = Inr (Some f)"
  shows "offset f = walk_at w" "headed_at (walk_stream w) (content (walk_file w)) f"
proof -
  obtain h where h: "ReadAt (walk_file w) frameHeaderBytes (walk_at w) = (h, None)"
    "decodeFrameHeader (walk_stream w) h (walk_at w) = Some f"
    using assms by (auto simp: walk_header_def split: if_splits prod.splits option.splits)
  show o: "offset f = walk_at w"
    using decodeFrameHeader_SomeD(4) [OF h(2)] by simp
  show "headed_at (walk_stream w) (content (walk_file w)) f"
    using h ReadAt_whole [OF h(1)] by (simp add: headed_at_def o)
qed

lemma walk_seek_None:
  assumes "walk_seek w = (None, w')" "walk_at w < walk_end w"
  shows "\<exists>p. w' = w\<lparr>walk_at := p\<rparr> \<and> walk_at w < p \<and> p \<le> walk_end w
     \<and> (\<forall>j. walk_at w < j \<and> j < p \<and> j + 2 \<le> walk_end w \<longrightarrow> \<not> magic_at (content (walk_file w)) j)"
  using assms seek_from_found [of "walk_file w" "walk_at w + 1" "walk_end w"]
  by (fastforce simp: walk_seek_def split: sum.splits)

text \<open>One turn of the loop of \<open>next\<close>.\<close>

lemma next_from_cases:
  obtains
    (stopped) k err v where "next_from mode start w = (Stopped k err, v)"
  | (sought) v where "walk_at w < walk_end w" "walk_header w = Inr None" "walk_seek w = (None, v)"
      "next_from mode start w = next_from mode start v"
  | (bad) f b where "walk_at w < walk_end w" "walk_header w = Inr (Some f)"
      "frame_size f \<le> walk_end w - walk_at w" "walk_read mode w f = Inr (b, False)"
      "next_from mode start w = next_from mode start (w\<lparr>walk_at := walk_at w + frame_size f,
         walk_headed := max (walk_headed w) (sequence f)\<rparr>)"
  | (good) f b where "walk_at w < walk_end w" "walk_header w = Inr (Some f)"
      "frame_size f \<le> walk_end w - walk_at w" "walk_read mode w f = Inr (b, True)"
      "next_from mode start w =
         (Found f b (offset f - start), w\<lparr>walk_at := walk_at w + frame_size f\<rparr>)"
proof (cases "walk_at w < walk_end w")
  case False
  then show thesis using stopped by (simp add: next_from.simps)
next
  case True
  show thesis
  proof (cases "walk_header w")
    case (Inl e)
    with True show thesis using stopped by (simp add: next_from.simps)
  next
    case (Inr found)
    show thesis
    proof (cases found)
      case None
      obtain err v where seek: "walk_seek w = (err, v)" by fastforce
      with True Inr None show thesis using stopped sought
        by (cases err) (simp_all add: next_from.simps [of mode start w])
    next
      case (Some f)
      note here = True Inr Some next_from.simps [of mode start w]
      show thesis
      proof (cases "walk_read mode w f")
        case (Inl e)
        with here show thesis using stopped by (cases "frame_size f > walk_end w - walk_at w") simp_all
      next
        case (Inr r)
        with here show thesis using stopped bad good
          by (cases r; cases "snd r"; cases "frame_size f > walk_end w - walk_at w") simp_all
      qed
    qed
  qed
qed

text \<open>
  Whatever a walk returns lies wholly between where it stood and its end, decodes at its
  offset, and, unless only its header was asked for, matches its checksum.
\<close>

lemma next_from_Found:
  "next_from mode start w = (Found f body skipped, w') \<Longrightarrow>
     walk_at w \<le> offset f \<and> offset f + frame_size f \<le> walk_end w
     \<and> walk_at w' = offset f + frame_size f \<and> skipped = offset f - start
     \<and> walk_file w' = walk_file w \<and> walk_stream w' = walk_stream w \<and> walk_end w' = walk_end w
     \<and> headed_at (walk_stream w) (content (walk_file w)) f
     \<and> (mode_of mode f \<noteq> HeaderOnly \<longrightarrow>
          checksum (body_bytes (content (walk_file w)) f) = frame_sum f)
     \<and> body = (if mode_of mode f = Kept then body_bytes (content (walk_file w)) f else [])"
proof (induction "walk_end w - walk_at w" arbitrary: w rule: less_induct)
  case less
  show ?case
  proof (cases rule: next_from_cases [of mode start w])
    case (sought v)
    then show ?thesis
      using walk_seek_None [OF sought(3,1)] less.hyps [of v] less.prems by fastforce
  next
    case (bad g b)
    let ?v = "w\<lparr>walk_at := walk_at w + frame_size g, walk_headed := max (walk_headed w) (sequence g)\<rparr>"
    have "walk_end ?v - walk_at ?v < walk_end w - walk_at w"
      using bad by (simp add: frame_size_def)
    from less.hyps [OF this] bad less.prems show ?thesis by auto
  next
    case (good g b)
    then show ?thesis
      using walk_header_Inr [OF good(2)] walk_read_Inr [OF good(4)] less.prems by auto
  qed (use less.prems in auto)
qed

section \<open>Verified frames are written frames\<close>

lemma frame_bytes_of_verified:
  assumes h: "headed_at s bs f" and sum: "checksum (body_bytes bs f) = frame_sum f"
    and fits: "offset f + frame_size f \<le> length bs"
  defines "ident \<equiv> take (idBytes f) (body_bytes bs f)"
    and "pl \<equiv> drop (idBytes f) (body_bytes bs f)"
  shows "take (frame_size f) (drop (offset f) bs) = frameBytes s (sequence f) (admitted f) ident pl"
    and "writable (sequence f) (admitted f) ident pl"
    and "body_bytes bs f = ident @ pl"
proof -
  let ?h = "take frameHeaderBytes (drop (offset f) bs)"
  have len: "length ?h = 32" "length ident = idBytes f" "length pl = payload f"
    using h fits by (simp_all add: headed_at_def ident_def pl_def body_bytes_def frame_size_def)
  have sum': "checksum (ident @ pl) = frame_sum f"
    using sum by (simp add: ident_def pl_def)
  have dec: "decodeFrameHeader s ?h (offset f) = Some f"
    using h by (simp add: headed_at_def)
  note enc = encode_decode_frame_header [OF len(1) dec len(2,3) sum']
  show "writable (sequence f) (admitted f) ident pl" by (rule enc(2))
  show b: "body_bytes bs f = ident @ pl" by (simp add: ident_def pl_def)
  have "take (frame_size f) (drop (offset f) bs) = ?h @ body_bytes bs f"
    using take_add [of frameHeaderBytes "idBytes f + payload f" "drop (offset f) bs"]
    by (simp add: frame_size_def body_bytes_def add.assoc add.commute [of _ "offset f"])
  then show "take (frame_size f) (drop (offset f) bs) = frameBytes s (sequence f) (admitted f) ident pl"
    by (simp add: frameBytes_def enc(1) b)
qed

section \<open>Stepping over damage\<close>

text \<open>What a walk knows of a record that lies intact at an offset.\<close>

definition frame_of :: "nat \<Rightarrow> u64 \<Rightarrow> int \<Rightarrow> byte list \<Rightarrow> byte list \<Rightarrow> frame" where
  "frame_of off seq adm ident pl =
     \<lparr>offset = off, sequence = seq, admitted = adm, idBytes = length ident,
      payload = length pl, frame_sum = checksum (ident @ pl)\<rparr>"

definition intact_at :: "stream \<Rightarrow> byte list \<Rightarrow> nat \<Rightarrow> u64 \<Rightarrow> int \<Rightarrow> byte list \<Rightarrow> byte list \<Rightarrow> bool" where
  "intact_at s bs p seq adm ident pl \<longleftrightarrow>
     writable seq adm ident pl
     \<and> take (length (frameBytes s seq adm ident pl)) (drop p bs) = frameBytes s seq adm ident pl"

lemma frame_size_frame_of [simp]:
  "frame_size (frame_of off seq adm ident pl) = length (frameBytes s seq adm ident pl)"
  by (simp add: frame_size_def frame_of_def)

lemma intact_slices:
  assumes "intact_at s bs p seq adm ident pl"
  shows "take frameHeaderBytes (drop p bs) = encodeFrameHeader s seq adm ident pl"
    and "body_bytes bs (frame_of p seq adm ident pl) = ident @ pl"
    and "p + length (frameBytes s seq adm ident pl) \<le> length bs"
    and "magic_at bs p"
proof -
  let ?F = "frameBytes s seq adm ident pl"
  have F: "take (length ?F) (drop p bs) = ?F" using assms by (simp add: intact_at_def)
  have "take frameHeaderBytes (drop p bs) = take frameHeaderBytes (take (length ?F) (drop p bs))"
    by (simp add: min_def)
  then show h: "take frameHeaderBytes (drop p bs) = encodeFrameHeader s seq adm ident pl"
    by (simp only: F) (simp add: frameBytes_def)
  have "take (length ident + length pl) (drop frameHeaderBytes (drop p bs))
      = drop frameHeaderBytes (take (length ?F) (drop p bs))"
    by (simp add: drop_take)
  then show "body_bytes bs (frame_of p seq adm ident pl) = ident @ pl"
    by (simp only: F) (simp add: body_bytes_def frame_of_def frameBytes_def add.commute)
  have "length (take (length ?F) (drop p bs)) = length ?F" by (simp only: F)
  moreover have "0 < length ?F" by simp
  ultimately show "p + length ?F \<le> length bs" by (simp add: min_def split: if_splits)
  have "take 2 (drop p bs) = take 2 (take frameHeaderBytes (drop p bs))" by (simp add: min_def)
  also have "\<dots> = frameMagic"
    by (simp only: h) (simp add: encodeFrameHeader_def Let_def append_defs frameMagic_def)
  finally show "magic_at bs p" by (simp add: magic_at_def)
qed

lemma walk_header_intact:
  assumes "intact_at (walk_stream w) (content (walk_file w)) (walk_at w) seq adm ident pl"
    and "sound_file (walk_file w)" "walk_end w \<le> length (content (walk_file w))"
    and "walk_at w + length (frameBytes (walk_stream w) seq adm ident pl) \<le> walk_end w"
  shows "walk_header w = Inr (Some (frame_of (walk_at w) seq adm ident pl))"
    and "walk_read mode w (frame_of (walk_at w) seq adm ident pl)
      = Inr (if mode_of mode (frame_of (walk_at w) seq adm ident pl) = Kept then ident @ pl else [], True)"
proof -
  let ?f = "frame_of (walk_at w) seq adm ident pl"
  note i = intact_slices [OF assms(1)]
  have "ReadAt (walk_file w) frameHeaderBytes (walk_at w) = (encodeFrameHeader (walk_stream w) seq adm ident pl, None)"
    using assms by (subst ReadAt_sound) (simp_all add: i(1))
  then show "walk_header w = Inr (Some ?f)"
    using assms decode_encode_frame_header [of seq adm ident pl "walk_stream w" "walk_at w"]
    by (simp add: walk_header_def intact_at_def frame_of_def)
  have room: "offset ?f + frameHeaderBytes + (idBytes ?f + payload ?f) \<le> length (content (walk_file w))"
    using assms by (simp add: frame_of_def)
  have sum: "checksum (body_bytes (content (walk_file w)) ?f) = frame_sum ?f"
    by (simp add: i(2)) (simp add: frame_of_def)
  have "\<exists>b ok. walk_body w ?f keep = Inr (b, ok)" for keep
    using ReadAt_sound [OF assms(2) room] body_sum_sound [OF assms(2) room, of 0]
    by (auto simp: walk_body_def Let_def)
  then have "walk_body w ?f keep = Inr (if keep then ident @ pl else [], True)" for keep
    using walk_body_Inr [of w ?f keep] sum i(2) by (metis (full_types))
  then show "walk_read mode w ?f = Inr (if mode_of mode ?f = Kept then ident @ pl else [], True)"
    by (simp add: walk_read_def Let_def)
qed

text \<open>
  A walk that stands before an intact record, with no header that verifies in between,
  returns that record next and says how much it stepped over.
\<close>

lemma next_from_resync:
  assumes "sound_file (walk_file w)" "walk_end w \<le> length (content (walk_file w))"
    and "intact_at (walk_stream w) (content (walk_file w)) p seq adm ident pl"
    and "walk_at w \<le> p" "p + length (frameBytes (walk_stream w) seq adm ident pl) \<le> walk_end w"
    and "\<And>j. walk_at w \<le> j \<Longrightarrow> j < p \<Longrightarrow>
      decodeFrameHeader (walk_stream w) (take frameHeaderBytes (drop j (content (walk_file w)))) j = None"
  shows "next_from mode start w =
     (Found (frame_of p seq adm ident pl)
        (if mode_of mode (frame_of p seq adm ident pl) = Kept then ident @ pl else []) (p - start),
      w\<lparr>walk_at := p + length (frameBytes (walk_stream w) seq adm ident pl)\<rparr>)"
  using assms
proof (induction "walk_end w - walk_at w" arbitrary: w rule: less_induct)
  case less
  let ?bs = "content (walk_file w)"
  show ?case
  proof (cases "walk_at w = p")
    case True
    then have here: "intact_at (walk_stream w) ?bs (walk_at w) seq adm ident pl"
      "walk_at w + length (frameBytes (walk_stream w) seq adm ident pl) \<le> walk_end w"
      using less.prems by auto
    note h = walk_header_intact [OF here(1) less.prems(1,2) here(2)]
    have "walk_at w < walk_end w" using here(2) by simp
    then show ?thesis
      using True here h(1) h(2) [of mode]
      by (subst next_from.simps) (simp add: frame_of_def [of _ _ _ ident] frame_size_def)
  next
    case False
    then have lt: "walk_at w < p" "walk_at w < walk_end w" using less.prems by auto
    have "ReadAt (walk_file w) frameHeaderBytes (walk_at w) = (take frameHeaderBytes (drop (walk_at w) ?bs), None)"
      using less.prems lt by (intro ReadAt_sound) auto
    then have none: "walk_header w = Inr None"
      using less.prems(6) [of "walk_at w"] lt by (simp add: walk_header_def)
    obtain v where v: "walk_seek w = (None, v)"
      using seek_from_sound [OF less.prems(1,2), of "walk_at w + 1"] by (auto simp: walk_seek_def)
    obtain q where q: "v = w\<lparr>walk_at := q\<rparr>" "walk_at w < q" "q \<le> walk_end w"
      "\<forall>j. walk_at w < j \<and> j < q \<and> j + 2 \<le> walk_end w \<longrightarrow> \<not> magic_at ?bs j"
      using walk_seek_None [OF v lt(2)] by blast
    have "p + 2 \<le> walk_end w" using less.prems(5) by simp
    then have "q \<le> p"
      using q(4) intact_slices(4) [OF less.prems(3)] lt(1) linorder_not_less by blast
    have "next_from mode start w = next_from mode start v"
      using lt none v by (subst next_from.simps) simp
    also have "\<dots> = (Found (frame_of p seq adm ident pl)
        (if mode_of mode (frame_of p seq adm ident pl) = Kept then ident @ pl else []) (p - start),
      v\<lparr>walk_at := p + length (frameBytes (walk_stream v) seq adm ident pl)\<rparr>)"
      using less.prems q \<open>q \<le> p\<close> lt by (intro less.hyps) auto
    finally show ?thesis by (simp add: q(1))
  qed
qed

section \<open>What counts as torn\<close>

definition zero_sector :: "byte list \<Rightarrow> nat \<Rightarrow> nat \<Rightarrow> bool" where
  "zero_sector bs a limit \<longleftrightarrow>
     (\<exists>k. a \<le> sectorBytes * k \<and> sectorBytes * k + sectorBytes \<le> limit
          \<and> zeroed (take sectorBytes (drop (sectorBytes * k) bs)))"

lemma zeroed_sector_iff:
  "zeroed_sector c \<longleftrightarrow>
     (\<exists>k. sectorBytes * k < length c \<and> zeroed (take sectorBytes (drop (sectorBytes * k) c)))"
proof (induction c rule: zeroed_sector.induct)
  case (2 b bs)
  let ?c = "b # bs"
  let ?P = "\<lambda>k. sectorBytes * k < length ?c \<and> zeroed (take sectorBytes (drop (sectorBytes * k) ?c))"
  have "(\<exists>k. ?P k) \<longleftrightarrow> ?P 0 \<or> (\<exists>k. ?P (Suc k))"
    by (metis not0_implies_Suc)
  also have "(\<exists>k. ?P (Suc k)) \<longleftrightarrow> zeroed_sector (drop sectorBytes ?c)"
    unfolding 2 by (simp only: drop_drop length_drop mult_Suc_right) (simp add: add.commute less_diff_conv)
  finally show ?case by (simp only: zeroed_sector.simps) simp
qed simp

lemma zero_sector_chunk:
  assumes "sectorBytes dvd a" "sectorBytes dvd n" "a + n \<le> limit" "length c = n" "c = take n (drop a bs)"
  shows "zero_sector bs a limit \<longleftrightarrow> zeroed_sector c \<or> zero_sector bs (a + n) limit"
proof -
  obtain i m where i: "a = sectorBytes * i" and m: "n = sectorBytes * m"
    using assms(1,2) by (metis dvdE)
  have slice: "take sectorBytes (drop (sectorBytes * (i + k)) bs) = take sectorBytes (drop (sectorBytes * k) c)"
    if "k < m" for k
  proof -
    have "sectorBytes \<le> n - sectorBytes * k" using that m by (simp add: diff_mult_distrib2 [symmetric])
    then show ?thesis by (simp add: assms(5) i drop_take min_absorb1 algebra_simps)
  qed
  have "zeroed_sector c \<longleftrightarrow> (\<exists>k < m. zeroed (take sectorBytes (drop (sectorBytes * (i + k)) bs)))"
    unfolding zeroed_sector_iff assms(4) using slice m by auto
  also have "\<dots> \<longleftrightarrow> (\<exists>k. i \<le> k \<and> k < i + m \<and> zeroed (take sectorBytes (drop (sectorBytes * k) bs)))"
    by (metis le_iff_add nat_add_left_cancel_less)
  finally have "zeroed_sector c \<longleftrightarrow>
      (\<exists>k. i \<le> k \<and> k < i + m \<and> zeroed (take sectorBytes (drop (sectorBytes * k) bs)))" .
  moreover have "sectorBytes * k + sectorBytes \<le> limit" if "k < i + m" for k
    using assms(3) that unfolding i m by simp
  ultimately show ?thesis
    unfolding zero_sector_def i m add_mult_distrib2 [symmetric]
    by (simp only: mult_le_cancel1 zero_less_numeral simp_thms) (meson linorder_not_less le_add1 order_trans)
qed

lemma torn_sectors_iff:
  "torn_sectors f a limit = Inr r \<Longrightarrow> sectorBytes dvd a \<Longrightarrow> r \<longleftrightarrow> zero_sector (content f) a limit"
proof (induction f a limit rule: torn_sectors.induct)
  case (1 f a limit)
  define n where "n = min ((limit - a) div sectorBytes * sectorBytes) chunkBytes"
  show ?case
  proof (cases "a + sectorBytes \<le> limit")
    case True
    then have unfolded: "(case ReadAt f n a of (_, Some err) \<Rightarrow> Inl err
        | (chunk, None) \<Rightarrow> if zeroed_sector chunk then Inr True else torn_sectors f (a + n) limit) = Inr r"
      using "1.prems"(1) unfolding n_def by (subst (asm) torn_sectors.simps) (simp add: Let_def)
    then obtain chunk where chunk: "ReadAt f n a = (chunk, None)"
      by (auto split: prod.splits option.splits)
    have n: "sectorBytes dvd n" by (simp add: n_def min_def)
    have "(limit - a) div sectorBytes * sectorBytes \<le> limit - a" by (rule div_times_less_eq_dividend)
    then have "a + n \<le> limit" using True by (simp add: n_def)
    note split = zero_sector_chunk [OF "1.prems"(2) n this, of chunk "content f"]
    show ?thesis
      using split "1.IH" [OF True n_def chunk [symmetric] refl] unfolded chunk ReadAt_whole [OF chunk]
        "1.prems"(2) n by (auto split: if_splits)
  next
    case False
    have "\<not> zero_sector (content f) a limit" using False by (auto simp: zero_sector_def)
    with False "1.prems" show ?thesis by (simp add: torn_sectors.simps)
  qed
qed

lemma torn_sectors_sound:
  "sound_file f \<Longrightarrow> limit \<le> length (content f) \<Longrightarrow> \<exists>r. torn_sectors f a limit = Inr r"
proof (induction f a limit rule: torn_sectors.induct)
  case (1 f a limit)
  let ?n = "min ((limit - a) div sectorBytes * sectorBytes) chunkBytes"
  show ?case
  proof (cases "a + sectorBytes \<le> limit")
    case True
    have "(limit - a) div sectorBytes * sectorBytes \<le> limit - a" by (rule div_times_less_eq_dividend)
    then have "ReadAt f ?n a = (take ?n (drop a (content f)), None)"
      using "1.prems" True by (intro ReadAt_sound) auto
    note read = this
    show ?thesis
      by (subst torn_sectors.simps)
        (use "1.IH" [OF True refl read [symmetric] refl] "1.prems" read in \<open>auto simp: Let_def\<close>)
  qed (auto simp: torn_sectors.simps)
qed

text \<open>
  A tail is torn exactly when it is too short for a header, holds a header whose frame runs
  past its end, or holds a whole sector of zeros within the frame or the tail.
\<close>

definition torn_spec :: "byte list \<Rightarrow> stream \<Rightarrow> nat \<Rightarrow> nat \<Rightarrow> bool" where
  "torn_spec bs s frm e \<longleftrightarrow>
     e - frm < frameHeaderBytes
     \<or> (case decodeFrameHeader s (take frameHeaderBytes (drop frm bs)) frm of
          None \<Rightarrow> zero_sector bs frm e
        | Some f \<Rightarrow> frame_size f > e - frm \<or> zero_sector bs frm (frm + frame_size f))"

lemma zero_sector_round_up:
  "zero_sector bs ((frm + sectorBytes - 1) div sectorBytes * sectorBytes) limit \<longleftrightarrow> zero_sector bs frm limit"
proof -
  have "(511 + frm) div 512 < Suc k \<longleftrightarrow> frm \<le> 512 * k" for k :: nat
    by (subst div_less_iff_less_mult) auto
  then show ?thesis by (simp add: zero_sector_def less_Suc_eq_le mult.commute)
qed

lemma torn_eq_spec:
  assumes "sound_file f" "e \<le> length (content f)"
  shows "torn f s frm e = Inr (torn_spec (content f) s frm e)"
proof (cases "e - frm < frameHeaderBytes")
  case True
  then show ?thesis by (simp add: torn_def torn_spec_def)
next
  case False
  then have read: "ReadAt f frameHeaderBytes frm = (take frameHeaderBytes (drop frm (content f)), None)"
    using assms by (intro ReadAt_sound) auto
  have sectors: "torn_sectors f ((frm + sectorBytes - 1) div sectorBytes * sectorBytes) limit
      = Inr (zero_sector (content f) frm limit)" if le: "limit \<le> length (content f)" for limit
  proof -
    let ?a = "(frm + sectorBytes - 1) div sectorBytes * sectorBytes"
    obtain r where r: "torn_sectors f ?a limit = Inr r"
      using torn_sectors_sound [OF assms(1) le] by blast
    have "sectorBytes dvd ?a" by (rule dvd_triv_right)
    from torn_sectors_iff [OF r this] r show ?thesis by (simp only: zero_sector_round_up)
  qed
  show ?thesis
    using False read assms sectors
    by (auto simp: torn_def torn_spec_def Let_def split: option.splits)
qed

end
