(* ===== verification/Queue_Read.thy ===== *)
theory Queue_Read
  imports Queue Walk
begin

text \<open>
  Reading a queue back and expiring what outlived its age: \<open>read\<close>, \<open>expire\<close> and \<open>expireDue\<close> of
  \<open>internal/spool/queue.go\<close>. The loops over the segments and over the frames of a segment are
  recursive functions over the walk, which moves forward with every frame it returns.
\<close>

record Entry =
  en_Sequence :: u64
  en_Admitted :: time
  en_ID :: "byte list"
  en_Payload :: "byte list"

section \<open>The walk moves forward\<close>

lemma walk_next_Found_at:
  assumes "walk_next mode w = (Found f body skipped, w')"
  shows "walk_at w \<le> offset f" "walk_at w' = offset f + frame_size f" "walk_at w' \<le> walk_end w"
    "walk_end w' = walk_end w" "walk_file w' = walk_file w" "walk_stream w' = walk_stream w"
  using next_from_Found [OF assms [unfolded walk_next_def]] by simp_all

lemma frame_size_pos [simp]: "0 < frame_size f"
  by (simp add: frame_size_def)

lemma walk_next_progress:
  assumes "walk_next mode w = (Found f body skipped, w')"
  shows "walk_end w' - walk_at w' < walk_end w - walk_at w"
proof -
  note n = walk_next_Found_at [OF assms]
  have "walk_at w < walk_at w'" using n(1,2) frame_size_pos [of f] by linarith
  then show ?thesis using n(3,4) by simp
qed

section \<open>Reading\<close>

record taking =
  tk_entries :: "Entry list"
  tk_losses :: "loss list"
  tk_payloads :: int
  tk_reached :: "cursor option"
  tk_stopped :: bool

definition nothing_taken :: taking where
  "nothing_taken =
     \<lparr>tk_entries = [], tk_losses = [], tk_payloads = 0, tk_reached = None, tk_stopped = False\<rparr>"

definition wanted :: "ledger \<Rightarrow> u64 \<Rightarrow> u64 \<Rightarrow> u64 \<Rightarrow> frame \<Rightarrow> reading" where
  "wanted settled frm upper prev found =
     (if sequence found \<ge> frm \<and> sequence found > prev \<and> sequence found < upper
         \<and> \<not> ledger_settled settled (sequence found)
      then Kept else HeaderOnly)"

definition lose :: "segment \<Rightarrow> u64 \<Rightarrow> u64 \<Rightarrow> nat \<Rightarrow> taking \<Rightarrow> taking" where
  "lose held prev till skipped t =
     (if prev + 1 < till
      then t\<lparr>tk_losses := tk_losses t
               @ [\<lparr>loss_segment = segment_name held, loss_span = Span (prev + 1) till,
                   loss_bytes = skipped\<rparr>]\<rparr>
      else t)"

definition take_entry :: "frame \<Rightarrow> byte list \<Rightarrow> taking \<Rightarrow> taking" where
  "take_entry found body t =
     t\<lparr>tk_entries := tk_entries t
         @ [\<lparr>en_Sequence = sequence found, en_Admitted = admitted found,
             en_ID = take (idBytes found) body, en_Payload = drop (idBytes found) body\<rparr>],
       tk_payloads := tk_payloads t + int (payload found)\<rparr>"

text \<open>Whether the frame would take the read past what was asked for.\<close>

definition enough :: "int \<Rightarrow> int \<Rightarrow> frame \<Rightarrow> taking \<Rightarrow> bool" where
  "enough most bytes found t \<longleftrightarrow>
     tk_entries t \<noteq> []
     \<and> (int (length (tk_entries t)) \<ge> most \<or> tk_payloads t + int (payload found) > bytes)"

function read_walk ::
  "ledger \<Rightarrow> u64 \<Rightarrow> int \<Rightarrow> int \<Rightarrow> segment \<Rightarrow> u64 \<Rightarrow> walk \<Rightarrow> u64 \<Rightarrow> taking \<Rightarrow> error + taking" where
  "read_walk settled frm most bytes held upper w prev t =
     (case walk_next (Some (wanted settled frm upper prev)) w of
        (Stopped skipped err, w') \<Rightarrow>
          if Is err EOF then
            Inr ((lose held prev upper skipped t)\<lparr>tk_reached := Some
                   \<lparr>cur_first = seg_first held, cur_offset = walk_at w', cur_prev = prev\<rparr>\<rparr>)
          else Inl err
      | (Found found body skipped, w') \<Rightarrow>
          if sequence found \<le> prev \<or> sequence found \<ge> upper then
            read_walk settled frm most bytes held upper w' prev t
          else
            let t = lose held prev (sequence found) skipped t
            in if sequence found \<ge> frm \<and> \<not> ledger_settled settled (sequence found) then
                 if enough most bytes found t then
                   Inr (t\<lparr>tk_reached := Some \<lparr>cur_first = seg_first held, cur_offset = offset found,
                            cur_prev = prev\<rparr>, tk_stopped := True\<rparr>)
                 else read_walk settled frm most bytes held upper w' (sequence found)
                        (take_entry found body t)
               else read_walk settled frm most bytes held upper w' (sequence found) t)"
  by pat_completeness auto
termination
  by (relation "measure (\<lambda>(settled, frm, most, bytes, held, upper, w, prev, t).
        walk_end w - walk_at w)")
    (auto dest!: walk_next_progress [OF sym])

declare read_walk.simps [simp del]

text \<open>Where the last read stopped, when this one goes on from there.\<close>

definition read_start :: "cursor \<Rightarrow> u64 \<Rightarrow> segment \<Rightarrow> nat \<times> u64" where
  "read_start a frm held =
     (if cur_first a = seg_first held \<and> frm > cur_prev a
         \<and> cur_offset a \<ge> segmentHeaderBytes \<and> cur_offset a \<le> seg_size held
      then (cur_offset a, cur_prev a) else (segmentHeaderBytes, seg_first held - 1))"

fun read_segments ::
  "ledger \<Rightarrow> u64 \<Rightarrow> int \<Rightarrow> int \<Rightarrow> cursor \<Rightarrow> (segment \<times> u64) list \<Rightarrow> taking \<Rightarrow> queue
     \<Rightarrow> (error + taking) \<times> queue" where
  "read_segments settled frm most bytes a [] t q = (Inr t, q)"
| "read_segments settled frm most bytes a ((held, upper) # rest) t q =
     (if upper \<le> frm \<or> whole settled (held, upper) then
        read_segments settled frm most bytes a rest t q
      else case open_file (q_disk q) (segment_name held) of
        (Inl err, d) \<Rightarrow>
          let q = q\<lparr>q_disk := d\<rparr>
          in if Is err ErrNotExist then
               read_segments settled frm most bytes a rest
                 (if q_holds (seg_first held) q
                  then t\<lparr>tk_losses := tk_losses t
                         @ [\<lparr>loss_segment = segment_name held,
                             loss_span = Span (seg_first held) upper,
                             loss_bytes = seg_size held\<rparr>]\<rparr>
                  else t) q
             else (Inl err, q)
      | (Inr i, d) \<Rightarrow>
          (case read_start a frm held of (start, prev) \<Rightarrow>
           let walked = newWalk (opened d i) (q_stream q) start (seg_size held);
               outcome = read_walk settled frm most bytes held upper walked prev t;
               q = q\<lparr>q_disk := snd (attempt d)\<rparr>
           in case outcome of
                Inl err \<Rightarrow> (Inl err, q)
              | Inr t \<Rightarrow>
                  if tk_stopped t then (Inr t, q)
                  else read_segments settled frm most bytes a rest t q))"

section \<open>Expiring\<close>

text \<open>The runs of expired sequences, and whether a record within its age was reached.\<close>

definition grow_runs :: "span list \<Rightarrow> u64 \<Rightarrow> span list" where
  "grow_runs runs seq =
     (if runs \<noteq> [] \<and> span_end (last runs) = seq
      then butlast runs @ [(last runs)\<lparr>span_end := span_end (last runs) + 1\<rparr>]
      else runs @ [Span seq (seq + 1)])"

function expire_walk ::
  "ledger \<Rightarrow> int \<Rightarrow> u64 \<Rightarrow> walk \<Rightarrow> u64 \<Rightarrow> span list \<Rightarrow> error + span list \<times> bool" where
  "expire_walk settled cutoff upper w prev runs =
     (case walk_next (Some (\<lambda>_. HeaderOnly)) w of
        (Stopped _ err, _) \<Rightarrow> if Is err EOF then Inr (runs, False) else Inl err
      | (Found found _ _, w') \<Rightarrow>
          if sequence found \<le> prev \<or> sequence found \<ge> upper then
            expire_walk settled cutoff upper w' prev runs
          else if ledger_settled settled (sequence found) then
            expire_walk settled cutoff upper w' (sequence found) runs
          else if admitted found \<ge> cutoff then Inr (runs, True)
          else expire_walk settled cutoff upper w' (sequence found)
                 (grow_runs runs (sequence found)))"
  by pat_completeness auto
termination
  by (relation "measure (\<lambda>(settled, cutoff, upper, w, prev, runs). walk_end w - walk_at w)")
    (auto dest!: walk_next_progress [OF sym])

declare expire_walk.simps [simp del]

fun expire_segments ::
  "ledger \<Rightarrow> int \<Rightarrow> (segment \<times> u64) list \<Rightarrow> span list \<Rightarrow> queue \<Rightarrow> (error + span list) \<times> queue" where
  "expire_segments settled cutoff [] runs q = (Inr runs, q)"
| "expire_segments settled cutoff ((held, upper) # rest) runs q =
     (if whole settled (held, upper) then expire_segments settled cutoff rest runs q
      else case open_file (q_disk q) (segment_name held) of
        (Inl err, d) \<Rightarrow>
          let q = q\<lparr>q_disk := d\<rparr>
          in if Is err ErrNotExist then expire_segments settled cutoff rest runs q else (Inl err, q)
      | (Inr i, d) \<Rightarrow>
          (let walked = newWalk (opened d i) (q_stream q) segmentHeaderBytes (seg_size held);
               outcome = expire_walk settled cutoff upper walked (seg_first held - 1) runs;
               q = q\<lparr>q_disk := snd (attempt d)\<rparr>
           in case outcome of
                Inl err \<Rightarrow> (Inl err, q)
              | Inr (runs, within) \<Rightarrow>
                  if within then (Inr runs, q)
                  else expire_segments settled cutoff rest runs q))"

definition q_expire :: "host \<Rightarrow> queue \<Rightarrow> (error + u64) \<times> queue" where
  "q_expire h q =
     (if q_closed q then (Inl [ErrClosed], q)
      else
        let age = q_maxAge q; q = q\<lparr>q_swept := now h\<rparr>
        in if age \<le> 0 then (Inr 0, q)
           else case expire_segments (q_ledger q) (now h - age)
                       (uppers (q_next q) (q_segments q)) [] q of
                  (Inl err, q) \<Rightarrow> (Inl err, q)
                | (Inr runs, q) \<Rightarrow>
                    if runs = [] then (Inr 0, q)
                    else case ledger_settle (q_ledger q) runs of (updated, newly) \<Rightarrow>
                      if newly = 0 then (Inr 0, q)
                      else case q_store (updated\<lparr>expired := expired updated + newly\<rparr>) q of
                             (Some err, q) \<Rightarrow> (Inl err, q)
                           | (None, q) \<Rightarrow> (Inr newly, q_compact q))"

definition q_expireDue :: "host \<Rightarrow> queue \<Rightarrow> (error + u64) \<times> queue" where
  "q_expireDue h q =
     (if q_maxAge q > 0 \<and> now h - q_swept q \<ge> expiryInterval then q_expire h q else (Inr 0, q))"

definition q_read :: "host \<Rightarrow> u64 \<Rightarrow> int \<Rightarrow> int \<Rightarrow> queue \<Rightarrow> (error + Entry list) \<times> queue" where
  "q_read h frm most bytes q =
     (case q_expireDue h q of
        (Inl err, q) \<Rightarrow> (Inl err, q)
      | (Inr _, q) \<Rightarrow>
          if q_closed q then (Inl [ErrClosed], q)
          else case read_segments (q_ledger q) (max frm 1) most bytes (q_cursor q)
                      (uppers (q_next q) (q_segments q)) nothing_taken q of
                 (Inl err, q) \<Rightarrow> (Inl err, q)
               | (Inr t, q) \<Rightarrow>
                   let q = (case tk_reached t of None \<Rightarrow> q | Some c \<Rightarrow> q\<lparr>q_cursor := c\<rparr>)
                   in case q_settleLost (tk_losses t) q of
                        (Some err, q) \<Rightarrow> (Inl err, q)
                      | (None, q) \<Rightarrow> (Inr (tk_entries t), q))"

end
