(* ===== verification/Link_Policy.thy ===== *)
theory Link_Policy
  imports Prelude Complex_Main
begin

text \<open>
  When a listener that failed is tried again, \<open>internal/link/policy.go\<close>, and the classes of
  failure, \<open>internal/link/class.go\<close>. The arithmetic of \<open>wait\<close> is done in \<open>float64\<close>; the model does
  it in exact rationals and truncates at the end as the conversion to \<open>time.Duration\<close> does, so the
  rounding of a float (one part in \<open>2 ^ 53\<close>) is not modelled. What \<open>rand.Float64\<close> draws is given:
  it is at least 0 and below 1.
\<close>

record Policy =
  Retry :: duration
  RetryLongest :: duration
  Hold :: duration
  HoldLongest :: duration

datatype policy_error = Waits_negative | Waits_less

text \<open>One turn of the loop of \<open>Settled\<close> over its four fields.\<close>

definition settled_field :: "duration \<Rightarrow> duration \<Rightarrow> duration option" where
  "settled_field held value = (if held < 0 then None else Some (if held = 0 then value else held))"

definition Policy_Settled :: "Policy \<Rightarrow> policy_error + Policy" where
  "Policy_Settled p =
     (case (settled_field (Retry p) Second, settled_field (RetryLongest p) (5 * Minute),
            settled_field (Hold p) Minute, settled_field (HoldLongest p) Hour) of
        (Some a, Some b, Some c, Some d) \<Rightarrow>
          if b < a \<or> d < c then Inl Waits_less
          else Inr \<lparr>Retry = a, RetryLongest = b, Hold = c, HoldLongest = d\<rparr>
      | _ \<Rightarrow> Inl Waits_negative)"

definition spread :: rat where "spread = 1 / 2"

definition wait_base :: "duration \<Rightarrow> duration \<Rightarrow> int \<Rightarrow> rat" where
  "wait_base first longest failures =
     min (of_int first * 2 ^ nat (max failures 1 - 1)) (of_int longest)"

text \<open>\<open>draw\<close> is what the first call of \<open>draw\<close> returns and \<open>again\<close> the second.\<close>

definition Policy_wait :: "Policy \<Rightarrow> int \<Rightarrow> bool \<Rightarrow> duration \<Rightarrow> rat \<Rightarrow> rat \<Rightarrow> duration" where
  "Policy_wait p failures lasting asked draw again =
     (let first = (if lasting then Hold p else Retry p);
          longest = (if lasting then HoldLongest p else RetryLongest p);
          base = wait_base first longest failures;
          wait = base * (1 - spread + 2 * spread * draw);
          wait = (if asked > 0 then max wait (of_int (min asked longest) * (1 + again)) else wait)
      in \<lfloor>wait\<rfloor>)"

section \<open>Classes of failure\<close>

text \<open>\<open>Unclassed\<close> is the zero \<open>Class\<close>, which a link that answers has.\<close>

datatype Class = Unclassed | Transport | TLS | Authorization | Capacity

definition Class_String :: "Class \<Rightarrow> string" where
  "Class_String c =
     (case c of Transport \<Rightarrow> ''transport'' | TLS \<Rightarrow> ''tls'' | Authorization \<Rightarrow> ''authorization''
      | Capacity \<Rightarrow> ''capacity'' | Unclassed \<Rightarrow> ''class(0)'')"

definition Lasting :: "Class \<Rightarrow> bool" where
  "Lasting c \<longleftrightarrow> c = TLS \<or> c = Authorization"

text \<open>
  The sentinels of \<open>internal/transport/failure.go\<close>; \<open>ErrCredentialRefused\<close> is its \<open>ErrRefused\<close>,
  a name the spool has too.
\<close>

datatype transport_sentinel =
  ErrUntrusted | ErrUnauthenticated | ErrCredentialRefused | ErrUnreachable | ErrUnanswered | ErrReplyTooLarge | ErrUnwritten

type_synonym transport_error = "transport_sentinel err"

definition Class_Of :: "transport_error \<Rightarrow> Class \<times> bool" where
  "Class_Of err =
     (if Is err ErrUnreachable \<or> Is err ErrUnanswered then (Transport, True)
      else if Is err ErrUntrusted then (TLS, True)
      else if Is err ErrCredentialRefused \<or> Is err ErrUnauthenticated then (Authorization, True)
      else (Unclassed, False))"

section \<open>What the policy keeps\<close>

definition wf_Policy :: "Policy \<Rightarrow> bool" where
  "wf_Policy p \<longleftrightarrow> 0 < Retry p \<and> Retry p \<le> RetryLongest p \<and> 0 < Hold p \<and> Hold p \<le> HoldLongest p"

lemma Policy_Settled_wf: "Policy_Settled p = Inr p' \<Longrightarrow> wf_Policy p'"
  by (simp add: Policy_Settled_def settled_field_def split: if_splits) (auto simp: wf_Policy_def duration_defs)

lemma Policy_Settled_again: "Policy_Settled p = Inr p' \<Longrightarrow> Policy_Settled p' = Inr p'"
  using Policy_Settled_wf [of p p']
  by (auto simp: wf_Policy_def Policy_Settled_def settled_field_def)

text \<open>The reference: the first wait, doubled for every failure before this one, up to the longest.\<close>

fun doubled :: "duration \<Rightarrow> nat \<Rightarrow> duration \<Rightarrow> duration" where
  "doubled longest 0 d = d"
| "doubled longest (Suc n) d = doubled longest n (min (2 * d) longest)"

lemma doubled_longest: "0 \<le> longest \<Longrightarrow> doubled longest n longest = longest"
  by (induction n) simp_all

lemma doubled_eq:
  assumes "0 < d" "d \<le> longest"
  shows "of_int (doubled longest n d) = min (of_int d * 2 ^ n) (of_int longest :: rat)"
  using assms
proof (induction n arbitrary: d)
  case (Suc n)
  show ?case
  proof (cases "2 * d \<le> longest")
    case True
    then have "of_int (doubled longest n (2 * d)) = min (of_int (2 * d) * 2 ^ n) (of_int longest :: rat)"
      using Suc by simp
    then show ?thesis using True by (simp add: min_absorb1 algebra_simps)
  next
    case False
    then have "(of_int longest :: rat) \<le> of_int (2 * d)" by (simp only: of_int_le_iff)
    also have "\<dots> \<le> of_int (2 * d) * 2 ^ n"
      using Suc.prems(1) by (simp add: mult_le_cancel_left1)
    finally show ?thesis using False Suc.prems by (simp add: min_def doubled_longest algebra_simps)
  qed
qed simp

lemma wait_base_doubled:
  assumes "0 < first" "first \<le> longest"
  shows "wait_base first longest failures = of_int (doubled longest (nat (max failures 1 - 1)) first)"
  using doubled_eq [OF assms] by (simp add: wait_base_def)

lemma doubled_range: "0 < d \<Longrightarrow> d \<le> longest \<Longrightarrow> d \<le> doubled longest n d \<and> doubled longest n d \<le> longest"
proof (induction n arbitrary: d)
  case (Suc n)
  then show ?case using Suc.IH [of "min (2 * d) longest"] by fastforce
qed simp

lemma Policy_wait_asked_none:
  fixes failures :: int and lasting :: bool
  assumes "wf_Policy p" "0 \<le> draw" "draw < 1" "asked \<le> 0"
  defines "base \<equiv> doubled (if lasting then HoldLongest p else RetryLongest p) (nat (max failures 1 - 1))
      (if lasting then Hold p else Retry p)"
  shows "base div 2 \<le> Policy_wait p failures lasting asked draw again"
    "2 * Policy_wait p failures lasting asked draw again \<le> 3 * base"
proof -
  have p: "0 < (if lasting then Hold p else Retry p)"
    "(if lasting then Hold p else Retry p) \<le> (if lasting then HoldLongest p else RetryLongest p)"
    using assms(1) by (simp_all add: wf_Policy_def)
  have pos: "0 < base" using doubled_range [OF p] order_less_le_trans [OF p(1)] unfolding base_def by blast
  have w: "Policy_wait p failures lasting asked draw again = \<lfloor>of_int base * (1 / 2 + draw)\<rfloor>"
    using assms(4) wait_base_doubled [OF p, of failures]
    by (simp add: Policy_wait_def Let_def base_def spread_def)
  have "(of_int (base div 2) :: rat) \<le> of_int base / 2" using pos by linarith
  also have "\<dots> \<le> of_int base * (1 / 2 + draw)" using pos assms(2) by (simp add: field_simps)
  finally show "base div 2 \<le> Policy_wait p failures lasting asked draw again"
    unfolding w by (simp add: le_floor_iff)
  have "of_int base * (1 / 2 + draw) \<le> of_int base * (3 / 2 :: rat)"
    using pos assms(3) by (intro mult_left_mono) simp_all
  then have "of_int \<lfloor>of_int base * (1 / 2 + draw)\<rfloor> \<le> of_int base * (3 / 2 :: rat)"
    using of_int_floor_le order_trans by blast
  then have "(of_int (2 * \<lfloor>of_int base * (1 / 2 + draw)\<rfloor>) :: rat) \<le> of_int (3 * base)" by simp
  then show "2 * Policy_wait p failures lasting asked draw again \<le> 3 * base"
    unfolding w by (simp only: of_int_le_iff)
qed

lemma Policy_wait_asked:
  fixes failures :: int and lasting :: bool
  assumes "wf_Policy p" "0 \<le> draw" "draw < 1" "0 \<le> again" "again < 1" "0 < asked"
  defines "longest \<equiv> (if lasting then HoldLongest p else RetryLongest p)"
  shows "min asked longest \<le> Policy_wait p failures lasting asked draw again"
    "Policy_wait p failures lasting asked draw again \<le> 2 * longest"
proof -
  have p: "0 < (if lasting then Hold p else Retry p)" "(if lasting then Hold p else Retry p) \<le> longest"
    using assms(1) by (simp_all add: wf_Policy_def longest_def)
  define base where "base = doubled longest (nat (max failures 1 - 1)) (if lasting then Hold p else Retry p)"
  have base: "0 < base" "base \<le> longest" 
    using doubled_range [OF p] order_less_le_trans [OF p(1)] unfolding base_def by blast+
  define m where "m = min asked longest"
  have m: "0 < m" "m \<le> longest" using assms(6) base by (auto simp: m_def)
  have w: "Policy_wait p failures lasting asked draw again
      = \<lfloor>max (of_int base * (1 / 2 + draw)) (of_int m * (1 + again))\<rfloor>"
    using assms(6) wait_base_doubled [OF p, of failures]
    by (simp add: Policy_wait_def Let_def base_def longest_def spread_def m_def)
  have "of_int m \<le> of_int m * (1 + again)"
    using m(1) assms(4) by (simp add: field_simps)
  then show "min asked longest \<le> Policy_wait p failures lasting asked draw again"
    unfolding w m_def [symmetric] by (simp add: le_floor_iff le_max_iff_disj)
  have "of_int base * (1 / 2 + draw) \<le> of_int longest * (2 :: rat)"
    using base assms(2,3) by (intro mult_mono) simp_all
  moreover have "of_int m * (1 + again) \<le> of_int longest * (2 :: rat)"
    using m base assms(4,5) by (intro mult_mono) simp_all
  ultimately have "max (of_int base * (1 / 2 + draw)) (of_int m * (1 + again)) \<le> of_int (2 * longest)"
    by simp
  then show "Policy_wait p failures lasting asked draw again \<le> 2 * longest"
    unfolding w using floor_mono [of _ "of_int (2 * longest) :: rat"] by (simp only: floor_of_int)
qed

end
