(* ===== verification/Governor_Queue.thy ===== *)
theory Governor_Queue
  imports Prelude
begin

text \<open>
  The queue of those who wait for a slot or for bytes, \<open>queue\<close> of \<open>internal/governor/queue.go\<close>.
  A waiter is told from another by \<open>wt_id\<close>, as the code does by its address.
\<close>

datatype work_class = Critical | Bulk

definition work_class_String :: "work_class \<Rightarrow> string" where
  "work_class_String c = (case c of Critical \<Rightarrow> ''critical'' | Bulk \<Rightarrow> ''bulk'')"

definition favoured :: nat where "favoured = 4"

record waiter =
  wt_id :: nat
  wt_module :: string
  wt_class :: work_class

record wait_queue =
  waiting :: "waiter list"
  streak :: nat

definition wq_add :: "waiter \<Rightarrow> wait_queue \<Rightarrow> wait_queue" where
  "wq_add w q = q\<lparr>waiting := waiting q @ [w]\<rparr>"

definition wq_remove :: "waiter \<Rightarrow> wait_queue \<Rightarrow> wait_queue" where
  "wq_remove w q = q\<lparr>waiting := filter (\<lambda>held. held \<noteq> w) (waiting q)\<rparr>"

text \<open>\<open>first\<close>: the loop over the waiters, with the one chosen so far; a rank that is absent is \<open>None\<close>.\<close>

fun first_from ::
  "work_class \<Rightarrow> (waiter \<Rightarrow> int) option \<Rightarrow> waiter option \<Rightarrow> waiter list \<Rightarrow> waiter option" where
  "first_from k rank chosen [] = chosen"
| "first_from k rank chosen (held # rest) =
     (if wt_class held \<noteq> k then first_from k rank chosen rest
      else case chosen of
             None \<Rightarrow> first_from k rank (Some held) rest
           | Some c \<Rightarrow>
               first_from k rank
                 (case rank of None \<Rightarrow> Some c | Some r \<Rightarrow> if r held < r c then Some held else Some c) rest)"

definition wq_first :: "work_class \<Rightarrow> (waiter \<Rightarrow> int) option \<Rightarrow> wait_queue \<Rightarrow> waiter option" where
  "wq_first k rank q = first_from k rank None (waiting q)"

definition wq_next :: "bool \<Rightarrow> (waiter \<Rightarrow> int) option \<Rightarrow> wait_queue \<Rightarrow> waiter option \<times> bool" where
  "wq_next bulk rank q =
     (let critical = wq_first Critical rank q;
          passed = (if bulk then wq_first Bulk rank q else None)
      in if critical \<noteq> None \<and> (passed = None \<or> streak q < favoured)
         then (critical, passed \<noteq> None) else (passed, False))"

definition wq_served :: "waiter \<Rightarrow> bool \<Rightarrow> wait_queue \<Rightarrow> wait_queue" where
  "wq_served w passed q =
     (let q = wq_remove w q
      in case wt_class w of
           Bulk \<Rightarrow> q\<lparr>streak := 0\<rparr>
         | Critical \<Rightarrow> if passed then q\<lparr>streak := streak q + 1\<rparr> else q)"

section \<open>Who is chosen\<close>

text \<open>The reference: of the waiters of a class, the first of those of least rank.\<close>

definition ranks :: "(waiter \<Rightarrow> int) option \<Rightarrow> waiter \<Rightarrow> int" where
  "ranks rank w = (case rank of None \<Rightarrow> 0 | Some r \<Rightarrow> r w)"

definition foremost :: "work_class \<Rightarrow> (waiter \<Rightarrow> int) option \<Rightarrow> waiter list \<Rightarrow> waiter \<Rightarrow> bool" where
  "foremost k rank ws w \<longleftrightarrow>
     (\<exists>before after. ws = before @ w # after \<and> wt_class w = k
        \<and> (\<forall>v \<in> set before. wt_class v = k \<longrightarrow> ranks rank w < ranks rank v)
        \<and> (\<forall>v \<in> set after. wt_class v = k \<longrightarrow> ranks rank w \<le> ranks rank v))"

lemma foremost_skip:
  "foremost k rank ws w \<Longrightarrow> wt_class v \<noteq> k \<Longrightarrow> foremost k rank (ws @ [v]) w"
  by (fastforce simp: foremost_def)

lemma foremost_keep:
  "foremost k rank ws w \<Longrightarrow> ranks rank w \<le> ranks rank v \<Longrightarrow> foremost k rank (ws @ [v]) w"
  by (fastforce simp: foremost_def)

lemma foremost_least: "foremost k rank ws w \<Longrightarrow> v \<in> set ws \<Longrightarrow> wt_class v = k \<Longrightarrow> ranks rank w \<le> ranks rank v"
  by (fastforce simp: foremost_def)

lemma foremost_new:
  assumes "foremost k rank ws c" "wt_class v = k" "ranks rank v < ranks rank c"
  shows "foremost k rank (ws @ [v]) v"
  unfolding foremost_def
proof (intro exI conjI ballI impI)
  show "ws @ [v] = ws @ v # []" "wt_class v = k" using assms(2) by simp_all
  show "ranks rank v < ranks rank u" if "u \<in> set ws" "wt_class u = k" for u
    using foremost_least [OF assms(1) that] assms(3) by simp
qed simp

lemma foremost_last:
  assumes "\<forall>v \<in> set ws. wt_class v \<noteq> k" "wt_class w = k"
  shows "foremost k rank (ws @ [w]) w"
  unfolding foremost_def by (rule exI [of _ ws], rule exI [of _ "[]"]) (use assms in simp)

text \<open>What the loop keeps: the one chosen so far is the foremost of those it passed.\<close>

definition chosen_of :: "work_class \<Rightarrow> (waiter \<Rightarrow> int) option \<Rightarrow> waiter list \<Rightarrow> waiter option \<Rightarrow> bool" where
  "chosen_of k rank ws chosen =
     (case chosen of None \<Rightarrow> \<forall>v \<in> set ws. wt_class v \<noteq> k | Some c \<Rightarrow> foremost k rank ws c)"

lemma first_from_chosen:
  "chosen_of k rank before chosen \<Longrightarrow> chosen_of k rank (before @ ws) (first_from k rank chosen ws)"
proof (induction k rank chosen ws arbitrary: before rule: first_from.induct)
  case (2 k rank chosen held rest)
  have step: "before @ held # rest = (before @ [held]) @ rest" by simp
  consider "wt_class held \<noteq> k" | "wt_class held = k" "chosen = None" | c where "wt_class held = k" "chosen = Some c"
    by blast
  then show ?case
  proof cases
    case 1
    have "chosen_of k rank (before @ [held]) chosen"
      using 2(4) 1 by (auto simp: chosen_of_def split: option.splits intro: foremost_skip)
    from "2.IH"(1) [OF 1 this] 1 show ?thesis unfolding step by simp
  next
    case new: 2
    have "chosen_of k rank (before @ [held]) (Some held)"
      using "2.prems" new by (simp add: chosen_of_def foremost_last)
    with "2.IH"(2) [of "before @ [held]"] new show ?thesis unfolding step by simp
  next
    case more: 3
    have "chosen_of k rank (before @ [held])
        (case rank of None \<Rightarrow> Some c | Some r \<Rightarrow> if r held < r c then Some held else Some c)"
      using "2.prems" more foremost_new [of k rank before c held] foremost_keep [of k rank before c held]
      by (auto simp: chosen_of_def ranks_def split: option.splits)
    with "2.IH"(3) [OF _ more(2), of "before @ [held]"] more show ?thesis unfolding step by simp
  qed
qed simp

lemma wq_first_chosen: "chosen_of k rank (waiting q) (wq_first k rank q)"
  using first_from_chosen [of k rank "[]" None "waiting q"] by (simp add: wq_first_def chosen_of_def)

lemma wq_first_Some: "wq_first k rank q = Some w \<Longrightarrow> foremost k rank (waiting q) w"
  using wq_first_chosen [of k rank q] by (simp add: chosen_of_def)

lemma foremost_in: "foremost k rank ws w \<Longrightarrow> w \<in> set ws \<and> wt_class w = k"
  by (auto simp: foremost_def)

lemma wq_first_None: "wq_first k rank q = None \<longleftrightarrow> (\<forall>v \<in> set (waiting q). wt_class v \<noteq> k)"
proof (cases "wq_first k rank q")
  case (Some w)
  then show ?thesis using foremost_in [OF wq_first_Some [OF Some]] by auto
qed (use wq_first_chosen [of k rank q] in \<open>simp add: chosen_of_def\<close>)

text \<open>Who is served, and whether that passed over a bulk waiter.\<close>

lemma wq_next_Some:
  assumes "wq_next bulk rank q = (Some w, passed)"
  shows "w \<in> set (waiting q)" "foremost (wt_class w) rank (waiting q) w"
    "wt_class w = Bulk \<Longrightarrow> bulk \<and> \<not> passed \<and> (streak q < favoured \<longrightarrow> wq_first Critical rank q = None)"
    "wt_class w = Critical \<Longrightarrow> passed = (bulk \<and> wq_first Bulk rank q \<noteq> None)"
    "passed \<Longrightarrow> streak q < favoured"
proof -
  let ?c = "wq_first Critical rank q" and ?b = "wq_first Bulk rank q"
  have f: "wt_class w = k" "foremost k rank (waiting q) w" if "wq_first k rank q = Some w" for k
    using wq_first_Some [OF that] foremost_in [of k rank "waiting q" w] by simp_all
  consider "?c = Some w" "passed = (bulk \<and> ?b \<noteq> None)" "passed \<longrightarrow> streak q < favoured"
    | "?b = Some w" "bulk" "\<not> passed" "streak q < favoured \<longrightarrow> ?c = None"
    using assms
    by (cases ?c; cases ?b; cases bulk; cases "streak q < favoured") (simp_all add: wq_next_def)
  then have *: "foremost (wt_class w) rank (waiting q) w
      \<and> (wt_class w = Bulk \<longrightarrow> bulk \<and> \<not> passed \<and> (streak q < favoured \<longrightarrow> ?c = None))
      \<and> (wt_class w = Critical \<longrightarrow> passed = (bulk \<and> ?b \<noteq> None)) \<and> (passed \<longrightarrow> streak q < favoured)"
  proof cases
    case 1
    then show ?thesis using f [OF 1(1)] by simp
  next
    case 2
    then show ?thesis using f [OF 2(1)] by simp
  qed
  then show "foremost (wt_class w) rank (waiting q) w" "w \<in> set (waiting q)"
    "wt_class w = Bulk \<Longrightarrow> bulk \<and> \<not> passed \<and> (streak q < favoured \<longrightarrow> ?c = None)"
    "wt_class w = Critical \<Longrightarrow> passed = (bulk \<and> ?b \<noteq> None)" "passed \<Longrightarrow> streak q < favoured"
    using foremost_in by blast+
qed

lemma wq_next_None:
  "fst (wq_next bulk rank q) = None \<longleftrightarrow> (\<forall>v \<in> set (waiting q). wt_class v = Bulk \<and> \<not> bulk)"
proof -
  have "fst (wq_next bulk rank q) = None
      \<longleftrightarrow> wq_first Critical rank q = None \<and> (bulk \<longrightarrow> wq_first Bulk rank q = None)"
    by (auto simp: wq_next_def Let_def)
  moreover have "wt_class v = Bulk \<longleftrightarrow> wt_class v \<noteq> Critical" for v by (cases "wt_class v") simp_all
  ultimately show ?thesis unfolding wq_first_None by blast
qed

section \<open>Nobody is starved\<close>

text \<open>
  What happens to a queue that serves each class in the order of arrival, as \<open>pace\<close> does: someone
  arrives, someone gives up, and whoever is next is served.
\<close>

datatype queue_event = Arrives waiter | Leaves waiter | Serves

definition wq_serve :: "wait_queue \<Rightarrow> wait_queue" where
  "wq_serve q = (case wq_next True None q of (None, _) \<Rightarrow> q | (Some w, passed) \<Rightarrow> wq_served w passed q)"

fun wq_event :: "queue_event \<Rightarrow> wait_queue \<Rightarrow> wait_queue" where
  "wq_event (Arrives w) q = wq_add w q"
| "wq_event (Leaves w) q = wq_remove w q"
| "wq_event Serves q = wq_serve q"

lemma streak_served:
  "wq_next bulk rank q = (Some w, passed) \<Longrightarrow> streak q \<le> favoured \<Longrightarrow> streak (wq_served w passed q) \<le> favoured"
  using wq_next_Some(5) [of bulk rank q w passed]
  by (auto simp: wq_served_def wq_remove_def Let_def split: work_class.splits)

lemma streak_event: "streak q \<le> favoured \<Longrightarrow> streak (wq_event e q) \<le> favoured"
  by (cases e) (auto simp: wq_add_def wq_remove_def wq_serve_def streak_served split: prod.splits option.splits)

text \<open>How many grants a bulk waiter can be from its turn: the bulk waiters before it, each with the critical work that may pass it.\<close>

definition ahead :: "waiter \<Rightarrow> wait_queue \<Rightarrow> nat" where
  "ahead w q = length (filter (\<lambda>v. wt_class v = Bulk) (takeWhile (\<lambda>v. v \<noteq> w) (waiting q)))"

definition turns :: "waiter \<Rightarrow> wait_queue \<Rightarrow> nat" where
  "turns w q = (favoured + 1) * ahead w q + (favoured - streak q)"

lemma takeWhile_remove:
  "v \<noteq> w \<Longrightarrow> takeWhile (\<lambda>x. x \<noteq> w) (filter (\<lambda>x. x \<noteq> v) xs) = filter (\<lambda>x. x \<noteq> v) (takeWhile (\<lambda>x. x \<noteq> w) xs)"
  by (induction xs) auto

lemma ahead_remove:
  assumes "v \<noteq> w"
  shows "ahead w (wq_remove v q) \<le> ahead w q"
    "v \<in> set (takeWhile (\<lambda>x. x \<noteq> w) (waiting q)) \<Longrightarrow> wt_class v = Bulk \<Longrightarrow> ahead w (wq_remove v q) < ahead w q"
proof -
  let ?xs = "filter (\<lambda>v. wt_class v = Bulk) (takeWhile (\<lambda>v. v \<noteq> w) (waiting q))"
  have e: "ahead w (wq_remove v q) = length (filter (\<lambda>x. x \<noteq> v) ?xs)"
    using takeWhile_remove [OF assms, of "waiting q"] by (simp add: ahead_def wq_remove_def conj_commute)
  show "ahead w (wq_remove v q) \<le> ahead w q" unfolding e by (simp only: ahead_def length_filter_le)
  show "ahead w (wq_remove v q) < ahead w q"
    if "v \<in> set (takeWhile (\<lambda>x. x \<noteq> w) (waiting q))" "wt_class v = Bulk"
    using that length_filter_less [of v ?xs "\<lambda>x. x \<noteq> v"] unfolding e by (simp only: ahead_def) simp
qed

lemma serve_moves:
  assumes "w \<in> set (waiting q)" "wt_class w = Bulk" "streak q \<le> favoured" "w \<in> set (waiting (wq_serve q))"
  shows "turns w (wq_serve q) < turns w q"
proof -
  have "fst (wq_next True None q) \<noteq> None" using assms(1) by (auto simp: wq_next_None)
  then obtain v passed where v: "wq_next True None q = (Some v, passed)" by (cases "wq_next True None q") auto
  then have s: "wq_serve q = wq_served v passed q" by (simp add: wq_serve_def)
  have ne: "v \<noteq> w" using assms(4) by (auto simp: s wq_served_def wq_remove_def Let_def split: work_class.splits if_splits)
  show ?thesis
  proof (cases "wt_class v")
    case Critical
    have "wq_first Bulk None q \<noteq> None" using assms(1,2) by (auto simp: wq_first_None)
    then have p: "passed" "streak q < favoured" using wq_next_Some(4,5) [OF v] Critical by auto
    have "ahead w (wq_serve q) = ahead w (wq_remove v q)" using Critical p by (simp add: s wq_served_def ahead_def Let_def)
    then have "ahead w (wq_serve q) \<le> ahead w q" using ahead_remove(1) [OF ne] by simp
    then have "(favoured + 1) * ahead w (wq_serve q) \<le> (favoured + 1) * ahead w q" by (rule mult_le_mono2)
    moreover have "streak (wq_serve q) = streak q + 1" using Critical p by (simp add: s wq_served_def wq_remove_def Let_def)
    ultimately show ?thesis using p(2) by (simp add: turns_def)
  next
    case Bulk
    have "foremost Bulk None (waiting q) v" using wq_next_Some(2) [OF v] Bulk by simp
    then obtain before rest where w: "waiting q = before @ v # rest" "\<forall>u \<in> set before. wt_class u \<noteq> Bulk"
      by (auto simp: foremost_def ranks_def)
    then have "w \<notin> set before" using assms(2) by auto
    then have "v \<in> set (takeWhile (\<lambda>x. x \<noteq> w) (waiting q))" using w(1) ne by (simp add: takeWhile_append)
    then have "ahead w (wq_remove v q) < ahead w q" using ahead_remove(2) [OF ne] Bulk by blast
    moreover have "ahead w (wq_serve q) = ahead w (wq_remove v q)" "streak (wq_serve q) = 0"
      using Bulk by (simp_all add: s wq_served_def ahead_def Let_def)
    ultimately have "ahead w (wq_serve q) + 1 \<le> ahead w q" "streak (wq_serve q) = 0" by simp_all
    then have "(favoured + 1) * (ahead w (wq_serve q) + 1) \<le> (favoured + 1) * ahead w q" by (intro mult_le_mono2)
    then show ?thesis using \<open>streak (wq_serve q) = 0\<close> by (simp add: turns_def)
  qed
qed

lemma event_keeps:
  assumes "w \<in> set (waiting q)" "wt_class w = Bulk" "streak q \<le> favoured" "e \<noteq> Leaves w"
    "w \<in> set (waiting (wq_event e q))"
  shows "turns w (wq_event e q) + (if e = Serves then 1 else 0) \<le> turns w q"
proof (cases e)
  case (Arrives v)
  have "takeWhile (\<lambda>x. x \<noteq> w) (waiting q @ [v]) = takeWhile (\<lambda>x. x \<noteq> w) (waiting q)"
    using assms(1) by (intro takeWhile_append1) auto
  then show ?thesis using Arrives by (simp add: turns_def ahead_def wq_add_def)
next
  case (Leaves v)
  then have "ahead w (wq_remove v q) \<le> ahead w q" using ahead_remove(1) [of v w q] assms(4) by auto
  then have "(favoured + 1) * ahead w (wq_remove v q) \<le> (favoured + 1) * ahead w q" by (rule mult_le_mono2)
  then show ?thesis using Leaves by (simp add: turns_def wq_remove_def)
next
  case Serves
  then show ?thesis using serve_moves [OF assms(1-3)] assms(5) by simp
qed

lemma served_in_time:
  assumes "wt_class w = Bulk" "streak q \<le> favoured" "Leaves w \<notin> set es" "Arrives w \<notin> set es"
    and "w \<in> set (waiting (fold wq_event es q))"
  shows "length (filter (\<lambda>e. e = Serves) es) \<le> turns w q \<and> w \<in> set (waiting q)"
  using assms
proof (induction es arbitrary: q)
  case (Cons e es)
  have IH: "length (filter (\<lambda>e. e = Serves) es) \<le> turns w (wq_event e q)" "w \<in> set (waiting (wq_event e q))"
    using Cons.IH [of "wq_event e q"] Cons.prems streak_event [OF Cons.prems(2)] by simp_all
  have "w \<in> set (waiting q)"
  proof (cases e)
    case Serves
    then show ?thesis
      using IH(2) by (auto simp: wq_serve_def wq_served_def wq_remove_def Let_def
          split: prod.splits option.splits work_class.splits if_splits)
  qed (use IH(2) Cons.prems(4) in \<open>auto simp: wq_add_def wq_remove_def\<close>)
  then show ?case
    using event_keeps [of w q e] IH Cons.prems by (auto split: if_splits)
qed simp

end
