(* ===== verification/Delivery.thy ===== *)
theory Delivery
  imports Queue_Read Link_Policy Protocol_Answer Governor_Queue
begin

text \<open>
  The delivery of one stream, \<open>route\<close> of \<open>internal/delivery/delivery.go\<close>: what it read from the spool
  and has not settled, and what an answer makes of it. The spool, the transport and the link answer
  as they are asked, so each operation takes their answers as arguments: what a read returned, how
  each attempt to settle ended, what the listener replied. \<open>t\<close> is what \<open>time.Now\<close> returns, and
  \<open>draw\<close> and \<open>again\<close> what a wait draws. Log lines are left out.
\<close>

definition widest :: int where "widest = 2 ^ 16"

definition resending :: string where
  "resending = ''none: the agent sends the batch again, with the same records, until the platform acknowledges them''"

record Batching =
  ba_MaxBytes :: int
  ba_MaxEvents :: int
  ba_MaxInventoryRecords :: int

definition MaxAssessmentsPerBatch :: int where "MaxAssessmentsPerBatch = 16"

record d_entry =
  de_sequence :: u64
  de_id :: "byte list"
  de_admitted :: time
  de_record :: "byte list"

record batch =
  bt_id :: "byte list"
  bt_entries :: "d_entry list"
  bt_body :: "byte list"
  bt_sent :: int

definition batch_sequences :: "batch \<Rightarrow> u64 list" where
  "batch_sequences b = map de_sequence (bt_entries b)"

record judgement =
  jg_verdict :: Verdict
  jg_failure :: Class
  jg_listener :: bool

definition no_judgement :: judgement where
  "no_judgement = \<lparr>jg_verdict = verdict No_outcome 0 No_reason, jg_failure = Unclassed, jg_listener = False\<rparr>"

record RouteStats =
  ro_Delivered :: time
  ro_Oldest :: time
  ro_Failing :: time
  ro_Attempts :: int
  ro_Outcome :: Outcome
  ro_Failure :: Class
  ro_Reason :: why
  ro_Recovery :: string
  ro_Next :: time

record route =
  rt_stream :: stream
  rt_protocol :: Route
  rt_class :: work_class
  rt_policy :: Policy
  rt_next :: u64
  rt_pending :: "batch option"
  rt_window :: int
  rt_failures :: int
  rt_own :: int
  rt_failing :: time
  rt_until :: time
  rt_acknowledged :: time
  rt_last :: judgement
  rt_recovery :: string
  rt_retrying :: time
  rt_state :: RouteStats

definition no_stats :: RouteStats where
  "no_stats = \<lparr>ro_Delivered = zero_time, ro_Oldest = zero_time, ro_Failing = zero_time, ro_Attempts = 0,
     ro_Outcome = No_outcome, ro_Failure = Unclassed, ro_Reason = No_reason, ro_Recovery = [], ro_Next = zero_time\<rparr>"

definition new_route :: "stream \<Rightarrow> Route \<Rightarrow> work_class \<Rightarrow> Policy \<Rightarrow> route" where
  "new_route s r k policy =
     \<lparr>rt_stream = s, rt_protocol = r, rt_class = k, rt_policy = policy, rt_next = 1, rt_pending = None, rt_window = 0,
      rt_failures = 0, rt_own = 0, rt_failing = zero_time, rt_until = zero_time, rt_acknowledged = zero_time,
      rt_last = no_judgement, rt_recovery = [], rt_retrying = zero_time, rt_state = no_stats\<rparr>"

text \<open>
  \<open>New\<close>: every problem with the options, or the three routes over the settled policy. \<open>supplied\<close> says
  that no collaborator is missing, and \<open>target\<close> is the scheme and the host name of the address where
  it parses.
\<close>

datatype new_problem = Collaborator_missing | Address_unfit | Policy_unfit policy_error

definition Delivery_New :: "bool \<Rightarrow> (string \<times> string) option \<Rightarrow> Policy \<Rightarrow> new_problem list + route list" where
  "Delivery_New supplied target policy =
     (let problems = (if supplied then [] else [Collaborator_missing])
            @ (case target of
                 None \<Rightarrow> [Address_unfit]
               | Some (scheme, hostname) \<Rightarrow> if scheme \<noteq> ''https'' \<or> hostname = [] then [Address_unfit] else [])
      in case Policy_Settled policy of
           Inl err \<Rightarrow> Inl (problems @ [Policy_unfit err])
         | Inr policy \<Rightarrow>
             if problems \<noteq> [] then Inl problems
             else Inr [new_route Events To_events Critical policy, new_route Inventory To_inventory Bulk policy,
                       new_route Assessments To_assessments Bulk policy])"

section \<open>Composing a batch\<close>

definition frame_batch :: "wire \<Rightarrow> Route \<Rightarrow> byte list \<Rightarrow> d_entry list \<Rightarrow> batch" where
  "frame_batch wr r ident entries =
     (let body = Batch wr r ident (map de_record entries);
          records = (case Records wr r body of None \<Rightarrow> [] | Some records \<Rightarrow> records)
      in \<lparr>bt_id = ident,
          bt_entries = map2 (\<lambda>i e. if i < length records then e\<lparr>de_record := records ! i\<rparr> else e) [0..<length entries] entries,
          bt_body = body, bt_sent = 0\<rparr>)"

text \<open>A record is one of its route when it carries the identifier it was admitted under.\<close>

definition identified :: "wire \<Rightarrow> Route \<Rightarrow> Entry \<Rightarrow> Identity option" where
  "identified wr r held =
     (case Identify wr r (en_Payload held) of
        Some (Some identity) \<Rightarrow> if ident_ID identity = en_ID held then Some identity else None
      | _ \<Rightarrow> None)"

text \<open>
  The loop over what was read, with the entries taken so far and what they weigh. The attempts to
  quarantine end as \<open>tries\<close> says, well where it says nothing.
\<close>

record composing =
  cp_entries :: "d_entry list"
  cp_next :: u64
  cp_error :: "error option"
  cp_quarantined :: "u64 list"

fun compose_each ::
  "wire \<Rightarrow> Route \<Rightarrow> int \<Rightarrow> int \<Rightarrow> int \<Rightarrow> Entry list \<Rightarrow> error option list \<Rightarrow> composing \<Rightarrow> composing" where
  "compose_each wr r bound framed items [] tries c = c"
| "compose_each wr r bound framed items (held # rest) tries c =
     (case identified wr r held of
        None \<Rightarrow>
          (case tries of
             Some err # _ \<Rightarrow> c\<lparr>cp_next := en_Sequence held, cp_error := Some err\<rparr>
           | _ \<Rightarrow> compose_each wr r bound framed items rest (tl tries)
                    (c\<lparr>cp_quarantined := cp_quarantined c @ [en_Sequence held]\<rparr>))
      | Some identity \<Rightarrow>
          let size = Framed wr r (length (en_Payload held))
          in if cp_entries c \<noteq> [] \<and> (framed + size > bound \<or> items + ident_Items identity > MaxInventoryItemsPerBatch)
             then c\<lparr>cp_next := en_Sequence held\<rparr>
             else compose_each wr r bound (framed + size) (items + ident_Items identity) rest tries
                    (c\<lparr>cp_entries := cp_entries c @ [\<lparr>de_sequence = en_Sequence held, de_id = en_ID held,
                         de_admitted = en_Admitted held, de_record = en_Payload held\<rparr>]\<rparr>))"

definition batch_most :: "Batching \<Rightarrow> route \<Rightarrow> int" where
  "batch_most limits r =
     (let most = (if rt_stream r = Inventory then ba_MaxInventoryRecords limits
                  else if rt_stream r = Assessments then MaxAssessmentsPerBatch else ba_MaxEvents limits)
      in if rt_window r > 0 then min most (rt_window r) else most)"

definition batch_room :: "wire \<Rightarrow> Batching \<Rightarrow> byte list \<Rightarrow> route \<Rightarrow> int" where
  "batch_room wr limits ident r = ba_MaxBytes limits - Envelope_size wr (rt_protocol r) ident"

text \<open>One turn of the loop of \<open>compose\<close>: it ends with an error, with nothing to send, with a batch, or reads on.\<close>

datatype composed = Compose_failed error | Compose_empty | Compose_again | Composed batch

definition compose_once ::
  "wire \<Rightarrow> Batching \<Rightarrow> byte list \<Rightarrow> error + Entry list \<Rightarrow> error option list \<Rightarrow> route \<Rightarrow> composed \<times> u64 list \<times> route" where
  "compose_once wr limits ident read tries r =
     (case read of
        Inl err \<Rightarrow> (Compose_failed err, [], r)
      | Inr [] \<Rightarrow> (Compose_empty, [], r)
      | Inr entries \<Rightarrow>
          let c = compose_each wr (rt_protocol r) (batch_room wr limits ident r) 0 0 entries tries
                    \<lparr>cp_entries = [], cp_next = en_Sequence (last entries) + 1, cp_error = None, cp_quarantined = []\<rparr>;
              r = r\<lparr>rt_next := cp_next c\<rparr>
          in (case cp_error c of
                Some err \<Rightarrow> Compose_failed err
              | None \<Rightarrow> if cp_entries c \<noteq> [] then Composed (frame_batch wr (rt_protocol r) ident (cp_entries c))
                        else Compose_again,
              cp_quarantined c, r))"

section \<open>What became of a batch\<close>

definition rt_failed :: "bool \<Rightarrow> time \<Rightarrow> route \<Rightarrow> route" where
  "rt_failed own t r =
     (let r = r\<lparr>rt_failures := rt_failures r + 1\<rparr>;
          r = (if rt_failures r = 1 then r\<lparr>rt_failing := t\<rparr> else r)
      in if own then r\<lparr>rt_own := rt_own r + 1\<rparr> else r)"

definition lasting_verdict :: "judgement \<Rightarrow> bool" where
  "lasting_verdict j \<longleftrightarrow> vd_Outcome (jg_verdict j) \<noteq> Unconfirmed \<and> vd_Outcome (jg_verdict j) \<noteq> Busy"

definition noted :: "nat \<Rightarrow> bool" where
  "noted n \<longleftrightarrow> and n (n - 1) = 0"

definition rt_report :: "(why \<Rightarrow> string) \<Rightarrow> judgement \<Rightarrow> time \<Rightarrow> route \<Rightarrow> route" where
  "rt_report recovery j due r =
     r\<lparr>rt_last := j,
       rt_recovery := (if lasting_verdict j then recovery (vd_Reason (jg_verdict j)) else resending),
       rt_retrying := due\<rparr>"

definition rt_retry :: "(why \<Rightarrow> string) \<Rightarrow> time \<Rightarrow> rat \<Rightarrow> rat \<Rightarrow> duration \<Rightarrow> judgement \<Rightarrow> route \<Rightarrow> route" where
  "rt_retry recovery t draw again asked j r =
     (let r = rt_failed True t r;
          r = r\<lparr>rt_until := t + Policy_wait (rt_policy r) (rt_own r) (lasting_verdict j) asked draw again\<rparr>
      in rt_report recovery j (rt_until r) r)"

definition rt_delivered :: "time \<Rightarrow> route \<Rightarrow> route" where
  "rt_delivered t r =
     (let r = r\<lparr>rt_pending := None, rt_until := zero_time, rt_failures := 0, rt_own := 0, rt_acknowledged := t,
                rt_last := no_judgement, rt_recovery := [], rt_retrying := zero_time\<rparr>
      in if rt_window r > 0 then r\<lparr>rt_window := min (2 * rt_window r) widest\<rparr> else r)"

text \<open>The attempts to write a settlement down, until one succeeds, the spool is closed or the context ends.\<close>

datatype settled_as = Written | Closed | Interrupted_settling

fun settle :: "error option list \<Rightarrow> settled_as" where
  "settle [] = Interrupted_settling"
| "settle (None # attempts) = Written"
| "settle (Some err # attempts) = (if Is err ErrClosed then Closed else settle attempts)"

definition rt_refuse :: "wire \<Rightarrow> byte list \<Rightarrow> batch \<Rightarrow> nat \<Rightarrow> route \<Rightarrow> route" where
  "rt_refuse wr ident sent index r =
     (let n = length (bt_entries sent);
          r = r\<lparr>rt_pending := None, rt_until := zero_time, rt_window := max (int n div 2) 1\<rparr>;
          r = (if index > 0
               then r\<lparr>rt_pending := Some (frame_batch wr (rt_protocol r) ident (take index (bt_entries sent)))\<rparr> else r)
      in if index + 1 < n then r\<lparr>rt_next := min (rt_next r) (de_sequence (bt_entries sent ! (index + 1)))\<rparr> else r)"

definition rt_split :: "wire \<Rightarrow> byte list \<Rightarrow> batch \<Rightarrow> route \<Rightarrow> route" where
  "rt_split wr ident sent r =
     (let half = length (bt_entries sent) div 2
      in r\<lparr>rt_window := max (int half) 1,
           rt_pending := Some (frame_batch wr (rt_protocol r) ident (take half (bt_entries sent))), rt_until := zero_time,
           rt_next := min (rt_next r) (de_sequence (bt_entries sent ! half))\<rparr>)"

text \<open>What the transport returned for a batch.\<close>

datatype post = Post_failed transport_error | Replied Answer

definition rt_judge :: "wire \<Rightarrow> decoders \<Rightarrow> Route \<Rightarrow> batch \<Rightarrow> post \<Rightarrow> judgement" where
  "rt_judge wr rd r sent reply =
     (case reply of
        Post_failed err \<Rightarrow>
          if Is err ErrUnanswered
          then \<lparr>jg_verdict = verdict Unconfirmed (-1) Not_confirmed, jg_failure = Transport, jg_listener = False\<rparr>
          else
            let (failure, listener) = Class_Of err;
                outcome = (if failure = Transport then Unconfirmed else Unexpected)
            in \<lparr>jg_verdict = verdict outcome (-1) Not_confirmed, jg_failure = failure, jg_listener = listener\<rparr>
      | Replied answer \<Rightarrow>
          let carried = map (\<lambda>e. \<lparr>sn_Record = de_record e, sn_Admitted = de_admitted e\<rparr>) (bt_entries sent);
              v = Judge_answer wr rd r carried answer
          in if vd_Outcome v = Busy then \<lparr>jg_verdict = v, jg_failure = Capacity, jg_listener = True\<rparr>
             else if vd_Outcome v = AgentRefused then \<lparr>jg_verdict = v, jg_failure = Authorization, jg_listener = True\<rparr>
             else if vd_Outcome v = Unconfirmed \<and> (case vd_Reason v of Refusal status \<Rightarrow> status \<ge> 500 | _ \<Rightarrow> False)
             then \<lparr>jg_verdict = v, jg_failure = Capacity, jg_listener = False\<rparr>
             else \<lparr>jg_verdict = v, jg_failure = Unclassed, jg_listener = False\<rparr>)"

datatype settlement = Acknowledges "u64 list" | Quarantines u64

datatype deliver_result = Goes_on | Stops

definition settle_refused ::
  "wire \<Rightarrow> byte list \<Rightarrow> error option list \<Rightarrow> batch \<Rightarrow> nat \<Rightarrow> route \<Rightarrow> deliver_result \<times> settlement option \<times> route" where
  "settle_refused wr ident attempts sent index r =
     (if settle attempts = Written
      then (Goes_on, Some (Quarantines (de_sequence (bt_entries sent ! index))), rt_refuse wr ident sent index r)
      else (Stops, None, r))"

text \<open>\<open>send\<close> counts the batch as sent once more.\<close>

definition rt_sending :: "route \<Rightarrow> route" where
  "rt_sending r = r\<lparr>rt_pending := map_option (\<lambda>b. b\<lparr>bt_sent := bt_sent b + 1\<rparr>) (rt_pending r)\<rparr>"

text \<open>\<open>deliver\<close>, from the moment the batch was sent and judged; \<open>due\<close> is when the link tries again.\<close>

definition rt_deliver ::
  "wire \<Rightarrow> (why \<Rightarrow> string) \<Rightarrow> byte list \<Rightarrow> time \<Rightarrow> rat \<Rightarrow> rat \<Rightarrow> judgement \<Rightarrow> duration \<Rightarrow> time \<Rightarrow> error option list \<Rightarrow>
   batch \<Rightarrow> route \<Rightarrow> deliver_result \<times> settlement option \<times> route" where
  "rt_deliver wr recovery ident t draw again j asked due attempts sent r =
     (if jg_listener j then (Goes_on, None, rt_report recovery j due (rt_failed False t r))
      else if vd_Outcome (jg_verdict j) = Durable
      then if settle attempts = Written
           then (Goes_on, Some (Acknowledges (batch_sequences sent)), rt_delivered t r) else (Stops, None, r)
      else if vd_Outcome (jg_verdict j) = RecordRefused
      then settle_refused wr ident attempts sent (nat (vd_Record (jg_verdict j))) r
      else if vd_Outcome (jg_verdict j) = BatchTooLarge \<or> vd_Outcome (jg_verdict j) = BatchUndecodable
      then if length (bt_entries sent) = 1 then settle_refused wr ident attempts sent 0 r
           else (Goes_on, None, rt_split wr ident sent r)
      else (Goes_on, None, rt_retry recovery t draw again asked j r))"

definition rt_record :: "route \<Rightarrow> route" where
  "rt_record r =
     (let s = no_stats\<lparr>ro_Delivered := rt_acknowledged r\<rparr>;
          s = (case rt_pending r of None \<Rightarrow> s | Some b \<Rightarrow> s\<lparr>ro_Oldest := de_admitted (hd (bt_entries b))\<rparr>);
          s = (if rt_failures r > 0
               then s\<lparr>ro_Failing := rt_failing r, ro_Attempts := rt_failures r, ro_Outcome := vd_Outcome (jg_verdict (rt_last r)),
                      ro_Failure := jg_failure (rt_last r), ro_Next := rt_retrying r, ro_Recovery := rt_recovery r,
                      ro_Reason := vd_Reason (jg_verdict (rt_last r))\<rparr>
               else s)
      in r\<lparr>rt_state := s\<rparr>)"

text \<open>The part of \<open>run\<close> after \<open>compose\<close>; a closed spool ends the route.\<close>

definition rt_composed :: "composed \<Rightarrow> time \<Rightarrow> route \<Rightarrow> route" where
  "rt_composed c t r =
     (case c of
        Compose_failed err \<Rightarrow> if Is err ErrClosed then r else rt_failed True t r
      | Composed b \<Rightarrow> rt_record (r\<lparr>rt_pending := Some b, rt_until := zero_time\<rparr>)
      | _ \<Rightarrow> r)"

end
