(* ===== verification/Delivery_Inv.thy ===== *)
theory Delivery_Inv
  imports Delivery "HOL-Library.Sublist"
begin

text \<open>
  What a route owes the spool: no record that is outstanding is ever passed over. Beside the route
  stands what the spool holds for it, the sequences that are not settled and the next one it will
  give out; the spool answers a read as its interface says, with every outstanding record from
  where the read starts up to the last it returns.
\<close>

record holding =
  hs_out :: "u64 set"
  hs_fresh :: u64

definition read_ok :: "u64 \<Rightarrow> u64 set \<Rightarrow> Entry list \<Rightarrow> bool" where
  "read_ok start out entries \<longleftrightarrow>
     sorted_wrt (<) (map en_Sequence entries)
     \<and> (\<forall>e \<in> set entries. en_Sequence e \<in> out \<and> start \<le> en_Sequence e)
     \<and> (entries \<noteq> [] \<longrightarrow>
          (\<forall>s \<in> out. start \<le> s \<and> s \<le> en_Sequence (last entries) \<longrightarrow> s \<in> en_Sequence ` set entries))"

section \<open>Composing\<close>

lemma frame_sequences [simp]: "batch_sequences (frame_batch wr r ident entries) = map de_sequence entries"
  by (rule nth_equalityI) (simp_all add: batch_sequences_def frame_batch_def Let_def)

lemma frame_length [simp]: "length (bt_entries (frame_batch wr r ident entries)) = length entries"
  by (simp add: frame_batch_def Let_def)

lemma frame_nonempty [simp]: "bt_entries (frame_batch wr p ident entries) = [] \<longleftrightarrow> entries = []"
  by (simp add: length_0_conv [symmetric] del: length_0_conv)

text \<open>How far the loop came, and what became of the records it passed.\<close>

definition composed_to :: "nat \<Rightarrow> Entry list \<Rightarrow> composing \<Rightarrow> composing \<Rightarrow> bool" where
  "composed_to n entries c c' \<longleftrightarrow> n \<le> length entries
     \<and> (\<exists>taken left. map de_sequence (cp_entries c') = map de_sequence (cp_entries c) @ taken
          \<and> cp_quarantined c' = cp_quarantined c @ left
          \<and> set taken \<union> set left = en_Sequence ` set (take n entries)
          \<and> subseq taken (map en_Sequence (take n entries)))
     \<and> cp_next c' = (if n < length entries then en_Sequence (entries ! n) else cp_next c)"

lemma composed_to_0:
  "n = 0 \<Longrightarrow> cp_entries c' = cp_entries c \<Longrightarrow> cp_quarantined c' = cp_quarantined c
     \<Longrightarrow> cp_next c' = (if entries \<noteq> [] then en_Sequence (hd entries) else cp_next c) \<Longrightarrow> composed_to n entries c c'"
  by (simp add: composed_to_def hd_conv_nth)

lemma composed_to_Suc:
  assumes "composed_to n entries d c'" "cp_next d = cp_next c"
    and "cp_entries d = cp_entries c \<and> cp_quarantined d = cp_quarantined c @ [en_Sequence held]
       \<or> map de_sequence (cp_entries d) = map de_sequence (cp_entries c) @ [en_Sequence held] \<and> cp_quarantined d = cp_quarantined c"
  shows "composed_to (Suc n) (held # entries) c c'"
proof -
  obtain taken left where t: "map de_sequence (cp_entries c') = map de_sequence (cp_entries d) @ taken"
    "cp_quarantined c' = cp_quarantined d @ left" "set taken \<union> set left = en_Sequence ` set (take n entries)"
    "subseq taken (map en_Sequence (take n entries))"
    using assms(1) by (auto simp: composed_to_def)
  have n: "n \<le> length entries" "cp_next c' = (if n < length entries then en_Sequence (entries ! n) else cp_next c)"
    using assms(1,2) by (auto simp: composed_to_def)
  show ?thesis
    using assms(3)
  proof
    assume "cp_entries d = cp_entries c \<and> cp_quarantined d = cp_quarantined c @ [en_Sequence held]"
    then show ?thesis
      unfolding composed_to_def using t n
      by (intro conjI exI [of _ taken] exI [of _ "en_Sequence held # left"]) (auto intro: list_emb_Cons)
  next
    assume "map de_sequence (cp_entries d) = map de_sequence (cp_entries c) @ [en_Sequence held] \<and> cp_quarantined d = cp_quarantined c"
    then show ?thesis
      unfolding composed_to_def using t n
      by (intro conjI exI [of _ "en_Sequence held # taken"] exI [of _ left]) auto
  qed
qed

lemma compose_each_spec:
  assumes "cp_error c = None" "list_all (\<lambda>x. x = None) tries"
  shows "\<exists>n. composed_to n entries c (compose_each wr r bound framed items entries tries c)
    \<and> cp_error (compose_each wr r bound framed items entries tries c) = None"
  using assms
proof (induction wr r bound framed items entries tries c rule: compose_each.induct)
  case (1 wr r bound framed items tries c)
  then show ?case using composed_to_0 [of 0 c c "[]"] by auto
next
  case (2 wr r bound framed items held rest tries c)
  show ?case
  proof (cases "identified wr r held")
    case None
    have t: "list_all (\<lambda>x. x = None) (tl tries)" "\<And>err more. tries \<noteq> Some err # more"
      using "2.prems"(2) by (cases tries; auto)+
    let ?d = "c\<lparr>cp_quarantined := cp_quarantined c @ [en_Sequence held]\<rparr>"
    have e: "compose_each wr r bound framed items (held # rest) tries c
        = compose_each wr r bound framed items rest (tl tries) ?d"
      using None t(2) by (auto split: list.splits option.splits)
    have "\<exists>n. composed_to n rest ?d (compose_each wr r bound framed items rest (tl tries) ?d)
        \<and> cp_error (compose_each wr r bound framed items rest (tl tries) ?d) = None"
      using 2 None t by (cases tries) (auto split: option.splits)
    then show ?thesis unfolding e using composed_to_Suc [of _ rest ?d _ c held] by auto
  next
    case (Some identity)
    let ?size = "Framed wr r (length (en_Payload held))"
    show ?thesis
    proof (cases "cp_entries c \<noteq> [] \<and> (framed + ?size > bound \<or> items + ident_Items identity > MaxInventoryItemsPerBatch)")
      case True
      then show ?thesis
        using Some "2.prems" composed_to_0 [of 0 "c\<lparr>cp_next := en_Sequence held\<rparr>" c "held # rest"] by auto
    next
      case False
      let ?d = "c\<lparr>cp_entries := cp_entries c @ [\<lparr>de_sequence = en_Sequence held, de_id = en_ID held,
          de_admitted = en_Admitted held, de_record = en_Payload held\<rparr>]\<rparr>"
      have "\<exists>n. composed_to n rest ?d (compose_each wr r bound (framed + ?size) (items + ident_Items identity) rest tries ?d)
          \<and> cp_error (compose_each wr r bound (framed + ?size) (items + ident_Items identity) rest tries ?d) = None"
        using "2.IH"(3) [OF Some refl False] "2.prems" by simp
      moreover have "compose_each wr r bound framed items (held # rest) tries c
          = compose_each wr r bound (framed + ?size) (items + ident_Items identity) rest tries ?d"
        using Some False by (auto simp: Let_def)
      ultimately show ?thesis using composed_to_Suc [of _ rest ?d _ c held] by auto
    qed
  qed
qed

section \<open>What the route keeps\<close>

definition owed :: "route \<Rightarrow> u64 list" where
  "owed r = (case rt_pending r of None \<Rightarrow> [] | Some b \<Rightarrow> batch_sequences b)"

definition route_inv :: "route \<times> holding \<Rightarrow> bool" where
  "route_inv = (\<lambda>(r, h).
     (\<forall>s \<in> hs_out h. s < rt_next r \<longrightarrow> s \<in> set (owed r))
     \<and> (\<forall>s \<in> hs_out h. s < hs_fresh h) \<and> rt_next r \<le> hs_fresh h
     \<and> sorted_wrt (<) (owed r) \<and> (\<forall>s \<in> set (owed r). s < rt_next r)
     \<and> (\<forall>b. rt_pending r = Some b \<longrightarrow> bt_entries b \<noteq> []))"

lemma sorted_wrt_subseq: "subseq xs ys \<Longrightarrow> sorted_wrt P ys \<Longrightarrow> sorted_wrt P xs"
  by (induction rule: list_emb.induct) (auto dest: list_emb_set)

lemma sorted_below:
  assumes "sorted_wrt (<) (xs :: u64 list)" "s \<in> set xs" "n < length xs"
  shows "s < xs ! n \<longleftrightarrow> s \<in> set (take n xs)"
proof
  assume less: "s < xs ! n"
  obtain i where i: "i < length xs" "s = xs ! i" using assms(2) by (auto simp: in_set_conv_nth)
  have "i < n"
  proof (rule ccontr)
    assume "\<not> i < n"
    then have "n = i \<or> n < i" by auto
    then show False using sorted_wrt_nth_less [OF assms(1), of n i] i less by auto
  qed
  then show "s \<in> set (take n xs)" using i assms(3) by (auto simp: in_set_conv_nth intro!: exI [of _ i])
next
  assume "s \<in> set (take n xs)"
  then obtain i where "i < n" "s = xs ! i" using assms(3) by (auto simp: in_set_conv_nth)
  then show "s < xs ! n" using sorted_wrt_nth_less [OF assms(1)] assms(3) by simp
qed

lemma sorted_last:
  assumes "sorted_wrt (<) (xs :: u64 list)" "s \<in> set xs"
  shows "s \<le> last xs"
proof -
  obtain i where i: "i < length xs" "s = xs ! i" using assms(2) by (auto simp: in_set_conv_nth)
  then have "i = length xs - 1 \<or> i < length xs - 1" by linarith
  then show ?thesis
    using i sorted_wrt_nth_less [OF assms(1), of i "length xs - 1"] last_conv_nth [of xs] by fastforce
qed

text \<open>Everything a read returned below where the route goes on was taken or quarantined.\<close>

lemma compose_covers:
  assumes ok: "read_ok start out entries" and ne: "entries \<noteq> []"
    and c: "composed_to n entries c c'" "cp_entries c = []" "cp_quarantined c = []" "cp_next c = en_Sequence (last entries) + 1"
    and bar: "\<forall>s \<in> out. s < bar" "start \<le> bar"
  shows "\<forall>s \<in> out - set (cp_quarantined c'). start \<le> s \<longrightarrow> s < cp_next c' \<longrightarrow> s \<in> set (map de_sequence (cp_entries c'))"
    "sorted_wrt (<) (map de_sequence (cp_entries c'))" "\<forall>s \<in> set (map de_sequence (cp_entries c')). s < cp_next c'"
    "cp_next c' \<le> bar"
proof -
  let ?s = "map en_Sequence entries"
  obtain left where t: "cp_quarantined c' = left"
    "set (map de_sequence (cp_entries c')) \<union> set left = set (take n ?s)"
    "subseq (map de_sequence (cp_entries c')) (take n ?s)"
    using c by (auto simp: composed_to_def take_map)
  have n: "n \<le> length entries" "cp_next c' = (if n < length entries then ?s ! n else last ?s + 1)"
    using c(1,4) ne by (auto simp: composed_to_def last_map)
  have sorted: "sorted_wrt (<) ?s" using ok by (simp add: read_ok_def)
  have last_in: "last ?s \<in> out" using ok ne by (simp add: read_ok_def last_map)
  have last: "last ?s < last ?s + 1" using word_Suc(2) [of "last ?s" bar] bar(1) last_in by simp
  have before: "s < cp_next c' \<longleftrightarrow> s \<in> set (take n ?s)" if "s \<in> set ?s" for s
  proof (cases "n < length entries")
    case True
    then show ?thesis using n(2) sorted_below [OF sorted that, of n] by simp
  next
    case False
    then show ?thesis using n last sorted_last [OF sorted that] that by auto
  qed
  show "sorted_wrt (<) (map de_sequence (cp_entries c'))"
    using sorted_wrt_subseq [OF t(3)] sorted_wrt_take [OF sorted] by blast
  show "\<forall>s \<in> set (map de_sequence (cp_entries c')). s < cp_next c'"
    using t(2) before set_take_subset [of n ?s] by blast
  show "cp_next c' \<le> bar"
  proof (cases "n < length entries")
    case True
    then have "?s ! n \<in> out" using ok nth_mem [of n entries] by (auto simp: read_ok_def)
    then show ?thesis using True n(2) bar(1) by (auto simp: order.strict_implies_order)
  next
    case False
    then show ?thesis using n(2) word_Suc(1) bar(1) last_in by simp
  qed
  show "\<forall>s \<in> out - set (cp_quarantined c'). start \<le> s \<longrightarrow> s < cp_next c' \<longrightarrow> s \<in> set (map de_sequence (cp_entries c'))"
  proof (intro ballI impI)
    fix s assume s: "s \<in> out - set (cp_quarantined c')" "start \<le> s" "s < cp_next c'"
    have "cp_next c' \<le> last ?s + 1"
      using n(2) sorted_last [OF sorted, of "?s ! n"] last by (cases "n < length entries") auto
    with s(3) have "s < last ?s + 1" by (rule order.strict_trans2)
    then have "s \<le> last ?s" by (rule word_Suc(3) [OF last])
    then have "s \<in> set ?s" using ok ne s by (auto simp: read_ok_def last_map)
    then have "s \<in> set (take n ?s)" using before s(3) by blast
    then show "s \<in> set (map de_sequence (cp_entries c'))" using t s(1) by blast
  qed
qed

section \<open>Steps\<close>

definition settled_by :: "settlement option \<Rightarrow> u64 set" where
  "settled_by s = (case s of None \<Rightarrow> {} | Some (Acknowledges xs) \<Rightarrow> set xs | Some (Quarantines x) \<Rightarrow> {x})"

text \<open>
  What happens to a route and to what the spool holds for it: records are admitted under sequences
  never given out before, records are settled without the route, as the ones that expire are, the
  route composes while nothing is pending, with every attempt to quarantine an unreadable record
  written down, and an answer settles what is pending.
\<close>

inductive route_step :: "wire \<Rightarrow> decoders \<Rightarrow> route \<times> holding \<Rightarrow> route \<times> holding \<Rightarrow> bool" for wr rd where
  Admits: "(\<forall>s \<in> new. hs_fresh h \<le> s \<and> s < bar) \<Longrightarrow> hs_fresh h \<le> bar \<Longrightarrow>
    route_step wr rd (r, h) (r, \<lparr>hs_out = hs_out h \<union> new, hs_fresh = bar\<rparr>)"
| Settled_elsewhere: "out \<subseteq> hs_out h \<Longrightarrow> route_step wr rd (r, h) (r, h\<lparr>hs_out := out\<rparr>)"
| Composes: "rt_pending r = None \<Longrightarrow> (\<forall>entries. read = Inr entries \<longrightarrow> read_ok (rt_next r) (hs_out h) entries) \<Longrightarrow>
    list_all (\<lambda>x. x = None) tries \<Longrightarrow> compose_once wr limits ident read tries r = (c, dropped, r') \<Longrightarrow>
    route_step wr rd (r, h) (rt_composed c t r', h\<lparr>hs_out := hs_out h - set dropped\<rparr>)"
| Delivers: "rt_pending (rt_sending r) = Some b \<Longrightarrow>
    rt_deliver wr recovery ident t draw again (rt_judge wr rd (rt_protocol r) b reply) asked due tries b (rt_sending r) = (res, st, r') \<Longrightarrow>
    route_step wr rd (r, h) (if res = Goes_on then rt_record r' else r', h\<lparr>hs_out := hs_out h - settled_by st\<rparr>)"

inductive_cases route_stepE: "route_step wr rd a b"

lemma composed_fields [simp]:
  "rt_pending (rt_failed own t r) = rt_pending r" "rt_next (rt_failed own t r) = rt_next r"
  "rt_pending (rt_record r) = rt_pending r" "rt_next (rt_record r) = rt_next r"
  "rt_pending (rt_report recovery j due r) = rt_pending r" "rt_next (rt_report recovery j due r) = rt_next r"
  "rt_pending (rt_retry recovery t draw again asked j r) = rt_pending r"
  "rt_next (rt_retry recovery t draw again asked j r) = rt_next r"
  by (simp_all add: rt_failed_def rt_record_def rt_report_def rt_retry_def Let_def)

lemma route_inv_shrinks:
  assumes "route_inv (r, h)" "out \<subseteq> hs_out h" "rt_pending r' = rt_pending r" "rt_next r' = rt_next r"
  shows "route_inv (r', h\<lparr>hs_out := out\<rparr>)"
proof -
  have "owed r' = owed r" using assms(3) by (simp add: owed_def)
  then show ?thesis using assms by (auto simp: route_inv_def)
qed

lemma compose_inv:
  assumes inv: "route_inv (r, h)" and p: "rt_pending r = None"
    and ok: "\<forall>entries. read = Inr entries \<longrightarrow> read_ok (rt_next r) (hs_out h) entries"
    and tries: "list_all (\<lambda>x. x = None) tries"
    and c: "compose_once wr limits ident read tries r = (c, dropped, r')"
  shows "route_inv (rt_composed c t r', h\<lparr>hs_out := hs_out h - set dropped\<rparr>)"
proof (cases "read = Inr [] \<or> (\<exists>err. read = Inl err)")
  case True
  then have "r' = r \<and> dropped = [] \<and> (c = Compose_empty \<or> (\<exists>err. c = Compose_failed err))"
    using c by (auto simp: compose_once_def)
  then show ?thesis
    using route_inv_shrinks [OF inv order_refl, of "rt_composed c t r'"] p by (auto simp: rt_composed_def)
next
  case False
  then obtain entries where e: "read = Inr entries" "entries \<noteq> []" by (cases read) auto
  let ?c = "\<lparr>cp_entries = [], cp_next = en_Sequence (last entries) + 1, cp_error = None, cp_quarantined = []\<rparr>"
  let ?d = "compose_each wr (rt_protocol r) (batch_room wr limits ident r) 0 0 entries tries ?c"
  obtain n where n: "composed_to n entries ?c ?d" "cp_error ?d = None"
    using compose_each_spec [of ?c tries entries wr "rt_protocol r" "batch_room wr limits ident r" 0 0] tries by auto
  have r': "r' = r\<lparr>rt_next := cp_next ?d\<rparr>" "dropped = cp_quarantined ?d"
    "c = (if cp_entries ?d \<noteq> [] then Composed (frame_batch wr (rt_protocol r) ident (cp_entries ?d)) else Compose_again)"
    using c e n(2) by (auto simp: compose_once_def Let_def split: list.splits)
  have o: "\<forall>s \<in> hs_out h. rt_next r \<le> s" "\<forall>s \<in> hs_out h. s < hs_fresh h" "rt_next r \<le> hs_fresh h"
    using inv p by (auto simp: route_inv_def owed_def not_less)
  note cover = compose_covers [OF _ e(2) n(1) _ _ _ o(2,3)]
  have k: "\<forall>s \<in> hs_out h - set dropped. s < cp_next ?d \<longrightarrow> s \<in> set (map de_sequence (cp_entries ?d))"
    "sorted_wrt (<) (map de_sequence (cp_entries ?d))" "\<forall>s \<in> set (map de_sequence (cp_entries ?d)). s < cp_next ?d"
    "cp_next ?d \<le> hs_fresh h"
    using cover ok e(1) o(1) r'(2) by simp_all
  have "rt_next (rt_composed c t r') = cp_next ?d" "owed (rt_composed c t r') = map de_sequence (cp_entries ?d)"
    "\<forall>b. rt_pending (rt_composed c t r') = Some b \<longrightarrow> bt_entries b \<noteq> []"
    unfolding r'(1,3) using p by (cases "cp_entries ?d = []"; simp add: rt_composed_def owed_def)+
  then show ?thesis using k o(2) unfolding route_inv_def by simp
qed

lemma pending_sending:
  assumes "rt_pending (rt_sending r) = Some b"
  shows "owed r = batch_sequences b" "route_inv (r, h) \<Longrightarrow> bt_entries b \<noteq> []"
  using assms by (auto simp: rt_sending_def owed_def batch_sequences_def route_inv_def)

text \<open>
  What keeps a route right when it lets go of the batch it sent: the first \<open>n\<close> of its records stay
  owed, the ones from \<open>k\<close> on are read again, and whatever stands between was settled.
\<close>

lemma route_inv_resumes:
  assumes inv: "route_inv (r, h)"
    and r': "owed r' = take n (owed r)" "rt_next r' = (if k < length (owed r) then min (rt_next r) (owed r ! k) else rt_next r)"
      "\<forall>b. rt_pending r' = Some b \<longrightarrow> bt_entries b \<noteq> []" "n \<le> k"
    and gone: "set (take (k - n) (drop n (owed r))) \<subseteq> gone"
  shows "route_inv (r', h\<lparr>hs_out := hs_out h - gone\<rparr>)"
proof -
  let ?o = "owed r"
  have i: "\<forall>s \<in> hs_out h. s < rt_next r \<longrightarrow> s \<in> set ?o" "\<forall>s \<in> hs_out h. s < hs_fresh h" "rt_next r \<le> hs_fresh h"
    "sorted_wrt (<) ?o" "\<forall>s \<in> set ?o. s < rt_next r"
    using inv by (auto simp: route_inv_def)
  have next_r: "rt_next r' \<le> rt_next r" by (simp add: r'(2))
  have next_k: "rt_next r' = ?o ! k" if "k < length ?o"
  proof -
    have "?o ! k < rt_next r" using i(5) that by simp
    then show ?thesis using that by (simp add: r'(2) min_absorb2)
  qed
  have below: "s < rt_next r' \<longleftrightarrow> s \<in> set (take k ?o)" if "s \<in> set ?o" for s
  proof (cases "k < length ?o")
    case True
    then show ?thesis using next_k sorted_below [OF i(4) that True] by simp
  next
    case False
    then show ?thesis using r'(2) i(5) that by simp
  qed
  have split: "set (take k ?o) = set (take n ?o) \<union> set (take (k - n) (drop n ?o))"
  proof -
    have "take k ?o = take n ?o @ take (k - n) (drop n ?o)" using take_add [of n "k - n" ?o] unfolding le_add_diff_inverse [OF r'(4)] .
    then show ?thesis unfolding set_append [symmetric] by (rule arg_cong)
  qed
  have "\<forall>s \<in> hs_out h - gone. s < rt_next r' \<longrightarrow> s \<in> set (owed r')"
  proof (intro ballI impI)
    fix s assume s: "s \<in> hs_out h - gone" "s < rt_next r'"
    then have "s \<in> set ?o" using i(1) order.strict_trans2 [OF s(2) next_r] by blast
    then have "s \<in> set (take k ?o)" using below s(2) by blast
    then show "s \<in> set (owed r')" using split gone s(1) r'(1) by auto
  qed
  moreover have "\<forall>s \<in> set (owed r'). s < rt_next r'"
  proof
    fix s assume "s \<in> set (owed r')"
    then have "s \<in> set (take n ?o)" using r'(1) by simp
    then have "s \<in> set (take k ?o)" "s \<in> set ?o" using split by (blast, blast dest: in_set_takeD)
    then show "s < rt_next r'" using below by simp
  qed
  moreover have "sorted_wrt (<) (owed r')" using i(4) r'(1) by (simp add: sorted_wrt_take)
  ultimately show ?thesis using i(2) order.trans [OF next_r i(3)] r'(3) by (simp add: route_inv_def)
qed

lemma owed_frame [simp]: "rt_pending r = Some (frame_batch wr p ident entries) \<Longrightarrow> owed r = map de_sequence entries"
  by (simp add: owed_def)

lemma refuse_inv:
  assumes inv: "route_inv (r, h)" and b: "rt_pending (rt_sending r) = Some b" and i: "i < length (bt_entries b)"
  shows "route_inv (rt_refuse wr ident b i (rt_sending r), h\<lparr>hs_out := hs_out h - {de_sequence (bt_entries b ! i)}\<rparr>)"
proof (rule route_inv_resumes [OF inv, of _ i "i + 1"])
  note o = pending_sending(1) [OF b, unfolded batch_sequences_def]
  show "owed (rt_refuse wr ident b i (rt_sending r)) = take i (owed r)"
    unfolding o using i by (simp add: rt_refuse_def Let_def take_map owed_def)
  show "rt_next (rt_refuse wr ident b i (rt_sending r))
      = (if i + 1 < length (owed r) then min (rt_next r) (owed r ! (i + 1)) else rt_next r)"
    by (simp add: rt_refuse_def Let_def o rt_sending_def)
  show "\<forall>c. rt_pending (rt_refuse wr ident b i (rt_sending r)) = Some c \<longrightarrow> bt_entries c \<noteq> []"
    using i by (auto simp: rt_refuse_def Let_def)
  show "set (take (i + 1 - i) (drop i (owed r))) \<subseteq> {de_sequence (bt_entries b ! i)}"
    using i by (simp add: o take_Suc_conv_app_nth hd_drop_conv_nth take_map [symmetric] drop_map take_Suc)
qed simp

lemma split_inv:
  assumes inv: "route_inv (r, h)" and b: "rt_pending (rt_sending r) = Some b" and n: "length (bt_entries b) \<noteq> 1"
  shows "route_inv (rt_split wr ident b (rt_sending r), h)"
proof -
  note o = pending_sending(1) [OF b, unfolded batch_sequences_def]
  let ?h = "length (bt_entries b) div 2"
  have l: "length (bt_entries b) \<ge> 2"
    using n pending_sending(2) [OF b inv] by (cases "bt_entries b" rule: list.exhaust; cases "tl (bt_entries b)") auto
  have "route_inv (rt_split wr ident b (rt_sending r), h\<lparr>hs_out := hs_out h - {}\<rparr>)"
  proof (rule route_inv_resumes [OF inv, of _ ?h ?h])
    show "owed (rt_split wr ident b (rt_sending r)) = take ?h (owed r)"
      unfolding o by (simp add: rt_split_def Let_def take_map owed_def)
    show "rt_next (rt_split wr ident b (rt_sending r))
        = (if ?h < length (owed r) then min (rt_next r) (owed r ! ?h) else rt_next r)"
      using l by (simp add: rt_split_def Let_def o rt_sending_def)
    show "\<forall>c. rt_pending (rt_split wr ident b (rt_sending r)) = Some c \<longrightarrow> bt_entries c \<noteq> []"
      using l by (auto simp: rt_split_def Let_def)
  qed simp_all
  then show ?thesis by simp
qed

lemma delivered_inv:
  assumes inv: "route_inv (r, h)" and b: "rt_pending (rt_sending r) = Some b"
  shows "route_inv (rt_delivered t (rt_sending r), h\<lparr>hs_out := hs_out h - set (batch_sequences b)\<rparr>)"
proof (rule route_inv_resumes [OF inv, of _ 0 "length (owed r)"])
  show "owed (rt_delivered t (rt_sending r)) = take 0 (owed r)"
    "\<forall>c. rt_pending (rt_delivered t (rt_sending r)) = Some c \<longrightarrow> bt_entries c \<noteq> []"
    "rt_next (rt_delivered t (rt_sending r))
      = (if length (owed r) < length (owed r) then min (rt_next r) (owed r ! length (owed r)) else rt_next r)"
    by (simp_all add: rt_delivered_def Let_def owed_def rt_sending_def)
  show "set (take (length (owed r) - 0) (drop 0 (owed r))) \<subseteq> set (batch_sequences b)"
    by (simp add: pending_sending(1) [OF b])
qed simp

lemma sending_inv:
  assumes "route_inv (r, h)" "rt_pending r' = rt_pending (rt_sending r)" "rt_next r' = rt_next (rt_sending r)"
  shows "route_inv (r', h)"
  using assms by (auto simp: route_inv_def rt_sending_def owed_def batch_sequences_def split: option.splits)

lemma refused_index:
  assumes "vd_Outcome (jg_verdict (rt_judge wr rd p b reply)) = RecordRefused"
  shows "nat (vd_Record (jg_verdict (rt_judge wr rd p b reply))) < length (bt_entries b)"
proof (cases reply)
  case (Post_failed err)
  then show ?thesis using assms by (auto simp: rt_judge_def split: prod.splits if_splits)
next
  case (Replied answer)
  let ?sent = "map (\<lambda>e. \<lparr>sn_Record = de_record e, sn_Admitted = de_admitted e\<rparr>) (bt_entries b)"
  have v: "jg_verdict (rt_judge wr rd p b reply) = Judge_answer wr rd p ?sent answer"
    using Replied by (simp add: rt_judge_def Let_def)
  show ?thesis using assms Judge_Record [of wr rd p ?sent answer] unfolding v by simp
qed

text \<open>Whatever the answer was, and however settling it ended, the route still owes what the spool holds.\<close>

lemma deliver_inv:
  assumes inv: "route_inv (r, h)" and b: "rt_pending (rt_sending r) = Some b"
    and d: "rt_deliver wr recovery ident t draw again (rt_judge wr rd p b reply) asked due tries b (rt_sending r) = (res, st, r')"
  shows "route_inv (r', h\<lparr>hs_out := hs_out h - settled_by st\<rparr>)"
proof -
  let ?j = "rt_judge wr rd p b reply" and ?r = "rt_sending r"
  have same: "route_inv (r', h\<lparr>hs_out := hs_out h - settled_by None\<rparr>)"
    if "rt_pending r' = rt_pending ?r" "rt_next r' = rt_next ?r"
    using sending_inv [OF inv that] by (simp add: settled_by_def)
  have refuse: ?thesis if "settle_refused wr ident tries b i ?r = (res, st, r')" "i < length (bt_entries b)" for i
    using that same refuse_inv [OF inv b that(2)]
    by (auto simp: settle_refused_def settled_by_def split: if_splits)
  consider "jg_listener ?j" | "\<not> jg_listener ?j" "vd_Outcome (jg_verdict ?j) = Durable"
    | "\<not> jg_listener ?j" "vd_Outcome (jg_verdict ?j) = RecordRefused"
    | "\<not> jg_listener ?j" "vd_Outcome (jg_verdict ?j) = BatchTooLarge \<or> vd_Outcome (jg_verdict ?j) = BatchUndecodable"
    | "\<not> jg_listener ?j" "vd_Outcome (jg_verdict ?j) \<notin> {Durable, RecordRefused, BatchTooLarge, BatchUndecodable}"
    by blast
  then show ?thesis
  proof cases
    case 1
    then have "st = None" "r' = rt_report recovery ?j due (rt_failed False t ?r)" using d by (auto simp: rt_deliver_def)
    then show ?thesis using same by simp
  next
    case 2
    then show ?thesis
      using d same delivered_inv [OF inv b] by (auto simp: rt_deliver_def settled_by_def split: if_splits)
  next
    case 3
    then show ?thesis using d refuse refused_index by (simp add: rt_deliver_def)
  next
    case 4
    then have o: "vd_Outcome (jg_verdict ?j) \<noteq> Durable" "vd_Outcome (jg_verdict ?j) \<noteq> RecordRefused" by auto
    show ?thesis
    proof (cases "length (bt_entries b) = 1")
      case True
      then show ?thesis using d 4 o refuse [of 0] by (simp add: rt_deliver_def)
    next
      case False
      then have "st = None" "r' = rt_split wr ident b ?r" using d 4 o by (auto simp: rt_deliver_def)
      then show ?thesis using split_inv [OF inv b False] by (simp add: settled_by_def)
    qed
  next
    case 5
    then have "st = None" "r' = rt_retry recovery t draw again asked ?j ?r" using d by (auto simp: rt_deliver_def)
    then show ?thesis using same by simp
  qed
qed

lemma recorded_inv: "route_inv (r, h) \<Longrightarrow> route_inv (rt_record r, h)"
  by (simp add: route_inv_def owed_def)

lemma route_step_inv:
  assumes "route_step wr rd s s'" "route_inv s"
  shows "route_inv s'"
  using assms
proof (induction rule: route_step.induct)
  case (Admits new h bar r)
  then have "rt_next r \<le> bar" by (auto simp: route_inv_def intro: order.trans)
  moreover have "\<forall>s \<in> new. rt_next r \<le> s" using Admits by (auto simp: route_inv_def intro: order.trans)
  moreover have "\<forall>s \<in> hs_out h. s < bar" using Admits by (auto simp: route_inv_def intro: order.strict_trans2)
  ultimately show ?case using Admits by (fastforce simp: route_inv_def)
next
  case (Settled_elsewhere out h r)
  then show ?case using route_inv_shrinks by blast
next
  case (Composes r read h tries limits ident c dropped r' t)
  then show ?case using compose_inv by blast
next
  case (Delivers r b recovery ident t draw again reply asked due tries res st r' h)
  then show ?case using deliver_inv recorded_inv by simp
qed

definition first_route :: "stream \<Rightarrow> Route \<Rightarrow> work_class \<Rightarrow> Policy \<Rightarrow> route \<times> holding" where
  "first_route s p k policy = (new_route s p k policy, \<lparr>hs_out = {}, hs_fresh = 1\<rparr>)"

lemma route_steps_inv: "(route_step wr rd)\<^sup>*\<^sup>* (first_route s p k policy) x \<Longrightarrow> route_inv x"
proof (induction rule: rtranclp_induct)
  case base
  show ?case by (simp add: first_route_def new_route_def route_inv_def owed_def)
next
  case (step y z)
  then show ?case using route_step_inv by blast
qed

section \<open>What settles a record\<close>

text \<open>What the batch carried, as the answer is judged over it.\<close>

definition carried :: "batch \<Rightarrow> Sent list" where
  "carried b = map (\<lambda>e. \<lparr>sn_Record = de_record e, sn_Admitted = de_admitted e\<rparr>) (bt_entries b)"

lemma length_carried [simp]: "length (carried b) = length (bt_entries b)"
  by (simp add: carried_def)

lemma judged_reply:
  assumes "vd_Outcome (jg_verdict (rt_judge wr rd p b reply)) \<notin> {Unconfirmed, Unexpected}"
  obtains answer where "reply = Replied answer" "jg_verdict (rt_judge wr rd p b reply) = Judge_answer wr rd p (carried b) answer"
proof (cases reply)
  case (Post_failed err)
  then show thesis using assms by (auto simp: rt_judge_def split: prod.splits if_splits)
next
  case (Replied answer)
  then show thesis using that [of answer] by (simp add: rt_judge_def carried_def Let_def)
qed

text \<open>What lets the agent take a batch as stored, and what lets it give one record up.\<close>

definition stored :: "decoders \<Rightarrow> batch \<Rightarrow> Answer \<Rightarrow> bool" where
  "stored rd b answer \<longleftrightarrow> an_Status answer = 200 \<and> is_protobuf rd (an_ContentType answer)
     \<and> (\<exists>a. DecodeAck rd (an_Body answer) = Some a \<and> ak_accepted a \<and> ak_durable a \<and> ak_received a = int (length (bt_entries b)))"

definition given_up :: "wire \<Rightarrow> decoders \<Rightarrow> Route \<Rightarrow> batch \<Rightarrow> nat \<Rightarrow> Answer \<Rightarrow> bool" where
  "given_up wr rd p b i answer \<longleftrightarrow> an_Status answer \<noteq> 200 \<and> i < length (bt_entries b)
     \<and> (if vd_Outcome (Judge_answer wr rd p (carried b) answer) = RecordRefused
        then \<exists>refusal. refusalIn rd answer = Some refusal \<and> excluding (rj_code refusal) = None
               \<and> rj_code refusal = sh_refusing (shapes wr p) \<and> rj_index refusal = int i
        else length (bt_entries b) = 1
               \<and> vd_Outcome (Judge_answer wr rd p (carried b) answer) \<in> {BatchTooLarge, BatchUndecodable})"

lemma judged_stored:
  "vd_Outcome (Judge_answer wr rd p (carried b) answer) = Durable \<Longrightarrow> stored rd b answer"
  using Judge_Durable [of wr rd p "carried b" answer] by (simp add: stored_def)

lemma judged_given_up:
  assumes v: "vd_Outcome (Judge_answer wr rd p (carried b) answer) = RecordRefused"
    and i: "i = nat (vd_Record (Judge_answer wr rd p (carried b) answer))"
  shows "given_up wr rd p b i answer"
proof -
  obtain refusal where r: "an_Status answer \<noteq> 200" "refusalIn rd answer = Some refusal" "excluding (rj_code refusal) = None"
    "rj_code refusal = sh_refusing (shapes wr p)"
    "Judge_answer wr rd p (carried b) answer = refused wr rd p (carried b) refusal (Refusal (an_Status answer)) (an_Date answer)"
    using Judge_RecordRefused [OF v] .
  have "rj_index refusal = int i" "i < length (bt_entries b)"
    using refused_outcomes(2) [of wr rd p "carried b" refusal "Refusal (an_Status answer)" "an_Date answer"] v i r(5) by auto
  then show ?thesis using v r by (auto simp: given_up_def)
qed

lemma judged_large:
  assumes "vd_Outcome (Judge_answer wr rd p (carried b) answer) \<in> {BatchTooLarge, BatchUndecodable}" "length (bt_entries b) = 1"
  shows "given_up wr rd p b 0 answer"
proof -
  have "an_Status answer \<noteq> 200"
    using assms(1) by (auto simp: Judge_answer_def acknowledged_def split: if_splits option.splits)
  then show ?thesis using assms by (auto simp: given_up_def)
qed

lemma deliver_settles:
  assumes d: "rt_deliver wr recovery ident t draw again (rt_judge wr rd p b reply) asked due tries b r = (res, Some st, r')"
  shows "\<exists>answer. reply = Replied answer
     \<and> (st = Acknowledges (batch_sequences b) \<and> stored rd b answer
        \<or> (\<exists>i. st = Quarantines (de_sequence (bt_entries b ! i)) \<and> given_up wr rd p b i answer))"
proof -
  let ?v = "jg_verdict (rt_judge wr rd p b reply)"
  have out: "vd_Outcome ?v \<in> {Durable, RecordRefused, BatchTooLarge, BatchUndecodable}"
    using d by (auto simp: rt_deliver_def settle_refused_def split: if_splits)
  then have "vd_Outcome ?v \<notin> {Unconfirmed, Unexpected}" by auto
  then obtain answer where a: "reply = Replied answer" "?v = Judge_answer wr rd p (carried b) answer"
    by (rule judged_reply)
  consider "vd_Outcome ?v = Durable" "st = Acknowledges (batch_sequences b)"
    | "vd_Outcome ?v = RecordRefused" "st = Quarantines (de_sequence (bt_entries b ! nat (vd_Record ?v)))"
    | "vd_Outcome ?v \<in> {BatchTooLarge, BatchUndecodable}" "length (bt_entries b) = 1"
      "st = Quarantines (de_sequence (bt_entries b ! 0))"
    using d out by (auto simp: rt_deliver_def settle_refused_def split: if_splits)
  then show ?thesis
  proof cases
    case 1
    then show ?thesis using a judged_stored by auto
  next
    case 2
    then show ?thesis using a judged_given_up by metis
  next
    case 3
    then show ?thesis using a judged_large by metis
  qed
qed

section \<open>When an unreadable record cannot be quarantined\<close>

text \<open>
  The read is given up at the record that could not be quarantined and goes on from there, with
  nothing pending: the records before it that were already taken are not looked at again.
\<close>

lemma compose_gives_up:
  assumes g: "identified wr (rt_protocol r) good = Some identity" and b: "identified wr (rt_protocol r) bad = None"
  shows "compose_once wr limits ident (Inr (good # bad # rest)) (Some err # tries) r
    = (Compose_failed err, [], r\<lparr>rt_next := en_Sequence bad\<rparr>)"
  using assms by (simp add: compose_once_def Let_def)

lemma gives_up_skips:
  assumes "rt_pending r = None" "en_Sequence good < en_Sequence bad" "en_Sequence good \<in> hs_out h"
  shows "\<not> route_inv (rt_composed (Compose_failed err) t (r\<lparr>rt_next := en_Sequence bad\<rparr>), h)"
proof
  let ?r = "rt_composed (Compose_failed err) t (r\<lparr>rt_next := en_Sequence bad\<rparr>)"
  assume "route_inv (?r, h)"
  moreover have "rt_next ?r = en_Sequence bad" "owed ?r = []" using assms(1) by (simp_all add: rt_composed_def owed_def)
  ultimately show False using assms(2,3) by (auto simp: route_inv_def)
qed

end
