(* ===== verification/Queue_Inv.thy ===== *)
theory Queue_Inv
  imports Queue
begin

text \<open>
  What the operations of a queue that change its files leave: the ledger file replaced whole, the
  segments they are not given kept, and the invariant of the queue. The lemmas hold for whatever
  the host answers.
\<close>

section \<open>The ledger file\<close>

lemma length_drawn_apart:
  "first_name f \<noteq> temporary_name bs" "temporary_name bs \<noteq> first_name f" "ledgerName \<noteq> temporary_name bs"
  "temporary_name bs \<noteq> ledgerName" "first_name f \<noteq> ledgerName" "ledgerName \<noteq> first_name f"
  using names_apart by metis+

lemma store_write_keeps:
  assumes "store_write d j m x = (e, d')" "wf_disk d"
  shows "wf_disk d'"
    and "kept_file d n i bs \<Longrightarrow> i \<noteq> j \<Longrightarrow> n \<noteq> m \<Longrightarrow> n \<noteq> ledgerName \<Longrightarrow> kept_file d' n i bs"
proof -
  obtain e1 d1 where 1: "file_write d j x = (e1, d1)" by (cases "file_write d j x")
  obtain e2 d2 where 2: "(if e1 = None then file_sync d1 j else (e1, d1)) = (e2, d2)"
    by (cases "if e1 = None then file_sync d1 j else (e1, d1)")
  obtain e3 d3 where 3: "attempt d2 = (e3, d3)" by (cases "attempt d2")
  have 4: "(if JoinErr e2 e3 = None then file_rename d3 m ledgerName else (JoinErr e2 e3, d3)) = (e, d')"
    using assms(1) 1 2 3 by (simp add: store_write_def Let_def)
  have "wf_disk d2" "kept_file d n i bs \<Longrightarrow> i \<noteq> j \<Longrightarrow> kept_file d2 n i bs"
    using 2 assms(2) file_write_keeps [OF 1] file_sync_keeps [of d1 j e2 d2]
    by (auto split: if_splits)
  then show "wf_disk d'"
    "kept_file d n i bs \<Longrightarrow> i \<noteq> j \<Longrightarrow> n \<noteq> m \<Longrightarrow> n \<noteq> ledgerName \<Longrightarrow> kept_file d' n i bs"
    using 4 attempt_keeps [OF 3] file_rename_keeps [of d3 m ledgerName e d'] by (auto split: if_splits)
qed

text \<open>A ledger that was written under its name holds the bytes, synced before it was renamed.\<close>

lemma store_write_None:
  assumes "store_write d j m x = (None, d')" "data (inodes d j) = []" "map_of (names d) m = Some j"
  shows "map_of (names d') ledgerName = Some j" "data (inodes d' j) = x" "durable (inodes d' j) = x"
    "fresh d' = fresh d"
proof -
  obtain e1 d1 where 1: "file_write d j x = (e1, d1)" by (cases "file_write d j x")
  obtain e2 d2 where 2: "(if e1 = None then file_sync d1 j else (e1, d1)) = (e2, d2)"
    by (cases "if e1 = None then file_sync d1 j else (e1, d1)")
  obtain e3 d3 where 3: "attempt d2 = (e3, d3)" by (cases "attempt d2")
  have n: "e1 = None" "e2 = None" "e3 = None"
    using assms(1) 1 2 3 by (auto simp: store_write_def Let_def split: if_splits)
  then have 4: "file_rename d3 m ledgerName = (None, d')" "file_sync d1 j = (None, d2)"
    using assms(1) 1 2 3 by (simp_all add: store_write_def Let_def)
  have d1: "data (inodes d1 j) = x" "names d1 = names d" "fresh d1 = fresh d"
    using 1 n(1) assms(2) by (auto elim!: file_write_eq)
  have d2: "data (inodes d2 j) = x" "durable (inodes d2 j) = x" "names d2 = names d" "fresh d2 = fresh d"
    using file_sync_eq [OF 4(2)] d1 by auto
  have d3: "names d3 = names d" "inodes d3 = inodes d2" "fresh d3 = fresh d"
    using attempt_eq [OF 3] d2 by auto
  obtain as k where "d' = d3\<lparr>answers := as, names := AList.update ledgerName k (AList.delete m (names d3))\<rparr>"
    "map_of (names d3) m = Some k"
    using file_rename_eq [OF 4(1)] by auto
  then show "map_of (names d') ledgerName = Some j" "data (inodes d' j) = x" "durable (inodes d' j) = x"
    "fresh d' = fresh d"
    using d2 d3 assms(3) by (simp_all add: update_conv)
qed

lemma q_store_keeps:
  assumes "q_store l q = (r, q')" "wf_disk (q_disk q)"
  shows "wf_disk (q_disk q')"
    and "kept_file (q_disk q) (first_name f) i bs \<Longrightarrow> kept_file (q_disk q') (first_name f) i bs"
    and "r \<noteq> None \<Longrightarrow> q' = q\<lparr>q_disk := q_disk q'\<rparr>"
proof -
  let ?bs = "ledger_encode l (q_stream q)" and ?d = "q_disk q"
  let ?m = "temporary_name (drawn ?d (draws ?d))" and ?d0 = "?d\<lparr>draws := draws ?d + 1\<rparr>"
  have goal: "wf_disk (q_disk q') \<and> (r \<noteq> None \<longrightarrow> q' = q\<lparr>q_disk := q_disk q'\<rparr>)
      \<and> (kept_file ?d (first_name f) i bs \<longrightarrow> kept_file (q_disk q') (first_name f) i bs)"
  proof (cases "length ?bs > maxLedgerBytes")
    case True
    then show ?thesis using assms by (auto simp: q_store_def Let_def)
  next
    case False
    obtain c d1 where 1: "file_create ?d0 ?m = (c, d1)" by (cases "file_create ?d0 ?m")
    have w0: "wf_disk ?d0" using assms(2) by simp
    note k1 = file_create_keeps [OF 1 w0]
    have lift: "kept_file ?d n i bs \<Longrightarrow> kept_file d1 n i bs" for n
      using k1(2) [of n i bs] by simp
    show ?thesis
    proof (cases c)
      case (Inl err)
      then show ?thesis using assms 1 False k1(1) lift by (auto simp: q_store_def Let_def)
    next
      case (Inr j)
      obtain e d2 where 2: "store_write d1 j ?m ?bs = (e, d2)" by (cases "store_write d1 j ?m ?bs")
      have apart: "i \<noteq> j" if "kept_file ?d (first_name f) i bs"
        using that k1(4) [of j] Inr by (auto simp: kept_file_def)
      have k2: "kept_file ?d (first_name f) i bs \<Longrightarrow> kept_file d2 (first_name f) i bs"
        using store_write_keeps(2) [OF 2 k1(1)] lift apart length_drawn_apart by metis
      have w2: "wf_disk d2" by (rule store_write_keeps(1) [OF 2 k1(1)])
      show ?thesis
      proof (cases e)
        case (Some err)
        obtain u d3 where 3: "file_remove d2 ?m = (u, d3)" by (cases "file_remove d2 ?m")
        then show ?thesis
          using assms 1 2 Inr False Some w2 k2 file_remove_keeps [OF 3] length_drawn_apart
          by (auto simp: q_store_def Let_def)
      next
        case None
        obtain s d3 where 3: "syncDirectory d2 = (s, d3)" by (cases "syncDirectory d2")
        then show ?thesis
          using assms 1 2 Inr False None w2 k2 syncDirectory_keeps [OF 3]
          by (auto simp: q_store_def q_charge_def Let_def split: option.splits)
      qed
    qed
  qed
  then show "wf_disk (q_disk q')" "r \<noteq> None \<Longrightarrow> q' = q\<lparr>q_disk := q_disk q'\<rparr>"
    "kept_file (q_disk q) (first_name f) i bs \<Longrightarrow> kept_file (q_disk q') (first_name f) i bs"
    by auto
qed

lemma q_store_None:
  assumes "q_store l q = (None, q')" "wf_disk (q_disk q)"
  shows "\<exists>i. kept_file (q_disk q') ledgerName i (ledger_encode l (q_stream q))"
    and "length (ledger_encode l (q_stream q)) \<le> maxLedgerBytes"
    and "q' = (let n = int (length (ledger_encode l (q_stream q)))
       in q\<lparr>q_disk := q_disk q', q_ledger := l, q_held := n, q_bytes := q_bytes q + (n - q_held q),
            q_budget := budget_add (q_budget q) (q_stream q) (n - q_held q)\<rparr>)"
proof -
  let ?bs = "ledger_encode l (q_stream q)" and ?d = "q_disk q"
  let ?m = "temporary_name (drawn ?d (draws ?d))" and ?d0 = "?d\<lparr>draws := draws ?d + 1\<rparr>"
  show len: "length ?bs \<le> maxLedgerBytes"
    using assms(1) by (auto simp: q_store_def Let_def split: if_splits)
  obtain j d1 where 1: "file_create ?d0 ?m = (Inr j, d1)"
    using assms(1) len by (auto simp: q_store_def Let_def split: prod.splits sum.splits)
  obtain d2 where 2: "store_write d1 j ?m ?bs = (None, d2)"
    using assms(1) len 1
    by (auto simp: q_store_def Let_def JoinErr_def split: prod.splits option.splits)
  obtain d3 where 3: "syncDirectory d2 = (None, d3)"
    using assms(1) len 1 2 by (auto simp: q_store_def Let_def split: prod.splits option.splits)
  have q': "q' = (let n = int (length ?bs)
       in q\<lparr>q_disk := d3, q_ledger := l, q_held := n, q_bytes := q_bytes q + (n - q_held q),
            q_budget := budget_add (q_budget q) (q_stream q) (n - q_held q)\<rparr>)"
    using assms(1) len 1 2 3 by (simp add: q_store_def q_charge_def Let_def)
  then show "q' = (let n = int (length ?bs)
       in q\<lparr>q_disk := q_disk q', q_ledger := l, q_held := n, q_bytes := q_bytes q + (n - q_held q),
            q_budget := budget_add (q_budget q) (q_stream q) (n - q_held q)\<rparr>)"
    by (simp add: Let_def)
  have c: "map_of (names d1) ?m = Some j" "data (inodes d1 j) = []" "j < fresh d1"
    using file_create_keeps(4) [OF 1, of j] assms(2) by auto
  obtain as where d3: "d3 = d2\<lparr>durable_names := names d2, answers := as\<rparr>"
    using syncDirectory_eq(2) [OF 3] by auto
  have "kept_file d3 ledgerName j ?bs"
    using store_write_None [OF 2 c(2,1)] c(3) d3 by (simp add: kept_file_def)
  then show "\<exists>i. kept_file (q_disk q') ledgerName i ?bs"
    using q' by (auto simp: Let_def)
qed

section \<open>The invariant\<close>

definition seg_total :: "segment list \<Rightarrow> int" where
  "seg_total ss = sum_list (List.map (\<lambda>s. int (seg_size s)) ss)"

text \<open>
  A segment that is kept is a durable file of the size the queue counts. The queue is well formed
  when its ledger is, its segments are in order below the next sequence, its bytes are those of its
  files, and, unless it broke, the budget counts the same bytes and every segment is kept; its cursor never points before the segment it
  names. When
  nothing below the first segment is left to settle, the queue is \<^emph>\<open>complete\<close>.
\<close>

definition kept_segment :: "disk \<Rightarrow> segment \<Rightarrow> bool" where
  "kept_segment d s \<longleftrightarrow> (\<exists>i bs. kept_file d (segment_name s) i bs \<and> length bs = seg_size s)"

definition wf_queue :: "queue \<Rightarrow> bool" where
  "wf_queue q \<longleftrightarrow>
     wf_disk (q_disk q) \<and> wf_ledger (q_ledger q)
     \<and> ledger_highest (q_ledger q) \<le> q_next q \<and> q_next q \<le> maxSequence + 1
     \<and> sorted_wrt (<) (List.map seg_first (q_segments q))
     \<and> (\<forall>s \<in> set (q_segments q). 0 < seg_first s \<and> seg_first s \<le> q_next q)
     \<and> q_bytes q = q_held q + seg_total (q_segments q)
     \<and> (q_active q \<noteq> None \<longrightarrow> q_segments q \<noteq> [])
     \<and> unat (cur_first (q_cursor q)) \<le> unat (cur_prev (q_cursor q)) + 1
     \<and> (q_broken q = None \<longrightarrow> b_held (q_budget q) (q_stream q) = q_bytes q
          \<and> (q_active q \<noteq> None \<longrightarrow>
               map_of (names (q_disk q)) (segment_name (last (q_segments q))) = q_active q)
          \<and> (\<forall>s \<in> set (q_segments q). kept_segment (q_disk q) s))"

definition oldest :: "queue \<Rightarrow> u64" where
  "oldest q = (case q_segments q of [] \<Rightarrow> q_next q | s # _ \<Rightarrow> seg_first s)"

definition complete :: "queue \<Rightarrow> bool" where
  "complete q \<longleftrightarrow> {..< oldest q} \<subseteq> settled_set (q_ledger q)"

lemma wf_queueD:
  assumes "wf_queue q"
  shows "wf_disk (q_disk q)" "wf_ledger (q_ledger q)" "ledger_highest (q_ledger q) \<le> q_next q"
    "q_next q \<le> maxSequence + 1" "sorted_wrt (<) (List.map seg_first (q_segments q))"
    "s \<in> set (q_segments q) \<Longrightarrow> 0 < seg_first s \<and> seg_first s \<le> q_next q"
    "q_bytes q = q_held q + seg_total (q_segments q)"
    "q_active q = Some i \<Longrightarrow> q_segments q \<noteq> []"
    "q_broken q = None \<Longrightarrow> b_held (q_budget q) (q_stream q) = q_bytes q"
    "q_broken q = None \<Longrightarrow> s \<in> set (q_segments q) \<Longrightarrow> kept_segment (q_disk q) s"
    "q_broken q = None \<Longrightarrow> q_active q = Some i \<Longrightarrow>
       map_of (names (q_disk q)) (segment_name (last (q_segments q))) = Some i"
    "unat (cur_first (q_cursor q)) \<le> unat (cur_prev (q_cursor q)) + 1"
  using assms by (auto simp: wf_queue_def)

lemma oldest_le: "wf_queue q \<Longrightarrow> oldest q \<le> q_next q"
  using wf_queueD(6) [of q "hd (q_segments q)"] by (auto simp: oldest_def split: list.splits)

lemma seg_total_simps [simp]:
  "seg_total [] = 0" "seg_total (s # ss) = int (seg_size s) + seg_total ss"
  "seg_total (ss @ ts) = seg_total ss + seg_total ts"
  by (simp_all add: seg_total_def)

lemma seg_total_remove:
  assumes "sorted_wrt (<) (List.map seg_first ss)" "h \<in> set ss"
  shows "seg_total (filter (\<lambda>k. seg_first k \<noteq> seg_first h) ss) = seg_total ss - int (seg_size h)"
  using assms
proof (induction ss)
  case (Cons s ss)
  have others: "filter (\<lambda>k. seg_first k \<noteq> seg_first s) ss = ss"
    using Cons.prems(1) by (auto intro!: filter_True)
  show ?case
  proof (cases "h = s")
    case True
    then show ?thesis by (simp add: others)
  next
    case False
    then have "h \<in> set ss" using Cons.prems by simp
    then have "seg_first s \<noteq> seg_first h" using Cons.prems(1) by auto
    then show ?thesis using Cons.IH [OF _ \<open>h \<in> set ss\<close>] Cons.prems(1) by simp
  qed
qed simp

lemma kept_segment_transfer:
  assumes "kept_segment d s"
    and "\<And>i bs. kept_file d (segment_name s) i bs \<Longrightarrow> kept_file d' (segment_name s) i bs"
  shows "kept_segment d' s"
  using assms by (auto simp: kept_segment_def)

text \<open>Another directory will do when it keeps what the queue relies on.\<close>

lemma wf_queue_disk:
  assumes "wf_queue q" "wf_disk d"
    and "\<And>f i bs. kept_file (q_disk q) (first_name f) i bs \<Longrightarrow> kept_file d (first_name f) i bs"
  shows "wf_queue (q\<lparr>q_disk := d\<rparr>)"
proof -
  have "kept_segment d s" if "kept_segment (q_disk q) s" for s
    using kept_segment_transfer [OF that] assms(3) by (simp add: segment_name_def)
  moreover have "map_of (names d) (segment_name (last (q_segments q))) = Some i"
    if "q_broken q = None" "q_active q = Some i" for i
  proof -
    have "kept_segment (q_disk q) (last (q_segments q))"
      using wf_queueD(8,10) [OF assms(1)] that by simp
    then obtain j bs where "kept_file (q_disk q) (segment_name (last (q_segments q))) j bs"
      by (auto simp: kept_segment_def)
    then show ?thesis
      using wf_queueD(11) [OF assms(1) that] assms(3) [of _ j bs] by (auto simp: kept_file_def segment_name_def)
  qed
  ultimately show ?thesis using assms(1,2) by (auto simp: wf_queue_def)
qed

section \<open>Compaction\<close>

text \<open>What compaction may change.\<close>

definition only_files :: "queue \<Rightarrow> queue \<Rightarrow> bool" where
  "only_files q q' \<longleftrightarrow>
     q_stream q' = q_stream q \<and> q_ledger q' = q_ledger q \<and> q_next q' = q_next q
     \<and> q_held q' = q_held q \<and> q_closed q' = q_closed q \<and> q_broken q' = q_broken q
     \<and> q_broke q' = q_broke q \<and> q_maxAge q' = q_maxAge q \<and> q_swept q' = q_swept q
     \<and> q_paused q' = q_paused q \<and> q_refused q' = q_refused q \<and> q_withheld q' = q_withheld q"

lemma only_files_refl [simp]: "only_files q q"
  by (simp add: only_files_def)

lemma only_files_trans: "only_files q q' \<Longrightarrow> only_files q' q'' \<Longrightarrow> only_files q q''"
  by (simp add: only_files_def)

lemma filter_last:
  assumes "P (last xs)" "xs \<noteq> []"
  shows "filter P xs \<noteq> [] \<and> last (filter P xs) = last xs"
  using assms by (induction xs) (auto simp: filter_empty_conv split: if_splits)

lemma compact_step_wf:
  assumes wf: "wf_queue q" and held: "held \<in> set (q_segments q)"
    and step: "compact_step held q = (r, q')"
  shows "wf_queue q'" "only_files q q'"
    "q_segments q' = (if r then filter (\<lambda>k. seg_first k \<noteq> seg_first held) (q_segments q) else q_segments q)"
    "kept_file (q_disk q) (first_name f) i bs \<Longrightarrow> f \<noteq> seg_first held \<Longrightarrow> kept_file (q_disk q') (first_name f) i bs"
proof -
  note w = wf_queueD [OF wf]
  define q1 where "q1 = compact_seal held q"
  note q1_eq = q1_def [unfolded compact_seal_def]
  have keeps1: "kept_file (q_disk q1) n i bs = kept_file (q_disk q) n i bs" for n i bs
    using attempt_keeps(2) [of "q_disk q" _ "snd (attempt (q_disk q))"] by (auto simp: q1_eq prod_eq_iff)
  have wf1: "wf_queue q1"
    using wf attempt_keeps(1) [of "q_disk q" _ "snd (attempt (q_disk q))"] keeps1
    by (auto simp: q1_eq wf_queue_def kept_segment_def prod_eq_iff)
  have same1: "only_files q q1" "q_segments q1 = q_segments q" "q_bytes q1 = q_bytes q"
    by (auto simp: q1_eq only_files_def)
  have act1: "q_active q1 = Some j \<Longrightarrow> seg_first (last (q_segments q)) \<noteq> seg_first held" for j
    by (auto simp: q1_eq split: if_splits)
  obtain e d where rm: "file_remove (q_disk q1) (segment_name held) = (e, d)"
    by (cases "file_remove (q_disk q1) (segment_name held)")
  note k = file_remove_keeps [OF rm]
  have other: "kept_file (q_disk q1) (first_name f) i bs \<Longrightarrow> f \<noteq> seg_first held \<Longrightarrow> kept_file d (first_name f) i bs"
    for f i bs using k(2) by (simp add: segment_name_def)
  have nm: "map_of (names d) (first_name f) = map_of (names (q_disk q1)) (first_name f)"
    if "f \<noteq> seg_first held" for f
    using file_remove_eq [OF rm] that by (auto simp: segment_name_def delete_conv split: if_splits)
  note w1 = wf_queueD [OF wf1]
  have wf_d: "wf_disk d" by (rule k(1) [OF w1(1)])
  have "wf_queue q' \<and> only_files q q'
      \<and> q_segments q' = (if r then filter (\<lambda>k. seg_first k \<noteq> seg_first held) (q_segments q) else q_segments q)
      \<and> q_disk q' = d"
  proof (cases "e \<noteq> None \<and> \<not> IsSome e ErrNotExist")
    case True
    then have q': "q' = q1\<lparr>q_disk := d\<rparr>" "\<not> r"
      using step rm by (simp_all add: compact_step_def q1_def [symmetric] Let_def)
    have "names d = names (q_disk q1)" using file_remove_eq [OF rm] True by auto
    moreover have "kept_segment d s" if "kept_segment (q_disk q1) s" for s
      using kept_segment_transfer [OF that] k(3) True by blast
    ultimately have "wf_queue q'" using wf1 wf_d by (auto simp: wf_queue_def q')
    then show ?thesis using q' same1 by (simp add: only_files_def)
  next
    case False
    define keep where "keep k \<longleftrightarrow> seg_first k \<noteq> seg_first held" for k :: segment
    have keep: "keep = (\<lambda>k. seg_first k \<noteq> seg_first held)" by (simp add: keep_def fun_eq_iff)
    have q': "q' = q_charge (- int (seg_size held))
        (q1\<lparr>q_disk := d, q_segments := filter keep (q_segments q1),
            q_bytes := q_bytes q1 - int (seg_size held),
            q_cursor := (if cur_first (q_cursor q1) = seg_first held then no_cursor else q_cursor q1)\<rparr>)" "r"
      using step rm False by (auto simp: compact_step_def q1_def [symmetric] Let_def keep)
    have "sorted_wrt (<) (List.map seg_first (filter keep (q_segments q1)))"
      using w1(5) by (simp add: sorted_wrt_map sorted_wrt_filter)
    moreover have "seg_total (filter keep (q_segments q1)) = seg_total (q_segments q1) - int (seg_size held)"
      using seg_total_remove [OF w1(5), of held] held same1(2) by (simp add: keep)
    moreover have "filter keep (q_segments q1) \<noteq> []
        \<and> (q_broken q1 = None \<longrightarrow>
             map_of (names d) (segment_name (last (filter keep (q_segments q1)))) = Some j)"
      if "q_active q1 = Some j" for j
      using w1(8,11) that act1 [OF that] filter_last [of keep "q_segments q1"] same1(2) nm
      by (auto simp: segment_name_def keep_def)
    moreover have "kept_segment d s" if "kept_segment (q_disk q1) s" "keep s" for s
      using kept_segment_transfer [OF that(1)] other that(2) by (auto simp: segment_name_def keep_def)
    ultimately have "wf_queue q'"
      using wf1 wf_d by (auto simp: wf_queue_def q' q_charge_def budget_add_def no_cursor_def)
    then show ?thesis
      using q' same1 by (simp add: only_files_def q_charge_def keep)
  qed
  then show "wf_queue q'" "only_files q q'"
    "q_segments q' = (if r then filter (\<lambda>k. seg_first k \<noteq> seg_first held) (q_segments q) else q_segments q)"
    "kept_file (q_disk q) (first_name f) i bs \<Longrightarrow> f \<noteq> seg_first held \<Longrightarrow> kept_file (q_disk q') (first_name f) i bs"
    using other keeps1 by auto
qed

lemma map_fst_uppers [simp]: "List.map fst (uppers n ss) = ss"
  by (induction n ss rule: uppers.induct) auto

lemma uppers_member:
  assumes "(s, u) \<in> set (uppers n ss)" "sorted_wrt (<) (List.map seg_first ss)"
    and "\<And>s. s \<in> set ss \<Longrightarrow> seg_first s \<le> n"
  shows "s \<in> set ss" "seg_first s \<le> u" "u \<le> n"
  using assms by (induction n ss rule: uppers.induct) auto

lemma uppers_unique:
  assumes "sorted_wrt (<) (List.map seg_first ss)" "(s, u) \<in> set (uppers n ss)"
    "(s', u') \<in> set (uppers n ss)" "seg_first s' = seg_first s"
  shows "s' = s" "u' = u"
proof -
  have "distinct (List.map seg_first (List.map fst (uppers n ss)))"
    using assms(1) by (simp add: strict_sorted_iff)
  then have "inj_on (seg_first \<circ> fst) (set (uppers n ss))"
    unfolding map_map distinct_map by (rule conjunct2)
  then have "(s', u') = (s, u)"
    by (rule inj_onD) (use assms(2-4) in simp_all)
  then show "s' = s" "u' = u" by simp_all
qed

text \<open>Every sequence from the first segment on belongs to one segment.\<close>

lemma uppers_cover:
  assumes "x < n" "ss \<noteq> []" "seg_first (hd ss) \<le> x"
  shows "\<exists>s u. (s, u) \<in> set (uppers n ss) \<and> seg_first s \<le> x \<and> x < u"
  using assms
proof (induction n ss rule: uppers.induct)
  case (3 n s t rest)
  show ?case
  proof (cases "x < seg_first t")
    case True
    then show ?thesis using "3.prems"(3) by auto
  next
    case False
    then show ?thesis using "3.IH" "3.prems"(1) by fastforce
  qed
qed auto

lemma compact_each_wf:
  assumes "wf_queue q" "set hs \<subseteq> set (q_segments q)" "distinct (List.map seg_first hs)"
    and "compact_each hs r q = (r', q')"
  shows "wf_queue q' \<and> only_files q q'
    \<and> (\<exists>R \<subseteq> seg_first ` set hs. q_segments q' = filter (\<lambda>k. seg_first k \<notin> R) (q_segments q))
    \<and> (\<forall>f i bs. f \<notin> seg_first ` set hs \<longrightarrow> kept_file (q_disk q) (first_name f) i bs
         \<longrightarrow> kept_file (q_disk q') (first_name f) i bs)"
  using assms
proof (induction hs r q rule: compact_each.induct)
  case (1 r q)
  then show ?case by (auto intro!: exI [of _ "{}"])
next
  case (2 h hs r q)
  obtain r1 q1 where step: "compact_step h q = (r1, q1)" by (cases "compact_step h q")
  have h: "h \<in> set (q_segments q)" using "2.prems"(2) by simp
  note s = compact_step_wf [OF "2.prems"(1) h step]
  have sub: "set hs \<subseteq> set (q_segments q1)"
    using "2.prems"(2,3) by (auto simp: s(3)) (metis image_eqI)
  have each: "compact_each hs (r \<or> r1) q1 = (r', q')" using "2.prems"(4) step by simp
  obtain R where R: "wf_queue q'" "only_files q1 q'" "R \<subseteq> seg_first ` set hs"
    "q_segments q' = filter (\<lambda>k. seg_first k \<notin> R) (q_segments q1)"
    "\<forall>f i bs. f \<notin> seg_first ` set hs \<longrightarrow> kept_file (q_disk q1) (first_name f) i bs
         \<longrightarrow> kept_file (q_disk q') (first_name f) i bs"
    using "2.IH" [OF step [symmetric] s(1) sub _ each] "2.prems"(3) by auto
  have "q_segments q' = filter (\<lambda>k. seg_first k \<notin> (if r1 then insert (seg_first h) R else R)) (q_segments q)"
    unfolding R(4) s(3) by (simp add: conj_commute cong: filter_cong)
  moreover have "(if r1 then insert (seg_first h) R else R) \<subseteq> seg_first ` set (h # hs)"
    using R(3) by auto
  moreover have "kept_file (q_disk q') (first_name f) i bs"
    if "f \<notin> seg_first ` set (h # hs)" "kept_file (q_disk q) (first_name f) i bs" for f i bs
    using that R(5) s(4) by auto
  ultimately show ?case
    using R(1) only_files_trans [OF s(2) R(2)] by blast
qed

text \<open>
  Compaction removes only segments whose every sequence settled, so a complete queue stays
  complete, and keeps every other segment as it was.
\<close>

lemma whole_iff:
  assumes "wf_ledger l" "seg_first s \<le> u"
  shows "whole l (s, u) \<longleftrightarrow> {seg_first s ..< u} \<subseteq> settled_set l"
  using led.counted_whole [OF assms] by (simp add: whole_def)

lemma q_compact_wf:
  assumes wf: "wf_queue q"
  shows "wf_queue (q_compact q)" "only_files q (q_compact q)"
    "complete q \<Longrightarrow> complete (q_compact q)"
    "set (q_segments (q_compact q)) \<subseteq> set (q_segments q)"
    "(s, u) \<in> set (uppers (q_next q) (q_segments q)) \<Longrightarrow> \<not> {seg_first s ..< u} \<subseteq> settled_set (q_ledger q)
       \<Longrightarrow> s \<in> set (q_segments (q_compact q))
         \<and> (\<forall>i bs. kept_file (q_disk q) (segment_name s) i bs
              \<longrightarrow> kept_file (q_disk (q_compact q)) (segment_name s) i bs)"
proof -
  note w = wf_queueD [OF wf]
  define ups where "ups = uppers (q_next q) (q_segments q)"
  define hs where "hs = List.map fst (filter (whole (q_ledger q)) ups)"
  obtain r q1 where each: "compact_each hs False q = (r, q1)" by (cases "compact_each hs False q")
  have sub: "set hs \<subseteq> set (q_segments q)"
    using map_fst_uppers [of "q_next q" "q_segments q"] unfolding hs_def ups_def
    by (metis filter_is_subset image_mono list.set_map)
  have sortd: "sorted_wrt (<) (List.map seg_first (List.map fst ups))"
    using w(5) by (simp add: ups_def)
  then have "sorted_wrt (<) (List.map seg_first hs)"
    unfolding hs_def by (auto simp: sorted_wrt_map intro: sorted_wrt_filter)
  then have dist: "distinct (List.map seg_first hs)"
    by (simp add: strict_sorted_iff)
  obtain R where R: "wf_queue q1" "only_files q q1" "R \<subseteq> seg_first ` set hs"
    "q_segments q1 = filter (\<lambda>k. seg_first k \<notin> R) (q_segments q)"
    "\<forall>f i bs. f \<notin> seg_first ` set hs \<longrightarrow> kept_file (q_disk q) (first_name f) i bs
         \<longrightarrow> kept_file (q_disk q1) (first_name f) i bs"
    using compact_each_wf [OF wf sub dist each] by blast
  obtain e d where sync: "syncDirectory (q_disk q1) = (e, d)" by (cases "syncDirectory (q_disk q1)")
  have q': "q_compact q = (if r then q1\<lparr>q_disk := d\<rparr> else q1)"
    using each sync by (simp add: q_compact_def hs_def ups_def Let_def)
  note k = syncDirectory_keeps [OF sync]
  have seg': "q_segments (q_compact q) = filter (\<lambda>k. seg_first k \<notin> R) (q_segments q)"
    by (simp add: q' R(4))
  show "wf_queue (q_compact q)"
    using R(1) k wf_queue_disk [OF R(1), of d] wf_queueD(1) [OF R(1)] by (auto simp: q')
  show same: "only_files q (q_compact q)"
    using R(2) by (simp add: q' only_files_def)
  show "set (q_segments (q_compact q)) \<subseteq> set (q_segments q)"
    by (auto simp: seg')
  have settled: "{seg_first s ..< u} \<subseteq> settled_set (q_ledger q)"
    if su: "(s, u) \<in> set ups" and mem: "seg_first s \<in> seg_first ` set hs" for s u
  proof -
    obtain s' u' where s': "(s', u') \<in> set ups" "whole (q_ledger q) (s', u')" "seg_first s' = seg_first s"
      using mem by (auto simp: hs_def)
    then have "whole (q_ledger q) (s, u)"
      using uppers_unique [OF w(5)] su by (metis ups_def)
    then show ?thesis
      using whole_iff [OF w(2)] uppers_member [OF su [unfolded ups_def] w(5)] w(6) by auto
  qed
  show "(s, u) \<in> set (uppers (q_next q) (q_segments q)) \<Longrightarrow> \<not> {seg_first s ..< u} \<subseteq> settled_set (q_ledger q)
       \<Longrightarrow> s \<in> set (q_segments (q_compact q))
         \<and> (\<forall>i bs. kept_file (q_disk q) (segment_name s) i bs
              \<longrightarrow> kept_file (q_disk (q_compact q)) (segment_name s) i bs)"
  proof -
    assume su: "(s, u) \<in> set (uppers (q_next q) (q_segments q))"
      and un: "\<not> {seg_first s ..< u} \<subseteq> settled_set (q_ledger q)"
    then have "seg_first s \<notin> seg_first ` set hs" using settled [unfolded ups_def] by blast
    moreover from this have "seg_first s \<notin> R" using R(3) by blast
    moreover have "s \<in> set (q_segments q)" using uppers_member(1) [OF su w(5)] w(6) by blast
    ultimately show ?thesis using R(4,5) k(2) by (simp add: q' segment_name_def)
  qed
  show "complete (q_compact q)" if comp: "complete q"
  proof -
    have "x \<in> settled_set (q_ledger q)" if x: "x < oldest (q_compact q)" for x
    proof (cases "x < oldest q")
      case True
      then show ?thesis using comp by (auto simp: complete_def)
    next
      case False
      have xn: "x < q_next q"
        using x same oldest_le [OF \<open>wf_queue (q_compact q)\<close>] by (simp add: only_files_def)
      have ne: "q_segments q \<noteq> []" "seg_first (hd (q_segments q)) \<le> x"
        using False xn by (auto simp: oldest_def split: list.splits)
      obtain s u where su: "(s, u) \<in> set ups" "seg_first s \<le> x" "x < u"
        using uppers_cover [OF xn ne] by (auto simp: ups_def)
      have "s \<in> set (q_segments q)" using uppers_member(1) [OF su(1) [unfolded ups_def] w(5)] w(6) by blast
      moreover have "s \<notin> set (q_segments (q_compact q))"
      proof
        assume "s \<in> set (q_segments (q_compact q))"
        then have "oldest (q_compact q) \<le> seg_first s"
          using wf_queueD(5) [OF \<open>wf_queue (q_compact q)\<close>]
          by (cases "q_segments (q_compact q)") (auto simp: oldest_def)
        then show False using x su(2) by simp
      qed
      ultimately have "seg_first s \<in> seg_first ` set hs" using R(3) by (auto simp: seg')
      then show ?thesis using settled [OF su(1)] su(2,3) by auto
    qed
    then show ?thesis using same by (auto simp: complete_def only_files_def)
  qed
qed

section \<open>Settling\<close>

lemma q_store_wf:
  assumes wf: "wf_queue q" and l: "wf_ledger l" "ledger_highest l \<le> q_next q"
    and store: "q_store l q = (r, q')"
  shows "wf_queue q'" "q_segments q' = q_segments q" "q_next q' = q_next q"
    "q_stream q' = q_stream q" "q_closed q' = q_closed q" "q_broken q' = q_broken q"
    "q_cursor q' = q_cursor q" "q_active q' = q_active q"
    "q_ledger q' = (if r = None then l else q_ledger q)"
proof -
  note k = q_store_keeps [OF store wf_queueD(1) [OF wf]]
  have w: "wf_queue (q\<lparr>q_disk := q_disk q'\<rparr>)"
    by (rule wf_queue_disk [OF wf k(1,2)])
  have "wf_queue q' \<and> q_segments q' = q_segments q \<and> q_next q' = q_next q
     \<and> q_stream q' = q_stream q \<and> q_closed q' = q_closed q \<and> q_broken q' = q_broken q
     \<and> q_cursor q' = q_cursor q \<and> q_active q' = q_active q
     \<and> q_ledger q' = (if r = None then l else q_ledger q)"
  proof (cases r)
    case None
    define d where "d = q_disk q'"
    have "q' = (let n = int (length (ledger_encode l (q_stream q)))
       in q\<lparr>q_disk := d, q_ledger := l, q_held := n, q_bytes := q_bytes q + (n - q_held q),
            q_budget := budget_add (q_budget q) (q_stream q) (n - q_held q)\<rparr>)"
      using q_store_None(3) [OF store [unfolded None] wf_queueD(1) [OF wf]] by (simp add: d_def)
    then show ?thesis
      using w l unfolding d_def [symmetric] by (simp add: wf_queue_def Let_def budget_add_def None)
  next
    case (Some err)
    define d where "d = q_disk q'"
    have "q' = q\<lparr>q_disk := d\<rparr>" using k(3) Some by (simp add: d_def)
    then show ?thesis using w unfolding d_def [symmetric] by (simp add: Some)
  qed
  then show "wf_queue q'" "q_segments q' = q_segments q" "q_next q' = q_next q"
    "q_stream q' = q_stream q" "q_closed q' = q_closed q" "q_broken q' = q_broken q"
    "q_cursor q' = q_cursor q" "q_active q' = q_active q"
    "q_ledger q' = (if r = None then l else q_ledger q)"
    by simp_all
qed

text \<open>A store followed by a compaction, as every settling ends.\<close>

lemma store_compact_wf:
  assumes wf: "wf_queue q" and l: "wf_ledger l" "ledger_highest l \<le> q_next q"
    and mono: "settled_set (q_ledger q) \<subseteq> settled_set l"
    and run: "(case q_store l q of (Some err, q) \<Rightarrow> (Some err, q) | (None, q) \<Rightarrow> (None, q_compact q)) = (r, q')"
  shows "wf_queue q'" "complete q \<Longrightarrow> complete q'" "q_next q' = q_next q" "q_stream q' = q_stream q"
    "q_closed q' = q_closed q" "q_broken q' = q_broken q"
    "q_ledger q' = (if r = None then l else q_ledger q)"
proof -
  obtain e q1 where s: "q_store l q = (e, q1)" by (cases "q_store l q")
  note st = q_store_wf [OF wf l s]
  note c = q_compact_wf [OF st(1)]
  have old: "oldest q1 = oldest q" by (simp only: oldest_def st(2,3))
  have q': "q' = (if e = None then q_compact q1 else q1)" "r = e"
    using run s by (auto split: option.splits)
  have same: "only_files q1 q'" using c(2) by (simp add: q')
  show "wf_queue q'" using st(1) c(1) by (simp add: q'(1))
  show "q_next q' = q_next q" "q_stream q' = q_stream q" "q_closed q' = q_closed q"
    "q_broken q' = q_broken q" "q_ledger q' = (if r = None then l else q_ledger q)"
    using same st(3-6,9) by (simp_all add: only_files_def q'(2))
  have "complete q \<Longrightarrow> complete q1"
    using mono old st(9) unfolding complete_def by (cases e) auto
  then show "complete q \<Longrightarrow> complete q'" using c(3) unfolding q'(1) by presburger
qed

lemma credit_simps [simp]:
  "watermark (credit k n l) = watermark l" "spans (credit k n l) = spans l"
  by (cases k; simp add: credit_def)+

lemma wf_ledger_cong:
  assumes "watermark l' = watermark l" "spans l' = spans l"
  shows "wf_ledger l' = wf_ledger l" "settled_set l' = settled_set l" "ledger_highest l' = ledger_highest l"
  using assms by (simp_all add: wf_ledger_def settled_set_def ledger_highest_def)

lemma credit_transparent [simp]:
  "wf_ledger (credit k n l) = wf_ledger l" "settled_set (credit k n l) = settled_set l"
  "ledger_highest (credit k n l) = ledger_highest l"
  by (rule wf_ledger_cong; simp)+

text \<open>The last sequence of a ledger is the end of what it settled.\<close>

lemma ledger_highest_le:
  assumes "wf_ledger l" "\<And>x. x \<in> settled_set l \<Longrightarrow> x < n"
  shows "ledger_highest l \<le> n"
proof (rule ccontr)
  assume "\<not> ledger_highest l \<le> n"
  then have n: "n < ledger_highest l" by simp
  have "ledger_highest l - 1 \<in> settled_set l"
  proof (cases "spans l = []")
    case True
    have "0 < watermark l" using assms(1) by (simp add: wf_ledger_def)
    then show ?thesis using True by (simp add: ledger_highest_def settled_set_def word_less_nat_alt unat_minus word_le_nat_alt unat_eq_zero)
  next
    case False
    let ?x = "last (spans l)"
    have x: "?x \<in> set (spans l)" "span_first ?x < span_end ?x"
      using False wf_spans_member [OF wf_ledger_spans [OF assms(1)]] by auto
    then have "span_end ?x - 1 \<in> span_set ?x"
      by (simp add: span_set_def word_less_nat_alt word_le_nat_alt unat_minus)
    then show ?thesis using x(1) False by (auto simp: ledger_highest_def settled_set_def spans_set_def)
  qed
  then have "ledger_highest l - 1 < n" by (rule assms(2))
  moreover have "0 < ledger_highest l" using n by (metis word_gt_0 word_not_simps(1))
  ultimately show False using n
    by (simp add: word_less_nat_alt unat_minus word_le_nat_alt)
qed

end
