(* ===== verification/Queue_Settle.thy ===== *)
theory Queue_Settle
  imports Queue_Inv
begin

text \<open>
  What settling leaves of a queue: \<open>settle\<close> and \<open>settleLost\<close> settle exactly what they are given, count
  each record once under its kind, and keep the invariant, or change no ledger and report the error.
\<close>

section \<open>The ledger below the next sequence\<close>

text \<open>Spans below the next sequence settle into a ledger that stays below it.\<close>

lemma ledger_settle_below:
  assumes wf: "wf_ledger l" "ledger_highest l \<le> n" "n \<le> maxSequence + 1"
    and added: "\<And>x. x \<in> set added \<Longrightarrow> span_end x \<le> n"
    and s: "ledger_settle l added = (l', newly)"
  shows "wf_ledger l'" "ledger_highest l' \<le> n" "settled_set l' = settled_set l \<union> spans_set added"
    "unat newly = card (spans_set added - settled_set l)"
    "delivered l' = delivered l" "lost l' = lost l" "expired l' = expired l" "quarantined l' = quarantined l"
proof -
  have b: "spans_bounded added"
    using added wf(3) unfolding spans_bounded_def by (blast intro: order_trans)
  show w: "wf_ledger l'" and set': "settled_set l' = settled_set l \<union> spans_set added"
    and "unat newly = card (spans_set added - settled_set l)"
    using led.settle_wf [OF wf(1) b] led.settle_elems [OF wf(1) b] led.settle_newly [OF wf(1) b] s by simp_all
  show "delivered l' = delivered l" "lost l' = lost l" "expired l' = expired l" "quarantined l' = quarantined l"
    using ledger_settle_counters [of l added] s by simp_all
  show "ledger_highest l' \<le> n"
  proof (rule ledger_highest_le [OF w])
    fix x assume "x \<in> settled_set l'"
    then show "x < n"
      using set' settled_set_below(1) [OF wf(1)] wf(2) added
      by (auto simp: spans_set_def span_set_def) (metis lessThan_iff order_less_le_trans subsetD)+
  qed
qed

text \<open>A ledger with one kind of settlement counted \<open>n\<close> more times.\<close>

definition counted :: "settlement \<Rightarrow> u64 \<Rightarrow> ledger \<Rightarrow> ledger \<Rightarrow> bool" where
  "counted kind n l l' \<longleftrightarrow>
     delivered l' = delivered l + (if kind = Delivered then n else 0)
     \<and> lost l' = lost l + (if kind = Lost then n else 0)
     \<and> expired l' = expired l + (if kind = Expired then n else 0)
     \<and> quarantined l' = quarantined l + (if kind = Quarantined then n else 0)"

lemma q_settle_spec:
  assumes wf: "wf_queue q" and run: "q_settle seqs kind q = (r, q')"
  shows "wf_queue q'" "complete q \<Longrightarrow> complete q'" "q_next q' = q_next q"
    "r = None \<Longrightarrow> (\<forall>x \<in> set seqs. 0 < x \<and> x < q_next q)
       \<and> settled_set (q_ledger q') = settled_set (q_ledger q) \<union> set seqs
       \<and> counted kind (of_nat (card (set seqs - settled_set (q_ledger q)))) (q_ledger q) (q_ledger q')"
    "r \<noteq> None \<Longrightarrow> q_ledger q' = q_ledger q"
proof -
  note w = wf_queueD [OF wf]
  let ?goal = "wf_queue q' \<and> (complete q \<longrightarrow> complete q') \<and> q_next q' = q_next q
    \<and> (r = None \<longrightarrow> (\<forall>x \<in> set seqs. 0 < x \<and> x < q_next q)
       \<and> settled_set (q_ledger q') = settled_set (q_ledger q) \<union> set seqs
       \<and> counted kind (of_nat (card (set seqs - settled_set (q_ledger q)))) (q_ledger q) (q_ledger q'))
    \<and> (r \<noteq> None \<longrightarrow> q_ledger q' = q_ledger q)"
  have ?goal
  proof (cases "q_closed q \<or> list_ex (\<lambda>seq. seq = 0 \<or> seq \<ge> q_next q) seqs")
    case True
    then show ?thesis using run wf by (auto simp: q_settle_def split: if_splits)
  next
    case False
    then have ok: "0 < x \<and> x < q_next q" if "x \<in> set seqs" for x
      using that by (auto simp: list_ex_iff word_neq_0_conv not_le)
    have below: "x \<le> maxSequence" if "x \<in> set seqs" for x
      using ok [OF that] w(4) by (simp add: word_less_nat_alt word_le_nat_alt)
    have c: "spans_set (consecutive seqs) = set seqs" "wf_spans 0 (consecutive seqs)"
      using consecutive_spec(1,3) [of seqs] below ok by (blast, metis word_not_simps(1))
    have ends: "span_end x \<le> q_next q" if x: "x \<in> set (consecutive seqs)" for x
    proof (rule ccontr)
      assume "\<not> span_end x \<le> q_next q"
      moreover have "span_first x < span_end x"
        using wf_spans_member [OF c(2) x] by simp
      ultimately have "span_end x - 1 \<in> span_set x" "\<not> span_end x - 1 < q_next q"
        by (auto simp: span_set_def word_less_nat_alt word_le_nat_alt unat_minus)
      then show False using c(1) x ok by (auto simp: spans_set_def)
    qed
    obtain l newly where l: "ledger_settle (q_ledger q) (consecutive seqs) = (l, newly)"
      by (cases "ledger_settle (q_ledger q) (consecutive seqs)")
    note s = ledger_settle_below [OF w(2,3,4) ends l, simplified c(1)]
    have newly: "newly = of_nat (card (set seqs - settled_set (q_ledger q)))"
      using s(4) [symmetric] by simp
    show ?thesis
    proof (cases "newly = 0")
      case True
      then have "q' = q" "r = None" using run False l by (auto simp: q_settle_def split: if_splits)
      moreover have "set seqs \<subseteq> settled_set (q_ledger q)" using True s(4) by simp
      ultimately show ?thesis using wf ok True newly by (auto simp: counted_def)
    next
      case nz: False
      have "(case q_store (credit kind newly l) q of (Some err, q) \<Rightarrow> (Some err, q)
          | (None, q) \<Rightarrow> (None, q_compact q)) = (r, q')"
        using run False l nz by (simp add: q_settle_def)
      note st = store_compact_wf [OF wf _ _ _ this]
      have "counted kind newly (q_ledger q) (credit kind newly l)"
        using s(5-8) by (cases kind) (simp_all add: counted_def credit_def)
      then show ?thesis
        using st s(1-3) ok newly by auto
    qed
  qed
  then show "wf_queue q'" "complete q \<Longrightarrow> complete q'" "q_next q' = q_next q"
    "r = None \<Longrightarrow> (\<forall>x \<in> set seqs. 0 < x \<and> x < q_next q)
       \<and> settled_set (q_ledger q') = settled_set (q_ledger q) \<union> set seqs
       \<and> counted kind (of_nat (card (set seqs - settled_set (q_ledger q)))) (q_ledger q) (q_ledger q')"
    "r \<noteq> None \<Longrightarrow> q_ledger q' = q_ledger q"
    by blast+
qed

text \<open>What is lost settles as lost, and each record is counted once over all the losses.\<close>

lemma lost_each_spec:
  assumes "wf_ledger l" "ledger_highest l \<le> n" "n \<le> maxSequence + 1"
    and "\<And>x. x \<in> set losses \<Longrightarrow> span_end (loss_span x) \<le> n"
    and "lost_each losses l rep = (l', rep')"
  shows "wf_ledger l' \<and> ledger_highest l' \<le> n
    \<and> settled_set l' = settled_set l \<union> spans_set (List.map loss_span losses)
    \<and> counted Lost (of_nat (card (spans_set (List.map loss_span losses) - settled_set l))) l l'
    \<and> (rep' \<longleftrightarrow> rep \<or> \<not> spans_set (List.map loss_span losses) \<subseteq> settled_set l)"
  using assms
proof (induction losses l rep arbitrary: rule: lost_each.induct)
  case (1 l rep)
  then show ?case by (simp add: counted_def)
next
  case (2 x losses l rep)
  obtain l1 newly where s: "ledger_settle l [loss_span x] = (l1, newly)"
    by (cases "ledger_settle l [loss_span x]")
  have x: "span_end y \<le> n" if "y \<in> set [loss_span x]" for y using "2.prems"(4) that by simp
  note b = ledger_settle_below [OF "2.prems"(1-3) x s]
  let ?l2 = "l1\<lparr>lost := lost l1 + newly\<rparr>"
  note t = wf_ledger_cong [of ?l2 l1, simplified]
  have "lost_each losses ?l2 (rep \<or> newly \<noteq> 0) = (l', rep')" using "2.prems"(5) s by simp
  then have IH: "wf_ledger l' \<and> ledger_highest l' \<le> n
    \<and> settled_set l' = settled_set l1 \<union> spans_set (List.map loss_span losses)
    \<and> counted Lost (of_nat (card (spans_set (List.map loss_span losses) - settled_set l1))) ?l2 l'
    \<and> (rep' \<longleftrightarrow> (rep \<or> newly \<noteq> 0) \<or> \<not> spans_set (List.map loss_span losses) \<subseteq> settled_set l1)"
    using "2.IH" [OF s [symmetric]] b(1,2) "2.prems"(3,4) t by simp
  let ?A = "span_set (loss_span x)" and ?B = "spans_set (List.map loss_span losses)"
  have "card (?A \<union> ?B - settled_set l) = card (?A - settled_set l) + card (?B - settled_set l1)"
    using b(3) by (subst card_Un_disjoint [symmetric]) (auto intro!: arg_cong [where f = card])
  moreover have "newly = of_nat (card (?A - settled_set l))"
    using b(4) [symmetric] by simp
  moreover have "newly = 0 \<longleftrightarrow> ?A \<subseteq> settled_set l"
    using b(4) by (metis Diff_eq_empty_iff card_0_eq finite_words spans_set_simps(1,2) sup_bot.right_neutral
        unat_eq_zero)
  ultimately show ?case
    using IH b by (auto simp: counted_def)
qed

lemma q_settleLost_spec:
  assumes wf: "wf_queue q" and below: "\<And>x. x \<in> set losses \<Longrightarrow> span_end (loss_span x) \<le> q_next q"
    and run: "q_settleLost losses q = (r, q')"
  shows "wf_queue q'" "complete q \<Longrightarrow> complete q'" "q_next q' = q_next q"
    "r = None \<Longrightarrow> settled_set (q_ledger q') = settled_set (q_ledger q) \<union> spans_set (List.map loss_span losses)
       \<and> counted Lost (of_nat (card (spans_set (List.map loss_span losses) - settled_set (q_ledger q))))
            (q_ledger q) (q_ledger q')"
    "r \<noteq> None \<Longrightarrow> q_ledger q' = q_ledger q"
proof -
  note w = wf_queueD [OF wf]
  let ?L = "spans_set (List.map loss_span losses)"
  have "wf_queue q' \<and> (complete q \<longrightarrow> complete q') \<and> q_next q' = q_next q
    \<and> (r = None \<longrightarrow> settled_set (q_ledger q') = settled_set (q_ledger q) \<union> ?L
       \<and> counted Lost (of_nat (card (?L - settled_set (q_ledger q)))) (q_ledger q) (q_ledger q'))
    \<and> (r \<noteq> None \<longrightarrow> q_ledger q' = q_ledger q)"
  proof (cases "losses = [] \<or> q_closed q")
    case True
    then show ?thesis using run wf by (auto simp: q_settleLost_def counted_def split: if_splits)
  next
    case False
    obtain l rep where l: "lost_each losses (q_ledger q) False = (l, rep)"
      by (cases "lost_each losses (q_ledger q) False")
    note s = lost_each_spec [OF w(2,3,4) below l]
    show ?thesis
    proof (cases rep)
      case nz: False
      then have "q' = q" "r = None" using run False l by (auto simp: q_settleLost_def split: if_splits)
      moreover have "?L \<subseteq> settled_set (q_ledger q)" using nz s by simp
      moreover from this have "card (?L - settled_set (q_ledger q)) = 0" by simp
      ultimately show ?thesis using wf by (simp add: counted_def Un_absorb2 del: card_0_eq)
    next
      case True
      have "(case q_store l q of (Some err, q) \<Rightarrow> (Some err, q) | (None, q) \<Rightarrow> (None, q_compact q)) = (r, q')"
        using run False l True by (simp add: q_settleLost_def)
      from store_compact_wf [OF wf _ _ _ this] show ?thesis using s by auto
    qed
  qed
  then show "wf_queue q'" "complete q \<Longrightarrow> complete q'" "q_next q' = q_next q"
    "r = None \<Longrightarrow> settled_set (q_ledger q') = settled_set (q_ledger q) \<union> ?L
       \<and> counted Lost (of_nat (card (?L - settled_set (q_ledger q)))) (q_ledger q) (q_ledger q')"
    "r \<noteq> None \<Longrightarrow> q_ledger q' = q_ledger q"
    by blast+
qed
end
