(* ===== verification/Queue_Abs.thy ===== *)
theory Queue_Abs
  imports Queue_Settle
begin

text \<open>
  What a stream promises, apart from its files: sequences are given out in order and once, and each
  settles once, under one kind, and is counted then. A queue refines this contract through the
  abstraction \<open>contract\<close>: every operation is a sequence of the contract's steps.
\<close>

record stream_contract =
  ab_next :: u64
  ab_settled :: "u64 set"
  ab_count :: "settlement \<Rightarrow> u64"

text \<open>Either \<open>n\<close> sequences are given out, or a set of given sequences settles as one kind.\<close>

inductive contract_step :: "stream_contract \<Rightarrow> stream_contract \<Rightarrow> bool" where
  given: "unat (ab_next a) + n \<le> 2 ^ 62 + 1 \<Longrightarrow>
     contract_step a (a\<lparr>ab_next := ab_next a + of_nat n\<rparr>)"
| settles: "S \<subseteq> {..< ab_next a} \<Longrightarrow>
     contract_step a
       (a\<lparr>ab_settled := ab_settled a \<union> S,
          ab_count := (ab_count a)(k := ab_count a k + of_nat (card (S - ab_settled a)))\<rparr>)"

inductive_cases contract_stepE: "contract_step a b"

fun counter :: "ledger \<Rightarrow> settlement \<Rightarrow> u64" where
  "counter l Delivered = delivered l"
| "counter l Lost = lost l"
| "counter l Expired = expired l"
| "counter l Quarantined = quarantined l"

lemma counted_iff: "counted k n l l' \<longleftrightarrow> counter l' = (counter l)(k := counter l k + n)"
proof -
  have all: "(\<forall>x. P x) \<longleftrightarrow> P Delivered \<and> P Lost \<and> P Expired \<and> P Quarantined" for P
    by (metis settlement.exhaust)
  show ?thesis by (cases k) (auto simp: counted_def fun_eq_iff all)
qed

definition contract :: "queue \<Rightarrow> stream_contract" where
  "contract q =
     \<lparr>ab_next = q_next q, ab_settled = settled_set (q_ledger q),
      ab_count = counter (q_ledger q)\<rparr>"

definition refines :: "queue \<Rightarrow> queue \<Rightarrow> bool" where
  "refines q q' \<longleftrightarrow> contract_step\<^sup>*\<^sup>* (contract q) (contract q')"

lemma refines_refl [simp]: "refines q q"
  by (simp add: refines_def)

lemma refines_trans [trans]: "refines q q' \<Longrightarrow> refines q' q'' \<Longrightarrow> refines q q''"
  unfolding refines_def by (rule rtranclp_trans)

lemma contract_cong:
  "q_next q' = q_next q \<Longrightarrow> q_ledger q' = q_ledger q \<Longrightarrow> contract q' = contract q"
  by (simp add: contract_def)

lemma refines_same: "q_next q' = q_next q \<Longrightarrow> q_ledger q' = q_ledger q \<Longrightarrow> refines q q'"
  unfolding refines_def by (drule (1) contract_cong) simp

lemma refines_settles:
  assumes "q_next q' = q_next q" "S \<subseteq> {..< q_next q}"
    and "settled_set (q_ledger q') = settled_set (q_ledger q) \<union> S"
    and "counted k (of_nat (card (S - settled_set (q_ledger q)))) (q_ledger q) (q_ledger q')"
  shows "refines q q'"
proof -
  let ?a = "contract q"
  have "contract q' = ?a\<lparr>ab_settled := ab_settled ?a \<union> S,
      ab_count := (ab_count ?a)(k := ab_count ?a k + of_nat (card (S - ab_settled ?a)))\<rparr>"
    using assms by (simp add: contract_def counted_iff)
  moreover have "S \<subseteq> {..< ab_next ?a}" using assms(2) by (simp add: contract_def)
  ultimately have "contract_step ?a (contract q')"
    using contract_step.settles [of S ?a k] by simp
  then show ?thesis by (simp add: refines_def r_into_rtranclp)
qed

lemma refines_given:
  assumes "unat (q_next q) + n \<le> 2 ^ 62 + 1" "q_next q' = q_next q + of_nat n" "q_ledger q' = q_ledger q"
  shows "refines q q'"
proof -
  let ?a = "contract q"
  have "contract q' = ?a\<lparr>ab_next := ab_next ?a + of_nat n\<rparr>"
    using assms(2,3) by (simp add: contract_def)
  moreover have "unat (ab_next ?a) + n \<le> 2 ^ 62 + 1" using assms(1) by (simp add: contract_def)
  ultimately have "contract_step ?a (contract q')"
    using contract_step.given [of ?a n] by simp
  then show ?thesis by (simp add: refines_def r_into_rtranclp)
qed

section \<open>Settling refines the contract\<close>

lemma q_settle_refines:
  assumes "wf_queue q" "q_settle seqs kind q = (r, q')"
  shows "refines q q'"
proof (cases r)
  case None
  note s = q_settle_spec [OF assms]
  have "set seqs \<subseteq> {..< q_next q}" using s(4) None by auto
  then show ?thesis using s(3,4) None by (intro refines_settles [of q' q "set seqs" kind]) simp_all
next
  case (Some e)
  then show ?thesis using q_settle_spec(3,5) [OF assms] by (intro refines_same) simp_all
qed

lemma losses_below:
  assumes "\<And>x. x \<in> set losses \<Longrightarrow> span_end (loss_span x) \<le> n"
  shows "spans_set (List.map loss_span losses) \<subseteq> {..< n}"
  using assms by (auto simp: spans_set_def span_set_def intro: order_less_le_trans)

lemma q_settleLost_refines:
  assumes "wf_queue q" "\<And>x. x \<in> set losses \<Longrightarrow> span_end (loss_span x) \<le> q_next q"
    "q_settleLost losses q = (r, q')"
  shows "refines q q'"
proof (cases r)
  case None
  note s = q_settleLost_spec [OF assms]
  show ?thesis
    using s(3,4) None losses_below [OF assms(2)]
    by (intro refines_settles [of q' q "spans_set (List.map loss_span losses)" Lost]) simp_all
next
  case (Some e)
  then show ?thesis using q_settleLost_spec(3,5) [OF assms] by (intro refines_same) simp_all
qed

section \<open>What the contract keeps\<close>

text \<open>
  Along its steps sequences only grow, what settled stays settled, and the counters together grow by
  the number of sequences that settled.
\<close>

definition counted_all :: "stream_contract \<Rightarrow> u64" where
  "counted_all a = ab_count a Delivered + ab_count a Lost + ab_count a Expired + ab_count a Quarantined"

lemma contract_step_keeps:
  assumes "contract_step a b"
  shows "ab_next a \<le> ab_next b" "ab_settled a \<subseteq> ab_settled b"
    "counted_all b - counted_all a = of_nat (card (ab_settled b - ab_settled a))"
    "ab_settled a \<subseteq> {..< ab_next a} \<Longrightarrow> ab_settled b \<subseteq> {..< ab_next b}"
proof -
  have "ab_next a \<le> ab_next b \<and> ab_settled a \<subseteq> ab_settled b
    \<and> counted_all b - counted_all a = of_nat (card (ab_settled b - ab_settled a))
    \<and> (ab_settled a \<subseteq> {..< ab_next a} \<longrightarrow> ab_settled b \<subseteq> {..< ab_next b})"
    using assms
  proof (cases rule: contract_step.cases)
    case (given n)
    have "unat (of_nat n :: u64) = n" using given(2) by (simp add: unat_of_nat)
    then have "unat (ab_next a + of_nat n) = unat (ab_next a) + n"
      using given(2) by (subst unat_plus) simp_all
    then have "ab_next a \<le> ab_next a + of_nat n" by (simp add: word_le_nat_alt)
    then show ?thesis using given(1) by (auto simp: counted_all_def intro: order_less_le_trans)
  next
    case (settles S k)
    have "(ab_settled a \<union> S) - ab_settled a = S - ab_settled a" by blast
    then show ?thesis using settles by (cases k) (auto simp: counted_all_def)
  qed
  then show "ab_next a \<le> ab_next b" "ab_settled a \<subseteq> ab_settled b"
    "counted_all b - counted_all a = of_nat (card (ab_settled b - ab_settled a))"
    "ab_settled a \<subseteq> {..< ab_next a} \<Longrightarrow> ab_settled b \<subseteq> {..< ab_next b}"
    by blast+
qed

lemma contract_steps_keep:
  assumes "contract_step\<^sup>*\<^sup>* a b"
  shows "ab_next a \<le> ab_next b \<and> ab_settled a \<subseteq> ab_settled b
    \<and> counted_all b - counted_all a = of_nat (card (ab_settled b - ab_settled a))"
  using assms
proof (induction rule: rtranclp_induct)
  case (step b c)
  note k = contract_step_keeps [OF step(2)]
  have "ab_settled c - ab_settled a = (ab_settled c - ab_settled b) \<union> (ab_settled b - ab_settled a)"
    using step(3) k(2) by blast
  moreover have "(ab_settled c - ab_settled b) \<inter> (ab_settled b - ab_settled a) = {}" by blast
  ultimately have "card (ab_settled c - ab_settled a) = card (ab_settled c - ab_settled b) + card (ab_settled b - ab_settled a)"
    by (simp add: card_Un_disjoint)
  moreover have "counted_all c - counted_all a = (counted_all c - counted_all b) + (counted_all b - counted_all a)"
    by simp
  ultimately show ?case using step(3) k by auto
qed simp

end
