(* ===== verification/Queue_Read_Inv.thy ===== *)
theory Queue_Read_Inv
  imports Queue_Read Queue_Abs
begin

text \<open>
  What a read and a sweep leave: entries in order, unsettled, within what was asked for and each
  verified against its checksum; losses and expired runs below the next sequence; and the invariant
  of the queue.
\<close>

section \<open>What is taken\<close>

definition payload_bytes :: "Entry list \<Rightarrow> int" where
  "payload_bytes es = sum_list (List.map (\<lambda>e. int (length (en_Payload e))) es)"

text \<open>
  Of the entries taken so far: their sequences increase, none is settled, all lie in the range, and
  only the first one may hold more than was asked for. \<open>n\<close> bounds every loss.
\<close>

definition taken_ok :: "ledger \<Rightarrow> u64 \<Rightarrow> int \<Rightarrow> int \<Rightarrow> u64 \<Rightarrow> taking \<Rightarrow> bool" where
  "taken_ok l frm most bytes n t \<longleftrightarrow>
     sorted_wrt (<) (List.map en_Sequence (tk_entries t))
     \<and> (\<forall>e \<in> set (tk_entries t). frm \<le> en_Sequence e \<and> en_Sequence e < n \<and> \<not> ledger_settled l (en_Sequence e)
           \<and> en_ID e \<noteq> [] \<and> en_Payload e \<noteq> [])
     \<and> int (length (tk_entries t)) \<le> max most 1
     \<and> tk_payloads t = payload_bytes (tk_entries t)
     \<and> (length (tk_entries t) \<le> 1 \<or> tk_payloads t \<le> bytes)
     \<and> (\<forall>x \<in> set (tk_losses t). span_end (loss_span x) \<le> n)
     \<and> (\<forall>c. tk_reached t = Some c \<longrightarrow> unat (cur_first c) \<le> unat (cur_prev c) + 1)"

definition upto_seq :: "u64 \<Rightarrow> taking \<Rightarrow> bool" where
  "upto_seq prev t \<longleftrightarrow> (\<forall>e \<in> set (tk_entries t). en_Sequence e \<le> prev)"

lemma taken_ok_nothing [simp]: "taken_ok l frm most bytes n nothing_taken"
  by (simp add: taken_ok_def nothing_taken_def payload_bytes_def)

lemma taken_ok_lose:
  "taken_ok l frm most bytes n t \<Longrightarrow> till \<le> n \<Longrightarrow> taken_ok l frm most bytes n (lose held prev till k t)"
  by (auto simp: taken_ok_def lose_def)

lemma lose_simps [simp]:
  "tk_entries (lose held prev till k t) = tk_entries t" "tk_payloads (lose held prev till k t) = tk_payloads t"
  "tk_stopped (lose held prev till k t) = tk_stopped t"
  by (simp_all add: lose_def)

lemma taken_ok_reached:
  "taken_ok l frm most bytes n t \<Longrightarrow> unat (cur_first c) \<le> unat (cur_prev c) + 1 \<Longrightarrow>
     taken_ok l frm most bytes n (t\<lparr>tk_reached := Some c\<rparr>)"
  "taken_ok l frm most bytes n t \<Longrightarrow> unat (cur_first c) \<le> unat (cur_prev c) + 1 \<Longrightarrow>
     taken_ok l frm most bytes n (t\<lparr>tk_reached := Some c, tk_stopped := b\<rparr>)"
  by (auto simp: taken_ok_def)

lemma next_from_Kept:
  "next_from mode start w = (Found f body k, w') \<Longrightarrow> mode_of mode f = Kept \<Longrightarrow> length body = idBytes f + payload f"
proof (induction "walk_end w - walk_at w" arbitrary: w rule: less_induct)
  case less
  show ?case
  proof (cases rule: next_from_cases [of mode start w])
    case (sought v)
    then have "walk_end v - walk_at v < walk_end w - walk_at w"
      using walk_seek_None [OF sought(3,1)] by auto
    then show ?thesis using less sought(4) by simp
  next
    case (bad g b)
    let ?v = "w\<lparr>walk_at := walk_at w + frame_size g, walk_headed := max (walk_headed w) (sequence g)\<rparr>"
    have "walk_end ?v - walk_at ?v < walk_end w - walk_at w"
      using bad by (simp add: frame_size_def)
    from less.hyps [OF this _ less.prems(2)] bad(5) less.prems(1) show ?thesis by simp
  next
    case (good g b)
    then have "g = f" "b = body" using less(2) by auto
    then have "walk_body w f True = Inr (body, True)"
      using good(4) less(3) by (simp add: walk_read_def Let_def)
    then show ?thesis
      by (auto simp: walk_body_def Let_def split: prod.splits option.splits dest!: ReadAt_whole)
  qed (use less in simp)
qed

text \<open>A frame that is wanted is read and verified whole.\<close>

lemma wanted_body:
  assumes "walk_next (Some (wanted l frm upper prev)) w = (Found f body k, w')"
    and "sequence f \<ge> frm" "sequence f > prev" "sequence f < upper" "\<not> ledger_settled l (sequence f)"
  shows "length body = idBytes f + payload f" "0 < idBytes f" "0 < payload f"
    "checksum body = frame_sum f"
proof -
  note n = next_from_Found [OF assms(1) [unfolded walk_next_def], simplified]
  have kept: "mode_of (Some (wanted l frm upper prev)) f = Kept"
    using assms(2-5) by (simp add: mode_of_def wanted_def)
  then have body: "body = body_bytes (content (walk_file w)) f" "checksum body = frame_sum f"
    using n by simp_all
  show "length body = idBytes f + payload f"
    using next_from_Kept [OF assms(1) [unfolded walk_next_def] kept] .
  have "decodeFrameHeader (walk_stream w) (take frameHeaderBytes (drop (offset f) (content (walk_file w)))) (offset f)
      = Some f" using n by (simp add: headed_at_def)
  note d = decodeFrameHeader_SomeD [OF this]
  show "0 < idBytes f" "0 < payload f" by (rule d)+
  show "checksum body = frame_sum f" by (rule body(2))
qed

lemma taken_ok_take:
  assumes "taken_ok l frm most bytes n t" "upto_seq prev t"
    and "sequence f \<ge> frm" "sequence f > prev" "sequence f < n" "\<not> ledger_settled l (sequence f)"
    and "\<not> enough most bytes f t"
    and "length body = idBytes f + payload f" "0 < idBytes f" "0 < payload f"
  shows "taken_ok l frm most bytes n (take_entry f body t)" "upto_seq (sequence f) (take_entry f body t)"
proof -
  have "en_Sequence e < sequence f" if "e \<in> set (tk_entries t)" for e
    using assms(2,4) that by (auto simp: upto_seq_def)
  moreover have "int (length (tk_entries t)) < most \<and> tk_payloads t + int (payload f) \<le> bytes"
    if "tk_entries t \<noteq> []"
    using assms(7) that by (auto simp: enough_def)
  moreover have "length (drop (idBytes f) body) = payload f" "take (idBytes f) body \<noteq> []"
    "drop (idBytes f) body \<noteq> []"
    using assms(8-10) by auto
  ultimately show "taken_ok l frm most bytes n (take_entry f body t)"
    using assms(1,3,5,6)
    by (cases "tk_entries t = []")
      (auto simp: taken_ok_def take_entry_def sorted_wrt_append payload_bytes_def Suc_le_eq)
  show "upto_seq (sequence f) (take_entry f body t)"
    using assms(2,4) by (auto simp: upto_seq_def take_entry_def)
qed

lemma read_walk_ok:
  assumes "read_walk l frm most bytes held upper w prev t = Inr t'"
    and "taken_ok l frm most bytes n t" "upto_seq prev t" "upper \<le> n"
    and "unat (seg_first held) \<le> unat prev + 1"
  shows "taken_ok l frm most bytes n t'
     \<and> (\<forall>e \<in> set (tk_entries t'). en_Sequence e < upper \<or> e \<in> set (tk_entries t))"
  using assms
proof (induction l frm most bytes held upper w prev t rule: read_walk.induct)
  case (1 l frm most bytes held upper w prev t)
  let ?step = "walk_next (Some (wanted l frm upper prev)) w"
  show ?case
  proof (cases ?step)
    case (Pair res w')
    show ?thesis
    proof (cases res)
      case (Stopped k err)
      then have "t' = (lose held prev upper k t)\<lparr>tk_reached := Some
          \<lparr>cur_first = seg_first held, cur_offset = walk_at w', cur_prev = prev\<rparr>\<rparr>"
        using "1.prems"(1) Pair by (subst (asm) read_walk.simps) (auto split: if_splits)
      then show ?thesis
        using "1.prems"(2,4,5) by (auto intro!: taken_ok_reached taken_ok_lose)
    next
      case (Found f body k)
      note st = Pair [unfolded Found]
      show ?thesis
      proof (cases "sequence f \<le> prev \<or> sequence f \<ge> upper")
        case True
        then have "read_walk l frm most bytes held upper w' prev t = Inr t'"
          using "1.prems"(1) st by (subst (asm) read_walk.simps) simp
        then show ?thesis
          using "1.IH"(1) [OF st [symmetric] refl True] "1.prems"(2-5) by blast
      next
        case False
        then have sq: "prev < sequence f" "sequence f < upper" by auto
        define t1 where "t1 = lose held prev (sequence f) k t"
        have t1: "taken_ok l frm most bytes n t1" "upto_seq prev t1" "tk_entries t1 = tk_entries t"
          using "1.prems"(2-4) sq by (auto simp: t1_def upto_seq_def intro!: taken_ok_lose)
        have more: "unat (seg_first held) \<le> unat (sequence f) + 1"
          using "1.prems"(5) sq by (auto simp: word_less_nat_alt)
        show ?thesis
        proof (cases "sequence f \<ge> frm \<and> \<not> ledger_settled l (sequence f)")
          case skip: False
          then have "read_walk l frm most bytes held upper w' (sequence f) t1 = Inr t'"
            using "1.prems"(1) st False by (subst (asm) read_walk.simps) (auto simp: t1_def Let_def)
          moreover have "upto_seq (sequence f) t1" using t1(2) sq(1) by (auto simp: upto_seq_def)
          ultimately show ?thesis
            using "1.IH"(3) [OF st [symmetric] refl False t1_def skip] t1 "1.prems"(4) more by auto
        next
          case take: True
          show ?thesis
          proof (cases "enough most bytes f t1")
            case True
            then have "t' = t1\<lparr>tk_reached := Some \<lparr>cur_first = seg_first held, cur_offset = offset f,
                cur_prev = prev\<rparr>, tk_stopped := True\<rparr>"
              using "1.prems"(1) st False take by (subst (asm) read_walk.simps) (auto simp: t1_def Let_def)
            then show ?thesis using t1 "1.prems"(5) by (auto intro!: taken_ok_reached)
          next
            case notyet: False
            then have "read_walk l frm most bytes held upper w' (sequence f) (take_entry f body t1) = Inr t'"
              using "1.prems"(1) st False take by (subst (asm) read_walk.simps) (auto simp: t1_def Let_def)
            moreover note b = wanted_body [OF st]
            have "sequence f < n" using sq(2) "1.prems"(4) by simp
            note tk = taken_ok_take [OF t1(1,2) _ sq(1) this _ notyet, of body]
            ultimately show ?thesis
              using "1.IH"(2) [OF st [symmetric] refl False t1_def take notyet] tk b t1(3) take sq "1.prems"(4) more
              by (auto simp: take_entry_def)
          qed
        qed
      qed
    qed
  qed
qed

section \<open>Reading all segments\<close>

text \<open>The segments of a queue with their bounds follow one another.\<close>

fun in_turn :: "u64 \<Rightarrow> (segment \<times> u64) list \<Rightarrow> bool" where
  "in_turn low [] = True"
| "in_turn low ((s, u) # rest) = (low \<le> seg_first s \<and> seg_first s \<le> u \<and> in_turn u rest)"

lemma uppers_in_turn:
  assumes "sorted_wrt (<) (List.map seg_first ss)" "\<And>s. s \<in> set ss \<Longrightarrow> seg_first s \<le> n"
    and "ss \<noteq> [] \<Longrightarrow> low \<le> seg_first (hd ss)"
  shows "in_turn low (uppers n ss)"
  using assms by (induction n ss arbitrary: low rule: uppers.induct) auto

lemma only_disk:
  assumes "q' = q\<lparr>q_disk := d\<rparr>" "d = (q_disk q)\<lparr>answers := as\<rparr>"
  shows "only_files q q'" "q_segments q' = q_segments q" "wf_queue q' = wf_queue q" "q_cursor q' = q_cursor q"
  using assms by (auto simp: only_files_def wf_queue_def kept_segment_def)

lemma read_segments_ok:
  assumes "read_segments l frm most bytes a ups t q = (r, q')"
    and "in_turn low ups" "\<forall>e \<in> set (tk_entries t). en_Sequence e < low" "\<forall>(s, u) \<in> set ups. 0 < seg_first s \<and> u \<le> n"
    and "taken_ok l frm most bytes n t" "unat (cur_first a) \<le> unat (cur_prev a) + 1"
  shows "\<exists>as. q' = q\<lparr>q_disk := (q_disk q)\<lparr>answers := as\<rparr>\<rparr>"
    and "r = Inr t' \<Longrightarrow> taken_ok l frm most bytes n t'"
proof -
  have "(\<exists>as. q' = q\<lparr>q_disk := (q_disk q)\<lparr>answers := as\<rparr>\<rparr>) \<and> (r = Inr t' \<longrightarrow> taken_ok l frm most bytes n t')"
    using assms
  proof (induction l frm most bytes a ups t q arbitrary: low rule: read_segments.induct)
    case (1 l frm most bytes a t q)
    then show ?case by (auto intro!: exI [of _ "answers (q_disk q)"])
  next
    case (2 l frm most bytes a held upper rest t q)
    have up: "low \<le> seg_first held" "seg_first held \<le> upper" "in_turn upper rest" "upper \<le> n" "0 < seg_first held"
      "\<forall>(s, u) \<in> set rest. 0 < seg_first s \<and> u \<le> n"
      using "2.prems"(2,4) by auto
    have lower: "\<forall>e \<in> set (tk_entries t). en_Sequence e < upper"
      using "2.prems"(3) up(1,2) by (meson order_less_le_trans order_trans)
    show ?case
    proof (cases "upper \<le> frm \<or> whole l (held, upper)")
      case True
      then show ?thesis using "2.IH"(1) [OF True] "2.prems" up lower by auto
    next
      case False
      obtain o1 d where o: "open_file (q_disk q) (segment_name held) = (o1, d)"
        by (cases "open_file (q_disk q) (segment_name held)")
      obtain as where d: "d = (q_disk q)\<lparr>answers := as\<rparr>" using open_file_eq(1) [OF o] by blast
      show ?thesis
      proof (cases o1)
        case (Inl err)
        let ?t = "if q_holds (seg_first held) (q\<lparr>q_disk := d\<rparr>)
                  then t\<lparr>tk_losses := tk_losses t @ [\<lparr>loss_segment = segment_name held,
                         loss_span = Span (seg_first held) upper, loss_bytes = seg_size held\<rparr>]\<rparr> else t"
        have ok: "taken_ok l frm most bytes n ?t" "tk_entries ?t = tk_entries t"
          using "2.prems"(5) up(4) by (auto simp: taken_ok_def)
        show ?thesis
        proof (cases "Is err ErrNotExist")
          case True
          then have "read_segments l frm most bytes a rest ?t (q\<lparr>q_disk := d\<rparr>) = (r, q')"
            using "2.prems"(1) False o Inl by (simp add: Let_def split: if_splits)
          from "2.IH"(2) [OF False o [symmetric] Inl refl True this up(3) _ up(6) ok(1) "2.prems"(6)] lower ok(2)
          show ?thesis by (auto simp: d)
        next
          case notmissing: False
          then show ?thesis using "2.prems"(1) False o Inl by (auto simp: d)
        qed
      next
        case (Inr i)
        obtain start prev where sp: "read_start a frm held = (start, prev)" by (cases "read_start a frm held")
        define walked where "walked = newWalk (opened d i) (q_stream q) start (seg_size held)"
        define d2 where "d2 = snd (attempt d)"
        obtain as2 where d2: "d2 = (q_disk q)\<lparr>answers := as2\<rparr>"
          using attempt_eq [of d "fst (attempt d)" d2] d by (auto simp: d2_def)
        have prev: "unat (seg_first held) \<le> unat prev + 1"
          using sp "2.prems"(6) up(5)
          by (auto simp: read_start_def unat_minus word_less_nat_alt word_le_nat_alt split: if_splits)
        have upto: "upto_seq prev t"
          unfolding upto_seq_def
        proof
          fix e assume "e \<in> set (tk_entries t)"
          then have "en_Sequence e < seg_first held" using "2.prems"(3) up(1) by (meson order_less_le_trans)
          then show "en_Sequence e \<le> prev" using prev by (simp add: word_less_nat_alt word_le_nat_alt)
        qed
        show ?thesis
        proof (cases "read_walk l frm most bytes held upper walked prev t")
          case e: (Inl err)
          then show ?thesis
            using "2.prems"(1) False o Inr sp d2 by (auto simp: Let_def walked_def d2_def)
        next
          case e: (Inr t1)
          note rw = read_walk_ok [OF e "2.prems"(5) upto up(4) prev]
          show ?thesis
          proof (cases "tk_stopped t1")
            case True
            then show ?thesis
              using "2.prems"(1) False o Inr sp e rw d2 by (auto simp: Let_def walked_def d2_def)
          next
            case go: False
            then have run: "read_segments l frm most bytes a rest t1 (q\<lparr>q_disk := d2\<rparr>) = (r, q')"
              using "2.prems"(1) False o Inr sp e by (simp add: Let_def walked_def d2_def)
            have low1: "\<forall>x \<in> set (tk_entries t1). en_Sequence x < upper"
              using rw lower by blast
            from "2.IH"(3) [OF False o [symmetric] Inr sp [symmetric] walked_def _ refl e go, of upper] run up(3,6) low1 rw "2.prems"(6)
            show ?thesis by (auto simp: d2_def [symmetric] d2)
          qed
        qed
      qed
    qed
  qed
  then show "\<exists>as. q' = q\<lparr>q_disk := (q_disk q)\<lparr>answers := as\<rparr>\<rparr>"
    and "r = Inr t' \<Longrightarrow> taken_ok l frm most bytes n t'" by blast+
qed

section \<open>Sweeping\<close>

text \<open>A sequence a file of the directory holds, admitted before \<open>cutoff\<close>.\<close>

definition stale :: "disk \<Rightarrow> stream \<Rightarrow> int \<Rightarrow> u64 \<Rightarrow> bool" where
  "stale d s cutoff x \<longleftrightarrow>
     (\<exists>i f. headed_at s (data (inodes d i)) f \<and> sequence f = x \<and> admitted f < cutoff)"

text \<open>Runs of sequences that are stale, not settled, and below \<open>n\<close>.\<close>

definition runs_ok :: "(u64 \<Rightarrow> bool) \<Rightarrow> u64 \<Rightarrow> span list \<Rightarrow> bool" where
  "runs_ok P n runs \<longleftrightarrow>
     (\<forall>x \<in> set runs. span_first x < span_end x \<and> span_end x \<le> n) \<and> (\<forall>y \<in> spans_set runs. P y)"

lemma runs_ok_grow:
  assumes "runs_ok P n runs" "P seq" "seq < n" "n \<le> maxSequence + 1"
  shows "runs_ok P n (grow_runs runs seq)"
proof -
  have seq: "seq \<le> maxSequence" using assms(3,4) by (simp add: word_less_nat_alt word_le_nat_alt)
  note s = sequence_succ [OF seq]
  have n: "seq + 1 \<le> n" using s(3) assms(3) by blast
  show ?thesis
  proof (cases "runs \<noteq> [] \<and> span_end (last runs) = seq")
    case True
    then obtain ys z where runs: "runs = ys @ [z]" "span_end z = seq" by (cases runs rule: rev_cases) auto
    have z: "span_first z < seq" using assms(1) runs by (auto simp: runs_ok_def)
    have grown: "grow_runs runs seq = ys @ [z\<lparr>span_end := seq + 1\<rparr>]" using runs by (simp add: grow_runs_def)
    have "{span_first z ..< seq + 1} = insert seq {span_first z ..< seq}"
      by (rule s(5)) (use z in simp)
    then have "spans_set (grow_runs runs seq) = insert seq (spans_set runs)"
      unfolding grown by (simp add: span_set_def runs)
    moreover have "span_first z < seq + 1" using z s(1) by (rule less_trans)
    then have "\<forall>x \<in> set (grow_runs runs seq). span_first x < span_end x \<and> span_end x \<le> n"
      using assms(1) n unfolding grown by (auto simp: runs_ok_def runs(1))
    ultimately show ?thesis using assms(1,2) by (auto simp: runs_ok_def)
  next
    case False
    then have grown: "grow_runs runs seq = runs @ [Span seq (seq + 1)]" by (auto simp: grow_runs_def)
    have "{seq ..< seq + 1} = insert seq {seq ..< seq}" by (rule s(5)) simp
    then show ?thesis
      using assms(1,2) n s(1) unfolding grown runs_ok_def
      by (simp add: span_set_def ball_Un)
  qed
qed

lemma expire_walk_ok:
  assumes "expire_walk l cutoff upper w prev runs = Inr (runs', within)"
    and "runs_ok P n runs" "upper \<le> n" "n \<le> maxSequence + 1"
    and "\<And>f. headed_at (walk_stream w) (content (walk_file w)) f \<Longrightarrow> admitted f < cutoff \<Longrightarrow>
           \<not> ledger_settled l (sequence f) \<Longrightarrow> P (sequence f)"
  shows "runs_ok P n runs'"
  using assms
proof (induction l cutoff upper w prev runs rule: expire_walk.induct)
  case (1 l cutoff upper w prev runs)
  obtain res w' where st: "walk_next (Some (\<lambda>_. HeaderOnly)) w = (res, w')"
    by (cases "walk_next (Some (\<lambda>_. HeaderOnly)) w")
  show ?case
  proof (cases res)
    case (Stopped k err)
    then show ?thesis using "1.prems"(1,2) st by (simp add: expire_walk.simps [of l cutoff upper w] split: if_splits)
  next
    case (Found f body k)
    note st' = st [unfolded Found]
    note at = walk_next_Found_at [OF st']
    have headed: "headed_at (walk_stream w) (content (walk_file w)) f"
      using next_from_Found [OF st' [unfolded walk_next_def]] by simp
    have prem: "headed_at (walk_stream w') (content (walk_file w')) g \<Longrightarrow> admitted g < cutoff \<Longrightarrow>
           \<not> ledger_settled l (sequence g) \<Longrightarrow> P (sequence g)" for g
      using "1.prems"(5) at by simp
    note IH = "1.IH" [OF st' [symmetric] refl]
    show ?thesis
    proof (cases "sequence f \<le> prev \<or> sequence f \<ge> upper")
      case True
      then have "expire_walk l cutoff upper w' prev runs = Inr (runs', within)"
        using "1.prems"(1) st' by (simp add: expire_walk.simps [of l cutoff upper w])
      from IH(1) [OF True this "1.prems"(2-4) prem] show ?thesis .
    next
      case False
      show ?thesis
      proof (cases "ledger_settled l (sequence f)")
        case True
        then have "expire_walk l cutoff upper w' (sequence f) runs = Inr (runs', within)"
          using "1.prems"(1) st' False by (simp add: expire_walk.simps [of l cutoff upper w])
        from IH(2) [OF False True this "1.prems"(2-4) prem] show ?thesis .
      next
        case un: False
        show ?thesis
        proof (cases "admitted f \<ge> cutoff")
          case True
          then show ?thesis using "1.prems"(1,2) st' False un
            by (simp add: expire_walk.simps [of l cutoff upper w])
        next
          case old: False
          have "P (sequence f)" using "1.prems"(5) [OF headed] old un by simp
          moreover have "sequence f < n" using False "1.prems"(3) by auto
          ultimately have ok: "runs_ok P n (grow_runs runs (sequence f))"
            using runs_ok_grow [OF "1.prems"(2)] "1.prems"(4) by blast
          have "expire_walk l cutoff upper w' (sequence f) (grow_runs runs (sequence f)) = Inr (runs', within)"
            using "1.prems"(1) st' False un old by (simp add: expire_walk.simps [of l cutoff upper w])
          from IH(3) [OF False un old this ok "1.prems"(3,4) prem] show ?thesis .
        qed
      qed
    qed
  qed
qed

lemma stale_answers [simp]: "stale (d\<lparr>answers := as\<rparr>) = stale d"
  by (simp add: stale_def fun_eq_iff)

lemma expire_segments_ok:
  assumes "expire_segments l cutoff ups runs q = (r, q')"
    and "\<forall>(s, u) \<in> set ups. u \<le> n" "n \<le> maxSequence + 1"
    and "runs_ok (\<lambda>x. stale (q_disk q) (q_stream q) cutoff x \<and> \<not> ledger_settled l x) n runs"
  shows "(\<exists>as. q' = q\<lparr>q_disk := (q_disk q)\<lparr>answers := as\<rparr>\<rparr>)
     \<and> (r = Inr runs' \<longrightarrow> runs_ok (\<lambda>x. stale (q_disk q) (q_stream q) cutoff x \<and> \<not> ledger_settled l x) n runs')"
  using assms
proof (induction l cutoff ups runs q rule: expire_segments.induct)
  case (1 l cutoff runs q)
  then show ?case by (auto intro!: exI [of _ "answers (q_disk q)"])
next
  case (2 l cutoff held upper rest runs q)
  have up: "upper \<le> n" "\<forall>(s, u) \<in> set rest. u \<le> n" using "2.prems"(2) by auto
  show ?case
  proof (cases "whole l (held, upper)")
    case True
    then show ?thesis using "2.IH"(1) [OF True] "2.prems" up by simp
  next
    case False
    obtain o1 d where o: "open_file (q_disk q) (segment_name held) = (o1, d)"
      by (cases "open_file (q_disk q) (segment_name held)")
    obtain as where d: "d = (q_disk q)\<lparr>answers := as\<rparr>" using open_file_eq(1) [OF o] by blast
    show ?thesis
    proof (cases o1)
      case (Inl err)
      show ?thesis
      proof (cases "Is err ErrNotExist")
        case True
        then have "expire_segments l cutoff rest runs (q\<lparr>q_disk := d\<rparr>) = (r, q')"
          using "2.prems"(1) False o Inl by simp
        from "2.IH"(2) [OF False o [symmetric] Inl refl True this up(2) "2.prems"(3)] "2.prems"(4)
        show ?thesis by (auto simp: d)
      next
        case notmissing: False
        then show ?thesis using "2.prems"(1) False o Inl by (auto simp: d)
      qed
    next
      case (Inr i)
      define walked where "walked = newWalk (opened d i) (q_stream q) segmentHeaderBytes (seg_size held)"
      define d2 where "d2 = snd (attempt d)"
      obtain as2 where d2: "d2 = (q_disk q)\<lparr>answers := as2\<rparr>"
        using attempt_eq [of d "fst (attempt d)" d2] d by (auto simp: d2_def)
      show ?thesis
      proof (cases "expire_walk l cutoff upper walked (seg_first held - 1) runs")
        case e: (Inl err)
        then show ?thesis
          using "2.prems"(1) False o Inr d2 by (auto simp: Let_def walked_def d2_def)
      next
        case e: (Inr res)
        obtain runs1 within where res: "res = (runs1, within)" by (cases res)
        have ok: "runs_ok (\<lambda>x. stale (q_disk q) (q_stream q) cutoff x \<and> \<not> ledger_settled l x) n runs1"
          by (rule expire_walk_ok [OF e [unfolded res] "2.prems"(4) up(1) "2.prems"(3)])
            (auto simp: walked_def newWalk_def opened_def stale_def d)
        show ?thesis
        proof (cases within)
          case True
          then show ?thesis
            using "2.prems"(1) False o Inr e res ok d2 by (auto simp: Let_def walked_def d2_def)
        next
          case go: False
          then have run: "expire_segments l cutoff rest runs1 (q\<lparr>q_disk := d2\<rparr>) = (r, q')"
            using "2.prems"(1) False o Inr e res by (simp add: Let_def walked_def d2_def)
          from "2.IH"(3) [OF False o [symmetric] Inr walked_def _ refl e res [symmetric] go] run up(2) ok "2.prems"(3)
          show ?thesis by (auto simp: d2_def [symmetric] d2)
        qed
      qed
    qed
  qed
qed

section \<open>What a sweep and a read leave\<close>

lemma wf_queue_fields:
  assumes "wf_queue q" "q_segments q' = q_segments q" "q_next q' = q_next q" "q_ledger q' = q_ledger q"
    "q_bytes q' = q_bytes q" "q_held q' = q_held q" "q_active q' = q_active q" "q_broken q' = q_broken q"
    "q_budget q' = q_budget q" "q_stream q' = q_stream q"
    "q_disk q' = (q_disk q)\<lparr>answers := as\<rparr>"
    "unat (cur_first (q_cursor q')) \<le> unat (cur_prev (q_cursor q')) + 1"
  shows "wf_queue q'"
  using assms unfolding wf_queue_def kept_segment_def by simp

lemma q_expire_spec:
  assumes wf: "wf_queue q" and run: "q_expire h q = (r, q')"
  shows "wf_queue q'" "complete q \<Longrightarrow> complete q'" "q_next q' = q_next q" "q_stream q' = q_stream q"
    "q_closed q' = q_closed q" "q_broken q' = q_broken q"
    "r = Inl err \<Longrightarrow> q_ledger q' = q_ledger q"
    "r = Inr n \<Longrightarrow> \<exists>E. (\<forall>x \<in> E. stale (q_disk q) (q_stream q) (now h - q_maxAge q) x \<and> x < q_next q
            \<and> \<not> ledger_settled (q_ledger q) x)
       \<and> settled_set (q_ledger q') = settled_set (q_ledger q) \<union> E \<and> unat n = card E
       \<and> counted Expired n (q_ledger q) (q_ledger q')"
proof -
  note w = wf_queueD [OF wf]
  let ?P = "\<lambda>x. stale (q_disk q) (q_stream q) (now h - q_maxAge q) x \<and> \<not> ledger_settled (q_ledger q) x"
  let ?goal = "wf_queue q' \<and> (complete q \<longrightarrow> complete q') \<and> q_next q' = q_next q \<and> q_stream q' = q_stream q
     \<and> q_closed q' = q_closed q \<and> q_broken q' = q_broken q
     \<and> (r = Inl err \<longrightarrow> q_ledger q' = q_ledger q)
     \<and> (r = Inr n \<longrightarrow> (\<exists>E. (\<forall>x \<in> E. ?P x \<and> x < q_next q)
         \<and> settled_set (q_ledger q') = settled_set (q_ledger q) \<union> E \<and> unat n = card E
         \<and> counted Expired n (q_ledger q) (q_ledger q')))"
  have idle: ?goal if "r = Inr 0 \<or> (\<exists>e. r = Inl e)" "only_files (q\<lparr>q_swept := s\<rparr>) q'" "wf_queue q'"
      "q_segments q' = q_segments q" for s
    using that by (auto simp: only_files_def complete_def oldest_def counted_def cong: list.case_cong intro!: exI [of _ "{}"])
  have ?goal
  proof (cases "q_closed q \<or> q_maxAge q \<le> 0")
    case True
    have wf0: "wf_queue (q\<lparr>q_swept := s\<rparr>)" for s using wf by (simp add: wf_queue_def)
    have "\<exists>s. (r = Inr 0 \<or> (\<exists>e. r = Inl e)) \<and> q' = q\<lparr>q_swept := s\<rparr>"
    proof (cases "q_closed q")
      case True
      then show ?thesis using run by (intro exI [of _ "q_swept q"]) (auto simp: q_expire_def)
    next
      case False
      then show ?thesis
        using run True by (intro exI [of _ "now h"]) (auto simp: q_expire_def Let_def)
    qed
    then obtain s where s: "r = Inr 0 \<or> (\<exists>e. r = Inl e)" "q' = q\<lparr>q_swept := s\<rparr>" by blast
    show ?thesis by (rule idle [of s]) (use s in \<open>simp_all add: wf0\<close>)
  next
    case False
    define q0 where "q0 = q\<lparr>q_swept := now h\<rparr>"
    obtain o1 q1 where ex: "expire_segments (q_ledger q) (now h - q_maxAge q) (uppers (q_next q) (q_segments q)) [] q0
        = (o1, q1)"
      by (cases "expire_segments (q_ledger q) (now h - q_maxAge q) (uppers (q_next q) (q_segments q)) [] q0")
    have ups: "\<forall>(s, u) \<in> set (uppers (q_next q) (q_segments q)). u \<le> q_next q"
      using uppers_member(3) [OF _ w(5)] w(6) by blast
    note eo = expire_segments_ok [OF ex ups w(4)]
    have runs0: "runs_ok (\<lambda>x. stale (q_disk q0) (q_stream q0) (now h - q_maxAge q) x
        \<and> \<not> ledger_settled (q_ledger q) x) (q_next q) []"
      by (simp add: runs_ok_def)
    obtain as where q1: "q1 = q0\<lparr>q_disk := (q_disk q0)\<lparr>answers := as\<rparr>\<rparr>" using eo [OF runs0] by blast
    have wf1: "wf_queue q1" "q_segments q1 = q_segments q" "only_files (q\<lparr>q_swept := now h\<rparr>) q1"
      "q_ledger q1 = q_ledger q" "q_next q1 = q_next q"
      using wf w(12) by (auto intro!: wf_queue_fields [OF wf, of _ as] simp: q1 q0_def only_files_def)
    show ?thesis
    proof (cases o1)
      case (Inl e)
      then have "q' = q1" "r = Inl e"
        using run False ex by (auto simp: q_expire_def Let_def q0_def)
      with wf1 have "r = Inr 0 \<or> (\<exists>e. r = Inl e)" "only_files (q\<lparr>q_swept := now h\<rparr>) q'" "wf_queue q'"
        "q_segments q' = q_segments q" by simp_all
      then show ?thesis by (rule idle)
    next
      case (Inr runs)
      have ro: "runs_ok ?P (q_next q) runs"
        using eo [OF runs0, of runs] Inr by (simp add: q0_def)
      obtain l newly where s: "ledger_settle (q_ledger q) runs = (l, newly)"
        by (cases "ledger_settle (q_ledger q) runs")
      show ?thesis
      proof (cases "runs = [] \<or> newly = 0")
        case True
        then have "q' = q1" "r = Inr 0"
          using run False ex Inr s wf1(4) by (auto simp: q_expire_def Let_def q0_def split: if_splits)
        with wf1 have "r = Inr 0 \<or> (\<exists>e. r = Inl e)" "only_files (q\<lparr>q_swept := now h\<rparr>) q'" "wf_queue q'"
          "q_segments q' = q_segments q" by simp_all
        then show ?thesis by (rule idle)
      next
        case nz: False
        have ends: "span_end x \<le> q_next q" if "x \<in> set runs" for x
          using ro that by (auto simp: runs_ok_def)
        note sb = ledger_settle_below [OF w(2,3,4) ends s]
        let ?l = "l\<lparr>expired := expired l + newly\<rparr>"
        note t = wf_ledger_cong [of ?l l, simplified]
        have fresh: "spans_set runs - settled_set (q_ledger q) = spans_set runs"
          using ro ledger_settled_iff [OF w(2)] by (auto simp: runs_ok_def)
        have below: "x < q_next q" if "x \<in> spans_set runs" for x
          using that ends by (auto simp: spans_set_def span_set_def intro: order_less_le_trans)
        define st where "st = q_store ?l q1"
        have step: "(case st of (Some err, q) \<Rightarrow> (Some err, q) | (None, q) \<Rightarrow> (None, q_compact q))
            = (case r of Inl e \<Rightarrow> Some e | Inr _ \<Rightarrow> None, q')" "\<And>m. r = Inr m \<Longrightarrow> m = newly"
          using run False ex Inr s wf1(4) nz
          by (auto simp: q_expire_def Let_def q0_def st_def split: prod.splits option.splits)
        have pre: "wf_ledger ?l" "ledger_highest ?l \<le> q_next q1" "settled_set (q_ledger q1) \<subseteq> settled_set ?l"
          using sb(1-3) t wf1(4,5) by simp_all
        note sc = store_compact_wf [OF wf1(1) pre step(1) [unfolded st_def]]
        have "complete q1" if "complete q"
          using that wf1(2,4,5) by (simp add: complete_def oldest_def cong: list.case_cong)
        then have base: "wf_queue q'" "complete q \<Longrightarrow> complete q'" "q_next q' = q_next q" "q_stream q' = q_stream q"
          "q_closed q' = q_closed q" "q_broken q' = q_broken q"
          using sc(1-6) wf1(3) by (simp_all add: only_files_def)
        have count: "counted Expired newly (q_ledger q) ?l"
          using sb(5-8) by (simp add: counted_def)
        show ?thesis
        proof (cases r)
          case (Inl e)
          then show ?thesis using base sc(7) wf1(4) by simp
        next
          case (Inr m)
          have "settled_set (q_ledger q') = settled_set (q_ledger q) \<union> spans_set runs"
            "unat m = card (spans_set runs)" "counted Expired m (q_ledger q) (q_ledger q')"
            using sc(7) Inr sb(3,4) t(2) step(2) [OF Inr] fresh count by simp_all
          moreover have "\<forall>x \<in> spans_set runs. ?P x \<and> x < q_next q"
            using ro below by (simp add: runs_ok_def)
          ultimately show ?thesis using base Inr by blast
        qed
      qed
    qed
  qed
  then show "wf_queue q'" "complete q \<Longrightarrow> complete q'" "q_next q' = q_next q" "q_stream q' = q_stream q"
    "q_closed q' = q_closed q" "q_broken q' = q_broken q"
    "r = Inl err \<Longrightarrow> q_ledger q' = q_ledger q"
    "r = Inr n \<Longrightarrow> \<exists>E. (\<forall>x \<in> E. stale (q_disk q) (q_stream q) (now h - q_maxAge q) x \<and> x < q_next q
            \<and> \<not> ledger_settled (q_ledger q) x)
       \<and> settled_set (q_ledger q') = settled_set (q_ledger q) \<union> E \<and> unat n = card E
       \<and> counted Expired n (q_ledger q) (q_ledger q')"
    by blast+
qed

lemma q_expire_refines:
  assumes "wf_queue q" "q_expire h q = (r, q')"
  shows "refines q q'"
proof (cases r)
  case (Inl e)
  then show ?thesis using q_expire_spec(3,7) [OF assms] by (intro refines_same) simp_all
next
  case (Inr n)
  then obtain E where E: "\<forall>x \<in> E. x < q_next q \<and> \<not> ledger_settled (q_ledger q) x"
    "settled_set (q_ledger q') = settled_set (q_ledger q) \<union> E" "unat n = card E"
    "counted Expired n (q_ledger q) (q_ledger q')"
    using q_expire_spec(8) [OF assms, of n] by blast
  have "E - settled_set (q_ledger q) = E"
    using E(1) ledger_settled_iff [OF wf_queueD(2) [OF assms(1)]] by auto
  then have "n = of_nat (card (E - settled_set (q_ledger q)))" using E(3) [symmetric] by simp
  then show ?thesis
    using E q_expire_spec(3) [OF assms] by (intro refines_settles [of q' q E Expired]) auto
qed

lemma q_expireDue_cases:
  assumes "q_expireDue h q = (r, q')"
  obtains "q_expire h q = (r, q')" | "r = Inr 0" "q' = q"
proof (cases "q_maxAge q > 0 \<and> now h - q_swept q \<ge> expiryInterval")
  case True
  then show ?thesis using assms that(1) by (simp add: q_expireDue_def)
next
  case False
  then have "(Inr 0, q) = (r, q')" using assms by (simp add: q_expireDue_def split: if_splits)
  then show ?thesis using that(2) by simp
qed

text \<open>
  A read returns unsettled entries in order and within what was asked for; what it could not read
  settles as lost.
\<close>

lemma q_read_spec:
  assumes wf: "wf_queue q" and run: "q_read h frm most bytes q = (r, q')"
  shows "wf_queue q'" "complete q \<Longrightarrow> complete q'" "q_next q' = q_next q"
    "r = Inr es \<Longrightarrow> sorted_wrt (<) (List.map en_Sequence es)
       \<and> (\<forall>e \<in> set es. frm \<le> en_Sequence e \<and> 0 < en_Sequence e \<and> en_Sequence e < q_next q
             \<and> \<not> ledger_settled (q_ledger q) (en_Sequence e) \<and> en_ID e \<noteq> [] \<and> en_Payload e \<noteq> [])
       \<and> int (length es) \<le> max most 1 \<and> (length es \<le> 1 \<or> payload_bytes es \<le> bytes)"
    "settled_set (q_ledger q) \<subseteq> settled_set (q_ledger q')" "refines q q'"
proof -
  obtain o0 q0 where due: "q_expireDue h q = (o0, q0)" by (cases "q_expireDue h q")
  have zero: "wf_queue q0 \<and> (complete q \<longrightarrow> complete q0) \<and> q_next q0 = q_next q
      \<and> settled_set (q_ledger q) \<subseteq> settled_set (q_ledger q0) \<and> refines q q0"
  proof (cases rule: q_expireDue_cases [OF due])
    case 1
    show ?thesis
    proof (cases o0)
      case (Inl e)
      then show ?thesis using q_expire_spec(1-3,7) [OF wf 1] q_expire_refines [OF wf 1] by simp
    next
      case (Inr m)
      then show ?thesis using q_expire_spec(1-3) [OF wf 1] q_expire_spec(8) [OF wf 1, of m]
          q_expire_refines [OF wf 1] by auto
    qed
  qed (use wf in simp)
  then have wf0: "wf_queue q0" by simp
  note w = wf_queueD [OF wf0]
  let ?goal = "wf_queue q' \<and> (complete q0 \<longrightarrow> complete q') \<and> q_next q' = q_next q0
    \<and> settled_set (q_ledger q0) \<subseteq> settled_set (q_ledger q') \<and> refines q0 q'
    \<and> (r = Inr es \<longrightarrow> (\<exists>t. es = tk_entries t \<and> taken_ok (q_ledger q0) (max frm 1) most bytes (q_next q0) t))"
  have ?goal
  proof (cases "(\<exists>e. o0 = Inl e) \<or> q_closed q0")
    case True
    then have "q' = q0" "\<exists>e. r = Inl e"
      using run due by (auto simp: q_read_def split: sum.splits)
    then show ?thesis using wf0 by auto
  next
    case False
    let ?ups = "uppers (q_next q0) (q_segments q0)"
    obtain o1 q1 where rs: "read_segments (q_ledger q0) (max frm 1) most bytes (q_cursor q0) ?ups nothing_taken q0
        = (o1, q1)"
      by (cases "read_segments (q_ledger q0) (max frm 1) most bytes (q_cursor q0) ?ups nothing_taken q0")
    have turn: "in_turn 0 ?ups" by (rule uppers_in_turn [OF w(5)]) (use w(6) in auto)
    have ups: "\<forall>(s, u) \<in> set ?ups. 0 < seg_first s \<and> u \<le> q_next q0"
      using uppers_member(1,3) [OF _ w(5)] w(6) by blast
    have none: "\<forall>e \<in> set (tk_entries nothing_taken). en_Sequence e < 0" by (simp add: nothing_taken_def)
    note ok = read_segments_ok [OF rs turn none ups taken_ok_nothing w(12)]
    obtain as where q1: "q1 = q0\<lparr>q_disk := (q_disk q0)\<lparr>answers := as\<rparr>\<rparr>" using ok(1) by blast
    have "wf_queue q1" "only_files q0 q1" "q_segments q1 = q_segments q0"
      using only_disk [OF q1 refl] wf0 by simp_all
    have same1: "complete q0 \<longrightarrow> complete q1"
      by (simp add: q1 complete_def oldest_def cong: list.case_cong)
    show ?thesis
    proof (cases o1)
      case (Inl e)
      then have "q' = q1" "r = Inl e" using run due False rs by (auto simp: q_read_def split: sum.splits)
      then show ?thesis using \<open>wf_queue q1\<close> same1 \<open>only_files q0 q1\<close>
        by (simp add: only_files_def refines_same)
    next
      case (Inr t)
      have tk: "taken_ok (q_ledger q0) (max frm 1) most bytes (q_next q0) t" by (rule ok(2) [OF Inr])
      define q2 where "q2 = (case tk_reached t of None \<Rightarrow> q1 | Some c \<Rightarrow> q1\<lparr>q_cursor := c\<rparr>)"
      have two: "q_ledger q2 = q_ledger q0" "q_next q2 = q_next q0" "q_segments q2 = q_segments q0"
        by (simp_all add: q2_def q1 split: option.splits)
      have wf2: "wf_queue q2"
        using tk w(12) by (intro wf_queue_fields [OF wf0, of _ as])
          (auto simp: q2_def q1 taken_ok_def split: option.splits)
      obtain e q3 where sl: "q_settleLost (tk_losses t) q2 = (e, q3)" by (cases "q_settleLost (tk_losses t) q2")
      have losses: "span_end (loss_span x) \<le> q_next q2" if "x \<in> set (tk_losses t)" for x
        using tk that two(2) by (simp add: taken_ok_def)
      note s = q_settleLost_spec [OF wf2 losses sl]
      have q': "q' = q3" "r = (case e of None \<Rightarrow> Inr (tk_entries t) | Some err \<Rightarrow> Inl err)"
        using run due False rs Inr sl
        by (auto simp: q_read_def q2_def Let_def split: sum.splits option.splits)
      have "complete q0 \<longrightarrow> complete q2"
        using two by (simp add: complete_def oldest_def cong: list.case_cong)
      moreover have "settled_set (q_ledger q0) \<subseteq> settled_set (q_ledger q3)"
        using s(4,5) two(1) by (cases e) auto
      moreover have "r = Inr es \<longrightarrow> es = tk_entries t" using q'(2) by (auto split: option.splits)
      moreover have "refines q0 q3"
        using q_settleLost_refines [OF wf2 losses sl] refines_same [of q2 q0] two refines_trans by simp
      ultimately show ?thesis using s(1-3) two(2) tk q'(1) by auto
    qed
  qed
  then show "wf_queue q'" "complete q \<Longrightarrow> complete q'" "q_next q' = q_next q"
    "settled_set (q_ledger q) \<subseteq> settled_set (q_ledger q')"
    using zero by auto
  show "refines q q'" using zero \<open>?goal\<close> refines_trans by blast
  assume "r = Inr es"
  then obtain t where t: "es = tk_entries t" "taken_ok (q_ledger q0) (max frm 1) most bytes (q_next q0) t"
    using \<open>?goal\<close> by blast
  have "\<not> ledger_settled (q_ledger q) x" if "\<not> ledger_settled (q_ledger q0) x" for x
    using that zero ledger_settled_iff [OF wf_queueD(2) [OF wf]] ledger_settled_iff [OF w(2)] by auto
  moreover have "frm \<le> x \<and> 0 < x" if "max frm 1 \<le> x" for x
    using that by (simp add: word_less_nat_alt word_le_nat_alt unat_max)
  ultimately show "sorted_wrt (<) (List.map en_Sequence es)
       \<and> (\<forall>e \<in> set es. frm \<le> en_Sequence e \<and> 0 < en_Sequence e \<and> en_Sequence e < q_next q
             \<and> \<not> ledger_settled (q_ledger q) (en_Sequence e) \<and> en_ID e \<noteq> [] \<and> en_Payload e \<noteq> [])
       \<and> int (length es) \<le> max most 1 \<and> (length es \<le> 1 \<or> payload_bytes es \<le> bytes)"
    using t zero unfolding taken_ok_def by auto
qed

end
