(* ===== verification/Queue_Read_Cover.thy ===== *)
theory Queue_Read_Cover
  imports Queue_Read_Inv
begin

text \<open>
  That a read passes nothing over: of the sequences from where it starts up to the last it returns,
  each is returned, was settled, or is settled by the read as lost; and what it returns is not lost.
\<close>

definition lost_set :: "taking \<Rightarrow> u64 set" where
  "lost_set t = spans_set (List.map loss_span (tk_losses t))"

definition answered_for :: "ledger \<Rightarrow> u64 \<Rightarrow> taking \<Rightarrow> u64 set" where
  "answered_for l frm t = {..< frm} \<union> settled_set l \<union> lost_set t \<union> en_Sequence ` set (tk_entries t)"

text \<open>Everything below \<open>lim\<close> is accounted for, and what was taken and what was lost lie below it, apart.\<close>

definition accounted :: "ledger \<Rightarrow> u64 \<Rightarrow> u64 \<Rightarrow> taking \<Rightarrow> bool" where
  "accounted l frm lim t \<longleftrightarrow> {..< lim} \<subseteq> answered_for l frm t
     \<and> (\<forall>e \<in> set (tk_entries t). en_Sequence e < lim \<and> en_Sequence e \<notin> lost_set t) \<and> (\<forall>x \<in> lost_set t. x < lim)"

lemma accounted_cong:
  "tk_entries t' = tk_entries t \<Longrightarrow> tk_losses t' = tk_losses t \<Longrightarrow> accounted l frm lim t' = accounted l frm lim t"
  by (simp add: accounted_def answered_for_def lost_set_def)

lemma lost_set_lose:
  assumes "lim \<le> till"
  shows "lost_set (t\<lparr>tk_losses := tk_losses t @ [\<lparr>loss_segment = s, loss_span = Span lim till, loss_bytes = k\<rparr>]\<rparr>)
    = lost_set t \<union> {lim ..< till}"
  by (auto simp: lost_set_def spans_set_def span_set_def)

lemma accounted_lost:
  assumes "accounted l frm lim t" "lim \<le> till"
  shows "accounted l frm till (t\<lparr>tk_losses := tk_losses t @ [\<lparr>loss_segment = s, loss_span = Span lim till, loss_bytes = k\<rparr>]\<rparr>)"
proof -
  let ?t = "t\<lparr>tk_losses := tk_losses t @ [\<lparr>loss_segment = s, loss_span = Span lim till, loss_bytes = k\<rparr>]\<rparr>"
  note lost = lost_set_lose [OF assms(2), of t s k]
  have a: "{..< lim} \<subseteq> answered_for l frm t" "\<And>e. e \<in> set (tk_entries t) \<Longrightarrow> en_Sequence e < lim \<and> en_Sequence e \<notin> lost_set t"
    "\<And>x. x \<in> lost_set t \<Longrightarrow> x < lim"
    using assms(1) by (auto simp: accounted_def)
  have "{..< till} \<subseteq> {..< lim} \<union> {lim ..< till}" by auto
  then have "{..< till} \<subseteq> answered_for l frm ?t" using a(1) by (auto simp: answered_for_def lost)
  moreover have "en_Sequence e < till \<and> en_Sequence e \<notin> lost_set ?t" if "e \<in> set (tk_entries ?t)" for e
    using a(2) [of e] that assms(2) by (auto simp: lost intro: order.strict_trans2)
  moreover have "x < till" if "x \<in> lost_set ?t" for x
    using a(3) [of x] that assms(2) by (auto simp: lost intro: order.strict_trans2)
  ultimately show ?thesis by (simp add: accounted_def)
qed

lemma accounted_lose:
  assumes "accounted l frm (prev + 1) t" "prev + 1 \<le> till"
  shows "accounted l frm till (lose held prev till k t)"
proof (cases "prev + 1 < till")
  case True
  then show ?thesis using accounted_lost [OF assms] by (simp add: lose_def)
next
  case False
  then have "till = prev + 1" using assms(2) by simp
  then show ?thesis using assms(1) by (simp add: lose_def)
qed

lemma accounted_next:
  assumes a: "accounted l frm seq t" and n: "seq < seq + 1"
  shows "seq < frm \<or> seq \<in> settled_set l \<Longrightarrow> accounted l frm (seq + 1) t"
    "sequence f = seq \<Longrightarrow> accounted l frm (seq + 1) (take_entry f body t)"
proof -
  have up: "x < seq + 1 \<longleftrightarrow> x < seq \<or> x = seq" for x
    using word_Suc(3) [OF n, of x] n by (auto simp: order.order_iff_strict)
  show "seq < frm \<or> seq \<in> settled_set l \<Longrightarrow> accounted l frm (seq + 1) t"
    using a unfolding accounted_def answered_for_def lessThan_def by (auto simp: up)
  show "sequence f = seq \<Longrightarrow> accounted l frm (seq + 1) (take_entry f body t)"
    using a unfolding accounted_def answered_for_def lessThan_def lost_set_def take_entry_def by (auto simp: up)
qed

section \<open>One segment\<close>

text \<open>A walk over a segment accounts for it to its end, or to where the read had enough.\<close>

definition accounts_to :: "ledger \<Rightarrow> u64 \<Rightarrow> u64 \<Rightarrow> taking \<Rightarrow> bool" where
  "accounts_to l frm upper t \<longleftrightarrow>
     (if tk_stopped t then tk_entries t \<noteq> [] \<and> (\<exists>lim. accounted l frm lim t) else accounted l frm upper t)"

lemma read_walk_accounts:
  assumes "read_walk l frm most bytes held upper w prev t = Inr t'" "wf_ledger l"
    and "accounted l frm (prev + 1) t" "prev < upper" "\<not> tk_stopped t"
  shows "accounts_to l frm upper t'"
  using assms
proof (induction l frm most bytes held upper w prev t rule: read_walk.induct)
  case (1 l frm most bytes held upper w prev t)
  let ?step = "walk_next (Some (wanted l frm upper prev)) w"
  note succ = word_Suc [OF "1.prems"(4)]
  show ?case
  proof (cases ?step)
    case (Pair res w')
    show ?thesis
    proof (cases res)
      case (Stopped k err)
      let ?c = "Some \<lparr>cur_first = seg_first held, cur_offset = walk_at w', cur_prev = prev\<rparr>"
      have t': "t' = (lose held prev upper k t)\<lparr>tk_reached := ?c\<rparr>"
        using "1.prems"(1) Pair Stopped by (subst (asm) read_walk.simps) (auto split: if_splits)
      have "accounted l frm upper (lose held prev upper k t)" by (rule accounted_lose [OF "1.prems"(3) succ(1)])
      then have "accounted l frm upper t'" unfolding t' by (subst accounted_cong [of _ "lose held prev upper k t"]) simp_all
      then show ?thesis using "1.prems"(5) by (simp add: accounts_to_def t')
    next
      case (Found f body k)
      note st = Pair [unfolded Found]
      show ?thesis
      proof (cases "sequence f \<le> prev \<or> sequence f \<ge> upper")
        case True
        then have "read_walk l frm most bytes held upper w' prev t = Inr t'"
          using "1.prems"(1) st by (subst (asm) read_walk.simps) simp
        then show ?thesis using "1.IH"(1) [OF st [symmetric] refl True] "1.prems"(2-5) by blast
      next
        case False
        then have sq: "prev < sequence f" "sequence f < upper" by auto
        define t1 where "t1 = lose held prev (sequence f) k t"
        have t1: "accounted l frm (sequence f) t1" "\<not> tk_stopped t1" "tk_entries t1 = tk_entries t"
          using accounted_lose [OF "1.prems"(3) word_Suc(1) [OF sq(1)]] "1.prems"(5) by (auto simp: t1_def)
        note step = accounted_next [OF t1(1) word_Suc(2) [OF sq(2)]]
        show ?thesis
        proof (cases "sequence f \<ge> frm \<and> \<not> ledger_settled l (sequence f)")
          case skip: False
          then have "read_walk l frm most bytes held upper w' (sequence f) t1 = Inr t'"
            using "1.prems"(1) st False by (subst (asm) read_walk.simps) (auto simp: t1_def Let_def)
          moreover have "accounted l frm (sequence f + 1) t1"
            using skip ledger_settled_iff [OF "1.prems"(2)] by (intro step(1)) auto
          ultimately show ?thesis
            using "1.IH"(3) [OF st [symmetric] refl False t1_def skip] t1(2) "1.prems"(2) sq(2) by blast
        next
          case take: True
          show ?thesis
          proof (cases "enough most bytes f t1")
            case True
            let ?t = "t1\<lparr>tk_reached := Some \<lparr>cur_first = seg_first held, cur_offset = offset f, cur_prev = prev\<rparr>, tk_stopped := True\<rparr>"
            have "t' = ?t"
              using "1.prems"(1) st False take True by (subst (asm) read_walk.simps) (auto simp: t1_def Let_def)
            moreover have "accounted l frm (sequence f) ?t" using t1(1) accounted_cong [of ?t t1] by simp
            ultimately show ?thesis using True by (auto simp: accounts_to_def enough_def)
          next
            case notyet: False
            then have "read_walk l frm most bytes held upper w' (sequence f) (take_entry f body t1) = Inr t'"
              using "1.prems"(1) st False take by (subst (asm) read_walk.simps) (auto simp: t1_def Let_def)
            then show ?thesis
              using "1.IH"(2) [OF st [symmetric] refl False t1_def take notyet] step(2) [OF refl] "1.prems"(2) sq(2) t1(2)
              by (simp add: take_entry_def)
          qed
        qed
      qed
    qed
  qed
qed

section \<open>All segments\<close>

fun chained :: "u64 \<Rightarrow> (segment \<times> u64) list \<Rightarrow> u64 \<Rightarrow> bool" where
  "chained low [] lim = (low = lim)"
| "chained low ((s, u) # rest) lim = (seg_first s = low \<and> 0 < low \<and> low \<le> u \<and> chained u rest lim)"

lemma uppers_chained:
  assumes "ss \<noteq> []" "sorted_wrt (<) (List.map seg_first ss)" "\<And>s. s \<in> set ss \<Longrightarrow> 0 < seg_first s \<and> seg_first s \<le> n"
  shows "chained (seg_first (hd ss)) (uppers n ss) n"
  using assms by (induction n ss rule: uppers.induct) auto

lemma accounted_more:
  assumes "accounted l frm low t" "low \<le> u" "{low ..< u} \<subseteq> {..< frm} \<union> settled_set l"
  shows "accounted l frm u t"
proof -
  have "{..< u} \<subseteq> {..< low} \<union> {low ..< u}" by auto
  then have "{..< u} \<subseteq> answered_for l frm t" using assms(1,3) by (auto simp: accounted_def answered_for_def)
  then show ?thesis using assms(1,2) by (auto simp: accounted_def intro: order.strict_trans2)
qed

lemma accounted_start:
  assumes a: "accounted l frm (seg_first held) t" and s: "read_start c frm held = (start, prev)"
    and u: "0 < seg_first held" "seg_first held \<le> upper" "\<not> upper \<le> frm" "unat (cur_first c) \<le> unat (cur_prev c) + 1"
    and e: "seg_first held < upper"
  shows "accounted l frm (prev + 1) t" "prev < upper"
proof -
  have "accounted l frm (prev + 1) t \<and> prev < upper"
  proof (cases "prev = seg_first held - 1")
    case True
    then have "prev + 1 = seg_first held" "prev < seg_first held" using u(1) by (simp_all add: unat_order unat_minus word_less_nat_alt)
    then show ?thesis using a e by (simp add: order.strict_trans)
  next
    case False
    then have p: "cur_first c = seg_first held" "prev = cur_prev c" "prev < frm"
      using s by (auto simp: read_start_def split: if_splits)
    note succ = word_Suc [OF p(3)]
    have "seg_first held \<le> prev + 1" using u(4) p succ(4) by (simp add: unat_order)
    moreover have "{seg_first held ..< prev + 1} \<subseteq> {..< frm} \<union> settled_set l" using succ(1) by auto
    ultimately have "accounted l frm (prev + 1) t" by (rule accounted_more [OF a])
    then show ?thesis using p(3) u(3) by simp
  qed
  then show "accounted l frm (prev + 1) t" "prev < upper" by simp_all
qed

lemma read_segments_accounts:
  assumes "read_segments l frm most bytes a ups t q = (Inr t', q')" "wf_ledger l" "chained low ups lim"
    and "accounted l frm low t" "\<not> tk_stopped t" "\<forall>(s, u) \<in> set ups. s \<in> set (q_segments q)"
    and "unat (cur_first a) \<le> unat (cur_prev a) + 1"
  shows "accounts_to l frm lim t'"
  using assms
proof (induction l frm most bytes a ups t q arbitrary: low rule: read_segments.induct)
  case (1 l frm most bytes a t q)
  then show ?case by (simp add: accounts_to_def)
next
  case (2 l frm most bytes a held upper rest t q)
  have up: "seg_first held = low" "0 < low" "low \<le> upper" "chained upper rest lim" "held \<in> set (q_segments q)"
    "\<forall>(s, u) \<in> set rest. s \<in> set (q_segments q)"
    using "2.prems"(3,6) by auto
  show ?case
  proof (cases "upper \<le> frm \<or> whole l (held, upper)")
    case True
    then have "{low ..< upper} \<subseteq> {..< frm} \<union> settled_set l"
      using whole_iff [OF "2.prems"(2), of held upper] up(1,3) by auto
    then have "accounted l frm upper t" by (rule accounted_more [OF "2.prems"(4) up(3)])
    then show ?thesis using "2.IH"(1) [OF True] "2.prems" up(4,6) True by auto
  next
    case False
    then have lt: "low < upper" using up(1,3) whole_iff [OF "2.prems"(2), of held upper] by (cases "low = upper") auto
    obtain o1 d where o: "open_file (q_disk q) (segment_name held) = (o1, d)" by (cases "open_file (q_disk q) (segment_name held)")
    show ?thesis
    proof (cases o1)
      case (Inl err)
      let ?t = "t\<lparr>tk_losses := tk_losses t @ [\<lparr>loss_segment = segment_name held, loss_span = Span (seg_first held) upper,
          loss_bytes = seg_size held\<rparr>]\<rparr>"
      have holds: "q_holds (seg_first held) (q\<lparr>q_disk := d\<rparr>)" using up(5) by (auto simp: q_holds_def list_ex_iff)
      have missing: "Is err ErrNotExist" using "2.prems"(1) False o Inl by (auto simp: Let_def split: if_splits)
      then have "read_segments l frm most bytes a rest ?t (q\<lparr>q_disk := d\<rparr>) = (Inr t', q')"
        using "2.prems"(1) False o Inl holds by (simp add: Let_def)
      moreover have "accounted l frm upper ?t" using accounted_lost [OF "2.prems"(4) up(3)] up(1) by simp
      ultimately show ?thesis
        using "2.IH"(2) [OF False o [symmetric] Inl refl missing, of upper] holds "2.prems"(2,5,7) up(4,6) by simp
    next
      case (Inr i)
      obtain start prev where sp: "read_start a frm held = (start, prev)" by (cases "read_start a frm held")
      define walked where "walked = newWalk (opened d i) (q_stream q) start (seg_size held)"
      obtain t1 where e: "read_walk l frm most bytes held upper walked prev t = Inr t1"
        using "2.prems"(1) False o Inr sp by (auto simp: Let_def walked_def split: sum.splits)
      have a1: "accounted l frm (prev + 1) t" "prev < upper"
        using accounted_start [of l frm held t a start prev upper] "2.prems"(4,7) sp up False lt by auto
      note w = read_walk_accounts [OF e "2.prems"(2) a1 "2.prems"(5)]
      show ?thesis
      proof (cases "tk_stopped t1")
        case True
        then have "t' = t1" using "2.prems"(1) False o Inr sp e by (simp add: Let_def walked_def)
        then show ?thesis using w True by (simp add: accounts_to_def)
      next
        case go: False
        have "read_segments l frm most bytes a rest t1 (q\<lparr>q_disk := snd (attempt d)\<rparr>) = (Inr t', q')"
          using "2.prems"(1) False o Inr sp e go by (simp add: Let_def walked_def)
        moreover have "accounted l frm upper t1" using w go by (simp add: accounts_to_def)
        ultimately show ?thesis
          using "2.IH"(3) [OF False o [symmetric] Inr sp [symmetric] walked_def _ refl e go, of upper] "2.prems"(2,7) up(4,6) go by simp
      qed
    qed
  qed
qed

section \<open>A whole read\<close>

definition outstanding :: "queue \<Rightarrow> u64 set" where
  "outstanding q = {x. 0 < x \<and> x < q_next q \<and> x \<notin> settled_set (q_ledger q)}"

lemma expireDue_keeps:
  assumes "wf_queue q" "complete q" "q_expireDue h q = (r, q')"
  shows "wf_queue q' \<and> complete q' \<and> q_next q' = q_next q"
  using assms(1,2)
  by (cases rule: q_expireDue_cases [OF assms(3)]) (use q_expire_spec(1-3) [OF assms(1)] in auto)

lemma first_accounted:
  assumes "wf_queue q" "complete q"
  shows "accounted (q_ledger q) frm (oldest q) nothing_taken"
    "q_segments q \<noteq> [] \<Longrightarrow> chained (oldest q) (uppers (q_next q) (q_segments q)) (q_next q)"
proof -
  show "accounted (q_ledger q) frm (oldest q) nothing_taken"
    using assms(2) by (auto simp: accounted_def answered_for_def complete_def lost_set_def nothing_taken_def spans_set_def)
  assume ne: "q_segments q \<noteq> []"
  note w = wf_queueD [OF assms(1)]
  have "oldest q = seg_first (hd (q_segments q))" using ne by (cases "q_segments q") (simp_all add: oldest_def)
  then show "chained (oldest q) (uppers (q_next q) (q_segments q)) (q_next q)"
    using uppers_chained [OF ne w(5)] w(6) by simp
qed

lemma segments_account:
  assumes wf: "wf_queue q" "complete q"
    and run: "read_segments (q_ledger q) frm most bytes (q_cursor q) (uppers (q_next q) (q_segments q)) nothing_taken q = (Inr t, q')"
  shows "accounts_to (q_ledger q) frm (q_next q) t"
proof (cases "q_segments q = []")
  case True
  then have "t = nothing_taken" "oldest q = q_next q" using run by (simp_all add: oldest_def)
  then show ?thesis using first_accounted(1) [OF wf, of frm] by (simp add: accounts_to_def nothing_taken_def)
next
  case False
  note w = wf_queueD [OF wf(1)]
  have "\<forall>(s, u) \<in> set (uppers (q_next q) (q_segments q)). s \<in> set (q_segments q)"
    using uppers_member(1) [OF _ w(5)] w(6) by blast
  then show ?thesis
    using read_segments_accounts [OF run w(2) first_accounted(2) [OF wf False] first_accounted(1) [OF wf] _ _ w(12)]
    by (simp add: nothing_taken_def)
qed

lemma accounts_all:
  assumes "accounts_to l frm n t" "frm \<le> x" "x < n" "x \<notin> settled_set l \<union> lost_set t"
    and "tk_entries t = [] \<or> x \<le> en_Sequence (last (tk_entries t))"
  shows "x \<in> en_Sequence ` set (tk_entries t)"
proof -
  obtain lim where lim: "accounted l frm lim t" "x < lim"
  proof (cases "tk_stopped t")
    case True
    then obtain lim where l: "tk_entries t \<noteq> []" "accounted l frm lim t" using assms(1) by (auto simp: accounts_to_def)
    then have "en_Sequence (last (tk_entries t)) < lim" by (simp add: accounted_def)
    then show thesis using that [of lim] l assms(5) by (auto intro: order.strict_trans1)
  next
    case False
    then show thesis using that [of n] assms(1,3) by (simp add: accounts_to_def)
  qed
  then show ?thesis using assms(2,4) by (auto simp: accounted_def answered_for_def)
qed

lemma accounts_apart: "accounts_to l frm n t \<Longrightarrow> e \<in> set (tk_entries t) \<Longrightarrow> en_Sequence e \<notin> lost_set t"
  by (auto simp: accounts_to_def accounted_def split: if_splits)

lemma q_read_covers:
  assumes wf: "wf_queue q" "complete q" and run: "q_read h frm most bytes q = (Inr es, q')"
  shows "\<forall>e \<in> set es. en_Sequence e \<in> outstanding q'"
    "\<forall>x \<in> outstanding q'. frm \<le> x \<and> (es = [] \<or> x \<le> en_Sequence (last es)) \<longrightarrow> x \<in> en_Sequence ` set es"
proof -
  obtain m q0 where due: "q_expireDue h q = (Inr m, q0)"
    using run by (cases "q_expireDue h q") (auto simp: q_read_def split: sum.splits)
  have q0: "wf_queue q0" "complete q0" "q_next q0 = q_next q" using expireDue_keeps [OF wf due] by simp_all
  obtain t q1 where rs: "read_segments (q_ledger q0) (max frm 1) most bytes (q_cursor q0) (uppers (q_next q0) (q_segments q0)) nothing_taken q0
      = (Inr t, q1)" and open0: "\<not> q_closed q0"
    using run due by (auto simp: q_read_def split: if_splits prod.splits sum.splits)
  note acc = segments_account [OF q0(1,2) rs]
  define q2 where "q2 = (case tk_reached t of None \<Rightarrow> q1 | Some c \<Rightarrow> q1\<lparr>q_cursor := c\<rparr>)"
  have sl: "q_settleLost (tk_losses t) q2 = (None, q')" and es: "es = tk_entries t"
    using run due rs open0 by (auto simp: q_read_def q2_def Let_def split: if_splits prod.splits option.splits)
  note w = wf_queueD [OF q0(1)]
  have turn: "in_turn 0 (uppers (q_next q0) (q_segments q0))" by (rule uppers_in_turn [OF w(5)]) (use w(6) in auto)
  have ups: "\<forall>(s, u) \<in> set (uppers (q_next q0) (q_segments q0)). 0 < seg_first s \<and> u \<le> q_next q0"
    using uppers_member(1,3) [OF _ w(5)] w(6) by blast
  note ok = read_segments_ok [OF rs turn _ ups taken_ok_nothing w(12), unfolded nothing_taken_def, simplified]
  obtain as where q1: "q1 = q0\<lparr>q_disk := (q_disk q0)\<lparr>answers := as\<rparr>\<rparr>" using ok(1) by (auto simp: nothing_taken_def)
  have tk: "taken_ok (q_ledger q0) (max frm 1) most bytes (q_next q0) t" using ok(2) by (simp add: nothing_taken_def)
  have wf2: "wf_queue q2"
    using tk w(12) by (intro wf_queue_fields [OF q0(1), of _ as]) (auto simp: q2_def q1 taken_ok_def split: option.splits)
  have two: "q_ledger q2 = q_ledger q0" "q_next q2 = q_next q0" by (simp_all add: q2_def q1 split: option.splits)
  have losses: "\<And>x. x \<in> set (tk_losses t) \<Longrightarrow> span_end (loss_span x) \<le> q_next q2" using tk two(2) by (simp add: taken_ok_def)
  have after: "settled_set (q_ledger q') = settled_set (q_ledger q0) \<union> lost_set t" "q_next q' = q_next q0"
    using q_settleLost_spec(3,4) [OF wf2 losses sl] two by (simp_all add: lost_set_def)
  have one: "max frm 1 \<le> x \<longleftrightarrow> frm \<le> x \<and> 0 < x" for x :: u64 by (simp add: unat_order) linarith
  show "\<forall>e \<in> set es. en_Sequence e \<in> outstanding q'"
  proof
    fix e assume e: "e \<in> set es"
    then have "max frm 1 \<le> en_Sequence e" "en_Sequence e < q_next q0" "\<not> ledger_settled (q_ledger q0) (en_Sequence e)"
      using tk es by (auto simp: taken_ok_def)
    then show "en_Sequence e \<in> outstanding q'"
      using accounts_apart [OF acc] e es after one ledger_settled_iff [OF w(2)] by (auto simp: outstanding_def)
  qed
  show "\<forall>x \<in> outstanding q'. frm \<le> x \<and> (es = [] \<or> x \<le> en_Sequence (last es)) \<longrightarrow> x \<in> en_Sequence ` set es"
    using accounts_all [OF acc] after one es by (auto simp: outstanding_def)
qed

end
