(* ===== verification/Queue_Recover.thy ===== *)
theory Queue_Recover
  imports Queue_Read
begin

text \<open>
  What a queue finds when the agent starts again: \<open>recover\<close> of \<open>internal/spool/queue.go\<close> and the
  operations it is made of. The names of the directory are sorted out, every segment is inspected,
  the ledger is read back or started afresh, the end of the last segment is cut back to what
  verifies, and what is missing settles as lost.
\<close>

section \<open>The names of the directory\<close>

fun recover_names ::
  "string list \<Rightarrow> segment list \<Rightarrow> bool \<Rightarrow> disk \<Rightarrow> (error + segment list \<times> bool) \<times> disk" where
  "recover_names [] segs written d = (Inr (segs, written), d)"
| "recover_names (name # rest) segs written d =
     (if interruptedPattern name then
        (case file_remove d name of (err, d) \<Rightarrow>
           if err \<noteq> None \<and> \<not> IsSome err ErrNotExist then (Inl (the err), d)
           else recover_names rest segs written d)
      else if name = ledgerName then recover_names rest segs True d
      else if segmentPattern name then
        (case ParseUint (take (length name - length segmentSuffix) name) of
           None \<Rightarrow> (Inl [ErrDamaged], d)
         | Some first \<Rightarrow>
             if first = 0 \<or> first > maxSequence then (Inl [ErrDamaged], d)
             else recover_names rest (segs @ [\<lparr>seg_first = first, seg_size = 0\<rparr>]) written d)
      else (Inl [ErrDamaged], d))"

section \<open>Inspecting a segment\<close>

definition q_belongs :: "stream \<Rightarrow> segment \<Rightarrow> byte list \<Rightarrow> error option" where
  "q_belongs s held header =
     (case decodeSegmentHeader header of
        None \<Rightarrow> None
      | Some described \<Rightarrow>
          if sh_format described > segmentFormat then Some [ErrNewer]
          else if sh_stream described \<noteq> s then Some [ErrDamaged]
          else if sh_first described \<noteq> seg_first held then Some [ErrDamaged]
          else None)"

definition q_inspect :: "stream \<Rightarrow> segment \<Rightarrow> disk \<Rightarrow> (error + nat) \<times> disk" where
  "q_inspect s held d =
     (case open_file d (segment_name held) of
        (Inl err, d) \<Rightarrow> (Inl err, d)
      | (Inr i, d) \<Rightarrow>
          (case ReadAt (opened d i) segmentHeaderBytes 0 of (header, err) \<Rightarrow>
           let bytes = length (data (inodes d i)); d = snd (attempt d)
           in if err \<noteq> None \<and> \<not> IsSome err EOF then (Inl (the err), d)
              else case q_belongs s held header of
                     Some err \<Rightarrow> (Inl err, d)
                   | None \<Rightarrow> (Inr bytes, d)))"

fun inspect_each :: "stream \<Rightarrow> segment list \<Rightarrow> disk \<Rightarrow> (error + segment list) \<times> disk" where
  "inspect_each s [] d = (Inr [], d)"
| "inspect_each s (held # rest) d =
     (case q_inspect s held d of
        (Inl err, d) \<Rightarrow> (Inl err, d)
      | (Inr n, d) \<Rightarrow>
          (case inspect_each s rest d of
             (Inl err, d) \<Rightarrow> (Inl err, d)
           | (Inr segs, d) \<Rightarrow> (Inr (held\<lparr>seg_size := n\<rparr> # segs), d)))"

section \<open>The ledger\<close>

definition q_load :: "stream \<Rightarrow> disk \<Rightarrow> (error + ledger \<times> int) \<times> disk" where
  "q_load s d =
     (case open_file d ledgerName of
        (Inl err, d) \<Rightarrow> (Inl err, d)
      | (Inr i, d) \<Rightarrow>
          (let outcome = read_all (opened d i) (maxLedgerBytes + 1); d = snd (attempt d)
           in case outcome of
                Inl err \<Rightarrow> (Inl err, d)
              | Inr bs \<Rightarrow>
                  if length bs > maxLedgerBytes then (Inl [errUnreadable], d)
                  else case decodeLedger s bs of
                         Inl err \<Rightarrow> (Inl err, d)
                       | Inr l \<Rightarrow> (Inr (l, int (length bs)), d)))"

definition q_settled :: "bool \<Rightarrow> segment list \<Rightarrow> queue \<Rightarrow> error option \<times> queue" where
  "q_settled written segs q =
     (let anew = empty_ledger\<lparr>watermark := (case segs of [] \<Rightarrow> 1 | s # _ \<Rightarrow> seg_first s)\<rparr>
      in if \<not> written then q_store anew q
         else case q_load (q_stream q) (q_disk q) of
                (Inl err, d) \<Rightarrow>
                  let q = q\<lparr>q_disk := d\<rparr>
                  in if Is err errUnreadable then q_store anew q else (Some err, q)
              | (Inr (l, held), d) \<Rightarrow> (None, q\<lparr>q_disk := d, q_ledger := l, q_held := held\<rparr>))"

section \<open>The end of the last segment\<close>

record recovered =
  rv_file :: "nat option"
  rv_prev :: u64
  rv_losses :: "loss list"

text \<open>
  The loop over the frames: the last sequence it reached, where that frame ends, the gaps before
  it, and the highest sequence among the headers the walk stepped over last.
\<close>

function recover_walk ::
  "string \<Rightarrow> walk \<Rightarrow> u64 \<Rightarrow> nat \<Rightarrow> loss list \<Rightarrow> error + u64 \<times> nat \<times> loss list \<times> u64" where
  "recover_walk name w prev e losses =
     (case walk_next None w of
        (Stopped _ err, w') \<Rightarrow>
          if Is err EOF then Inr (prev, e, losses, walk_headed w') else Inl err
      | (Found found _ skipped, w') \<Rightarrow>
          if sequence found \<le> prev then recover_walk name w' prev e losses
          else
            recover_walk name w' (sequence found) (offset found + frame_size found)
              (if sequence found > prev + 1
               then losses @ [\<lparr>loss_segment = name, loss_span = Span (prev + 1) (sequence found),
                               loss_bytes = skipped\<rparr>]
               else losses))"
  by pat_completeness auto
termination
  by (relation "measure (\<lambda>(name, w, prev, e, losses). walk_end w - walk_at w)")
    (auto dest!: walk_next_progress [OF sym])

declare recover_walk.simps [simp del]

text \<open>Cutting the segment back to where its last frame ends, or removing it when none verified.\<close>

definition recover_cut :: "disk \<Rightarrow> nat \<Rightarrow> segment \<Rightarrow> nat \<Rightarrow> error option \<times> nat option \<times> segment \<times> disk" where
  "recover_cut d i held e =
     (if e = 0 then
        (case attempt d of (closed, d) \<Rightarrow>
         case file_remove d (segment_name held) of (removed, d) \<Rightarrow>
         case syncDirectory d of (synced, d) \<Rightarrow>
           (JoinErr closed (JoinErr removed synced), None, held, d))
      else
        (case file_truncate d i e of (truncated, d) \<Rightarrow>
         case file_sync d i of (synced, d) \<Rightarrow>
           let err = JoinErr truncated synced
           in (err, Some i, held\<lparr>seg_size := e\<rparr>, if err = None then d else snd (attempt d))))"

definition q_recoverLast :: "stream \<Rightarrow> segment \<Rightarrow> disk \<Rightarrow> (error + recovered \<times> segment) \<times> disk" where
  "q_recoverLast s held d =
     (let name = segment_name held
      in case open_file d name of
           (Inl err, d) \<Rightarrow> (Inl err, d)
         | (Inr i, d) \<Rightarrow>
             (case ReadAt (opened d i) (min (seg_size held) segmentHeaderBytes) 0 of
                (_, Some err) \<Rightarrow> (Inl err, snd (attempt d))
              | (header, None) \<Rightarrow>
                  let e = (if decodeSegmentHeader header \<noteq> None then segmentHeaderBytes else 0)
                  in case recover_walk name (newWalk (opened d i) s e (seg_size held))
                            (seg_first held - 1) e [] of
                       Inl err \<Rightarrow> (Inl err, snd (attempt d))
                     | Inr (prev, e, losses, headed) \<Rightarrow>
                         if e = seg_size held \<and> e > 0 then
                           (Inr (\<lparr>rv_file = Some i, rv_prev = prev, rv_losses = losses\<rparr>, held), d)
                         else
                           (case torn (opened d i) s e (seg_size held) of
                              Inl err \<Rightarrow> (Inl err, snd (attempt d))
                            | Inr interrupted \<Rightarrow>
                                let discarded = seg_size held - e
                                in case recover_cut d i held e of
                                     (Some err, _, _, d) \<Rightarrow> (Inl err, d)
                                   | (None, f, held, d) \<Rightarrow>
                                       if interrupted then
                                         (Inr (\<lparr>rv_file = f, rv_prev = prev, rv_losses = losses\<rparr>, held), d)
                                       else
                                         (Inr (\<lparr>rv_file = f, rv_prev = prev,
                                                rv_losses = losses
                                                  @ [\<lparr>loss_segment = name,
                                                      loss_span = Span (prev + 1) (max headed (prev + 1) + 1),
                                                      loss_bytes = discarded\<rparr>]\<rparr>, held), d))))"

text \<open>
  The loop over the segments, from the last one back: those that are kept, what was lost, and the
  file and the last sequence of the one it stopped at.
\<close>

fun recover_back ::
  "stream \<Rightarrow> segment list \<Rightarrow> loss list \<Rightarrow> disk
     \<Rightarrow> (error + segment list \<times> loss list \<times> (nat \<times> u64) option) \<times> disk" where
  "recover_back s [] losses d = (Inr ([], losses, None), d)"
| "recover_back s (held # earlier) losses d =
     (case q_recoverLast s held d of
        (Inl err, d) \<Rightarrow> (Inl err, d)
      | (Inr (found, held), d) \<Rightarrow>
          let losses = losses @ rv_losses found
          in case rv_file found of
               Some i \<Rightarrow> (Inr (rev (held # earlier), losses, Some (i, rv_prev found)), d)
             | None \<Rightarrow> recover_back s earlier losses d)"

section \<open>Recovering\<close>

text \<open>The first sequence the queue gives next, and all that was lost.\<close>

definition recover_next :: "ledger \<Rightarrow> segment list \<Rightarrow> u64 \<Rightarrow> loss list \<Rightarrow> u64" where
  "recover_next l segs prev losses =
     foldl (\<lambda>n x. max n (span_end (loss_span x)))
       (if segs \<noteq> [] then max (ledger_highest l) (prev + 1) else ledger_highest l) losses"

definition recover_losses :: "ledger \<Rightarrow> segment list \<Rightarrow> u64 \<Rightarrow> u64 \<Rightarrow> loss list \<Rightarrow> loss list" where
  "recover_losses l segs prev n losses =
     (case segs of
        [] \<Rightarrow>
          if watermark l < n
          then losses @ [\<lparr>loss_segment = [], loss_span = Span (watermark l) n, loss_bytes = 0\<rparr>]
          else losses
      | s # _ \<Rightarrow>
          losses @ [\<lparr>loss_segment = [], loss_span = Span (watermark l) (seg_first s), loss_bytes = 0\<rparr>,
                    \<lparr>loss_segment = segment_name (last segs), loss_span = Span (prev + 1) n,
                     loss_bytes = 0\<rparr>])"

definition recover_finish ::
  "segment list \<Rightarrow> loss list \<Rightarrow> (nat \<times> u64) option \<Rightarrow> queue \<Rightarrow> error option \<times> queue" where
  "recover_finish segs losses stopped q =
     (let prev = (case stopped of None \<Rightarrow> ledger_highest (q_ledger q) - 1 | Some (_, p) \<Rightarrow> p);
          n = recover_next (q_ledger q) segs prev losses;
          losses = recover_losses (q_ledger q) segs prev n losses;
          q = q\<lparr>q_segments := segs, q_next := n,
                q_bytes := q_held q + sum_list (List.map (\<lambda>s. int (seg_size s)) segs)\<rparr>
      in case (case stopped of
                 None \<Rightarrow> (None, q)
               | Some (i, _) \<Rightarrow>
                   if prev + 1 = n then (None, q\<lparr>q_active := Some i\<rparr>)
                   else (case attempt (q_disk q) of (err, d) \<Rightarrow> (err, q\<lparr>q_disk := d\<rparr>))) of
           (Some err, q) \<Rightarrow> (Some err, q)
         | (None, q) \<Rightarrow>
             (case q_settleLost losses q of
                (Some err, q) \<Rightarrow> (Some err, q)
              | (None, q) \<Rightarrow>
                  (None, q_compact (q\<lparr>q_next := max (q_next q) (ledger_highest (q_ledger q))\<rparr>))))"

definition q_recover :: "queue \<Rightarrow> error option \<times> queue" where
  "q_recover q =
     (case readdirnames (q_disk q) of
        (Inl err, d) \<Rightarrow> (Some err, q\<lparr>q_disk := d\<rparr>)
      | (Inr ns, d) \<Rightarrow>
          (case recover_names ns [] False d of
             (Inl err, d) \<Rightarrow> (Some err, q\<lparr>q_disk := d\<rparr>)
           | (Inr (segs, written), d) \<Rightarrow>
               (case inspect_each (q_stream q) (sort_key seg_first segs) d of
                  (Inl err, d) \<Rightarrow> (Some err, q\<lparr>q_disk := d\<rparr>)
                | (Inr segs, d) \<Rightarrow>
                    (case q_settled written segs (q\<lparr>q_disk := d\<rparr>) of
                       (Some err, q) \<Rightarrow> (Some err, q)
                     | (None, q) \<Rightarrow>
                         (case recover_back (q_stream q) (rev segs) [] (q_disk q) of
                            (Inl err, d) \<Rightarrow> (Some err, q\<lparr>q_disk := d\<rparr>)
                          | (Inr (segs, losses, stopped), d) \<Rightarrow>
                              recover_finish segs losses stopped (q\<lparr>q_disk := d\<rparr>))))))"

end
