(* ===== verification/Spool.thy ===== *)
theory Spool
  imports Queue_Recover
begin

text \<open>
  The spool, \<open>internal/spool/spool.go\<close>: three queues over one budget. The directory of the spool
  is a \<open>root\<close>: what names it holds, and the directory of each stream. A queue runs on the budget
  the spool holds, which is put back with it. \<open>Open\<close> is given a logger, so its check for one is
  left out.
\<close>

record root =
  rt_dir :: disk
  rt_self :: inode
  rt_streams :: "stream \<Rightarrow> disk"

record spool =
  sp_budget :: budget
  sp_queues :: "queue list"
  sp_unavailable :: bool
  sp_closed :: bool

definition stream_String :: "stream \<Rightarrow> string" where
  "stream_String s =
     (if s = Events then ''events'' else if s = Inventory then ''inventory''
      else if s = Assessments then ''assessments''
      else ''stream('' @ decimal (if s < 10 then 1 else if s < 100 then 2 else 3) (unat s) @ '')'')"

section \<open>Opening\<close>

text \<open>\<open>root.Mkdir\<close>, with a mode that keeps the directory to the account.\<close>

definition make_dir :: "disk \<Rightarrow> string \<Rightarrow> error option \<times> disk" where
  "make_dir d name =
     (case file_create d name of
        (Inl err, d) \<Rightarrow> (Some err, d)
      | (Inr i, d) \<Rightarrow> (None, set_inode d i (empty_inode\<lparr>ikind := Directory\<rparr>)))"

fun make_dirs :: "stream list \<Rightarrow> bool \<Rightarrow> disk \<Rightarrow> (error + bool) \<times> disk" where
  "make_dirs [] created d = (Inr created, d)"
| "make_dirs (s # rest) created d =
     (case make_dir d (stream_String s) of
        (None, d) \<Rightarrow> make_dirs rest True d
      | (Some err, d) \<Rightarrow>
          if \<not> Is err ErrExist then (Inl err, d) else make_dirs rest created d)"

definition openDirectory :: "disk \<Rightarrow> string \<Rightarrow> error option \<times> disk" where
  "openDirectory d name =
     (case file_lookup d name of
        (Inl err, d) \<Rightarrow> (Some err, d)
      | (Inr i, d) \<Rightarrow>
          if ikind (inodes d i) \<noteq> Directory then (Some [ErrDamaged], d)
          else (case private_file (inodes d i) of
             Some err \<Rightarrow> (Some err, d)
           | None \<Rightarrow>
               (case attempt d of
                  (Some err, d) \<Rightarrow> (Some err, d)
                | (None, d) \<Rightarrow>
                    (case attempt d of
                       (Some _, d) \<Rightarrow> (case attempt d of (_, d) \<Rightarrow> (Some [ErrInsecure], d))
                     | (None, d) \<Rightarrow> (None, d)))))"

definition new_queue :: "stream \<Rightarrow> disk \<Rightarrow> budget \<Rightarrow> duration \<Rightarrow> queue" where
  "new_queue s d b age =
     \<lparr>q_stream = s, q_disk = d, q_budget = b, q_broke = False, q_closed = False, q_broken = None,
      q_segments = [], q_active = None, q_next = 0, q_ledger = empty_ledger, q_held = 0,
      q_bytes = 0, q_cursor = no_cursor, q_maxAge = age, q_swept = zero_time,
      q_paused = zero_time, q_refused = 0, q_withheld = 0, q_signal = False\<rparr>"

text \<open>The queue with the budget of the spool, and the spool with what the queue left.\<close>

definition sp_lend :: "spool \<Rightarrow> queue \<Rightarrow> queue" where
  "sp_lend sp q = q\<lparr>q_budget := sp_budget sp\<rparr>"

definition sp_return :: "queue \<Rightarrow> spool \<Rightarrow> spool" where
  "sp_return q sp =
     sp\<lparr>sp_budget := q_budget q,
        sp_queues := List.map (\<lambda>kept. if q_stream kept = q_stream q then q else kept) (sp_queues sp),
        sp_unavailable := sp_unavailable sp \<or> q_broke q\<rparr>"

fun recover_streams ::
  "host \<Rightarrow> limits \<Rightarrow> root \<Rightarrow> stream list \<Rightarrow> spool \<Rightarrow> error option \<times> root \<times> spool" where
  "recover_streams h ls rt [] sp = (None, rt, sp)"
| "recover_streams h ls rt (s # rest) sp =
     (case openDirectory (rt_dir rt) (stream_String s) of
        (Some err, d) \<Rightarrow> (Some err, rt\<lparr>rt_dir := d\<rparr>, sp)
      | (None, d) \<Rightarrow>
          let rt = rt\<lparr>rt_dir := d\<rparr>;
              kept = new_queue s (rt_streams rt s) (sp_budget sp) (MaxAge ls s);
              sp = sp\<lparr>sp_queues := sp_queues sp @ [kept]\<rparr>
          in case q_recover kept of
               (Some err, kept) \<Rightarrow> (Some err, rt, sp_return kept sp)
             | (None, kept) \<Rightarrow>
                 (case q_expire h kept of
                    (Inl err, kept) \<Rightarrow> (Some err, rt, sp_return kept sp)
                  | (Inr _, kept) \<Rightarrow> recover_streams h ls rt rest (sp_return kept sp)))"

definition count_held :: "queue list \<Rightarrow> budget \<Rightarrow> budget" where
  "count_held qs b =
     foldl (\<lambda>b kept. b\<lparr>b_held := (b_held b)(q_stream kept := st_Bytes (q_stats kept)),
                       b_used := b_used b + st_Bytes (q_stats kept)\<rparr>) (b\<lparr>b_used := 0\<rparr>) qs"

definition sp_recover :: "host \<Rightarrow> limits \<Rightarrow> root \<Rightarrow> spool \<Rightarrow> error option \<times> root \<times> spool" where
  "sp_recover h ls rt sp =
     (case readdirnames (rt_dir rt) of
        (Inl err, d) \<Rightarrow> (Some err, rt\<lparr>rt_dir := d\<rparr>, sp)
      | (Inr ns, d) \<Rightarrow>
          let d = snd (attempt d)
          in if \<not> list_all (\<lambda>name. list_ex (\<lambda>s. stream_String s = name) streams) ns
             then (Some [ErrDamaged], rt\<lparr>rt_dir := d\<rparr>, sp)
             else case make_dirs streams False d of
               (Inl err, d) \<Rightarrow> (Some err, rt\<lparr>rt_dir := d\<rparr>, sp)
             | (Inr created, d) \<Rightarrow>
                 (case (if created then syncDirectory d else (None, d)) of
                    (Some err, d) \<Rightarrow> (Some err, rt\<lparr>rt_dir := d\<rparr>, sp)
                  | (None, d) \<Rightarrow>
                      (case recover_streams h ls (rt\<lparr>rt_dir := d\<rparr>) streams sp of
                         (Some err, rt, sp) \<Rightarrow> (Some err, rt, sp)
                       | (None, rt, sp) \<Rightarrow>
                           (None, rt, sp\<lparr>sp_budget := count_held (sp_queues sp) (sp_budget sp)\<rparr>))))"

fun close_each :: "queue list \<Rightarrow> error option \<times> queue list" where
  "close_each [] = (None, [])"
| "close_each (q # qs) =
     (case q_close q of (err, q) \<Rightarrow>
      case close_each qs of (errs, qs) \<Rightarrow> (JoinErr err errs, q # qs))"

text \<open>\<open>unlocked\<close> is what the host answers when the lock file is closed.\<close>

definition sp_Close :: "error option \<Rightarrow> spool \<Rightarrow> error option \<times> spool" where
  "sp_Close unlocked sp =
     (if sp_closed sp then (None, sp)
      else case close_each (sp_queues sp) of (err, qs) \<Rightarrow>
        (JoinErr err unlocked, sp\<lparr>sp_closed := True, sp_queues := qs\<rparr>))"

definition sp_open :: "host \<Rightarrow> limits \<Rightarrow> root \<Rightarrow> (error + spool) \<times> root" where
  "sp_open h ls rt =
     (case attempt (rt_dir rt) of
        (Some err, d) \<Rightarrow> (Inl err, rt\<lparr>rt_dir := d\<rparr>)
      | (None, d) \<Rightarrow>
          (case private_file (rt_self rt) of
             Some err \<Rightarrow> (Inl err, rt\<lparr>rt_dir := d\<rparr>)
           | None \<Rightarrow>
               (case attempt d of
                  (Some err, d) \<Rightarrow> (Inl err, rt\<lparr>rt_dir := d\<rparr>)
                | (None, d) \<Rightarrow>
                    (case attempt d of
                       (Some err, d) \<Rightarrow>
                         (if Is err ErrLocked then Inl [ErrLocked] else Inl err,
                          rt\<lparr>rt_dir := snd (attempt d)\<rparr>)
                     | (None, d) \<Rightarrow>
                         (case sp_recover h ls (rt\<lparr>rt_dir := d\<rparr>)
                                 \<lparr>sp_budget = budget_set new_budget ls, sp_queues = [],
                                  sp_unavailable = False, sp_closed = False\<rparr> of
                            (Some err, rt, sp) \<Rightarrow> (Inl err, rt)
                          | (None, rt, sp) \<Rightarrow> (Inr sp, rt))))))"

section \<open>Operations\<close>

definition sp_queue :: "stream \<Rightarrow> spool \<Rightarrow> queue option" where
  "sp_queue s sp = map_option (sp_lend sp) (find (\<lambda>kept. q_stream kept = s) (sp_queues sp))"

fun expire_each :: "host \<Rightarrow> queue list \<Rightarrow> bool \<Rightarrow> spool \<Rightarrow> bool \<times> spool" where
  "expire_each h [] freed sp = (freed, sp)"
| "expire_each h (kept # rest) freed sp =
     (case q_expireDue h (sp_lend sp kept) of (outcome, kept) \<Rightarrow>
        expire_each h rest
          (freed \<or> (case outcome of Inl _ \<Rightarrow> False | Inr settled \<Rightarrow> settled > 0))
          (sp_return kept sp))"

definition sp_expire :: "host \<Rightarrow> spool \<Rightarrow> bool \<times> spool" where
  "sp_expire h sp = expire_each h (sp_queues sp) False sp"

definition error_of :: "error + 'a \<Rightarrow> error option" where
  "error_of r = (case r of Inl err \<Rightarrow> Some err | Inr _ \<Rightarrow> None)"

text \<open>\<open>h\<close> is what the host answers the first attempt and \<open>h2\<close> what it answers after it.\<close>

definition sp_Admit ::
  "host \<Rightarrow> host \<Rightarrow> stream \<Rightarrow> Record list \<Rightarrow> spool \<Rightarrow> (error + Receipt) \<times> spool" where
  "sp_Admit h h2 s records sp =
     (case sp_queue s sp of
        None \<Rightarrow> (Inl [ErrRefused], sp)
      | Some kept \<Rightarrow>
          if records = [] then (Inl [ErrRefused], sp)
          else
            case q_admit h records kept of (receipt, kept) \<Rightarrow>
            let sp = sp_return kept sp
            in case (if IsSome (error_of receipt) ErrFull then sp_expire h sp else (False, sp)) of
                 (freed, sp) \<Rightarrow>
                   (case (case (freed, sp_queue s sp) of
                            (True, Some kept) \<Rightarrow>
                              (case q_admit h2 records kept of (receipt, kept) \<Rightarrow>
                                 (receipt, sp_return kept sp))
                          | _ \<Rightarrow> (receipt, sp)) of
                      (receipt, sp) \<Rightarrow>
                        (case sp_queue s sp of
                           None \<Rightarrow> (receipt, sp)
                         | Some kept \<Rightarrow>
                             (receipt, sp_return
                                (q_pressure h2 (length records) (error_of receipt) kept) sp))))"

definition sp_Read ::
  "host \<Rightarrow> stream \<Rightarrow> u64 \<Rightarrow> int \<Rightarrow> int \<Rightarrow> spool \<Rightarrow> (error + Entry list) \<times> spool" where
  "sp_Read h s frm most bytes sp =
     (case sp_queue s sp of
        None \<Rightarrow> (Inl [ErrRefused], sp)
      | Some kept \<Rightarrow>
          if most < 1 \<or> bytes < 1 then (Inl [ErrRefused], sp)
          else case q_read h frm most bytes kept of (entries, kept) \<Rightarrow>
                 (entries, sp_return kept sp))"

definition sp_settle :: "stream \<Rightarrow> u64 list \<Rightarrow> settlement \<Rightarrow> spool \<Rightarrow> error option \<times> spool" where
  "sp_settle s sequences kind sp =
     (case sp_queue s sp of
        None \<Rightarrow> (Some [ErrRefused], sp)
      | Some kept \<Rightarrow>
          if sequences = [] then (None, sp)
          else case q_settle sequences kind kept of (err, kept) \<Rightarrow> (err, sp_return kept sp))"

definition sp_Acknowledge :: "stream \<Rightarrow> u64 list \<Rightarrow> spool \<Rightarrow> error option \<times> spool" where
  "sp_Acknowledge s sequences sp = sp_settle s sequences Delivered sp"

definition sp_Quarantine :: "stream \<Rightarrow> u64 list \<Rightarrow> spool \<Rightarrow> error option \<times> spool" where
  "sp_Quarantine s sequences sp = sp_settle s sequences Quarantined sp"

definition sp_Admitted :: "stream \<Rightarrow> spool \<Rightarrow> bool \<times> spool" where
  "sp_Admitted s sp =
     (case sp_queue s sp of
        None \<Rightarrow> (True, sp)
      | Some kept \<Rightarrow> (case q_admitted kept of (r, kept) \<Rightarrow> (r, sp_return kept sp)))"

definition sp_Room :: "host \<Rightarrow> stream \<Rightarrow> spool \<Rightarrow> int \<times> spool" where
  "sp_Room h s sp =
     (case sp_queue s sp of
        None \<Rightarrow> (0, sp)
      | Some kept \<Rightarrow>
          (case q_expireDue h kept of (outcome, kept) \<Rightarrow>
           let sp = sp_return kept sp
           in if error_of outcome \<noteq> None \<or> \<not> q_admitting kept then (0, sp)
              else (budget_left h (sp_budget sp) s, sp)))"

definition sp_Limit :: "limits \<Rightarrow> spool \<Rightarrow> spool" where
  "sp_Limit ls sp =
     sp\<lparr>sp_budget := budget_set (sp_budget sp) ls,
        sp_queues := List.map (\<lambda>kept. q_limit (MaxAge ls (q_stream kept)) kept) (sp_queues sp)\<rparr>"

record Stats =
  ss_MaxBytes :: int
  ss_Bytes :: int
  ss_Streams :: "StreamStats list"

definition sp_Stats :: "spool \<Rightarrow> Stats" where
  "sp_Stats sp =
     \<lparr>ss_MaxBytes = b_limit (sp_budget sp), ss_Bytes = b_used (sp_budget sp),
      ss_Streams = List.map q_stats (sp_queues sp)\<rparr>"

end
