(* ===== verification/Queue_Admit.thy ===== *)
theory Queue_Admit
  imports Queue_Settle
begin

text \<open>
  What admission leaves of a queue, whatever the host answers: a receipt is returned only once the
  frames of every record are durable at the end of the last segment, which the directory durably
  names; a refusal leaves what the segments hold as it was, or breaks the queue; and the budget
  counts what the files hold.
\<close>

section \<open>The frames of a request\<close>

lemma length_admit_frames:
  "length (admit_frames s seq adm rs) = sum_list (List.map (\<lambda>r. 32 + length (ID r) + length (Payload r)) rs)"
  by (induction s seq adm rs rule: admit_frames.induct) auto

lemma admit_size_Inr:
  "admit_size largest rs f = Inr frames \<Longrightarrow> frames = f + int (length (admit_frames s seq adm rs))"
  by (induction largest rs f rule: admit_size.induct)
    (auto simp: length_admit_frames algebra_simps split: if_splits)

lemma admit_size_limits:
  "admit_size largest rs f = Inr frames \<Longrightarrow> r \<in> set rs \<Longrightarrow>
     ID r \<noteq> [] \<and> length (ID r) \<le> MaxIDBytes \<and> Payload r \<noteq> [] \<and> int (length (Payload r)) \<le> largest"
  by (induction largest rs f rule: admit_size.induct) (auto split: if_splits)

section \<open>Rotation\<close>

lemma q_charge_simps [simp]:
  "q_disk (q_charge k q) = q_disk q" "q_segments (q_charge k q) = q_segments q"
  "q_next (q_charge k q) = q_next q" "q_ledger (q_charge k q) = q_ledger q"
  "q_active (q_charge k q) = q_active q" "q_broken (q_charge k q) = q_broken q"
  "q_stream (q_charge k q) = q_stream q" "q_bytes (q_charge k q) = q_bytes q"
  "q_held (q_charge k q) = q_held q" "q_cursor (q_charge k q) = q_cursor q" "q_closed (q_charge k q) = q_closed q"
  "b_held (q_budget (q_charge k q)) (q_stream q) = b_held (q_budget q) (q_stream q) + k"
  by (simp_all add: q_charge_def budget_add_def)

lemma rotate_write_keeps:
  assumes "rotate_write d j x = (e, d')" "wf_disk d"
  shows "wf_disk d'" "kept_file d n i bs \<Longrightarrow> i \<noteq> j \<Longrightarrow> kept_file d' n i bs" "names d' = names d"
    "fresh d' = fresh d"
    "e = None \<Longrightarrow> data (inodes d j) = [] \<Longrightarrow> map_of (names d) m = Some j \<Longrightarrow> j < fresh d \<Longrightarrow> kept_file d' m j x"
proof -
  obtain e1 d1 where 1: "file_write d j x = (e1, d1)" by (cases "file_write d j x")
  obtain e2 d2 where 2: "(if e1 = None then file_sync d1 j else (e1, d1)) = (e2, d2)"
    by (cases "if e1 = None then file_sync d1 j else (e1, d1)")
  have 3: "(if e2 = None then syncDirectory d2 else (e2, d2)) = (e, d')"
    using assms(1) 1 2 by (simp add: rotate_write_def)
  have two: "wf_disk d2" "kept_file d n i bs \<Longrightarrow> i \<noteq> j \<Longrightarrow> kept_file d2 n i bs" "names d2 = names d" "fresh d2 = fresh d"
    using 2 assms(2) file_write_keeps [OF 1] file_sync_keeps [of d1 j e2 d2] by (auto split: if_splits)
  then show "wf_disk d'" "kept_file d n i bs \<Longrightarrow> i \<noteq> j \<Longrightarrow> kept_file d' n i bs" "names d' = names d"
    "fresh d' = fresh d"
    using 3 syncDirectory_keeps [of d2 e d'] by (auto split: if_splits)
  assume "e = None" and new: "data (inodes d j) = []" "map_of (names d) m = Some j" "j < fresh d"
  then have n: "syncDirectory d2 = (None, d')" "e1 = None" "file_sync d1 j = (None, d2)"
    using 2 3 by (auto split: if_splits)
  have d1: "data (inodes d1 j) = x" using 1 n(2) new(1) by (auto elim!: file_write_eq)
  have d2: "data (inodes d2 j) = x" "durable (inodes d2 j) = x" using file_sync_eq [OF n(3)] d1 by auto
  then show "kept_file d' m j x"
    using syncDirectory_eq(2) [OF n(1)] two(3,4) new by (auto simp: kept_file_def)
qed

lemma q_rotate_None:
  assumes run: "q_rotate f q = (None, q')" and wf: "wf_disk (q_disk q)"
  obtains i where "q_active q' = Some i" "fresh (q_disk q) \<le> i" "map_of (names (q_disk q)) (first_name f) = None"
    "wf_disk (q_disk q')" "kept_file (q_disk q') (first_name f) i (encodeSegmentHeader (q_stream q) f)"
    "\<And>n j bs. kept_file (q_disk q) n j bs \<Longrightarrow> kept_file (q_disk q') n j bs"
    "q' = q\<lparr>q_disk := q_disk q', q_segments := q_segments q @ [\<lparr>seg_first = f, seg_size = segmentHeaderBytes\<rparr>],
            q_active := Some i, q_bytes := q_bytes q + int segmentHeaderBytes\<rparr>"
proof -
  let ?h = "encodeSegmentHeader (q_stream q) f"
  obtain c d0 where 0: "(if q_active q \<noteq> None then attempt (q_disk q) else (None, q_disk q)) = (c, d0)"
    by (cases "if q_active q \<noteq> None then attempt (q_disk q) else (None, q_disk q)")
  have d0: "wf_disk d0" "\<And>n j bs. kept_file d0 n j bs = kept_file (q_disk q) n j bs" "fresh d0 = fresh (q_disk q)"
    "names d0 = names (q_disk q)"
    using 0 wf attempt_keeps [of "q_disk q" c d0] attempt_eq [of "q_disk q" c d0] by (auto split: if_splits)
  have c: "c = None" using run 0 by (auto simp: q_rotate_def Let_def split: option.splits)
  obtain i d1 where 1: "file_create d0 (first_name f) = (Inr i, d1)"
    using run 0 c by (auto simp: q_rotate_def segment_name_def Let_def split: prod.splits sum.splits)
  note k1 = file_create_keeps [OF 1 d0(1)]
  obtain d2 where 2: "rotate_write d1 i ?h = (None, d2)"
    using run 0 c 1 by (auto simp: q_rotate_def segment_name_def Let_def split: prod.splits option.splits)
  note k2 = rotate_write_keeps [OF 2 k1(1)]
  have q': "q' = q\<lparr>q_disk := d2,
      q_segments := q_segments q @ [\<lparr>seg_first = f, seg_size = segmentHeaderBytes\<rparr>],
      q_active := Some i, q_bytes := q_bytes q + int segmentHeaderBytes\<rparr>"
    using run 0 c 1 2 by (auto simp: q_rotate_def segment_name_def Let_def)
  show ?thesis
  proof (rule that [of i])
    show "q_active q' = Some i" by (simp add: q')
    show "fresh (q_disk q) \<le> i" using k1(4) [of i] d0(3) by auto
    show "map_of (names (q_disk q)) (first_name f) = None" using file_create_Inr(2) [OF 1] d0(4) by simp
    show "wf_disk (q_disk q')" using k2(1) by (simp add: q')
    show "kept_file (q_disk q') (first_name f) i ?h" using k2(5) k1(4) [of i] by (simp add: q')
    show "kept_file (q_disk q') n j bs" if "kept_file (q_disk q) n j bs" for n j bs
    proof -
      have "kept_file d1 n j bs" using that d0(2) k1(2) by blast
      moreover have "j \<noteq> i" using that k1(4) [of i] d0(3) by (auto simp: kept_file_def)
      ultimately show ?thesis using k2(2) by (simp add: q')
    qed
    show "q' = q\<lparr>q_disk := q_disk q', q_segments := q_segments q @ [\<lparr>seg_first = f, seg_size = segmentHeaderBytes\<rparr>],
            q_active := Some i, q_bytes := q_bytes q + int segmentHeaderBytes\<rparr>"
      by (simp add: q')
  qed
qed

lemma q_rotate_Some:
  assumes run: "q_rotate f q = (Some err, q')" and wf: "wf_disk (q_disk q)"
  shows "wf_disk (q_disk q')" "kept_file (q_disk q) n j bs \<Longrightarrow> kept_file (q_disk q') n j bs"
    "\<exists>b k. q' = q\<lparr>q_disk := q_disk q', q_active := None, q_broken := b, q_broke := k\<rparr>
       \<and> (b = None \<longrightarrow> q_broken q = None)"
proof -
  let ?h = "encodeSegmentHeader (q_stream q) f"
  obtain c d0 where 0: "(if q_active q \<noteq> None then attempt (q_disk q) else (None, q_disk q)) = (c, d0)"
    by (cases "if q_active q \<noteq> None then attempt (q_disk q) else (None, q_disk q)")
  have d0: "wf_disk d0" "\<And>n j bs. kept_file d0 n j bs = kept_file (q_disk q) n j bs" "fresh d0 = fresh (q_disk q)"
    using 0 wf attempt_keeps [of "q_disk q" c d0] attempt_eq [of "q_disk q" c d0] by (auto split: if_splits)
  have "wf_disk (q_disk q') \<and> (kept_file (q_disk q) n j bs \<longrightarrow> kept_file (q_disk q') n j bs)
    \<and> (\<exists>b k. q' = q\<lparr>q_disk := q_disk q', q_active := None, q_broken := b, q_broke := k\<rparr>
       \<and> (b = None \<longrightarrow> q_broken q = None))"
  proof (cases c)
    case (Some err1)
    then have "q' = q\<lparr>q_active := None, q_disk := d0\<rparr>" using run 0 by (simp add: q_rotate_def Let_def)
    then show ?thesis using d0 by (auto intro!: exI [of _ "q_broken q"] exI [of _ "q_broke q"])
  next
    case None
    obtain r d1 where 1: "file_create d0 (first_name f) = (r, d1)" by (cases "file_create d0 (first_name f)")
    note k1 = file_create_keeps [OF 1 d0(1)]
    show ?thesis
    proof (cases r)
      case (Inl err1)
      then have "q' = q\<lparr>q_active := None, q_disk := d1\<rparr>"
        using run 0 1 None by (simp add: q_rotate_def segment_name_def Let_def)
      then show ?thesis using d0 k1 by (auto intro!: exI [of _ "q_broken q"] exI [of _ "q_broke q"])
    next
      case (Inr i)
      obtain e d2 where 2: "rotate_write d1 i ?h = (e, d2)" by (cases "rotate_write d1 i ?h")
      note k2 = rotate_write_keeps [OF 2 k1(1)]
      have e: "e \<noteq> None" using run 0 1 2 None Inr
        by (auto simp: q_rotate_def segment_name_def Let_def split: option.splits)
      obtain c2 d3 where 3: "attempt d2 = (c2, d3)" by (cases "attempt d2")
      obtain rm d4 where 4: "file_remove d3 (first_name f) = (rm, d4)" by (cases "file_remove d3 (first_name f)")
      have q': "q' = (case JoinErr c2 rm of None \<Rightarrow> q\<lparr>q_active := None, q_disk := d4\<rparr>
          | Some undone \<Rightarrow> q_fail undone (q\<lparr>q_active := None, q_disk := d4\<rparr>))"
        using run 0 1 2 3 4 None Inr e
        by (cases "JoinErr c2 rm") (auto simp: q_rotate_def segment_name_def Let_def)
      have d4: "wf_disk d4" using file_remove_keeps(1) [OF 4] attempt_keeps(1) [OF 3] k2(1) by simp
      have "kept_file d4 n j bs" if k: "kept_file (q_disk q) n j bs"
      proof -
        have "kept_file d0 n j bs" using k d0(2) by blast
        moreover from this have "n \<noteq> first_name f"
          using file_create_Inr(2) [OF 1 [unfolded Inr]] by (auto simp: kept_file_def)
        moreover have "j \<noteq> i" using k k1(4) [of i] Inr d0(3) by (auto simp: kept_file_def)
        ultimately show ?thesis
          using k1(2) k2(2) attempt_keeps(2) [OF 3] file_remove_keeps(2) [OF 4] by blast
      qed
      then show ?thesis using d4
        by (cases "JoinErr c2 rm")
          (auto simp: q' q_fail_def intro!: exI [of _ "q_broken q'"] exI [of _ "q_broke q'"])
    qed
  qed
  then show "wf_disk (q_disk q')" "kept_file (q_disk q) n j bs \<Longrightarrow> kept_file (q_disk q') n j bs"
    "\<exists>b k. q' = q\<lparr>q_disk := q_disk q', q_active := None, q_broken := b, q_broke := k\<rparr>
       \<and> (b = None \<longrightarrow> q_broken q = None)"
    by blast+
qed

section \<open>Appending\<close>

text \<open>
  An admission runs with its bytes reserved and not yet written: the invariant holds of the queue
  with the reservation taken back.
\<close>

lemma wf_charge_break:
  assumes "wf_queue (q_charge k q)" "q_broken q' = Some err"
    and "q_segments q' = q_segments q" "q_next q' = q_next q" "q_ledger q' = q_ledger q"
    "q_bytes q' = q_bytes q" "q_held q' = q_held q" "wf_disk (q_disk q')"
    "q_active q' = None \<or> q_active q' = q_active q" "q_cursor q' = q_cursor q"
  shows "wf_queue q'"
  using assms unfolding wf_queue_def by auto

lemma wf_charge_disk:
  assumes wf: "wf_queue (q_charge k q)"
    and d: "wf_disk d" "\<And>f i bs. kept_file (q_disk q) (first_name f) i bs \<Longrightarrow> kept_file d (first_name f) i bs"
  shows "wf_queue (q_charge k q\<lparr>q_disk := d\<rparr>)"
  using wf_queue_disk [OF wf d(1)] d(2) by simp

lemma wf_queue_budget:
  assumes "wf_queue q" "b_held b (q_stream q) = b_held (q_budget q) (q_stream q)"
  shows "wf_queue (q\<lparr>q_budget := b\<rparr>)"
  using assms by (simp add: wf_queue_def)

lemma wf_queue_inactive: "wf_queue q \<Longrightarrow> wf_queue (q\<lparr>q_active := None\<rparr>)"
  by (simp add: wf_queue_def)

lemma q_rejected_wf:
  assumes "wf_queue q" "q_rejected h err q = (err', q')"
  shows "wf_queue q'" "q_segments q' = q_segments q" "q_next q' = q_next q" "q_ledger q' = q_ledger q"
    "q_disk q' = q_disk q" "q_broken q' = None \<Longrightarrow> \<not> q_closed q \<Longrightarrow> q_broken q = None \<and> Is err' ErrFull"
    "q_broken q' \<noteq> None \<Longrightarrow> Is err' ErrUnavailable \<or> q_closed q"
proof -
  have "wf_queue (q_fail err q)" using assms(1) by (simp add: wf_queue_def q_fail_def)
  moreover have "wf_queue (q\<lparr>q_budget := snd (budget_crowd h (q_budget q) err)\<rparr>)"
    by (rule wf_queue_budget [OF assms(1)]) (simp add: budget_crowd_def)
  ultimately show "wf_queue q'" 
    using assms by (auto simp: q_rejected_def budget_crowd_def split: if_splits)
  show "q_segments q' = q_segments q" "q_next q' = q_next q" "q_ledger q' = q_ledger q"
    "q_disk q' = q_disk q"
    "q_broken q' \<noteq> None \<Longrightarrow> Is err' ErrUnavailable \<or> q_closed q"
    using assms(2) by (auto simp: q_rejected_def q_fail_def budget_crowd_def q_admitting_def split: if_splits)
  show "q_broken q' = None \<Longrightarrow> \<not> q_closed q \<Longrightarrow> q_broken q = None \<and> Is err' ErrFull"
    using assms(2) by (auto simp: q_rejected_def q_fail_def budget_crowd_def q_admitting_def split: if_splits)
qed

text \<open>The write and the sync of the frames, and what undoing an unfinished write leaves.\<close>

lemma append_files:
  assumes "file_write d i x = (None, d1)" "file_sync d1 i = (None, d2)" "wf_disk d" "kept_file d m i bs"
  shows "wf_disk d2" "kept_file d2 m i (bs @ x)" "n \<noteq> m \<Longrightarrow> kept_file d n j cs \<Longrightarrow> kept_file d2 n j cs"
proof -
  note k1 = file_write_keeps [OF assms(1)] and k2 = file_sync_keeps [OF assms(2)]
  show "wf_disk d2" using k1 k2 assms(3) by simp
  have "data (inodes d1 i) = bs @ x" using assms(1,4) by (auto elim!: file_write_eq simp: kept_file_def)
  then have "data (inodes d2 i) = bs @ x" "durable (inodes d2 i) = bs @ x"
    using file_sync_eq [OF assms(2)] by auto
  then show "kept_file d2 m i (bs @ x)"
    using assms(4) k1(3-5) k2(3-5) by (simp add: kept_file_def)
  assume n: "n \<noteq> m" "kept_file d n j cs"
  then have "j \<noteq> i" using assms(3,4) by (auto simp: wf_disk_def kept_file_def)
  then show "kept_file d2 n j cs" using k1(2) k2(2) n(2) by blast
qed

lemma undo_files:
  assumes "file_write d i x = (e, d1)" "file_truncate d1 i (length bs) = (t, d2)" "file_sync d2 i = (s, d3)"
    and "wf_disk d" "kept_file d m i bs"
  shows "wf_disk d3" "JoinErr t s = None \<Longrightarrow> kept_file d n j cs \<Longrightarrow> kept_file d3 n j cs"
proof -
  note k1 = file_write_keeps [OF assms(1)] and k2 = file_truncate_keeps [OF assms(2)]
    and k3 = file_sync_keeps [OF assms(3)]
  show "wf_disk d3" using k1 k2 k3 assms(4) by simp
  assume "JoinErr t s = None" and n: "kept_file d n j cs"
  then have ok: "t = None" "s = None" by simp_all
  show "kept_file d3 n j cs"
  proof (cases "j = i")
    case False
    then show ?thesis using k1(2) k2(2) k3(2) n by blast
  next
    case True
    then have cs: "cs = bs" using n assms(5) by (simp add: kept_file_def)
    have "\<exists>y. data (inodes d1 i) = bs @ y"
      using assms(1,5) by (auto elim!: file_write_eq simp: kept_file_def)
    then have "data (inodes d2 i) = bs"
      using file_truncate_eq [OF assms(2)] ok by auto
    then have "data (inodes d3 i) = bs" "durable (inodes d3 i) = bs"
      using file_sync_eq [OF assms(3)] ok by auto
    then show ?thesis
      using n True cs k1(3-5) k2(3-5) k3(3-5) by (simp add: kept_file_def)
  qed
qed

lemma next_grows:
  assumes "unat (n :: u64) + k \<le> 2 ^ 62 + 1"
  shows "unat (n + of_nat k) = unat n + k" "n + of_nat k \<le> maxSequence + 1" "n \<le> n + of_nat k"
proof -
  have k: "unat (of_nat k :: u64) = k" using assms by (simp add: unat_of_nat)
  then show n: "unat (n + of_nat k) = unat n + k" using assms by (subst unat_plus) simp_all
  show "n + of_nat k \<le> maxSequence + 1" "n \<le> n + of_nat k"
    using assms unfolding word_le_nat_alt n by simp_all
qed

lemma sorted_segments_last:
  assumes "sorted_wrt (<) (List.map seg_first ss)" "ss \<noteq> []"
  shows "sorted_wrt (<) (List.map seg_first (butlast ss @ [(last ss)\<lparr>seg_size := k\<rparr>]))"
    and "s \<in> set (butlast ss) \<Longrightarrow> seg_first s < seg_first (last ss)"
proof -
  have ss: "ss = butlast ss @ [last ss]" using assms(2) by simp
  show "sorted_wrt (<) (List.map seg_first (butlast ss @ [(last ss)\<lparr>seg_size := k\<rparr>]))"
    using assms(1) by (subst (asm) ss) (auto simp: sorted_wrt_append)
  show "s \<in> set (butlast ss) \<Longrightarrow> seg_first s < seg_first (last ss)"
    using assms(1) by (subst (asm) ss) (auto simp: sorted_wrt_append)
qed

lemma active_kept:
  assumes "wf_queue q" "q_active q = Some i" "q_broken q = None"
  obtains bs where "kept_file (q_disk q) (segment_name (last (q_segments q))) i bs"
    "length bs = seg_size (last (q_segments q))" "q_segments q \<noteq> []"
proof -
  note w = wf_queueD [OF assms(1)]
  have ne: "q_segments q \<noteq> []" using w(8) assms(2) by simp
  then have "kept_segment (q_disk q) (last (q_segments q))" using w(10) assms(3) by simp
  then obtain k bs where k: "kept_file (q_disk q) (segment_name (last (q_segments q))) k bs"
    "length bs = seg_size (last (q_segments q))"
    by (auto simp: kept_segment_def)
  moreover from this have "k = i" using w(11) assms(2,3) by (auto simp: kept_file_def)
  ultimately show ?thesis using that ne by blast
qed

lemma q_append_Inr:
  assumes wf: "wf_queue (q_charge (- frames) q)" and act: "q_active q = Some i" and ok: "q_broken q = None"
    and F: "F = admit_frames (q_stream q) first (now h) records" "frames = int (length F)"
    and room: "unat (q_next q) + length records \<le> 2 ^ 62 + 1"
    and run: "q_append h records first frames q = (Inr rc, q')"
  shows "wf_queue q'" "q_next q' = q_next q + of_nat (length records)" "q_ledger q' = q_ledger q"
    "q_broken q' = None"
    "q_segments q' = butlast (q_segments q)
       @ [(last (q_segments q))\<lparr>seg_size := seg_size (last (q_segments q)) + length F\<rparr>]"
    "kept_file (q_disk q) (segment_name (last (q_segments q))) j bs \<Longrightarrow>
       kept_file (q_disk q') (segment_name (last (q_segments q))) j (bs @ F)"
    "f \<noteq> seg_first (last (q_segments q)) \<Longrightarrow> kept_file (q_disk q) (first_name f) j cs \<Longrightarrow>
       kept_file (q_disk q') (first_name f) j cs"
    "rc = \<lparr>rc_Stream = q_stream q, rc_First = first, rc_Last = first + of_nat (length records) - 1\<rparr>"
proof -
  note w = wf_queueD [OF wf]
  let ?z = "last (q_segments q)"
  obtain bs0 where kz: "kept_file (q_disk q) (segment_name ?z) i bs0" "length bs0 = seg_size ?z"
    and ne: "q_segments q \<noteq> []"
    using active_kept [OF wf, of i] act ok by auto
  have z: "?z \<in> set (q_segments q)" using ne by simp
  obtain d1 where 1: "file_write (q_disk q) i F = (None, d1)"
    using run act F by (auto simp: q_append_def Let_def split: prod.splits option.splits)
  obtain d2 where 2: "file_sync d1 i = (None, d2)"
    using run act F 1 by (auto simp: q_append_def Let_def split: prod.splits option.splits)
  have q': "q' = q\<lparr>q_disk := d2, q_budget := budget_relieve (q_budget q),
      q_segments := butlast (q_segments q) @ [?z\<lparr>seg_size := seg_size ?z + length F\<rparr>],
      q_next := q_next q + of_nat (length records), q_bytes := q_bytes q + frames, q_signal := False\<rparr>"
    and rc: "rc = \<lparr>rc_Stream = q_stream q, rc_First = first, rc_Last = first + of_nat (length records) - 1\<rparr>"
    using run act F 1 2 by (simp_all add: q_append_def q_announce_def Let_def)
  have files: "wf_disk d2" "kept_file d2 (segment_name ?z) i (bs0 @ F)"
    "\<And>n j cs. n \<noteq> segment_name ?z \<Longrightarrow> kept_file (q_disk q) n j cs \<Longrightarrow> kept_file d2 n j cs"
    using append_files [OF 1 2 _ kz(1)] w(1) by simp_all
  note grow = next_grows [OF room]
  have kept: "kept_segment d2 s" if "s \<in> set (butlast (q_segments q))" for s
  proof -
    have "seg_first s \<noteq> seg_first ?z" using sorted_segments_last(2) [OF _ ne that] w(5) by simp
    then have "segment_name s \<noteq> segment_name ?z" by (simp add: segment_name_def)
    moreover have "kept_segment (q_disk q) s" using w(10) ok in_set_butlastD [OF that] by simp
    ultimately show ?thesis using files(3) by (blast intro: kept_segment_transfer)
  qed
  have total: "seg_total (butlast (q_segments q)) + int (seg_size ?z) = seg_total (q_segments q)"
    using ne seg_total_simps(3) [of "butlast (q_segments q)" "[?z]"] by simp
  have "kept_segment d2 (?z\<lparr>seg_size := seg_size ?z + length F\<rparr>)"
    using files(2) kz(2) by (auto simp: kept_segment_def segment_name_def intro!: exI)
  moreover have "map_of (names d2) (segment_name (?z\<lparr>seg_size := seg_size ?z + length F\<rparr>)) = Some i"
    using files(2) by (simp add: kept_file_def segment_name_def)
  moreover have bound: "0 < seg_first s \<and> seg_first s \<le> q_next q + of_nat (length records)"
    if "s \<in> set (q_segments q)" for s
    using w(6) [of s] that grow(3) by auto
  moreover note bound [OF in_set_butlastD]
  moreover have "ledger_highest (q_ledger q) \<le> q_next q + of_nat (length records)"
    using w(3) grow(3) by simp
  ultimately show "wf_queue q'"
    using w(2,5,7,9,12) files(1) kept total grow(2) act ok z F(2) sorted_segments_last(1) [OF _ ne]
    by (auto simp: wf_queue_def q' budget_relieve_def)
  show "q_next q' = q_next q + of_nat (length records)" "q_ledger q' = q_ledger q" "q_broken q' = None"
    "q_segments q' = butlast (q_segments q) @ [?z\<lparr>seg_size := seg_size ?z + length F\<rparr>]"
    "rc = \<lparr>rc_Stream = q_stream q, rc_First = first, rc_Last = first + of_nat (length records) - 1\<rparr>"
    using ok rc by (simp_all add: q')
  show "kept_file (q_disk q') (segment_name ?z) j (bs @ F)" if "kept_file (q_disk q) (segment_name ?z) j bs"
    using that kz(1) files(2) by (auto simp: q' kept_file_def)
  show "kept_file (q_disk q') (first_name f) j cs"
    if "f \<noteq> seg_first ?z" "kept_file (q_disk q) (first_name f) j cs"
    using files(3) that by (simp add: q' segment_name_def)
qed

lemma q_append_Inl:
  assumes wf: "wf_queue (q_charge (- frames) q)" and act: "q_active q = Some i" and ok: "q_broken q = None"
    and run: "q_append h records first frames q = (Inl err, q')"
  shows "wf_queue q'" "q_next q' = q_next q" "q_ledger q' = q_ledger q" "q_segments q' = q_segments q"
    "q_broken q' = None \<Longrightarrow> \<not> q_closed q \<Longrightarrow> Is err ErrFull
       \<and> (\<forall>n j cs. kept_file (q_disk q) n j cs \<longrightarrow> kept_file (q_disk q') n j cs)"
    "q_broken q' \<noteq> None \<Longrightarrow> \<not> q_closed q \<Longrightarrow> Is err ErrUnavailable"
proof -
  note w = wf_queueD [OF wf]
  let ?z = "last (q_segments q)" and ?F = "admit_frames (q_stream q) first (now h) records"
  obtain bs0 where kz: "kept_file (q_disk q) (segment_name ?z) i bs0" "length bs0 = seg_size ?z"
    using active_kept [OF wf, of i] act ok by auto
  obtain e d1 where 1: "file_write (q_disk q) i ?F = (e, d1)" by (cases "file_write (q_disk q) i ?F")
  have "wf_queue q' \<and> q_next q' = q_next q \<and> q_ledger q' = q_ledger q \<and> q_segments q' = q_segments q
    \<and> (q_broken q' = None \<longrightarrow> \<not> q_closed q \<longrightarrow> Is err ErrFull
         \<and> (\<forall>n j cs. kept_file (q_disk q) n j cs \<longrightarrow> kept_file (q_disk q') n j cs))
    \<and> (q_broken q' \<noteq> None \<longrightarrow> \<not> q_closed q \<longrightarrow> Is err ErrUnavailable)"
  proof (cases e)
    case None
    obtain s d2 where 2: "file_sync d1 i = (s, d2)" by (cases "file_sync d1 i")
    obtain e2 where s: "s = Some e2" "q' = q_fail e2 (q\<lparr>q_disk := d2\<rparr>)" "err = ErrUnavailable # e2"
      using run act 1 2 None by (auto simp: q_append_def Let_def split: option.splits)
    have "wf_disk d2" using file_write_keeps(1) [OF 1] file_sync_keeps(1) [OF 2] w(1) by simp
    then have "wf_queue q'"
      by (intro wf_charge_break [OF wf, of _ e2]) (simp_all add: s q_fail_def)
    then show ?thesis by (simp add: s q_fail_def)
  next
    case (Some e1)
    obtain t d2 where 2: "file_truncate d1 i (seg_size ?z) = (t, d2)" by (cases "file_truncate d1 i (seg_size ?z)")
    obtain s d3 where 3: "file_sync d2 i = (s, d3)" by (cases "file_sync d2 i")
    note u = undo_files [OF 1 2 [folded kz(2)] 3 w(1) [simplified] kz(1)]
    define q1 where "q1 = q_charge (- frames) (q\<lparr>q_disk := d3\<rparr>)"
    define q2 where "q2 = (case JoinErr t s of None \<Rightarrow> q1 | Some undone \<Rightarrow> q_fail undone q1)"
    obtain err2 q3 where r: "q_rejected h e1 q2 = (err2, q3)" by (cases "q_rejected h e1 q2")
    have q': "q' = q3" "err = err2"
      using run act 1 2 3 Some r [unfolded q2_def q1_def] by (simp_all add: q_append_def Let_def)
    have q1: "q1 = q_charge (- frames) q\<lparr>q_disk := d3\<rparr>" by (simp add: q1_def q_charge_def)
    have "wf_queue q2"
    proof (cases "JoinErr t s")
      case None
      then show ?thesis
        unfolding q2_def q1 using wf_charge_disk [OF wf u(1)] u(2) by simp
    next
      case (Some e3)
      then show ?thesis
        using u(1) by (intro wf_charge_break [OF wf, of _ e3]) (simp_all add: q2_def q_fail_def q1_def)
    qed
    note rj = q_rejected_wf [OF this r]
    have q2: "q_next q2 = q_next q" "q_ledger q2 = q_ledger q" "q_segments q2 = q_segments q"
      "q_closed q2 = q_closed q" "q_disk q2 = d3" "q_broken q2 = None \<longrightarrow> JoinErr t s = None"
      by (auto simp: q2_def q1_def q_fail_def split: option.splits)
    show ?thesis using rj q2 u(2) by (auto simp: q')
  qed
  then show "wf_queue q'" "q_next q' = q_next q" "q_ledger q' = q_ledger q" "q_segments q' = q_segments q"
    "q_broken q' = None \<Longrightarrow> \<not> q_closed q \<Longrightarrow> Is err ErrFull
       \<and> (\<forall>n j cs. kept_file (q_disk q) n j cs \<longrightarrow> kept_file (q_disk q') n j cs)"
    "q_broken q' \<noteq> None \<Longrightarrow> \<not> q_closed q \<Longrightarrow> Is err ErrUnavailable"
    by blast+
qed

section \<open>Admission\<close>

lemma next_pos: "wf_queue q \<Longrightarrow> 0 < q_next q"
  using wf_queueD(2,3) [of q] wf_spans_range [of "watermark (q_ledger q)" "spans (q_ledger q)"]
  by (auto simp: wf_ledger_def ledger_highest_top)

lemma rotate_wf:
  assumes wf: "wf_queue (q_charge k q)" and ok: "q_broken q = None"
    and run: "q_rotate (q_next q) q = (r, q')"
  shows "r = None \<Longrightarrow> wf_queue (q_charge (k + int segmentHeaderBytes) q')"
    "r \<noteq> None \<Longrightarrow> wf_queue (q_charge k q')"
proof -
  note w = wf_queueD [OF wf]
  have wd: "wf_disk (q_disk q)" using w(1) by simp
  {
    assume "r = None"
    with run have "q_rotate (q_next q) q = (None, q')" by simp
    then obtain i where "q_active q' = Some i" "fresh (q_disk q) \<le> i"
      and i: "map_of (names (q_disk q)) (first_name (q_next q)) = None" "wf_disk (q_disk q')"
      "kept_file (q_disk q') (first_name (q_next q)) i (encodeSegmentHeader (q_stream q) (q_next q))"
      "\<And>n j bs. kept_file (q_disk q) n j bs \<Longrightarrow> kept_file (q_disk q') n j bs"
      "q' = q\<lparr>q_disk := q_disk q', q_segments := q_segments q @ [\<lparr>seg_first = q_next q, seg_size = segmentHeaderBytes\<rparr>],
            q_active := Some i, q_bytes := q_bytes q + int segmentHeaderBytes\<rparr>"
      using q_rotate_None [OF _ wd] by metis
    define d where "d = q_disk q'"
    note i' = i(2-5) [folded d_def]
    have lt: "seg_first s < q_next q" if s: "s \<in> set (q_segments q)" for s
    proof -
      obtain j bs where "kept_file (q_disk q) (segment_name s) j bs"
        using w(10) [of s] s ok by (auto simp: kept_segment_def)
      then have "seg_first s \<noteq> q_next q" using i(1) by (auto simp: kept_file_def segment_name_def)
      then show ?thesis using w(6) [of s] s by (simp add: order_less_le)
    qed
    have "0 < q_next q" using next_pos [OF wf] by simp
    moreover have "kept_segment d \<lparr>seg_first = q_next q, seg_size = segmentHeaderBytes\<rparr>"
      using i'(2) by (auto simp: kept_segment_def segment_name_def intro!: exI)
    moreover have "kept_segment d s" if "s \<in> set (q_segments q)" for s
      using w(10) [of s] that ok i'(3) by (auto intro: kept_segment_transfer)
    moreover have "map_of (names d) (first_name (q_next q)) = Some i"
      using i'(2) by (simp add: kept_file_def)
    ultimately have "wf_queue (q_charge (k + int segmentHeaderBytes) q')"
      using w i'(1) lt ok unfolding i'(4)
      by (auto simp: wf_queue_def sorted_wrt_append segment_name_def q_charge_def budget_add_def)
  }
  then show "r = None \<Longrightarrow> wf_queue (q_charge (k + int segmentHeaderBytes) q')" .
  assume "r \<noteq> None"
  then obtain err where "q_rotate (q_next q) q = (Some err, q')" using run by auto
  note s = q_rotate_Some [OF this wd]
  define d where "d = q_disk q'"
  obtain b k' where q': "q' = q\<lparr>q_disk := d, q_active := None, q_broken := b, q_broke := k'\<rparr>"
    using s(3) unfolding d_def by blast
  have "wf_queue (q_charge k q\<lparr>q_disk := d\<rparr>)"
    by (rule wf_charge_disk [OF wf]) (use s(1,2) in \<open>auto simp: d_def\<close>)
  then have "wf_queue (q_charge k q\<lparr>q_disk := d, q_active := None\<rparr>)"
    using wf_queue_inactive by fastforce
  then show "wf_queue (q_charge k q')"
    using ok unfolding q' by (simp add: wf_queue_def q_charge_def)
qed

text \<open>What an admission finds at the end of the last segment before it writes its frames.\<close>

definition admit_base :: "queue \<Rightarrow> queue \<Rightarrow> byte list \<Rightarrow> bool" where
  "admit_base q q' bs \<longleftrightarrow>
     (let z = last (q_segments q')
      in if q_rotates q
         then seg_first z = q_next q \<and> butlast (q_segments q') = q_segments q
              \<and> bs = encodeSegmentHeader (q_stream q) (q_next q)
         else q_segments q \<noteq> [] \<and> seg_first z = seg_first (last (q_segments q))
              \<and> butlast (q_segments q') = butlast (q_segments q)
              \<and> (\<exists>i. kept_file (q_disk q) (segment_name z) i bs))"

lemma q_admit_Inr:
  assumes wf: "wf_queue q" and run: "q_admit h records q = (Inr rc, q')"
    and room: "unat (q_next q) + length records \<le> 2 ^ 62 + 1"
  shows "wf_queue q'" "q_next q' = q_next q + of_nat (length records)" "q_ledger q' = q_ledger q"
    "q_broken q' = None" "complete q \<Longrightarrow> complete q'"
    "rc = \<lparr>rc_Stream = q_stream q, rc_First = q_next q, rc_Last = q_next q + of_nat (length records) - 1\<rparr>"
    "\<exists>i bs. admit_base q q' bs
       \<and> kept_file (q_disk q') (segment_name (last (q_segments q'))) i
           (bs @ admit_frames (q_stream q) (q_next q) (now h) records)"
    "f \<noteq> seg_first (last (q_segments q')) \<Longrightarrow> kept_file (q_disk q) (first_name f) j cs \<Longrightarrow>
       kept_file (q_disk q') (first_name f) j cs"
    "r \<in> set records \<Longrightarrow> ID r \<noteq> [] \<and> length (ID r) \<le> MaxIDBytes \<and> Payload r \<noteq> []
       \<and> int (length (Payload r)) \<le> b_record (q_budget q)"
proof -
  let ?F = "admit_frames (q_stream q) (q_next q) (now h) records"
  obtain frames where size: "admit_size (budget_largest (q_budget q)) records 0 = Inr frames"
    using run by (auto simp: q_admit_def split: sum.splits)
  have frames: "frames = int (length ?F)" using admit_size_Inr [OF size] by simp
  show "r \<in> set records \<Longrightarrow> ID r \<noteq> [] \<and> length (ID r) \<le> MaxIDBytes \<and> Payload r \<noteq> []
       \<and> int (length (Payload r)) \<le> b_record (q_budget q)"
    using admit_size_limits [OF size] by (simp add: budget_largest_def)
  have ok: "q_broken q = None" "\<not> q_closed q"
    using run size by (auto simp: q_admit_def Let_def split: if_splits option.splits)
  define needed where "needed = (if q_rotates q then frames + int segmentHeaderBytes else frames)"
  obtain b where b: "budget_reserve h (q_budget q) (q_stream q) needed = (None, b)"
    using run size ok by (auto simp: q_admit_def Let_def needed_def split: prod.splits option.splits)
  have b': "b = budget_add (q_budget q) (q_stream q) needed" using b by (simp add: budget_reserve_None)
  define q0 where "q0 = q\<lparr>q_budget := b\<rparr>"
  have "q_charge (- needed) q0 = q" by (simp add: q0_def q_charge_def b')
  then have wf0: "wf_queue (q_charge (- needed) q0)" using wf by simp
  have same0: "q_next q0 = q_next q" "q_segments q0 = q_segments q" "q_disk q0 = q_disk q"
    "q_active q0 = q_active q" "q_stream q0 = q_stream q" "q_broken q0 = None" "q_ledger q0 = q_ledger q"
    by (simp_all add: q0_def ok)
  obtain q1 where q1: "(if q_rotates q then q_rotate (q_next q) q0 else (None, q0)) = (None, q1)"
    and app: "q_append h records (q_next q) frames q1 = (Inr rc, q')"
    using run size ok b unfolding q0_def
    by (auto simp: q_admit_def Let_def needed_def [symmetric] split: prod.splits option.splits)
  obtain i where one: "wf_queue (q_charge (- frames) q1)" "q_active q1 = Some i" "q_broken q1 = None"
    "q_next q1 = q_next q" "q_stream q1 = q_stream q" "q_ledger q1 = q_ledger q"
    "q_segments q1 = (if q_rotates q
       then q_segments q @ [\<lparr>seg_first = q_next q, seg_size = segmentHeaderBytes\<rparr>] else q_segments q)"
    "\<And>n j bs. kept_file (q_disk q) n j bs \<Longrightarrow> kept_file (q_disk q1) n j bs"
    "\<exists>bs. kept_file (q_disk q1) (segment_name (last (q_segments q1))) i bs
       \<and> (if q_rotates q then bs = encodeSegmentHeader (q_stream q) (q_next q)
          else kept_file (q_disk q) (segment_name (last (q_segments q1))) i bs \<and> q_segments q \<noteq> [])"
  proof (cases "q_rotates q")
    case True
    then have rot: "q_rotate (q_next q0) q0 = (None, q1)" using q1 same0 by simp
    have wd0: "wf_disk (q_disk q0)" using wf_queueD(1) [OF wf] same0 by simp
    obtain i where i: "q_active q1 = Some i"
      "kept_file (q_disk q1) (first_name (q_next q)) i (encodeSegmentHeader (q_stream q) (q_next q))"
      "\<And>n j bs. kept_file (q_disk q) n j bs \<Longrightarrow> kept_file (q_disk q1) n j bs"
      "q1 = q0\<lparr>q_disk := q_disk q1, q_segments := q_segments q @ [\<lparr>seg_first = q_next q, seg_size = segmentHeaderBytes\<rparr>],
            q_active := Some i, q_bytes := q_bytes q0 + int segmentHeaderBytes\<rparr>"
      using q_rotate_None [OF rot wd0] unfolding same0 by metis
    have "wf_queue (q_charge (- frames) q1)"
      using rotate_wf(1) [OF wf0 same0(6) rot] True by (simp add: needed_def)
    moreover define d where "d = q_disk q1"
    have "q_next q1 = q_next q" "q_stream q1 = q_stream q" "q_ledger q1 = q_ledger q" "q_broken q1 = None"
      "q_segments q1 = q_segments q @ [\<lparr>seg_first = q_next q, seg_size = segmentHeaderBytes\<rparr>]"
      by (subst i(4) [folded d_def], simp add: same0)+
    ultimately show ?thesis using that [of i] i(1-3) True by (simp add: segment_name_def)
  next
    case False
    then have "q1 = q0" using q1 by simp
    obtain i where "q_active q = Some i" using False by (auto simp: q_rotates_def)
    with active_kept [OF wf this ok(1)] that [of i] wf0 same0 False \<open>q1 = q0\<close>
    show ?thesis by (auto simp: needed_def)
  qed
  note ap = q_append_Inr [OF one(1-3) _ frames _ app, unfolded one(4,5), OF refl room]
  show "wf_queue q'" "q_next q' = q_next q + of_nat (length records)" "q_ledger q' = q_ledger q"
    "q_broken q' = None"
    "rc = \<lparr>rc_Stream = q_stream q, rc_First = q_next q, rc_Last = q_next q + of_nat (length records) - 1\<rparr>"
    using ap(1-4,8) one(6) by simp_all
  have last': "seg_first (last (q_segments q')) = seg_first (last (q_segments q1))" using ap(5) by simp
  show "f \<noteq> seg_first (last (q_segments q')) \<Longrightarrow> kept_file (q_disk q) (first_name f) j cs \<Longrightarrow>
       kept_file (q_disk q') (first_name f) j cs"
    using ap(7) one(8) last' by simp
  obtain bs where bs: "kept_file (q_disk q1) (segment_name (last (q_segments q1))) i bs"
    "if q_rotates q then bs = encodeSegmentHeader (q_stream q) (q_next q)
     else kept_file (q_disk q) (segment_name (last (q_segments q1))) i bs \<and> q_segments q \<noteq> []"
    using one(9) by blast
  have "kept_file (q_disk q') (segment_name (last (q_segments q'))) i (bs @ ?F)"
    using ap(6) [OF bs(1)] last' by (simp add: segment_name_def)
  moreover have "admit_base q q' bs"
    using bs(2) last' ap(5) one(7) by (auto simp: admit_base_def Let_def segment_name_def)
  ultimately show "\<exists>i bs. admit_base q q' bs
       \<and> kept_file (q_disk q') (segment_name (last (q_segments q'))) i (bs @ ?F)" by blast
  show "complete q'" if "complete q"
  proof -
    have "oldest q' = oldest q"
      using ap(5) one(7) bs(2) unfolding oldest_def
      by (cases "q_segments q" rule: rev_cases; cases "butlast (q_segments q)") (auto split: if_splits list.splits)
    then show ?thesis using that ap(3) one(6) by (simp add: complete_def)
  qed
qed

lemma admit_size_Inl: "admit_size largest rs f = Inl err \<Longrightarrow> err = [ErrRefused]"
  by (induction largest rs f rule: admit_size.induct) (auto split: if_splits)

lemma rotate_fields:
  assumes "q_rotate f q = (r, q')"
  shows "q_next q' = q_next q" "q_ledger q' = q_ledger q" "q_stream q' = q_stream q" "q_closed q' = q_closed q"
    "r \<noteq> None \<Longrightarrow> q_segments q' = q_segments q"
    "r = None \<Longrightarrow> q_segments q' = q_segments q @ [\<lparr>seg_first = f, seg_size = segmentHeaderBytes\<rparr>]
       \<and> q_active q' \<noteq> None \<and> q_broken q' = q_broken q"
  using assms
  by (auto simp: q_rotate_def Let_def q_fail_def split: prod.splits option.splits sum.splits if_splits)

lemma q_admit_Inl:
  assumes wf: "wf_queue q" and run: "q_admit h records q = (Inl err, q')"
  shows "wf_queue q'" "q_next q' = q_next q" "q_ledger q' = q_ledger q" "complete q \<Longrightarrow> complete q'"
    "q_broken q' = None \<Longrightarrow> kept_file (q_disk q) n j cs \<Longrightarrow> kept_file (q_disk q') n j cs"
    "q_broken q = None \<Longrightarrow> q_broken q' \<noteq> None \<Longrightarrow> Is err ErrUnavailable"
    "q_segments q' = q_segments q
       \<or> q_segments q' = q_segments q @ [\<lparr>seg_first = q_next q, seg_size = segmentHeaderBytes\<rparr>]"
    "Is err ErrRefused \<or> Is err ErrClosed \<or> Is err ErrFull \<or> Is err ErrUnavailable \<or> room h = Inl err"
proof -
  let ?hdr = "\<lparr>seg_first = q_next q, seg_size = segmentHeaderBytes\<rparr>"
  let ?goal = "wf_queue q' \<and> q_next q' = q_next q \<and> q_ledger q' = q_ledger q
    \<and> (q_broken q' = None \<longrightarrow> kept_file (q_disk q) n j cs \<longrightarrow> kept_file (q_disk q') n j cs)
    \<and> (q_broken q = None \<longrightarrow> q_broken q' \<noteq> None \<longrightarrow> Is err ErrUnavailable)
    \<and> (q_segments q' = q_segments q \<or> q_segments q' = q_segments q @ [?hdr])
    \<and> (Is err ErrRefused \<or> Is err ErrClosed \<or> Is err ErrFull \<or> Is err ErrUnavailable \<or> room h = Inl err)"
  have ?goal
  proof (cases "admit_size (budget_largest (q_budget q)) records 0")
    case (Inl err0)
    then have "q' = q" "err = [ErrRefused]" using run admit_size_Inl by (auto simp: q_admit_def)
    then show ?thesis using wf by simp
  next
    case size: (Inr frames)
    show ?thesis
    proof (cases "q_closed q \<or> q_broken q \<noteq> None")
      case True
      then have "q' = q" "Is err ErrClosed \<or> Is err ErrUnavailable"
        using run size by (auto simp: q_admit_def Let_def split: if_splits option.splits)
      then show ?thesis using wf by auto
    next
      case False
      then have ok: "q_broken q = None" "\<not> q_closed q" by auto
      define needed where "needed = (if q_rotates q then frames + int segmentHeaderBytes else frames)"
      obtain e b where b: "budget_reserve h (q_budget q) (q_stream q) needed = (e, b)"
        by (cases "budget_reserve h (q_budget q) (q_stream q) needed")
      show ?thesis
      proof (cases e)
        case (Some err0)
        then have "q' = q\<lparr>q_budget := b\<rparr>" "err = err0"
          using run size ok b by (simp_all add: q_admit_def Let_def needed_def)
        then show ?thesis
          using wf ok budget_reserve_Some [of h "q_budget q" "q_stream q" needed err0 b]
            budget_reserve_full [of h "q_budget q" "q_stream q" needed err0 b] b Some by auto
      next
        case None
        have b': "b = budget_add (q_budget q) (q_stream q) needed" using b None by (simp add: budget_reserve_None)
        define q0 where "q0 = q\<lparr>q_budget := b\<rparr>"
        have "q_charge (- needed) q0 = q" by (simp add: q0_def q_charge_def b')
        then have wf0: "wf_queue (q_charge (- needed) q0)" using wf by simp
        have same0: "q_next q0 = q_next q" "q_segments q0 = q_segments q" "q_disk q0 = q_disk q"
          "q_active q0 = q_active q" "q_stream q0 = q_stream q" "q_broken q0 = None" "q_ledger q0 = q_ledger q"
          "q_closed q0 = q_closed q"
          by (simp_all add: q0_def ok)
        have wd0: "wf_disk (q_disk q0)" using wf_queueD(1) [OF wf] same0 by simp
        obtain r q1 where q1: "(if q_rotates q then q_rotate (q_next q) q0 else (None, q0)) = (r, q1)"
          by (cases "if q_rotates q then q_rotate (q_next q) q0 else (None, q0)")
        show ?thesis
        proof (cases r)
          case (Some err0)
          then have rot: "q_rotate (q_next q0) q0 = (Some err0, q1)" "q_rotates q"
            using q1 same0 by (auto split: if_splits)
          obtain err1 q2 where rj: "q_rejected h err0 (q_charge (- needed) q1) = (err1, q2)"
            by (cases "q_rejected h err0 (q_charge (- needed) q1)")
          have q': "q' = q2" "err = err1"
            using run size ok b None q1 [unfolded q0_def] Some rj
            by (simp_all add: q_admit_def Let_def needed_def)
          have "wf_queue (q_charge (- needed) q1)"
            using rotate_wf(2) [OF wf0 same0(6) rot(1)] by simp
          note r2 = q_rejected_wf [OF this rj]
          note f = rotate_fields [OF rot(1)] q_rotate_Some(2) [OF rot(1) wd0]
          show ?thesis
            using r2 f same0 ok by (auto simp: q')
        next
          case r: None
          have app: "q_append h records (q_next q) frames q1 = (Inl err, q')"
            using run size ok b None q1 [unfolded q0_def] r
            by (simp add: q_admit_def Let_def needed_def)
          have one: "wf_queue (q_charge (- frames) q1)" "q_active q1 \<noteq> None" "q_broken q1 = None"
            "q_next q1 = q_next q" "q_ledger q1 = q_ledger q" "q_closed q1 = q_closed q"
            "q_segments q1 = q_segments q \<or> q_segments q1 = q_segments q @ [?hdr]"
            "kept_file (q_disk q) n j cs \<Longrightarrow> kept_file (q_disk q1) n j cs"
          proof -
            have "wf_queue (q_charge (- frames) q1) \<and> q_active q1 \<noteq> None \<and> q_broken q1 = None
              \<and> q_next q1 = q_next q \<and> q_ledger q1 = q_ledger q \<and> q_closed q1 = q_closed q
              \<and> (q_segments q1 = q_segments q \<or> q_segments q1 = q_segments q @ [?hdr])
              \<and> (kept_file (q_disk q) n j cs \<longrightarrow> kept_file (q_disk q1) n j cs)"
            proof (cases "q_rotates q")
              case True
              then have rot: "q_rotate (q_next q0) q0 = (None, q1)" using q1 r same0 by simp
              have "kept_file (q_disk q) n j cs \<Longrightarrow> kept_file (q_disk q1) n j cs"
                using q_rotate_None [OF rot wd0] same0(3) by metis
              then show ?thesis
                using rotate_wf(1) [OF wf0 same0(6) rot] rotate_fields [OF rot] same0 True
                by (auto simp: needed_def)
            next
              case False
              then have "q1 = q0" using q1 r by simp
              then show ?thesis using wf0 same0 False by (auto simp: needed_def q_rotates_def)
            qed
            then show "wf_queue (q_charge (- frames) q1)" "q_active q1 \<noteq> None" "q_broken q1 = None"
              "q_next q1 = q_next q" "q_ledger q1 = q_ledger q" "q_closed q1 = q_closed q"
              "q_segments q1 = q_segments q \<or> q_segments q1 = q_segments q @ [?hdr]"
              "kept_file (q_disk q) n j cs \<Longrightarrow> kept_file (q_disk q1) n j cs"
              by blast+
          qed
          obtain i where "q_active q1 = Some i" using one(2) by auto
          note ap = q_append_Inl [OF one(1) this one(3) app]
          show ?thesis using ap one ok by auto
        qed
      qed
    qed
  qed
  then show "wf_queue q'" "q_next q' = q_next q" "q_ledger q' = q_ledger q"
    "q_broken q' = None \<Longrightarrow> kept_file (q_disk q) n j cs \<Longrightarrow> kept_file (q_disk q') n j cs"
    "q_broken q = None \<Longrightarrow> q_broken q' \<noteq> None \<Longrightarrow> Is err ErrUnavailable"
    and segs: "q_segments q' = q_segments q \<or> q_segments q' = q_segments q @ [?hdr]"
    and "Is err ErrRefused \<or> Is err ErrClosed \<or> Is err ErrFull \<or> Is err ErrUnavailable \<or> room h = Inl err"
    by blast+
  have "oldest q' = oldest q"
    using segs \<open>?goal\<close> by (auto simp: oldest_def split: list.splits)
  then show "complete q \<Longrightarrow> complete q'" using \<open>?goal\<close> by (simp add: complete_def)
qed

end
