(* ===== verification/Billing.thy ===== *)
theory Billing
  imports Queue_Admit Queue_Read_Inv
begin

text \<open>
  What the operations of a queue do to the budget the queues share: they bill their own stream, and
  no other. \<open>billed\<close> composes, so each operation is a chain of the steps it is made of.
\<close>

definition billed :: "queue \<Rightarrow> queue \<Rightarrow> bool" where
  "billed q q' \<longleftrightarrow>
     q_stream q' = q_stream q
     \<and> b_used (q_budget q') - b_held (q_budget q') (q_stream q)
         = b_used (q_budget q) - b_held (q_budget q) (q_stream q)
     \<and> (\<forall>s. s \<noteq> q_stream q \<longrightarrow> b_held (q_budget q') s = b_held (q_budget q) s)
     \<and> b_limit (q_budget q') = b_limit (q_budget q) \<and> b_record (q_budget q') = b_record (q_budget q)"

named_theorems bill \<open>every operation bills its own stream only\<close>

lemma billed_refl [simp]: "billed q q"
  by (simp add: billed_def)

lemma billed_trans [trans]: "billed q q' \<Longrightarrow> billed q' q'' \<Longrightarrow> billed q q''"
  by (auto simp: billed_def)

lemma billed_charge [simp]: "billed q (q_charge n q)"
  by (simp add: billed_def q_charge_def budget_add_def)

lemma billed_same:
  "q_budget q' = q_budget q \<Longrightarrow> q_stream q' = q_stream q \<Longrightarrow> billed q q'"
  by (simp add: billed_def)

lemma billed_then:
  assumes "billed q q'" "q_budget q'' = q_budget q'" "q_stream q'' = q_stream q'"
  shows "billed q q''"
  using assms by (simp add: billed_def)

lemma q_store_billed [bill]: "q_store l q = (r, q') \<Longrightarrow> billed q q'"
  by (auto simp: q_store_def q_charge_def budget_add_def billed_def Let_def
      split: if_splits prod.splits sum.splits option.splits)

lemma compact_step_billed: "compact_step s q = (r, q') \<Longrightarrow> billed q q'"
  by (auto simp: compact_step_def compact_seal_def q_charge_def budget_add_def billed_def Let_def
      split: if_splits prod.splits)

lemma compact_each_billed: "compact_each ss r q = (r', q') \<Longrightarrow> billed q q'"
  by (induction ss r q rule: compact_each.induct)
    (auto split: prod.splits dest!: compact_step_billed intro: billed_trans)

lemma q_compact_billed [bill]: "billed q (q_compact q)"
  by (auto simp: q_compact_def Let_def split: prod.splits dest!: compact_each_billed intro: billed_then)

lemma store_compact_billed:
  assumes "(case q_store l q of (Some err, q) \<Rightarrow> (Some err, q) | (None, q) \<Rightarrow> (None, q_compact q)) = (r, q')"
  shows "billed q q'"
  using assms by (auto split: prod.splits option.splits dest!: q_store_billed intro: billed_trans q_compact_billed)

lemma q_settle_billed [bill]: "q_settle seqs k q = (r, q') \<Longrightarrow> billed q q'"
  by (auto simp: q_settle_def split: if_splits prod.splits option.splits
      dest!: q_store_billed intro: billed_trans q_compact_billed)

lemma q_settleLost_billed [bill]: "q_settleLost ls q = (r, q') \<Longrightarrow> billed q q'"
  by (auto simp: q_settleLost_def split: if_splits prod.splits option.splits
      dest!: q_store_billed intro: billed_trans q_compact_billed)

lemma expire_segments_billed: "expire_segments l c ups runs q = (r, q') \<Longrightarrow> billed q q'"
proof (induction l c ups runs q rule: expire_segments.induct)
  case (2 l cutoff held upper rest runs q)
  have same: "billed (q\<lparr>q_disk := d\<rparr>) q' \<longleftrightarrow> billed q q'" for d by (simp add: billed_def)
  obtain o1 d where o: "open_file (q_disk q) (segment_name held) = (o1, d)"
    by (cases "open_file (q_disk q) (segment_name held)")
  show ?case
    using 2 o same by (cases o1) (auto simp: Let_def billed_same split: if_splits sum.splits prod.splits)
qed simp

lemma read_segments_billed: "read_segments l f m b a ups t q = (r, q') \<Longrightarrow> billed q q'"
proof (induction l f m b a ups t q rule: read_segments.induct)
  case (2 l f m b a held upper rest t q)
  have same: "billed (q\<lparr>q_disk := d\<rparr>) q' \<longleftrightarrow> billed q q'" for d by (simp add: billed_def)
  obtain o1 d where o: "open_file (q_disk q) (segment_name held) = (o1, d)"
    by (cases "open_file (q_disk q) (segment_name held)")
  obtain start prev where sp: "read_start a f held = (start, prev)" by (cases "read_start a f held")
  show ?case
    using 2 o sp same by (cases o1) (auto simp: Let_def billed_same split: if_splits sum.splits prod.splits)
qed simp

lemma q_expire_billed [bill]:
  assumes "q_expire h q = (r, q')"
  shows "billed q q'"
proof (cases "q_closed q \<or> q_maxAge q \<le> 0")
  case True
  then show ?thesis using assms by (cases "q_closed q") (auto simp: q_expire_def Let_def billed_def)
next
  case False
  obtain o1 q1 where e: "expire_segments (q_ledger q) (now h - q_maxAge q) (uppers (q_next q) (q_segments q)) []
      (q\<lparr>q_swept := now h\<rparr>) = (o1, q1)"
    by (cases "expire_segments (q_ledger q) (now h - q_maxAge q) (uppers (q_next q) (q_segments q)) []
      (q\<lparr>q_swept := now h\<rparr>)")
  have "billed q q1" using expire_segments_billed [OF e] by (simp add: billed_def)
  moreover have "billed q1 q'"
    using assms False e
    by (auto simp: q_expire_def Let_def split: sum.splits if_splits prod.splits option.splits
        dest!: q_store_billed intro: billed_trans q_compact_billed)
  ultimately show ?thesis by (rule billed_trans)
qed

lemma q_expireDue_billed [bill]: "q_expireDue h q = (r, q') \<Longrightarrow> billed q q'"
  by (erule q_expireDue_cases) (auto dest: q_expire_billed)

lemma q_read_billed [bill]:
  assumes "q_read h f m b q = (r, q')"
  shows "billed q q'"
proof -
  obtain o0 q0 where d: "q_expireDue h q = (o0, q0)" by (cases "q_expireDue h q")
  have "billed q0 q'"
  proof (cases "(\<exists>e. o0 = Inl e) \<or> q_closed q0")
    case True
    then show ?thesis using assms d by (auto simp: q_read_def split: sum.splits)
  next
    case False
    obtain o1 q1 where r: "read_segments (q_ledger q0) (max f 1) m b (q_cursor q0)
        (uppers (q_next q0) (q_segments q0)) nothing_taken q0 = (o1, q1)"
      by (cases "read_segments (q_ledger q0) (max f 1) m b (q_cursor q0)
        (uppers (q_next q0) (q_segments q0)) nothing_taken q0")
    have same: "billed (q1\<lparr>q_cursor := c\<rparr>) q' \<longleftrightarrow> billed q1 q'" for c by (simp add: billed_def)
    have "billed q1 q'"
      using assms d False r same
      by (auto simp: q_read_def Let_def split: sum.splits option.splits prod.splits dest!: q_settleLost_billed)
    then show ?thesis using read_segments_billed [OF r] by (blast intro: billed_trans)
  qed
  then show ?thesis using q_expireDue_billed [OF d] by (blast intro: billed_trans)
qed

lemma q_rotate_billed: "q_rotate f q = (r, q') \<Longrightarrow> billed q q'"
  by (rule billed_same)
    (auto simp: q_rotate_def q_fail_def Let_def split: prod.splits option.splits sum.splits if_splits)

lemma q_rejected_billed: "q_rejected h e q = (e', q') \<Longrightarrow> billed q q'"
  by (auto simp: q_rejected_def budget_crowd_def q_fail_def billed_def split: if_splits)

lemma q_append_billed:
  assumes "q_append h rs f n q = (r, q')"
  shows "billed q q'"
proof (cases "file_write (q_disk q) (the (q_active q)) (admit_frames (q_stream q) f (now h) rs)")
  case (Pair e d)
  show ?thesis
  proof (cases e)
    case None
    then show ?thesis
      using assms Pair
      by (auto simp: q_append_def q_announce_def q_fail_def budget_relieve_def billed_def Let_def
          split: prod.splits option.splits)
  next
    case (Some err)
    obtain t d2 where t: "file_truncate d (the (q_active q)) (seg_size (last (q_segments q))) = (t, d2)"
      by (cases "file_truncate d (the (q_active q)) (seg_size (last (q_segments q)))")
    obtain s d3 where s: "file_sync d2 (the (q_active q)) = (s, d3)" by (cases "file_sync d2 (the (q_active q))")
    define q2 where "q2 = (case JoinErr t s of None \<Rightarrow> q_charge (- n) (q\<lparr>q_disk := d3\<rparr>)
        | Some undone \<Rightarrow> q_fail undone (q_charge (- n) (q\<lparr>q_disk := d3\<rparr>)))"
    have "billed q q2"
      by (auto simp: q2_def q_fail_def billed_def q_charge_def budget_add_def split: option.splits)
    moreover obtain e2 q3 where r: "q_rejected h err q2 = (e2, q3)" by (cases "q_rejected h err q2")
    then have "q' = q3" using assms Pair Some t s by (simp add: q_append_def q2_def Let_def)
    ultimately show ?thesis using q_rejected_billed [OF r] billed_trans by blast
  qed
qed

lemma q_admit_billed [bill]:
  assumes "q_admit h rs q = (r, q')"
  shows "billed q q'"
proof (cases "admit_size (budget_largest (q_budget q)) rs 0")
  case (Inl e)
  then show ?thesis using assms by (simp add: q_admit_def)
next
  case (Inr frames)
  define needed where "needed = (if q_rotates q then frames + int segmentHeaderBytes else frames)"
  show ?thesis
  proof (cases "q_closed q \<or> q_broken q \<noteq> None \<or> fst (budget_reserve h (q_budget q) (q_stream q) needed) \<noteq> None")
    case True
    then have "\<exists>b. q' = q\<lparr>q_budget := b\<rparr> \<and> (b = q_budget q)"
      using assms Inr
      by (auto simp: q_admit_def Let_def needed_def split: if_splits option.splits prod.splits
          dest: budget_reserve_Some intro!: exI [of _ "q_budget q"])
    then show ?thesis by simp
  next
    case False
    then obtain b where b: "budget_reserve h (q_budget q) (q_stream q) needed = (None, b)"
      by (cases "budget_reserve h (q_budget q) (q_stream q) needed") auto
    define q0 where "q0 = q\<lparr>q_budget := b\<rparr>"
    have q0: "billed q q0"
      using b by (auto simp: budget_reserve_None q0_def billed_def budget_add_def)
    obtain e q1 where q1: "(if q_rotates q then q_rotate (q_next q) q0 else (None, q0)) = (e, q1)"
      by (cases "if q_rotates q then q_rotate (q_next q) q0 else (None, q0)")
    have one: "billed q q1"
      using q1 q0 by (auto split: if_splits dest!: q_rotate_billed intro: billed_trans)
    show ?thesis
    proof (cases e)
      case None
      then have "q_append h rs (q_next q) frames q1 = (r, q')"
        using assms Inr False b q1 [unfolded q0_def] by (auto simp: q_admit_def Let_def needed_def)
      then show ?thesis using one q_append_billed billed_trans by blast
    next
      case (Some err)
      obtain e2 q2 where rj: "q_rejected h err (q_charge (- needed) q1) = (e2, q2)"
        by (cases "q_rejected h err (q_charge (- needed) q1)")
      have "q' = q2"
        using assms Inr False b q1 [unfolded q0_def] Some rj by (auto simp: q_admit_def Let_def needed_def)
      then show ?thesis using one q_rejected_billed [OF rj] billed_charge billed_trans by blast
    qed
  qed
qed

end
