(* ===== verification/Spool_Inv.thy ===== *)
theory Spool_Inv
  imports Spool Billing
begin

text \<open>
  The invariant of the spool and the contract its streams keep. \<open>stream_operation\<close> is the interface
  between the spool and its queues: what an operation of a queue must keep so that the spool may run
  it on the budget the queues share. Every operation of the queue that the spool runs is an
  interpretation of it, and every operation of the spool keeps the invariant and refines the contract
  of every stream.
\<close>

section \<open>The invariant\<close>

definition wf_spool :: "spool \<Rightarrow> bool" where
  "wf_spool sp \<longleftrightarrow>
     distinct (List.map q_stream (sp_queues sp))
     \<and> (\<forall>q \<in> set (sp_queues sp). wf_queue (sp_lend sp q) \<and> complete q)
     \<and> b_used (sp_budget sp) = sum_list (List.map (b_held (sp_budget sp)) (List.map q_stream (sp_queues sp)))"

text \<open>Every stream of the second spool is in a relation to the same stream of the first.\<close>

definition spool_rel :: "(queue \<Rightarrow> queue \<Rightarrow> bool) \<Rightarrow> spool \<Rightarrow> spool \<Rightarrow> bool" where
  "spool_rel R sp sp' \<longleftrightarrow> (\<forall>s. rel_option R (sp_queue s sp) (sp_queue s sp'))"

abbreviation spool_refines :: "spool \<Rightarrow> spool \<Rightarrow> bool" where
  "spool_refines \<equiv> spool_rel refines"

abbreviation same_next :: "queue \<Rightarrow> queue \<Rightarrow> bool" where
  "same_next q q' \<equiv> q_next q' = q_next q"

lemma spool_rel_refl: "reflp R \<Longrightarrow> spool_rel R sp sp"
  by (simp add: spool_rel_def option.rel_refl reflpD)

lemma spool_rel_trans:
  assumes "transp R" "spool_rel R a b" "spool_rel R b c"
  shows "spool_rel R a c"
  using assms option.rel_transp [OF assms(1)] unfolding spool_rel_def by (blast dest: transpD)

lemma refines_pre: "reflp refines" "transp refines" "reflp same_next" "transp same_next"
  using refines_trans by (auto intro!: reflpI transpI)

lemmas spool_refines_refl [simp] = spool_rel_refl [OF refines_pre(1)]
lemmas spool_refines_trans [trans] = spool_rel_trans [OF refines_pre(2)]

lemma sp_lend_simps [simp]:
  "q_stream (sp_lend sp q) = q_stream q" "complete (sp_lend sp q) = complete q"
  "q_next (sp_lend sp q) = q_next q" "q_ledger (sp_lend sp q) = q_ledger q"
  "contract (sp_lend sp q) = contract q" "q_budget (sp_lend sp q) = sp_budget sp"
  by (simp_all add: sp_lend_def complete_def oldest_def contract_def cong: list.case_cong)

lemma refines_lend [simp]:
  "refines (sp_lend sp q) q' = refines q q'" "refines q (sp_lend sp q') = refines q q'"
  by (simp_all add: refines_def)

lemma sp_queue_Some:
  assumes "sp_queue s sp = Some q"
  obtains k where "k \<in> set (sp_queues sp)" "q_stream k = s" "q = sp_lend sp k"
  using assms by (auto simp: sp_queue_def find_Some_iff intro: nth_mem)

lemma sp_queue_wf:
  assumes "wf_spool sp" "sp_queue s sp = Some q"
  shows "wf_queue q" "complete q" "q_stream q = s"
proof -
  obtain k where "k \<in> set (sp_queues sp)" "q_stream k = s" "q = sp_lend sp k"
    using sp_queue_Some [OF assms(2)] by blast
  then show "wf_queue q" "complete q" "q_stream q = s" using assms(1) by (simp_all add: wf_spool_def)
qed

lemma sum_held_update:
  assumes "distinct ss" "s \<in> set ss" "\<And>x. x \<noteq> s \<Longrightarrow> h' x = (h x :: int)"
  shows "sum_list (List.map h' ss) = sum_list (List.map h ss) - h s + h' s"
  using assms(1,2)
proof (induction ss)
  case (Cons x ss)
  show ?case
  proof (cases "x = s")
    case True
    then have "List.map h' ss = List.map h ss" using Cons.prems(1) assms(3) by (metis distinct.simps(2) list.map_cong0)
    then show ?thesis using True by (simp del: map_eq_conv)
  next
    case False
    then show ?thesis using Cons assms(3) by simp
  qed
qed simp

lemma wf_queue_lend:
  assumes "wf_queue (sp_lend sp q)" "b_held b (q_stream q) = b_held (sp_budget sp) (q_stream q)"
  shows "wf_queue (q\<lparr>q_budget := b\<rparr>)"
  using wf_queue_budget [OF assms(1), of b] assms(2) by (simp add: sp_lend_def)

lemma sp_return_wf:
  assumes wf: "wf_spool sp" and q: "sp_queue s sp = Some q"
    and q': "wf_queue q'" "complete q'" "billed q q'"
  shows "wf_spool (sp_return q' sp)"
proof -
  obtain k where k: "k \<in> set (sp_queues sp)" "q_stream k = s" "q = sp_lend sp k"
    using sp_queue_Some [OF q] by blast
  have b: "q_stream q' = s" "b_used (q_budget q') - b_held (q_budget q') s = b_used (sp_budget sp) - b_held (sp_budget sp) s"
    "\<And>x. x \<noteq> s \<Longrightarrow> b_held (q_budget q') x = b_held (sp_budget sp) x"
    using q'(3) k(2,3) by (auto simp: billed_def)
  let ?f = "\<lambda>kept. if q_stream kept = q_stream q' then q' else kept"
  have streams: "List.map q_stream (List.map ?f (sp_queues sp)) = List.map q_stream (sp_queues sp)" by simp
  have each: "wf_queue (sp_lend (sp_return q' sp) (?f x)) \<and> complete (?f x)" if "x \<in> set (sp_queues sp)" for x
  proof (cases "q_stream x = s")
    case True
    then show ?thesis using q'(1,2) b(1) by (simp add: sp_return_def sp_lend_def)
  next
    case False
    then show ?thesis
      using that wf b(1,3) wf_queue_lend [of sp x "q_budget q'"]
      by (auto simp: wf_spool_def sp_return_def sp_lend_def)
  qed
  have "s \<in> set (List.map q_stream (sp_queues sp))" using k by auto
  then have "b_used (q_budget q') = sum_list (List.map (b_held (q_budget q')) (List.map q_stream (sp_queues sp)))"
    using sum_held_update [of "List.map q_stream (sp_queues sp)" s "b_held (q_budget q')" "b_held (sp_budget sp)"] wf b
    by (simp add: wf_spool_def del: map_map)
  moreover have qs: "sp_queues (sp_return q' sp) = List.map ?f (sp_queues sp)" "sp_budget (sp_return q' sp) = q_budget q'"
    by (simp_all add: sp_return_def)
  moreover have "distinct (List.map q_stream (sp_queues sp))" using wf by (simp add: wf_spool_def)
  moreover have "\<forall>q \<in> set (List.map ?f (sp_queues sp)). wf_queue (sp_lend (sp_return q' sp) q) \<and> complete q"
    using each unfolding set_map by blast
  ultimately show ?thesis
    unfolding wf_spool_def qs streams by blast
qed

lemma find_stream:
  assumes "find (\<lambda>k. q_stream k = x) ks = Some k"
  shows "q_stream k = x"
  using assms by (auto simp: find_Some_iff)

lemma find_member:
  assumes "distinct (List.map q_stream ks)" "k \<in> set ks"
  shows "find (\<lambda>x. q_stream x = q_stream k) ks = Some k"
  using assms
proof (induction ks)
  case (Cons x ks)
  then show ?case by (cases "k = x") (auto simp: image_iff)
qed simp

lemma find_return:
  assumes "q_stream q' = s"
  shows "find (\<lambda>k. q_stream k = x) (List.map (\<lambda>k. if q_stream k = s then q' else k) ks)
    = map_option (\<lambda>k. if q_stream k = s then q' else k) (find (\<lambda>k. q_stream k = x) ks)"
proof (induction ks)
  case (Cons k ks)
  then show ?case using assms by (cases "q_stream k = s"; cases "s = x"; simp)
qed simp

lemma sp_queue_return:
  assumes "sp_queue s sp = Some q" "q_stream q' = q_stream q"
  shows "sp_queue s (sp_return q' sp) = Some q'"
    "x \<noteq> s \<Longrightarrow> rel_option (\<lambda>a b. contract a = contract b) (sp_queue x sp) (sp_queue x (sp_return q' sp))"
proof -
  obtain k where k: "find (\<lambda>k. q_stream k = s) (sp_queues sp) = Some k" "q = sp_lend sp k"
    using assms(1) by (auto simp: sp_queue_def)
  then have ks: "q_stream k = s" "q_stream q' = s" using find_stream [OF k(1)] assms(2) by simp_all
  have returned: "sp_queue x (sp_return q' sp) =
      map_option (sp_lend (sp_return q' sp) \<circ> (\<lambda>k. if q_stream k = s then q' else k))
        (find (\<lambda>k. q_stream k = x) (sp_queues sp))" for x
    using find_return [OF ks(2), of x "sp_queues sp"] ks(2)
    by (simp add: sp_queue_def sp_return_def option.map_comp)
  have "sp_lend (sp_return q' sp) q' = q'" by (simp add: sp_lend_def sp_return_def)
  then show "sp_queue s (sp_return q' sp) = Some q'"
    by (simp add: returned k ks)
  show "rel_option (\<lambda>a b. contract a = contract b) (sp_queue x sp) (sp_queue x (sp_return q' sp))" if x: "x \<noteq> s"
  proof (cases "find (\<lambda>k. q_stream k = x) (sp_queues sp)")
    case None
    then show ?thesis by (simp add: returned) (simp add: sp_queue_def)
  next
    case (Some l)
    with find_stream [OF Some] x show ?thesis
      by (simp add: returned) (simp add: sp_queue_def)
  qed
qed

lemma sp_return_rel:
  assumes "sp_queue s sp = Some q" "billed q q'" "R q q'" "\<And>a b. contract a = contract b \<Longrightarrow> R a b"
  shows "spool_rel R sp (sp_return q' sp)"
  unfolding spool_rel_def
proof
  fix x
  have st: "q_stream q' = q_stream q" using assms(2) by (simp add: billed_def)
  show "rel_option R (sp_queue x sp) (sp_queue x (sp_return q' sp))"
  proof (cases "x = s")
    case True
    then show ?thesis using assms(1,3) sp_queue_return(1) [OF assms(1) st] by simp
  next
    case False
    from sp_queue_return(2) [OF assms(1) st this] show ?thesis
      by (rule option.rel_mono_strong) (rule assms(4))
  qed
qed

lemma contract_equal: "contract a = contract b \<Longrightarrow> refines a b" "contract a = contract b \<Longrightarrow> same_next a b"
  by (simp_all add: refines_def contract_def)

section \<open>What the spool asks of an operation of a queue\<close>

locale stream_operation =
  fixes run :: "queue \<Rightarrow> 'r \<times> queue" and can :: "queue \<Rightarrow> bool"
  assumes run_wf: "wf_queue q \<Longrightarrow> can q \<Longrightarrow> wf_queue (snd (run q))"
    and run_complete: "wf_queue q \<Longrightarrow> can q \<Longrightarrow> complete q \<Longrightarrow> complete (snd (run q))"
    and run_billed: "billed q (snd (run q))"
    and run_refines: "wf_queue q \<Longrightarrow> can q \<Longrightarrow> refines q (snd (run q))"
begin

lemma return_wf:
  assumes "wf_spool sp" "sp_queue s sp = Some q" "can q"
  shows "wf_spool (sp_return (snd (run q)) sp)" "spool_refines sp (sp_return (snd (run q)) sp)"
    "sp_queue s (sp_return (snd (run q)) sp) = Some (snd (run q))"
proof -
  note q = sp_queue_wf(1,2) [OF assms(1,2)]
  show "wf_spool (sp_return (snd (run q)) sp)"
    by (rule sp_return_wf [OF assms(1,2) run_wf [OF q(1) assms(3)] run_complete [OF q(1) assms(3) q(2)] run_billed])
  show "spool_refines sp (sp_return (snd (run q)) sp)"
    by (rule sp_return_rel [where R = refines, OF assms(2) run_billed run_refines [OF q(1) assms(3)] contract_equal(1)])
  have "q_stream (snd (run q)) = q_stream q" using run_billed [of q] by (simp add: billed_def)
  then show "sp_queue s (sp_return (snd (run q)) sp) = Some (snd (run q))"
    by (rule sp_queue_return(1) [OF assms(2)])
qed

end

section \<open>The operations of the queue that the spool runs\<close>

lemma q_admit_step:
  assumes "wf_queue q" "q_admit h rs q = (r, q')" "unat (q_next q) + length rs \<le> 2 ^ 62 + 1"
  shows "wf_queue q'" "complete q \<Longrightarrow> complete q'" "refines q q'"
proof -
  have "wf_queue q' \<and> (complete q \<longrightarrow> complete q') \<and> refines q q'"
  proof (cases r)
    case (Inl e)
    then show ?thesis
      using q_admit_Inl(1-4) [OF assms(1) assms(2) [unfolded Inl]] by (auto intro: refines_same)
  next
    case (Inr rc)
    note a = q_admit_Inr [OF assms(1) assms(2) [unfolded Inr] assms(3)]
    then show ?thesis using refines_given [OF assms(3) a(2,3)] by auto
  qed
  then show "wf_queue q'" "complete q \<Longrightarrow> complete q'" "refines q q'" by auto
qed

lemma q_expireDue_step:
  assumes "wf_queue q" "q_expireDue h q = (r, q')"
  shows "wf_queue q'" "complete q \<Longrightarrow> complete q'" "refines q q'" "q_next q' = q_next q"
  using q_expire_spec(1-3) [OF assms(1)] q_expire_refines [OF assms(1)] assms
  by (auto elim!: q_expireDue_cases)

interpretation admitting: stream_operation "q_admit h rs" "\<lambda>q. unat (q_next q) + length rs \<le> 2 ^ 62 + 1" for h rs
  by unfold_locales (auto intro: q_admit_step q_admit_billed prod.collapse [symmetric])

interpretation expiring: stream_operation "q_expireDue h" "\<lambda>_. True" for h
  by unfold_locales (auto intro: q_expireDue_step q_expireDue_billed prod.collapse [symmetric])

interpretation reading: stream_operation "q_read h frm most bytes" "\<lambda>_. True" for h frm most bytes
  by unfold_locales (auto intro: q_read_spec(1,2,6) q_read_billed prod.collapse [symmetric])

interpretation settling: stream_operation "q_settle seqs kind" "\<lambda>_. True" for seqs kind
  by unfold_locales
    (auto intro: q_settle_spec(1,2) q_settle_refines q_settle_billed prod.collapse [symmetric])

interpretation announcing: stream_operation q_admitted "\<lambda>_. True"
  by unfold_locales
    (auto simp: q_admitted_def wf_queue_def complete_def oldest_def billed_def refines_same cong: list.case_cong)

interpretation pressing: stream_operation "\<lambda>q. ((), q_pressure h n err q)" "\<lambda>_. True" for h n err
  by unfold_locales
    (auto simp: q_pressure_def wf_queue_def complete_def oldest_def billed_def refines_same cong: list.case_cong)

section \<open>Every operation of the spool\<close>

lemma expire_each_wf:
  assumes "expire_each h ks freed sp = (freed', sp')" "wf_spool sp"
    "set ks \<subseteq> set (sp_queues sp)" "distinct (List.map q_stream ks)"
  shows "wf_spool sp' \<and> spool_refines sp sp' \<and> spool_rel same_next sp sp'"
  using assms
proof (induction h ks freed sp rule: expire_each.induct)
  case (1 h freed sp)
  then show ?case using spool_rel_refl refines_pre by auto
next
  case (2 h k ks freed sp)
  have k: "sp_queue (q_stream k) sp = Some (sp_lend sp k)" (is "?look = _")
    using 2(3,4) by (auto simp: wf_spool_def sp_queue_def intro!: find_member)
  obtain o1 q1 where due: "q_expireDue h (sp_lend sp k) = (o1, q1)" by (cases "q_expireDue h (sp_lend sp k)")
  define q' where "q' = snd (q_expireDue h (sp_lend sp k))"
  then have q1: "q1 = q'" using due by simp
  note r = expiring.return_wf [OF 2(3) k TrueI, of h, folded q'_def]
  have wk: "wf_queue (sp_lend sp k)" using 2(3,4) by (auto simp: wf_spool_def)
  have n: "same_next (sp_lend sp k) q'"
    unfolding q'_def using q_expireDue_step(4) [OF wk prod.collapse [symmetric]] .
  have same: "spool_rel same_next sp (sp_return q' sp)"
    unfolding q'_def
    by (rule sp_return_rel [where R = same_next, OF k expiring.run_billed n [unfolded q'_def] contract_equal(2)])
  have "set ks \<subseteq> set (sp_queues (sp_return q' sp))"
  proof
    fix x assume x: "x \<in> set ks"
    have "q_stream q' = q_stream k" using expiring.run_billed [of "sp_lend sp k" h] by (simp add: q'_def billed_def)
    moreover have "q_stream x \<noteq> q_stream k" using 2(5) x by (metis distinct.simps(2) image_eqI list.simps(9) set_map)
    ultimately show "x \<in> set (sp_queues (sp_return q' sp))"
      using x 2(4) by (auto simp: sp_return_def image_iff intro!: bexI [of _ x])
  qed
  then have "wf_spool sp' \<and> spool_refines (sp_return q' sp) sp' \<and> spool_rel same_next (sp_return q' sp) sp'"
    using 2(1) [OF due [symmetric] _ _ _, unfolded q1] 2(2,5) r(1) by (simp add: due q1)
  then show ?case
    using r(2) same spool_refines_trans spool_rel_trans [OF refines_pre(4)] by blast
qed

lemma sp_expire_wf:
  assumes "wf_spool sp"
  shows "wf_spool (snd (sp_expire h sp))" "spool_refines sp (snd (sp_expire h sp))"
    "spool_rel same_next sp (snd (sp_expire h sp))"
  using expire_each_wf [of h "sp_queues sp" False sp] assms
  by (cases "expire_each h (sp_queues sp) False sp", simp add: sp_expire_def wf_spool_def)+

lemma same_next_queue:
  assumes "spool_rel same_next a b" "sp_queue s b = Some q'"
  obtains q where "sp_queue s a = Some q" "q_next q' = q_next q"
  using assms unfolding spool_rel_def by (auto simp: option_rel_Some2 dest!: spec [of _ s])

text \<open>The admission of a batch, tried again when expiry freed room.\<close>

lemma sp_Admit_wf:
  assumes wf: "wf_spool sp" and q: "sp_queue s sp = Some q"
    and can: "unat (q_next q) + length records \<le> 2 ^ 62 + 1"
  shows "wf_spool (snd (sp_Admit h h2 s records sp))" "spool_refines sp (snd (sp_Admit h h2 s records sp))"
proof -
  have "wf_spool (snd (sp_Admit h h2 s records sp)) \<and> spool_refines sp (snd (sp_Admit h h2 s records sp))"
  proof (cases "records = []")
    case True
    then show ?thesis using wf q by (simp add: sp_Admit_def)
  next
    case False
    obtain r1 q1 where a: "q_admit h records q = (r1, q1)" by (cases "q_admit h records q")
    define sp1 where "sp1 = sp_return q1 sp"
    note one = admitting.return_wf [OF wf q can, of h, unfolded a snd_conv, folded sp1_def]
    obtain freed sp2 where e: "(if IsSome (error_of r1) ErrFull then sp_expire h sp1 else (False, sp1)) = (freed, sp2)"
      by (cases "if IsSome (error_of r1) ErrFull then sp_expire h sp1 else (False, sp1)")
    have two: "wf_spool sp2" "spool_refines sp1 sp2" "spool_rel same_next sp1 sp2"
      using e sp_expire_wf [OF one(1), of h] one(1) spool_rel_refl [OF refines_pre(3)]
      by (auto split: if_splits)
    have freedD: "\<exists>err. r1 = Inl err" if "freed"
      using that e by (cases r1) (auto simp: error_of_def IsSome_def split: if_splits)
    obtain r3 sp3 where t: "(case (freed, sp_queue s sp2) of
        (True, Some kept) \<Rightarrow> (case q_admit h2 records kept of (receipt, kept) \<Rightarrow> (receipt, sp_return kept sp2))
      | _ \<Rightarrow> (r1, sp2)) = (r3, sp3)" (is "?again = _")
      by (cases ?again)
    have three: "wf_spool sp3 \<and> spool_refines sp2 sp3"
    proof (cases "freed \<and> sp_queue s sp2 \<noteq> None")
      case True
      then obtain k where k: "sp_queue s sp2 = Some k" by blast
      obtain q0 where q0: "sp_queue s sp1 = Some q0" "q_next k = q_next q0"
        using same_next_queue [OF two(3) k] .
      have "q_next q0 = q_next q"
        using freedD True a one(3) q0(1) q_admit_Inl(2) [OF sp_queue_wf(1) [OF wf q]] by auto
      then have "unat (q_next k) + length records \<le> 2 ^ 62 + 1" using can q0 by simp
      from admitting.return_wf [OF two(1) k this, of h2] show ?thesis
        using t True k by (auto split: prod.splits)
    next
      case False
      then show ?thesis using t two(1) by (auto split: bool.splits option.splits)
    qed
    obtain q3 where q3: "sp_queue s sp3 = None \<or> sp_queue s sp3 = Some q3" by (cases "sp_queue s sp3") auto
    have out: "snd (sp_Admit h h2 s records sp) = (case sp_queue s sp3 of None \<Rightarrow> sp3
        | Some kept \<Rightarrow> sp_return (q_pressure h2 (length records) (error_of r3) kept) sp3)"
      unfolding sp_Admit_def Let_def
      by (simp only: q False option.case if_False a prod.case sp1_def [symmetric] e t [unfolded prod.case]) (simp split: option.splits)
    have four: "wf_spool (snd (sp_Admit h h2 s records sp)) \<and> spool_refines sp3 (snd (sp_Admit h h2 s records sp))"
      using out q3 three pressing.return_wf(1,2) [of sp3 s q3 h2 "length records" "error_of r3"] by auto
    show ?thesis
      using one(2) two(2) three four spool_refines_trans by blast
  qed
  then show "wf_spool (snd (sp_Admit h h2 s records sp))" "spool_refines sp (snd (sp_Admit h h2 s records sp))"
    by simp_all
qed

lemma sp_Read_wf:
  assumes "wf_spool sp"
  shows "wf_spool (snd (sp_Read h s frm most bytes sp)) \<and> spool_refines sp (snd (sp_Read h s frm most bytes sp))"
  using reading.return_wf(1,2) [OF assms, of s _ h frm most bytes] assms
  by (auto simp: sp_Read_def split: option.splits prod.splits)

lemma sp_settle_wf:
  assumes "wf_spool sp"
  shows "wf_spool (snd (sp_settle s seqs kind sp)) \<and> spool_refines sp (snd (sp_settle s seqs kind sp))"
  using settling.return_wf(1,2) [OF assms, of s _ seqs kind] assms
  by (auto simp: sp_settle_def split: option.splits prod.splits)

lemma sp_Admitted_wf:
  assumes "wf_spool sp"
  shows "wf_spool (snd (sp_Admitted s sp)) \<and> spool_refines sp (snd (sp_Admitted s sp))"
  using announcing.return_wf(1,2) [OF assms, of s] assms
  by (auto simp: sp_Admitted_def split: option.splits prod.splits)

lemma sp_Room_wf:
  assumes "wf_spool sp"
  shows "wf_spool (snd (sp_Room h s sp)) \<and> spool_refines sp (snd (sp_Room h s sp))"
  using expiring.return_wf(1,2) [OF assms, of s _ h] assms
  by (auto simp: sp_Room_def Let_def split: option.splits prod.splits)

text \<open>Two operations change every queue, in nothing the contract names.\<close>

lemma map_queues_wf:
  assumes wf: "wf_spool sp" and qs: "sp_queues sp' = List.map f (sp_queues sp)"
    and b: "b_used (sp_budget sp') = b_used (sp_budget sp)" "b_held (sp_budget sp') = b_held (sp_budget sp)"
    and f: "\<And>q. q_stream (f q) = q_stream q" "\<And>q. complete (f q) = complete q" "\<And>q. contract (f q) = contract q"
      "\<And>q. wf_queue (sp_lend sp q) \<Longrightarrow> wf_queue (sp_lend sp' (f q))"
  shows "wf_spool sp' \<and> spool_refines sp sp'"
proof
  have streams: "List.map q_stream (sp_queues sp') = List.map q_stream (sp_queues sp)" by (simp add: qs f(1))
  show "wf_spool sp'"
    using wf unfolding wf_spool_def streams b by (simp add: qs f)
  have find: "find (\<lambda>k. q_stream k = s) (List.map f ks) = map_option f (find (\<lambda>k. q_stream k = s) ks)" for s ks
    by (induction ks) (simp_all add: f(1))
  show "spool_refines sp sp'"
    unfolding spool_rel_def sp_queue_def qs find
    by (auto simp: option.rel_map option.rel_refl_strong refines_def f(3))
qed

lemma sp_Limit_wf:
  assumes "wf_spool sp"
  shows "wf_spool (sp_Limit ls sp) \<and> spool_refines sp (sp_Limit ls sp)"
proof (rule map_queues_wf [OF assms])
  show "sp_queues (sp_Limit ls sp) = List.map (\<lambda>q. q_limit (MaxAge ls (q_stream q)) q) (sp_queues sp)"
    by (simp add: sp_Limit_def)
qed (simp_all add: sp_Limit_def q_limit_def budget_set_def complete_def oldest_def contract_def sp_lend_def
    wf_queue_def Let_def cong: list.case_cong)

lemma close_each_map: "close_each qs = (err, qs') \<Longrightarrow> qs' = List.map (snd \<circ> q_close) qs"
  by (induction qs arbitrary: err qs') (auto split: prod.splits)

lemma q_close_eq:
  "\<exists>c a s as. snd (q_close q) = q\<lparr>q_closed := c, q_signal := s, q_active := a, q_disk := (q_disk q)\<lparr>answers := as\<rparr>\<rparr>
     \<and> (a = None \<or> a = q_active q)"
proof (cases "q_closed q")
  case True
  then have "snd (q_close q) = q\<lparr>q_closed := True, q_signal := q_signal q, q_active := q_active q,
      q_disk := (q_disk q)\<lparr>answers := answers (q_disk q)\<rparr>\<rparr>"
    by (simp add: q_close_def)
  then show ?thesis by blast
next
  case False
  obtain e1 d1 where 1: "(if q_active q \<noteq> None then attempt (q_disk q) else (None, q_disk q)) = (e1, d1)"
    by (cases "if q_active q \<noteq> None then attempt (q_disk q) else (None, q_disk q)")
  obtain e2 d2 where 2: "attempt d1 = (e2, d2)" by (cases "attempt d1")
  have "\<exists>as. d1 = (q_disk q)\<lparr>answers := as\<rparr>"
    using 1 attempt_eq [of "q_disk q" e1 d1] by (auto split: if_splits intro: exI [of _ "answers (q_disk q)"])
  then obtain as where "d2 = (q_disk q)\<lparr>answers := as\<rparr>" using attempt_eq [OF 2] by auto
  then have "snd (q_close q) = q\<lparr>q_closed := True, q_signal := False, q_active := None, q_disk := (q_disk q)\<lparr>answers := as\<rparr>\<rparr>"
    using False 1 2 by (cases "q_active q") (simp_all add: q_close_def q_announce_def Let_def)
  then show ?thesis by blast
qed

lemma sp_Close_wf:
  assumes "wf_spool sp"
  shows "wf_spool (snd (sp_Close u sp)) \<and> spool_refines sp (snd (sp_Close u sp))"
proof (cases "sp_closed sp")
  case True
  then show ?thesis using assms by (simp add: sp_Close_def)
next
  case False
  obtain err qs where c: "close_each (sp_queues sp) = (err, qs)" by (cases "close_each (sp_queues sp)")
  have b: "sp_budget (snd (sp_Close u sp)) = sp_budget sp" using False c by (simp add: sp_Close_def)
  have f: "q_stream (snd (q_close q)) = q_stream q \<and> complete (snd (q_close q)) = complete q
      \<and> contract (snd (q_close q)) = contract q
      \<and> (wf_queue (sp_lend sp q) \<longrightarrow> wf_queue (sp_lend (snd (sp_Close u sp)) (snd (q_close q))))" for q
  proof -
    obtain k a s as where q: "snd (q_close q) = q\<lparr>q_closed := k, q_signal := s, q_active := a, q_disk := (q_disk q)\<lparr>answers := as\<rparr>\<rparr>"
      "a = None \<or> a = q_active q" using q_close_eq by blast
    show ?thesis
      using q(2) unfolding q(1) by (auto simp: complete_def oldest_def contract_def sp_lend_def b wf_queue_def
          kept_segment_def cong: list.case_cong)
  qed
  show ?thesis
  proof (rule map_queues_wf [OF assms])
    show "sp_queues (snd (sp_Close u sp)) = List.map (snd \<circ> q_close) (sp_queues sp)"
      using False c close_each_map [OF c] by (simp add: sp_Close_def)
  qed (use f b in auto)
qed

section \<open>Runs of the spool\<close>

text \<open>
  What a run of the agent does with an open spool, whatever the host answers and in any order. A
  batch is admitted while sequences are left, which is for \<open>2 ^ 62\<close> records.
\<close>

inductive spool_step :: "spool \<Rightarrow> spool \<Rightarrow> bool" where
  admit: "sp_queue s sp = Some q \<Longrightarrow> unat (q_next q) + length records \<le> 2 ^ 62 + 1 \<Longrightarrow>
     spool_step sp (snd (sp_Admit h h2 s records sp))"
| read: "spool_step sp (snd (sp_Read h s frm most bytes sp))"
| acknowledge: "spool_step sp (snd (sp_Acknowledge s sequences sp))"
| quarantine: "spool_step sp (snd (sp_Quarantine s sequences sp))"
| admitted: "spool_step sp (snd (sp_Admitted s sp))"
| room: "spool_step sp (snd (sp_Room h s sp))"
| limit: "spool_step sp (sp_Limit ls sp)"
| close: "spool_step sp (snd (sp_Close unlocked sp))"

inductive_cases spool_stepE: "spool_step sp sp'"

lemma spool_step_keeps:
  assumes "spool_step sp sp'" "wf_spool sp"
  shows "wf_spool sp' \<and> spool_refines sp sp'"
  using assms
  by (cases rule: spool_step.cases)
    (auto simp: sp_Acknowledge_def sp_Quarantine_def sp_Admit_wf sp_Read_wf sp_settle_wf sp_Admitted_wf
      sp_Room_wf sp_Limit_wf sp_Close_wf)

lemma spool_steps_keep:
  assumes "spool_step\<^sup>*\<^sup>* sp sp'" "wf_spool sp"
  shows "wf_spool sp' \<and> spool_refines sp sp'"
  using assms
proof (induction rule: rtranclp_induct)
  case (step b c)
  then show ?case using spool_step_keeps [of b c] spool_refines_trans by blast
qed simp

text \<open>A spool that holds nothing: what \<open>Open\<close> makes of directories that are empty.\<close>

definition first_queue :: "stream \<Rightarrow> disk \<Rightarrow> budget \<Rightarrow> queue" where
  "first_queue s d b = (new_queue s d b 0)\<lparr>q_ledger := empty_ledger\<lparr>watermark := 1\<rparr>, q_next := 1\<rparr>"

definition first_spool :: "disk \<Rightarrow> limits \<Rightarrow> spool" where
  "first_spool d ls =
     \<lparr>sp_budget = budget_set new_budget ls,
      sp_queues = List.map (\<lambda>s. first_queue s d (budget_set new_budget ls)) streams,
      sp_unavailable = False, sp_closed = False\<rparr>"

lemma first_queue_wf:
  assumes "wf_disk d" "b_held b s = 0"
  shows "wf_queue (first_queue s d b)" "complete (first_queue s d b)"
proof -
  have "{..< (1::u64)} = {0}" by (auto simp: word_less_nat_alt unat_eq_0)
  then show "wf_queue (first_queue s d b)" "complete (first_queue s d b)"
    using assms by (simp_all add: first_queue_def new_queue_def wf_queue_def seg_total_def no_cursor_def
        wf_ledger_def empty_ledger_def ledger_highest_def complete_def oldest_def settled_set_def)
qed

lemma first_spool_wf:
  assumes "wf_disk d"
  shows "wf_spool (first_spool d ls)"
proof -
  have q: "sp_lend (first_spool d ls) (first_queue s d b) = first_queue s d (sp_budget (first_spool d ls))" for s b
    by (simp add: sp_lend_def first_queue_def new_queue_def)
  have b: "b_held (budget_set new_budget ls) s = 0" "b_used (budget_set new_budget ls) = 0" for s
    by (simp_all add: budget_set_def new_budget_def Let_def)
  show ?thesis
    unfolding wf_spool_def using q b first_queue_wf [OF assms]
    by (simp add: first_spool_def streams_def) (simp add: first_queue_def new_queue_def)
qed

end
