(* ===== verification/Delivery_Spool.thy ===== *)
theory Delivery_Spool
  imports Delivery_Inv Queue_Read_Cover Spool_Inv
begin

text \<open>
  The delivery of a stream over the queue the spool keeps of it: what the route relies on of the
  spool is the interface below, and the queue provides it.
\<close>

fun settle_each :: "(u64 list \<Rightarrow> 'q \<Rightarrow> error option \<times> 'q) \<Rightarrow> u64 list \<Rightarrow> 'q \<Rightarrow> 'q option" where
  "settle_each sett [] q = Some q"
| "settle_each sett (x # xs) q = (case sett [x] q of (None, q') \<Rightarrow> settle_each sett xs q' | (Some _, _) \<Rightarrow> None)"

text \<open>What an answer settles is settled in the spool before the route lets go of it.\<close>

definition settled_in :: "(bool \<Rightarrow> u64 list \<Rightarrow> 'q \<Rightarrow> error option \<times> 'q) \<Rightarrow> Delivery.settlement option \<Rightarrow> 'q \<Rightarrow> 'q \<Rightarrow> bool" where
  "settled_in sett st q q' \<longleftrightarrow>
     (case st of
        None \<Rightarrow> q' = q
      | Some (Acknowledges xs) \<Rightarrow> sett True xs q = (None, q')
      | Some (Quarantines x) \<Rightarrow> sett False [x] q = (None, q'))"

locale spool_interface =
  fixes sound :: "'q \<Rightarrow> bool" and owing :: "'q \<Rightarrow> u64 set" and upcoming :: "'q \<Rightarrow> u64"
    and read_from :: "u64 \<Rightarrow> int \<Rightarrow> int \<Rightarrow> 'q \<Rightarrow> (error + Entry list) \<times> 'q"
    and settle_as :: "bool \<Rightarrow> u64 list \<Rightarrow> 'q \<Rightarrow> error option \<times> 'q"
  assumes read_keeps: "sound q \<Longrightarrow> read_from frm most bytes q = (got, q') \<Longrightarrow>
      sound q' \<and> owing q' \<subseteq> owing q \<and> upcoming q' = upcoming q"
    and read_returns: "sound q \<Longrightarrow> read_from frm most bytes q = (Inr es, q') \<Longrightarrow>
      read_ok frm (owing q') es \<and> (es = [] \<longrightarrow> (\<forall>x \<in> owing q'. x < frm))"
    and settle_exact: "sound q \<Longrightarrow> settle_as ack xs q = (err, q') \<Longrightarrow>
      sound q' \<and> upcoming q' = upcoming q \<and> owing q' = (if err = None then owing q - set xs else owing q)"
begin

abbreviation held_by :: "'q \<Rightarrow> holding" where
  "held_by q \<equiv> \<lparr>hs_out = owing q, hs_fresh = upcoming q\<rparr>"

lemma settle_each_exact:
  "sound q \<Longrightarrow> settle_each (settle_as ack) xs q = Some q' \<Longrightarrow>
     sound q' \<and> upcoming q' = upcoming q \<and> owing q' = owing q - set xs"
proof (induction xs arbitrary: q)
  case (Cons x xs)
  then obtain q1 where "settle_as ack [x] q = (None, q1)" "settle_each (settle_as ack) xs q1 = Some q'"
    by (auto split: prod.splits option.splits)
  then show ?case using settle_exact [OF Cons.prems(1)] Cons.IH [of q1] by auto
qed simp

text \<open>Composing over the spool keeps what the route owes, and it finds nothing to send only when nothing is left.\<close>

lemma compose_over:
  assumes inv: "route_inv (r, held_by q)" and q: "sound q" and p: "rt_pending r = None"
    and got: "read_from (rt_next r) most bytes q = (got, q1)"
    and tries: "list_all (\<lambda>x. x = None) tries" and c: "compose_once wr limits ident got tries r = (c, dropped, r')"
    and s: "settle_each (settle_as False) dropped q1 = Some q2"
  shows "sound q2 \<and> route_inv (rt_composed c t r', held_by q2)" "c = Compose_empty \<Longrightarrow> owing q2 = {}"
proof -
  note k = read_keeps [OF q got]
  have q1: "sound q1" "owing q1 \<subseteq> owing q" "upcoming q1 = upcoming q" using k by blast+
  have inv1: "route_inv (r, held_by q1)"
    using route_inv_shrinks [OF inv, of "owing q1" r] q1 by simp
  note q2 = settle_each_exact [OF q1(1) s]
  have "\<forall>entries. got = Inr entries \<longrightarrow> read_ok (rt_next r) (hs_out (held_by q1)) entries"
    using read_returns [OF q] got by auto
  then have "route_inv (rt_composed c t r', (held_by q1)\<lparr>hs_out := hs_out (held_by q1) - set dropped\<rparr>)"
    by (rule compose_inv [OF inv1 p _ tries c])
  then show "sound q2 \<and> route_inv (rt_composed c t r', held_by q2)" using q2 by simp
  assume e: "c = Compose_empty"
  then have "got = Inr []"
    using c by (auto simp: compose_once_def Let_def split: sum.splits list.splits option.splits if_splits)
  then have none: "\<forall>x \<in> owing q1. x < rt_next r" using read_returns [OF q] got by blast
  have "\<forall>x \<in> owing q1. \<not> x < rt_next r" using inv1 p by (auto simp: route_inv_def owed_def)
  then show "owing q2 = {}" using none q2 by blast
qed

lemma deliver_over:
  assumes inv: "route_inv (r, held_by q)" and q: "sound q" and b: "rt_pending (rt_sending r) = Some b"
    and d: "rt_deliver wr recovery ident t draw again (rt_judge wr rd p b reply) asked due tries b (rt_sending r) = (res, st, r')"
    and s: "settled_in settle_as st q q'"
  shows "sound q' \<and> route_inv (r', held_by q')"
proof -
  have "sound q' \<and> upcoming q' = upcoming q \<and> owing q' = owing q - settled_by st"
    using s q settle_exact [OF q] by (auto simp: settled_in_def settled_by_def split: option.splits Delivery.settlement.splits)
  then show ?thesis using deliver_inv [OF inv b d] by simp
qed

end

section \<open>The queue provides it\<close>

definition q_sound :: "queue \<Rightarrow> bool" where "q_sound q \<longleftrightarrow> wf_queue q \<and> complete q"

definition q_settle_as :: "bool \<Rightarrow> u64 list \<Rightarrow> queue \<Rightarrow> error option \<times> queue" where
  "q_settle_as ack xs q = q_settle xs (if ack then Delivered else Quarantined) q"

lemma refines_owing:
  assumes "refines q q'"
  shows "q_next q \<le> q_next q'" "settled_set (q_ledger q) \<subseteq> settled_set (q_ledger q')"
    "outstanding q' \<subseteq> outstanding q \<union> {q_next q ..< q_next q'}"
  using contract_steps_keep [OF assms [unfolded refines_def]] by (auto simp: contract_def outstanding_def)

lemma q_read_keeps:
  assumes "q_sound q" "q_read h frm most bytes q = (got, q')"
  shows "q_sound q' \<and> outstanding q' \<subseteq> outstanding q \<and> q_next q' = q_next q"
  using q_read_spec(1-3,6) [of q h frm most bytes got q'] assms refines_owing(3) [of q q'] by (auto simp: q_sound_def)

lemma q_read_returns:
  assumes "q_sound q" "q_read h frm most bytes q = (Inr es, q')"
  shows "read_ok frm (outstanding q') es \<and> (es = [] \<longrightarrow> (\<forall>x \<in> outstanding q'. x < frm))"
proof -
  have wf: "wf_queue q" "complete q" using assms(1) by (simp_all add: q_sound_def)
  note c = q_read_covers [OF wf assms(2)] and s = q_read_spec(4) [OF wf(1) assms(2) refl]
  have "\<forall>x \<in> outstanding q'. x < frm" if "es = []"
    using c(2) that by (auto simp: not_less [symmetric])
  then show ?thesis using c s by (simp add: read_ok_def)
qed

lemma q_settle_as_exact:
  assumes "q_sound q" "q_settle_as ack xs q = (err, q')"
  shows "q_sound q' \<and> q_next q' = q_next q \<and> outstanding q' = (if err = None then outstanding q - set xs else outstanding q)"
proof -
  have wf: "wf_queue q" "complete q" using assms(1) by (simp_all add: q_sound_def)
  note s = q_settle_spec [OF wf(1) assms(2) [unfolded q_settle_as_def]]
  then show ?thesis using wf(2) by (cases err) (auto simp: q_sound_def outstanding_def)
qed

interpretation queued: spool_interface q_sound outstanding q_next "q_read h" q_settle_as for h
  by unfold_locales (rule q_read_keeps q_read_returns q_settle_as_exact; assumption)+

section \<open>A route and its queue\<close>

text \<open>
  What happens to a route and to the queue of its stream: records are admitted, expire, or an attempt
  to settle fails; the route composes from what the queue returns, with every unreadable record
  quarantined; and an answer settles what is pending.
\<close>

inductive delivery_step :: "wire \<Rightarrow> decoders \<Rightarrow> route \<times> queue \<Rightarrow> route \<times> queue \<Rightarrow> bool" for wr rd where
  Admits: "unat (q_next q) + length rs \<le> 2 ^ 62 + 1 \<Longrightarrow> delivery_step wr rd (r, q) (r, snd (q_admit h rs q))"
| Expires: "delivery_step wr rd (r, q) (r, snd (q_expireDue h q))"
| Unsettled: "q_settle_as ack xs q = (Some err, q') \<Longrightarrow> delivery_step wr rd (r, q) (r, q')"
| Composes: "rt_pending r = None \<Longrightarrow>
    q_read h (rt_next r) (max (batch_most limits r) 1) (max (batch_room wr limits ident r) 1) q = (got, q1) \<Longrightarrow>
    list_all (\<lambda>x. x = None) tries \<Longrightarrow> compose_once wr limits ident got tries r = (c, dropped, r') \<Longrightarrow>
    settle_each (q_settle_as False) dropped q1 = Some q2 \<Longrightarrow> delivery_step wr rd (r, q) (rt_composed c t r', q2)"
| Delivers: "rt_pending (rt_sending r) = Some b \<Longrightarrow>
    rt_deliver wr recovery ident t draw again (rt_judge wr rd (rt_protocol r) b reply) asked due tries b (rt_sending r) = (res, st, r') \<Longrightarrow>
    settled_in q_settle_as st q q' \<Longrightarrow> delivery_step wr rd (r, q) (if res = Goes_on then rt_record r' else r', q')"

definition delivery_inv :: "route \<times> queue \<Rightarrow> bool" where
  "delivery_inv = (\<lambda>(r, q). q_sound q \<and> route_inv (r, \<lparr>hs_out = outstanding q, hs_fresh = q_next q\<rparr>))"

lemma refined_inv:
  assumes "delivery_inv (r, q)" "refines q q'" "q_sound q'"
  shows "delivery_inv (r, q')"
proof -
  note o = refines_owing [OF assms(2)]
  have i: "route_inv (r, \<lparr>hs_out = outstanding q, hs_fresh = q_next q\<rparr>)" using assms(1) by (simp add: delivery_inv_def)
  have "route_step wr rd (r, \<lparr>hs_out = outstanding q, hs_fresh = q_next q\<rparr>)
      (r, \<lparr>hs_out = outstanding q \<union> {q_next q ..< q_next q'}, hs_fresh = q_next q'\<rparr>)" for wr rd
    using route_step.Admits [of "{q_next q ..< q_next q'}" "\<lparr>hs_out = outstanding q, hs_fresh = q_next q\<rparr>" "q_next q'" wr rd r] o(1) by simp
  then have "route_inv (r, \<lparr>hs_out = outstanding q \<union> {q_next q ..< q_next q'}, hs_fresh = q_next q'\<rparr>)"
    using route_step_inv i by blast
  from route_inv_shrinks [OF this, of "outstanding q'" r] o(3) show ?thesis using assms(3) by (simp add: delivery_inv_def)
qed

lemma delivery_step_inv:
  assumes "delivery_step wr rd s s'" "delivery_inv s"
  shows "delivery_inv s'"
  using assms
proof (induction rule: delivery_step.induct)
  case (Admits q rs r h)
  then show ?case
    using admitting.run_wf [of q rs h] admitting.run_complete [of q rs h] admitting.run_refines [of q rs h] refined_inv [of r q]
    by (auto simp: delivery_inv_def q_sound_def)
next
  case (Expires r q h)
  then show ?case
    using expiring.run_wf [of q h] expiring.run_complete [of q h] expiring.run_refines [of q h] refined_inv [of r q]
    by (auto simp: delivery_inv_def q_sound_def)
next
  case (Unsettled ack xs q err q' r)
  then show ?case using q_settle_as_exact [of q ack xs "Some err" q'] by (auto simp: delivery_inv_def)
next
  case (Composes r h limits ident q got q1 tries c dropped r' q2 t)
  then show ?case using queued.compose_over(1) [of r q] by (auto simp: delivery_inv_def)
next
  case (Delivers r b recovery ident t draw again reply asked due tries res st r' q q')
  then have "q_sound q' \<and> route_inv (r', \<lparr>hs_out = outstanding q', hs_fresh = q_next q'\<rparr>)"
    using queued.deliver_over [of r q] by (auto simp: delivery_inv_def)
  then show ?case using recorded_inv by (auto simp: delivery_inv_def)
qed

lemma new_delivery_inv:
  assumes "wf_queue q" "complete q"
  shows "delivery_inv (new_route st p k policy, q)"
proof -
  have "0 < q_next q" using next_pos [OF assms(1)] .
  then show ?thesis
    using assms by (auto simp: delivery_inv_def q_sound_def route_inv_def new_route_def owed_def outstanding_def unat_order)
qed

lemma delivery_steps_inv:
  assumes "(delivery_step wr rd)\<^sup>*\<^sup>* s s'" "delivery_inv s"
  shows "delivery_inv s'"
  using assms by (induction rule: rtranclp_induct) (auto intro: delivery_step_inv)

text \<open>A route that composes nothing has nothing left to send.\<close>

lemma idle_has_nothing:
  assumes "delivery_inv (r, q)" "rt_pending r = None" "q_read h (rt_next r) most bytes q = (got, q1)"
    and "list_all (\<lambda>x. x = None) tries" "compose_once wr limits ident got tries r = (Compose_empty, dropped, r')"
    and "settle_each (q_settle_as False) dropped q1 = Some q2"
  shows "outstanding q2 = {}"
  using queued.compose_over(2) [OF _ _ assms(2-6) refl] assms(1) by (simp add: delivery_inv_def)

end
