(* ===== verification/Spool_Samples.thy ===== *)
theory Spool_Samples
  imports Spool_Inv Queue_Read_Cover
begin

text \<open>
  A small spool to apply the theorems to: an empty directory on a host that answers every call, a
  queue that holds nothing, the same queue after one record was admitted, and reading that record back.
\<close>

definition blank_disk :: disk where
  "blank_disk = \<lparr>names = [], durable_names = [], inodes = (\<lambda>_. empty_inode), fresh = 0, answers = [],
     drawn = (\<lambda>_. replicate 8 7), draws = 0\<rparr>"

definition sample_host :: host where
  "sample_host = \<lparr>now = 5, room = Inr 1000000000\<rparr>"

definition sample_limits :: limits where
  "sample_limits = \<lparr>MaxBytes = 16000000, MaxRecordBytes = 1000, MaxAge = (\<lambda>_. 0)\<rparr>"

definition sample_queue :: queue where
  "sample_queue = first_queue Events blank_disk (budget_set new_budget sample_limits)"

definition sample_payload :: "byte list" where "sample_payload = [1, 1, 1, 1, 1, 0, 2, 1, 0, 7]"

definition sample_record :: Record where
  "sample_record = \<lparr>ID = [7], Payload = sample_payload\<rparr>"

definition sample_entry :: Entry where
  "sample_entry = \<lparr>en_Sequence = 1, en_Admitted = 5, en_ID = [7], en_Payload = sample_payload\<rparr>"

definition holding_queue :: queue where
  "holding_queue = snd (q_admit sample_host [sample_record] sample_queue)"

lemma sample_wf: "wf_disk blank_disk" "wf_queue sample_queue" "complete sample_queue"
proof -
  show d: "wf_disk blank_disk" by (simp add: wf_disk_def blank_disk_def)
  have "b_held (budget_set new_budget sample_limits) Events = 0"
    by (simp add: budget_set_def new_budget_def Let_def)
  then show "wf_queue sample_queue" "complete sample_queue"
    unfolding sample_queue_def by (rule first_queue_wf [OF d])+
qed

lemmas disk_defs = ask_def attempt_def set_inode_def file_write_def file_sync_def file_create_def
  syncDirectory_def file_lookup_def file_rename_def file_remove_def empty_inode_def

lemmas sample_defs = sample_queue_def first_queue_def new_queue_def budget_set_def new_budget_def
  sample_limits_def sample_host_def sample_record_def sample_payload_def blank_disk_def

lemmas admit_defs = q_admit_def budget_largest_def q_rotates_def Let_def budget_reserve_def stream_share_def
  budget_waiting_def q_rotate_def rotate_write_def q_append_def budget_add_def signed_divide_int_def
  q_announce_def budget_relieve_def

lemma sample_admit:
  "q_admit sample_host [sample_record] sample_queue =
     (Inr \<lparr>rc_Stream = Events, rc_First = 1, rc_Last = 1\<rparr>, holding_queue)"
proof -
  have "fst (q_admit sample_host [sample_record] sample_queue) = Inr \<lparr>rc_Stream = Events, rc_First = 1, rc_Last = 1\<rparr>"
    by (simp add: sample_defs admit_defs disk_defs)
  then show ?thesis unfolding holding_queue_def by (metis prod.collapse)
qed

lemma sample_next [simp]: "q_next sample_queue = 1" "q_stream sample_queue = Events"
  by (simp_all add: sample_defs)

lemmas sample_admitted = q_admit_Inr [OF sample_wf(2) sample_admit, simplified]

lemma holding_fields [simp]:
  "q_next holding_queue = 2" "q_closed holding_queue = False" "q_ledger holding_queue = empty_ledger\<lparr>watermark := 1\<rparr>"
  "q_stream holding_queue = Events" "q_maxAge holding_queue = 0"
  "q_segments holding_queue = [\<lparr>seg_first = 1, seg_size = 63\<rparr>]"
  by (simp_all add: holding_queue_def sample_defs admit_defs disk_defs)

lemma holding_disk:
  "names (q_disk holding_queue) = [(first_name 1, 0)]" "fresh (q_disk holding_queue) = 1"
  "answers (q_disk holding_queue) = []" "draws (q_disk holding_queue) = 0"
  by (simp_all add: holding_queue_def sample_defs admit_defs disk_defs segment_name_def)

lemma sample_newly:
  "ledger_settle (empty_ledger\<lparr>watermark := 1\<rparr>) (consecutive [1]) = (empty_ledger\<lparr>watermark := 2\<rparr>, 1)"
  by (simp add: consecutive_def ledger_settle_def empty_ledger_def ledger_covered_def join_spans_def)

definition sample_ledger :: ledger where
  "sample_ledger = credit Delivered 1 (empty_ledger\<lparr>watermark := 2\<rparr>)"

lemma sample_store_over:
  assumes "q_stream q = Events" "q_disk q = q_disk holding_queue"
  shows "q_store sample_ledger q = (None, snd (q_store sample_ledger q))"
proof -
  have len: "length (ledger_encode sample_ledger Events) \<le> maxLedgerBytes"
    by (simp add: sample_ledger_def ledger_encode_def Let_def credit_def empty_ledger_def ledgerMagic_def encode_spans_def)
  have "fst (q_store sample_ledger q) = None"
    using assms len names_apart names_apart(5) [symmetric]
    by (simp add: q_store_def Let_def store_write_def disk_defs holding_disk update_conv split: option.splits)
  then show ?thesis by (metis prod.collapse)
qed

lemmas sample_store = sample_store_over [OF holding_fields(4) refl]

lemma sample_settle:
  "q_settle [1] Delivered holding_queue = (None, snd (q_settle [1] Delivered holding_queue))"
proof -
  obtain q' where "q_store sample_ledger holding_queue = (None, q')" using sample_store by blast
  then have "fst (q_settle [1] Delivered holding_queue) = None"
    by (simp add: q_settle_def sample_newly word_le_nat_alt sample_ledger_def)
  then show ?thesis by (metis prod.collapse)
qed

lemma sample_step:
  "spool_step (first_spool blank_disk sample_limits)
     (snd (sp_Admit sample_host sample_host Events [sample_record] (first_spool blank_disk sample_limits)))"
  "sp_queue Events (first_spool blank_disk sample_limits) = Some sample_queue"
proof -
  show q: "sp_queue Events (first_spool blank_disk sample_limits) = Some sample_queue"
    by (simp add: sp_queue_def first_spool_def streams_def sp_lend_def sample_queue_def first_queue_def new_queue_def)
  show "spool_step (first_spool blank_disk sample_limits)
     (snd (sp_Admit sample_host sample_host Events [sample_record] (first_spool blank_disk sample_limits)))"
    by (rule spool_step.admit [OF q]) simp
qed

section \<open>Reading the record back\<close>

definition sample_frame :: frame where "sample_frame = frame_of 20 1 5 [7] sample_payload"

definition holding_walk :: walk where
  "holding_walk = newWalk \<lparr>content = encodeSegmentHeader Events 1 @ frameBytes Events 1 5 [7] sample_payload, faulty = \<lambda>_ _. None\<rparr>
     Events 20 63"

lemma holding_file:
  "opened (q_disk holding_queue) 0 = walk_file holding_walk" "open_file (q_disk holding_queue) (first_name 1) = (Inr 0, q_disk holding_queue)"
  "cur_offset (q_cursor holding_queue) = 0"
  by (simp_all add: open_file_def private_file_def opened_def holding_walk_def newWalk_def frameBytes_def no_cursor_def
      holding_queue_def sample_defs admit_defs disk_defs segment_name_def)

lemma holding_walk_next:
  "walk_next (Some m) holding_walk
     = (Found sample_frame (if m sample_frame = Kept then 7 # sample_payload else []) 0, holding_walk\<lparr>walk_at := 63\<rparr>)"
  "walk_next mode (holding_walk\<lparr>walk_at := 63\<rparr>) = (Stopped 0 [EOF], holding_walk\<lparr>walk_at := 63\<rparr>)"
proof -
  have "walk_next (Some m) holding_walk
     = (Found sample_frame (if m sample_frame = Kept then 7 # sample_payload else []) 0, holding_walk\<lparr>walk_headed := 0, walk_at := 63\<rparr>)"
    unfolding walk_next_def sample_frame_def
    by (subst next_from_resync [of _ 20 1 5 "[7]" sample_payload])
      (simp_all add: holding_walk_def newWalk_def intact_at_def writable_def mode_of_def sample_payload_def sound_file_def)
  then show "walk_next (Some m) holding_walk
     = (Found sample_frame (if m sample_frame = Kept then 7 # sample_payload else []) 0, holding_walk\<lparr>walk_at := 63\<rparr>)"
    by (simp add: holding_walk_def newWalk_def)
  show "walk_next mode (holding_walk\<lparr>walk_at := 63\<rparr>) = (Stopped 0 [EOF], holding_walk\<lparr>walk_at := 63\<rparr>)"
    by (simp add: walk_next_def next_from.simps holding_walk_def newWalk_def)
qed

lemma holding_read_walk:
  "read_walk (empty_ledger\<lparr>watermark := 1\<rparr>) 1 most bytes \<lparr>seg_first = 1, seg_size = 63\<rparr> 2 holding_walk 0 nothing_taken
    = Inr (nothing_taken\<lparr>tk_entries := [sample_entry], tk_payloads := 10,
             tk_reached := Some \<lparr>cur_first = 1, cur_offset = 63, cur_prev = 1\<rparr>\<rparr>)"
proof -
  have two: "\<not> (2 :: u64) \<le> 1" by (simp add: word_le_nat_alt)
  have f: "sequence sample_frame = 1" "admitted sample_frame = 5" "idBytes sample_frame = 1" "payload sample_frame = 10"
    by (simp_all add: sample_frame_def frame_of_def sample_payload_def)
  have open1: "\<not> ledger_settled (empty_ledger\<lparr>watermark := 1\<rparr>) 1" by (simp add: ledger_settled_def empty_ledger_def)
  have "walk_at (holding_walk\<lparr>walk_at := 63\<rparr>) = 63" by simp
  then show ?thesis
    by (subst read_walk.simps, subst holding_walk_next, subst read_walk.simps)
      (simp add: holding_walk_next f two open1 wanted_def lose_def enough_def take_entry_def nothing_taken_def Is_def sample_entry_def word_less_nat_alt)
qed

lemma holding_read:
  "q_read sample_host 1 most bytes holding_queue
     = (Inr [sample_entry], holding_queue\<lparr>q_cursor := \<lparr>cur_first = 1, cur_offset = 63, cur_prev = 1\<rparr>\<rparr>)"
proof -
  have two: "\<not> (2 :: u64) \<le> 1" by (simp add: word_le_nat_alt)
  have w: "newWalk (walk_file holding_walk) Events 20 63 = holding_walk" by (simp add: holding_walk_def newWalk_def)
  have a: "q_disk holding_queue\<lparr>answers := []\<rparr> = q_disk holding_queue" by (simp add: holding_disk [symmetric])
  have "\<not> whole (empty_ledger\<lparr>watermark := 1\<rparr>) (\<lparr>seg_first = 1, seg_size = 63\<rparr>, 2)"
    by (simp add: whole_def ledger_covered_def ledger_count_def empty_ledger_def)
  then show ?thesis
    using holding_read_walk [of most bytes]
    by (simp add: q_read_def q_expireDue_def read_start_def holding_file segment_name_def two w a disk_defs holding_disk
        nothing_taken_def q_settleLost_def)
qed

end
