(* ===== verification/Link.thy ===== *)
theory Link
  imports Link_Policy
begin

text \<open>
  The connection to one listener, \<open>internal/link/link.go\<close>: whether it answers, since when it has
  not, and whose turn it is to try it again. An operation is what it does between the lock and the
  unlock; \<open>now\<close> is what \<open>time.Now\<close> returns there. \<open>changed\<close> is whether the channel that announces
  a change exists, that is whether a request waits on it. A failure's reason is kept as the error it
  is, which \<open>State\<close> shows by its text. The log lines are left out.
\<close>

record 'e Options =
  op_Listener :: string
  op_Policy :: Policy
  op_Recovery :: "'e option \<Rightarrow> string"

record 'e Link =
  lk_options :: "'e Options"
  lk_epoch :: u64
  lk_failing :: bool
  lk_probing :: bool
  lk_failures :: int
  lk_class :: Class
  lk_reason :: "'e option"
  lk_recovery :: string
  lk_since :: time
  lk_until :: time
  lk_answered :: time
  lk_changed :: bool

record 'e State =
  sn_Listener :: string
  sn_Answered :: time
  sn_Failing :: time
  sn_Failure :: Class
  sn_Reason :: "'e option"
  sn_Recovery :: string
  sn_Attempts :: int
  sn_Next :: time

record Turn =
  tn_epoch :: u64
  tn_probe :: bool
  tn_done :: bool

datatype link_error = No_listener | Bad_policy policy_error

definition link_New :: "'e Options \<Rightarrow> link_error list + 'e Link" where
  "link_New options =
     (let problems = (if op_Listener options = [] then [No_listener] else [])
      in case Policy_Settled (op_Policy options) of
           Inl err \<Rightarrow> Inl (problems @ [Bad_policy err])
         | Inr policy \<Rightarrow>
             if problems \<noteq> [] then Inl problems
             else Inr \<lparr>lk_options = options\<lparr>op_Policy := policy\<rparr>, lk_epoch = 0, lk_failing = False,
                       lk_probing = False, lk_failures = 0, lk_class = Unclassed, lk_reason = None,
                       lk_recovery = [], lk_since = zero_time, lk_until = zero_time,
                       lk_answered = zero_time, lk_changed = False\<rparr>)"

text \<open>
  One turn of the loop of \<open>Take\<close>: a turn, or how long the request pauses, where 0 is until the
  link changes.
\<close>

datatype taking = Taken Turn | Pauses duration

definition link_Take :: "time \<Rightarrow> 'e Link \<Rightarrow> taking \<times> 'e Link" where
  "link_Take now l =
     (if \<not> lk_failing l \<or> (\<not> lk_probing l \<and> \<not> now < lk_until l)
      then (Taken \<lparr>tn_epoch = lk_epoch l, tn_probe = lk_failing l, tn_done = False\<rparr>,
            l\<lparr>lk_probing := lk_failing l\<rparr>)
      else (Pauses (if lk_probing l then 0 else lk_until l - now), l\<lparr>lk_changed := True\<rparr>))"

definition link_State :: "'e Link \<Rightarrow> 'e State" where
  "link_State l =
     (let state = \<lparr>sn_Listener = op_Listener (lk_options l), sn_Answered = lk_answered l,
                   sn_Failing = zero_time, sn_Failure = Unclassed, sn_Reason = None, sn_Recovery = [],
                   sn_Attempts = 0, sn_Next = zero_time\<rparr>
      in if lk_failing l
         then state\<lparr>sn_Failing := lk_since l, sn_Failure := lk_class l, sn_Reason := lk_reason l,
                    sn_Recovery := lk_recovery l, sn_Attempts := lk_failures l, sn_Next := lk_until l\<rparr>
         else state)"

definition link_announce :: "'e Link \<Rightarrow> 'e Link" where
  "link_announce l = l\<lparr>lk_changed := False\<rparr>"

definition turn_Answered :: "time \<Rightarrow> Turn \<Rightarrow> 'e Link \<Rightarrow> Turn \<times> 'e Link" where
  "turn_Answered now t l =
     (if tn_done t then (t, l)
      else
        let t = t\<lparr>tn_done := True\<rparr>; l = l\<lparr>lk_answered := now\<rparr>
        in if \<not> lk_failing l then (t, l)
           else (t, link_announce
                      (l\<lparr>lk_failing := False, lk_probing := False, lk_failures := 0,
                         lk_class := Unclassed, lk_reason := None, lk_recovery := [],
                         lk_since := zero_time, lk_until := zero_time, lk_epoch := lk_epoch l + 1\<rparr>)))"

definition tries_again :: string where
  "tries_again = ''none: the agent tries the listener again, one request at a time, until it answers''"

definition turn_Failed ::
  "time \<Rightarrow> rat \<Rightarrow> rat \<Rightarrow> Class \<Rightarrow> duration \<Rightarrow> 'e option \<Rightarrow> Turn \<Rightarrow> 'e Link \<Rightarrow> time \<times> Turn \<times> 'e Link" where
  "turn_Failed now draw again class asked reason t l =
     (let recovery = (if Lasting class then op_Recovery (lk_options l) reason else tries_again)
      in if tn_done t \<or> tn_epoch t \<noteq> lk_epoch l
         then (if lk_failing l then lk_until l else now, t\<lparr>tn_done := True\<rparr>, l)
         else
           let failures = lk_failures l + 1;
               until = now + Policy_wait (op_Policy (lk_options l)) failures (Lasting class) asked draw again
           in (until, t\<lparr>tn_done := True\<rparr>,
               link_announce
                 (l\<lparr>lk_since := (if lk_failing l then lk_since l else now), lk_failures := failures,
                    lk_failing := True, lk_probing := False, lk_class := class, lk_reason := reason,
                    lk_recovery := recovery, lk_until := until, lk_epoch := lk_epoch l + 1\<rparr>)))"

definition turn_Stands :: "Turn \<Rightarrow> 'e Link \<Rightarrow> bool" where
  "turn_Stands t l \<longleftrightarrow> \<not> tn_done t \<and> (\<not> lk_failing l \<or> tn_epoch t = lk_epoch l)"

definition turn_Abandoned :: "Turn \<Rightarrow> 'e Link \<Rightarrow> Turn \<times> 'e Link" where
  "turn_Abandoned t l =
     (if tn_done t then (t, l)
      else (t\<lparr>tn_done := True\<rparr>,
            if tn_probe t \<and> tn_epoch t = lk_epoch l
            then link_announce (l\<lparr>lk_probing := False\<rparr>) else l))"

section \<open>Requests that share a link\<close>

text \<open>
  The link and every turn that was taken on it. Requests take and settle turns in any order and at
  any moment; a turn is settled again when its holder does so. The epoch changes fewer than
  \<open>2 ^ 64\<close> times, which at a change every nanosecond is five centuries.
\<close>

inductive link_step :: "'e Link \<times> Turn list \<Rightarrow> 'e Link \<times> Turn list \<Rightarrow> bool" where
  take: "link_Take now l = (Taken t, l') \<Longrightarrow> link_step (l, ts) (l', ts @ [t])"
| waits: "link_Take now l = (Pauses w, l') \<Longrightarrow> link_step (l, ts) (l', ts)"
| answered: "i < length ts \<Longrightarrow> lk_epoch l \<noteq> -1 \<Longrightarrow> turn_Answered now (ts ! i) l = (t, l') \<Longrightarrow>
    link_step (l, ts) (l', ts[i := t])"
| failed: "i < length ts \<Longrightarrow> lk_epoch l \<noteq> -1 \<Longrightarrow>
    turn_Failed now draw again class asked reason (ts ! i) l = (due, t, l') \<Longrightarrow>
    link_step (l, ts) (l', ts[i := t])"
| abandoned: "i < length ts \<Longrightarrow> turn_Abandoned (ts ! i) l = (t, l') \<Longrightarrow>
    link_step (l, ts) (l', ts[i := t])"

inductive_cases link_stepE: "link_step a b"

text \<open>A turn that tries the listener again and whose holder has not settled it.\<close>

definition probes :: "'e Link \<Rightarrow> Turn \<Rightarrow> bool" where
  "probes l t \<longleftrightarrow> \<not> tn_done t \<and> tn_probe t \<and> tn_epoch t = lk_epoch l"

lemma probes_transparent [simp]:
  "probes (l\<lparr>lk_changed := c\<rparr>) = probes l" "probes (l\<lparr>lk_probing := c\<rparr>) = probes l"
  by (simp_all add: probes_def fun_eq_iff)

definition link_inv :: "'e Link \<times> Turn list \<Rightarrow> bool" where
  "link_inv = (\<lambda>(l, ts).
     (lk_probing l \<longrightarrow> lk_failing l)
     \<and> (lk_failing l \<longleftrightarrow> lk_failures l > 0) \<and> 0 \<le> lk_failures l
     \<and> (\<forall>t \<in> set ts. tn_epoch t \<le> lk_epoch l
           \<and> (tn_epoch t = lk_epoch l \<longrightarrow> tn_probe t = lk_failing l))
     \<and> length (filter (probes l) ts) = (if lk_probing l then 1 else 0))"

lemma link_New_inv: "link_New options = Inr l \<Longrightarrow> link_inv (l, [])"
  by (auto simp: link_New_def link_inv_def Let_def split: sum.splits if_splits)

text \<open>What settling one turn of a list does to the number that satisfy a predicate.\<close>

lemma length_filter_update:
  assumes "i < length xs"
  shows "length (filter P (xs[i := x])) + (if P (xs ! i) then 1 else 0)
    = length (filter P xs) + (if P x then 1 else 0)"
proof -
  have s: "xs = take i xs @ xs ! i # drop (Suc i) xs" using assms by (simp add: id_take_nth_drop)
  have "xs[i := x] = take i xs @ x # drop (Suc i) xs" using assms by (simp add: upd_conv_take_nth_drop)
  then have "length (filter P (xs[i := x])) = length (filter P (take i xs)) + (if P x then 1 else 0)
      + length (filter P (drop (Suc i) xs))"
    by simp
  moreover have "length (filter P xs) = length (filter P (take i xs)) + (if P (xs ! i) then 1 else 0)
      + length (filter P (drop (Suc i) xs))"
    by (subst s) simp
  ultimately show ?thesis by simp
qed

lemma filter_none: "(\<And>x. x \<in> set xs \<Longrightarrow> \<not> P x) \<Longrightarrow> length (filter P xs) = 0"
  by simp

lemma epoch_grows:
  assumes "(e :: u64) \<noteq> -1" "x \<le> e"
  shows "x < e + 1"
proof -
  have "unat e \<noteq> unat (-1 :: u64)" using assms(1) by (metis word_unat_eq_iff)
  then have "unat e + 1 < 2 ^ 64" using unsigned_less [of e, where 'a = nat] by (simp add: unsigned_minus_1_eq_mask mask_eq_exp_minus_1)
  then have "unat (e + 1) = unat e + 1" by (subst unat_plus) simp_all
  then show ?thesis using assms(2) by (simp add: unat_order)
qed

text \<open>When the epoch changes, no turn taken before it is of the new one.\<close>

lemma epoch_changes:
  assumes "link_inv (l, ts)" "lk_epoch l \<noteq> -1" "t \<in> set ts"
  shows "tn_epoch t < lk_epoch l + 1"
  using assms epoch_grows by (auto simp: link_inv_def)

lemma link_inv_moved:
  assumes inv: "link_inv (l, ts)" and e: "lk_epoch l \<noteq> -1" "lk_epoch l' = lk_epoch l + 1"
    and l': "\<not> lk_probing l'" "lk_failing l' \<longleftrightarrow> lk_failures l' > 0" "0 \<le> lk_failures l'"
    and i: "i < length ts" "tn_epoch t = tn_epoch (ts ! i)"
  shows "link_inv (l', ts[i := t])"
proof -
  have old: "tn_epoch x < lk_epoch l'" if "x \<in> set (ts[i := t])" for x
    using that set_update_subset_insert [of ts i t] epoch_changes [OF inv e(1)] i e(2) nth_mem [of i ts] by fastforce
  have "length (filter (probes l') (ts[i := t])) = 0"
    by (rule filter_none) (auto simp: probes_def dest: old)
  then show ?thesis using l' old by (force simp: link_inv_def)
qed

lemma link_inv_done:
  assumes inv: "link_inv (l, ts)" and i: "i < length ts" "t = (ts ! i)\<lparr>tn_done := True\<rparr>" "\<not> probes l (ts ! i)"
    and l': "lk_epoch l' = lk_epoch l" "lk_failing l' = lk_failing l" "lk_probing l' = lk_probing l"
      "lk_failures l' = lk_failures l"
  shows "link_inv (l', ts[i := t])"
proof -
  have "probes l' = probes l" "\<not> probes l t" using l'(1) i(2) by (simp_all add: probes_def fun_eq_iff)
  then have "length (filter (probes l') (ts[i := t])) = length (filter (probes l) ts)"
    using length_filter_update [OF i(1), of "probes l" t] i(3) by simp
  moreover have "tn_epoch x \<le> lk_epoch l \<and> (tn_epoch x = lk_epoch l \<longrightarrow> tn_probe x = lk_failing l)"
    if "x \<in> set (ts[i := t])" for x
    using that set_update_subset_insert [of ts i t] inv i nth_mem [of i ts] by (fastforce simp: link_inv_def)
  ultimately show ?thesis using inv l' by (auto simp: link_inv_def)
qed

lemma link_step_inv:
  assumes "link_step a b" "link_inv a"
  shows "link_inv b"
  using assms
proof (cases rule: link_step.cases)
  case (take now l t l' ts)
  have t: "t = \<lparr>tn_epoch = lk_epoch l, tn_probe = lk_failing l, tn_done = False\<rparr>"
    "l' = l\<lparr>lk_probing := lk_failing l\<rparr>" "lk_failing l \<longrightarrow> \<not> lk_probing l"
    using take(3) by (auto simp: link_Take_def split: if_splits)
  have "filter (probes l') ts = filter (probes l) ts" by (simp add: t(2) probes_def cong: filter_cong)
  then show ?thesis using assms(2) take(1,2) t by (auto simp: link_inv_def probes_def)
next
  case (waits now l w l' ts)
  then show ?thesis using assms(2) by (auto simp: link_Take_def link_inv_def split: if_splits)
next
  case (answered i ts l now t l')
  have inv: "link_inv (l, ts)" using assms(2) answered(1) by simp
  show ?thesis
  proof (cases "tn_done (ts ! i)")
    case True
    then show ?thesis using answered inv list_update_id [of ts i] by (auto simp: turn_Answered_def)
  next
    case False
    show ?thesis
    proof (cases "lk_failing l")
      case True
      then show ?thesis
        using answered False link_inv_moved [OF inv answered(4), of l' i t]
        by (auto simp: turn_Answered_def Let_def link_announce_def)
    next
      case up: False
      then have "\<not> probes l (ts ! i)"
        using inv answered(3) by (auto simp: link_inv_def probes_def)
      then show ?thesis
        using answered False up link_inv_done [OF inv answered(3), of t l']
        by (auto simp: turn_Answered_def Let_def)
    qed
  qed
next
  case (failed i ts l now draw again _ asked reason due t l')
  have inv: "link_inv (l, ts)" using assms(2) failed(1) by simp
  show ?thesis
  proof (cases "tn_done (ts ! i) \<or> tn_epoch (ts ! i) \<noteq> lk_epoch l")
    case True
    then have "\<not> probes l (ts ! i)" by (auto simp: probes_def)
    then show ?thesis
      using failed True link_inv_done [OF inv failed(3), of t l'] by (auto simp: turn_Failed_def Let_def)
  next
    case False
    have "0 \<le> lk_failures l" using inv by (simp add: link_inv_def)
    moreover have "lk_failing l' \<and> \<not> lk_probing l' \<and> lk_failures l' = lk_failures l + 1
        \<and> lk_epoch l' = lk_epoch l + 1 \<and> tn_epoch t = tn_epoch (ts ! i)"
      using failed(5) False by (auto simp: turn_Failed_def Let_def link_announce_def)
    ultimately have "link_inv (l', ts[i := t])"
      using failed(3) by (intro link_inv_moved [OF inv failed(4)]) simp_all
    then show ?thesis using failed(2) by simp
  qed
next
  case (abandoned i ts l t l')
  have inv: "link_inv (l, ts)" using assms(2) abandoned(1) by simp
  show ?thesis
  proof (cases "probes l (ts ! i)")
    case True
    have "probes l' = probes l" "\<not> probes l t"
      using True abandoned(4) by (auto simp: turn_Abandoned_def probes_def link_announce_def fun_eq_iff)
    then have "length (filter (probes l') (ts[i := t])) + 1 = length (filter (probes l) ts)"
      using True length_filter_update [OF abandoned(3), of "probes l" t] by simp
    moreover have "tn_epoch x \<le> lk_epoch l \<and> (tn_epoch x = lk_epoch l \<longrightarrow> tn_probe x = lk_failing l)"
      if "x \<in> set (ts[i := t])" for x
      using that set_update_subset_insert [of ts i t] inv abandoned nth_mem [of i ts] True
      by (fastforce simp: link_inv_def turn_Abandoned_def probes_def split: if_splits)
    ultimately show ?thesis
      using inv abandoned True
      by (auto simp: link_inv_def turn_Abandoned_def probes_def link_announce_def split: if_splits)
  next
    case False
    show ?thesis
    proof (cases "tn_done (ts ! i)")
      case True
      then show ?thesis using abandoned inv list_update_id [of ts i] by (auto simp: turn_Abandoned_def)
    next
      case live: False
      then show ?thesis
        using abandoned False link_inv_done [OF inv abandoned(3), of t l']
        by (auto simp: turn_Abandoned_def probes_def split: if_splits)
    qed
  qed
qed

lemma link_steps_inv: "link_step\<^sup>*\<^sup>* a b \<Longrightarrow> link_inv a \<Longrightarrow> link_inv b"
  by (induction rule: rtranclp_induct) (auto intro: link_step_inv)

section \<open>What requests that share the link can rely on\<close>

text \<open>While the listener fails, at most one request holds a turn that lets it send.\<close>

lemma standing_probes:
  assumes "link_inv (l, ts)" "lk_failing l" "t \<in> set ts"
  shows "turn_Stands t l \<longleftrightarrow> probes l t"
  using assms by (auto simp: link_inv_def turn_Stands_def probes_def)

lemma one_stands:
  assumes "link_inv (l, ts)" "lk_failing l"
  shows "length (filter (\<lambda>t. turn_Stands t l) ts) = (if lk_probing l then 1 else 0)"
  using assms standing_probes [OF assms] by (simp add: link_inv_def cong: filter_cong)

text \<open>A turn taken before the link last changed tells it nothing, and is not heard twice.\<close>

lemma stale_failure:
  assumes "turn_Failed now draw again class asked reason t l = (due, t', l')"
    "tn_done t \<or> tn_epoch t \<noteq> lk_epoch l"
  shows "l' = l" "tn_done t'" "lk_failing l \<Longrightarrow> due = lk_until l"
  using assms by (auto simp: turn_Failed_def Let_def)

lemma fresh_failure:
  assumes "turn_Failed now draw again class asked reason t l = (due, t', l')"
    "\<not> tn_done t" "tn_epoch t = lk_epoch l"
  shows "lk_failing l'" "\<not> lk_probing l'" "lk_failures l' = lk_failures l + 1" "lk_until l' = due"
    "due = now + Policy_wait (op_Policy (lk_options l)) (lk_failures l + 1) (Lasting class) asked draw again"
    "lk_epoch l' = lk_epoch l + 1" "lk_since l' = (if lk_failing l then lk_since l else now)"
    "\<not> lk_changed l'" "lk_options l' = lk_options l" "tn_done t'"
  using assms by (auto simp: turn_Failed_def Let_def link_announce_def)

lemma outage_counted_once:
  assumes inv: "link_inv (l, ts)" and e: "lk_epoch l \<noteq> -1" and t: "t \<in> set ts" "\<not> tn_done t" "tn_epoch t = lk_epoch l"
    and f: "turn_Failed now draw again class asked reason t l = (due, t', l')"
    and u: "u \<in> set ts"
  shows "snd (snd (turn_Failed now2 draw2 again2 class2 asked2 reason2 u l')) = l'"
proof -
  have "tn_epoch u \<noteq> lk_epoch l'"
    using epoch_changes [OF inv e u] fresh_failure(6) [OF f t(2,3)] by auto
  then show ?thesis by (auto simp: turn_Failed_def Let_def)
qed

text \<open>An answer lets every request through at once, whoever had it.\<close>

lemma answer_lets_through:
  assumes "turn_Answered now t l = (t', l')" "\<not> tn_done t"
  shows "\<not> lk_failing l'" "lk_answered l' = now" "tn_done t'" "\<exists>u l''. link_Take now2 l' = (Taken u, l'')"
    "lk_failing l \<Longrightarrow> \<not> lk_changed l' \<and> lk_failures l' = 0 \<and> lk_epoch l' = lk_epoch l + 1"
  using assms by (auto simp: turn_Answered_def link_Take_def Let_def link_announce_def split: if_splits)

text \<open>
  A request that pauses is let in. With a pause, it is due when the pause ends and the link did not
  change; without one, another request holds the turn, and whatever that one settles it with
  announces a change.
\<close>

lemma pause_is_due:
  assumes "link_Take now l = (Pauses w, l')" "0 < w" "now + w \<le> later"
  shows "\<exists>t l''. link_Take later l' = (Taken t, l'') \<and> tn_probe t"
  using assms by (auto simp: link_Take_def split: if_splits)

lemma pause_without_end_is_announced:
  assumes inv: "link_inv (l, ts)" and p: "link_Take now l = (Pauses w, l')" "w \<le> 0"
  obtains t where "t \<in> set ts" "probes l' t"
    "\<And>now. \<not> lk_changed (snd (turn_Answered now t l'))"
    "\<And>now d a c k r. \<not> lk_changed (snd (snd (turn_Failed now d a c k r t l')))"
    "\<not> lk_changed (snd (turn_Abandoned t l'))"
proof -
  have l': "lk_failing l" "lk_probing l" "l' = l\<lparr>lk_changed := True\<rparr>"
    using p by (auto simp: link_Take_def split: if_splits)
  then have "length (filter (probes l) ts) = 1" using inv by (simp add: link_inv_def)
  then obtain t where t: "t \<in> set ts" "probes l t"
    by (metis (no_types, lifting) filter_False length_0_conv one_neq_zero list.size(3))
  show thesis
  proof (rule that [OF t(1)])
    show "probes l' t" using t(2) l'(3) by (simp add: probes_def)
    show "\<not> lk_changed (snd (turn_Answered now t l'))" for now
      using t(2) l' by (simp add: turn_Answered_def probes_def Let_def link_announce_def)
    show "\<not> lk_changed (snd (snd (turn_Failed now d a c k r t l')))" for now d a c k r
      using t(2) l' by (simp add: turn_Failed_def probes_def Let_def link_announce_def)
    show "\<not> lk_changed (snd (turn_Abandoned t l'))"
      using t(2) l' by (simp add: turn_Abandoned_def probes_def link_announce_def)
  qed
qed

end
