(* ===== verification/Link_Samples.thy ===== *)
theory Link_Samples
  imports Link
begin

text \<open>A link to apply the theorems to: a request took a turn on it, and its turn failed.\<close>

definition sample_options :: "nat Options" where
  "sample_options =
     \<lparr>op_Listener = ''ingest'', op_Policy = \<lparr>Retry = 0, RetryLongest = 0, Hold = 0, HoldLongest = 0\<rparr>,
      op_Recovery = (\<lambda>_. ''renew'')\<rparr>"

definition sample_policy :: Policy where
  "sample_policy = \<lparr>Retry = Second, RetryLongest = 5 * Minute, Hold = Minute, HoldLongest = Hour\<rparr>"

definition sample_link :: "nat Link" where
  "sample_link =
     \<lparr>lk_options = sample_options\<lparr>op_Policy := sample_policy\<rparr>, lk_epoch = 0, lk_failing = False, lk_probing = False,
      lk_failures = 0, lk_class = Unclassed, lk_reason = None, lk_recovery = [], lk_since = zero_time,
      lk_until = zero_time, lk_answered = zero_time, lk_changed = False\<rparr>"

definition sample_turn :: Turn where
  "sample_turn = \<lparr>tn_epoch = 0, tn_probe = False, tn_done = False\<rparr>"

definition sample_failing :: "nat Link" where
  "sample_failing = snd (snd (turn_Failed 10 0 0 Transport 0 (Some 3) sample_turn sample_link))"

lemma sample_settled: "Policy_Settled (op_Policy sample_options) = Inr sample_policy"
  by (simp add: sample_options_def sample_policy_def Policy_Settled_def settled_field_def duration_defs)

lemma sample_New: "link_New sample_options = Inr sample_link"
  using sample_settled by (simp add: link_New_def sample_link_def) (simp add: sample_options_def)

lemma sample_taken: "link_Take 5 sample_link = (Taken sample_turn, sample_link)"
  by (simp add: link_Take_def sample_link_def sample_turn_def)

lemma sample_took: "link_step (sample_link, []) (sample_link, [sample_turn])"
  using link_step.take [OF sample_taken, of "[]"] by simp

lemma sample_wait: "Policy_wait sample_policy 1 False 0 0 0 = 500000000"
  by (simp add: Policy_wait_def wait_base_def sample_policy_def spread_def duration_defs)

lemma sample_failed:
  "turn_Failed 10 0 0 Transport 0 (Some 3) sample_turn sample_link
     = (500000010, sample_turn\<lparr>tn_done := True\<rparr>, sample_failing)"
proof -
  have f: "\<not> tn_done sample_turn" "tn_epoch sample_turn = lk_epoch sample_link"
    by (simp_all add: sample_turn_def sample_link_def)
  obtain due t' l' where l': "turn_Failed 10 0 0 Transport 0 (Some 3) sample_turn sample_link = (due, t', l')"
    by (cases "turn_Failed 10 0 0 Transport 0 (Some 3) sample_turn sample_link") auto
  have "due = 10 + Policy_wait sample_policy 1 False 0 0 0"
    using fresh_failure(5) [OF l' f] by (simp add: sample_link_def Lasting_def)
  moreover have "t' = sample_turn\<lparr>tn_done := True\<rparr>" using l' f by (auto simp: turn_Failed_def Let_def)
  moreover have "l' = sample_failing" using l' by (simp add: sample_failing_def)
  ultimately show ?thesis using l' by (simp add: sample_wait)
qed

lemma sample_failing_fields:
  "lk_failing sample_failing" "\<not> lk_probing sample_failing" "lk_until sample_failing = 500000010"
proof -
  have f: "\<not> tn_done sample_turn" "tn_epoch sample_turn = lk_epoch sample_link"
    by (simp_all add: sample_turn_def sample_link_def)
  show "lk_failing sample_failing" "\<not> lk_probing sample_failing" "lk_until sample_failing = 500000010"
    using fresh_failure(1,2,4) [OF sample_failed f] by simp_all
qed

lemma sample_fails: "link_step (sample_link, [sample_turn]) (sample_failing, [sample_turn\<lparr>tn_done := True\<rparr>])"
proof -
  have "link_step (sample_link, [sample_turn]) (sample_failing, [sample_turn][0 := sample_turn\<lparr>tn_done := True\<rparr>])"
  proof (rule link_step.failed)
    show "turn_Failed 10 0 0 Transport 0 (Some 3) ([sample_turn] ! 0) sample_link
        = (500000010, sample_turn\<lparr>tn_done := True\<rparr>, sample_failing)"
      using sample_failed by simp
  qed (simp_all add: sample_link_def)
  then show ?thesis by simp
qed

lemma sample_reached: "link_step\<^sup>*\<^sup>* (sample_link, []) (sample_failing, [sample_turn\<lparr>tn_done := True\<rparr>])"
  using sample_took sample_fails by (rule converse_rtranclp_into_rtranclp [OF _ r_into_rtranclp])

end
