(* ===== verification/Delivery_Samples.thy ===== *)
theory Delivery_Samples
  imports Delivery_Spool Spool_Samples Link_Samples
begin

text \<open>
  Concrete inputs for the properties of batches, answers and routes: a wire format with lengths in
  unary, which keeps what \<open>protowire\<close> promises, decoders that know a few bodies, a record and a route.
\<close>

definition ones :: "byte list \<Rightarrow> nat" where "ones bs = length (takeWhile (\<lambda>b. b = 1) bs)"
definition after_ones :: "byte list \<Rightarrow> byte list" where "after_ones bs = dropWhile (\<lambda>b. b = 1) bs"

definition unary_bytes :: "byte list \<Rightarrow> (byte list \<times> nat) option" where
  "unary_bytes bs =
     (case after_ones bs of
        [] \<Rightarrow> None
      | _ # rest \<Rightarrow> if ones bs \<le> length rest then Some (take (ones bs) rest, ones bs + 1 + ones bs) else None)"

definition unary_tag :: "byte list \<Rightarrow> (nat \<times> nat \<times> nat) option" where
  "unary_tag bs =
     (case after_ones bs of
        _ # kind # _ \<Rightarrow> if ones bs = 0 then None else Some (ones bs, unat kind, ones bs + 2)
      | _ \<Rightarrow> None)"

definition unary_value :: "nat \<Rightarrow> nat \<Rightarrow> byte list \<Rightarrow> nat option" where
  "unary_value n kind bs =
     (if kind = BytesType then map_option snd (unary_bytes bs)
      else if after_ones bs = [] then None else Some (ones bs + 1))"

definition sample_wire :: wire where
  "sample_wire =
     \<lparr>Tag = \<lambda>n k. replicate n 1 @ [0, of_nat k], Varint = \<lambda>v. replicate v 1 @ [0],
      Bytes = \<lambda>v. replicate (length v) 1 @ 0 # v, ConsumeTag = unary_tag, ConsumeBytes = unary_bytes,
      ConsumeFieldValue = unary_value, SizeTag = \<lambda>n. n + 2, SizeBytes = \<lambda>n. n + 1 + n, SizeVarint = \<lambda>v. v + 1,
      ValidString = \<lambda>v. True,
      number = \<lambda>r name. if name = ''batch_id'' then 1 else if name = ''protocol_version'' then 2
        else if name = ''items'' then 4 else if name \<in> {''events'', ''records'', ''reports'', ''assessments''} then 3 else 5\<rparr>"

lemma unary_simps [simp]:
  "ones (replicate n 1 @ 0 # rest) = n" "after_ones (replicate n 1 @ 0 # rest) = 0 # rest"
  by (simp_all add: ones_def after_ones_def takeWhile_append takeWhile_replicate dropWhile_append dropWhile_replicate)

lemma sample_wire_ok: "wire_ok sample_wire"
  by (auto simp: wire_ok_def sample_wire_def unary_tag_def unary_bytes_def unary_value_def VarintType_def BytesType_def)

lemma sample_numbers_ok: "numbers_ok sample_wire r"
  by (cases r) (simp_all add: numbers_ok_def Let_def shapes_def sample_wire_def)

lemma sample_tags_advance: "tags_advance sample_wire"
  by (auto simp: tags_advance_def sample_wire_def unary_tag_def split: list.splits if_splits)

section \<open>A record, an unreadable one, and a route\<close>

definition sample_unreadable :: Entry where
  "sample_unreadable = \<lparr>en_Sequence = 2, en_Admitted = 60, en_ID = [8], en_Payload = [9]\<rparr>"

definition sample_batching :: Batching where
  "sample_batching = \<lparr>ba_MaxBytes = 1000, ba_MaxEvents = 10, ba_MaxInventoryRecords = 10\<rparr>"

definition sample_route :: route where "sample_route = new_route Events To_events Critical sample_policy"

lemmas sample_reading = sample_entry_def sample_unreadable_def sample_payload_def sample_wire_def unary_tag_def unary_bytes_def
  unary_value_def ones_def after_ones_def shapes_def BytesType_def VarintType_def

lemma sample_identified: "identified sample_wire To_events sample_entry = Some \<lparr>ident_ID = [7], ident_Items = 0\<rparr>"
  by (simp add: identified_def Identify_def Identify_from.simps sample_reading)

lemma sample_not_identified: "identified sample_wire To_events sample_unreadable = None"
  by (simp add: identified_def Identify_def Identify_from.simps sample_reading)

definition sample_batch :: batch where
  "sample_batch = frame_batch sample_wire To_events [3]
     [\<lparr>de_sequence = 1, de_id = [7], de_admitted = 5, de_record = sample_payload\<rparr>]"

lemma sample_composed:
  "compose_once sample_wire sample_batching [3] (Inr [sample_entry]) [] sample_route
    = (Composed sample_batch, [], sample_route\<lparr>rt_next := 2\<rparr>)"
proof -
  have "rt_protocol sample_route = To_events" "en_Sequence sample_entry = 1"
    by (simp_all add: sample_route_def new_route_def sample_entry_def)
  then show ?thesis
    by (simp add: compose_once_def Let_def sample_identified sample_batch_def) (simp add: sample_entry_def)
qed

definition sample_sent :: route where
  "sample_sent = rt_composed (Composed sample_batch) 70 (sample_route\<lparr>rt_next := 2\<rparr>)"

definition sample_holding :: holding where "sample_holding = \<lparr>hs_out = {1, 2}, hs_fresh = 3\<rparr>"

definition read_queue :: queue where
  "read_queue = holding_queue\<lparr>q_cursor := \<lparr>cur_first = 1, cur_offset = 63, cur_prev = 1\<rparr>\<rparr>"

lemma sample_run:
  "(delivery_step sample_wire rd)\<^sup>*\<^sup>* (new_route Events To_events Critical sample_policy, sample_queue) (sample_sent, read_queue)"
proof -
  have admits: "delivery_step sample_wire rd (sample_route, sample_queue) (sample_route, holding_queue)"
    using delivery_step.Admits [of sample_queue "[sample_record]" sample_wire rd sample_route sample_host] by (simp add: holding_queue_def)
  have r: "rt_next sample_route = 1" "rt_pending sample_route = None" by (simp_all add: sample_route_def new_route_def)
  have "delivery_step sample_wire rd (sample_route, holding_queue)
      (rt_composed (Composed sample_batch) 70 (sample_route\<lparr>rt_next := 2\<rparr>), read_queue)"
    by (rule delivery_step.Composes [where h = sample_host, OF r(2) _ _ sample_composed])
      (simp_all add: r holding_read read_queue_def)
  then have composes: "delivery_step sample_wire rd (sample_route, holding_queue) (sample_sent, read_queue)"
    by (simp add: sample_sent_def)
  show ?thesis
    using admits composes unfolding sample_route_def by (meson rtranclp.rtrancl_refl rtranclp.rtrancl_into_rtrancl)
qed

lemma sample_sent_fields: "rt_next sample_sent = 2" "rt_pending sample_sent = Some sample_batch" "batch_sequences sample_batch = [1]"
  by (simp_all add: sample_sent_def rt_composed_def sample_batch_def)

section \<open>Answers\<close>

definition sample_decoders :: decoders where
  "sample_decoders =
     \<lparr>ParseMediaType = \<lambda>s. Some s, DecodeAck = \<lambda>body. if body = [1] then Some \<lparr>ak_accepted = True, ak_durable = True, ak_received = 1\<rparr> else None,
      DecodeRejection = \<lambda>body. None, DecodeRecord = \<lambda>r body. None\<rparr>"

definition sample_answer :: Answer where
  "sample_answer = \<lparr>an_Status = 200, an_ContentType = ''application/x-protobuf'', an_Body = [1], an_Date = 80\<rparr>"

lemma sample_durable:
  "rt_judge sample_wire sample_decoders To_events sample_batch (Replied sample_answer)
    = \<lparr>jg_verdict = verdict Durable (-1) No_reason, jg_failure = Unclassed, jg_listener = False\<rparr>"
proof -
  have "length (bt_entries sample_batch) = 1" by (simp add: sample_batch_def)
  then show ?thesis
    by (simp add: rt_judge_def Judge_answer_def acknowledged_def is_protobuf_def sample_decoders_def sample_answer_def)
qed

lemma sample_settles:
  "rt_deliver sample_wire recovery ident 90 0 0 (rt_judge sample_wire sample_decoders To_events sample_batch (Replied sample_answer))
     0 0 [None] sample_batch sample_sent = (Goes_on, Some (Acknowledges [1]), rt_delivered 90 sample_sent)"
  by (simp add: sample_durable rt_deliver_def sample_sent_fields)

section \<open>The record acknowledged, and the route idle\<close>

lemma read_wf: "wf_queue read_queue" "complete read_queue"
  using q_read_keeps [of holding_queue, OF _ holding_read] sample_admitted(1)
    admitting.run_complete [of sample_queue "[sample_record]" sample_host] sample_wf
  by (auto simp: q_sound_def holding_queue_def read_queue_def)

lemma read_settle:
  "\<exists>q'. q_settle_as True [1] read_queue = (None, q') \<and> \<not> q_closed q' \<and> q_maxAge q' = 0"
proof -
  have fields: "q_stream read_queue = Events" "q_disk read_queue = q_disk holding_queue" "q_closed read_queue = False"
    "q_next read_queue = 2" "q_ledger read_queue = empty_ledger\<lparr>watermark := 1\<rparr>" "q_maxAge read_queue = 0"
    by (simp_all add: read_queue_def)
  obtain q' where s: "q_store sample_ledger read_queue = (None, q')"
    using sample_store_over [OF fields(1,2)] by blast
  have l: "wf_ledger sample_ledger" "ledger_highest sample_ledger \<le> q_next read_queue"
    by (simp_all add: wf_ledger_def ledger_highest_def sample_ledger_def credit_def empty_ledger_def fields unat_order)
  have "q_maxAge q' = 0"
    by (subst q_store_None(3) [OF s wf_queueD(1) [OF read_wf(1)]]) (simp add: Let_def fields)
  moreover have "\<not> q_closed q'" using q_store_wf(5) [OF read_wf(1) l s] fields by simp
  moreover have "only_files q' (q_compact q')" by (rule q_compact_wf(2) [OF q_store_wf(1) [OF read_wf(1) l s]])
  ultimately show ?thesis
    using s by (simp add: q_settle_as_def q_settle_def fields sample_newly word_le_nat_alt sample_ledger_def only_files_def)
qed

definition settled_queue :: queue where "settled_queue = snd (q_settle_as True [1] read_queue)"

lemma settled_fields:
  "q_settle_as True [1] read_queue = (None, settled_queue)" "\<not> q_closed settled_queue" "q_maxAge settled_queue = 0"
  "q_next settled_queue = 2" "wf_queue settled_queue"
  using read_settle q_settle_as_exact [of read_queue True "[1]"] read_wf
  by (auto simp: settled_queue_def q_sound_def) (auto simp: read_queue_def)

definition resent_batch :: batch where "resent_batch = sample_batch\<lparr>bt_sent := bt_sent sample_batch + 1\<rparr>"

lemma resent_durable:
  "rt_judge sample_wire sample_decoders To_events resent_batch (Replied sample_answer)
    = \<lparr>jg_verdict = verdict Durable (-1) No_reason, jg_failure = Unclassed, jg_listener = False\<rparr>"
  using sample_durable by (simp add: rt_judge_def resent_batch_def)

lemma settled_run:
  "\<exists>r. (delivery_step sample_wire sample_decoders)\<^sup>*\<^sup>* (new_route Events To_events Critical sample_policy, sample_queue) (r, settled_queue)
     \<and> rt_pending r = None \<and> rt_next r = 2"
proof -
  let ?r = "rt_delivered 90 (rt_sending sample_sent)"
  have p: "rt_protocol sample_sent = To_events" "rt_pending (rt_sending sample_sent) = Some resent_batch"
    by (simp_all add: sample_sent_def rt_composed_def sample_route_def new_route_def rt_sending_def rt_record_def Let_def resent_batch_def)
  have b: "batch_sequences resent_batch = [1]" using sample_sent_fields(3) by (simp add: resent_batch_def batch_sequences_def)
  have "delivery_step sample_wire sample_decoders (sample_sent, read_queue) (if Goes_on = Goes_on then rt_record ?r else ?r, settled_queue)"
    by (rule delivery_step.Delivers [OF p(2), where tries = "[None]" and reply = "Replied sample_answer" and st = "Some (Acknowledges [1])"])
      (simp_all add: p resent_durable rt_deliver_def b settled_in_def settled_fields(1))
  then have "(delivery_step sample_wire sample_decoders)\<^sup>*\<^sup>* (new_route Events To_events Critical sample_policy, sample_queue)
      (rt_record ?r, settled_queue)"
    using sample_run [of sample_decoders] by (simp add: rtranclp.rtrancl_into_rtrancl)
  moreover have "rt_pending (rt_record ?r) = None \<and> rt_next (rt_record ?r) = 2"
    by (simp add: rt_record_def rt_delivered_def rt_sending_def Let_def sample_sent_fields)
  ultimately show ?thesis by blast
qed

lemma settled_read: "q_read sample_host 2 most bytes settled_queue = (Inr [], settled_queue)"
proof -
  have "read_segments l frm most bytes a ups t q = (Inr t, q)" if "\<forall>(s, u) \<in> set ups. u \<le> frm" for l frm a ups t q
    using that by (induction ups) auto
  moreover have "u \<le> 2" if "(s, u) \<in> set (uppers 2 (q_segments settled_queue))" for s u
    using uppers_member(3) [OF that] wf_queueD(5,6) [OF settled_fields(5)] settled_fields(4) by simp
  ultimately have "read_segments l 2 most bytes a (uppers 2 (q_segments settled_queue)) t q = (Inr t, q)" for l a t q
    by blast
  then show ?thesis
    by (simp add: q_read_def q_expireDue_def settled_fields nothing_taken_def q_settleLost_def)
qed

end
