(* ===== verification/Update_Version.thy ===== *)
theory Update_Version
  imports Strings
begin

text \<open>
  Release names, \<open>internal/update/version.go\<close>: parsing a semantic version and comparing two by
  precedence. The lemmas show that the comparison is a total order, that what it takes for equal is
  equal but for build metadata, and that a version that parses is printed as it was read.
\<close>

definition MaxVersionLength :: nat where "MaxVersionLength = 128"

record Version =
  major :: u64
  minor :: u64
  patch :: u64
  prerelease :: "string list"
  vtext :: string

section \<open>Parsing\<close>

definition numeric :: "string \<Rightarrow> u64 option" where
  "numeric part =
     (if part = [] \<or> (length part > 1 \<and> hd part = CHR ''0'') \<or> \<not> list_all is_digit part then None
      else ParseUint part)"

definition is_identifier :: "char \<Rightarrow> bool" where
  "is_identifier c \<longleftrightarrow> is_digit c \<or> c = CHR ''-''
     \<or> 97 \<le> (of_char c :: nat) \<and> (of_char c :: nat) \<le> 122
     \<or> 65 \<le> (of_char c :: nat) \<and> (of_char c :: nat) \<le> 90"

definition identifiers :: "string \<Rightarrow> bool \<Rightarrow> bool" where
  "identifiers dotted ordered \<longleftrightarrow>
     list_all (\<lambda>i. \<not> (i = [] \<or> \<not> list_all is_identifier i)
        \<and> \<not> (ordered \<and> length i > 1 \<and> hd i = CHR ''0'' \<and> list_all is_digit i)) (Split CHR ''.'' dotted)"

definition ParseVersion :: "string \<Rightarrow> Version option" where
  "ParseVersion text =
     (if length text > MaxVersionLength \<or> text = [] \<or> hd text \<noteq> CHR ''v'' then None
      else case Cut CHR ''+'' (tl text) of (rest, build, built) \<Rightarrow>
        if built \<and> \<not> identifiers build False then None
        else case Cut CHR ''-'' rest of (core, pre, released) \<Rightarrow>
          if released \<and> \<not> identifiers pre True then None
          else (case Split CHR ''.'' core of
             [a, b, c] \<Rightarrow>
               (case (numeric a, numeric b, numeric c) of
                  (Some x, Some y, Some z) \<Rightarrow>
                    Some \<lparr>major = x, minor = y, patch = z,
                          prerelease = (if released then Split CHR ''.'' pre else []), vtext = text\<rparr>
                | _ \<Rightarrow> None)
           | _ \<Rightarrow> None))"

definition Version_String :: "Version \<Rightarrow> string" where
  "Version_String v = vtext v"

section \<open>Comparing\<close>

definition compareNumbers :: "u64 \<Rightarrow> u64 \<Rightarrow> int" where
  "compareNumbers left right = (if left < right then -1 else if left > right then 1 else 0)"

definition compareIdentifiers :: "string \<Rightarrow> string \<Rightarrow> int" where
  "compareIdentifiers left right =
     (case (numeric left, numeric right) of
        (Some l, Some r) \<Rightarrow> compareNumbers l r
      | (Some _, None) \<Rightarrow> -1
      | (None, Some _) \<Rightarrow> 1
      | (None, None) \<Rightarrow> str_Compare left right)"

text \<open>The loop over the pre-release identifiers and what follows it.\<close>

fun comparePrerelease :: "string list \<Rightarrow> string list \<Rightarrow> string list \<Rightarrow> string list \<Rightarrow> int" where
  "comparePrerelease v w (x # xs) (y # ys) =
     (if compareIdentifiers x y \<noteq> 0 then compareIdentifiers x y else comparePrerelease v w xs ys)"
| "comparePrerelease v w _ _ = compareNumbers (of_nat (length v)) (of_nat (length w))"

definition Version_Compare :: "Version \<Rightarrow> Version \<Rightarrow> int" where
  "Version_Compare v other =
     (if major v \<noteq> major other then compareNumbers (major v) (major other)
      else if minor v \<noteq> minor other then compareNumbers (minor v) (minor other)
      else if patch v \<noteq> patch other then compareNumbers (patch v) (patch other)
      else if prerelease v = [] \<and> prerelease other = [] then 0
      else if prerelease v = [] then 1
      else if prerelease other = [] then -1
      else comparePrerelease (prerelease v) (prerelease other) (prerelease v) (prerelease other))"

section \<open>A total order\<close>

lemma numeric_inj:
  assumes "numeric a = Some n" "numeric b = Some n"
  shows "a = b"
proof (rule digits_value_inj)
  have parsed: "digits_value x = unat n" if "numeric x = Some n" for x
    using that by (auto simp: numeric_def ParseUint_def unat_of_nat split: if_splits)
  then show "digits_value a = digits_value b" using assms by simp
qed (use assms in \<open>auto simp: numeric_def split: if_splits\<close>)

interpretation numbers: comparison compareNumbers
  by unfold_locales (auto simp: compareNumbers_def split: if_splits)

lemma compareNumbers_0: "compareNumbers a b = 0 \<longleftrightarrow> a = b"
  by (auto simp: compareNumbers_def)

interpretation ids: comparison compareIdentifiers
proof
  fix x y z
  show "compareIdentifiers x y = -1 \<or> compareIdentifiers x y = 0 \<or> compareIdentifiers x y = 1"
    using numbers.sign [of "the (numeric x)" "the (numeric y)"] str.sign [of x y]
    by (cases "numeric x"; cases "numeric y") (simp_all add: compareIdentifiers_def)
  show "compareIdentifiers y x = - compareIdentifiers x y"
    using numbers.flip [of "the (numeric y)" "the (numeric x)"] str.flip [of y x]
    by (cases "numeric x"; cases "numeric y") (simp_all add: compareIdentifiers_def)
  show "compareIdentifiers x y \<le> 0 \<Longrightarrow> compareIdentifiers y z \<le> 0 \<Longrightarrow> compareIdentifiers x z \<le> 0"
    using numbers.le_trans [of "the (numeric x)" "the (numeric y)" "the (numeric z)"] str.le_trans [of x y z]
    by (cases "numeric x"; cases "numeric y"; cases "numeric z") (simp_all add: compareIdentifiers_def)
qed

lemma compareIdentifiers_0: "compareIdentifiers x y = 0 \<longleftrightarrow> x = y"
  using numeric_inj by (auto simp: compareIdentifiers_def compareNumbers_0 str_Compare_0 split: option.splits)

text \<open>
  A numeric identifier that does not fit in 64 bits is compared as text, where semantic versioning
  compares it as a number: twenty nines come after a one with twenty zeros.
\<close>

lemma large_identifiers_as_text:
  "numeric ''100000000000000000000'' = None" "numeric ''99999999999999999999'' = None"
  "compareIdentifiers ''99999999999999999999'' ''100000000000000000000'' = 1"
proof -
  show n: "numeric ''100000000000000000000'' = None" "numeric ''99999999999999999999'' = None"
    by (simp_all add: numeric_def ParseUint_def digits_value_def)
  show "compareIdentifiers ''99999999999999999999'' ''100000000000000000000'' = 1"
    by (simp add: compareIdentifiers_def n)
qed

section \<open>Precedence\<close>

text \<open>
  The order semantic versioning gives: by the three numbers, then a release after its pre-releases,
  then by the identifiers in turn, where a list that ends first comes first.
\<close>

fun lex_order :: "string list \<Rightarrow> string list \<Rightarrow> int" where
  "lex_order [] [] = 0"
| "lex_order [] (y # ys) = -1"
| "lex_order (x # xs) [] = 1"
| "lex_order (x # xs) (y # ys) =
     (if compareIdentifiers x y \<noteq> 0 then compareIdentifiers x y else lex_order xs ys)"

definition pre_order :: "string list \<Rightarrow> string list \<Rightarrow> int" where
  "pre_order xs ys =
     (if xs = [] \<and> ys = [] then 0 else if xs = [] then 1 else if ys = [] then -1 else lex_order xs ys)"

definition precedence :: "Version \<Rightarrow> Version \<Rightarrow> int" where
  "precedence =
     compare_then (compare_on major compareNumbers)
       (compare_then (compare_on minor compareNumbers)
         (compare_then (compare_on patch compareNumbers) (compare_on prerelease pre_order)))"

interpretation lex: comparison lex_order
proof
  fix x y z
  show "lex_order x y = -1 \<or> lex_order x y = 0 \<or> lex_order x y = 1"
  proof (induction x y rule: lex_order.induct)
    case (4 a as b bs)
    then show ?case using ids.sign [of a b] by auto
  qed auto
  show "lex_order y x = - lex_order x y"
  proof (induction x y rule: lex_order.induct)
    case (4 a as b bs)
    then show ?case using ids.flip [of b a] by simp
  qed auto
  show "lex_order x y \<le> 0 \<Longrightarrow> lex_order y z \<le> 0 \<Longrightarrow> lex_order x z \<le> 0"
  proof (induction x y arbitrary: z rule: lex_order.induct)
    case (2 b bs)
    then show ?case by (cases z) auto
  next
    case (4 a as b bs)
    then obtain c cs where z: "z = c # cs" by (cases z) auto
    show ?case
      using 4 ids.less_le_trans [of a b c] ids.le_less_trans [of a b c] ids.equal_trans [of a b c]
      unfolding z by (auto split: if_splits)
  qed auto
qed

lemma lex_order_0: "lex_order x y = 0 \<longleftrightarrow> x = y"
  by (induction x y rule: lex_order.induct) (auto simp: compareIdentifiers_0)

interpretation pre: comparison pre_order
proof
  fix x y z
  show "pre_order x y = -1 \<or> pre_order x y = 0 \<or> pre_order x y = 1"
    using lex.sign [of x y] by (simp add: pre_order_def)
  show "pre_order y x = - pre_order x y"
    using lex.flip [of y x] by (simp add: pre_order_def)
  show "pre_order x y \<le> 0 \<Longrightarrow> pre_order y z \<le> 0 \<Longrightarrow> pre_order x z \<le> 0"
    using lex.le_trans [of x y z] by (auto simp: pre_order_def split: if_splits)
qed

interpretation precedes: comparison precedence
  unfolding precedence_def
  by (intro comparison_then comparison_on numbers.comparison_axioms pre.comparison_axioms)

lemma precedence_0:
  "precedence v w = 0 \<longleftrightarrow>
     major v = major w \<and> minor v = minor w \<and> patch v = patch w \<and> prerelease v = prerelease w"
  by (auto simp: precedence_def compare_then_def compare_on_def compareNumbers_0 pre_order_def lex_order_0)

lemma comparePrerelease_eq:
  assumes "length v < 2 ^ 64" "length w < 2 ^ 64" "length v + length ys = length w + length xs"
    "length xs \<le> length v" "length ys \<le> length w"
  shows "comparePrerelease v w xs ys = lex_order xs ys"
proof -
  have len: "compareNumbers (of_nat (length v)) (of_nat (length w))
      = (if length v < length w then -1 else if length w < length v then 1 else 0)"
    using assms(1,2) by (simp add: compareNumbers_def word_less_nat_alt unat_of_nat)
  show ?thesis
    using assms(3-5)
  proof (induction xs ys rule: lex_order.induct)
    case (4 x xs y ys)
    then show ?case by simp
  qed (simp_all only: comparePrerelease.simps lex_order.simps len, auto)
qed

lemma Version_Compare_precedence:
  assumes "length (prerelease v) < 2 ^ 64" "length (prerelease w) < 2 ^ 64"
  shows "Version_Compare v w = precedence v w"
  using comparePrerelease_eq [OF assms, of "prerelease w" "prerelease v"] assms
  by (auto simp: Version_Compare_def precedence_def compare_then_def compare_on_def compareNumbers_0 pre_order_def)

section \<open>What parses\<close>

lemma length_Split: "length (Split sep s) \<le> length s + 1"
  by (induction s) (auto split: list.splits)

lemma ParseVersion_Some:
  assumes "ParseVersion text = Some v"
  shows "vtext v = text" "length text \<le> 128" "length (prerelease v) < 2 ^ 64"
    "\<forall>i \<in> set (prerelease v). i \<noteq> [] \<and> list_all is_identifier i"
    "hd text = CHR ''v''"
proof -
  obtain rest build built where c1: "Cut CHR ''+'' (tl text) = (rest, build, built)"
    by (cases "Cut CHR ''+'' (tl text)") auto
  obtain core pre released where c2: "Cut CHR ''-'' rest = (core, pre, released)"
    by (cases "Cut CHR ''-'' rest") auto
  have len: "length text \<le> 128" "text \<noteq> []" "hd text = CHR ''v''"
    using assms by (auto simp: ParseVersion_def MaxVersionLength_def split: if_splits)
  have v: "vtext v = text \<and> prerelease v = (if released then Split CHR ''.'' pre else [])
      \<and> (released \<longrightarrow> identifiers pre True)"
    using assms c1 c2
    by (auto simp: ParseVersion_def split: if_splits list.splits option.splits)
  show "vtext v = text" "length text \<le> 128" "hd text = CHR ''v''" using v len by simp_all
  have "length rest \<le> length (tl text)" "length pre \<le> length rest"
    using Cut_spec(2,3) [OF c1] Cut_spec(2,3) [OF c2] by (cases built; cases released; auto)+
  then show "length (prerelease v) < 2 ^ 64"
    using v length_Split [of "CHR ''.''" pre] len(1) by auto
  show "\<forall>i \<in> set (prerelease v). i \<noteq> [] \<and> list_all is_identifier i"
    using v by (auto simp: identifiers_def list_all_iff)
qed

end
