(* ===== verification/Update_Trust.thy ===== *)
theory Update_Trust
  imports Update_Version "HOL-Library.List_Lexorder" "HOL-Library.Char_ord"
begin

text \<open>
  Whose word the agent takes for a release: the envelopes of \<open>internal/update/update.go\<close>, the chain
  of roots of \<open>root.go\<close>, the catalogs of \<open>catalog.go\<close> and the encoding of \<open>internal/dsse\<close> that a
  signature covers. The messages are those of the contracts package, with a field the sources read
  through a getter as a field of a record; a nil message is the zero record, as its getters return,
  and a pointer whose absence the sources test is an option. A timestamp that is missing or not
  valid is \<open>None\<close>.

  What is not part of the repository is a parameter: the digest, the signature check, the parser of
  public keys, and the decoding and encoding of messages. A decoder answers with the message and
  whether it, or a message in it, holds fields it does not know, which is what \<open>known\<close> looks for.
\<close>

section \<open>Messages\<close>

record Envelope =
  ev_type :: string
  ev_payload :: "byte list"
  ev_signatures :: "byte list list"

record Key_msg =
  ky_id :: string
  ky_public :: "byte list"

record Role =
  rl_keyids :: "string list"
  rl_threshold :: u32

record Root_msg =
  rm_schema :: u32
  rm_version :: u64
  rm_issued :: "time option"
  rm_expires :: "time option"
  rm_keys :: "Key_msg list"
  rm_root :: "Role option"
  rm_catalog :: "Role option"

record Release =
  rs_version :: string
  rs_os :: string
  rs_architecture :: string
  rs_format :: int
  rs_sha256 :: "byte list"
  rs_size :: u64
  rs_repository :: string
  rs_revision :: string
  rs_minimum :: string
  rs_generation :: u32
  rs_replaces :: "string list"

record Catalog_msg =
  cm_schema :: u32
  cm_version :: u64
  cm_issued :: "time option"
  cm_expires :: "time option"
  cm_releases :: "Release list"

record 'k outside =
  Sum256 :: "byte list \<Rightarrow> byte list"
  VerifyASN1 :: "'k \<Rightarrow> byte list \<Rightarrow> byte list \<Rightarrow> bool"
  ParsePublicKey :: "byte list \<Rightarrow> 'k option"
  DecodeEnvelope :: "byte list \<Rightarrow> Envelope option"
  MarshalEnvelope :: "Envelope \<Rightarrow> byte list option"
  DecodeRootMsg :: "byte list \<Rightarrow> (Root_msg \<times> bool) option"
  DecodeCatalogMsg :: "byte list \<Rightarrow> (Catalog_msg \<times> bool) option"
  Format_named :: "int \<Rightarrow> bool"

record 'k Root =
  ro_msg :: Root_msg
  ro_served :: "byte list"
  ro_keys :: "string \<rightharpoonup> 'k"

record Catalog =
  ca_msg :: Catalog_msg
  ca_served :: "byte list"

datatype update_sentinel =
  Unsigned | Malformed | Run_out | Stale_metadata | Bad_root | Not_installable | Not_verified
| Store_damaged | Store_newer

type_synonym update_error = "update_sentinel err"

section \<open>Limits\<close>

definition SchemaVersion :: u32 where "SchemaVersion = 1"
definition MaxUpdatePayload :: nat where "MaxUpdatePayload = 2 ^ 20"
definition MaxEnvelopeBytes :: nat where "MaxEnvelopeBytes = 2 ^ 20 + 16 * 2 ^ 10"
definition MaxSignatures :: nat where "MaxSignatures = 16"
definition MaxKeys :: nat where "MaxKeys = 16"
definition MaxRoleKeys :: nat where "MaxRoleKeys = 8"
definition MaxReleases :: nat where "MaxReleases = 256"
definition MaxReplaced :: nat where "MaxReplaced = 16"
definition MaxPackageBytes :: nat where "MaxPackageBytes = 256 * 2 ^ 20"
definition MaxPlatformLength :: nat where "MaxPlatformLength = 32"
definition MaxRepositoryLength :: nat where "MaxRepositoryLength = 256"
definition MaxLifetime :: duration where "MaxLifetime = 366 * 24 * Hour"
definition MaxAhead :: duration where "MaxAhead = 5 * Minute"

definition RootPayloadType :: string where
  "RootPayloadType = ''application/vnd.seagull.update.v1.root+protobuf''"

definition CatalogPayloadType :: string where
  "CatalogPayloadType = ''application/vnd.seagull.update.v1.catalog+protobuf''"

section \<open>Signatures\<close>

definition str_bytes :: "string \<Rightarrow> byte list" where
  "str_bytes s = map (\<lambda>c. of_nat (of_char c)) s"

definition PAE :: "string \<Rightarrow> byte list \<Rightarrow> byte list" where
  "PAE payloadType payload =
     str_bytes (''DSSEv1 '' @ FormatNat (length payloadType) @ '' '' @ payloadType @ '' ''
       @ FormatNat (length payload) @ '' '') @ payload"

definition KeyID :: "'k outside \<Rightarrow> byte list \<Rightarrow> string" where
  "KeyID out der = EncodeToString (Sum256 out der)"

text \<open>The inner loop of \<open>signedBy\<close>, over the keys of the role for one signature.\<close>

fun signed_ids ::
  "'k outside \<Rightarrow> (string \<rightharpoonup> 'k) \<Rightarrow> byte list \<Rightarrow> byte list \<Rightarrow> string list \<Rightarrow> string list \<Rightarrow> string list" where
  "signed_ids out keys digest sig [] got = got"
| "signed_ids out keys digest sig (i # ids) got =
     signed_ids out keys digest sig ids
       (case keys i of
          Some key \<Rightarrow>
            if i \<notin> set got \<and> VerifyASN1 out key digest sig then got @ [i] else got
        | None \<Rightarrow> got)"

definition signedBy ::
  "'k outside \<Rightarrow> (string \<rightharpoonup> 'k) \<Rightarrow> Role \<Rightarrow> string \<Rightarrow> Envelope \<Rightarrow> update_error + string list" where
  "signedBy out keys role payloadType envelope =
     (if ev_type envelope \<noteq> payloadType then Inl [Malformed]
      else if ev_payload envelope = [] \<or> length (ev_payload envelope) > MaxUpdatePayload then Inl [Malformed]
      else if ev_signatures envelope = [] then Inl [Unsigned]
      else if length (ev_signatures envelope) > MaxSignatures then Inl [Malformed]
      else
        let digest = Sum256 out (PAE payloadType (ev_payload envelope));
            got = foldl (\<lambda>got sig. signed_ids out keys digest sig (rl_keyids role) got) []
                       (ev_signatures envelope)
        in if (of_nat (length got) :: u32) < rl_threshold role then Inl [Unsigned]
           else Inr (sort got))"

definition encode_envelope :: "'k outside \<Rightarrow> Envelope \<Rightarrow> update_error + byte list" where
  "encode_envelope out envelope =
     (case MarshalEnvelope out envelope of
        None \<Rightarrow> Inl [Malformed]
      | Some served \<Rightarrow> if length served > MaxEnvelopeBytes then Inl [Malformed] else Inr served)"

definition decode_envelope :: "'k outside \<Rightarrow> byte list \<Rightarrow> update_error + Envelope" where
  "decode_envelope out served =
     (if length served > MaxEnvelopeBytes then Inl [Malformed]
      else case DecodeEnvelope out served of None \<Rightarrow> Inl [Malformed] | Some e \<Rightarrow> Inr e)"

section \<open>Roots\<close>

definition Root_Version :: "'k Root \<Rightarrow> u64" where
  "Root_Version r = rm_version (ro_msg r)"

definition Root_ExpiresAt :: "'k Root \<Rightarrow> time" where
  "Root_ExpiresAt r = (case rm_expires (ro_msg r) of None \<Rightarrow> 0 | Some t \<Rightarrow> t)"

definition Root_Expired :: "'k Root \<Rightarrow> time \<Rightarrow> bool" where
  "Root_Expired r at_time \<longleftrightarrow> \<not> at_time < Root_ExpiresAt r"

definition lifetime :: "time option \<Rightarrow> time option \<Rightarrow> time \<Rightarrow> update_error option" where
  "lifetime issued expires now =
     (case issued of
        None \<Rightarrow> Some [Malformed]
      | Some i \<Rightarrow>
          (case expires of
             None \<Rightarrow> Some [Malformed]
           | Some e \<Rightarrow>
               if i > now + MaxAhead then Some [Malformed]
               else if \<not> e > i then Some [Malformed]
               else if e - i > MaxLifetime then Some [Malformed]
               else None))"

fun publicKeys_each :: "'k outside \<Rightarrow> Key_msg list \<Rightarrow> (string \<rightharpoonup> 'k) \<Rightarrow> update_error + (string \<rightharpoonup> 'k)" where
  "publicKeys_each out [] keys = Inr keys"
| "publicKeys_each out (key # rest) keys =
     (if ky_id key \<noteq> KeyID out (ky_public key) then Inl [Malformed]
      else if keys (ky_id key) \<noteq> None then Inl [Malformed]
      else case ParsePublicKey out (ky_public key) of
             None \<Rightarrow> Inl [Malformed]
           | Some public \<Rightarrow> publicKeys_each out rest (keys(ky_id key \<mapsto> public)))"

definition publicKeys :: "'k outside \<Rightarrow> Key_msg list \<Rightarrow> update_error + (string \<rightharpoonup> 'k)" where
  "publicKeys out named =
     (if named = [] \<or> length named > MaxKeys then Inl [Malformed]
      else publicKeys_each out named Map.empty)"

fun role_ids :: "(string \<rightharpoonup> 'k) \<Rightarrow> string list \<Rightarrow> string list \<Rightarrow> update_error option" where
  "role_ids keys before [] = None"
| "role_ids keys before (i # ids) =
     (if keys i = None then Some [Malformed]
      else if i \<in> set before then Some [Malformed]
      else role_ids keys (before @ [i]) ids)"

definition role_check :: "Role option \<Rightarrow> (string \<rightharpoonup> 'k) \<Rightarrow> update_error option" where
  "role_check held keys =
     (case held of
        None \<Rightarrow> Some [Malformed]
      | Some r \<Rightarrow>
          if rl_keyids r = [] \<or> length (rl_keyids r) > MaxRoleKeys then Some [Malformed]
          else if rl_threshold r = 0 \<or> rl_threshold r > of_nat (length (rl_keyids r)) then Some [Malformed]
          else role_ids keys [] (rl_keyids r))"

text \<open>The two roles are checked in the order a map is walked in, which is any; both fail alike.\<close>

definition decodeRoot ::
  "'k outside \<Rightarrow> byte list \<Rightarrow> time \<Rightarrow> update_error + Root_msg \<times> (string \<rightharpoonup> 'k)" where
  "decodeRoot out payload now =
     (case DecodeRootMsg out payload of
        None \<Rightarrow> Inl [Malformed]
      | Some (root, unknown) \<Rightarrow>
          if unknown then Inl [Malformed]
          else if rm_schema root \<noteq> SchemaVersion then Inl [Malformed]
          else if rm_version root = 0 then Inl [Malformed]
          else (case lifetime (rm_issued root) (rm_expires root) now of
             Some err \<Rightarrow> Inl err
           | None \<Rightarrow>
               (case publicKeys out (rm_keys root) of
                  Inl err \<Rightarrow> Inl err
                | Inr keys \<Rightarrow>
                    (case role_check (rm_root root) keys of
                       Some err \<Rightarrow> Inl err
                     | None \<Rightarrow>
                         (case role_check (rm_catalog root) keys of
                            Some err \<Rightarrow> Inl err
                          | None \<Rightarrow> Inr (root, keys))))))"

text \<open>A role that is nil has no key and needs no signature; \<open>decodeRoot\<close> lets none through.\<close>

definition the_role :: "Role option \<Rightarrow> Role" where
  "the_role r = (case r of None \<Rightarrow> \<lparr>rl_keyids = [], rl_threshold = 0\<rparr> | Some r \<Rightarrow> r)"

definition Anchor :: "'k outside \<Rightarrow> byte list \<Rightarrow> time \<Rightarrow> update_error + 'k Root" where
  "Anchor out served now =
     (case decode_envelope out served of
        Inl err \<Rightarrow> Inl [Bad_root]
      | Inr envelope \<Rightarrow>
          if ev_type envelope \<noteq> RootPayloadType then Inl [Bad_root]
          else (case decodeRoot out (ev_payload envelope) now of
             Inl err \<Rightarrow> Inl [Bad_root]
           | Inr (root, keys) \<Rightarrow>
               (case signedBy out keys (the_role (rm_root root)) RootPayloadType envelope of
                  Inl err \<Rightarrow> Inl [Bad_root]
                | Inr _ \<Rightarrow>
                    (case encode_envelope out envelope of
                       Inl err \<Rightarrow> Inl [Bad_root]
                     | Inr kept \<Rightarrow> Inr \<lparr>ro_msg = root, ro_served = kept, ro_keys = keys\<rparr>))))"

definition Root_Next :: "'k outside \<Rightarrow> 'k Root \<Rightarrow> Envelope \<Rightarrow> time \<Rightarrow> update_error + 'k Root" where
  "Root_Next out r envelope now =
     (case signedBy out (ro_keys r) (the_role (rm_root (ro_msg r))) RootPayloadType envelope of
        Inl err \<Rightarrow> Inl err
      | Inr _ \<Rightarrow>
          (case decodeRoot out (ev_payload envelope) now of
             Inl err \<Rightarrow> Inl err
           | Inr (root, keys) \<Rightarrow>
               if rm_version root \<le> Root_Version r then Inl [Stale_metadata]
               else if rm_version root \<noteq> Root_Version r + 1 then Inl [Malformed]
               else (case signedBy out keys (the_role (rm_root root)) RootPayloadType envelope of
                  Inl err \<Rightarrow> Inl err
                | Inr _ \<Rightarrow>
                    (case encode_envelope out envelope of
                       Inl err \<Rightarrow> Inl err
                     | Inr kept \<Rightarrow> Inr \<lparr>ro_msg = root, ro_served = kept, ro_keys = keys\<rparr>))))"

fun Root_Walk :: "'k outside \<Rightarrow> 'k Root \<Rightarrow> Envelope list \<Rightarrow> time \<Rightarrow> 'k Root" where
  "Root_Walk out current [] now = current"
| "Root_Walk out current (envelope # rest) now =
     (case Root_Next out current envelope now of
        Inr root \<Rightarrow> Root_Walk out root rest now
      | Inl _ \<Rightarrow> Root_Walk out current rest now)"

section \<open>Catalogs\<close>

definition Catalog_Version :: "Catalog \<Rightarrow> u64" where
  "Catalog_Version c = cm_version (ca_msg c)"

definition Catalog_ExpiresAt :: "Catalog \<Rightarrow> time" where
  "Catalog_ExpiresAt c = (case cm_expires (ca_msg c) of None \<Rightarrow> 0 | Some t \<Rightarrow> t)"

definition Catalog_Expired :: "Catalog \<Rightarrow> time \<Rightarrow> bool" where
  "Catalog_Expired c at_time \<longleftrightarrow> \<not> at_time < Catalog_ExpiresAt c"

definition Catalog_Release :: "Catalog \<Rightarrow> string \<Rightarrow> string \<Rightarrow> string \<Rightarrow> int \<Rightarrow> Release option" where
  "Catalog_Release c version os architecture format =
     find (\<lambda>r. rs_version r = version \<and> rs_os r = os \<and> rs_architecture r = architecture \<and> rs_format r = format)
       (cm_releases (ca_msg c))"

definition is_lower_or_digit :: "char \<Rightarrow> bool" where
  "is_lower_or_digit c \<longleftrightarrow> is_digit c \<or> 97 \<le> (of_char c :: nat) \<and> (of_char c :: nat) \<le> 122"

definition platformName :: "string \<Rightarrow> bool" where
  "platformName name \<longleftrightarrow> name \<noteq> [] \<and> length name \<le> MaxPlatformLength \<and> list_all is_lower_or_digit name"

text \<open>\<open>hex.DecodeString\<close> and back again is the same text only for lowercase digits.\<close>

definition revision :: "string \<Rightarrow> bool" where
  "revision value \<longleftrightarrow> (length value = 40 \<or> length value = 64) \<and> list_all is_hex value"

fun replaces_ok :: "Version \<Rightarrow> string list \<Rightarrow> string list \<Rightarrow> bool" where
  "replaces_ok version before [] = True"
| "replaces_ok version before (named # rest) =
     (case ParseVersion named of
        None \<Rightarrow> False
      | Some later \<Rightarrow>
          \<not> Version_Compare later version \<le> 0 \<and> named \<notin> set before \<and> replaces_ok version (before @ [named]) rest)"

definition validateRelease :: "'k outside \<Rightarrow> Release \<Rightarrow> update_error option" where
  "validateRelease out release =
     (case ParseVersion (rs_version release) of
        None \<Rightarrow> Some [Malformed]
      | Some version \<Rightarrow>
          if \<not> platformName (rs_os release) \<or> \<not> platformName (rs_architecture release)
             \<or> rs_format release = 0 \<or> \<not> Format_named out (rs_format release)
             \<or> length (rs_sha256 release) \<noteq> 32
             \<or> rs_size release = 0 \<or> rs_size release > of_nat MaxPackageBytes
             \<or> rs_repository release = [] \<or> length (rs_repository release) > MaxRepositoryLength
             \<or> \<not> revision (rs_revision release)
             \<or> rs_generation release = 0
             \<or> length (rs_replaces release) > MaxReplaced
          then Some [Malformed]
          else if rs_minimum release \<noteq> [] \<and>
             (case ParseVersion (rs_minimum release) of
                None \<Rightarrow> True | Some oldest \<Rightarrow> Version_Compare oldest version > 0)
          then Some [Malformed]
          else if \<not> replaces_ok version [] (rs_replaces release) then Some [Malformed]
          else None)"

text \<open>What names a release in \<open>seen\<close>, from parts that hold no space and no slash.\<close>

definition release_name :: "Release \<Rightarrow> string \<times> string \<times> string \<times> int" where
  "release_name r = (rs_version r, rs_os r, rs_architecture r, rs_format r)"

fun validate_each ::
  "'k outside \<Rightarrow> Release list \<Rightarrow> (string \<times> string \<times> string \<times> int) list \<Rightarrow> update_error option" where
  "validate_each out [] seen = None"
| "validate_each out (release # rest) seen =
     (case validateRelease out release of
        Some err \<Rightarrow> Some err
      | None \<Rightarrow>
          if release_name release \<in> set seen then Some [Malformed]
          else validate_each out rest (release_name release # seen))"

definition validateCatalog :: "'k outside \<Rightarrow> Catalog_msg \<Rightarrow> time \<Rightarrow> update_error option" where
  "validateCatalog out catalog now =
     (if cm_schema catalog \<noteq> SchemaVersion then Some [Malformed]
      else if cm_version catalog = 0 then Some [Malformed]
      else if length (cm_releases catalog) > MaxReleases then Some [Malformed]
      else case lifetime (cm_issued catalog) (cm_expires catalog) now of
             Some err \<Rightarrow> Some err
           | None \<Rightarrow> validate_each out (cm_releases catalog) [])"

definition Root_Catalog :: "'k outside \<Rightarrow> 'k Root \<Rightarrow> Envelope \<Rightarrow> time \<Rightarrow> update_error + Catalog" where
  "Root_Catalog out r envelope now =
     (case signedBy out (ro_keys r) (the_role (rm_catalog (ro_msg r))) CatalogPayloadType envelope of
        Inl err \<Rightarrow> Inl err
      | Inr _ \<Rightarrow>
          (case DecodeCatalogMsg out (ev_payload envelope) of
             None \<Rightarrow> Inl [Malformed]
           | Some (catalog, unknown) \<Rightarrow>
               if unknown then Inl [Malformed]
               else (case validateCatalog out catalog now of
                  Some err \<Rightarrow> Inl err
                | None \<Rightarrow>
                    (case encode_envelope out envelope of
                       Inl err \<Rightarrow> Inl err
                     | Inr kept \<Rightarrow> Inr \<lparr>ca_msg = catalog, ca_served = kept\<rparr>))))"

section \<open>What a signature covers\<close>

lemma byte_of_char_inj: "(of_nat (of_char c) :: byte) = of_nat (of_char d) \<longleftrightarrow> c = d"
proof
  assume "(of_nat (of_char c) :: byte) = of_nat (of_char d)"
  then have "unat (of_nat (of_char c) :: byte) = unat (of_nat (of_char d) :: byte)" by simp
  then show "c = d" by (simp add: unat_of_nat)
qed simp

lemma str_bytes_simps [simp]:
  "str_bytes [] = []" "str_bytes (c # s) = of_nat (of_char c) # str_bytes s"
  "str_bytes (s @ t) = str_bytes s @ str_bytes t" "length (str_bytes s) = length s"
  "str_bytes s = str_bytes t \<longleftrightarrow> s = t"
proof -
  show "str_bytes s = str_bytes t \<longleftrightarrow> s = t"
  proof (induction s arbitrary: t)
    case (Cons c s)
    then show ?case by (cases t) (auto simp: str_bytes_def byte_of_char_inj)
  qed (auto simp: str_bytes_def)
qed (simp_all add: str_bytes_def)

lemma str_bytes_mem: "of_nat (of_char c) \<in> set (str_bytes s) \<longleftrightarrow> c \<in> set s"
  by (induction s) (auto simp: byte_of_char_inj)

lemma split_at_first:
  assumes "a @ x # r = b @ x # s" "x \<notin> set a" "x \<notin> set b"
  shows "a = b \<and> r = s"
  using assms
proof (induction a arbitrary: b)
  case Nil
  then show ?case by (cases b) auto
next
  case (Cons y a)
  then show ?case by (cases b) auto
qed

lemma digits_no_space: "CHR '' '' \<notin> set (FormatNat n)"
  using FormatNat_digits [of n] by (auto simp: list_all_iff is_digit_def)

lemma length_then_space:
  assumes "str_bytes (FormatNat m) @ str_bytes '' '' @ r = str_bytes (FormatNat n) @ str_bytes '' '' @ s"
  shows "m = n \<and> r = s"
proof -
  define b :: byte where "b = of_nat (of_char CHR '' '')"
  have "b \<notin> set (str_bytes (FormatNat k))" for k
    using digits_no_space [of k] unfolding b_def str_bytes_mem .
  then show ?thesis
    using split_at_first [of "str_bytes (FormatNat m)" b r "str_bytes (FormatNat n)" s] assms by (simp add: b_def)
qed

lemma PAE_inj:
  assumes "PAE t p = PAE t' p'"
  shows "t = t' \<and> p = p'"
proof -
  have "str_bytes (FormatNat (length t)) @ str_bytes '' '' @ (str_bytes t @ str_bytes '' '' @ str_bytes (FormatNat (length p)) @ str_bytes '' '' @ p)
      = str_bytes (FormatNat (length t')) @ str_bytes '' '' @ (str_bytes t' @ str_bytes '' '' @ str_bytes (FormatNat (length p')) @ str_bytes '' '' @ p')"
    using assms unfolding PAE_def by simp
  from length_then_space [OF this]
  have l: "length t = length t'"
    "str_bytes t @ str_bytes '' '' @ str_bytes (FormatNat (length p)) @ str_bytes '' '' @ p
     = str_bytes t' @ str_bytes '' '' @ str_bytes (FormatNat (length p')) @ str_bytes '' '' @ p'"
    by simp_all
  then have "str_bytes t = str_bytes t'"
    "str_bytes (FormatNat (length p)) @ str_bytes '' '' @ p = str_bytes (FormatNat (length p')) @ str_bytes '' '' @ p'"
    by simp_all
  with length_then_space [OF this(2)] show ?thesis by simp
qed

end
