(* ===== verification/Update_Judge.thy ===== *)
theory Update_Judge
  imports Update_Trust
begin

text \<open>
  What an offer asks of the agent, \<open>internal/update/judge.go\<close>, and what is kept of it, the step that
  \<open>follow.go\<close> and \<open>install.go\<close> share: the newest root and the catalog that were verified.
\<close>

record Offer =
  of_roots :: "Envelope list"
  of_version :: string
  of_catalog :: "Envelope option"

record Running =
  ru_version :: Version
  ru_os :: string
  ru_architecture :: string
  ru_format :: int
  ru_state :: u32

record 'k Held =
  hl_root :: "'k Root"
  hl_catalog :: u64

record 'k Judgment =
  jd_root :: "'k Root"
  jd_catalog :: "Catalog option"
  jd_version :: string
  jd_target :: "Release option"
  jd_current :: "Release option"

definition Judgment_Held :: "'k Judgment \<Rightarrow> 'k Held" where
  "Judgment_Held j =
     \<lparr>hl_root = jd_root j,
      hl_catalog = (case jd_catalog j of None \<Rightarrow> 0 | Some c \<Rightarrow> Catalog_Version c)\<rparr>"

text \<open>\<open>version, _ := ParseVersion(...)\<close>: a text that does not parse is the zero version.\<close>

definition zero_version :: Version where
  "zero_version = \<lparr>major = 0, minor = 0, patch = 0, prerelease = [], vtext = []\<rparr>"

definition parsed :: "string \<Rightarrow> Version" where
  "parsed text = (case ParseVersion text of None \<Rightarrow> zero_version | Some v \<Rightarrow> v)"

text \<open>The part of \<open>Judge\<close> that decides whether a release of a verified catalog may be installed.\<close>

definition judge_release ::
  "Catalog \<Rightarrow> Running \<Rightarrow> Release option \<Rightarrow> update_error + (Release \<times> Release) option" where
  "judge_release catalog running found =
     (case found of
        None \<Rightarrow> Inl [Not_installable]
      | Some target \<Rightarrow>
          let version = parsed (rs_version target); order = Version_Compare version (ru_version running)
          in if order = 0 then Inr None
             else if order < 0 \<and> Version_String (ru_version running) \<notin> set (rs_replaces target)
             then Inl [Not_installable]
             else if order > 0 \<and> rs_minimum target \<noteq> []
                     \<and> Version_Compare (ru_version running) (parsed (rs_minimum target)) < 0
             then Inl [Not_installable]
             else if rs_generation target < ru_state running then Inl [Not_installable]
             else case Catalog_Release catalog (Version_String (ru_version running)) (ru_os running)
                         (ru_architecture running) (ru_format running) of
                    None \<Rightarrow> Inl [Not_installable]
                  | Some current \<Rightarrow> Inr (Some (target, current)))"

definition Judge ::
  "'k outside \<Rightarrow> Offer \<Rightarrow> 'k Held \<Rightarrow> Running \<Rightarrow> time \<Rightarrow> 'k Judgment \<times> update_error option" where
  "Judge out offer held running now =
     (let judged = \<lparr>jd_root = Root_Walk out (hl_root held) (of_roots offer) now, jd_catalog = None,
                    jd_version = of_version offer, jd_target = None, jd_current = None\<rparr>
      in case of_catalog offer of
           None \<Rightarrow> (judged, if jd_version judged \<noteq> [] then Some [Malformed] else None)
         | Some envelope \<Rightarrow>
             if Root_Expired (jd_root judged) now then (judged, Some [Run_out])
             else (case Root_Catalog out (jd_root judged) envelope now of
                Inl err \<Rightarrow> (judged, Some err)
              | Inr catalog \<Rightarrow>
                  if Catalog_Version catalog < hl_catalog held then (judged, Some [Stale_metadata])
                  else if Catalog_Expired catalog now then (judged, Some [Run_out])
                  else
                    let judged = judged\<lparr>jd_catalog := Some catalog\<rparr>
                    in if jd_version judged = [] \<or> jd_version judged = Version_String (ru_version running)
                       then (judged, None)
                       else case judge_release catalog running
                                   (Catalog_Release catalog (jd_version judged) (ru_os running)
                                      (ru_architecture running) (ru_format running)) of
                              Inl err \<Rightarrow> (judged, Some err)
                            | Inr None \<Rightarrow> (judged, None)
                            | Inr (Some (target, current)) \<Rightarrow>
                                (judged\<lparr>jd_target := Some target, jd_current := Some current\<rparr>, None)))"

text \<open>
  What is kept after a judgement: \<open>consider\<close> and \<open>take\<close> keep \<open>judged.Held()\<close> when it went further
  than what was held in either the root or the catalog.
\<close>

definition keep_progress :: "'k Held \<Rightarrow> 'k Judgment \<Rightarrow> 'k Held" where
  "keep_progress held judged =
     (let progressed = Judgment_Held judged
      in if Root_Version (hl_root progressed) > Root_Version (hl_root held)
            \<or> hl_catalog progressed > hl_catalog held
         then progressed else held)"

section \<open>What a signature shows\<close>

text \<open>The keys of a role that signed the payload of an envelope, as its type.\<close>

definition signers :: "'k outside \<Rightarrow> (string \<rightharpoonup> 'k) \<Rightarrow> Role \<Rightarrow> string \<Rightarrow> Envelope \<Rightarrow> string set" where
  "signers out keys role payloadType envelope =
     {i \<in> set (rl_keyids role). \<exists>key sig. keys i = Some key \<and> sig \<in> set (ev_signatures envelope)
        \<and> VerifyASN1 out key (Sum256 out (PAE payloadType (ev_payload envelope))) sig}"

lemma signed_ids_spec:
  assumes "distinct got"
  shows "distinct (signed_ids out keys d sig ids got)"
    "set (signed_ids out keys d sig ids got)
       = set got \<union> {i \<in> set ids. \<exists>key. keys i = Some key \<and> VerifyASN1 out key d sig}"
  using assms by (induction out keys d sig ids got rule: signed_ids.induct) (auto split: option.splits if_splits)

lemma signed_fold_spec:
  assumes "distinct got"
  shows "distinct (foldl (\<lambda>got sig. signed_ids out keys d sig ids got) got sigs)
    \<and> set (foldl (\<lambda>got sig. signed_ids out keys d sig ids got) got sigs)
       = set got \<union> {i \<in> set ids. \<exists>key sig. keys i = Some key \<and> sig \<in> set sigs \<and> VerifyASN1 out key d sig}"
  using assms
proof (induction sigs arbitrary: got)
  case (Cons sig sigs)
  show ?case
    using Cons.IH [OF signed_ids_spec(1) [OF Cons.prems, of out keys d sig ids]]
    unfolding signed_ids_spec(2) [OF Cons.prems] foldl_Cons by auto
qed simp

lemma signedBy_Inr:
  assumes "signedBy out keys role type envelope = Inr ids" "length (rl_keyids role) < 2 ^ 32"
  shows "unat (rl_threshold role) \<le> card (signers out keys role type envelope)"
    "set ids = signers out keys role type envelope" "distinct ids" "ev_type envelope = type"
    "ev_payload envelope \<noteq> []" "length (ev_payload envelope) \<le> MaxUpdatePayload"
proof -
  let ?got = "foldl (\<lambda>got sig. signed_ids out keys (Sum256 out (PAE type (ev_payload envelope))) sig (rl_keyids role) got)
     [] (ev_signatures envelope)"
  have s: "distinct ?got" "set ?got = signers out keys role type envelope"
    using signed_fold_spec [of "[]" out keys "Sum256 out (PAE type (ev_payload envelope))" "rl_keyids role" "ev_signatures envelope"]
    by (auto simp: signers_def)
  have i: "ids = sort ?got" "\<not> (of_nat (length ?got) :: u32) < rl_threshold role"
    using assms(1) by (auto simp: signedBy_def Let_def split: if_splits)
  show "ev_type envelope = type" "ev_payload envelope \<noteq> []" "length (ev_payload envelope) \<le> MaxUpdatePayload"
    using assms(1) by (auto simp: signedBy_def split: if_splits)
  show "set ids = signers out keys role type envelope" "distinct ids" using s i(1) by simp_all
  have c: "card (signers out keys role type envelope) = length ?got" using s by (metis distinct_card)
  have "signers out keys role type envelope \<subseteq> set (rl_keyids role)" by (auto simp: signers_def)
  then have "length ?got \<le> length (rl_keyids role)" using c card_mono [of "set (rl_keyids role)"] card_length
    by (metis List.finite_set order_trans)
  then have "unat (of_nat (length ?got) :: u32) = length ?got" using assms(2) by (simp add: unat_of_nat)
  then show "unat (rl_threshold role) \<le> card (signers out keys role type envelope)"
    using i(2) c by (simp add: word_less_nat_alt)
qed

section \<open>The chain of roots\<close>

text \<open>Enough keys of a role of a root signed an envelope.\<close>

definition vouched :: "'k outside \<Rightarrow> 'k Root \<Rightarrow> (Root_msg \<Rightarrow> Role option) \<Rightarrow> string \<Rightarrow> Envelope \<Rightarrow> bool" where
  "vouched out r which type envelope \<longleftrightarrow>
     ev_type envelope = type \<and>
     (case which (ro_msg r) of
        None \<Rightarrow> False
      | Some role \<Rightarrow> 0 < rl_threshold role
          \<and> unat (rl_threshold role) \<le> card (signers out (ro_keys r) role type envelope))"

text \<open>A root that \<open>decodeRoot\<close> lets through: its roles are there, small, and ask for a signature.\<close>

definition sound_role :: "'k Root \<Rightarrow> Role option \<Rightarrow> bool" where
  "sound_role r held = (case held of None \<Rightarrow> False | Some role \<Rightarrow>
     0 < rl_threshold role \<and> length (rl_keyids role) \<le> MaxRoleKeys \<and> distinct (rl_keyids role)
     \<and> (\<forall>i \<in> set (rl_keyids role). ro_keys r i \<noteq> None))"

definition sound_root :: "'k Root \<Rightarrow> bool" where
  "sound_root r \<longleftrightarrow> 0 < Root_Version r \<and> sound_role r (rm_root (ro_msg r)) \<and> sound_role r (rm_catalog (ro_msg r))"

lemma role_ids_None:
  "role_ids keys before ids = None \<Longrightarrow> distinct before \<Longrightarrow>
     distinct (before @ ids) \<and> (\<forall>i \<in> set ids. keys i \<noteq> None)"
  by (induction keys before ids rule: role_ids.induct) (auto split: if_splits)

lemma role_check_None:
  "role_check held keys = None \<Longrightarrow> sound_role \<lparr>ro_msg = m, ro_served = s, ro_keys = keys\<rparr> held"
  using role_ids_None [of keys "[]"]
  by (auto simp: role_check_def sound_role_def word_neq_0_conv split: option.splits if_splits)

lemma decodeRoot_sound:
  assumes "decodeRoot out payload now = Inr (root, keys)"
  shows "sound_root \<lparr>ro_msg = root, ro_served = s, ro_keys = keys\<rparr>"
  using assms role_check_None
  by (auto simp: decodeRoot_def sound_root_def Root_Version_def word_neq_0_conv split: option.splits if_splits sum.splits prod.splits)

lemma signedBy_vouched:
  assumes "signedBy out (ro_keys r) (the_role (which (ro_msg r))) type envelope = Inr ids"
    and "sound_role r (which (ro_msg r))"
  shows "vouched out r which type envelope"
proof -
  obtain role where role: "which (ro_msg r) = Some role" "0 < rl_threshold role" "length (rl_keyids role) \<le> MaxRoleKeys"
    using assms(2) by (auto simp: sound_role_def split: option.splits)
  have "length (rl_keyids role) < 2 ^ 32" using role(3) by (simp add: MaxRoleKeys_def)
  then show ?thesis
    using signedBy_Inr(1,4) [of out "ro_keys r" role type envelope ids] assms(1) role
    by (simp add: the_role_def vouched_def)
qed

text \<open>One step of the chain: the next version, which the keys of both roots signed.\<close>

definition leads_to :: "'k outside \<Rightarrow> time \<Rightarrow> 'k Root \<Rightarrow> 'k Root \<Rightarrow> bool" where
  "leads_to out now r r' \<longleftrightarrow>
     (\<exists>envelope. vouched out r rm_root RootPayloadType envelope \<and> vouched out r' rm_root RootPayloadType envelope
        \<and> decodeRoot out (ev_payload envelope) now = Inr (ro_msg r', ro_keys r')
        \<and> Root_Version r' = Root_Version r + 1 \<and> Root_Version r < Root_Version r')"

lemma Root_Next_Inr:
  assumes "Root_Next out r envelope now = Inr r'" "sound_root r"
  shows "leads_to out now r r'" "sound_root r'"
proof -
  obtain ids root keys ids' kept where
    s: "signedBy out (ro_keys r) (the_role (rm_root (ro_msg r))) RootPayloadType envelope = Inr ids"
    and d: "decodeRoot out (ev_payload envelope) now = Inr (root, keys)"
    and v: "\<not> rm_version root \<le> Root_Version r" "rm_version root = Root_Version r + 1"
    and s': "signedBy out keys (the_role (rm_root root)) RootPayloadType envelope = Inr ids'"
    and r': "r' = \<lparr>ro_msg = root, ro_served = kept, ro_keys = keys\<rparr>"
    using assms(1) by (auto simp: Root_Next_def split: sum.splits prod.splits if_splits)
  show sound: "sound_root r'" using decodeRoot_sound [OF d] r' by simp
  have "vouched out r rm_root RootPayloadType envelope"
    using signedBy_vouched [of out r rm_root, OF s] assms(2) by (simp add: sound_root_def)
  moreover have "vouched out r' rm_root RootPayloadType envelope"
    using signedBy_vouched [of out r' rm_root] s' sound r' by (simp add: sound_root_def)
  ultimately show "leads_to out now r r'"
    using d v r' unfolding leads_to_def by (auto simp: Root_Version_def not_le intro!: exI [of _ envelope])
qed

lemma Root_Walk_chain:
  assumes "sound_root r"
  shows "(leads_to out now)\<^sup>*\<^sup>* r (Root_Walk out r roots now)" "sound_root (Root_Walk out r roots now)"
    "Root_Version r \<le> Root_Version (Root_Walk out r roots now)"
proof -
  have "(leads_to out now)\<^sup>*\<^sup>* r (Root_Walk out r roots now) \<and> sound_root (Root_Walk out r roots now)
    \<and> Root_Version r \<le> Root_Version (Root_Walk out r roots now)"
    using assms
  proof (induction out r roots now rule: Root_Walk.induct)
    case (2 out r envelope rest now)
    show ?case
    proof (cases "Root_Next out r envelope now")
      case (Inl err)
      then show ?thesis using 2 by simp
    next
      case (Inr r')
      note n = Root_Next_Inr [OF Inr 2(3)]
      then have "Root_Version r < Root_Version r'" by (auto simp: leads_to_def)
      then show ?thesis
        using 2(2) [OF Inr n(2)] n(1) Inr converse_rtranclp_into_rtranclp [of "leads_to out now" r r'] by auto
    qed
  qed simp
  then show "(leads_to out now)\<^sup>*\<^sup>* r (Root_Walk out r roots now)" "sound_root (Root_Walk out r roots now)"
    "Root_Version r \<le> Root_Version (Root_Walk out r roots now)" by simp_all
qed

section \<open>Catalogs\<close>

lemma validate_each_None:
  "validate_each out rs seen = None \<Longrightarrow>
     (\<forall>r \<in> set rs. validateRelease out r = None \<and> release_name r \<notin> set seen) \<and> distinct (map release_name rs)"
proof (induction out rs seen rule: validate_each.induct)
  case (2 out r rs seen)
  then show ?case by (auto split: option.splits if_splits)
qed simp

lemma Root_Catalog_Inr:
  assumes "Root_Catalog out r envelope now = Inr c" "sound_root r"
  shows "vouched out r rm_catalog CatalogPayloadType envelope"
    "\<exists>u. DecodeCatalogMsg out (ev_payload envelope) = Some (ca_msg c, u)"
    "\<forall>x \<in> set (cm_releases (ca_msg c)). validateRelease out x = None"
    "distinct (map release_name (cm_releases (ca_msg c)))"
proof -
  obtain ids catalog kept where
    s: "signedBy out (ro_keys r) (the_role (rm_catalog (ro_msg r))) CatalogPayloadType envelope = Inr ids"
    and d: "DecodeCatalogMsg out (ev_payload envelope) = Some (catalog, False)"
    and v: "validateCatalog out catalog now = None"
    and c: "c = \<lparr>ca_msg = catalog, ca_served = kept\<rparr>"
    using assms(1) by (auto simp: Root_Catalog_def split: sum.splits option.splits prod.splits if_splits)
  show "vouched out r rm_catalog CatalogPayloadType envelope"
    using signedBy_vouched [of out r rm_catalog, OF s] assms(2) by (simp add: sound_root_def)
  show "\<exists>u. DecodeCatalogMsg out (ev_payload envelope) = Some (ca_msg c, u)" using d c by auto
  have e: "validate_each out (cm_releases catalog) [] = None"
    using v by (auto simp: validateCatalog_def split: if_splits option.splits)
  show "\<forall>x \<in> set (cm_releases (ca_msg c)). validateRelease out x = None"
    "distinct (map release_name (cm_releases (ca_msg c)))"
    using validate_each_None [OF e] c by simp_all
qed

lemma Catalog_Release_Some:
  assumes "Catalog_Release c version os arch format = Some r"
  shows "r \<in> set (cm_releases (ca_msg c))" "release_name r = (version, os, arch, format)"
  using assms by (auto simp: Catalog_Release_def find_Some_iff release_name_def)

section \<open>Judging\<close>

text \<open>What must hold of a release, beside being in a verified catalog, for this agent to install it.\<close>

definition installable :: "Running \<Rightarrow> Release \<Rightarrow> bool" where
  "installable running target \<longleftrightarrow>
     (let order = Version_Compare (parsed (rs_version target)) (ru_version running)
      in order \<noteq> 0
         \<and> (order < 0 \<longrightarrow> Version_String (ru_version running) \<in> set (rs_replaces target))
         \<and> (order > 0 \<longrightarrow> rs_minimum target \<noteq> [] \<longrightarrow>
              \<not> Version_Compare (ru_version running) (parsed (rs_minimum target)) < 0)
         \<and> ru_state running \<le> rs_generation target)"

lemma judge_release_Some:
  assumes "judge_release catalog running found = Inr (Some (target, current))"
  shows "found = Some target" "installable running target"
    "Catalog_Release catalog (Version_String (ru_version running)) (ru_os running) (ru_architecture running)
       (ru_format running) = Some current"
  using assms
  by (auto simp: judge_release_def installable_def Let_def not_less split: option.splits if_splits)

lemma Judge_root: "jd_root (fst (Judge out offer held running now)) = Root_Walk out (hl_root held) (of_roots offer) now"
  by (auto simp: Judge_def Let_def split: option.splits sum.splits)

lemma Judge_catalog:
  assumes "Judge out offer held running now = (j, err)" "jd_catalog j = Some c"
  shows "\<exists>envelope. of_catalog offer = Some envelope \<and> Root_Catalog out (jd_root j) envelope now = Inr c"
    "hl_catalog held \<le> Catalog_Version c" "\<not> Catalog_Expired c now" "\<not> Root_Expired (jd_root j) now"
  using assms
  by (auto simp: Judge_def Let_def split: option.splits sum.splits if_splits prod.splits)

lemma Judge_target:
  assumes "Judge out offer held running now = (j, err)" "jd_target j = Some target"
  obtains c current where "jd_catalog j = Some c" "jd_current j = Some current" "err = None"
    "judge_release c running (Catalog_Release c (of_version offer) (ru_os running) (ru_architecture running)
       (ru_format running)) = Inr (Some (target, current))"
    "of_version offer \<noteq> Version_String (ru_version running)"
  using assms
  by (auto simp: Judge_def Let_def split: option.splits sum.splits if_splits prod.splits)

section \<open>What is kept\<close>

text \<open>
  The root never goes back. The catalog does not either where the judgement verified one; where it
  did not and the root went on, what is kept of the catalog is 0.
\<close>

lemma keep_progress_root:
  assumes "sound_root (hl_root held)" "Judge out offer held running now = (j, err)"
  shows "Root_Version (hl_root held) \<le> Root_Version (hl_root (keep_progress held j))"
    "(leads_to out now)\<^sup>*\<^sup>* (hl_root held) (hl_root (keep_progress held j))"
    "sound_root (hl_root (keep_progress held j))"
proof -
  have j: "jd_root j = Root_Walk out (hl_root held) (of_roots offer) now"
    using Judge_root [of out offer held running now] assms(2) by simp
  have k: "hl_root (keep_progress held j) = hl_root held \<or> hl_root (keep_progress held j) = jd_root j"
    by (simp add: keep_progress_def Let_def Judgment_Held_def)
  then show "Root_Version (hl_root held) \<le> Root_Version (hl_root (keep_progress held j))"
    "(leads_to out now)\<^sup>*\<^sup>* (hl_root held) (hl_root (keep_progress held j))"
    "sound_root (hl_root (keep_progress held j))"
    using Root_Walk_chain [OF assms(1), where out = out and now = now and roots = "of_roots offer"] assms(1) j by auto
qed

lemma keep_progress_catalog:
  assumes "Judge out offer held running now = (j, err)"
    and "jd_catalog j \<noteq> None \<or> Root_Version (jd_root j) \<le> Root_Version (hl_root held)"
  shows "hl_catalog held \<le> hl_catalog (keep_progress held j)"
proof (cases "jd_catalog j")
  case None
  then show ?thesis using assms(2) by (auto simp: keep_progress_def Let_def Judgment_Held_def)
next
  case (Some c)
  then show ?thesis
    using Judge_catalog(2) [OF assms(1)] by (auto simp: keep_progress_def Let_def Judgment_Held_def)
qed

lemma keep_progress_forgets:
  assumes "jd_catalog j = None" "Root_Version (jd_root j) > Root_Version (hl_root held)"
  shows "hl_catalog (keep_progress held j) = 0"
  using assms by (simp add: keep_progress_def Let_def Judgment_Held_def)

end
