(* ===== verification/Update_Samples.thy ===== *)
theory Update_Samples
  imports Update_Judge
begin

text \<open>
  A platform to apply the theorems to: one key that signed everything, roots 1 and 2, catalogs that
  name releases 1.0.0 and 1.1.0, and an agent that runs 1.0.0.
\<close>

definition sample_root_msg :: "u64 \<Rightarrow> Root_msg" where
  "sample_root_msg n =
     \<lparr>rm_schema = 1, rm_version = n, rm_issued = Some 0, rm_expires = Some Hour,
      rm_keys = [\<lparr>ky_id = '''', ky_public = []\<rparr>],
      rm_root = Some \<lparr>rl_keyids = [''''], rl_threshold = 1\<rparr>,
      rm_catalog = Some \<lparr>rl_keyids = [''''], rl_threshold = 1\<rparr>\<rparr>"

definition sample_release :: "string \<Rightarrow> Release" where
  "sample_release v =
     \<lparr>rs_version = v, rs_os = ''linux'', rs_architecture = ''amd64'', rs_format = 1,
      rs_sha256 = replicate 32 0, rs_size = 1, rs_repository = ''r'', rs_revision = replicate 40 CHR ''a'',
      rs_minimum = '''', rs_generation = 1, rs_replaces = []\<rparr>"

definition sample_catalog_msg :: "u64 \<Rightarrow> Catalog_msg" where
  "sample_catalog_msg n =
     \<lparr>cm_schema = 1, cm_version = n, cm_issued = Some 0, cm_expires = Some Hour,
      cm_releases = [sample_release ''v1.0.0'', sample_release ''v1.1.0'']\<rparr>"

definition sample_out :: "unit outside" where
  "sample_out =
     \<lparr>Sum256 = (\<lambda>bs. if bs = [9] then replicate 32 0 else []), VerifyASN1 = (\<lambda>_ _ sig. sig = [1]), ParsePublicKey = (\<lambda>_. Some ()),
      DecodeEnvelope = (\<lambda>_. None), MarshalEnvelope = (\<lambda>_. Some []),
      DecodeRootMsg = (\<lambda>p. case p of [n] \<Rightarrow> Some (sample_root_msg (ucast n), False) | _ \<Rightarrow> None),
      DecodeCatalogMsg = (\<lambda>p. case p of [n] \<Rightarrow> Some (sample_catalog_msg (ucast n), False) | _ \<Rightarrow> None),
      Format_named = (\<lambda>f. f = 1)\<rparr>"

definition sample_root :: "unit Root" where
  "sample_root = \<lparr>ro_msg = sample_root_msg 1, ro_served = [], ro_keys = [[] \<mapsto> ()]\<rparr>"

definition root_envelope :: "byte \<Rightarrow> Envelope" where
  "root_envelope n = \<lparr>ev_type = RootPayloadType, ev_payload = [n], ev_signatures = [[1]]\<rparr>"

definition catalog_envelope :: "byte \<Rightarrow> Envelope" where
  "catalog_envelope n = \<lparr>ev_type = CatalogPayloadType, ev_payload = [n], ev_signatures = [[1]]\<rparr>"

definition sample_running :: Running where
  "sample_running =
     \<lparr>ru_version = parsed ''v1.0.0'', ru_os = ''linux'', ru_architecture = ''amd64'', ru_format = 1, ru_state = 1\<rparr>"

definition sample_held :: "u64 \<Rightarrow> unit Held" where
  "sample_held n = \<lparr>hl_root = sample_root, hl_catalog = n\<rparr>"

definition sample_offer :: "Envelope list \<Rightarrow> byte \<Rightarrow> Offer" where
  "sample_offer roots n = \<lparr>of_roots = roots, of_version = ''v1.1.0'', of_catalog = Some (catalog_envelope n)\<rparr>"

lemma sample_root_sound: "sound_root sample_root"
  by (simp add: sound_root_def sound_role_def Root_Version_def sample_root_def sample_root_msg_def MaxRoleKeys_def)

text \<open>Catalog 7 was verified; root 2 is handed over with catalog 3, which is refused as older.\<close>

definition first_judgment :: "unit Judgment \<times> update_error option" where
  "first_judgment = Judge sample_out (sample_offer [root_envelope 2] 3) (sample_held 7) sample_running 5"

definition second_judgment :: "unit Judgment \<times> update_error option" where
  "second_judgment =
     Judge sample_out (sample_offer [] 3) (keep_progress (sample_held 7) (fst first_judgment)) sample_running 6"

lemma sample_signed:
  "signedBy sample_out [[] \<mapsto> ()] \<lparr>rl_keyids = [[]], rl_threshold = 1\<rparr> type
     \<lparr>ev_type = type, ev_payload = [n], ev_signatures = [[1]]\<rparr> = Inr [[]]"
  by (simp add: signedBy_def MaxUpdatePayload_def MaxSignatures_def sample_out_def)

lemma sample_decodeRoot:
  "(ucast n :: u64) \<noteq> 0 \<Longrightarrow> 0 \<le> now \<Longrightarrow> decodeRoot sample_out [n] now = Inr (sample_root_msg (ucast n), [[] \<mapsto> ()])"
  by (simp add: decodeRoot_def sample_out_def sample_root_msg_def SchemaVersion_def lifetime_def MaxAhead_def
      MaxLifetime_def duration_defs publicKeys_def MaxKeys_def KeyID_def EncodeToString_def role_check_def MaxRoleKeys_def)

lemma sample_Next:
  "Root_Next sample_out sample_root (root_envelope 2) 5
     = Inr \<lparr>ro_msg = sample_root_msg 2, ro_served = [], ro_keys = [[] \<mapsto> ()]\<rparr>"
  unfolding Root_Next_def root_envelope_def sample_root_def
  by (simp add: the_role_def sample_root_msg_def sample_decodeRoot sample_signed Root_Version_def encode_envelope_def)
    (simp add: sample_out_def word_le_nat_alt)

lemma sample_parse:
  "ParseVersion ''v1.0.0'' = Some \<lparr>major = 1, minor = 0, patch = 0, prerelease = [], vtext = ''v1.0.0''\<rparr>"
  "ParseVersion ''v1.1.0'' = Some \<lparr>major = 1, minor = 1, patch = 0, prerelease = [], vtext = ''v1.1.0''\<rparr>"
  by (simp_all add: ParseVersion_def MaxVersionLength_def Cut_def numeric_def is_digit_def ParseUint_def digits_value_def)

lemma sample_out_simps [simp]:
  "DecodeCatalogMsg sample_out [n] = Some (sample_catalog_msg (ucast n), False)"
  "encode_envelope sample_out e = Inr []"
  by (simp_all add: sample_out_def encode_envelope_def MaxEnvelopeBytes_def)

lemma sample_valid:
  "validateRelease sample_out (sample_release ''v1.0.0'') = None"
  "validateRelease sample_out (sample_release ''v1.1.0'') = None"
  by (simp_all add: validateRelease_def sample_release_def sample_parse platformName_def MaxPlatformLength_def
      is_lower_or_digit_def is_digit_def sample_out_def MaxPackageBytes_def MaxRepositoryLength_def revision_def
      is_hex_def MaxReplaced_def word_less_nat_alt list_all_iff)

lemma sample_Catalog:
  assumes "rm_catalog (ro_msg r) = Some \<lparr>rl_keyids = [[]], rl_threshold = 1\<rparr>" "ro_keys r = [[] \<mapsto> ()]"
    "(ucast n :: u64) \<noteq> 0" "0 \<le> now"
  shows "Root_Catalog sample_out r (catalog_envelope n) now
     = Inr \<lparr>ca_msg = sample_catalog_msg (ucast n), ca_served = []\<rparr>"
proof -
  have "validateCatalog sample_out (sample_catalog_msg (ucast n)) now = None"
    using assms(3,4) sample_valid
    by (simp add: validateCatalog_def sample_catalog_msg_def SchemaVersion_def MaxReleases_def lifetime_def MaxAhead_def
        MaxLifetime_def duration_defs release_name_def sample_release_def)
  then show ?thesis
    using assms(1,2)
    by (simp add: Root_Catalog_def catalog_envelope_def the_role_def sample_signed)
qed

text \<open>The catalog is refused as older, and what is kept of the catalog is 0.\<close>

lemma first_judged:
  "first_judgment = (\<lparr>jd_root = \<lparr>ro_msg = sample_root_msg 2, ro_served = [], ro_keys = [[] \<mapsto> ()]\<rparr>,
     jd_catalog = None, jd_version = ''v1.1.0'', jd_target = None, jd_current = None\<rparr>, Some [Stale_metadata])"
proof -
  have c: "Root_Catalog sample_out \<lparr>ro_msg = sample_root_msg 2, ro_served = [], ro_keys = [[] \<mapsto> ()]\<rparr> (catalog_envelope 3) 5
      = Inr \<lparr>ca_msg = sample_catalog_msg 3, ca_served = []\<rparr>"
    by (subst sample_Catalog) (simp_all add: sample_root_msg_def)
  have "\<not> Root_Expired \<lparr>ro_msg = sample_root_msg 2, ro_served = [], ro_keys = [[] \<mapsto> ()]\<rparr> 5"
    by (simp add: Root_Expired_def Root_ExpiresAt_def sample_root_msg_def duration_defs)
  then show ?thesis
    by (simp add: first_judgment_def Judge_def sample_offer_def sample_held_def sample_Next c Catalog_Version_def
        sample_catalog_msg_def word_less_nat_alt)
qed

lemma first_kept:
  "keep_progress (sample_held 7) (fst first_judgment)
     = \<lparr>hl_root = \<lparr>ro_msg = sample_root_msg 2, ro_served = [], ro_keys = [[] \<mapsto> ()]\<rparr>, hl_catalog = 0\<rparr>"
  by (simp add: first_judged keep_progress_def Judgment_Held_def sample_held_def sample_root_def Root_Version_def
      sample_root_msg_def word_less_nat_alt)

lemma second_judged:
  "snd second_judgment = None"
  "jd_target (fst second_judgment) = Some (sample_release ''v1.1.0'')"
  "map_option Catalog_Version (jd_catalog (fst second_judgment)) = Some 3"
proof -
  let ?r = "\<lparr>ro_msg = sample_root_msg 2, ro_served = [], ro_keys = [[] \<mapsto> ()]\<rparr> :: unit Root"
  have c: "Root_Catalog sample_out ?r (catalog_envelope 3) 6 = Inr \<lparr>ca_msg = sample_catalog_msg 3, ca_served = []\<rparr>"
    by (subst sample_Catalog) (simp_all add: sample_root_msg_def)
  have e: "\<not> Root_Expired ?r 6"
    by (simp add: Root_Expired_def Root_ExpiresAt_def sample_root_msg_def duration_defs)
  have j: "judge_release \<lparr>ca_msg = sample_catalog_msg 3, ca_served = []\<rparr> sample_running (Some (sample_release ''v1.1.0''))
      = Inr (Some (sample_release ''v1.1.0'', sample_release ''v1.0.0''))"
    by (simp add: judge_release_def sample_release_def sample_running_def parsed_def sample_parse Version_Compare_def
        compareNumbers_def Catalog_Release_def sample_catalog_msg_def Version_String_def Let_def word_less_nat_alt)
  have "second_judgment = (\<lparr>jd_root = ?r, jd_catalog = Some \<lparr>ca_msg = sample_catalog_msg 3, ca_served = []\<rparr>,
      jd_version = ''v1.1.0'', jd_target = Some (sample_release ''v1.1.0''), jd_current = Some (sample_release ''v1.0.0'')\<rparr>, None)"
    unfolding second_judgment_def first_kept
    using j
    by (simp add: Judge_def sample_offer_def c e Catalog_Version_def Catalog_Expired_def Catalog_ExpiresAt_def
        sample_catalog_msg_def duration_defs sample_running_def parsed_def sample_parse Version_String_def
        Catalog_Release_def sample_release_def)
  then show "snd second_judgment = None" "jd_target (fst second_judgment) = Some (sample_release ''v1.1.0'')"
    "map_option Catalog_Version (jd_catalog (fst second_judgment)) = Some 3"
    unfolding \<open>second_judgment = _\<close> by (simp_all add: Catalog_Version_def sample_catalog_msg_def)
qed

end
