(* ===== verification/Update_Install.thy ===== *)
theory Update_Install
  imports Update_Judge "HOL-Library.State_Monad"
begin

text \<open>
  The installer, \<open>internal/update/install.go\<close>, with the journal of \<open>journal.go\<close> and the staging area
  of \<open>stage.go\<close>. The state is what outlives a crash: the journal, the packages of the installer's own
  directory, what the agent staged and what was verified before. Every call to the host takes the
  next of \<open>answers\<close>: it does what it says, it fails, it is stopped with the context, or the machine
  stops there, after which no call does anything. An installer that runs after a crash is another run
  on the state the crash left. \<open>acts\<close> remembers what was asked of the package manager and of the
  health check, with the journal on the disk and the package
  at that moment. What a reason reads like is not
  modelled, and the installer is given a directory, a package manager and a health check.
\<close>

datatype Stage =
  Downloading | Staged | Installing | Checking | Reverting | Installed | RolledBack | Stage_failed
| Unwritten string

datatype Failure = No_failure | Unreachable | Unverified | Refused_release | Installation | Unhealthy

record Journal =
  jn_stage :: Stage
  jn_version :: string
  jn_previous :: string
  jn_previous_state :: u32
  jn_catalog :: u64
  jn_root :: u64
  jn_target :: string
  jn_fallback :: string
  jn_started :: time
  jn_since :: time
  jn_failure :: Failure

definition Done_stage :: "Stage \<Rightarrow> bool" where
  "Done_stage s \<longleftrightarrow> s = Installed \<or> s = RolledBack \<or> s = Stage_failed"

definition Journal_Done :: "Journal \<Rightarrow> bool" where
  "Journal_Done j = Done_stage (jn_stage j)"

datatype reply = Does | Fails | Stopped | Crashes

datatype act =
  Install_act string bool "Journal option" "byte list option"
| Healthy_act string
| Unhealthy_act string

record 'k world =
  wd_journal :: "Journal option"
  wd_pending :: bool
  wd_staging :: bool
  wd_ready :: bool
  wd_offer :: "Offer option"
  wd_staged :: "string \<rightharpoonup> byte list"
  wd_dir :: "string \<rightharpoonup> byte list"
  wd_held :: "update_error + 'k Held"
  wd_generation :: u32
  wd_replies :: "reply list"
  wd_clock :: "time list"
  wd_crashed :: bool
  wd_acts :: "act list"

type_synonym ('k, 'a) inst = "('k world, 'a) state"

abbreviation ret :: "'a \<Rightarrow> ('k, 'a) inst" where "ret \<equiv> State_Monad.return"

section \<open>Calls to the host\<close>

definition call :: "('k, reply) inst" where
  "call = State (\<lambda>w.
     if wd_crashed w then (Fails, w)
     else case wd_replies w of
            [] \<Rightarrow> (Does, w)
          | Crashes # rest \<Rightarrow> (Fails, w\<lparr>wd_replies := rest, wd_crashed := True\<rparr>)
          | r # rest \<Rightarrow> (r, w\<lparr>wd_replies := rest\<rparr>))"

text \<open>A call that changes the state when it succeeds, and says whether it did.\<close>

definition effect :: "('k world \<Rightarrow> 'k world) \<Rightarrow> ('k, bool) inst" where
  "effect f = do {
     r \<leftarrow> call;
     if r = Does then State (\<lambda>w. (True, f w)) else ret False
   }"

definition look :: "('k world \<Rightarrow> 'a) \<Rightarrow> ('k, 'a) inst" where
  "look f = State (\<lambda>w. (f w, w))"

definition inst_now :: "('k, time) inst" where
  "inst_now = State (\<lambda>w. case wd_clock w of [] \<Rightarrow> (0, w) | t # ts \<Rightarrow> (t, w\<lparr>wd_clock := ts\<rparr>))"

definition acted :: "act \<Rightarrow> ('k, unit) inst" where
  "acted a = State (\<lambda>w. ((), if wd_crashed w then w else w\<lparr>wd_acts := a # wd_acts w\<rparr>))"

section \<open>The journal and the staging area\<close>

text \<open>
  \<open>keep\<close> replaces a file whole, and then syncs the directory; when only the sync fails, the file is
  replaced and the error is reported.
\<close>

definition keep_file :: "('k world \<Rightarrow> 'k world) \<Rightarrow> ('k, bool) inst" where
  "keep_file f = do {
     replaced \<leftarrow> effect f;
     if \<not> replaced then ret False else effect (\<lambda>w. w)
   }"

definition KeepJournal :: "Journal \<Rightarrow> ('k, bool) inst" where
  "KeepJournal j = do {
     marked \<leftarrow> (if Journal_Done j then ret True else keep_file (\<lambda>w. w\<lparr>wd_pending := True\<rparr>));
     if \<not> marked then ret False else do {
       kept \<leftarrow> keep_file (\<lambda>w. w\<lparr>wd_journal := Some j\<rparr>);
       if \<not> kept then ret False
       else if Journal_Done j then effect (\<lambda>w. w\<lparr>wd_pending := False\<rparr>) else ret True
     }
   }"

definition packageSuffix :: string where "packageSuffix = ''.deb''"

definition PackageName :: "byte list \<Rightarrow> string" where
  "PackageName digest = EncodeToString digest @ packageSuffix"

text \<open>A clear removes all that is staged, or nothing where the removal fails, and then syncs.\<close>

definition Staging_Clear :: "('k, bool) inst" where
  "Staging_Clear = keep_file (\<lambda>w. w\<lparr>wd_ready := False, wd_offer := None, wd_staged := Map.empty\<rparr>)"

text \<open>
  \<open>written\<close>, with what \<open>fill\<close> writes into it: a copy is renamed to the name of the package only when
  it is exactly as long as the release says and has the digest the release names.
\<close>

definition written :: "'k outside \<Rightarrow> string \<Rightarrow> Release \<Rightarrow> byte list \<Rightarrow> ('k, bool) inst" where
  "written out name release content = do {
     copied \<leftarrow> effect (\<lambda>w. w);
     if \<not> copied then ret False
     else if int (length content) \<noteq> int (unat (rs_size release)) \<or> Sum256 out content \<noteq> rs_sha256 release
     then ret False
     else keep_file (\<lambda>w. w\<lparr>wd_dir := (wd_dir w)(name \<mapsto> content)\<rparr>)
   }"

definition Staging_Take :: "'k outside \<Rightarrow> Release \<Rightarrow> ('k, bool) inst" where
  "Staging_Take out release = do {
     opened \<leftarrow> effect (\<lambda>w. w);
     source \<leftarrow> look (\<lambda>w. wd_staged w (PackageName (rs_sha256 release)));
     case source of
       None \<Rightarrow> ret False
     | Some content \<Rightarrow>
         if \<not> opened \<or> length content \<noteq> unat (rs_size release) then ret False
         else written out (PackageName (rs_sha256 release)) release
                (take (unat (rs_size release) + 1) content)
   }"

text \<open>The package manager, and what a health check says of a version.\<close>

definition Packages_Matches :: "('k, bool) inst" where
  "Packages_Matches = effect (\<lambda>w. w)"

definition Packages_Install :: "string \<Rightarrow> bool \<Rightarrow> ('k, reply) inst" where
  "Packages_Install name downgrade = do {
     journal \<leftarrow> look wd_journal;
     content \<leftarrow> look (\<lambda>w. wd_dir w name);
     _ \<leftarrow> acted (Install_act name downgrade journal content);
     call
   }"

definition Health_check :: "string \<Rightarrow> ('k, reply) inst" where
  "Health_check version = do {
     r \<leftarrow> call;
     _ \<leftarrow> (if r = Does then acted (Healthy_act version) else acted (Unhealthy_act version));
     ret r
   }"

section \<open>The installer\<close>

definition older :: "string \<Rightarrow> string \<Rightarrow> bool" where
  "older version than =
     (case (ParseVersion version, ParseVersion than) of
        (Some left, Some right) \<Rightarrow> Version_Compare left right < 0 | _ \<Rightarrow> False)"

definition hex_valid :: "string \<Rightarrow> bool" where
  "hex_valid s \<longleftrightarrow> even (length s)
     \<and> list_all (\<lambda>c. is_hex c \<or> 65 \<le> (of_char c :: nat) \<and> (of_char c :: nat) \<le> 70) s"

definition prune_one :: "string \<Rightarrow> ('k, bool) inst" where
  "prune_one name =
     (if name = [] \<or> length name < 4 \<or> drop (length name - 4) name \<noteq> packageSuffix
         \<or> \<not> hex_valid (take (length name - 4) name)
      then ret True
      else effect (\<lambda>w. w\<lparr>wd_dir := (wd_dir w)(name := None)\<rparr>))"

definition pruned :: "Journal \<Rightarrow> ('k, bool) inst" where
  "pruned j = do {
     a \<leftarrow> prune_one (jn_target j);
     b \<leftarrow> prune_one (jn_fallback j);
     ret (a \<and> b)
   }"

definition cleared :: "('k, bool) inst" where
  "cleared = do { staging \<leftarrow> look wd_staging; if staging then Staging_Clear else ret True }"

definition ended :: "Journal \<Rightarrow> Failure \<Rightarrow> ('k, bool) inst" where
  "ended j failure = do {
     since \<leftarrow> inst_now;
     let j = j\<lparr>jn_stage := Stage_failed, jn_since := since, jn_failure := failure\<rparr>;
     a \<leftarrow> cleared;
     b \<leftarrow> KeepJournal j;
     c \<leftarrow> pruned j;
     ret (a \<and> b \<and> c)
   }"

text \<open>The end of \<open>revert\<close>: the release before is installed again, and checked.\<close>

definition came_back :: "Journal \<Rightarrow> Failure \<Rightarrow> ('k, bool) inst" where
  "came_back j failure = do {
     h \<leftarrow> Health_check (jn_previous j);
     case h of
       Stopped \<Rightarrow> ret False
     | Does \<Rightarrow> do {
         since \<leftarrow> inst_now;
         let back = j\<lparr>jn_stage := RolledBack, jn_since := since\<rparr>;
         kept \<leftarrow> KeepJournal back;
         if \<not> kept then ret False else pruned back
       }
     | _ \<Rightarrow> ended j failure
   }"

definition fall_back :: "Journal \<Rightarrow> Failure \<Rightarrow> ('k, bool) inst" where
  "fall_back j failure = do {
     r \<leftarrow> Packages_Install (jn_fallback j) (older (jn_previous j) (jn_version j));
     case r of
       Stopped \<Rightarrow> ret False
     | Does \<Rightarrow> came_back j failure
     | _ \<Rightarrow> ended j failure
   }"

definition revert :: "Journal \<Rightarrow> Failure \<Rightarrow> ('k, bool) inst" where
  "revert j failure = do {
     let j = j\<lparr>jn_failure := failure\<rparr>;
     generation \<leftarrow> look wd_generation;
     if jn_previous_state j < generation then ended j failure
     else if jn_stage j = Reverting then fall_back j failure
     else do {
       since \<leftarrow> inst_now;
       let j = j\<lparr>jn_stage := Reverting, jn_since := since\<rparr>;
       kept \<leftarrow> KeepJournal j;
       if \<not> kept then ret False else fall_back j failure
     }
   }"

definition check :: "Journal \<Rightarrow> ('k, bool) inst" where
  "check j = do {
     h \<leftarrow> Health_check (jn_version j);
     case h of
       Stopped \<Rightarrow> ret False
     | Does \<Rightarrow> do {
         since \<leftarrow> inst_now;
         let finished = j\<lparr>jn_stage := Installed, jn_since := since, jn_failure := No_failure\<rparr>;
         kept \<leftarrow> KeepJournal finished;
         if \<not> kept then ret False else pruned finished
       }
     | _ \<Rightarrow> revert j Unhealthy
   }"

definition install :: "Journal \<Rightarrow> ('k, bool) inst" where
  "install j = do {
     r \<leftarrow> Packages_Install (jn_target j) (older (jn_version j) (jn_previous j));
     case r of
       Stopped \<Rightarrow> ret False
     | Does \<Rightarrow> do {
         since \<leftarrow> inst_now;
         let checking = j\<lparr>jn_stage := Checking, jn_since := since\<rparr>;
         kept \<leftarrow> KeepJournal checking;
         if \<not> kept then ret False else check checking
       }
     | _ \<Rightarrow> revert j Installation
   }"

definition resume :: "Journal \<Rightarrow> ('k, bool) inst" where
  "resume j =
     (case jn_stage j of
        Installing \<Rightarrow> install j
      | Checking \<Rightarrow> check j
      | Reverting \<Rightarrow> revert j (jn_failure j)
      | _ \<Rightarrow> ended j Installation)"

definition failureOf :: "update_error \<Rightarrow> Failure" where
  "failureOf err = (if Is err Unsigned \<or> Is err Malformed \<or> Is err Not_verified then Unverified else Refused_release)"

text \<open>The part of \<open>take\<close> from the moment the release and the one it replaces are known.\<close>

definition take_release :: "'k outside \<Rightarrow> Journal \<Rightarrow> Release \<Rightarrow> Release \<Rightarrow> ('k, bool) inst" where
  "take_release out j target current = do {
     first \<leftarrow> Staging_Take out target;
     if \<not> first then ended j Unverified
     else do {
       second \<leftarrow> Staging_Take out current;
       if \<not> second then ended j Unverified
       else do {
         emptied \<leftarrow> Staging_Clear;
         if \<not> emptied then ret False
         else do {
           let j = j\<lparr>jn_target := PackageName (rs_sha256 target), jn_fallback := PackageName (rs_sha256 current),
                     jn_previous_state := rs_generation current\<rparr>;
           m \<leftarrow> Packages_Matches;
           if \<not> m then ended j Unverified
           else do {
             n \<leftarrow> Packages_Matches;
             if \<not> n then ended j Unverified
             else do {
               let j = j\<lparr>jn_stage := Installing\<rparr>;
               kept \<leftarrow> KeepJournal j;
               if \<not> kept then ret False else install j
             }
           }
         }
       }
     }
   }"

text \<open>The part of \<open>take\<close> from the moment the offer was judged.\<close>

definition take_judged ::
  "'k outside \<Rightarrow> Journal \<Rightarrow> 'k Held \<Rightarrow> 'k Judgment \<Rightarrow> update_error option \<Rightarrow> ('k, bool) inst" where
  "take_judged out j held judged err = do {
     kept \<leftarrow> (if Root_Version (hl_root (Judgment_Held judged)) > Root_Version (hl_root held)
                 \<or> hl_catalog (Judgment_Held judged) > hl_catalog held
              then keep_file (\<lambda>w. w\<lparr>wd_held := Inr (keep_progress held judged)\<rparr>) else ret True);
     if \<not> kept then do { _ \<leftarrow> Staging_Clear; ret False }
     else do {
       let j = j\<lparr>jn_root := Root_Version (jd_root judged),
                 jn_catalog := (case jd_catalog judged of None \<Rightarrow> 0 | Some c \<Rightarrow> Catalog_Version c)\<rparr>;
       case err of
         Some err \<Rightarrow> ended j (failureOf err)
       | None \<Rightarrow>
           (case (jd_target judged, jd_current judged) of
              (Some target, Some current) \<Rightarrow> take_release out j target current
            | _ \<Rightarrow> Staging_Clear)
     }
   }"

definition inst_take :: "'k outside \<Rightarrow> Running \<Rightarrow> ('k, bool) inst" where
  "inst_take out running = do {
     now \<leftarrow> inst_now;
     offer \<leftarrow> look wd_offer;
     case offer of
       None \<Rightarrow> do { _ \<leftarrow> Staging_Clear; ret False }
     | Some offer \<Rightarrow> do {
         let j = \<lparr>jn_stage = Unwritten [], jn_version = of_version offer,
                  jn_previous = Version_String (ru_version running), jn_previous_state = 0, jn_catalog = 0,
                  jn_root = 0, jn_target = [], jn_fallback = [], jn_started = now, jn_since = now,
                  jn_failure = No_failure\<rparr>;
         held \<leftarrow> look wd_held;
         case held of
           Inl _ \<Rightarrow> ended j Refused_release
         | Inr held \<Rightarrow>
             (case Judge out offer held running now of (judged, err) \<Rightarrow> take_judged out j held judged err)
       }
   }"

definition inst_Run :: "'k outside \<Rightarrow> Running \<Rightarrow> ('k, bool) inst" where
  "inst_Run out running = do {
     read \<leftarrow> effect (\<lambda>w. w);
     journal \<leftarrow> look wd_journal;
     if \<not> read then ret False
     else case journal of
       Some j \<Rightarrow> if \<not> Journal_Done j then resume j
                 else do { ready \<leftarrow> look (\<lambda>w. wd_staging w \<and> wd_ready w);
                           if ready then inst_take out running else ret True }
     | None \<Rightarrow> do { ready \<leftarrow> look (\<lambda>w. wd_staging w \<and> wd_ready w);
                    if ready then inst_take out running else ret True }
   }"

end
