(* ===== verification/Update_Install_Inv.thy ===== *)
theory Update_Install_Inv
  imports Update_Install
begin

text \<open>
  What the installer keeps, whatever the host answers and wherever the machine stops: every package
  it installs is one that a release of a catalog names, signed by keys the chain of roots leads to;
  the journal on the disk says what it does before it does it; and it says that a release runs only
  once a health check said so. The proofs are triples over the installer's steps, composed the way
  the steps are.
\<close>

section \<open>Triples\<close>

definition hoare :: "('k world \<Rightarrow> bool) \<Rightarrow> ('k, 'a) inst \<Rightarrow> ('a \<Rightarrow> 'k world \<Rightarrow> bool) \<Rightarrow> bool" where
  "hoare P m Q \<longleftrightarrow> (\<forall>w. P w \<longrightarrow> (case run_state m w of (r, w') \<Rightarrow> Q r w'))"

text \<open>A condition that does not depend on what the host will answer or on the clock.\<close>

definition steady :: "('k world \<Rightarrow> bool) \<Rightarrow> bool" where
  "steady P \<longleftrightarrow> (\<forall>w rs c ts. P (w\<lparr>wd_replies := rs, wd_crashed := c, wd_clock := ts\<rparr>) = P w)"

named_theorems triples \<open>the rules that take a triple apart\<close>

lemma hoare_ret [triples]: "(\<And>w. P w \<Longrightarrow> Q x w) \<Longrightarrow> hoare P (ret x) Q"
  by (simp add: hoare_def)

lemma hoare_bind: "hoare P m R \<Longrightarrow> (\<And>x. hoare (R x) (f x) Q) \<Longrightarrow> hoare P (m \<bind> f) Q"
  unfolding hoare_def by (fastforce split: prod.splits)

lemma hoare_keeps_bind: "hoare P m (\<lambda>_. P) \<Longrightarrow> (\<And>x. hoare P (f x) Q) \<Longrightarrow> hoare P (m \<bind> f) Q"
  by (rule hoare_bind)

lemma hoare_if [triples]:
  "(b \<Longrightarrow> hoare P m Q) \<Longrightarrow> (\<not> b \<Longrightarrow> hoare P n Q) \<Longrightarrow> hoare P (if b then m else n) Q"
  by simp

lemma hoare_post: "hoare P m R \<Longrightarrow> (\<And>r w. R r w \<Longrightarrow> Q r w) \<Longrightarrow> hoare P m Q"
  by (auto simp: hoare_def split: prod.splits)

lemma hoare_pre: "hoare P m Q \<Longrightarrow> (\<And>w. P' w \<Longrightarrow> P w) \<Longrightarrow> hoare P' m Q"
  by (auto simp: hoare_def)

lemma hoare_assume: "(\<And>w. P w \<Longrightarrow> b) \<Longrightarrow> (b \<Longrightarrow> hoare P m Q) \<Longrightarrow> hoare P m Q"
  by (auto simp: hoare_def)

lemma hoare_look [triples]: "(\<And>w. P w \<Longrightarrow> Q (f w) w) \<Longrightarrow> hoare P (look f) Q"
  by (simp add: hoare_def look_def)

lemma hoare_look_bind: "(\<And>x. hoare (\<lambda>w. P w \<and> f w = x) (g x) Q) \<Longrightarrow> hoare P (look f \<bind> g) Q"
  by (simp add: hoare_def look_def)

lemma steadyD: "steady P \<Longrightarrow> P (w\<lparr>wd_replies := rs, wd_crashed := c, wd_clock := ts\<rparr>) = P w"
  by (simp add: steady_def)

lemma hoare_call:
  assumes "steady P" "\<And>r w. P w \<Longrightarrow> Q r w"
  shows "hoare P call Q"
proof -
  have "P (w\<lparr>wd_replies := rs, wd_crashed := c\<rparr>) = P w" for w rs c
    using steadyD [OF assms(1), where ts = "wd_clock w" and w = w] by simp
  moreover have "P (w\<lparr>wd_replies := rs\<rparr>) = P w" for w rs
    using steadyD [OF assms(1), where ts = "wd_clock w" and c = "wd_crashed w" and w = w] by simp
  ultimately show ?thesis
    using assms(2) by (auto simp: hoare_def call_def split: list.splits reply.splits)
qed

lemma hoare_now:
  assumes "steady P" "\<And>r w. P w \<Longrightarrow> Q r w"
  shows "hoare P inst_now Q"
proof -
  have "P (w\<lparr>wd_clock := ts\<rparr>) = P w" for w ts
    using steadyD [OF assms(1), where rs = "wd_replies w" and c = "wd_crashed w" and w = w] by simp
  then show ?thesis using assms(2) by (auto simp: hoare_def inst_now_def split: list.splits)
qed

lemma hoare_effect:
  assumes "steady P" "\<And>w. P w \<Longrightarrow> Q False w" "\<And>w. P w \<Longrightarrow> Q True (f w)"
  shows "hoare P (effect f) Q"
  unfolding effect_def
proof (rule hoare_bind [OF hoare_call [OF assms(1), where Q = "\<lambda>_. P"]])
  show "hoare P (if r = Does then State (\<lambda>w. (True, f w)) else ret False) Q" for r
    using assms(2,3) by (auto simp: hoare_def)
qed

lemma hoare_acted:
  assumes "\<And>w. P w \<Longrightarrow> Q () w" "\<And>w. P w \<Longrightarrow> Q () (w\<lparr>wd_acts := a # wd_acts w\<rparr>)"
  shows "hoare P (acted a) Q"
  using assms by (simp add: hoare_def acted_def)

section \<open>What the installer keeps\<close>

text \<open>A root that the chain from the provisioned one leads to, and a package a catalog under it names.\<close>

definition trusted :: "'k outside \<Rightarrow> 'k Root \<Rightarrow> 'k Root \<Rightarrow> bool" where
  "trusted out anchor r \<longleftrightarrow> sound_root r \<and> (\<lambda>a b. \<exists>now. leads_to out now a b)\<^sup>*\<^sup>* anchor r"

definition authorised :: "'k outside \<Rightarrow> 'k Root \<Rightarrow> string \<Rightarrow> bool" where
  "authorised out anchor name \<longleftrightarrow>
     (\<exists>r c envelope now release. trusted out anchor r \<and> Root_Catalog out r envelope now = Inr c
        \<and> \<not> Root_Expired r now \<and> \<not> Catalog_Expired c now
        \<and> release \<in> set (cm_releases (ca_msg c)) \<and> name = PackageName (rs_sha256 release))"

fun act_ok :: "'k outside \<Rightarrow> 'k Root \<Rightarrow> act \<Rightarrow> bool" where
  "act_ok out anchor (Install_act name downgrade journal content) =
     (authorised out anchor name
      \<and> (\<exists>j. journal = Some j \<and> (jn_stage j = Installing \<and> name = jn_target j
                                  \<or> jn_stage j = Reverting \<and> name = jn_fallback j))
      \<and> (\<forall>c. content = Some c \<longrightarrow> name = PackageName (Sum256 out c)))"
| "act_ok out anchor _ = True"

definition journal_ok :: "'k outside \<Rightarrow> 'k Root \<Rightarrow> act list \<Rightarrow> Journal \<Rightarrow> bool" where
  "journal_ok out anchor acts j \<longleftrightarrow>
     (\<not> Journal_Done j \<longrightarrow> authorised out anchor (jn_target j) \<and> authorised out anchor (jn_fallback j)
        \<and> (jn_stage j = Installing \<or> jn_stage j = Checking \<or> jn_stage j = Reverting))
     \<and> (jn_stage j = Installed \<longrightarrow> Healthy_act (jn_version j) \<in> set acts)
     \<and> (jn_stage j = RolledBack \<longrightarrow> Healthy_act (jn_previous j) \<in> set acts)"

definition inst_inv :: "'k outside \<Rightarrow> 'k Root \<Rightarrow> 'k world \<Rightarrow> bool" where
  "inst_inv out anchor w \<longleftrightarrow>
     (\<forall>name c. wd_dir w name = Some c \<longrightarrow> name = PackageName (Sum256 out c))
     \<and> (\<forall>h. wd_held w = Inr h \<longrightarrow> trusted out anchor (hl_root h))
     \<and> (\<forall>j. wd_journal w = Some j \<longrightarrow> journal_ok out anchor (wd_acts w) j)
     \<and> (\<forall>a \<in> set (wd_acts w). act_ok out anchor a)"

lemma steady_inv [simp]: "steady (inst_inv out anchor)"
  by (simp add: steady_def inst_inv_def)

lemma steady_conj: "steady P \<Longrightarrow> steady Q \<Longrightarrow> steady (\<lambda>w. P w \<and> Q w)"
  by (simp add: steady_def)

lemma steady_fields [simp]:
  "steady (\<lambda>w. R (wd_journal w) (wd_acts w))" "steady (\<lambda>_. b)"
  by (simp_all add: steady_def)

section \<open>The steps\<close>

text \<open>A run that says it ended well leaves no journal, or one that says how it ended.\<close>

definition finished :: "'k world \<Rightarrow> bool" where
  "finished w \<longleftrightarrow> (\<forall>j. wd_journal w = Some j \<longrightarrow> Journal_Done j)"

abbreviation keeps_inv :: "'k outside \<Rightarrow> 'k Root \<Rightarrow> bool \<Rightarrow> 'k world \<Rightarrow> bool" where
  "keeps_inv out anchor r w \<equiv> inst_inv out anchor w \<and> (r \<longrightarrow> finished w)"

lemma journal_ok_more: "journal_ok out anchor acts j \<Longrightarrow> journal_ok out anchor (a # acts) j"
  by (auto simp: journal_ok_def)

lemma inst_inv_acts:
  "inst_inv out anchor w \<Longrightarrow> act_ok out anchor a \<Longrightarrow> inst_inv out anchor (w\<lparr>wd_acts := a # wd_acts w\<rparr>)"
  using journal_ok_more by (auto simp: inst_inv_def)

lemma steady_with [simp]:
  "steady (\<lambda>w. inst_inv out anchor w \<and> R (wd_journal w) (wd_acts w))"
  by (simp add: steady_def inst_inv_def)

lemmas inv_effect = hoare_effect [OF steady_with]

lemma hoare_keep:
  assumes "steady P" "steady R" "\<And>w. P w \<Longrightarrow> R (f w)" "\<And>w. P w \<Longrightarrow> Q False w" "\<And>r w. R w \<Longrightarrow> Q r w"
  shows "hoare P (keep_file f) Q"
  unfolding keep_file_def
proof (rule hoare_bind)
  show "hoare P (effect f) (\<lambda>r w. if r then R w else P w)" by (rule hoare_effect [OF assms(1)]) (simp_all add: assms(3))
  show "hoare (\<lambda>w. if r then R w else P w) (if \<not> r then ret False else effect (\<lambda>w. w)) Q" for r
    using hoare_ret [of P Q False] hoare_effect [OF assms(2), of Q "\<lambda>w. w"] assms(4,5) by (cases r) simp_all
qed

text \<open>Steps that change neither the journal nor what was done.\<close>

abbreviation inv_with :: "'k outside \<Rightarrow> 'k Root \<Rightarrow> (Journal option \<Rightarrow> act list \<Rightarrow> bool) \<Rightarrow> 'k world \<Rightarrow> bool" where
  "inv_with out anchor R w \<equiv> inst_inv out anchor w \<and> R (wd_journal w) (wd_acts w)"

lemma idle_triple: "hoare (inv_with out anchor R) (effect (\<lambda>w. w)) (\<lambda>_. inv_with out anchor R)"
  by (rule hoare_effect) simp_all

lemma now_triple: "hoare (inv_with out anchor R) inst_now (\<lambda>_. inv_with out anchor R)"
  by (rule hoare_now) simp_all

lemma prune_triple: "hoare (inv_with out anchor R) (prune_one name) (\<lambda>_. inv_with out anchor R)"
  unfolding prune_one_def
  by (intro hoare_if hoare_ret inv_effect) (auto simp: inst_inv_def)

lemma pruned_triple: "hoare (inv_with out anchor R) (pruned j) (\<lambda>_. inv_with out anchor R)"
  unfolding pruned_def by (intro hoare_bind [OF prune_triple] hoare_ret) assumption

lemma clear_triple: "hoare (inv_with out anchor R) Staging_Clear (\<lambda>_. inv_with out anchor R)"
  unfolding Staging_Clear_def
  by (rule hoare_keep [OF steady_with steady_with [of out anchor R]]) (simp_all add: inst_inv_def)

lemma cleared_triple: "hoare (inv_with out anchor R) cleared (\<lambda>_. inv_with out anchor R)"
  unfolding cleared_def
  by (rule hoare_bind [OF hoare_look [where Q = "\<lambda>_. inv_with out anchor R"]])
    (assumption | intro hoare_if hoare_ret clear_triple)+

text \<open>A journal that may be kept is kept, and is on the disk when the call says so.\<close>

lemma KeepJournal_triple:
  "hoare (inv_with out anchor (\<lambda>_ acts. journal_ok out anchor acts j)) (KeepJournal j)
     (\<lambda>r w. inst_inv out anchor w \<and> (r \<longrightarrow> wd_journal w = Some j))"
proof -
  let ?I = "inv_with out anchor (\<lambda>_ acts. journal_ok out anchor acts j)"
  let ?K = "inv_with out anchor (\<lambda>journal _. journal = Some j)"
  let ?Q = "\<lambda>r w. inst_inv out anchor w \<and> (r \<longrightarrow> wd_journal w = Some j)"
  have mark: "hoare ?I (if Journal_Done j then ret True else keep_file (\<lambda>w. w\<lparr>wd_pending := True\<rparr>)) (\<lambda>_. ?I)"
    by (intro hoare_if hoare_ret hoare_keep [OF steady_with steady_with [of out anchor "\<lambda>_ acts. journal_ok out anchor acts j"]])
      (simp_all add: inst_inv_def)
  have unmark: "hoare ?K (effect (\<lambda>w. w\<lparr>wd_pending := False\<rparr>)) ?Q"
    by (rule inv_effect) (simp_all add: inst_inv_def)
  have keep: "hoare ?I (keep_file (\<lambda>w. w\<lparr>wd_journal := Some j\<rparr>)) ?Q"
    by (rule hoare_keep [OF steady_with steady_with [of out anchor "\<lambda>journal _. journal = Some j"]])
      (simp_all add: inst_inv_def)
  have last: "hoare (?Q kept) (if \<not> kept then ret False
      else if Journal_Done j then effect (\<lambda>w. w\<lparr>wd_pending := False\<rparr>) else ret True) ?Q" for kept
    by (intro hoare_if hoare_ret hoare_pre [OF unmark]) simp_all
  have "hoare ?I (if \<not> marked then ret False else do {
       kept \<leftarrow> keep_file (\<lambda>w. w\<lparr>wd_journal := Some j\<rparr>);
       if \<not> kept then ret False
       else if Journal_Done j then effect (\<lambda>w. w\<lparr>wd_pending := False\<rparr>) else ret True }) ?Q" for marked
    by (rule hoare_if, rule hoare_ret, simp, rule hoare_bind [OF keep last])
  then show ?thesis unfolding KeepJournal_def by (rule hoare_bind [OF mark])
qed

text \<open>A journal that says how it ended may be kept where what it says was seen.\<close>

lemma keep_last_triple:
  assumes "Journal_Done j"
  shows "hoare (inv_with out anchor (\<lambda>_ acts. journal_ok out anchor acts j))
     (do { kept \<leftarrow> KeepJournal j; if \<not> kept then ret False else pruned j }) (keeps_inv out anchor)"
proof (rule hoare_bind [OF KeepJournal_triple])
  let ?K = "inv_with out anchor (\<lambda>journal _. journal = Some j)"
  have "hoare ?K (pruned j) (keeps_inv out anchor)"
    using hoare_post [OF pruned_triple [of out anchor "\<lambda>journal _. journal = Some j" j], of "keeps_inv out anchor"] assms
    by (auto simp: finished_def)
  then show "hoare (\<lambda>w. inst_inv out anchor w \<and> (kept \<longrightarrow> wd_journal w = Some j))
      (if \<not> kept then ret False else pruned j) (keeps_inv out anchor)" for kept
    using hoare_ret [of "inst_inv out anchor" "keeps_inv out anchor" False] by (cases kept) simp_all
qed

lemma ended_triple: "hoare (inst_inv out anchor) (ended j failure) (keeps_inv out anchor)"
proof -
  have body: "hoare (inst_inv out anchor)
      (do { a \<leftarrow> cleared; b \<leftarrow> KeepJournal k; c \<leftarrow> pruned k; ret (a \<and> b \<and> c) }) (keeps_inv out anchor)"
    if k: "jn_stage k = Stage_failed" for k
  proof -
    have ok: "journal_ok out anchor acts k" for acts
      using k by (simp add: journal_ok_def Journal_Done_def Done_stage_def)
    have last: "hoare (\<lambda>w. inst_inv out anchor w \<and> (b \<longrightarrow> wd_journal w = Some k))
        (do { c \<leftarrow> pruned k; ret (a \<and> b \<and> c) }) (keeps_inv out anchor)" for a b
      using k
      by (intro hoare_bind [OF pruned_triple [of out anchor "\<lambda>journal _. b \<longrightarrow> journal = Some k" k]] hoare_ret)
        (simp add: finished_def Journal_Done_def Done_stage_def)
    have keep: "hoare (inst_inv out anchor) (KeepJournal k) (\<lambda>b w. inst_inv out anchor w \<and> (b \<longrightarrow> wd_journal w = Some k))"
      by (rule hoare_pre [OF KeepJournal_triple]) (simp add: ok)
    have "hoare (inst_inv out anchor) (do { b \<leftarrow> KeepJournal k; c \<leftarrow> pruned k; ret (a \<and> b \<and> c) })
        (keeps_inv out anchor)" for a
      by (rule hoare_bind [OF keep last])
    then show ?thesis
      by (rule hoare_keeps_bind [OF cleared_triple [of out anchor "\<lambda>_ _. True", simplified]])
  qed
  show ?thesis
    unfolding ended_def Let_def
    by (rule hoare_bind [OF hoare_now [where Q = "\<lambda>_. inst_inv out anchor"]]) (simp_all add: body)
qed

section \<open>The package manager and the health check\<close>

definition stands :: "string \<Rightarrow> Journal option \<Rightarrow> bool" where
  "stands name journal \<longleftrightarrow>
     (\<exists>j. journal = Some j \<and> (jn_stage j = Installing \<and> name = jn_target j
                               \<or> jn_stage j = Reverting \<and> name = jn_fallback j))"

lemma Install_triple:
  assumes "authorised out anchor name"
  shows "hoare (inv_with out anchor (\<lambda>journal _. stands name journal)) (Packages_Install name downgrade)
     (\<lambda>_. inst_inv out anchor)"
proof -
  have "hoare (\<lambda>w. inv_with out anchor (\<lambda>journal _. stands name journal) w \<and> wd_journal w = journal
          \<and> wd_dir w name = content) (acted (Install_act name downgrade journal content)) (\<lambda>_. inst_inv out anchor)"
    for journal content
  proof (rule hoare_acted)
    fix w :: "'a world"
    assume w: "inv_with out anchor (\<lambda>journal _. stands name journal) w \<and> wd_journal w = journal \<and> wd_dir w name = content"
    then show "inst_inv out anchor w" by simp
    have "act_ok out anchor (Install_act name downgrade journal content)"
      using w assms by (auto simp: inst_inv_def stands_def)
    then show "inst_inv out anchor (w\<lparr>wd_acts := Install_act name downgrade journal content # wd_acts w\<rparr>)"
      using w inst_inv_acts by blast
  qed
  then have "hoare (\<lambda>w. inv_with out anchor (\<lambda>journal _. stands name journal) w \<and> wd_journal w = journal
      \<and> wd_dir w name = content)
      (do { _ \<leftarrow> acted (Install_act name downgrade journal content); call }) (\<lambda>_. inst_inv out anchor)"
    for journal content
    by (rule hoare_bind) (rule hoare_call; simp)
  then show ?thesis
    unfolding Packages_Install_def by (intro hoare_look_bind) (simp add: conj_assoc)
qed

lemma inst_inv_fields [simp]:
  "inst_inv out anchor (w\<lparr>wd_replies := rs\<rparr>) = inst_inv out anchor w"
  "inst_inv out anchor (w\<lparr>wd_crashed := c\<rparr>) = inst_inv out anchor w"
  "inst_inv out anchor (w\<lparr>wd_clock := ts\<rparr>) = inst_inv out anchor w"
  by (simp_all add: inst_inv_def)

lemma inst_inv_answered:
  "inst_inv out anchor w \<Longrightarrow> act_ok out anchor a \<Longrightarrow>
     inst_inv out anchor (w\<lparr>wd_replies := rs, wd_acts := a # wd_acts w\<rparr>)"
  using inst_inv_acts [of out anchor "w\<lparr>wd_replies := rs\<rparr>" a] by simp

lemma Health_triple:
  "hoare (inst_inv out anchor) (Health_check version)
     (\<lambda>r. inv_with out anchor (\<lambda>_ acts. r = Does \<longrightarrow> Healthy_act version \<in> set acts))"
  by (auto simp: hoare_def Health_check_def call_def acted_def inst_inv_acts inst_inv_answered
      split: list.splits reply.splits)

section \<open>Going on and going back\<close>

text \<open>After a call that may have been stopped: what follows one that did, and one that failed.\<close>

lemma hoare_reply:
  assumes "\<And>w. P Stopped w \<Longrightarrow> Q False w" "hoare (P Does) m Q"
    "hoare (P Fails) n Q" "hoare (P Crashes) n Q"
  shows "hoare (P r) (case r of Stopped \<Rightarrow> ret False | Does \<Rightarrow> m | _ \<Rightarrow> n) Q"
  using assms by (cases r) (auto intro: hoare_ret)

lemma seen_triple:
  assumes "\<And>since acts. R acts \<Longrightarrow> journal_ok out anchor acts (f since)" "\<And>since. Journal_Done (f since)"
  shows "hoare (inv_with out anchor (\<lambda>_. R))
     (do { since \<leftarrow> inst_now; kept \<leftarrow> KeepJournal (f since); if \<not> kept then ret False else pruned (f since) })
     (keeps_inv out anchor)"
proof (rule hoare_keeps_bind [OF now_triple])
  fix since
  show "hoare (inv_with out anchor (\<lambda>_. R))
      (do { kept \<leftarrow> KeepJournal (f since); if \<not> kept then ret False else pruned (f since) }) (keeps_inv out anchor)"
    by (rule hoare_pre [OF keep_last_triple]) (simp_all add: assms)
qed

lemma ended_after: "(\<And>w. P w \<Longrightarrow> inst_inv out anchor w) \<Longrightarrow> hoare P (ended j failure) (keeps_inv out anchor)"
  by (rule hoare_pre [OF ended_triple])

lemma only_inv: "hoare (inst_inv out anchor) m Q \<Longrightarrow> hoare (inv_with out anchor R) m Q"
  by (erule hoare_pre) simp

lemma came_back_triple: "hoare (inst_inv out anchor) (came_back j failure) (keeps_inv out anchor)"
proof -
  have "hoare (inv_with out anchor (\<lambda>_ acts. Healthy_act (jn_previous j) \<in> set acts))
      (do {
         since \<leftarrow> inst_now;
         let back = j\<lparr>jn_stage := RolledBack, jn_since := since\<rparr>;
         kept \<leftarrow> KeepJournal back;
         if \<not> kept then ret False else pruned back }) (keeps_inv out anchor)"
    unfolding Let_def by (rule seen_triple) (simp_all add: journal_ok_def Journal_Done_def Done_stage_def)
  then show ?thesis
    unfolding came_back_def by (intro hoare_bind [OF Health_triple] hoare_reply) (simp_all add: ended_after)
qed

lemma fall_back_triple:
  assumes "authorised out anchor (jn_fallback j)"
  shows "hoare (inv_with out anchor (\<lambda>journal _. stands (jn_fallback j) journal)) (fall_back j failure) (keeps_inv out anchor)"
  unfolding fall_back_def
  by (rule hoare_bind [OF Install_triple [OF assms]], rule hoare_reply [where P = "\<lambda>_. inst_inv out anchor"])
    (simp_all add: ended_after came_back_triple)

text \<open>A step of the journal: it is kept, and what follows is done with it on the disk.\<close>

lemma keep_step_triple:
  assumes "\<And>acts. journal_ok out anchor acts j"
    and "hoare (inv_with out anchor (\<lambda>journal _. journal = Some j)) m (keeps_inv out anchor)"
  shows "hoare (inst_inv out anchor) (do { kept \<leftarrow> KeepJournal j; if \<not> kept then ret False else m }) (keeps_inv out anchor)"
proof (rule hoare_bind [OF hoare_pre [OF KeepJournal_triple]])
  show "hoare (\<lambda>w. inst_inv out anchor w \<and> (kept \<longrightarrow> wd_journal w = Some j)) (if \<not> kept then ret False else m)
      (keeps_inv out anchor)" for kept
    using assms(2) by (cases kept) (auto intro: hoare_ret)
qed (simp add: assms(1))

definition authorised_both :: "'k outside \<Rightarrow> 'k Root \<Rightarrow> Journal \<Rightarrow> bool" where
  "authorised_both out anchor j \<longleftrightarrow> authorised out anchor (jn_target j) \<and> authorised out anchor (jn_fallback j)"

lemma underway_ok:
  "authorised_both out anchor j \<Longrightarrow> jn_stage j \<in> {Installing, Checking, Reverting} \<Longrightarrow> journal_ok out anchor acts j"
  by (auto simp: authorised_both_def journal_ok_def)

lemma stands_at [simp]:
  "stands name (Some j) \<longleftrightarrow> jn_stage j = Installing \<and> name = jn_target j \<or> jn_stage j = Reverting \<and> name = jn_fallback j"
  by (auto simp: stands_def)

lemma revert_triple:
  assumes "authorised_both out anchor j"
  shows "hoare (inv_with out anchor (\<lambda>journal _. jn_stage j = Reverting \<longrightarrow> stands (jn_fallback j) journal))
     (revert j failure) (keeps_inv out anchor)"
proof -
  let ?j = "j\<lparr>jn_failure := failure\<rparr>"
  have a: "authorised out anchor (jn_fallback j)" using assms by (simp add: authorised_both_def)
  have again: "hoare (inv_with out anchor (\<lambda>journal _. stands (jn_fallback j) journal)) (fall_back ?j failure)
      (keeps_inv out anchor)"
    using fall_back_triple [of out anchor ?j failure] a by simp
  have fresh: "hoare (inst_inv out anchor) (do {
       since \<leftarrow> inst_now;
       let k = ?j\<lparr>jn_stage := Reverting, jn_since := since\<rparr>;
       kept \<leftarrow> KeepJournal k;
       if \<not> kept then ret False else fall_back k failure }) (keeps_inv out anchor)"
    unfolding Let_def
  proof (intro hoare_keeps_bind [OF now_triple [of out anchor "\<lambda>_ _. True", simplified]] keep_step_triple)
    fix since acts
    let ?k = "?j\<lparr>jn_stage := Reverting, jn_since := since\<rparr>"
    show "journal_ok out anchor acts ?k" using assms by (intro underway_ok) (simp_all add: authorised_both_def)
    show "hoare (inv_with out anchor (\<lambda>journal _. journal = Some ?k)) (fall_back ?k failure) (keeps_inv out anchor)"
      using a by (intro hoare_pre [OF fall_back_triple]) auto
  qed
  show ?thesis
    unfolding revert_def Let_def
    by (intro hoare_look_bind hoare_if ended_after hoare_pre [OF again] hoare_pre [OF fresh [unfolded Let_def]]) simp_all
qed

lemma check_triple:
  assumes "authorised_both out anchor j" "jn_stage j \<noteq> Reverting"
  shows "hoare (inst_inv out anchor) (check j) (keeps_inv out anchor)"
proof -
  have "hoare (inv_with out anchor (\<lambda>_ acts. Healthy_act (jn_version j) \<in> set acts))
      (do {
         since \<leftarrow> inst_now;
         let finished = j\<lparr>jn_stage := Installed, jn_since := since, jn_failure := No_failure\<rparr>;
         kept \<leftarrow> KeepJournal finished;
         if \<not> kept then ret False else pruned finished }) (keeps_inv out anchor)"
    unfolding Let_def by (rule seen_triple) (simp_all add: journal_ok_def Journal_Done_def Done_stage_def)
  moreover have "hoare (inst_inv out anchor) (revert j Unhealthy) (keeps_inv out anchor)"
    using assms(2) by (intro hoare_pre [OF revert_triple [OF assms(1)]]) simp
  ultimately show ?thesis
    unfolding check_def by (intro hoare_bind [OF Health_triple] hoare_reply) simp_all
qed

lemma install_triple:
  assumes "authorised_both out anchor j" "jn_stage j = Installing"
  shows "hoare (inv_with out anchor (\<lambda>journal _. journal = Some j)) (install j) (keeps_inv out anchor)"
proof -
  have undo: "hoare (inst_inv out anchor) (revert j Installation) (keeps_inv out anchor)"
    using assms(2) by (intro hoare_pre [OF revert_triple [OF assms(1)]]) simp
  have onward: "hoare (inst_inv out anchor) (do {
         since \<leftarrow> inst_now;
         let checking = j\<lparr>jn_stage := Checking, jn_since := since\<rparr>;
         kept \<leftarrow> KeepJournal checking;
         if \<not> kept then ret False else check checking }) (keeps_inv out anchor)"
    unfolding Let_def
  proof (intro hoare_keeps_bind [OF now_triple [of out anchor "\<lambda>_ _. True", simplified]] keep_step_triple)
    fix since acts
    let ?k = "j\<lparr>jn_stage := Checking, jn_since := since\<rparr>"
    have k: "authorised_both out anchor ?k" using assms by (simp add: authorised_both_def)
    show "journal_ok out anchor acts ?k" using k by (intro underway_ok) simp_all
    show "hoare (inv_with out anchor (\<lambda>journal _. journal = Some ?k)) (check ?k) (keeps_inv out anchor)"
      using k by (intro hoare_pre [OF check_triple]) simp_all
  qed
  have a: "authorised out anchor (jn_target j)" using assms by (simp add: authorised_both_def)
  show ?thesis
    unfolding install_def
    by (rule hoare_bind [OF hoare_pre [OF Install_triple [OF a]]])
      (use assms(2) undo onward in \<open>auto intro!: hoare_reply [where P = "\<lambda>_. inst_inv out anchor"]\<close>)
qed

lemma resume_triple:
  assumes "\<not> Journal_Done j"
  shows "hoare (inv_with out anchor (\<lambda>journal _. journal = Some j)) (resume j) (keeps_inv out anchor)"
proof (rule hoare_assume)
  show "authorised_both out anchor j" if "inv_with out anchor (\<lambda>journal _. journal = Some j) w" for w :: "'a world"
    using that assms by (auto simp: inst_inv_def journal_ok_def authorised_both_def)
next
  assume a: "authorised_both out anchor j"
  have "hoare (inv_with out anchor (\<lambda>journal _. journal = Some j)) (revert j (jn_failure j)) (keeps_inv out anchor)"
    if "jn_stage j = Reverting"
    using that by (intro hoare_pre [OF revert_triple [OF a]]) auto
  then show "hoare (inv_with out anchor (\<lambda>journal _. journal = Some j)) (resume j) (keeps_inv out anchor)"
    unfolding resume_def using install_triple [OF a] only_inv [OF check_triple [OF a]] only_inv [OF ended_triple]
    by (cases "jn_stage j") simp_all
qed

section \<open>Taking a release\<close>

text \<open>A package is in the directory under its name only when it has the digest of the name.\<close>

lemma written_triple:
  "hoare (inv_with out anchor R) (written out (PackageName (rs_sha256 release)) release content)
     (\<lambda>_. inv_with out anchor R)"
proof -
  have "hoare (inv_with out anchor R)
      (keep_file (\<lambda>w. w\<lparr>wd_dir := (wd_dir w)(PackageName (rs_sha256 release) \<mapsto> content)\<rparr>)) (\<lambda>_. inv_with out anchor R)"
    if "Sum256 out content = rs_sha256 release"
    using that
    by (intro hoare_keep [OF steady_with steady_with [of out anchor R]]) (auto simp: inst_inv_def)
  then show ?thesis
    unfolding written_def by (intro hoare_keeps_bind [OF idle_triple] hoare_if hoare_ret) simp_all
qed

lemma Take_triple:
  "hoare (inv_with out anchor R) (Staging_Take out release) (\<lambda>_. inv_with out anchor R)"
  unfolding Staging_Take_def
proof (intro hoare_keeps_bind [OF idle_triple] hoare_look_bind)
  show "hoare (\<lambda>w. inv_with out anchor R w \<and> wd_staged w (PackageName (rs_sha256 release)) = source)
      (case source of None \<Rightarrow> ret False
       | Some content \<Rightarrow> if \<not> opened \<or> length content \<noteq> unat (rs_size release) then ret False
           else written out (PackageName (rs_sha256 release)) release (take (unat (rs_size release) + 1) content))
      (\<lambda>_. inv_with out anchor R)" for opened source
    by (cases source) (auto intro!: hoare_ret hoare_pre [OF written_triple] hoare_if)
qed

lemmas keeps_I = idle_triple [where R = "\<lambda>_ _. True", simplified] Take_triple [where R = "\<lambda>_ _. True", simplified]
  clear_triple [where R = "\<lambda>_ _. True", simplified]

lemma take_release_triple:
  assumes "authorised out anchor (PackageName (rs_sha256 target))" "authorised out anchor (PackageName (rs_sha256 current))"
  shows "hoare (inst_inv out anchor) (take_release out j target current) (keeps_inv out anchor)"
proof -
  let ?j = "j\<lparr>jn_target := PackageName (rs_sha256 target), jn_fallback := PackageName (rs_sha256 current),
      jn_previous_state := rs_generation current\<rparr>"
  let ?k = "?j\<lparr>jn_stage := Installing\<rparr>"
  have a: "authorised_both out anchor ?k" using assms by (simp add: authorised_both_def)
  have "hoare (inst_inv out anchor) (do { kept \<leftarrow> KeepJournal ?k; if \<not> kept then ret False else install ?k })
      (keeps_inv out anchor)"
    using underway_ok [OF a] by (intro keep_step_triple install_triple [OF a]) simp_all
  then show ?thesis
    unfolding take_release_def Let_def Packages_Matches_def
    by (intro hoare_keeps_bind [OF keeps_I(1)] hoare_keeps_bind [OF keeps_I(2)] hoare_keeps_bind [OF keeps_I(3)]
        hoare_if ended_triple hoare_ret) simp_all
qed

text \<open>What is kept after a judgement is what the chain of roots leads to.\<close>

lemma trusted_step:
  assumes "trusted out anchor r" "(leads_to out now)\<^sup>*\<^sup>* r r'" "sound_root r'"
  shows "trusted out anchor r'"
proof -
  have "(\<lambda>a b. \<exists>now. leads_to out now a b)\<^sup>*\<^sup>* r r'" using assms(2) by (rule rtranclp_mono [THEN predicate2D, rotated]) auto
  then show ?thesis using assms(1,3) rtranclp_trans [of "\<lambda>a b. \<exists>now. leads_to out now a b" anchor r r']
    by (simp add: trusted_def)
qed

lemma judged_trusted:
  assumes "trusted out anchor (hl_root held)" "Judge out offer held running now = (judged, err)"
  shows "trusted out anchor (jd_root judged)" "trusted out anchor (hl_root (keep_progress held judged))"
proof -
  have s: "sound_root (hl_root held)" using assms(1) by (simp add: trusted_def)
  show "trusted out anchor (hl_root (keep_progress held judged))"
    using trusted_step [OF assms(1)] keep_progress_root [OF s assms(2)] by blast
  have "jd_root judged = Root_Walk out (hl_root held) (of_roots offer) now"
    using Judge_root [of out offer held running now] assms(2) by simp
  then show "trusted out anchor (jd_root judged)"
    using trusted_step [OF assms(1)] Root_Walk_chain [OF s, where out = out and now = now and roots = "of_roots offer"] by metis
qed

lemma judged_authorised:
  assumes "trusted out anchor (hl_root held)" "Judge out offer held running now = (judged, err)"
    and "jd_target judged = Some target" "jd_current judged = Some current"
  shows "authorised out anchor (PackageName (rs_sha256 target))" "authorised out anchor (PackageName (rs_sha256 current))"
proof -
  obtain c where c: "jd_catalog judged = Some c"
    and j: "judge_release c running (Catalog_Release c (of_version offer) (ru_os running) (ru_architecture running)
       (ru_format running)) = Inr (Some (target, current))"
    by (rule Judge_target [OF assms(2,3)]) (use assms(4) in simp)
  obtain envelope where e: "Root_Catalog out (jd_root judged) envelope now = Inr c"
    using Judge_catalog(1) [OF assms(2) c] by blast
  have "target \<in> set (cm_releases (ca_msg c))" "current \<in> set (cm_releases (ca_msg c))"
    using judge_release_Some(1,3) [OF j] Catalog_Release_Some(1) by metis+
  then show "authorised out anchor (PackageName (rs_sha256 target))" "authorised out anchor (PackageName (rs_sha256 current))"
    unfolding authorised_def using judged_trusted(1) [OF assms(1,2)] e Judge_catalog(3,4) [OF assms(2) c] by blast+
qed

text \<open>Where nothing is under way, the installer takes what is staged.\<close>

abbreviation at_rest :: "Journal option \<Rightarrow> act list \<Rightarrow> bool" where
  "at_rest journal acts \<equiv> \<forall>j. journal = Some j \<longrightarrow> Journal_Done j"

lemma rest_clear: "hoare (inv_with out anchor at_rest) Staging_Clear (keeps_inv out anchor)"
  by (rule hoare_post [OF clear_triple]) (simp add: finished_def)

lemma rest_clear_fails:
  "hoare (inv_with out anchor at_rest) (do { _ \<leftarrow> Staging_Clear; ret False }) (keeps_inv out anchor)"
  by (rule hoare_keeps_bind [OF clear_triple]) (rule hoare_ret, simp)

lemma keep_held_triple:
  assumes "trusted out anchor (hl_root held)"
  shows "hoare (inv_with out anchor R) (if b then keep_file (\<lambda>w. w\<lparr>wd_held := Inr held\<rparr>) else ret True)
     (\<lambda>_. inv_with out anchor R)"
  using assms
  by (intro hoare_if hoare_ret hoare_keep [OF steady_with steady_with [of out anchor R]]) (auto simp: inst_inv_def)

lemma take_judged_triple:
  assumes "trusted out anchor (hl_root held)" "Judge out offer held running now = (judged, err)"
  shows "hoare (inv_with out anchor at_rest) (take_judged out j held judged err) (keeps_inv out anchor)"
proof -
  have "hoare (inv_with out anchor at_rest)
      (case err of
         Some err \<Rightarrow> ended k (failureOf err)
       | None \<Rightarrow> (case (jd_target judged, jd_current judged) of
             (Some target, Some current) \<Rightarrow> take_release out k target current
           | _ \<Rightarrow> Staging_Clear)) (keeps_inv out anchor)" for k
    using judged_authorised [OF assms]
    by (auto split: option.splits intro!: only_inv [OF ended_triple] only_inv [OF take_release_triple] rest_clear)
  then show ?thesis
    unfolding take_judged_def Let_def
    by (intro hoare_keeps_bind [OF keep_held_triple [OF judged_trusted(2) [OF assms]]] hoare_if rest_clear_fails)
qed

lemma inst_take_triple: "hoare (inv_with out anchor at_rest) (inst_take out running) (keeps_inv out anchor)"
proof -
  have judged: "hoare (\<lambda>w. inv_with out anchor at_rest w \<and> wd_held w = held)
      (case held of Inl _ \<Rightarrow> ended j Refused_release
       | Inr held \<Rightarrow> (case Judge out offer held running now of (judged, err) \<Rightarrow> take_judged out j held judged err))
      (keeps_inv out anchor)" for held j offer now
  proof (cases held)
    case (Inr h)
    obtain judged err where J: "Judge out offer h running now = (judged, err)" by fastforce
    show ?thesis
      unfolding Inr sum.case J prod.case
    proof (rule hoare_assume)
      show "trusted out anchor (hl_root h)" if "inv_with out anchor at_rest w \<and> wd_held w = Inr h" for w
        using that by (simp add: inst_inv_def)
    next
      assume t: "trusted out anchor (hl_root h)"
      show "hoare (\<lambda>w. inv_with out anchor at_rest w \<and> wd_held w = Inr h) (take_judged out j h judged err)
          (keeps_inv out anchor)"
        by (rule hoare_pre [OF take_judged_triple [OF t J]]) simp
    qed
  qed (simp, rule hoare_pre [OF ended_triple], simp)
  show ?thesis
    unfolding inst_take_def Let_def
  proof (intro hoare_keeps_bind [OF now_triple] hoare_look_bind)
    show "hoare (\<lambda>w. inv_with out anchor at_rest w \<and> wd_offer w = offer)
        (case offer of None \<Rightarrow> do { _ \<leftarrow> Staging_Clear; ret False }
         | Some offer \<Rightarrow> do { held \<leftarrow> look wd_held;
              case held of Inl _ \<Rightarrow> ended (f offer now) Refused_release
              | Inr held \<Rightarrow> (case Judge out offer held running now of
                  (judged, err) \<Rightarrow> take_judged out (f offer now) held judged err) })
        (keeps_inv out anchor)" for offer now and f :: "Offer \<Rightarrow> time \<Rightarrow> Journal"
      by (cases offer) (auto intro!: hoare_pre [OF rest_clear_fails] hoare_look_bind hoare_pre [OF judged])
  qed
qed

text \<open>A run, whatever it finds and whatever the host answers.\<close>

lemma inst_Run_triple: "hoare (inst_inv out anchor) (inst_Run out running) (keeps_inv out anchor)"
proof -
  have staged: "hoare (inv_with out anchor at_rest)
      (do { ready \<leftarrow> look (\<lambda>w. wd_staging w \<and> wd_ready w); if ready then inst_take out running else ret True })
      (keeps_inv out anchor)"
    by (intro hoare_look_bind hoare_if hoare_pre [OF inst_take_triple] hoare_ret) (simp_all add: finished_def)
  have "hoare (\<lambda>w. inst_inv out anchor w \<and> wd_journal w = journal)
      (if \<not> read then ret False
       else case journal of
         Some j \<Rightarrow> if \<not> Journal_Done j then resume j
                   else do { ready \<leftarrow> look (\<lambda>w. wd_staging w \<and> wd_ready w);
                             if ready then inst_take out running else ret True }
       | None \<Rightarrow> do { ready \<leftarrow> look (\<lambda>w. wd_staging w \<and> wd_ready w);
                      if ready then inst_take out running else ret True })
      (keeps_inv out anchor)" for read journal
    by (cases journal) (auto intro!: hoare_ret hoare_pre [OF staged] resume_triple)
  then show ?thesis
    unfolding inst_Run_def by (intro hoare_keeps_bind [OF keeps_I(1)] hoare_look_bind)
qed

section \<open>Runs, crashes and starts\<close>

text \<open>
  What happens to the installer's state: a run, with whatever the host answers, which may end in a
  crash; a start, after which the host answers anew; what the agent leaves in the staging area; and
  the state the agent keeps, which may move on to another generation.
\<close>

inductive inst_step :: "'k outside \<Rightarrow> 'k world \<Rightarrow> 'k world \<Rightarrow> bool" for out where
  Inst_runs: "inst_step out w (snd (run_state (inst_Run out running) w))"
| Inst_starts: "inst_step out w (w\<lparr>wd_replies := replies, wd_clock := clock, wd_crashed := False\<rparr>)"
| Inst_stages: "inst_step out w (w\<lparr>wd_staging := there, wd_ready := ready, wd_offer := offer, wd_staged := staged\<rparr>)"
| Inst_moves: "inst_step out w (w\<lparr>wd_generation := generation\<rparr>)"

lemma inst_Run_keeps:
  assumes "inst_inv out anchor w"
  shows "inst_inv out anchor (snd (run_state (inst_Run out running) w))"
    "fst (run_state (inst_Run out running) w) \<Longrightarrow> finished (snd (run_state (inst_Run out running) w))"
  using inst_Run_triple [of out anchor running] assms by (auto simp: hoare_def split_beta)

lemma inst_step_inv: "inst_step out w w' \<Longrightarrow> inst_inv out anchor w \<Longrightarrow> inst_inv out anchor w'"
  by (induction rule: inst_step.induct) (simp_all add: inst_Run_keeps, simp_all add: inst_inv_def)

lemma inst_steps_inv: "(inst_step out)\<^sup>*\<^sup>* w w' \<Longrightarrow> inst_inv out anchor w \<Longrightarrow> inst_inv out anchor w'"
  by (induction rule: rtranclp_induct) (auto intro: inst_step_inv)

text \<open>An installer that was never run: nothing is written, nothing was done, and the root is the provisioned one.\<close>

definition first_world :: "'k Root \<Rightarrow> 'k world" where
  "first_world anchor = \<lparr>wd_journal = None, wd_pending = False, wd_staging = False, wd_ready = False, wd_offer = None,
     wd_staged = Map.empty, wd_dir = Map.empty, wd_held = Inr \<lparr>hl_root = anchor, hl_catalog = 0\<rparr>,
     wd_generation = 0, wd_replies = [], wd_clock = [], wd_crashed = False, wd_acts = []\<rparr>"

lemma first_world_inv: "sound_root anchor \<Longrightarrow> inst_inv out anchor (first_world anchor)"
  by (simp add: inst_inv_def first_world_def trusted_def)

section \<open>A run on a host that answers\<close>

definition answers :: "'k world \<Rightarrow> bool" where
  "answers w \<longleftrightarrow> wd_replies w = [] \<and> \<not> wd_crashed w"

lemma run_call: "answers w \<Longrightarrow> run_state call w = (Does, w)"
  by (simp add: call_def answers_def)

lemma run_effect: "answers w \<Longrightarrow> run_state (effect f) w = (True, f w)"
  by (simp add: effect_def run_call)

lemma run_keep: "answers w \<Longrightarrow> answers (f w) \<Longrightarrow> run_state (keep_file f) w = (True, f w)"
  by (simp add: keep_file_def run_effect)

lemma run_KeepJournal:
  "answers w \<Longrightarrow> run_state (KeepJournal j) w
     = (True, w\<lparr>wd_journal := Some j, wd_pending := \<not> Journal_Done j\<rparr>)"
  by (simp add: KeepJournal_def run_keep run_effect answers_def)

lemma run_prune: "answers w \<Longrightarrow> \<exists>d. run_state (prune_one name) w = (True, w\<lparr>wd_dir := d\<rparr>)"
  unfolding prune_one_def
  by (cases "name = [] \<or> length name < 4 \<or> drop (length name - 4) name \<noteq> packageSuffix
      \<or> \<not> hex_valid (take (length name - 4) name)")
    (simp add: exI [of _ "wd_dir w"], auto simp: run_effect)

lemma run_pruned: "answers w \<Longrightarrow> \<exists>d. run_state (pruned j) w = (True, w\<lparr>wd_dir := d\<rparr>)"
proof -
  assume w: "answers w"
  obtain d where d: "run_state (prune_one (jn_target j)) w = (True, w\<lparr>wd_dir := d\<rparr>)" using run_prune [OF w] by blast
  have "answers (w\<lparr>wd_dir := d\<rparr>)" using w by (simp add: answers_def)
  then obtain e where "run_state (prune_one (jn_fallback j)) (w\<lparr>wd_dir := d\<rparr>) = (True, w\<lparr>wd_dir := d, wd_dir := e\<rparr>)"
    using run_prune by blast
  then show ?thesis using d by (auto simp: pruned_def)
qed

text \<open>How a run on such a host ends: it says it went well, and the journal says what became of the release.\<close>

definition ends :: "('k, bool) inst \<Rightarrow> 'k world \<Rightarrow> Stage \<Rightarrow> Journal \<Rightarrow> bool" where
  "ends m w stage j \<longleftrightarrow> (case run_state m w of (r, w') \<Rightarrow> r \<and> \<not> wd_pending w'
     \<and> (\<exists>j'. wd_journal w' = Some j' \<and> jn_stage j' = stage \<and> jn_version j' = jn_version j \<and> jn_previous j' = jn_previous j))"

lemma now_answers: "answers w \<Longrightarrow> answers (snd (run_state inst_now w))"
  by (simp add: inst_now_def answers_def split: list.splits)

lemma ends_seen:
  assumes "answers w" "\<And>since. jn_stage (f since) = stage \<and> Done_stage stage"
    "\<And>since. jn_version (f since) = jn_version j \<and> jn_previous (f since) = jn_previous j"
  shows "ends (do { since \<leftarrow> inst_now; kept \<leftarrow> KeepJournal (f since); if \<not> kept then ret False else pruned (f since) }) w stage j"
proof -
  let ?w = "snd (run_state inst_now w)" let ?k = "f (fst (run_state inst_now w))"
  have k: "run_state (KeepJournal ?k) ?w = (True, ?w\<lparr>wd_journal := Some ?k, wd_pending := \<not> Journal_Done ?k\<rparr>)"
    by (rule run_KeepJournal [OF now_answers [OF assms(1)]])
  have "answers (?w\<lparr>wd_journal := Some ?k, wd_pending := \<not> Journal_Done ?k\<rparr>)"
    using now_answers [OF assms(1)] by (simp add: answers_def)
  then obtain d where "run_state (pruned ?k) (?w\<lparr>wd_journal := Some ?k, wd_pending := \<not> Journal_Done ?k\<rparr>)
      = (True, ?w\<lparr>wd_journal := Some ?k, wd_pending := \<not> Journal_Done ?k, wd_dir := d\<rparr>)"
    using run_pruned [of "?w\<lparr>wd_journal := Some ?k, wd_pending := \<not> Journal_Done ?k\<rparr>" ?k] by auto
  then show ?thesis
    using assms(2,3) k by (simp add: ends_def split_beta Journal_Done_def)
qed

lemma run_Health: "answers w \<Longrightarrow> run_state (Health_check v) w = (Does, w\<lparr>wd_acts := Healthy_act v # wd_acts w\<rparr>)"
  by (simp add: Health_check_def run_call acted_def answers_def)

lemma run_Install:
  "answers w \<Longrightarrow> run_state (Packages_Install name d) w
     = (Does, w\<lparr>wd_acts := Install_act name d (wd_journal w) (wd_dir w name) # wd_acts w\<rparr>)"
  by (simp add: Packages_Install_def look_def run_call acted_def answers_def)

lemma answers_fields [simp]:
  "answers (w\<lparr>wd_acts := a\<rparr>) = answers w" "answers (w\<lparr>wd_journal := j\<rparr>) = answers w"
  "answers (w\<lparr>wd_pending := p\<rparr>) = answers w"
  by (simp_all add: answers_def)

lemma ends_bind: "run_state m w = (x, w') \<Longrightarrow> ends (m \<bind> f) w stage j \<longleftrightarrow> ends (f x) w' stage j"
  by (simp add: ends_def)

lemma ends_check: "answers w \<Longrightarrow> ends (check j) w Installed j"
  unfolding check_def Let_def
  by (simp add: ends_bind [OF run_Health]) (rule ends_seen; simp add: Done_stage_def)

lemma ends_cong: "jn_version j = jn_version k \<Longrightarrow> jn_previous j = jn_previous k \<Longrightarrow> ends m w stage j = ends m w stage k"
  by (simp add: ends_def)

lemma ends_install: "answers w \<Longrightarrow> ends (install j) w Installed j"
proof -
  assume w: "answers w"
  let ?w = "w\<lparr>wd_acts := Install_act (jn_target j) (older (jn_version j) (jn_previous j)) (wd_journal w)
      (wd_dir w (jn_target j)) # wd_acts w\<rparr>"
  let ?v = "snd (run_state inst_now ?w)" let ?k = "j\<lparr>jn_stage := Checking, jn_since := fst (run_state inst_now ?w)\<rparr>"
  have v: "answers ?v" using w by (intro now_answers) simp
  have n: "run_state inst_now ?w = (fst (run_state inst_now ?w), ?v)" by simp
  have "ends (check ?k) (?v\<lparr>wd_journal := Some ?k, wd_pending := \<not> Journal_Done ?k\<rparr>) Installed ?k"
    using v by (intro ends_check) simp
  then show ?thesis
    unfolding install_def Let_def
    by (simp add: ends_bind [OF run_Install [OF w]] ends_bind [OF n] ends_bind [OF run_KeepJournal [OF v]] ends_cong [of ?k j] del: prod.collapse)
qed

lemma ends_fall_back: "answers w \<Longrightarrow> ends (fall_back j failure) w RolledBack j"
  unfolding fall_back_def came_back_def Let_def
  by (simp add: ends_bind [OF run_Install] ends_bind [OF run_Health]) (rule ends_seen; simp add: Done_stage_def)

lemma ends_revert:
  assumes "answers w" "jn_stage j = Reverting" "\<not> jn_previous_state j < wd_generation w"
  shows "ends (revert j failure) w RolledBack j"
  using assms(2,3) ends_fall_back [OF assms(1), of "j\<lparr>jn_failure := failure\<rparr>"]
  by (simp add: revert_def ends_def look_def Let_def)

lemma ends_Run:
  assumes "answers w" "wd_journal w = Some j" "jn_stage j = Installing \<or> jn_stage j = Checking \<or> jn_stage j = Reverting"
    and "jn_stage j = Reverting \<Longrightarrow> \<not> jn_previous_state j < wd_generation w"
  shows "ends (inst_Run out running) w (if jn_stage j = Reverting then RolledBack else Installed) j"
proof -
  have "ends (resume j) w (if jn_stage j = Reverting then RolledBack else Installed) j"
    using assms(3,4) ends_install [OF assms(1)] ends_check [OF assms(1)] ends_revert [OF assms(1)]
    unfolding resume_def by (elim disjE) simp_all
  moreover have "\<not> Journal_Done j" using assms(3) by (auto simp: Journal_Done_def Done_stage_def)
  ultimately show ?thesis
    using assms(2) by (simp add: inst_Run_def ends_def run_effect [OF assms(1)] look_def)
qed

end
