(* ===== verification/Install_Samples.thy ===== *)
theory Install_Samples
  imports Update_Samples Update_Install_Inv
begin

text \<open>
  An installer to apply the theorems to: the agent staged release 1.1.0 beside the release it runs,
  and the first run of the installer is stopped while the package manager works.
\<close>

definition sample_package :: string where
  "sample_package = PackageName (replicate 32 0)"

definition staged_world :: "unit world" where
  "staged_world = (first_world sample_root)\<lparr>wd_staging := True, wd_ready := True, wd_offer := Some (sample_offer [] 3),
     wd_staged := [sample_package \<mapsto> [9]]\<rparr>"

definition stopped_world :: "unit world" where
  "stopped_world = staged_world\<lparr>wd_replies := 
     [Does, Does, Does, Does, Does, Does, Does, Does, Does, Does, Does, Does, Does, Does, Does, Does, Does, Does, Does, Stopped], wd_clock := [5], wd_crashed := False\<rparr>"

definition sample_judged :: "unit Judgment" where
  "sample_judged = \<lparr>jd_root = sample_root, jd_catalog = Some \<lparr>ca_msg = sample_catalog_msg 3, ca_served = []\<rparr>,
     jd_version = ''v1.1.0'', jd_target = Some (sample_release ''v1.1.0''), jd_current = Some (sample_release ''v1.0.0'')\<rparr>"

definition sample_journal :: Journal where
  "sample_journal = \<lparr>jn_stage = Installing, jn_version = ''v1.1.0'', jn_previous = ''v1.0.0'', jn_previous_state = 1,
     jn_catalog = 3, jn_root = 1, jn_target = sample_package, jn_fallback = sample_package, jn_started = 5, jn_since = 5,
     jn_failure = No_failure\<rparr>"

lemma sample_Judge:
  "Judge sample_out (sample_offer [] 3) \<lparr>hl_root = sample_root, hl_catalog = 0\<rparr> sample_running 5 = (sample_judged, None)"
proof -
  have c: "Root_Catalog sample_out sample_root (catalog_envelope 3) 5 = Inr \<lparr>ca_msg = sample_catalog_msg 3, ca_served = []\<rparr>"
    by (subst sample_Catalog) (simp_all add: sample_root_def sample_root_msg_def)
  have e: "\<not> Root_Expired sample_root 5"
    by (simp add: Root_Expired_def Root_ExpiresAt_def sample_root_def sample_root_msg_def duration_defs)
  have j: "judge_release \<lparr>ca_msg = sample_catalog_msg 3, ca_served = []\<rparr> sample_running (Some (sample_release ''v1.1.0''))
      = Inr (Some (sample_release ''v1.1.0'', sample_release ''v1.0.0''))"
    by (simp add: judge_release_def sample_release_def sample_running_def parsed_def sample_parse Version_Compare_def
        compareNumbers_def Catalog_Release_def sample_catalog_msg_def Version_String_def Let_def word_less_nat_alt)
  show ?thesis
    using j
    by (simp add: sample_judged_def Judge_def sample_offer_def c e Catalog_Version_def Catalog_Expired_def Catalog_ExpiresAt_def
        sample_catalog_msg_def duration_defs sample_running_def parsed_def sample_parse Version_String_def
        Catalog_Release_def sample_release_def)
qed

lemma call_Does: "\<not> wd_crashed w \<Longrightarrow> wd_replies w = Does # rs \<Longrightarrow> run_state call w = (Does, w\<lparr>wd_replies := rs\<rparr>)"
  by (simp add: call_def)

lemma effect_Does:
  "\<not> wd_crashed w \<Longrightarrow> wd_replies w = Does # rs \<Longrightarrow> run_state (effect f) w = (True, f (w\<lparr>wd_replies := rs\<rparr>))"
  by (simp add: effect_def call_Does)

lemma keep_Does:
  "\<not> wd_crashed w \<Longrightarrow> wd_replies w = Does # Does # rs \<Longrightarrow> \<not> wd_crashed (f (w\<lparr>wd_replies := Does # rs\<rparr>))
     \<Longrightarrow> wd_replies (f (w\<lparr>wd_replies := Does # rs\<rparr>)) = Does # rs
     \<Longrightarrow> run_state (keep_file f) w = (True, (f (w\<lparr>wd_replies := Does # rs\<rparr>))\<lparr>wd_replies := rs\<rparr>)"
  by (simp add: keep_file_def effect_Does)

lemma sample_Take:
  assumes "\<not> wd_crashed w" "wd_replies w = Does # Does # Does # Does # rs" "wd_staged w sample_package = Some [9]"
  shows "run_state (Staging_Take sample_out (sample_release v)) w
     = (True, w\<lparr>wd_dir := (wd_dir w)(sample_package \<mapsto> [9]), wd_replies := rs\<rparr>)"
proof -
  have r: "rs_sha256 (sample_release v) = replicate 32 0" "unat (rs_size (sample_release v)) = 1"
    "Sum256 sample_out [9] = replicate 32 0"
    by (simp_all add: sample_release_def sample_out_def)
  show ?thesis
    unfolding Staging_Take_def written_def r sample_package_def [symmetric]
    using assms by (simp add: effect_Does keep_Does look_def r)
qed

lemma sample_values:
  "of_version (sample_offer roots n) = ''v1.1.0''" "Version_String (ru_version sample_running) = ''v1.0.0''"
  "Root_Version sample_root = 1" "Catalog_Version \<lparr>ca_msg = sample_catalog_msg m, ca_served = []\<rparr> = m"
  "PackageName (rs_sha256 (sample_release v)) = sample_package" "rs_generation (sample_release v) = 1"
  "older ''v1.1.0'' ''v1.0.0'' = False"
  by (simp_all add: sample_offer_def sample_running_def parsed_def sample_parse Version_String_def Root_Version_def
      sample_root_def sample_root_msg_def Catalog_Version_def sample_catalog_msg_def sample_package_def sample_release_def
      older_def Version_Compare_def compareNumbers_def word_less_nat_alt)

text \<open>The run that is stopped: the packages are taken, the journal is written, and the package manager was asked.\<close>

lemma stopped_run:
  "\<exists>w. run_state (inst_Run sample_out sample_running) stopped_world = (False, w)
     \<and> wd_journal w = Some sample_journal \<and> wd_generation w = 0
     \<and> Install_act sample_package False (Some sample_journal) (Some [9]) \<in> set (wd_acts w)"
  unfolding inst_Run_def inst_take_def take_judged_def take_release_def install_def stopped_world_def staged_world_def
    first_world_def sample_values
  by (simp add: effect_Does keep_Does look_def inst_now_def sample_Judge sample_Take Staging_Clear_def Packages_Matches_def
      KeepJournal_def Journal_Done_def Done_stage_def Packages_Install_def acted_def call_def sample_judged_def
      Judgment_Held_def sample_values Let_def sample_journal_def)

lemma stopped_reached:
  obtains w where "(inst_step sample_out)\<^sup>*\<^sup>* (first_world sample_root) w" "answers w" "wd_journal w = Some sample_journal"
    "wd_generation w = 0" "Install_act sample_package False (Some sample_journal) (Some [9]) \<in> set (wd_acts w)"
proof -
  obtain w where w: "run_state (inst_Run sample_out sample_running) stopped_world = (False, w)"
    "wd_journal w = Some sample_journal" "wd_generation w = 0"
    "Install_act sample_package False (Some sample_journal) (Some [9]) \<in> set (wd_acts w)"
    using stopped_run by blast
  have "inst_step sample_out (first_world sample_root) staged_world"
    unfolding staged_world_def by (rule Inst_stages)
  moreover have "inst_step sample_out staged_world stopped_world"
    unfolding stopped_world_def by (rule Inst_starts)
  moreover have "inst_step sample_out stopped_world w"
    using Inst_runs [of sample_out stopped_world sample_running] w(1) by simp
  moreover have "inst_step sample_out w (w\<lparr>wd_replies := [], wd_clock := [], wd_crashed := False\<rparr>)"
    by (rule Inst_starts)
  ultimately have "(inst_step sample_out)\<^sup>*\<^sup>* (first_world sample_root) (w\<lparr>wd_replies := [], wd_clock := [], wd_crashed := False\<rparr>)"
    by (meson rtranclp.rtrancl_into_rtrancl rtranclp.rtrancl_refl)
  then show thesis using that w by (simp add: answers_def)
qed

lemma installed_reached:
  obtains w j where "(inst_step sample_out)\<^sup>*\<^sup>* (first_world sample_root) w" "wd_journal w = Some j" "jn_stage j = Installed"
    "jn_version j = ''v1.1.0''"
proof -
  obtain w where w: "(inst_step sample_out)\<^sup>*\<^sup>* (first_world sample_root) w" "answers w" "wd_journal w = Some sample_journal"
    using stopped_reached by blast
  have "ends (inst_Run sample_out sample_running) w Installed sample_journal"
    using ends_Run [OF w(2,3), of sample_out sample_running] by (simp add: sample_journal_def)
  then obtain j where "wd_journal (snd (run_state (inst_Run sample_out sample_running) w)) = Some j"
    "jn_stage j = Installed" "jn_version j = ''v1.1.0''"
    by (auto simp: ends_def split_beta sample_journal_def)
  then show thesis
    using that rtranclp.rtrancl_into_rtrancl [OF w(1) Inst_runs] by blast
qed

end
