(* ===== verification/Governor_Pool.thy ===== *)
theory Governor_Pool
  imports Governor_Queue
begin

text \<open>
  The slots of scans and uploads, \<open>pool\<close> of \<open>internal/governor/queue.go\<close>. \<open>pl_granted\<close> are the
  waiters whose \<open>granted\<close> is set and who have not put their slot back. \<open>acquire\<close> is taken apart at
  its wait: \<open>pool_enter\<close> before it, and \<open>pool_waited\<close> after it, with whether the context has ended.
\<close>

record pool =
  pl_capacity :: int
  pl_reserved :: int
  pl_held :: "work_class \<Rightarrow> int"
  pl_modules :: "string \<rightharpoonup> int"
  pl_queue :: wait_queue
  pl_granted :: "waiter list"

definition newPool :: pool where
  "newPool = \<lparr>pl_capacity = 0, pl_reserved = 0, pl_held = (\<lambda>_. 0), pl_modules = Map.empty,
     pl_queue = \<lparr>waiting = [], streak = 0\<rparr>, pl_granted = []\<rparr>"

definition module_slots :: "pool \<Rightarrow> string \<Rightarrow> int" where
  "module_slots p m = (case pl_modules p m of None \<Rightarrow> 0 | Some n \<Rightarrow> n)"

definition pool_rank :: "pool \<Rightarrow> waiter \<Rightarrow> int" where
  "pool_rank p w = module_slots p (wt_module w)"

definition pool_grant :: "waiter \<Rightarrow> bool \<Rightarrow> pool \<Rightarrow> pool" where
  "pool_grant w passed p = p\<lparr>pl_queue := wq_served w passed (pl_queue p),
     pl_held := (pl_held p)(wt_class w := pl_held p (wt_class w) + 1),
     pl_modules := (pl_modules p)(wt_module w \<mapsto> module_slots p (wt_module w) + 1),
     pl_granted := pl_granted p @ [w]\<rparr>"

definition pool_next :: "pool \<Rightarrow> waiter option \<times> bool" where
  "pool_next p = wq_next (pl_held p Bulk < pl_capacity p - pl_reserved p) (Some (pool_rank p)) (pl_queue p)"

definition pool_total :: "pool \<Rightarrow> int" where
  "pool_total p = pl_held p Critical + pl_held p Bulk"

function pool_dispatch :: "pool \<Rightarrow> pool" where
  "pool_dispatch p =
     (if pool_total p < pl_capacity p
      then case pool_next p of
             (None, _) \<Rightarrow> p
           | (Some w, passed) \<Rightarrow> pool_dispatch (pool_grant w passed p)
      else p)"
  by pat_completeness auto

lemma served_waiting [simp]: "waiting (wq_served w passed q) = filter (\<lambda>held. held \<noteq> w) (waiting q)"
  by (simp add: wq_served_def wq_remove_def Let_def split: work_class.splits)

lemma grant_fields [simp]:
  "pl_capacity (pool_grant w passed p) = pl_capacity p" "pl_reserved (pool_grant w passed p) = pl_reserved p"
  "pl_held (pool_grant w passed p) = (pl_held p)(wt_class w := pl_held p (wt_class w) + 1)"
  "pl_granted (pool_grant w passed p) = pl_granted p @ [w]"
  "pl_queue (pool_grant w passed p) = wq_served w passed (pl_queue p)"
  by (simp_all add: pool_grant_def)

lemma pool_next_Some:
  assumes "pool_next p = (Some w, passed)"
  shows "w \<in> set (waiting (pl_queue p))" "foremost (wt_class w) (Some (pool_rank p)) (waiting (pl_queue p)) w"
    "wt_class w = Bulk \<Longrightarrow> pl_held p Bulk < pl_capacity p - pl_reserved p"
  using wq_next_Some(1-3) [OF assms [unfolded pool_next_def]] by auto

termination pool_dispatch
  by (relation "measure (\<lambda>p. length (waiting (pl_queue p)))")
    (auto dest!: pool_next_Some(1) [OF sym] intro: length_filter_less)

declare pool_dispatch.simps [simp del]

definition pool_limit :: "int \<Rightarrow> int \<Rightarrow> pool \<Rightarrow> pool" where
  "pool_limit capacity reserved p = pool_dispatch (p\<lparr>pl_capacity := capacity, pl_reserved := reserved\<rparr>)"

definition pool_enter :: "waiter \<Rightarrow> pool \<Rightarrow> pool" where
  "pool_enter w p = pool_dispatch (p\<lparr>pl_queue := wq_add w (pl_queue p)\<rparr>)"

definition pool_put :: "waiter \<Rightarrow> pool \<Rightarrow> pool" where
  "pool_put w p =
     (let n = module_slots p (wt_module w) - 1
      in pool_dispatch
           (p\<lparr>pl_held := (pl_held p)(wt_class w := pl_held p (wt_class w) - 1),
              pl_modules := (pl_modules p)(wt_module w := if n \<le> 0 then None else Some n),
              pl_granted := filter (\<lambda>held. held \<noteq> w) (pl_granted p)\<rparr>))"

text \<open>Whether the wait gave the caller a slot, and the pool after it.\<close>

definition pool_waited :: "bool \<Rightarrow> waiter \<Rightarrow> pool \<Rightarrow> bool \<times> pool" where
  "pool_waited cancelled w p =
     (if cancelled
      then (False, if w \<in> set (pl_granted p) then pool_put w p else p\<lparr>pl_queue := wq_remove w (pl_queue p)\<rparr>)
      else (True, p))"

record Use =
  us_Critical :: int
  us_Bulk :: int
  us_Waiting :: nat

definition pool_use :: "pool \<Rightarrow> Use" where
  "pool_use p = \<lparr>us_Critical = pl_held p Critical, us_Bulk = pl_held p Bulk, us_Waiting = length (waiting (pl_queue p))\<rparr>"

section \<open>What the pool keeps\<close>

definition counts :: "(waiter \<Rightarrow> bool) \<Rightarrow> waiter list \<Rightarrow> int" where
  "counts P ws = int (length (filter P ws))"

lemma counts_simps [simp]:
  "counts P [] = 0" "counts P (xs @ [w]) = counts P xs + (if P w then 1 else 0)" "0 \<le> counts P xs"
  by (simp_all add: counts_def)

lemma counts_remove:
  "distinct ws \<Longrightarrow> w \<in> set ws \<Longrightarrow> counts P (filter (\<lambda>v. v \<noteq> w) ws) = counts P ws - (if P w then 1 else 0)"
proof (induction ws)
  case (Cons v ws)
  have "filter (\<lambda>x. x \<noteq> v) ws = ws" if "v \<notin> set ws" using that by (simp add: filter_id_conv) blast
  then show ?case using Cons by (cases "v = w") (auto simp: counts_def)
qed simp

text \<open>The counters are those of the slots that are out.\<close>

definition pool_counts :: "pool \<Rightarrow> bool" where
  "pool_counts p \<longleftrightarrow>
     distinct (waiting (pl_queue p) @ pl_granted p)
     \<and> (\<forall>k. pl_held p k = counts (\<lambda>w. wt_class w = k) (pl_granted p))
     \<and> (\<forall>m. pl_modules p m = (let n = counts (\<lambda>w. wt_module w = m) (pl_granted p) in if n = 0 then None else Some n))
     \<and> streak (pl_queue p) \<le> favoured"

text \<open>Nobody waits for a slot that is free.\<close>

definition pool_served :: "pool \<Rightarrow> bool" where
  "pool_served p \<longleftrightarrow> pool_total p < pl_capacity p \<longrightarrow> fst (pool_next p) = None"

lemma module_slots_counts: "pool_counts p \<Longrightarrow> module_slots p m = counts (\<lambda>w. wt_module w = m) (pl_granted p)"
  by (simp add: pool_counts_def module_slots_def Let_def)

lemma grant_counts:
  assumes "pool_counts p" "pool_next p = (Some w, passed)"
  shows "pool_counts (pool_grant w passed p)"
proof -
  have w: "w \<in> set (waiting (pl_queue p))" by (rule pool_next_Some(1) [OF assms(2)])
  have n: "counts (\<lambda>v. wt_module v = wt_module w) (pl_granted p) + 1 \<noteq> 0"
    using counts_simps(3) [of "\<lambda>v. wt_module v = wt_module w" "pl_granted p"] by linarith
  show ?thesis
    using assms(1) w n streak_served [OF assms(2) [unfolded pool_next_def]] module_slots_counts [OF assms(1)]
    by (auto simp: pool_counts_def pool_grant_def Let_def)
qed

lemma dispatch_counts: "pool_counts p \<Longrightarrow> pool_counts (pool_dispatch p)"
proof (induction p rule: pool_dispatch.induct)
  case (1 p)
  then show ?case
    by (subst pool_dispatch.simps) (auto split: prod.splits option.splits simp: grant_counts)
qed

lemma dispatch_served: "pool_served (pool_dispatch p)"
proof (induction p rule: pool_dispatch.induct)
  case (1 p)
  then show ?case
    by (subst pool_dispatch.simps) (auto split: prod.splits option.splits simp: pool_served_def)
qed

text \<open>A dispatch grants up to the capacity, bulk work up to what is not reserved, and loses nobody.\<close>

definition pool_within :: "pool \<Rightarrow> pool \<Rightarrow> bool" where
  "pool_within p p' \<longleftrightarrow> pool_total p' \<le> max (pool_total p) (pl_capacity p')
     \<and> pl_held p' Bulk \<le> max (pl_held p Bulk) (pl_capacity p' - pl_reserved p')"

definition members :: "pool \<Rightarrow> waiter set" where
  "members p = set (waiting (pl_queue p)) \<union> set (pl_granted p)"

lemma dispatch_fields [simp]:
  "pl_capacity (pool_dispatch p) = pl_capacity p" "pl_reserved (pool_dispatch p) = pl_reserved p"
proof -
  have "pl_capacity (pool_dispatch p) = pl_capacity p \<and> pl_reserved (pool_dispatch p) = pl_reserved p"
  proof (induction p rule: pool_dispatch.induct)
    case (1 p)
    then show ?case by (auto simp: pool_dispatch.simps [of p] split: prod.splits option.splits)
  qed
  then show "pl_capacity (pool_dispatch p) = pl_capacity p" "pl_reserved (pool_dispatch p) = pl_reserved p" by simp_all
qed

lemma grant_within:
  assumes "pool_next p = (Some w, passed)" "pool_total p < pl_capacity p"
  shows "pool_total (pool_grant w passed p) \<le> pl_capacity p"
    "pl_held (pool_grant w passed p) Bulk \<le> max (pl_held p Bulk) (pl_capacity p - pl_reserved p)"
  using assms(2) pool_next_Some(3) [OF assms(1)] by (cases "wt_class w"; simp add: pool_total_def)+

lemma dispatch_within: "pool_within p (pool_dispatch p)"
proof (induction p rule: pool_dispatch.induct)
  case (1 p)
  show ?case
  proof (cases "pool_total p < pl_capacity p \<and> fst (pool_next p) \<noteq> None")
    case True
    then obtain w passed where w: "pool_next p = (Some w, passed)" by (cases "pool_next p") auto
    then have d: "pool_dispatch p = pool_dispatch (pool_grant w passed p)"
      using True by (subst pool_dispatch.simps) simp
    have "pool_within (pool_grant w passed p) (pool_dispatch (pool_grant w passed p))"
      using 1 True w by (metis (no_types, lifting))
    then show ?thesis
      using grant_within [OF w] True unfolding d by (simp add: pool_within_def) linarith
  next
    case False
    then have "pool_dispatch p = p" by (subst pool_dispatch.simps) (auto split: prod.splits option.splits)
    then show ?thesis by (simp add: pool_within_def)
  qed
qed

lemma dispatch_members: "members (pool_dispatch p) = members p"
proof (induction p rule: pool_dispatch.induct)
  case (1 p)
  have "members (pool_grant w passed p) = members p" if "pool_next p = (Some w, passed)" for w passed
    using pool_next_Some(1) [OF that] by (auto simp: members_def)
  then show ?case
    using 1 by (subst pool_dispatch.simps) (auto split: prod.splits option.splits)
qed

section \<open>The operations of the pool\<close>

text \<open>What an operation promises to those who share the pool, where it is called as the code calls it.\<close>

locale pool_operation =
  fixes ready :: "pool \<Rightarrow> bool" and operation :: "pool \<Rightarrow> pool"
  assumes keeps_counts: "pool_counts p \<Longrightarrow> ready p \<Longrightarrow> pool_counts (operation p)"
    and keeps_served: "pool_counts p \<Longrightarrow> pool_served p \<Longrightarrow> ready p \<Longrightarrow> pool_served (operation p)"
    and keeps_within: "pool_counts p \<Longrightarrow> ready p \<Longrightarrow> pool_within p (operation p)"
begin

lemma keeps: "pool_counts p \<and> pool_served p \<Longrightarrow> ready p \<Longrightarrow> pool_counts (operation p) \<and> pool_served (operation p)"
  using keeps_counts keeps_served by blast

lemma slot_is_free:
  assumes "pool_counts p" "pool_served p" "ready p" "pool_total (operation p) < pl_capacity (operation p)"
    "w \<in> set (waiting (pl_queue (operation p)))"
  shows "wt_class w = Bulk \<and> pl_capacity (operation p) - pl_reserved (operation p) \<le> pl_held (operation p) Bulk"
  using keeps_served [OF assms(1-3)] assms(4,5) by (auto simp: pool_served_def pool_next_def wq_next_None)

end

interpretation limiting: pool_operation "\<lambda>_. True" "pool_limit capacity reserved"
proof
  fix p assume "pool_counts p"
  then show "pool_counts (pool_limit capacity reserved p)"
    unfolding pool_limit_def by (intro dispatch_counts) (simp add: pool_counts_def)
  show "pool_served (pool_limit capacity reserved p)" unfolding pool_limit_def by (rule dispatch_served)
  show "pool_within p (pool_limit capacity reserved p)"
    using dispatch_within [of "p\<lparr>pl_capacity := capacity, pl_reserved := reserved\<rparr>"]
    by (simp add: pool_limit_def pool_within_def pool_total_def)
qed

interpretation entering: pool_operation "\<lambda>p. w \<notin> members p" "pool_enter w"
proof
  fix p assume p: "pool_counts p" "w \<notin> members p"
  show "pool_counts (pool_enter w p)"
    unfolding pool_enter_def using p by (intro dispatch_counts) (auto simp: pool_counts_def wq_add_def members_def)
  show "pool_within p (pool_enter w p)"
    using dispatch_within [of "p\<lparr>pl_queue := wq_add w (pl_queue p)\<rparr>"]
    by (simp add: pool_enter_def pool_within_def pool_total_def)
qed (simp add: pool_enter_def dispatch_served)

interpretation putting: pool_operation "\<lambda>p. w \<in> set (pl_granted p)" "pool_put w"
proof
  fix p assume p: "pool_counts p" "w \<in> set (pl_granted p)"
  let ?q = "p\<lparr>pl_held := (pl_held p)(wt_class w := pl_held p (wt_class w) - 1),
      pl_modules := (pl_modules p)(wt_module w := if module_slots p (wt_module w) - 1 \<le> 0 then None
         else Some (module_slots p (wt_module w) - 1)),
      pl_granted := filter (\<lambda>held. held \<noteq> w) (pl_granted p)\<rparr>"
  have d: "distinct (pl_granted p)" using p(1) by (simp add: pool_counts_def)
  have m: "module_slots p (wt_module w) = counts (\<lambda>v. wt_module v = wt_module w) (pl_granted p)"
    by (rule module_slots_counts [OF p(1)])
  have "pool_counts ?q"
    using p(1) counts_remove [OF d p(2)] m counts_simps(3) [of "\<lambda>v. wt_module v = wt_module w" "filter (\<lambda>v. v \<noteq> w) (pl_granted p)"]
    by (auto simp: pool_counts_def Let_def)
  then show "pool_counts (pool_put w p)" unfolding pool_put_def Let_def by (rule dispatch_counts)
  show "pool_within p (pool_put w p)"
    using dispatch_within [of ?q] unfolding pool_put_def Let_def
    by (auto simp: pool_within_def pool_total_def split: if_splits)
qed (simp add: pool_put_def dispatch_served Let_def)

interpretation leaving: pool_operation "\<lambda>p. w \<in> members p" "\<lambda>p. snd (pool_waited True w p)"
proof
  fix p assume p: "pool_counts p" "w \<in> members p"
  let ?q = "p\<lparr>pl_queue := wq_remove w (pl_queue p)\<rparr>"
  have c: "pool_counts ?q" using p(1) by (auto simp: pool_counts_def wq_remove_def)
  have s: "pool_served ?q" if "pool_served p"
    using that by (auto simp: pool_served_def pool_next_def wq_next_None pool_total_def wq_remove_def)
  show "pool_counts (snd (pool_waited True w p))"
    using c putting.keeps_counts [OF p(1)] by (simp add: pool_waited_def)
  show "pool_served (snd (pool_waited True w p))" if "pool_served p"
    using s [OF that] putting.keeps_served [OF p(1) that] by (simp add: pool_waited_def)
  show "pool_within p (snd (pool_waited True w p))"
    using putting.keeps_within [OF p(1), of w] by (simp add: pool_waited_def pool_within_def pool_total_def)
qed

inductive pool_step :: "pool \<Rightarrow> pool \<Rightarrow> bool" where
  limits: "pool_step p (pool_limit capacity reserved p)"
| enters: "w \<notin> members p \<Longrightarrow> pool_step p (pool_enter w p)"
| gives_up: "w \<in> members p \<Longrightarrow> pool_step p (snd (pool_waited True w p))"
| puts: "w \<in> set (pl_granted p) \<Longrightarrow> pool_step p (pool_put w p)"

lemma pool_step_keeps:
  "pool_step p p' \<Longrightarrow> pool_counts p \<and> pool_served p \<Longrightarrow> pool_counts p' \<and> pool_served p' \<and> pool_within p p'"
  by (induction rule: pool_step.induct)
    (auto intro: limiting.keeps_counts entering.keeps_counts leaving.keeps_counts putting.keeps_counts
       limiting.keeps_served entering.keeps_served leaving.keeps_served putting.keeps_served
       limiting.keeps_within entering.keeps_within leaving.keeps_within putting.keeps_within)

lemma newPool_keeps: "pool_counts newPool \<and> pool_served newPool"
  by (simp add: newPool_def pool_counts_def pool_served_def pool_total_def favoured_def)

lemma pool_steps_keep: "pool_step\<^sup>*\<^sup>* newPool p \<Longrightarrow> pool_counts p \<and> pool_served p"
  by (induction rule: rtranclp_induct) (auto simp: newPool_keeps dest: pool_step_keeps)

end
