(* ===== verification/Governor_Pace.thy ===== *)
theory Governor_Pace
  imports Governor_Queue Complex_Main
begin

text \<open>
  The rate at which scans read and uploads send, \<open>pace\<close> of \<open>internal/governor/queue.go\<close>, and the
  meter of \<open>work.go\<close> that charges it. Tokens are rationals, where the code has floats. The loop of
  \<open>take\<close> is taken apart at its wait: \<open>pace_try\<close> is one turn of it, which grants bytes or says for
  how long the timer is set, if at all. \<open>pc_ready\<close> are the waiters whose channel holds a signal.
\<close>

definition minBurst :: int where "minBurst = 64 * 2 ^ 10"

text \<open>\<open>step\<close> of the source.\<close>

definition wait_step :: duration where "wait_step = 20000000"

definition burst_of :: "int \<Rightarrow> int" where "burst_of rate = max (rate div 8) minBurst"

record pace =
  pc_rate :: rat
  pc_burst :: int
  pc_tokens :: rat
  pc_updated :: time
  pc_queue :: wait_queue
  pc_ready :: "waiter set"

definition new_pace :: pace where
  "new_pace = \<lparr>pc_rate = 0, pc_burst = 0, pc_tokens = 0, pc_updated = zero_time,
     pc_queue = \<lparr>waiting = [], streak = 0\<rparr>, pc_ready = {}\<rparr>"

definition pace_refill :: "time \<Rightarrow> pace \<Rightarrow> pace" where
  "pace_refill now p =
     (let elapsed = now - pc_updated p;
          p = (if elapsed > 0
               then p\<lparr>pc_tokens := min (of_int (pc_burst p)) (pc_tokens p + pc_rate p * (of_int elapsed / of_int Second))\<rparr>
               else p)
      in p\<lparr>pc_updated := now\<rparr>)"

definition pace_nudge :: "pace \<Rightarrow> pace" where
  "pace_nudge p = (case fst (wq_next True None (pc_queue p)) of
     None \<Rightarrow> p | Some head \<Rightarrow> p\<lparr>pc_ready := insert head (pc_ready p)\<rparr>)"

definition pace_limit :: "int \<Rightarrow> time \<Rightarrow> pace \<Rightarrow> pace" where
  "pace_limit rate now p =
     (let p = (if pc_rate p = 0 then p\<lparr>pc_tokens := of_int (burst_of rate), pc_updated := now\<rparr> else p);
          p = pace_refill now p;
          p = p\<lparr>pc_rate := of_int rate, pc_burst := burst_of rate\<rparr>;
          p = p\<lparr>pc_tokens := min (pc_tokens p) (of_int (pc_burst p))\<rparr>
      in pace_nudge p)"

definition pace_enter :: "waiter \<Rightarrow> pace \<Rightarrow> pace" where
  "pace_enter w p = p\<lparr>pc_queue := wq_add w (pc_queue p)\<rparr>"

datatype tried = Granted int | Waits "duration option"

definition pace_try :: "time \<Rightarrow> waiter \<Rightarrow> int \<Rightarrow> pace \<Rightarrow> tried \<times> pace" where
  "pace_try now w want p =
     (let p = pace_refill now p;
          need = min want (pc_burst p);
          (head, passed) = wq_next True None (pc_queue p)
      in if head = Some w \<and> pc_tokens p \<ge> of_int need
         then (Granted need,
               pace_nudge (p\<lparr>pc_tokens := pc_tokens p - of_int need, pc_queue := wq_served w passed (pc_queue p)\<rparr>))
         else (Waits (if head = Some w
                      then Some (max \<lceil>(of_int need - pc_tokens p) / pc_rate p * of_int Second\<rceil> wait_step)
                      else None), p))"

text \<open>What ends a wait: the signal, which is taken from the channel, or the end of the context.\<close>

definition pace_woken :: "waiter \<Rightarrow> pace \<Rightarrow> pace" where
  "pace_woken w p = p\<lparr>pc_ready := pc_ready p - {w}\<rparr>"

definition pace_leave :: "waiter \<Rightarrow> pace \<Rightarrow> pace" where
  "pace_leave w p = pace_nudge (p\<lparr>pc_queue := wq_remove w (pc_queue p)\<rparr>)"

section \<open>The meter\<close>

text \<open>
  One turn of the loop of \<open>Charge\<close>: whether the meter has ended, and what \<open>take\<close> does with the
  burst of that moment, \<open>None\<close> where the context ended.
\<close>

record charge_turn =
  ct_ended :: bool
  ct_burst :: "int option"

datatype charged = Charged | Ended | Interrupted | Charging

fun Charge :: "charge_turn list \<Rightarrow> int \<Rightarrow> charged \<times> int list" where
  "Charge [] bytes = (if bytes > 0 then Charging else Charged, [])"
| "Charge (t # ts) bytes =
     (if bytes > 0
      then if ct_ended t then (Ended, [])
           else case ct_burst t of
                  None \<Rightarrow> (Interrupted, [])
                | Some b \<Rightarrow>
                    (case Charge ts (bytes - min bytes b) of (r, takes) \<Rightarrow> (r, min bytes b # takes))
      else (Charged, []))"

text \<open>\<open>Read\<close> cuts the buffer down to what the budget grants at once.\<close>

definition metered_length :: "int \<Rightarrow> int \<Rightarrow> int" where
  "metered_length most len = (if len > most then most else len)"

section \<open>What the pace keeps\<close>

definition pace_inv :: "pace \<Rightarrow> bool" where
  "pace_inv p \<longleftrightarrow> 0 < pc_rate p \<and> minBurst \<le> pc_burst p \<and> 0 \<le> pc_tokens p \<and> pc_tokens p \<le> of_int (pc_burst p)
     \<and> streak (pc_queue p) \<le> favoured"

lemma nudge_fields [simp]:
  "pc_rate (pace_nudge p) = pc_rate p" "pc_burst (pace_nudge p) = pc_burst p" "pc_tokens (pace_nudge p) = pc_tokens p"
  "pc_updated (pace_nudge p) = pc_updated p" "pc_queue (pace_nudge p) = pc_queue p"
  by (simp_all add: pace_nudge_def split: option.splits)

lemma refill_fields [simp]:
  "pc_rate (pace_refill now p) = pc_rate p" "pc_burst (pace_refill now p) = pc_burst p"
  "pc_updated (pace_refill now p) = now" "pc_queue (pace_refill now p) = pc_queue p"
  "pc_ready (pace_refill now p) = pc_ready p"
  by (simp_all add: pace_refill_def Let_def)

lemma refill_tokens:
  assumes "0 \<le> pc_rate p" "pc_updated p \<le> now" "pc_tokens p \<le> of_int (pc_burst p)"
  shows "pc_tokens (pace_refill now p)
     = min (of_int (pc_burst p)) (pc_tokens p + pc_rate p * (of_int (now - pc_updated p) / of_int Second))"
proof (cases "now = pc_updated p")
  case True
  then show ?thesis using assms(3) by (simp add: pace_refill_def Let_def)
next
  case False
  then show ?thesis using assms(2) by (simp add: pace_refill_def Let_def)
qed

lemma refill_inv: "pace_inv p \<Longrightarrow> pace_inv (pace_refill now p)"
proof -
  assume p: "pace_inv p"
  then have "0 \<le> (of_int (pc_burst p) :: rat)" by (simp add: pace_inv_def minBurst_def)
  moreover have "0 \<le> pc_rate p * (of_int (now - pc_updated p) / of_int Second)" if "0 < now - pc_updated p"
    using that p by (simp add: pace_inv_def duration_defs)
  ultimately show ?thesis
    using p by (auto simp: pace_inv_def pace_refill_def Let_def)
qed

text \<open>How a turn of \<open>take\<close> ends, after the refill.\<close>

lemma pace_try_cases:
  assumes "pace_try now w want p = (r, p')"
  obtains passed where "r = Granted (min want (pc_burst p))" "wq_next True None (pc_queue p) = (Some w, passed)"
      "of_int (min want (pc_burst p)) \<le> pc_tokens (pace_refill now p)"
      "p' = pace_nudge ((pace_refill now p)\<lparr>pc_tokens := pc_tokens (pace_refill now p) - of_int (min want (pc_burst p)),
         pc_queue := wq_served w passed (pc_queue p)\<rparr>)"
    | d where "r = Waits d" "p' = pace_refill now p" "d = None \<longleftrightarrow> fst (wq_next True None (pc_queue p)) \<noteq> Some w"
      "\<And>t. d = Some t \<Longrightarrow> pc_tokens p' < of_int (min want (pc_burst p))
         \<and> t = max \<lceil>(of_int (min want (pc_burst p)) - pc_tokens p') / pc_rate p * of_int Second\<rceil> wait_step"
proof -
  obtain head passed where h: "wq_next True None (pc_queue p) = (head, passed)" by fastforce
  let ?n = "min want (pc_burst p)" and ?q = "pace_refill now p"
  have t: "pace_try now w want p =
      (if head = Some w \<and> of_int ?n \<le> pc_tokens ?q
       then (Granted ?n, pace_nudge (?q\<lparr>pc_tokens := pc_tokens ?q - of_int ?n, pc_queue := wq_served w passed (pc_queue p)\<rparr>))
       else (Waits (if head = Some w then Some (max \<lceil>(of_int ?n - pc_tokens ?q) / pc_rate p * of_int Second\<rceil> wait_step)
                    else None), ?q))"
    by (simp only: pace_try_def Let_def refill_fields h prod.case)
  show thesis
  proof (cases "head = Some w \<and> of_int ?n \<le> pc_tokens ?q")
    case True
    show thesis
      by (rule that(1) [of passed]) (use assms t h True in simp_all)
  next
    case False
    show thesis
      by (rule that(2) [of "if head = Some w
            then Some (max \<lceil>(of_int ?n - pc_tokens ?q) / pc_rate p * of_int Second\<rceil> wait_step) else None"])
        (use assms t h False in \<open>auto split: if_splits\<close>)
  qed
qed

lemma try_inv:
  assumes "pace_inv p" "0 \<le> want" "pace_try now w want p = (r, p')"
  shows "pace_inv p'"
  using assms(3)
proof (cases rule: pace_try_cases)
  case (1 passed)
  have "streak (wq_served w passed (pc_queue p)) \<le> favoured"
    using streak_served [OF 1(2)] assms(1) by (simp add: pace_inv_def)
  moreover have "(0 :: rat) \<le> of_int (min want (pc_burst p))" using assms(1,2) by (simp add: pace_inv_def minBurst_def)
  moreover have r: "pace_inv (pace_refill now p)" by (rule refill_inv [OF assms(1)])
  ultimately have "pc_tokens (pace_refill now p) - of_int (min want (pc_burst p)) \<le> of_int (pc_burst p)"
    unfolding pace_inv_def refill_fields by linarith
  then show ?thesis
    using 1(3,4) r \<open>streak _ \<le> _\<close> by (simp add: pace_inv_def)
next
  case (2 d)
  then show ?thesis using refill_inv [OF assms(1)] by simp
qed

text \<open>A budget that was set.\<close>

lemma limit_inv:
  assumes "1 \<le> rate" "pace_inv p \<or> p = new_pace"
  shows "pace_inv (pace_limit rate now p)"
proof -
  have b: "minBurst \<le> burst_of rate" "(0 :: rat) \<le> of_int (burst_of rate)" by (simp_all add: burst_of_def minBurst_def)
  show ?thesis
  proof (cases "p = new_pace")
    case True
    then show ?thesis
      using assms(1) b by (simp add: pace_limit_def new_pace_def Let_def pace_inv_def pace_refill_def favoured_def)
  next
    case False
    then have p: "pace_inv p" "pc_rate p \<noteq> 0" using assms(2) by (auto simp: pace_inv_def)
    show ?thesis
      using refill_inv [OF p(1), of now] p(2) assms(1) b by (simp add: pace_limit_def Let_def pace_inv_def)
  qed
qed

section \<open>The rate is kept\<close>

text \<open>What happens to a pace between two changes of its budget: tries, arrivals, signals and those who give up.\<close>

datatype pace_event = Tries time waiter int | Enters waiter | Woken waiter | Gives_up waiter

fun pace_takes :: "pace_event \<Rightarrow> pace \<Rightarrow> int \<times> pace" where
  "pace_takes (Tries now w want) p =
     (case pace_try now w want p of (Granted n, p) \<Rightarrow> (n, p) | (Waits _, p) \<Rightarrow> (0, p))"
| "pace_takes (Enters w) p = (0, pace_enter w p)"
| "pace_takes (Woken w) p = (0, pace_woken w p)"
| "pace_takes (Gives_up w) p = (0, pace_leave w p)"

fun pace_run :: "pace_event list \<Rightarrow> pace \<Rightarrow> int \<times> pace" where
  "pace_run [] p = (0, p)"
| "pace_run (e # es) p = (let (n, p) = pace_takes e p; (m, p) = pace_run es p in (n + m, p))"

text \<open>The clock is the monotonic one of Go: it does not go back.\<close>

fun in_order :: "time \<Rightarrow> pace_event list \<Rightarrow> bool" where
  "in_order t [] = True"
| "in_order t (Tries now w want # es) = (t \<le> now \<and> 0 \<le> want \<and> in_order now es)"
| "in_order t (_ # es) = in_order t es"

lemma event_kept:
  assumes "pace_inv p" "in_order (pc_updated p) (e # es)" "pace_takes e p = (n, p')"
  shows "pace_inv p'" "in_order (pc_updated p') es" "pc_rate p' = pc_rate p" "pc_burst p' = pc_burst p"
    "pc_updated p \<le> pc_updated p'"
    "of_int n + pc_tokens p' \<le> pc_tokens p + pc_rate p * (of_int (pc_updated p' - pc_updated p) / of_int Second)"
proof -
  have "pace_inv p' \<and> in_order (pc_updated p') es \<and> pc_rate p' = pc_rate p \<and> pc_burst p' = pc_burst p
    \<and> pc_updated p \<le> pc_updated p'
    \<and> of_int n + pc_tokens p' \<le> pc_tokens p + pc_rate p * (of_int (pc_updated p' - pc_updated p) / of_int Second)"
  proof (cases e)
    case (Tries now w want)
    obtain r q where r: "pace_try now w want p = (r, q)" by fastforce
    have o: "pc_updated p \<le> now" "0 \<le> want" "in_order now es" using assms(2) Tries by simp_all
    have t: "pc_tokens (pace_refill now p) \<le> pc_tokens p + pc_rate p * (of_int (now - pc_updated p) / of_int Second)"
      using refill_tokens [of p now] assms(1) o(1) by (simp add: pace_inv_def)
    have "pc_updated q = now \<and> pc_rate q = pc_rate p \<and> pc_burst q = pc_burst p \<and> q = p'
        \<and> of_int n + pc_tokens q = pc_tokens (pace_refill now p)"
      using r
    proof (cases rule: pace_try_cases)
      case (1 passed)
      have "n = min want (pc_burst p)" "p' = q" using assms(3) Tries r 1(1) by simp_all
      then show ?thesis using 1(4) by simp
    next
      case (2 d)
      have "n = 0" "p' = q" using assms(3) Tries r 2(1) by simp_all
      then show ?thesis using 2(2) by simp
    qed
    then show ?thesis using try_inv [OF assms(1) o(2) r] o t by auto
  qed (use assms in \<open>auto simp: pace_enter_def pace_woken_def pace_leave_def pace_inv_def wq_add_def wq_remove_def\<close>)
  then show "pace_inv p'" "in_order (pc_updated p') es" "pc_rate p' = pc_rate p" "pc_burst p' = pc_burst p"
    "pc_updated p \<le> pc_updated p'"
    "of_int n + pc_tokens p' \<le> pc_tokens p + pc_rate p * (of_int (pc_updated p' - pc_updated p) / of_int Second)"
    by simp_all
qed

lemma run_kept:
  assumes "pace_inv p" "in_order (pc_updated p) es" "pace_run es p = (n, p')"
  shows "pace_inv p' \<and> pc_updated p \<le> pc_updated p' \<and> pc_burst p' = pc_burst p
    \<and> of_int n + pc_tokens p' \<le> pc_tokens p + pc_rate p * (of_int (pc_updated p' - pc_updated p) / of_int Second)"
  using assms
proof (induction es arbitrary: p n)
  case (Cons e es)
  obtain a q where e: "pace_takes e p = (a, q)" by fastforce
  obtain b where b: "pace_run es q = (b, p')" "n = a + b"
    using Cons.prems(3) e by (auto simp: Let_def split: prod.splits)
  note k = event_kept [OF Cons.prems(1,2) e]
  have "of_int b + pc_tokens p' \<le> pc_tokens q + pc_rate p * (of_int (pc_updated p' - pc_updated q) / of_int Second)"
    and rest: "pace_inv p'" "pc_updated q \<le> pc_updated p'" "pc_burst p' = pc_burst q"
    using Cons.IH [OF k(1,2) b(1)] k(3) by simp_all
  then have "of_int n + pc_tokens p' \<le> pc_tokens p + pc_rate p * (of_int (pc_updated q - pc_updated p) / of_int Second)
      + pc_rate p * (of_int (pc_updated p' - pc_updated q) / of_int Second)"
    using k(6) b(2) by simp
  also have "\<dots> = pc_tokens p + pc_rate p * (of_int (pc_updated p' - pc_updated p) / of_int Second)"
    by (simp add: field_simps add_divide_distrib diff_divide_distrib)
  finally show ?case using rest k(4,5) by simp
qed simp

section \<open>Whoever is next is served\<close>

text \<open>When the timer of the head ends, its bytes are there.\<close>

lemma wait_is_enough:
  assumes "pace_inv p" "pace_try now w want p = (Waits (Some d), p')" "now + d \<le> later"
  shows "fst (pace_try later w want p') = Granted (min want (pc_burst p))"
  using assms(2)
proof (cases rule: pace_try_cases)
  case (2 e)
  let ?need = "of_int (min want (pc_burst p)) :: rat" and ?missing = "(of_int (min want (pc_burst p)) - pc_tokens p') / pc_rate p * of_int Second"
  have e: "e = Some d" using 2(1) by simp
  have w: "pc_tokens p' < ?need" "d = max \<lceil>?missing\<rceil> wait_step" using 2(4) [OF e] by simp_all
  have inv: "pace_inv p'" using refill_inv [OF assms(1)] 2(2) by simp
  have fields: "pc_rate p' = pc_rate p" "pc_burst p' = pc_burst p" "pc_updated p' = now" "pc_queue p' = pc_queue p"
    using 2(2) by simp_all
  have r: "0 < pc_rate p" using assms(1) by (simp add: pace_inv_def)
  have "0 \<le> d" using w(2) by (simp add: wait_step_def)
  then have later: "now \<le> later" using assms(3) by simp
  have "?missing \<le> of_int d" using w(2) by (simp add: le_of_int_ceiling le_max_iff_disj of_int_max)
  also have "(of_int d :: rat) \<le> of_int (later - now)" using assms(3) by (simp only: of_int_le_iff)
  finally have "pc_rate p * (?missing / of_int Second) \<le> pc_rate p * (of_int (later - now) / of_int Second)"
    using r by (intro mult_left_mono divide_right_mono) (simp_all add: duration_defs)
  moreover have "pc_rate p * (?missing / of_int Second) = ?need - pc_tokens p'"
    using r by (simp add: duration_defs)
  ultimately have "?need \<le> pc_tokens p' + pc_rate p * (of_int (later - now) / of_int Second)" by simp
  moreover have "?need \<le> of_int (pc_burst p)" by simp
  ultimately have t: "?need \<le> pc_tokens (pace_refill later p')"
    using refill_tokens [of p' later] inv later fields by (simp add: pace_inv_def)
  have "fst (wq_next True None (pc_queue p)) = Some w" using 2(3) e by auto
  then obtain passed where "wq_next True None (pc_queue p) = (Some w, passed)"
    by (cases "wq_next True None (pc_queue p)") simp
  then show ?thesis using t fields by (simp add: pace_try_def Let_def)
qed simp

text \<open>What a run of the pace does to its queue.\<close>

fun queue_event_of :: "pace_event \<Rightarrow> pace \<Rightarrow> queue_event list" where
  "queue_event_of (Tries now w want) p = (case fst (pace_try now w want p) of Granted _ \<Rightarrow> [Serves] | Waits _ \<Rightarrow> [])"
| "queue_event_of (Enters w) p = [Arrives w]"
| "queue_event_of (Woken w) p = []"
| "queue_event_of (Gives_up w) p = [Leaves w]"

fun queue_events :: "pace_event list \<Rightarrow> pace \<Rightarrow> queue_event list" where
  "queue_events [] p = []"
| "queue_events (e # es) p = queue_event_of e p @ queue_events es (snd (pace_takes e p))"

lemma takes_queue: "pc_queue (snd (pace_takes e p)) = fold wq_event (queue_event_of e p) (pc_queue p)"
proof (cases e)
  case (Tries now w want)
  obtain r q where r: "pace_try now w want p = (r, q)" by fastforce
  show ?thesis
    using r
  proof (cases rule: pace_try_cases)
    case (1 passed)
    then show ?thesis using Tries r by (simp add: wq_serve_def)
  next
    case (2 d)
    then show ?thesis using Tries r by simp
  qed
qed (simp_all add: pace_enter_def pace_woken_def pace_leave_def)

lemma run_queue: "pc_queue (snd (pace_run es p)) = fold wq_event (queue_events es p) (pc_queue p)"
proof (induction es arbitrary: p)
  case (Cons e es)
  then show ?case using takes_queue [of e p] by (simp add: Let_def split_beta)
qed simp

lemma queue_events_in:
  "Arrives w \<in> set (queue_events es p) \<Longrightarrow> Enters w \<in> set es" "Leaves w \<in> set (queue_events es p) \<Longrightarrow> Gives_up w \<in> set es"
proof -
  have a: "Arrives w \<in> set (queue_event_of e p) \<Longrightarrow> e = Enters w" "Leaves w \<in> set (queue_event_of e p) \<Longrightarrow> e = Gives_up w" for e p
    by (cases e; auto split: tried.splits)+
  show "Arrives w \<in> set (queue_events es p) \<Longrightarrow> Enters w \<in> set es"
    by (induction es arbitrary: p) (auto dest: a)
  show "Leaves w \<in> set (queue_events es p) \<Longrightarrow> Gives_up w \<in> set es"
    by (induction es arbitrary: p) (auto dest: a)
qed

text \<open>Whoever is next after a grant, or after someone gave up, is told.\<close>

lemma nudge_tells:
  "fst (wq_next True None (pc_queue (pace_nudge p))) = Some v \<Longrightarrow> v \<in> pc_ready (pace_nudge p)"
  by (simp add: pace_nudge_def split: option.splits)

lemma granted_tells_next:
  assumes "pace_try now w want p = (Granted n, p')" "fst (wq_next True None (pc_queue p')) = Some v"
  shows "v \<in> pc_ready p'"
  using assms(1)
proof (cases rule: pace_try_cases)
  case (1 passed)
  then show ?thesis using assms(2) nudge_tells by blast
qed simp

section \<open>Charges\<close>

text \<open>A charge ends: with bursts no smaller than the least, it takes no more turns than bytes over that.\<close>

definition fair_turn :: "charge_turn \<Rightarrow> bool" where
  "fair_turn t \<longleftrightarrow> \<not> ct_ended t \<and> (case ct_burst t of None \<Rightarrow> False | Some b \<Rightarrow> minBurst \<le> b)"

lemma Charge_ends:
  assumes "list_all fair_turn ts" "bytes \<le> int (length ts) * minBurst"
  shows "fst (Charge ts bytes) = Charged" "sum_list (snd (Charge ts bytes)) = max 0 bytes"
proof -
  have "fst (Charge ts bytes) = Charged \<and> sum_list (snd (Charge ts bytes)) = max 0 bytes"
    using assms
  proof (induction ts arbitrary: bytes)
    case (Cons t ts)
    obtain b where b: "ct_burst t = Some b" "minBurst \<le> b" "\<not> ct_ended t"
      using Cons.prems(1) by (auto simp: fair_turn_def split: option.splits)
    have "bytes - min bytes b \<le> int (length ts) * minBurst"
    proof (cases "bytes \<le> b")
      case True
      then show ?thesis by (simp add: minBurst_def)
    next
      case False
      then show ?thesis using b(2) Cons.prems(2) by (simp add: algebra_simps)
    qed
    then have "fst (Charge ts (bytes - min bytes b)) = Charged
        \<and> sum_list (snd (Charge ts (bytes - min bytes b))) = max 0 (bytes - min bytes b)"
      using Cons.IH [of "bytes - min bytes b"] Cons.prems(1) by simp
    then show ?case using b by (auto simp: split_beta)
  qed simp
  then show "fst (Charge ts bytes) = Charged" "sum_list (snd (Charge ts bytes)) = max 0 bytes" by simp_all
qed

end
