(* ===== verification/Governor_Schedule.thy ===== *)
theory Governor_Schedule
  imports Prelude "HOL-Library.Signed_Division"
begin

text \<open>
  When periodic work runs, \<open>internal/governor/schedule.go\<close>. Moments are nanoseconds since 1970 kept
  in an \<open>int64\<close>, and the division of Go rounds toward zero.
\<close>

definition int64 :: "int \<Rightarrow> int" where "int64 n = signed_take_bit 63 n"

lemma int64_id: "- (2 ^ 63) \<le> n \<Longrightarrow> n < 2 ^ 63 \<Longrightarrow> int64 n = n"
  by (simp add: int64_def signed_take_bit_int_eq_self)

definition shortest :: duration where "shortest = Second"

record Schedule =
  sc_every :: duration
  sc_phase :: duration
  sc_last :: time

text \<open>\<open>binary.BigEndian.Uint64\<close>\<close>

definition BigEndian :: "byte list \<Rightarrow> nat" where
  "BigEndian bs = foldl (\<lambda>n b. 256 * n + unat b) 0 (take 8 bs)"

datatype schedule_error = Task_unnamed | Too_often

definition Periodic :: "(byte list \<Rightarrow> byte list) \<Rightarrow> byte list \<Rightarrow> byte list \<Rightarrow> duration \<Rightarrow> schedule_error + Schedule" where
  "Periodic Sum256 installation task every =
     (if task = [] then Inl Task_unnamed
      else if every < shortest then Inl Too_often
      else Inr \<lparr>sc_every = every,
                sc_phase = int (BigEndian (Sum256 (installation @ 0 # task)) mod nat every),
                sc_last = zero_time\<rparr>)"

definition Schedule_Next :: "Schedule \<Rightarrow> time \<Rightarrow> time" where
  "Schedule_Next s after =
     (let since = int64 (int64 after - sc_phase s);
          periods = since sdiv sc_every s;
          periods = (if since smod sc_every s < 0 then periods - 1 else periods)
      in int64 (sc_phase s + int64 ((periods + 1) * sc_every s)))"

text \<open>How the wait of \<open>Until\<close> ends.\<close>

datatype waited = Context_ends | Sooner | Timer

definition Schedule_due :: "Schedule \<Rightarrow> time \<Rightarrow> time" where
  "Schedule_due s now =
     (let due = Schedule_Next s now
      in if sc_last s \<noteq> zero_time \<and> \<not> due > sc_last s then Schedule_Next s (sc_last s) else due)"

definition Schedule_Until :: "time \<Rightarrow> waited \<Rightarrow> Schedule \<Rightarrow> (unit + time) \<times> Schedule" where
  "Schedule_Until now ended s =
     (let due = Schedule_due s now
      in case ended of
           Context_ends \<Rightarrow> (Inl (), s)
         | Sooner \<Rightarrow> (Inr zero_time, s)
         | Timer \<Rightarrow> (Inr due, s\<lparr>sc_last := due\<rparr>))"

section \<open>Turns\<close>

definition wf_Schedule :: "Schedule \<Rightarrow> bool" where
  "wf_Schedule s \<longleftrightarrow> shortest \<le> sc_every s \<and> 0 \<le> sc_phase s \<and> sc_phase s < sc_every s"

lemma Periodic_wf: "Periodic digest inst task every = Inr s \<Longrightarrow> wf_Schedule s"
proof -
  assume s: "Periodic digest inst task every = Inr s"
  then have e: "shortest \<le> every" "0 < every" by (auto simp: Periodic_def shortest_def duration_defs split: if_splits)
  have "int (n mod nat every) < every" for n
    using e(2) mod_less_divisor [of "nat every" n] by linarith
  then show ?thesis using s e(1) by (auto simp: Periodic_def wf_Schedule_def split: if_splits)
qed

lemma div_bounds:
  assumes "0 < (e :: int)"
  shows "a div e * e \<le> a" "a < a div e * e + e"
proof -
  have "a = a div e * e + a mod e" by simp
  then show "a div e * e \<le> a" "a < a div e * e + e" using pos_mod_bound [OF assms, of a] pos_mod_sign [OF assms, of a] by linarith+
qed

text \<open>Rounding toward zero, and one less where the rest is negative, is rounding down.\<close>

lemma trunc_floor:
  assumes "0 < (e :: int)"
  shows "(if a smod e < 0 then a sdiv e - 1 else a sdiv e) = a div e"
proof (cases "0 \<le> a")
  case True
  then show ?thesis
    using assms div_bounds(1) [of e a] by (auto simp: signed_divide_int_def signed_modulo_int_def sgn_if not_less)
next
  case False
  have "a sdiv e = - ((- a) div e)" using False assms by (simp add: signed_divide_int_def)
  moreover have "a smod e = - ((- a) mod e)" using False assms
    by (simp add: signed_modulo_int_def calculation minus_div_mult_eq_mod [symmetric])
  moreover have "- ((- a) div e) = a div e + (if a mod e = 0 then 0 else 1)"
    using assms by (simp add: zdiv_zminus1_eq_if)
  moreover have "(- a) mod e = (if a mod e = 0 then 0 else e - a mod e)"
    using assms by (simp add: zmod_zminus1_eq_if)
  moreover have "a mod e < e" using assms by simp
  ultimately show ?thesis by auto
qed

lemma Schedule_Next_spec:
  assumes "wf_Schedule s" "\<bar>after\<bar> + 2 * sc_every s < 2 ^ 63"
  shows "after < Schedule_Next s after" "Schedule_Next s after \<le> after + sc_every s"
    "(Schedule_Next s after - sc_phase s) mod sc_every s = 0"
proof -
  let ?e = "sc_every s" and ?p = "sc_phase s"
  have e: "0 < ?e" "0 \<le> ?p" "?p < ?e" using assms(1) by (auto simp: wf_Schedule_def shortest_def duration_defs)
  have s: "int64 (int64 after - ?p) = after - ?p"
    using assms(2) e by (subst int64_id; (subst int64_id)?) auto
  let ?q = "(after - ?p) div ?e"
  have q: "?q * ?e \<le> after - ?p" "after - ?p < (?q + 1) * ?e"
    using div_bounds [OF e(1), of "after - ?p"] by (simp_all add: distrib_right)
  have "(?q + 1) * ?e = ?q * ?e + ?e" by (simp add: distrib_right)
  then have r: "after - ?p < (?q + 1) * ?e" "(?q + 1) * ?e \<le> after - ?p + ?e" using q by simp_all
  have "int64 ((?q + 1) * ?e) = (?q + 1) * ?e" using r assms(2) e by (intro int64_id) auto
  moreover have "int64 (?p + (?q + 1) * ?e) = ?p + (?q + 1) * ?e" using r assms(2) e by (intro int64_id) auto
  ultimately have n: "Schedule_Next s after = ?p + (?q + 1) * ?e"
    unfolding Schedule_Next_def Let_def s trunc_floor [OF e(1)] by simp
  show "after < Schedule_Next s after" "Schedule_Next s after \<le> after + ?e" unfolding n using r by simp_all
  show "(Schedule_Next s after - ?p) mod ?e = 0" unfolding n by simp
qed

text \<open>It is the first turn after the moment.\<close>

lemma Schedule_Next_first:
  assumes "wf_Schedule s" "\<bar>after\<bar> + 2 * sc_every s < 2 ^ 63" "after < t" "(t - sc_phase s) mod sc_every s = 0"
  shows "Schedule_Next s after \<le> t"
proof (rule ccontr)
  let ?e = "sc_every s" and ?p = "sc_phase s"
  note n = Schedule_Next_spec [OF assms(1,2)]
  have e: "0 < ?e" using assms(1) by (simp add: wf_Schedule_def shortest_def duration_defs)
  assume "\<not> Schedule_Next s after \<le> t"
  then have d: "0 < Schedule_Next s after - t" "Schedule_Next s after - t < ?e" using n(2) assms(3) by simp_all
  have "(Schedule_Next s after - ?p - (t - ?p)) mod ?e = 0"
    using dvd_diff [OF n(3) [unfolded mod_eq_0_iff_dvd] assms(4) [unfolded mod_eq_0_iff_dvd]]
    by (simp only: mod_eq_0_iff_dvd)
  then have "(Schedule_Next s after - t) mod ?e = 0" by simp
  then show False using d by simp
qed

text \<open>A turn that ran is not run again, even where the clock was set back.\<close>

lemma Schedule_due_moves:
  assumes "wf_Schedule s" "\<bar>now\<bar> + 2 * sc_every s < 2 ^ 63" "\<bar>sc_last s\<bar> + 2 * sc_every s < 2 ^ 63" "sc_last s \<noteq> zero_time"
  shows "sc_last s < Schedule_due s now" "(Schedule_due s now - sc_phase s) mod sc_every s = 0"
  using Schedule_Next_spec [OF assms(1,2)] Schedule_Next_spec [OF assms(1,3)] assms(4)
  by (auto simp: Schedule_due_def Let_def)

end
