(* ===== verification/Governor.thy ===== *)
theory Governor
  imports Governor_Pool Governor_Pace Governor_Schedule
begin

text \<open>
  The governor of \<open>internal/governor/governor.go\<close> over its two pools and its two paces, with the
  work of \<open>work.go\<close> that goes through it. A governor always has a logger. The work itself, between
  the slot and its release, is the caller's; \<open>now\<close> is what each call of \<open>time.Now\<close> returns.
\<close>

record Work_Budget =
  bg_Scans :: int
  bg_ScanBytes :: int
  bg_Uploads :: int
  bg_UploadBytes :: int

datatype budget_problem = No_scans | No_scan_bytes | No_uploads | No_upload_bytes | No_installation

definition Budget_validate :: "Work_Budget \<Rightarrow> budget_problem list" where
  "Budget_validate b =
     (if bg_Scans b < 1 then [No_scans] else []) @ (if bg_ScanBytes b < 1 then [No_scan_bytes] else [])
     @ (if bg_Uploads b < 1 then [No_uploads] else []) @ (if bg_UploadBytes b < 1 then [No_upload_bytes] else [])"

record Governor =
  gv_installation :: "byte list"
  gv_scans :: pool
  gv_uploads :: pool
  gv_reading :: pace
  gv_sending :: pace
  gv_budget :: Work_Budget
  gv_deferred :: int

definition Governor_apply :: "Work_Budget \<Rightarrow> time \<Rightarrow> time \<Rightarrow> Governor \<Rightarrow> Governor" where
  "Governor_apply b t t' g =
     (let g = g\<lparr>gv_budget := b\<rparr>; reserved = (if bg_Uploads b > 1 then 1 else 0)
      in g\<lparr>gv_scans := pool_limit (bg_Scans b) 0 (gv_scans g),
           gv_uploads := pool_limit (bg_Uploads b) reserved (gv_uploads g),
           gv_reading := pace_limit (bg_ScanBytes b) t (gv_reading g),
           gv_sending := pace_limit (bg_UploadBytes b) t' (gv_sending g)\<rparr>)"

definition Governor_New :: "byte list \<Rightarrow> Work_Budget \<Rightarrow> time \<Rightarrow> time \<Rightarrow> budget_problem list + Governor" where
  "Governor_New installation b t t' =
     (let problems = (if installation = [] then [No_installation] else []) @ Budget_validate b
      in if problems \<noteq> [] then Inl problems
         else Inr (Governor_apply b t t'
                \<lparr>gv_installation = installation, gv_scans = newPool, gv_uploads = newPool, gv_reading = new_pace,
                 gv_sending = new_pace, gv_budget = b, gv_deferred = 0\<rparr>))"

definition Governor_Limit :: "Work_Budget \<Rightarrow> time \<Rightarrow> time \<Rightarrow> Governor \<Rightarrow> (budget_problem list + unit) \<times> Governor" where
  "Governor_Limit b t t' g =
     (if Budget_validate b \<noteq> [] then (Inl (Budget_validate b), g) else (Inr (), Governor_apply b t t' g))"

record Stats =
  st_Budget :: Work_Budget
  st_Scans :: Use
  st_Uploads :: Use
  st_Reading :: nat
  st_Sending :: nat
  st_Deferred :: int

definition Governor_Stats :: "Governor \<Rightarrow> Stats" where
  "Governor_Stats g =
     \<lparr>st_Budget = gv_budget g, st_Scans = pool_use (gv_scans g), st_Uploads = pool_use (gv_uploads g),
      st_Reading = length (waiting (pc_queue (gv_reading g))), st_Sending = length (waiting (pc_queue (gv_sending g))),
      st_Deferred = gv_deferred g\<rparr>"

section \<open>Work\<close>

definition firstLook :: duration where "firstLook = 250000000"
definition lastLook :: duration where "lastLook = 5 * Second"
definition jitter :: rat where "jitter = 1 / 5"

definition look_spread :: "duration \<Rightarrow> rat \<Rightarrow> duration" where
  "look_spread wait draw = \<lfloor>of_int wait * (1 - jitter + draw * 2 * jitter)\<rfloor>"

text \<open>
  \<open>await\<close>: at each look either the context ended during the wait, or the room was measured after
  it. The result is the waits that were made and how they ended; \<open>Looking\<close> is not having ended.
\<close>

datatype room_look = Gives_over | Measures int

datatype awaited = Room_found | Room_given_over | Looking

fun await :: "duration \<Rightarrow> int \<Rightarrow> room_look list \<Rightarrow> awaited \<times> duration list" where
  "await wait need [] = (Looking, [])"
| "await wait need (Gives_over # looks) = (Room_given_over, [wait])"
| "await wait need (Measures room # looks) =
     (if room \<ge> need then (Room_found, [wait])
      else case await (min (2 * wait) lastLook) need looks of (r, waits) \<Rightarrow> (r, wait # waits))"

definition Room :: "int \<Rightarrow> int \<Rightarrow> room_look list \<Rightarrow> awaited \<times> duration list" where
  "Room room need looks = (if room \<ge> need then (Room_found, []) else await firstLook need looks)"

text \<open>\<open>count\<close>, before and after a wait for room.\<close>

definition Governor_count :: "int \<Rightarrow> Governor \<Rightarrow> Governor" where
  "Governor_count by g = g\<lparr>gv_deferred := gv_deferred g + by\<rparr>"

datatype work_error = Unnamed | Unclassed_work | Given_over

text \<open>
  A scan with a measure of its room waits for it before it asks for a slot, and asks for none when
  the context ends first.
\<close>

definition hold :: "(int \<times> int \<times> room_look list) option \<Rightarrow> awaited" where
  "hold room = (case room of
     None \<Rightarrow> Room_found
   | Some (left, needs, looks) \<Rightarrow> if left \<ge> needs then Room_found else fst (await firstLook needs looks))"

definition Scan_asks ::
  "string \<Rightarrow> bool \<Rightarrow> (int \<times> int \<times> room_look list) option \<Rightarrow> nat \<Rightarrow> Governor \<Rightarrow> work_error + Governor" where
  "Scan_asks m work room i g =
     (if m = [] \<or> \<not> work then Inl Unnamed
      else if hold room \<noteq> Room_found then Inl Given_over
      else Inr (g\<lparr>gv_scans := pool_enter \<lparr>wt_id = i, wt_module = m, wt_class = Bulk\<rparr> (gv_scans g)\<rparr>))"

text \<open>The class of an upload is one of the two, as the type says.\<close>

definition Upload_asks :: "work_class \<Rightarrow> bool \<Rightarrow> nat \<Rightarrow> Governor \<Rightarrow> work_error + Governor" where
  "Upload_asks k work i g =
     (if \<not> work then Inl Unclassed_work
      else Inr (g\<lparr>gv_uploads := pool_enter \<lparr>wt_id = i, wt_module = work_class_String k, wt_class = k\<rparr> (gv_uploads g)\<rparr>))"

section \<open>What the governor keeps\<close>

definition gov_inv :: "Governor \<Rightarrow> bool" where
  "gov_inv g \<longleftrightarrow> Budget_validate (gv_budget g) = []
     \<and> pool_counts (gv_scans g) \<and> pool_served (gv_scans g) \<and> pool_counts (gv_uploads g) \<and> pool_served (gv_uploads g)
     \<and> pl_capacity (gv_scans g) = bg_Scans (gv_budget g) \<and> pl_reserved (gv_scans g) = 0
     \<and> pl_capacity (gv_uploads g) = bg_Uploads (gv_budget g)
     \<and> pl_reserved (gv_uploads g) = (if bg_Uploads (gv_budget g) > 1 then 1 else 0)
     \<and> pace_inv (gv_reading g) \<and> pc_rate (gv_reading g) = of_int (bg_ScanBytes (gv_budget g))
     \<and> pc_burst (gv_reading g) = burst_of (bg_ScanBytes (gv_budget g))
     \<and> pace_inv (gv_sending g) \<and> pc_rate (gv_sending g) = of_int (bg_UploadBytes (gv_budget g))
     \<and> pc_burst (gv_sending g) = burst_of (bg_UploadBytes (gv_budget g))"

text \<open>What happens to a governor: its budget changes, and work asks for, gives up and puts back what it holds.\<close>

inductive gov_step :: "Governor \<Rightarrow> Governor \<Rightarrow> bool" where
  Gov_limits: "gov_step g (snd (Governor_Limit b t t' g))"
| Gov_scan: "Scan_asks m work room i g = Inr g' \<Longrightarrow>
    \<lparr>wt_id = i, wt_module = m, wt_class = Bulk\<rparr> \<notin> members (gv_scans g) \<Longrightarrow> gov_step g g'"
| Gov_upload: "Upload_asks k work i g = Inr g' \<Longrightarrow>
    \<lparr>wt_id = i, wt_module = work_class_String k, wt_class = k\<rparr> \<notin> members (gv_uploads g) \<Longrightarrow> gov_step g g'"
| Gov_scan_over: "w \<in> members (gv_scans g) \<Longrightarrow> gov_step g (g\<lparr>gv_scans := snd (pool_waited True w (gv_scans g))\<rparr>)"
| Gov_upload_over: "w \<in> members (gv_uploads g) \<Longrightarrow> gov_step g (g\<lparr>gv_uploads := snd (pool_waited True w (gv_uploads g))\<rparr>)"
| Gov_scan_done: "w \<in> set (pl_granted (gv_scans g)) \<Longrightarrow> gov_step g (g\<lparr>gv_scans := pool_put w (gv_scans g)\<rparr>)"
| Gov_upload_done: "w \<in> set (pl_granted (gv_uploads g)) \<Longrightarrow> gov_step g (g\<lparr>gv_uploads := pool_put w (gv_uploads g)\<rparr>)"
| Gov_reads: "in_order (pc_updated (gv_reading g)) [e] \<Longrightarrow> gov_step g (g\<lparr>gv_reading := snd (pace_takes e (gv_reading g))\<rparr>)"
| Gov_sends: "in_order (pc_updated (gv_sending g)) [e] \<Longrightarrow> gov_step g (g\<lparr>gv_sending := snd (pace_takes e (gv_sending g))\<rparr>)"
| Gov_counts: "gov_step g (Governor_count by g)"

inductive_cases gov_stepE: "gov_step g g'"

lemma op_fields [simp]:
  "pl_capacity (pool_enter w p) = pl_capacity p" "pl_reserved (pool_enter w p) = pl_reserved p"
  "pl_capacity (pool_put w p) = pl_capacity p" "pl_reserved (pool_put w p) = pl_reserved p"
  "pl_capacity (snd (pool_waited c w p)) = pl_capacity p" "pl_reserved (snd (pool_waited c w p)) = pl_reserved p"
  by (simp_all add: pool_enter_def pool_put_def pool_waited_def Let_def)

lemma limit_fields [simp]:
  "pc_rate (pace_limit rate t p) = of_int rate" "pc_burst (pace_limit rate t p) = burst_of rate"
  "pl_capacity (pool_limit c r q) = c" "pl_reserved (pool_limit c r q) = r"
  by (simp_all add: pace_limit_def pool_limit_def Let_def)

lemma apply_inv:
  assumes "Budget_validate b = []"
    and "pool_counts (gv_scans g)" "pool_counts (gv_uploads g)" "pool_served (gv_scans g)" "pool_served (gv_uploads g)"
    and "pace_inv (gv_reading g) \<or> gv_reading g = new_pace" "pace_inv (gv_sending g) \<or> gv_sending g = new_pace"
  shows "gov_inv (Governor_apply b t t' g)"
proof -
  have b: "1 \<le> bg_ScanBytes b" "1 \<le> bg_UploadBytes b"
    using assms(1) by (auto simp: Budget_validate_def split: if_splits)
  show ?thesis
    using assms limiting.keeps_counts limiting.keeps_served limit_inv [OF b(1) assms(6)] limit_inv [OF b(2) assms(7)]
    by (simp add: gov_inv_def Governor_apply_def Let_def)
qed

lemma New_inv: "Governor_New installation b t t' = Inr g \<Longrightarrow> gov_inv g"
  using newPool_keeps by (auto simp: Governor_New_def Let_def intro!: apply_inv split: if_splits)

lemma takes_inv:
  assumes "pace_inv p" "in_order (pc_updated p) [e]"
  shows "pace_inv (snd (pace_takes e p))" "pc_rate (snd (pace_takes e p)) = pc_rate p"
    "pc_burst (snd (pace_takes e p)) = pc_burst p"
  using event_kept [OF assms, of "fst (pace_takes e p)" "snd (pace_takes e p)"] by simp_all

lemma gov_step_inv: "gov_step g g' \<Longrightarrow> gov_inv g \<Longrightarrow> gov_inv g'"
proof (induction rule: gov_step.induct)
  case (Gov_limits g b t t')
  have "gov_inv (Governor_apply b t t' g)" if "Budget_validate b = []"
    using Gov_limits that by (intro apply_inv) (simp_all add: gov_inv_def)
  then show ?case using Gov_limits by (simp add: Governor_Limit_def)
next
  case (Gov_scan m work room i g g')
  then have "g' = g\<lparr>gv_scans := pool_enter \<lparr>wt_id = i, wt_module = m, wt_class = Bulk\<rparr> (gv_scans g)\<rparr>"
    by (simp add: Scan_asks_def split: if_splits)
  then show ?case
    using Gov_scan(2,3) entering.keeps_counts entering.keeps_served by (simp add: gov_inv_def)
next
  case (Gov_upload k work i g g')
  then have "g' = g\<lparr>gv_uploads := pool_enter \<lparr>wt_id = i, wt_module = work_class_String k, wt_class = k\<rparr> (gv_uploads g)\<rparr>"
    by (simp add: Upload_asks_def split: if_splits)
  then show ?case
    using Gov_upload(2,3) entering.keeps_counts entering.keeps_served by (simp add: gov_inv_def)
qed (simp_all add: gov_inv_def Governor_count_def takes_inv leaving.keeps_counts leaving.keeps_served
    putting.keeps_counts putting.keeps_served)

lemma gov_steps_inv: "gov_step\<^sup>*\<^sup>* g g' \<Longrightarrow> gov_inv g \<Longrightarrow> gov_inv g'"
  by (induction rule: rtranclp_induct) (auto intro: gov_step_inv)

text \<open>Between changes of the budget, an upload is never granted above it, nor a bulk one above what is not reserved.\<close>

lemma gov_step_within:
  assumes "gov_step g g'" "gov_inv g"
  shows "pool_within (gv_scans g) (gv_scans g')" "pool_within (gv_uploads g) (gv_uploads g')"
proof -
  have same: "pool_within p p" for p by (simp add: pool_within_def)
  have "pool_within (gv_scans g) (gv_scans g') \<and> pool_within (gv_uploads g) (gv_uploads g')"
    using assms
  proof (induction rule: gov_step.induct)
    case (Gov_limits g b t t')
    then show ?case
      by (simp add: Governor_Limit_def Governor_apply_def Let_def same gov_inv_def limiting.keeps_within)
  next
    case (Gov_scan m work room i g g')
    then show ?case by (auto simp: Scan_asks_def same gov_inv_def intro: entering.keeps_within split: if_splits)
  next
    case (Gov_upload k work i g g')
    then show ?case by (auto simp: Upload_asks_def same gov_inv_def intro: entering.keeps_within split: if_splits)
  qed (simp_all add: same gov_inv_def Governor_count_def leaving.keeps_within putting.keeps_within)
  then show "pool_within (gv_scans g) (gv_scans g')" "pool_within (gv_uploads g) (gv_uploads g')" by simp_all
qed

section \<open>Waiting for room\<close>

lemma await_waits: "firstLook \<le> wait \<Longrightarrow> wait \<le> lastLook \<Longrightarrow> x \<in> set (snd (await wait need looks)) \<Longrightarrow> firstLook \<le> x \<and> x \<le> lastLook"
proof (induction wait need looks rule: await.induct)
  case (3 wait need room looks)
  then show ?case by (auto simp: lastLook_def firstLook_def duration_defs split: if_splits prod.splits)
qed simp_all

lemma await_finds:
  assumes "need \<le> room" "list_all (\<lambda>l. \<exists>r. l = Measures r) looks"
  shows "fst (await wait need (looks @ [Measures room])) = Room_found"
  using assms(2)
proof (induction looks arbitrary: wait)
  case (Cons l looks)
  then obtain r where "l = Measures r" by auto
  then show ?case using Cons by (simp add: split_beta)
qed (use assms(1) in simp)

end
