(* ===== verification/Governor_Samples.thy ===== *)
theory Governor_Samples
  imports Governor
begin

text \<open>A governor to apply the theorems to: two scans and two uploads at once, a megabyte a second each.\<close>

definition sample_budget :: Work_Budget where
  "sample_budget = \<lparr>bg_Scans = 2, bg_ScanBytes = 2 ^ 20, bg_Uploads = 2, bg_UploadBytes = 2 ^ 20\<rparr>"

definition sample_governor :: Governor where
  "sample_governor = Governor_apply sample_budget 0 0
     \<lparr>gv_installation = [7], gv_scans = newPool, gv_uploads = newPool, gv_reading = new_pace, gv_sending = new_pace,
      gv_budget = sample_budget, gv_deferred = 0\<rparr>"

lemma sample_Governor: "Governor_New [7] sample_budget 0 0 = Inr sample_governor"
  by (simp add: Governor_New_def Budget_validate_def sample_budget_def sample_governor_def)

definition bulk_waiter :: waiter where
  "bulk_waiter = \<lparr>wt_id = 1, wt_module = [], wt_class = Bulk\<rparr>"

definition critical_waiter :: waiter where
  "critical_waiter = \<lparr>wt_id = 2, wt_module = work_class_String Critical, wt_class = Critical\<rparr>"

text \<open>A bulk upload waits to send; it and the critical work that keeps arriving are granted bytes in turn.\<close>

definition waiting_governor :: Governor where
  "waiting_governor = sample_governor\<lparr>gv_sending := snd (pace_takes (Enters bulk_waiter) (gv_sending sample_governor))\<rparr>"

definition sample_events :: "pace_event list" where
  "sample_events = [Enters critical_waiter, Tries 5 critical_waiter 10, Enters critical_waiter, Tries 5 critical_waiter 10,
     Enters critical_waiter, Tries 5 critical_waiter 10, Enters critical_waiter, Tries 5 critical_waiter 10,
     Enters critical_waiter, Tries 5 bulk_waiter 10]"

lemma sample_sending:
  "gv_sending sample_governor = \<lparr>pc_rate = 2 ^ 20, pc_burst = 131072, pc_tokens = 131072, pc_updated = 0,
     pc_queue = \<lparr>waiting = [], streak = 0\<rparr>, pc_ready = {}\<rparr>"
  by (simp add: sample_governor_def Governor_apply_def pace_limit_def new_pace_def Let_def pace_refill_def sample_budget_def
      burst_of_def minBurst_def pace_nudge_def wq_next_def wq_first_def)

lemma waiting_steps: "gov_step sample_governor waiting_governor"
  unfolding waiting_governor_def by (rule Gov_sends) simp

lemma waiting_sending:
  "gv_sending waiting_governor = \<lparr>pc_rate = 2 ^ 20, pc_burst = 131072, pc_tokens = 131072, pc_updated = 0,
     pc_queue = \<lparr>waiting = [bulk_waiter], streak = 0\<rparr>, pc_ready = {}\<rparr>"
  by (simp add: waiting_governor_def sample_sending pace_enter_def wq_add_def)

lemma sample_served:
  "length (filter (\<lambda>e. e = Serves) (queue_events sample_events (gv_sending waiting_governor))) = 5"
  "ahead bulk_waiter (pc_queue (gv_sending waiting_governor)) = 0"
  "in_order (pc_updated (gv_sending waiting_governor)) sample_events"
  "fst (pace_run sample_events (gv_sending waiting_governor)) = 50"
  "pc_updated (snd (pace_run sample_events (gv_sending waiting_governor))) = 5"
  by (simp_all add: waiting_sending sample_events_def ahead_def pace_enter_def pace_try_def pace_refill_def
      wq_add_def wq_next_def wq_first_def bulk_waiter_def critical_waiter_def duration_defs favoured_def
      wq_served_def wq_remove_def pace_nudge_def Let_def)

lemma dispatch_empty: "waiting (pl_queue p) = [] \<Longrightarrow> pool_dispatch p = p"
  by (simp add: pool_dispatch.simps pool_next_def wq_next_def wq_first_def)

lemma sample_uploads: "members (gv_uploads sample_governor) = {}" "pool_total (gv_uploads sample_governor) = 0"
  by (simp_all add: sample_governor_def Governor_apply_def pool_limit_def newPool_def members_def pool_total_def
      dispatch_empty Let_def)

lemma BigEndian_zeros: "BigEndian (replicate n 0) = 0"
proof -
  have "foldl (\<lambda>n b. 256 * n + unat b) 0 (replicate k (0 :: byte)) = 0" for k by (induction k) simp_all
  then show ?thesis by (simp add: BigEndian_def)
qed

end
