(* ===== verification/Policy_Trust.thy ===== *)
theory Policy_Trust
  imports Update_Trust
begin

text \<open>
  What makes a policy one the agent accepts: the signature over it, \<open>internal/policy/policy.go\<close>, and
  whether it is one for this agent, \<open>judge.go\<close>. Digests, signatures and the decoding of messages are
  parameters. A decoded policy comes with the tree of its messages, of which each says whether it is
  a check and whether it holds fields this agent does not know; a moment that is not set is \<open>None\<close>,
  one that is not valid \<open>Some None\<close>.
\<close>

datatype policy_sentinel = Policy_unsigned | Policy_malformed | Not_named | Policy_older | Policy_expired | Inapplicable | Unkept

type_synonym policy_fault = "policy_sentinel err"

definition PolicyPayloadType :: string where "PolicyPayloadType = ''application/vnd.seagull.policy.v1+protobuf''"
definition PolicySchemaVersion :: nat where "PolicySchemaVersion = 1"
definition MaxPolicyBytes :: nat where "MaxPolicyBytes = 2 ^ 20"
definition MaxPolicyEnvelope :: nat where "MaxPolicyEnvelope = MaxPolicyBytes + 4 * 2 ^ 10"
definition MaxPolicySignatures :: nat where "MaxPolicySignatures = 4"
definition MaxTargets :: nat where "MaxTargets = 10000"
definition MaxLifetime :: duration where "MaxLifetime = 366 * 24 * Hour"
definition MaxPolicySkew :: duration where "MaxPolicySkew = 5 * Minute"

datatype Module_named =
    Module_unspecified | Module_authentication | Module_inventory | Module_processes | Module_files | Module_network
  | Module_assessment | Module_other int

datatype Log_level = Level_unspecified | Level_debug | Level_info | Level_warn | Level_error | Level_other int

datatype Collection = Collection_unspecified | Collection_enabled | Collection_disabled | Collection_other int

record Module_setting =
  ms_module :: Module_named
  ms_collection :: Collection
  ms_interval :: "duration option option"
  ms_paths :: "string list option"
  ms_exclude :: "string list option"

record Budgets =
  bg_spool_max_bytes :: u64
  bg_max_batch_bytes :: u64
  bg_max_upload :: u64
  bg_memory_limit :: u64
  bg_max_scan :: u64
  bg_max_events :: u32
  bg_max_inventory :: u32
  bg_max_scans :: u32
  bg_max_uploads :: u32
  bg_spool_max_age :: "duration option option"

record Settings =
  st_level :: Log_level
  st_modules :: "Module_setting list"
  st_budgets :: Budgets
  st_checks :: "string list option"

record Policy_msg =
  pm_schema :: nat
  pm_id :: string
  pm_revision :: u64
  pm_targets :: "string list"
  pm_issued :: "time option option"
  pm_expires :: "time option option"
  pm_settings :: Settings

datatype message_tree = Message_tree bool bool "message_tree list"

record SignedPolicy =
  sd_type :: string
  sd_payload :: "byte list"
  sd_signatures :: "byte list list"

record 'k signing =
  policy_Sum256 :: "byte list \<Rightarrow> byte list"
  policy_VerifyASN1 :: "'k \<Rightarrow> byte list \<Rightarrow> byte list \<Rightarrow> bool"
  OverP256 :: "'k \<Rightarrow> bool"
  MarshalPKIX :: "'k \<Rightarrow> byte list option"
  DecodeSigned :: "byte list \<Rightarrow> SignedPolicy option"
  DecodePolicy :: "byte list \<Rightarrow> (Policy_msg \<times> message_tree) option"

section \<open>Signatures\<close>

type_synonym 'k Verifier = "(string \<times> 'k) list"

definition policy_KeyID :: "'k signing \<Rightarrow> 'k \<Rightarrow> string option" where
  "policy_KeyID sg key = map_option (\<lambda>der. EncodeToString (policy_Sum256 sg der)) (MarshalPKIX sg key)"

fun NewVerifier_each :: "'k signing \<Rightarrow> 'k list \<Rightarrow> 'k Verifier \<Rightarrow> 'k Verifier option" where
  "NewVerifier_each sg [] held = Some held"
| "NewVerifier_each sg (key # keys) held =
     (if \<not> OverP256 sg key then None
      else case policy_KeyID sg key of None \<Rightarrow> None | Some ident \<Rightarrow> NewVerifier_each sg keys (held @ [(ident, key)]))"

definition NewVerifier :: "'k signing \<Rightarrow> 'k list \<Rightarrow> 'k Verifier option" where
  "NewVerifier sg keys =
     (case NewVerifier_each sg keys [] of None \<Rightarrow> None | Some held \<Rightarrow> if held = [] then None else Some held)"

record Verified =
  vf_policy :: Policy_msg
  vf_envelope :: "byte list"
  vf_digest :: string
  vf_signedBy :: "string list"

text \<open>The candidates for one signature, after those that were found for the ones before it.\<close>

fun signers_of :: "'k signing \<Rightarrow> byte list \<Rightarrow> byte list \<Rightarrow> 'k Verifier \<Rightarrow> string list \<Rightarrow> string list" where
  "signers_of sg digest sig [] got = got"
| "signers_of sg digest sig ((ident, key) # keys) got =
     signers_of sg digest sig keys
       (if ident \<notin> set got \<and> policy_VerifyASN1 sg key digest sig then got @ [ident] else got)"

text \<open>A message that holds what this agent does not know, unless it is a check, which is read when it is run.\<close>

fun known :: "message_tree \<Rightarrow> bool" where
  "known (Message_tree check unknown held) \<longleftrightarrow> check \<or> (\<not> unknown \<and> (\<forall>m \<in> set held. known m))"

definition Verify :: "'k signing \<Rightarrow> 'k Verifier \<Rightarrow> byte list \<Rightarrow> policy_fault + Verified" where
  "Verify sg keys served =
     (if length served > MaxPolicyEnvelope then Inl [Policy_malformed]
      else case DecodeSigned sg served of
        None \<Rightarrow> Inl [Policy_malformed]
      | Some envelope \<Rightarrow>
          if sd_type envelope \<noteq> PolicyPayloadType then Inl [Policy_malformed]
          else if sd_payload envelope = [] \<or> length (sd_payload envelope) > MaxPolicyBytes then Inl [Policy_malformed]
          else if sd_signatures envelope = [] then Inl [Policy_unsigned]
          else if length (sd_signatures envelope) > MaxPolicySignatures then Inl [Policy_malformed]
          else
            let digest = policy_Sum256 sg (PAE PolicyPayloadType (sd_payload envelope));
                signed = foldl (\<lambda>got sig. signers_of sg digest sig keys got) [] (sd_signatures envelope)
            in if signed = [] then Inl [Policy_unsigned]
               else case DecodePolicy sg (sd_payload envelope) of
                      None \<Rightarrow> Inl [Policy_malformed]
                    | Some (policy, tree) \<Rightarrow>
                        if \<not> known tree then Inl [Policy_malformed]
                        else Inr \<lparr>vf_policy = policy, vf_envelope = served,
                                  vf_digest = EncodeToString (policy_Sum256 sg served), vf_signedBy = sort signed\<rparr>)"

section \<open>The judgement\<close>

record Holding =
  ho_revision :: u64
  ho_digest :: string

definition no_holding :: Holding where "no_holding = \<lparr>ho_revision = 0, ho_digest = []\<rparr>"

definition is_alnum :: "char \<Rightarrow> bool" where
  "is_alnum c \<longleftrightarrow> is_digit c \<or> (CHR ''a'' \<le> c \<and> c \<le> CHR ''z'') \<or> (CHR ''A'' \<le> c \<and> c \<le> CHR ''Z'')"

definition policy_identifier :: "string \<Rightarrow> bool" where
  "policy_identifier s \<longleftrightarrow> s \<noteq> [] \<and> length s \<le> 64 \<and> is_alnum (hd s)
     \<and> list_all (\<lambda>c. is_alnum c \<or> c \<in> {CHR ''.'', CHR ''_'', CHR ''-''}) (tl s)"

definition Policy_Judge :: "Verified \<Rightarrow> string \<Rightarrow> Holding \<Rightarrow> time \<Rightarrow> policy_fault option" where
  "Policy_Judge verified agent held now =
     (let policy = vf_policy verified
      in if pm_schema policy \<noteq> PolicySchemaVersion then Some [Policy_malformed]
         else if \<not> policy_identifier (pm_id policy) then Some [Policy_malformed]
         else if pm_revision policy = 0 \<or> pm_revision policy > 2 ^ 63 - 1 then Some [Policy_malformed]
         else if pm_targets policy = [] \<or> length (pm_targets policy) > MaxTargets then Some [Policy_malformed]
         else if agent \<notin> set (pm_targets policy) then Some [Not_named]
         else case (pm_issued policy, pm_expires policy) of
           (Some (Some written), Some (Some ending)) \<Rightarrow>
             if written > now + MaxPolicySkew then Some [Policy_malformed]
             else if \<not> ending > written then Some [Policy_malformed]
             else if ending - written > MaxLifetime then Some [Policy_malformed]
             else if \<not> ending > now then Some [Policy_expired]
             else if pm_revision policy < ho_revision held then Some [Policy_older]
             else if pm_revision policy = ho_revision held \<and> vf_digest verified \<noteq> ho_digest held then Some [Policy_older]
             else None
         | _ \<Rightarrow> Some [Policy_malformed])"

section \<open>What a signature and a judgement say\<close>

definition accepted_signature :: "'k signing \<Rightarrow> 'k Verifier \<Rightarrow> byte list \<Rightarrow> bool" where
  "accepted_signature sg keys served \<longleftrightarrow>
     (\<exists>envelope ident key sig. DecodeSigned sg served = Some envelope \<and> (ident, key) \<in> set keys
        \<and> sig \<in> set (sd_signatures envelope)
        \<and> policy_VerifyASN1 sg key (policy_Sum256 sg (PAE PolicyPayloadType (sd_payload envelope))) sig)"

lemma signers_of_sound:
  "ident \<in> set (signers_of sg digest sig keys got) \<Longrightarrow>
     ident \<in> set got \<or> (\<exists>key. (ident, key) \<in> set keys \<and> policy_VerifyASN1 sg key digest sig)"
  by (induction sg digest sig keys got rule: signers_of.induct) (auto split: if_splits)

lemma signed_sound:
  assumes "ident \<in> set (foldl (\<lambda>got sig. signers_of sg digest sig keys got) got sigs)"
  shows "ident \<in> set got \<or> (\<exists>key sig. sig \<in> set sigs \<and> (ident, key) \<in> set keys \<and> policy_VerifyASN1 sg key digest sig)"
  using assms
proof (induction sigs arbitrary: got)
  case Nil
  then show ?case by simp
next
  case (Cons sig sigs)
  then have "ident \<in> set (signers_of sg digest sig keys got)
      \<or> (\<exists>key sig. sig \<in> set sigs \<and> (ident, key) \<in> set keys \<and> policy_VerifyASN1 sg key digest sig)"
    by simp
  then show ?case using signers_of_sound [of ident sg digest sig keys got] by auto
qed

lemma Verify_Inr:
  assumes "Verify sg keys served = Inr verified"
  shows "accepted_signature sg keys served" "vf_envelope verified = served"
    "vf_digest verified = EncodeToString (policy_Sum256 sg served)"
proof -
  obtain envelope where e: "DecodeSigned sg served = Some envelope"
    using assms by (auto simp: Verify_def split: if_splits option.splits)
  define digest where "digest = policy_Sum256 sg (PAE PolicyPayloadType (sd_payload envelope))"
  define signed where "signed = foldl (\<lambda>got sig. signers_of sg digest sig keys got) [] (sd_signatures envelope)"
  have "signed \<noteq> []"
    using assms e by (auto simp: Verify_def Let_def digest_def signed_def split: if_splits option.splits)
  then obtain ident where "ident \<in> set signed" by (cases signed) auto
  with signed_sound [of ident sg digest keys "[]" "sd_signatures envelope"] e
  show "accepted_signature sg keys served" by (auto simp: accepted_signature_def signed_def digest_def)
  show "vf_envelope verified = served" "vf_digest verified = EncodeToString (policy_Sum256 sg served)"
    using assms e by (auto simp: Verify_def Let_def split: if_splits option.splits)
qed

text \<open>A policy judged fit names the agent, is in force now, and is newer than what is held or the very same.\<close>

lemma Policy_Judge_None:
  assumes "Policy_Judge verified agent held now = None"
  shows "agent \<in> set (pm_targets (vf_policy verified))" "0 < pm_revision (vf_policy verified)"
    "ho_revision held < pm_revision (vf_policy verified)
       \<or> ho_revision held = pm_revision (vf_policy verified) \<and> ho_digest held = vf_digest verified"
    "\<exists>ending. pm_expires (vf_policy verified) = Some (Some ending) \<and> now < ending"
  using assms by (auto simp: Policy_Judge_def Let_def word_gt_0 split: if_splits option.splits)

lemma Policy_Judge_named:
  assumes "\<forall>err. Policy_Judge verified agent held now = Some err \<longrightarrow> Is err Policy_expired"
  shows "agent \<in> set (pm_targets (vf_policy verified))" "0 < pm_revision (vf_policy verified)"
  using assms by (auto simp: Policy_Judge_def Let_def Is_def word_gt_0 split: if_splits option.splits)

end
