(* ===== verification/Policy_Overlay.thy ===== *)
theory Policy_Overlay
  imports Policy_Trust
begin

text \<open>
  The configuration the agent runs on under a policy, \<open>internal/policy/overlay.go\<close>. A configuration is
  its parts that a policy reaches, and the rest of it, which has any type: what the file sets and no
  policy touches. The rules of the configuration file are an argument, the function \<open>Validated\<close>.
  What is kept of the agent's own is reported with the two numbers rather than with their text.
\<close>

record Module_config =
  mc_Enabled :: bool
  mc_Interval :: duration
  mc_Paths :: "string list"
  mc_Exclude :: "string list"

definition no_module :: Module_config where
  "no_module = \<lparr>mc_Enabled = False, mc_Interval = 0, mc_Paths = [], mc_Exclude = []\<rparr>"

record Ceilings =
  ce_spool_max_bytes :: int
  ce_max_batch_bytes :: int
  ce_max_upload :: int
  ce_memory_limit :: int
  ce_max_scan :: int
  ce_max_events :: int
  ce_max_inventory :: int
  ce_max_scans :: int
  ce_max_uploads :: int
  ce_spool_max_age :: duration

record 'r Config =
  cf_level :: string
  cf_modules :: "string \<rightharpoonup> Module_config"
  cf_ceilings :: Ceilings
  cf_rest :: 'r

record Kept_own =
  ko_setting :: string
  ko_own :: int
  ko_asked :: int

definition named_module :: "Module_named \<Rightarrow> string option" where
  "named_module m =
     (case m of
        Module_authentication \<Rightarrow> Some ''authentication'' | Module_inventory \<Rightarrow> Some ''inventory''
      | Module_processes \<Rightarrow> Some ''processes'' | Module_files \<Rightarrow> Some ''files'' | Module_network \<Rightarrow> Some ''network''
      | Module_assessment \<Rightarrow> Some ''assessment'' | _ \<Rightarrow> None)"

definition named_level :: "Log_level \<Rightarrow> string option" where
  "named_level l =
     (case l of
        Level_debug \<Rightarrow> Some ''debug'' | Level_info \<Rightarrow> Some ''info'' | Level_warn \<Rightarrow> Some ''warn'' | Level_error \<Rightarrow> Some ''error''
      | _ \<Rightarrow> None)"

definition MaxAssessmentResults :: nat where "MaxAssessmentResults = 512"

fun checks_from :: "string list \<Rightarrow> string list \<Rightarrow> policy_fault option" where
  "checks_from [] seen = None"
| "checks_from (ident # checks) seen =
     (if \<not> policy_identifier ident \<or> ident \<in> set seen then Some [Policy_malformed] else checks_from checks (ident # seen))"

definition checklist :: "string list option \<Rightarrow> policy_fault option" where
  "checklist held =
     (case held of
        None \<Rightarrow> None
      | Some checks \<Rightarrow>
          if checks = [] \<or> length checks > MaxAssessmentResults then Some [Policy_malformed] else checks_from checks [])"

section \<open>Ceilings\<close>

definition sized :: "string \<Rightarrow> u64 \<Rightarrow> int \<Rightarrow> Kept_own list \<Rightarrow> int \<times> Kept_own list" where
  "sized setting asked held kept =
     (let n = int (unat asked)
      in if asked = 0 then (held, kept)
         else if n < 2 ^ 63 - 1 \<and> n \<le> held then (n, kept)
         else (held, kept @ [\<lparr>ko_setting = setting, ko_own = held, ko_asked = n\<rparr>]))"

definition counted_as :: "string \<Rightarrow> u32 \<Rightarrow> int \<Rightarrow> Kept_own list \<Rightarrow> int \<times> Kept_own list" where
  "counted_as setting asked held kept =
     (let n = int (unat asked)
      in if asked = 0 then (held, kept)
         else if n \<le> held then (n, kept)
         else (held, kept @ [\<lparr>ko_setting = setting, ko_own = held, ko_asked = n\<rparr>]))"

definition timed :: "string \<Rightarrow> duration option option \<Rightarrow> duration \<Rightarrow> Kept_own list \<Rightarrow> policy_fault + duration \<times> Kept_own list" where
  "timed setting asked held kept =
     (case asked of
        None \<Rightarrow> Inr (held, kept)
      | Some None \<Rightarrow> Inl [Policy_malformed]
      | Some (Some n) \<Rightarrow>
          if n = 0 then Inr (held, kept)
          else if n \<le> held then Inr (n, kept)
          else Inr (held, kept @ [\<lparr>ko_setting = setting, ko_own = held, ko_asked = n\<rparr>]))"

definition overlay_ceilings :: "Budgets \<Rightarrow> Ceilings \<Rightarrow> policy_fault + Ceilings \<times> Kept_own list" where
  "overlay_ceilings b c =
     (let (spool, kept) = sized ''spool.max_bytes'' (bg_spool_max_bytes b) (ce_spool_max_bytes c) [];
          (batch, kept) = sized ''transport.max_batch_bytes'' (bg_max_batch_bytes b) (ce_max_batch_bytes c) kept;
          (upload, kept) = sized ''transport.max_upload_bytes_per_second'' (bg_max_upload b) (ce_max_upload c) kept;
          (memory, kept) = sized ''resources.memory_limit'' (bg_memory_limit b) (ce_memory_limit c) kept;
          (scan, kept) = sized ''resources.max_scan_bytes_per_second'' (bg_max_scan b) (ce_max_scan c) kept;
          (events, kept) = counted_as ''transport.max_events_per_batch'' (bg_max_events b) (ce_max_events c) kept;
          (inventory, kept) = counted_as ''transport.max_inventory_records_per_batch'' (bg_max_inventory b) (ce_max_inventory c) kept;
          (scans, kept) = counted_as ''resources.max_concurrent_scans'' (bg_max_scans b) (ce_max_scans c) kept;
          (uploads, kept) = counted_as ''resources.max_concurrent_uploads'' (bg_max_uploads b) (ce_max_uploads c) kept
      in case timed ''spool.max_age'' (bg_spool_max_age b) (ce_spool_max_age c) kept of
           Inl err \<Rightarrow> Inl err
         | Inr (age, kept) \<Rightarrow>
             Inr (\<lparr>ce_spool_max_bytes = spool, ce_max_batch_bytes = batch, ce_max_upload = upload, ce_memory_limit = memory,
                   ce_max_scan = scan, ce_max_events = events, ce_max_inventory = inventory, ce_max_scans = scans,
                   ce_max_uploads = uploads, ce_spool_max_age = age\<rparr>, kept))"

section \<open>Modules\<close>

text \<open>What one entry of the policy makes of the settings of a module.\<close>

definition overlay_module :: "Module_setting \<Rightarrow> Module_config \<Rightarrow> policy_fault + Module_config" where
  "overlay_module s held =
     (case ms_collection s of
        Collection_other _ \<Rightarrow> Inl [Policy_malformed]
      | asked \<Rightarrow>
          let held = (case asked of Collection_enabled \<Rightarrow> held\<lparr>mc_Enabled := True\<rparr>
                      | Collection_disabled \<Rightarrow> held\<lparr>mc_Enabled := False\<rparr> | _ \<Rightarrow> held)
          in case ms_interval s of
               Some None \<Rightarrow> Inl [Policy_malformed]
             | every \<Rightarrow>
                 let held = (case every of Some (Some n) \<Rightarrow> if n \<noteq> 0 then held\<lparr>mc_Interval := n\<rparr> else held | _ \<Rightarrow> held);
                     held = (case ms_paths s of Some paths \<Rightarrow> held\<lparr>mc_Paths := paths\<rparr> | None \<Rightarrow> held)
                 in Inr (case ms_exclude s of Some exclude \<Rightarrow> held\<lparr>mc_Exclude := exclude\<rparr> | None \<Rightarrow> held))"

fun overlay_modules ::
  "Module_setting list \<Rightarrow> Module_named list \<Rightarrow> (string \<rightharpoonup> Module_config) \<Rightarrow> policy_fault + (string \<rightharpoonup> Module_config)" where
  "overlay_modules [] seen modules = Inr modules"
| "overlay_modules (s # rest) seen modules =
     (if ms_module s = Module_unspecified then Inl [Policy_malformed]
      else case named_module (ms_module s) of
        None \<Rightarrow> Inl [Inapplicable]
      | Some name \<Rightarrow>
          if ms_module s \<in> set seen then Inl [Policy_malformed]
          else case overlay_module s (case modules name of None \<Rightarrow> no_module | Some held \<Rightarrow> held) of
                 Inl err \<Rightarrow> Inl err
               | Inr held \<Rightarrow> overlay_modules rest (ms_module s # seen) (modules(name \<mapsto> held)))"

definition overlay_level :: "Log_level \<Rightarrow> string \<Rightarrow> policy_fault + string" where
  "overlay_level level held =
     (if level = Level_unspecified then Inr held
      else case named_level level of None \<Rightarrow> Inl [Policy_malformed] | Some written \<Rightarrow> Inr written)"

definition Overlay ::
  "('r Config \<Rightarrow> 'r Config option) \<Rightarrow> 'r Config \<Rightarrow> Settings \<Rightarrow> policy_fault + 'r Config \<times> Kept_own list" where
  "Overlay Validated own settings =
     (case checklist (st_checks settings) of
        Some err \<Rightarrow> Inl err
      | None \<Rightarrow>
          (case overlay_level (st_level settings) (cf_level own) of
             Inl err \<Rightarrow> Inl err
           | Inr level \<Rightarrow>
               (case overlay_modules (st_modules settings) [] (cf_modules own) of
                  Inl err \<Rightarrow> Inl err
                | Inr modules \<Rightarrow>
                    (case overlay_ceilings (st_budgets settings) (cf_ceilings own) of
                       Inl err \<Rightarrow> Inl err
                     | Inr (ceilings, kept) \<Rightarrow>
                         (case Validated (own\<lparr>cf_level := level, cf_modules := modules, cf_ceilings := ceilings\<rparr>) of
                            None \<Rightarrow> Inl [Inapplicable]
                          | Some made \<Rightarrow> Inr (made, kept))))))"

section \<open>A policy lowers and never raises\<close>

definition lowered :: "int \<Rightarrow> int \<Rightarrow> int" where
  "lowered asked own = (if asked = 0 then own else min asked own)"

definition ceilings :: "Ceilings \<Rightarrow> int list" where
  "ceilings c = [ce_spool_max_bytes c, ce_max_batch_bytes c, ce_max_upload c, ce_memory_limit c, ce_max_scan c,
     ce_max_events c, ce_max_inventory c, ce_max_scans c, ce_max_uploads c, ce_spool_max_age c]"

definition asked_of :: "Budgets \<Rightarrow> int list" where
  "asked_of b = [int (unat (bg_spool_max_bytes b)), int (unat (bg_max_batch_bytes b)), int (unat (bg_max_upload b)),
     int (unat (bg_memory_limit b)), int (unat (bg_max_scan b)), int (unat (bg_max_events b)), int (unat (bg_max_inventory b)),
     int (unat (bg_max_scans b)), int (unat (bg_max_uploads b)),
     (case bg_spool_max_age b of Some (Some n) \<Rightarrow> n | _ \<Rightarrow> 0)]"

lemma lowered_le: "lowered asked own \<le> own"
  by (simp add: lowered_def)

lemma sized_lowers: "held \<le> 2 ^ 63 - 1 \<Longrightarrow> fst (sized s asked held kept) = lowered (int (unat asked)) held"
  by (auto simp: sized_def lowered_def Let_def unsigned_eq_0_iff)

lemma counted_lowers: "fst (counted_as s asked held kept) = lowered (int (unat asked)) held"
  by (auto simp: counted_as_def lowered_def Let_def unsigned_eq_0_iff)

lemma timed_lowers:
  "timed s asked held kept = Inr (n, kept') \<Longrightarrow> n = lowered (case asked of Some (Some m) \<Rightarrow> m | _ \<Rightarrow> 0) held"
  by (auto simp: timed_def lowered_def split: option.splits if_splits)

lemma overlay_ceilings_lowers:
  assumes "overlay_ceilings b c = Inr (c', kept)" "list_all (\<lambda>n. n \<le> 2 ^ 63 - 1) (ceilings c)"
  shows "ceilings c' = map2 lowered (asked_of b) (ceilings c)"
proof -
  have own: "ce_spool_max_bytes c \<le> 2 ^ 63 - 1" "ce_max_batch_bytes c \<le> 2 ^ 63 - 1" "ce_max_upload c \<le> 2 ^ 63 - 1"
    "ce_memory_limit c \<le> 2 ^ 63 - 1" "ce_max_scan c \<le> 2 ^ 63 - 1"
    using assms(2) by (simp_all add: ceilings_def)
  show ?thesis
    using assms(1) unfolding overlay_ceilings_def Let_def
    by (auto simp: ceilings_def asked_of_def split: prod.splits sum.splits dest!: timed_lowers
        dest!: arg_cong [of "sized _ _ _ _" _ fst] arg_cong [of "counted_as _ _ _ _" _ fst]
        simp: sized_lowers [OF own(1)] sized_lowers [OF own(2)] sized_lowers [OF own(3)] sized_lowers [OF own(4)]
          sized_lowers [OF own(5)] counted_lowers)
qed

lemma overlay_modules_others:
  assumes "overlay_modules ss seen modules = Inr modules'" "\<forall>s \<in> set ss. named_module (ms_module s) \<noteq> Some name"
  shows "modules' name = modules name"
  using assms
proof (induction ss seen modules rule: overlay_modules.induct)
  case (1 seen modules)
  then show ?case by simp
next
  case (2 s rest seen modules)
  then obtain other held where o: "named_module (ms_module s) = Some other"
    "overlay_modules rest (ms_module s # seen) (modules(other \<mapsto> held)) = Inr modules'"
    "overlay_module s (case modules other of None \<Rightarrow> no_module | Some held \<Rightarrow> held) = Inr held"
    "ms_module s \<noteq> Module_unspecified" "ms_module s \<notin> set seen"
    by (auto split: if_splits option.splits sum.splits)
  then have "modules' name = (modules(other \<mapsto> held)) name"
    using "2.IH" [OF o(4,1,5,3,2)] "2.prems"(2) by simp
  then show ?case using o(1) "2.prems"(2) by auto
qed

lemma Overlay_Inr:
  assumes "Overlay Validated own settings = Inr (made, kept)" "list_all (\<lambda>n. n \<le> 2 ^ 63 - 1) (ceilings (cf_ceilings own))"
  shows "\<exists>c. Validated c = Some made \<and> cf_rest c = cf_rest own
     \<and> ceilings (cf_ceilings c) = map2 lowered (asked_of (st_budgets settings)) (ceilings (cf_ceilings own))
     \<and> (\<forall>name. (\<forall>s \<in> set (st_modules settings). named_module (ms_module s) \<noteq> Some name)
          \<longrightarrow> cf_modules c name = cf_modules own name)"
proof -
  obtain level modules cs where o: "overlay_modules (st_modules settings) [] (cf_modules own) = Inr modules"
    "overlay_ceilings (st_budgets settings) (cf_ceilings own) = Inr (cs, kept)"
    "Validated (own\<lparr>cf_level := level, cf_modules := modules, cf_ceilings := cs\<rparr>) = Some made"
    using assms(1) by (auto simp: Overlay_def split: option.splits sum.splits prod.splits)
  then show ?thesis
    using overlay_ceilings_lowers [OF o(2) assms(2)] overlay_modules_others [OF o(1)]
    by (intro exI [of _ "own\<lparr>cf_level := level, cf_modules := modules, cf_ceilings := cs\<rparr>"]) auto
qed

end
