(* ===== verification/Policy_Held.thy ===== *)
theory Policy_Held
  imports Policy_Overlay
begin

text \<open>
  The policy the agent holds, \<open>policies\<close> of \<open>cmd/seagull-agent/policies.go\<close>, and the file it is kept
  in, \<open>internal/policy/store.go\<close>. The file holds what was kept last; a write may fail before the new
  content took its place, or after, when only the directory could not be synced. Whether the
  configuration could be put in force is an argument, and log lines are left out.
\<close>

record Held_policy =
  hp_holding :: Holding
  hp_appliedAt :: time
  hp_envelope :: "byte list"

datatype keeping = Keeps | Fails_before | Fails_after

definition Store_Keep :: "keeping \<Rightarrow> Verified \<Rightarrow> time \<Rightarrow> Held_policy option \<Rightarrow> policy_fault option \<times> Held_policy option" where
  "Store_Keep answer verified at_time disk =
     (let held = \<lparr>hp_holding = \<lparr>ho_revision = pm_revision (vf_policy verified), ho_digest = vf_digest verified\<rparr>,
                  hp_appliedAt = at_time, hp_envelope = vf_envelope verified\<rparr>
      in case answer of Keeps \<Rightarrow> (None, Some held) | Fails_before \<Rightarrow> (Some [Unkept], disk) | Fails_after \<Rightarrow> (Some [Unkept], Some held))"

record 'k policies =
  po_agent :: string
  po_verifier :: "'k Verifier"
  po_envelope :: "byte list"
  po_held :: Holding
  po_applied :: "Verified option"
  po_appliedAt :: time
  po_kept :: "Kept_own list"
  po_withdrawn :: "policy_fault option"
  po_judged :: string
  po_refused :: "policy_fault option"
  po_refusedAt :: time
  po_expired :: bool

definition new_policies :: "string \<Rightarrow> 'k Verifier \<Rightarrow> 'k policies" where
  "new_policies agent verifier =
     \<lparr>po_agent = agent, po_verifier = verifier, po_envelope = [], po_held = no_holding, po_applied = None,
      po_appliedAt = zero_time, po_kept = [], po_withdrawn = None, po_judged = [], po_refused = None,
      po_refusedAt = zero_time, po_expired = False\<rparr>"

definition lay ::
  "'k signing \<Rightarrow> ('r Config \<Rightarrow> 'r Config option) \<Rightarrow> string \<Rightarrow> 'k Verifier \<Rightarrow> byte list \<Rightarrow> 'r Config \<Rightarrow> time \<Rightarrow>
   policy_fault + Verified \<times> 'r Config \<times> Kept_own list" where
  "lay sg Validated agent verifier envelope own now =
     (case Verify sg verifier envelope of
        Inl err \<Rightarrow> Inl err
      | Inr verified \<Rightarrow>
          (case Policy_Judge verified agent no_holding now of
             Some err \<Rightarrow>
               if \<not> Is err Policy_expired then Inl err
               else (case Overlay Validated own (pm_settings (vf_policy verified)) of
                       Inl err \<Rightarrow> Inl err | Inr (candidate, kept) \<Rightarrow> Inr (verified, candidate, kept))
           | None \<Rightarrow>
               (case Overlay Validated own (pm_settings (vf_policy verified)) of
                  Inl err \<Rightarrow> Inl err | Inr (candidate, kept) \<Rightarrow> Inr (verified, candidate, kept))))"

text \<open>What reading the file gave: what it holds, that it cannot be read back, or an error.\<close>

datatype read_back = Read_back "Held_policy option" | Read_lost | Read_failed

definition hold ::
  "'k signing \<Rightarrow> ('r Config \<Rightarrow> 'r Config option) \<Rightarrow> 'k list \<Rightarrow> string \<Rightarrow> 'r Config \<Rightarrow> time \<Rightarrow> bool \<Rightarrow> read_back \<Rightarrow> 'k policies option" where
  "hold sg Validated keys agent own now reloaded stored =
     (case NewVerifier sg keys of
        None \<Rightarrow> None
      | Some verifier \<Rightarrow>
          let held = new_policies agent verifier
          in case stored of
               Read_failed \<Rightarrow> None
             | Read_lost \<Rightarrow> Some held
             | Read_back None \<Rightarrow> Some held
             | Read_back (Some kept) \<Rightarrow>
                 let held = held\<lparr>po_envelope := hp_envelope kept, po_held := hp_holding kept, po_judged := ho_digest (hp_holding kept)\<rparr>
                 in case lay sg Validated agent verifier (hp_envelope kept) own now of
                      Inl err \<Rightarrow> Some (held\<lparr>po_withdrawn := Some err\<rparr>)
                    | Inr (verified, candidate, own_kept) \<Rightarrow>
                        if \<not> reloaded then None
                        else Some (held\<lparr>po_applied := Some verified, po_appliedAt := hp_appliedAt kept, po_kept := own_kept\<rparr>))"

text \<open>
  \<open>adopt\<close>: what was handed is refused with an error, which changes nothing the agent runs on, was in
  force already, could not be put in force once it was kept, or is in force.
\<close>

datatype adopted = Refuses policy_fault | In_force_already | Not_put_in_force | Adopted

definition adopt ::
  "'k signing \<Rightarrow> ('r Config \<Rightarrow> 'r Config option) \<Rightarrow> 'r Config \<Rightarrow> byte list \<Rightarrow> time \<Rightarrow> keeping \<Rightarrow> bool \<Rightarrow>
   'k policies \<times> Held_policy option \<Rightarrow> adopted \<times> 'k policies \<times> Held_policy option" where
  "adopt sg Validated own served now answer reloaded = (\<lambda>(p, disk).
     let refuse = (\<lambda>err disk. (Refuses err,
           p\<lparr>po_judged := EncodeToString (policy_Sum256 sg served), po_refused := Some err, po_refusedAt := now\<rparr>, disk))
     in case Verify sg (po_verifier p) served of
          Inl err \<Rightarrow> refuse err disk
        | Inr verified \<Rightarrow>
            (case Policy_Judge verified (po_agent p) (po_held p) now of
               Some err \<Rightarrow> refuse err disk
             | None \<Rightarrow>
                 if map_option vf_digest (po_applied p) = Some (vf_digest verified) then (In_force_already, p, disk)
                 else case Overlay Validated own (pm_settings (vf_policy verified)) of
                        Inl err \<Rightarrow> refuse err disk
                      | Inr (candidate, kept) \<Rightarrow>
                          (case Store_Keep answer verified now disk of
                             (Some err, disk) \<Rightarrow> refuse err disk
                           | (None, disk) \<Rightarrow>
                               if \<not> reloaded then (Not_put_in_force, p, disk)
                               else (Adopted,
                                 p\<lparr>po_envelope := vf_envelope verified,
                                   po_held := \<lparr>ho_revision = pm_revision (vf_policy verified), ho_digest = vf_digest verified\<rparr>,
                                   po_applied := Some verified, po_appliedAt := now, po_kept := kept, po_judged := vf_digest verified,
                                   po_withdrawn := None, po_refused := None, po_expired := False\<rparr>, disk))))"

text \<open>\<open>over\<close>: the configuration file was read again, with the keys a policy is accepted under.\<close>

definition over ::
  "'k signing \<Rightarrow> ('r Config \<Rightarrow> 'r Config option) \<Rightarrow> 'k list \<Rightarrow> 'r Config \<Rightarrow> time \<Rightarrow> 'k policies \<Rightarrow> ('r Config \<times> 'k policies) option" where
  "over sg Validated keys own now p =
     (case NewVerifier sg keys of
        None \<Rightarrow> None
      | Some verifier \<Rightarrow>
          if po_envelope p = [] then Some (own, p\<lparr>po_verifier := verifier, po_judged := []\<rparr>)
          else case lay sg Validated (po_agent p) verifier (po_envelope p) own now of
                 Inr (verified, candidate, kept) \<Rightarrow>
                   Some (candidate,
                     p\<lparr>po_appliedAt := (if po_applied p = None then now else po_appliedAt p), po_verifier := verifier,
                       po_applied := Some verified, po_kept := kept, po_withdrawn := None, po_judged := ho_digest (po_held p)\<rparr>)
               | Inl err \<Rightarrow>
                   if po_applied p \<noteq> None \<and> Is err Inapplicable then None
                   else Some (own,
                     p\<lparr>po_verifier := verifier, po_applied := None, po_kept := [], po_withdrawn := Some err,
                       po_judged := ho_digest (po_held p)\<rparr>))"

text \<open>\<open>asking\<close>: what the follower names when it asks, noting that the policy in force expired.\<close>

definition asking :: "time \<Rightarrow> 'k policies \<Rightarrow> string \<times> 'k policies" where
  "asking now p =
     (let ran_out = (case po_applied p of
            None \<Rightarrow> False
          | Some v \<Rightarrow> (case pm_expires (vf_policy v) of Some (Some ending) \<Rightarrow> \<not> ending > now | _ \<Rightarrow> True))
      in (po_judged p, if \<not> po_expired p \<and> ran_out then p\<lparr>po_expired := True\<rparr> else p))"

section \<open>What the agent holds never goes back\<close>

lemma Verify_same:
  assumes "Verify sg k served = Inr v" "Verify sg k' served = Inr v'"
  shows "vf_policy v' = vf_policy v" "vf_digest v' = vf_digest v"
  using assms by (auto simp: Verify_def Let_def split: if_splits option.splits)

definition holding_of :: "Verified \<Rightarrow> Holding" where
  "holding_of v = \<lparr>ho_revision = pm_revision (vf_policy v), ho_digest = vf_digest v\<rparr>"

text \<open>The second is newer than the first, or the very same.\<close>

definition superseded :: "Holding \<Rightarrow> Holding \<Rightarrow> bool" where
  "superseded a b \<longleftrightarrow> a = b \<or> ho_revision a < ho_revision b"

lemma superseded_refl [simp]: "superseded a a"
  by (simp add: superseded_def)

lemma superseded_trans: "superseded a b \<Longrightarrow> superseded b c \<Longrightarrow> superseded a c"
  by (auto simp: superseded_def)

lemma judged_superseded: "Policy_Judge v agent held now = None \<Longrightarrow> superseded held (holding_of v)"
  using Policy_Judge_None(3) [of v agent held now] by (cases held) (auto simp: superseded_def holding_of_def)

text \<open>No bytes decode to the message with nothing set, as the encoding of messages has it.\<close>

definition empty_decodes :: "'k signing \<Rightarrow> bool" where
  "empty_decodes sg \<longleftrightarrow> (\<forall>e. DecodeSigned sg [] = Some e \<longrightarrow> sd_type e = [])"

lemma Verify_empty: "empty_decodes sg \<Longrightarrow> Verify sg keys [] \<noteq> Inr v"
  by (auto simp: empty_decodes_def Verify_def PolicyPayloadType_def split: option.splits if_splits)

text \<open>
  What the file holds was verified once, under its own revision, and is no older than what memory
  holds; what is in force is what is held, signed by a key accepted now, and names this agent.
\<close>

definition on_file :: "'k signing \<Rightarrow> Held_policy option \<Rightarrow> bool" where
  "on_file sg disk \<longleftrightarrow> (\<forall>h. disk = Some h \<longrightarrow> (\<exists>keys v. Verify sg keys (hp_envelope h) = Inr v \<and> hp_holding h = holding_of v))"

definition in_memory :: "'k signing \<Rightarrow> 'k policies \<Rightarrow> bool" where
  "in_memory sg p \<longleftrightarrow> (po_envelope p \<noteq> [] \<longrightarrow> (\<exists>keys v. Verify sg keys (po_envelope p) = Inr v \<and> po_held p = holding_of v))"

definition in_force :: "'k signing \<Rightarrow> 'k policies \<Rightarrow> bool" where
  "in_force sg p \<longleftrightarrow> (\<forall>v. po_applied p = Some v \<longrightarrow>
     Verify sg (po_verifier p) (po_envelope p) = Inr v \<and> po_held p = holding_of v \<and> po_agent p \<in> set (pm_targets (vf_policy v)))"

definition file_of :: "Held_policy option \<Rightarrow> Holding" where
  "file_of disk = (case disk of None \<Rightarrow> no_holding | Some h \<Rightarrow> hp_holding h)"

definition policy_inv :: "'k signing \<Rightarrow> 'k policies \<times> Held_policy option \<Rightarrow> bool" where
  "policy_inv sg = (\<lambda>(p, disk). on_file sg disk \<and> in_memory sg p \<and> in_force sg p \<and> superseded (po_held p) (file_of disk))"

lemma Store_Keep_cases:
  assumes "Store_Keep answer v t disk = (err, disk')"
  shows "disk' = disk \<and> err \<noteq> None
    \<or> (\<exists>h. disk' = Some h \<and> hp_holding h = holding_of v \<and> hp_envelope h = vf_envelope v)"
  using assms by (auto simp: Store_Keep_def holding_of_def Let_def split: keeping.splits)

lemma lay_Inr:
  assumes "lay sg Validated agent verifier envelope own now = Inr (v, candidate, kept)"
  shows "Verify sg verifier envelope = Inr v" "agent \<in> set (pm_targets (vf_policy v))"
proof -
  show v: "Verify sg verifier envelope = Inr v"
    using assms by (auto simp: lay_def split: sum.splits option.splits prod.splits if_splits)
  have "\<forall>err. Policy_Judge v agent no_holding now = Some err \<longrightarrow> Is err Policy_expired"
    using assms v by (auto simp: lay_def split: sum.splits option.splits prod.splits if_splits)
  then show "agent \<in> set (pm_targets (vf_policy v))" by (rule Policy_Judge_named(1))
qed

text \<open>What is handed is taken apart once: it is refused, or it was judged fit.\<close>

lemma adopt_cases:
  assumes "adopt sg Validated own served now answer reloaded (p, disk) = (res, p', disk')"
  obtains (kept) "po_held p' = po_held p" "po_envelope p' = po_envelope p" "po_applied p' = po_applied p"
      "po_verifier p' = po_verifier p" "po_agent p' = po_agent p"
      "disk' = disk \<or> (\<exists>v h. Verify sg (po_verifier p) served = Inr v \<and> Policy_Judge v (po_agent p) (po_held p) now = None
         \<and> disk' = Some h \<and> hp_holding h = holding_of v \<and> hp_envelope h = served)"
    | (adopted) v h where "res = Adopted" "Verify sg (po_verifier p) served = Inr v"
      "Policy_Judge v (po_agent p) (po_held p) now = None"
      "disk' = Some h" "hp_holding h = holding_of v" "hp_envelope h = served" "po_held p' = holding_of v"
      "po_envelope p' = served" "po_applied p' = Some v" "po_verifier p' = po_verifier p" "po_agent p' = po_agent p"
proof (cases "Verify sg (po_verifier p) served")
  case (Inl err)
  then show thesis using assms kept by (auto simp: adopt_def Let_def)
next
  case (Inr v)
  note v = this
  have env: "vf_envelope v = served" using Verify_Inr(2) [OF v] .
  consider err where "Policy_Judge v (po_agent p) (po_held p) now = Some err"
    | "Policy_Judge v (po_agent p) (po_held p) now = None" "map_option vf_digest (po_applied p) = Some (vf_digest v)"
    | err where "Policy_Judge v (po_agent p) (po_held p) now = None" "map_option vf_digest (po_applied p) \<noteq> Some (vf_digest v)"
      "Overlay Validated own (pm_settings (vf_policy v)) = Inl err"
    | candidate k where "Policy_Judge v (po_agent p) (po_held p) now = None" "map_option vf_digest (po_applied p) \<noteq> Some (vf_digest v)"
      "Overlay Validated own (pm_settings (vf_policy v)) = Inr (candidate, k)"
    by (metis not_None_eq old.prod.exhaust sum.exhaust)
  then show thesis
  proof cases
    case 4
    obtain err d where k: "Store_Keep answer v now disk = (err, d)" by fastforce
    note written = Store_Keep_cases [OF k, unfolded env]
    show thesis
    proof (cases "err = None \<and> reloaded")
      case True
      then obtain h where "d = Some h" "hp_holding h = holding_of v" "hp_envelope h = served" using written by auto
      then show thesis using adopted [OF _ v 4(1)] assms v 4 k True env by (auto simp: adopt_def Let_def holding_of_def split: if_splits)
    next
      case False
      then have "po_held p' = po_held p" "po_envelope p' = po_envelope p" "po_applied p' = po_applied p"
        "po_verifier p' = po_verifier p" "po_agent p' = po_agent p" "disk' = d"
        using assms v 4 k by (auto simp: adopt_def Let_def split: option.splits if_splits)
      then show thesis using kept written v 4(1) by auto
    qed
  qed (use assms v kept in \<open>auto simp: adopt_def Let_def split: if_splits\<close>)
qed


inductive policy_step ::
  "'k signing \<Rightarrow> ('r Config \<Rightarrow> 'r Config option) \<Rightarrow> 'k policies \<times> Held_policy option \<Rightarrow> 'k policies \<times> Held_policy option \<Rightarrow> bool"
  for sg Validated where
  Handed: "adopt sg Validated own served now answer reloaded s = (res, s') \<Longrightarrow> policy_step sg Validated s s'"
| Reloaded: "over sg Validated keys own now p = Some (c, p') \<Longrightarrow> policy_step sg Validated (p, disk) (p', disk)"
| Restarted: "hold sg Validated keys (po_agent p) own now reloaded (Read_back disk) = Some p' \<Longrightarrow> policy_step sg Validated (p, disk) (p', disk)"
| Asked: "asking now p = (tag, p') \<Longrightarrow> policy_step sg Validated (p, disk) (p', disk)"

lemma held_superseded_file: "policy_inv sg (p, disk) \<Longrightarrow> superseded (po_held p) (file_of disk)"
  by (simp add: policy_inv_def)

lemma adopt_keeps:
  assumes inv: "policy_inv sg (p, disk)" and a: "adopt sg Validated own served now answer reloaded (p, disk) = (res, p', disk')"
  shows "policy_inv sg (p', disk') \<and> superseded (po_held p) (po_held p') \<and> po_agent p' = po_agent p"
  using a
proof (cases rule: adopt_cases)
  case kept
  have mem: "in_memory sg p'" "in_force sg p'" using inv kept(1-5) by (simp_all add: policy_inv_def in_memory_def in_force_def)
  from kept(6) show ?thesis
  proof
    assume "disk' = disk"
    then show ?thesis using inv mem kept(1,5) by (simp add: policy_inv_def)
  next
    assume "\<exists>v h. Verify sg (po_verifier p) served = Inr v \<and> Policy_Judge v (po_agent p) (po_held p) now = None
         \<and> disk' = Some h \<and> hp_holding h = holding_of v \<and> hp_envelope h = served"
    then obtain v h where v: "Verify sg (po_verifier p) served = Inr v" "Policy_Judge v (po_agent p) (po_held p) now = None"
      "disk' = Some h" "hp_holding h = holding_of v" "hp_envelope h = served" by blast
    then have "on_file sg disk'" "superseded (po_held p') (file_of disk')"
      using judged_superseded [OF v(2)] kept(1) by (auto simp: on_file_def file_of_def)
    then show ?thesis using mem kept(1,5) by (simp add: policy_inv_def)
  qed
next
  case (adopted v h)
  have "on_file sg disk'" using adopted by (auto simp: on_file_def)
  moreover have "in_memory sg p'" using adopted by (auto simp: in_memory_def)
  moreover have "in_force sg p'" using adopted Policy_Judge_None(1) [OF adopted(3)] by (simp add: in_force_def)
  moreover have "file_of disk' = po_held p'" using adopted by (simp add: file_of_def)
  ultimately show ?thesis using judged_superseded [OF adopted(3)] adopted by (simp add: policy_inv_def)
qed

lemma relaid:
  assumes "lay sg Validated agent verifier envelope own now = Inr (v, candidate, kept)"
    and "Verify sg keys envelope = Inr w" "held = holding_of w"
  shows "held = holding_of v"
  using Verify_same [OF assms(2) lay_Inr(1) [OF assms(1)]] assms(3) by (simp add: holding_of_def)

lemma over_keeps:
  assumes sg: "empty_decodes sg" and inv: "policy_inv sg (p, disk)" and o: "over sg Validated keys own now p = Some (c, p')"
  shows "policy_inv sg (p', disk) \<and> po_held p' = po_held p \<and> po_agent p' = po_agent p"
proof -
  obtain verifier where n: "NewVerifier sg keys = Some verifier" using o by (cases "NewVerifier sg keys") (auto simp: over_def)
  have same: "po_held p' = po_held p" "po_agent p' = po_agent p" "po_envelope p' = po_envelope p"
    using o n by (auto simp: over_def split: if_splits sum.splits)
  then have rest: "on_file sg disk" "in_memory sg p'" "superseded (po_held p') (file_of disk)"
    using inv by (simp_all add: policy_inv_def in_memory_def)
  have "in_force sg p'"
  proof (cases "po_envelope p = []")
    case True
    have "po_applied p = None" using inv True Verify_empty [OF sg] by (cases "po_applied p") (auto simp: policy_inv_def in_force_def)
    then show ?thesis using True o n by (auto simp: over_def in_force_def)
  next
    case False
    obtain ks w where w: "Verify sg ks (po_envelope p) = Inr w" "po_held p = holding_of w"
      using inv False by (auto simp: policy_inv_def in_memory_def)
    show ?thesis
    proof (cases "lay sg Validated (po_agent p) verifier (po_envelope p) own now")
      case (Inl err)
      then show ?thesis using o n False by (auto simp: over_def in_force_def split: if_splits)
    next
      case (Inr r)
      then obtain v candidate kept where l: "lay sg Validated (po_agent p) verifier (po_envelope p) own now = Inr (v, candidate, kept)"
        by (cases r) auto
      then have "po_applied p' = Some v" "po_verifier p' = verifier" using o n False by (auto simp: over_def)
      then show ?thesis using lay_Inr [OF l] relaid [OF l w] same by (simp add: in_force_def)
    qed
  qed
  then show ?thesis using rest same by (simp add: policy_inv_def)
qed

lemma hold_keeps:
  assumes inv: "policy_inv sg (p, disk)"
    and h: "hold sg Validated keys agent own now reloaded (Read_back disk) = Some p'"
  shows "policy_inv sg (p', disk) \<and> po_held p' = file_of disk \<and> po_agent p' = agent"
proof -
  obtain verifier where n: "NewVerifier sg keys = Some verifier" using h by (cases "NewVerifier sg keys") (auto simp: hold_def)
  have d: "on_file sg disk" using inv by (simp add: policy_inv_def)
  show ?thesis
  proof (cases disk)
    case None
    then have "p' = new_policies agent verifier" using h n by (simp add: hold_def)
    then show ?thesis using None by (simp add: policy_inv_def new_policies_def on_file_def in_memory_def in_force_def file_of_def)
  next
    case (Some kept)
    obtain ks w where w: "Verify sg ks (hp_envelope kept) = Inr w" "hp_holding kept = holding_of w"
      using d Some by (auto simp: on_file_def)
    have f: "po_held p' = hp_holding kept" "po_agent p' = agent" "po_envelope p' = hp_envelope kept" "po_verifier p' = verifier"
      using h n Some by (auto simp: hold_def Let_def new_policies_def split: sum.splits if_splits)
    have "in_force sg p'"
    proof (cases "po_applied p'")
      case None
      then show ?thesis by (simp add: in_force_def)
    next
      case (Some v)
      then obtain candidate own_kept where l: "lay sg Validated agent verifier (hp_envelope kept) own now = Inr (v, candidate, own_kept)"
        using h n \<open>disk = Some kept\<close> by (auto simp: hold_def Let_def new_policies_def split: sum.splits if_splits)
      then show ?thesis using lay_Inr [OF l] relaid [OF l w] f Some by (simp add: in_force_def)
    qed
    then show ?thesis using d Some w f by (auto simp: policy_inv_def in_memory_def file_of_def)
  qed
qed

lemma policy_step_keeps:
  assumes "policy_step sg Validated s s'" "empty_decodes sg" "policy_inv sg s"
  shows "policy_inv sg s' \<and> superseded (po_held (fst s)) (po_held (fst s')) \<and> po_agent (fst s') = po_agent (fst s)"
  using assms
proof (induction rule: policy_step.induct)
  case (Handed own served now answer reloaded s res s')
  obtain p disk p' disk' where s: "s = (p, disk)" "s' = (p', disk')" by (cases s; cases s') simp
  then show ?case using adopt_keeps [of sg p disk Validated own served now answer reloaded res p' disk'] Handed by simp
next
  case (Reloaded keys own now p c p' disk)
  show ?case using over_keeps [OF Reloaded(2,3,1)] by simp
next
  case (Restarted keys p own now reloaded disk p')
  show ?case using hold_keeps [OF Restarted(3,1)] held_superseded_file [OF Restarted(3)] by simp
next
  case (Asked now p tag p' disk)
  have "p' = p \<or> p' = p\<lparr>po_expired := True\<rparr>" using Asked(1) by (auto simp: asking_def Let_def split: if_splits)
  then show ?case using Asked(3) by (elim disjE) (simp_all add: policy_inv_def in_memory_def in_force_def)
qed

definition first_policies :: "string \<Rightarrow> 'k Verifier \<Rightarrow> 'k policies \<times> Held_policy option" where
  "first_policies agent verifier = (new_policies agent verifier, None)"

lemma first_policies_inv: "policy_inv sg (first_policies agent verifier)"
  by (simp add: policy_inv_def first_policies_def new_policies_def on_file_def in_memory_def in_force_def file_of_def)

lemma policy_steps_keep:
  assumes "(policy_step sg Validated)\<^sup>*\<^sup>* s s'" "empty_decodes sg" "policy_inv sg s"
  shows "policy_inv sg s' \<and> superseded (po_held (fst s)) (po_held (fst s')) \<and> po_agent (fst s') = po_agent (fst s)"
  using assms(1)
proof (induction rule: rtranclp_induct)
  case base
  show ?case using assms(3) by simp
next
  case (step y z)
  have "policy_inv sg z \<and> superseded (po_held (fst y)) (po_held (fst z)) \<and> po_agent (fst z) = po_agent (fst y)"
    using policy_step_keeps [OF step(2) assms(2)] step(3) by blast
  then show ?case using step(3) superseded_trans by metis
qed

end
