(* ===== verification/Policy_Follow.thy ===== *)
theory Policy_Follow
  imports Policy_Held Link_Policy
begin

text \<open>
  Asking the platform for the policy that names the agent, \<open>internal/policy/follow.go\<close>. What the
  transport returned, what became of what was handed over, the moment, the interval and the draws
  are arguments; a failure is kept as the fact that there is one, and log lines are left out.
\<close>

datatype follow_answer =
  Unasked | Served | Unchanged | NoPolicy | Unknown_agent | NotAdmitted | Failing | Unexpected_answer

record follow_state =
  fo_Answer :: follow_answer
  fo_Asked :: time
  fo_Since :: time
  fo_Attempts :: int
  fo_Failure :: bool
  fo_Next :: time
  fo_Refused :: "policy_fault option"
  fo_RefusedAt :: time

definition new_follower :: follow_state where
  "new_follower = \<lparr>fo_Answer = Unasked, fo_Asked = zero_time, fo_Since = zero_time, fo_Attempts = 0, fo_Failure = False,
     fo_Next = zero_time, fo_Refused = None, fo_RefusedAt = zero_time\<rparr>"

record Reply =
  rp_Status :: int
  rp_Body :: "byte list"
  rp_RetryAfter :: duration

text \<open>\<open>New\<close>, once the collaborators and the address were found to be there.\<close>

definition Follower_New :: "Policy \<Rightarrow> policy_error + Policy \<times> follow_state" where
  "Follower_New policy = (case Policy_Settled policy of Inl err \<Rightarrow> Inl err | Inr settled \<Rightarrow> Inr (settled, new_follower))"

definition fo_answered :: "time \<Rightarrow> follow_answer \<Rightarrow> follow_state \<Rightarrow> follow_state" where
  "fo_answered now answer st =
     (let st = (if fo_Answer st \<noteq> answer then st\<lparr>fo_Since := now\<rparr> else st)
      in st\<lparr>fo_Answer := answer, fo_Asked := now, fo_Attempts := 0, fo_Failure := False\<rparr>)"

definition fo_refused :: "time \<Rightarrow> policy_fault \<Rightarrow> follow_state \<Rightarrow> follow_state" where
  "fo_refused now err st = st\<lparr>fo_Refused := Some err, fo_RefusedAt := now\<rparr>"

definition fo_failed :: "Policy \<Rightarrow> rat \<Rightarrow> rat \<Rightarrow> time \<Rightarrow> bool \<Rightarrow> duration \<Rightarrow> follow_state \<Rightarrow> duration \<times> follow_state" where
  "fo_failed policy draw again now lasting asked st =
     (let st = (if fo_Answer st \<noteq> Failing then st\<lparr>fo_Since := now\<rparr> else st);
          st = st\<lparr>fo_Answer := Failing, fo_Asked := now, fo_Attempts := fo_Attempts st + 1, fo_Failure := True\<rparr>
      in (Policy_wait policy (fo_Attempts st) lasting asked draw again, st))"

text \<open>The code a refusal carries; an answer that is none carries the empty one.\<close>

definition refusal_code :: "(byte list \<Rightarrow> string option) \<Rightarrow> Reply \<Rightarrow> string" where
  "refusal_code DecodeRefusal reply = (case DecodeRefusal (rp_Body reply) of None \<Rightarrow> [] | Some code \<Rightarrow> code)"

definition unserved_as :: "string \<Rightarrow> follow_answer option" where
  "unserved_as code =
     map_of [(''no_policy'', NoPolicy), (''unknown_agent'', Unknown_agent), (''agent_not_admitted'', NotAdmitted)] code"

text \<open>The interval, drawn within a fifth of it either way.\<close>

definition asked_every :: "duration \<Rightarrow> rat \<Rightarrow> duration" where
  "asked_every every draw = \<lfloor>of_int every * (4 / 5 + 2 / 5 * draw)\<rfloor>"

text \<open>\<open>Ask\<close>: how long to wait, the state, and what was handed over, if anything.\<close>

definition Ask ::
  "(byte list \<Rightarrow> string option) \<Rightarrow> Policy \<Rightarrow> duration \<Rightarrow> rat \<Rightarrow> rat \<Rightarrow> time \<Rightarrow> transport_error + Reply \<Rightarrow> (byte list \<Rightarrow> policy_fault option) \<Rightarrow>
   follow_state \<Rightarrow> duration \<times> follow_state \<times> byte list option" where
  "Ask DecodeRefusal policy every draw again now got Offered st =
     (case got of
        Inl err \<Rightarrow>
          (case Class_Of err of (kind, recognised) \<Rightarrow>
           case fo_failed policy draw again now (recognised \<and> Lasting kind) 0 st of (wait, st) \<Rightarrow> (wait, st, None))
      | Inr reply \<Rightarrow>
          let status = rp_Status reply; go_on = (\<lambda>st handed. (asked_every every draw, st, handed));
              fail = (\<lambda>lasting. case fo_failed policy draw again now lasting (rp_RetryAfter reply) st of (wait, st) \<Rightarrow> (wait, st, None))
          in if status = 200
             then let st = fo_answered now Served st
                  in go_on (case Offered (rp_Body reply) of None \<Rightarrow> st | Some err \<Rightarrow> fo_refused now err st) (Some (rp_Body reply))
             else if status = 304 then go_on (fo_answered now Unchanged st) None
             else if status \<in> {404, 403, 401}
             then (case unserved_as (refusal_code DecodeRefusal reply) of
                     None \<Rightarrow> fail True
                   | Some answer \<Rightarrow> go_on (fo_answered now answer st) None)
             else if status \<in> {429, 408} then fail False
             else fail (\<not> status \<ge> 500))"

text \<open>One turn of \<open>Run\<close>, up to the moment it sleeps.\<close>

definition Follower_turn :: "time \<Rightarrow> duration \<times> follow_state \<times> byte list option \<Rightarrow> follow_state" where
  "Follower_turn now = (\<lambda>(wait, st, handed). st\<lparr>fo_Next := now + wait\<rparr>)"

section \<open>What an answer changes\<close>

lemma fo_simps [simp]:
  "fo_Answer (fo_answered now answer st) = answer" "fo_Attempts (fo_answered now answer st) = 0"
  "fo_Answer (fo_refused now err st) = fo_Answer st" "fo_Attempts (fo_refused now err st) = fo_Attempts st"
  "fo_Answer (snd (fo_failed policy draw again now lasting asked st)) = Failing"
  "fo_Attempts (snd (fo_failed policy draw again now lasting asked st)) = fo_Attempts st + 1"
  "fst (fo_failed policy draw again now lasting asked st) = Policy_wait policy (fo_Attempts st + 1) lasting asked draw again"
  by (simp_all add: fo_answered_def fo_refused_def fo_failed_def Let_def)

lemma unserved_Failing: "unserved_as code = Some answer \<Longrightarrow> answer \<noteq> Failing"
  by (auto simp: unserved_as_def split: if_splits)

text \<open>
  Either the platform answered, and the follower counts no failure and waits its interval, or it did
  not, nothing was handed over and one more failure counts. Only an answer of success hands a policy over.
\<close>

definition answers_well :: "duration \<Rightarrow> rat \<Rightarrow> transport_error + Reply \<Rightarrow> duration \<times> follow_state \<times> byte list option \<Rightarrow> bool" where
  "answers_well every draw got = (\<lambda>(wait, st, handed). wait = asked_every every draw \<and> fo_Answer st \<noteq> Failing \<and> fo_Attempts st = 0
     \<and> (\<forall>body. handed = Some body \<longrightarrow> (\<exists>reply. got = Inr reply \<and> rp_Status reply = 200 \<and> rp_Body reply = body)))"

definition answers_ill :: "Policy \<Rightarrow> rat \<Rightarrow> rat \<Rightarrow> follow_state \<Rightarrow> duration \<times> follow_state \<times> byte list option \<Rightarrow> bool" where
  "answers_ill policy draw again before = (\<lambda>(wait, st, handed). fo_Answer st = Failing \<and> fo_Attempts st = fo_Attempts before + 1
     \<and> handed = None \<and> (\<exists>lasting asked. wait = Policy_wait policy (fo_Attempts st) lasting asked draw again))"

lemma failed_ill:
  "answers_ill policy draw again st
     (case fo_failed policy draw again now lasting asked st of (wait, st') \<Rightarrow> (wait, st', None))"
proof -
  obtain w s where f: "fo_failed policy draw again now lasting asked st = (w, s)" by fastforce
  then show ?thesis
    using fo_simps(5-7) [of policy draw again now lasting asked st] by (auto simp: answers_ill_def)
qed

lemma Ask_answers:
  "answers_well every draw got (Ask dr policy every draw again now got offered st)
   \<or> answers_ill policy draw again st (Ask dr policy every draw again now got offered st)"
proof (cases got)
  case (Inl err)
  then show ?thesis using failed_ill by (simp add: Ask_def split: prod.splits)
next
  case (Inr reply)
  consider "rp_Status reply = 200" | "rp_Status reply = 304"
    | answer where "rp_Status reply \<in> {404, 403, 401}" "unserved_as (refusal_code dr reply) = Some answer"
    | "rp_Status reply \<in> {404, 403, 401}" "unserved_as (refusal_code dr reply) = None"
    | "rp_Status reply \<notin> {200, 304, 404, 403, 401}"
    by (cases "unserved_as (refusal_code dr reply)") auto
  then show ?thesis
  proof cases
    case 1
    then show ?thesis using Inr by (auto simp: Ask_def Let_def answers_well_def split: option.splits)
  next
    case 2
    then show ?thesis using Inr by (auto simp: Ask_def Let_def answers_well_def)
  next
    case (3 answer)
    then show ?thesis using Inr unserved_Failing [OF 3(2)] by (auto simp: Ask_def Let_def answers_well_def)
  next
    case 4
    then show ?thesis using Inr failed_ill by (auto simp: Ask_def Let_def)
  next
    case 5
    then show ?thesis using Inr failed_ill by (simp add: Ask_def Let_def)
  qed
qed

lemma asked_every_bounds:
  assumes "0 \<le> every" "0 \<le> draw" "draw < 1"
  shows "4 * every div 5 \<le> asked_every every draw" "5 * asked_every every draw \<le> 6 * every"
proof -
  let ?x = "of_int every * (4 / 5 + 2 / 5 * draw) :: rat"
  have lo: "of_int (4 * every) / 5 \<le> ?x" and hi: "?x \<le> of_int (6 * every) / 5"
    using assms mult_left_mono [of "4 / 5" "4 / 5 + 2 / 5 * draw" "of_int every"]
      mult_left_mono [of "4 / 5 + 2 / 5 * draw" "6 / 5" "of_int every"] by simp_all
  show "4 * every div 5 \<le> asked_every every draw"
    unfolding asked_every_def using floor_mono [OF lo] floor_divide_of_int_eq [of "4 * every" 5, where 'a = rat] by simp
  have "of_int (asked_every every draw) \<le> ?x" by (simp add: asked_every_def)
  with hi have "of_int (5 * asked_every every draw) \<le> (of_int (6 * every) :: rat)" by simp
  then show "5 * asked_every every draw \<le> 6 * every" by (simp only: of_int_le_iff)
qed

end
