(* ===== verification/Policy_Samples.thy ===== *)
theory Policy_Samples
  imports Policy_Held Policy_Follow
begin

text \<open>
  Concrete inputs for the properties of policies: a signature scheme in which one key signs everything
  and the length of a payload is the revision of the policy in it, and a configuration.
\<close>

definition no_budgets :: Budgets where
  "no_budgets = \<lparr>bg_spool_max_bytes = 0, bg_max_batch_bytes = 0, bg_max_upload = 0, bg_memory_limit = 0, bg_max_scan = 0,
     bg_max_events = 0, bg_max_inventory = 0, bg_max_scans = 0, bg_max_uploads = 0, bg_spool_max_age = None\<rparr>"

definition sample_settings :: Settings where
  "sample_settings = \<lparr>st_level = Level_debug,
     st_modules = [\<lparr>ms_module = Module_network, ms_collection = Collection_disabled, ms_interval = None, ms_paths = None, ms_exclude = None\<rparr>],
     st_budgets = no_budgets\<lparr>bg_memory_limit := 64, bg_max_scans := 9\<rparr>, st_checks = None\<rparr>"

definition sample_policy_msg :: "u64 \<Rightarrow> Policy_msg" where
  "sample_policy_msg n = \<lparr>pm_schema = 1, pm_id = ''p1'', pm_revision = n, pm_targets = [''web-01''],
     pm_issued = Some (Some 0), pm_expires = Some (Some Hour), pm_settings = sample_settings\<rparr>"

definition sample_signing :: "unit signing" where
  "sample_signing = \<lparr>policy_Sum256 = \<lambda>bs. [of_nat (length bs)], policy_VerifyASN1 = \<lambda>key digest sig. sig = [1],
     OverP256 = \<lambda>key. True, MarshalPKIX = \<lambda>key. Some [1],
     DecodeSigned = \<lambda>bs. if bs = [] then Some \<lparr>sd_type = [], sd_payload = [], sd_signatures = []\<rparr>
       else Some \<lparr>sd_type = PolicyPayloadType, sd_payload = bs, sd_signatures = [[1]]\<rparr>,
     DecodePolicy = \<lambda>bs. Some (sample_policy_msg (of_nat (length bs)), Message_tree False False [])\<rparr>"

definition sample_ceilings :: Ceilings where
  "sample_ceilings = \<lparr>ce_spool_max_bytes = 100, ce_max_batch_bytes = 100, ce_max_upload = 100, ce_memory_limit = 100,
     ce_max_scan = 100, ce_max_events = 5, ce_max_inventory = 5, ce_max_scans = 2, ce_max_uploads = 2, ce_spool_max_age = Hour\<rparr>"

definition sample_config :: "unit Config" where
  "sample_config = \<lparr>cf_level = ''info'', cf_modules = Map.empty, cf_ceilings = sample_ceilings, cf_rest = ()\<rparr>"

text \<open>Rules of the configuration file that ask for a level this agent knows.\<close>

definition sample_Validated :: "unit Config \<Rightarrow> unit Config option" where
  "sample_Validated c = (if cf_level c \<in> {''debug'', ''info'', ''warn'', ''error''} then Some c else None)"

lemma sample_empty_decodes: "empty_decodes sample_signing"
  by (simp add: empty_decodes_def sample_signing_def)

lemmas sample_policy_defs = sample_signing_def sample_policy_msg_def sample_settings_def sample_config_def sample_ceilings_def no_budgets_def

definition sample_made :: "unit Config" where
  "sample_made = \<lparr>cf_level = ''debug'', cf_modules = [''network'' \<mapsto> no_module],
     cf_ceilings = sample_ceilings\<lparr>ce_memory_limit := 64\<rparr>, cf_rest = ()\<rparr>"

lemma sample_overlay:
  "Overlay sample_Validated sample_config sample_settings
    = Inr (sample_made, [\<lparr>ko_setting = ''resources.max_concurrent_scans'', ko_own = 2, ko_asked = 9\<rparr>])"
  by (simp add: Overlay_def checklist_def overlay_level_def named_level_def named_module_def overlay_module_def no_module_def
      overlay_ceilings_def sized_def counted_as_def timed_def sample_made_def sample_Validated_def sample_policy_defs)

definition sample_verifier :: "unit Verifier" where "sample_verifier = [(''k'', ())]"

definition sample_verified :: Verified where
  "sample_verified = \<lparr>vf_policy = sample_policy_msg 3, vf_envelope = [7, 8, 9], vf_digest = EncodeToString [3], vf_signedBy = [''k'']\<rparr>"

lemma sample_Verify: "Verify sample_signing sample_verifier [7, 8, 9] = Inr sample_verified"
  by (simp add: Verify_def sample_signing_def sample_verifier_def sample_verified_def MaxPolicyEnvelope_def MaxPolicyBytes_def
      MaxPolicySignatures_def)

lemma sample_policy_fit: "Policy_Judge sample_verified ''web-01'' no_holding 5 = None"
  by (simp add: Policy_Judge_def sample_verified_def sample_policy_msg_def PolicySchemaVersion_def policy_identifier_def is_alnum_def
      is_digit_def less_eq_char_def MaxTargets_def MaxPolicySkew_def MaxLifetime_def duration_defs no_holding_def word_less_nat_alt)

lemma sample_adopt:
  "\<exists>p disk. adopt sample_signing sample_Validated sample_config [7, 8, 9] 5 Keeps True (first_policies ''web-01'' sample_verifier) = (Adopted, p, disk)
     \<and> po_held p = holding_of sample_verified \<and> po_applied p = Some sample_verified"
proof -
  have s: "pm_settings (vf_policy sample_verified) = sample_settings" by (simp add: sample_verified_def sample_policy_msg_def)
  show ?thesis
    using sample_Verify sample_policy_fit sample_overlay s
    by (simp add: adopt_def first_policies_def new_policies_def Store_Keep_def holding_of_def)
qed

end
