(* ===== verification/Spec2Isabelle.thy ===== *)
theory Spec2Isabelle
  imports Integrity_Samples Inventory_Samples Auth_Samples Modules_Samples Network_Samples Delivery_Samples Install_Samples Governor_Samples Policy_Samples
begin

text \<open>
  The core of the agent: what its modules observe of the host, what it does with a record from the
  moment a module hands it over until the platform stored it, when it may talk to the platform and how
  fast, which policy it runs on, and which release of itself it installs.

  \<^bold>\<open>The parts and how they interact.\<close> A collection (\<open>internal/modules\<close>) starts, restarts and stops the
  modules the configuration asks for. The authentication module reads what sshd wrote to the journal,
  the network module compares the sockets of every namespace with what it saw last, the inventory
  module takes stock of the host, the integrity module walks the files it is told to watch and looks
  again at the names the kernel speaks of; each writes down how far it came and starts from there again.
  Modules hand records to the spool (\<open>internal/spool\<close>), which keeps
  each stream in segment files and a ledger of the sequences that settled. The delivery of a stream
  (\<open>internal/delivery\<close>) reads the spool, composes batches (\<open>internal/protocol\<close>), sends them when the
  link to the listener (\<open>internal/link\<close>) and the governor (\<open>internal/governor\<close>) let it, judges the
  answer and settles the records in the spool. The agent asks for the policy that names it
  (\<open>internal/policy\<close>) and runs on what it allows. The updater (\<open>internal/update\<close>) follows signed roots
  and catalogs and installs the release they name, through a journal that survives a crash.

  \<^bold>\<open>The theories.\<close>
  \<^item> \<open>Prelude\<close>, \<open>Strings\<close>: words, bytes, big-endian numbers, durations, errors as lists of the
    sentinels they wrap, and the strings the sources parse and print.
  \<^item> \<open>Crc32\<close>, \<open>Frame\<close>, \<open>Walk\<close> (\<open>spool/frame.go\<close>): the checksum, the headers of segments and frames,
    the walk over a segment that may be damaged anywhere, and the test for an interrupted write. A
    header is read back; a frame that a walk returns is in the file; the walk ends.
  \<^item> \<open>Ledger\<close> (\<open>spool/ledger.go\<close>): the watermark and the spans of settled sequences as 64 bit words,
    merging, counting by binary search, and the codec, against the set of sequences they stand for.
  \<^item> \<open>Spool_Base\<close>, \<open>Budget\<close> (\<open>spool/spool.go\<close>): streams, limits, and the bytes the streams share.
  \<^item> \<open>Disk\<close>: files that hold what was written and what is durable, and a directory likewise; every
    operation may fail, as a list of answers says, and a failed write leaves a prefix.
  \<^item> \<open>Segment\<close>, \<open>Queue\<close>, \<open>Queue_Read\<close>, \<open>Queue_Recover\<close> (\<open>spool/queue.go\<close>): one stream, its segments,
    admission, rotation, settling, compaction, reading, expiry and recovery. \<open>Queue_Inv\<close>,
    \<open>Queue_Admit\<close>, \<open>Queue_Settle\<close>, \<open>Queue_Read_Inv\<close> hold its invariant and what each operation does;
    \<open>Queue_Abs\<close> the contract of a stream and the refinement; \<open>Queue_Read_Cover\<close> that a read passes
    nothing over.
  \<^item> \<open>Spool\<close>, \<open>Billing\<close>, \<open>Spool_Inv\<close> (\<open>spool/spool.go\<close>): the queues under their shared budget, as a
    step relation over every operation, its invariant and its refinement of the contracts.
  \<^item> \<open>Link_Policy\<close>, \<open>Link\<close> (\<open>internal/link\<close>): how long to wait after a failure, what kind of failure it
    was, and the turns of the requests that share a listener.
  \<^item> \<open>Governor_Queue\<close>, \<open>Governor_Pool\<close>, \<open>Governor_Pace\<close>, \<open>Governor_Schedule\<close>, \<open>Governor\<close>
    (\<open>internal/governor\<close>): waiters of two classes, pools of slots, paces of bytes, periodic work, and
    the budget over them.
  \<^item> \<open>Protocol_Batch\<close>, \<open>Protocol_Answer\<close> (\<open>protocol/batch.go\<close>, \<open>answer.go\<close>, \<open>exclusion.go\<close>,
    \<open>protocol.go\<close>): batches, the identity of a record, and the verdict on an answer.
  \<^item> \<open>Delivery\<close>, \<open>Delivery_Inv\<close> (\<open>delivery/delivery.go\<close>): the route of one stream, and beside it what
    the spool holds for it, as a step relation with its invariant. \<open>Delivery_Spool\<close> states what the route
    relies on of the spool and shows that the queue of a stream provides it.
  \<^item> \<open>Modules_Collection\<close> (\<open>modules/modules.go\<close>): composing the modules, applying a set of them, and the
    goroutine of each as moves between the points where it may be held up. \<open>Modules_Inv\<close> has the
    invariant over every interleaving, \<open>Modules_Told\<close> what a call of \<open>Apply\<close> does and when a module is
    given up.
  \<^item> \<open>Text_Patterns\<close>, \<open>Auth_Sshd\<close>, \<open>Auth_Event\<close>, \<open>Auth_Collector\<close> (\<open>modules/authentication\<close> and the entries
    of \<open>platform/journal\<close>): searching, patterns and UTF-8; the line of sshd; the event of an entry; the
    loop over the journal with the place it writes down. \<open>Auth_Inv\<close> shows that no place passes over an event.
  \<^item> \<open>Network_View\<close>, \<open>Network_Changes\<close>, \<open>Network_State\<close>, \<open>Network_Round\<close> (\<open>modules/network\<close> and the
    tables of \<open>platform/sockets\<close>): what a round sees, how it is compared, what is written down, and the
    rounds. \<open>Network_Inv\<close> and \<open>Network_Compare\<close> relate what is reported to what is held.
  \<^item> \<open>Inventory_Snapshot\<close>, \<open>Inventory_Collector\<close> (\<open>modules/inventory\<close>, \<open>protocol/inventory.go\<close>): the
    snapshot of a kind and the checks it passes, the judgement of a snapshot against the last one, a
    round, the baseline and a restart. \<open>Inventory_Inv\<close> relates the baseline to what the spool took.
  \<^item> \<open>Integrity_Entry\<close>, \<open>Integrity_Pass\<close>, \<open>Integrity_Hints\<close> (\<open>modules/integrity\<close>, the nodes of
    \<open>platform/tree\<close> and the events of \<open>platform/inotify\<close>): scopes and the tree of entries, the pass over what
    the host answers, its end, and the hints of the kernel. \<open>Integrity_Inv\<close> has what a walk tells of each name
    and that a host that did not change is not reported.
  \<^item> \<open>Policy_Trust\<close>, \<open>Policy_Overlay\<close>, \<open>Policy_Held\<close>, \<open>Policy_Follow\<close> (\<open>internal/policy\<close>,
    \<open>cmd/seagull-agent/policies.go\<close>): the signature and the judgement of a policy, the configuration it
    makes, the policy the agent holds across reloads and restarts, and the asking.
  \<^item> \<open>Update_Version\<close>, \<open>Update_Trust\<close>, \<open>Update_Judge\<close> (\<open>update/version.go\<close>, \<open>root.go\<close>, \<open>catalog.go\<close>,
    \<open>update.go\<close>, \<open>judge.go\<close>, \<open>internal/dsse\<close>): versions, envelopes, roots, catalogs and the judgement
    of an offer. \<open>Update_Install\<close>, \<open>Update_Install_Inv\<close> (\<open>install.go\<close>, \<open>journal.go\<close>, \<open>stage.go\<close>): the
    installer as a program over a host that may fail, stop it or crash at every call, with triples
    for its parts and a step relation over its runs.
  \<^item> The theories whose names end in \<open>_Samples\<close> hold the concrete inputs of the witnesses.

  \<^bold>\<open>How state and effects are modelled.\<close> A struct is a record with its fields prefixed, an operation a
  function from the state, its arguments and the answers of whatever it calls to its result and the
  new state; an error is a list of the sentinels it wraps. Code that waits is taken apart at the
  points where it sleeps, and the order in which the parts run is free. Sequences, lengths and
  counters the code keeps in machine words are words; times and durations are integers, and 64 bit
  arithmetic on them is written out where it may wrap.

  \<^bold>\<open>Interfaces.\<close> What a component relies on is stated as a locale and discharged on the model's own
  definitions by an interpretation in the theory of the component that provides it. What lies outside
  the repository is a parameter: \<open>wire\<close> for \<open>protowire\<close>, \<open>decoders\<close> for the decoding of messages and
  media types, \<open>outside\<close> for keys, digests and the messages of the updater, \<open>auth_libs\<close> and \<open>inv_libs\<close>
  for the digest, protobuf, \<open>netip\<close> and moments as text, \<open>position_codec\<close> and \<open>base_codec\<close> for
  \<open>encoding/json\<close>. Hypotheses on them, such
  as \<open>wire_ok\<close>, say what their documentation says.

  \<^bold>\<open>Loops.\<close> Loops over files and lists are functions with a measure. The loops over the fields of a
  message end only because of what the wire format promises, so they are partial functions into
  \<open>option\<close>, shown to return a value on every input. There is no fuel.

  \<^bold>\<open>What is not modelled.\<close> Log lines and the text of reasons; the buffering of a write, which is one
  write that leaves a prefix when it fails; floating point, in place of which waits and tokens are
  rational; removing what lies in the staging area, which happens whole or not at all; the rest of
  \<open>internal/update\<close> (asking for an offer, downloading it and the files verified metadata is kept in).
  The files of the modules are what a read of them answers and how a write ended: opening them,
  their permissions and the removal of interrupted writes are calls of the host. How the host is
  enumerated (\<open>internal/platform\<close> but for the socket tables and the journal entries named above), and
  how the answers become items of the inventory, is reading of \<open>/proc\<close> and of the output of commands.
  The rules of the configuration file (\<open>internal/config\<close>) are the argument \<open>Validated\<close> of the policy.
  Of the integrity module the text of the baseline, a change of scope, the watching of directories and
  the saves in the middle of a walk are left out. The assessment module, reporting, renewal and enrollment
  are not modelled;
  the identity and certificates of the agent, the transport, the status and diagnostics it prints,
  the redaction of secrets, the runtime that starts its services, the packaging and the composition in
  \<open>cmd\<close> are I/O over the host and the standard library, or glue.
\<close>

section \<open>The on-disk format of the spool\<close>

text \<open>C23. Whatever a segment holds, a frame that \<open>next\<close> returns after verifying its body is, byte
  for byte, the frame the encoder writes for a record within the limits, it lies wholly inside the
  walk, and a kept body is the identifier followed by the payload of that record.\<close>

theorem walk_returns_written_frames:
  assumes "walk_next mode w = (Found f body skipped, w')"
    and "mode_of mode f \<noteq> HeaderOnly"
    and "walk_end w \<le> length (content (walk_file w))"
  shows "walk_at w \<le> offset f \<and> walk_at w' = offset f + frame_size f \<and> walk_at w' \<le> walk_end w
     \<and> (\<exists>ident pl. writable (sequence f) (admitted f) ident pl
          \<and> take (frame_size f) (drop (offset f) (content (walk_file w)))
              = frameBytes (walk_stream w) (sequence f) (admitted f) ident pl
          \<and> (mode_of mode f = Kept \<longrightarrow> body = ident @ pl \<and> length ident = idBytes f))"
proof -
  let ?bs = "content (walk_file w)"
  note n = next_from_Found [OF assms(1) [unfolded walk_next_def]]
  have fits: "offset f + frame_size f \<le> length ?bs" using n assms(3) by simp
  note v = frame_bytes_of_verified [of "walk_stream w" ?bs f]
  have h: "headed_at (walk_stream w) ?bs f" "checksum (body_bytes ?bs f) = frame_sum f"
    using n assms(2) by simp_all
  have len: "length (take (idBytes f) (body_bytes ?bs f)) = idBytes f"
    using fits by (simp add: body_bytes_def frame_size_def)
  have "mode_of mode f = Kept \<longrightarrow> body = body_bytes ?bs f" using n by simp
  then have "\<exists>ident pl. writable (sequence f) (admitted f) ident pl
      \<and> take (frame_size f) (drop (offset f) ?bs)
          = frameBytes (walk_stream w) (sequence f) (admitted f) ident pl
      \<and> (mode_of mode f = Kept \<longrightarrow> body = ident @ pl \<and> length ident = idBytes f)"
    using v [OF h fits] len by metis
  then show ?thesis using n by simp
qed

theorem walk_returns_written_frames_witness:
  "\<exists>f w'. walk_next None (newWalk (plain_file (frameBytes 1 7 5 [65] [66])) 1 0 34) = (Found f [] 0, w')
     \<and> walk_at w' = 34 \<and> (\<exists>ident pl. frameBytes 1 7 5 [65] [66] = frameBytes 1 (sequence f) (admitted f) ident pl)"
proof -
  let ?bs = "frameBytes 1 7 5 [65] [66]"
  let ?w = "newWalk (plain_file ?bs) 1 0 34"
  let ?f = "frame_of 0 7 5 [65] [66]"
  have "walk_next None ?w = (Found ?f [] 0, ?w\<lparr>walk_headed := 0, walk_at := 34\<rparr>)"
    unfolding walk_next_def
    by (subst next_from_resync [of _ 0 7 5 "[65]" "[66]"])
      (simp_all add: newWalk_def intact_at_def writable_def mode_of_def)
  from walk_returns_written_frames [OF this] this show ?thesis
    by (auto simp: mode_of_def newWalk_def frame_of_def frame_size_def intro!: exI)
qed

section \<open>The ledger\<close>

text \<open>C17. Settling spans keeps the ledger well formed, settles exactly what was settled before and
  what the spans hold, and reports as newly settled the number of sequences that were not settled
  before: a record is counted once however often it settles.\<close>

theorem settling_counts_once:
  assumes "wf_ledger l" "\<And>x. x \<in> set added \<Longrightarrow> span_end x \<le> maxSequence + 1"
  shows "wf_ledger (fst (ledger_settle l added))
     \<and> (\<forall>seq. ledger_settled (fst (ledger_settle l added)) seq
            \<longleftrightarrow> ledger_settled l seq \<or> seq \<in> spans_set added)
     \<and> unat (snd (ledger_settle l added)) = card {seq \<in> spans_set added. \<not> ledger_settled l seq}
     \<and> snd (ledger_settle (fst (ledger_settle l added)) added) = 0"
proof -
  have b: "spans_bounded added" using assms(2) by (simp add: spans_bounded_def)
  have "{seq \<in> spans_set added. \<not> ledger_settled l seq} = spans_set added - settled_set l"
    using assms(1) by (auto simp: ledger_settled_iff)
  then show ?thesis
    using assms(1) b by (simp add: led.settle_member led.settle_again led.settle_newly led.settle_wf)
qed

theorem settling_counts_once_witness:
  "snd (ledger_settle (fst (ledger_settle \<lparr>watermark = 3, spans = [Span 5 6], delivered = 0, lost = 0,
       expired = 0, quarantined = 0\<rparr> [Span 2 7])) [Span 2 7]) = 0"
  using settling_counts_once [of "\<lparr>watermark = 3, spans = [Span 5 6], delivered = 0, lost = 0,
       expired = 0, quarantined = 0\<rparr>" "[Span 2 7]"]
  by (simp add: wf_ledger_def ledger_highest_def)

section \<open>The queue of a stream\<close>

text \<open>C1. A receipt is returned only once every record is durable: the frames of the batch, in the
  order of its records and under consecutive sequences, stand at the end of the last segment both
  in the file and in what its last sync made durable, the receipt names exactly these sequences,
  no other segment is touched, and the queue stays well formed.\<close>

theorem admission_is_durable:
  assumes "wf_queue q" "q_admit h records q = (Inr rc, q')"
    and "unat (q_next q) + length records \<le> 2 ^ 62 + 1"
  shows "wf_queue q'
     \<and> rc = \<lparr>rc_Stream = q_stream q, rc_First = q_next q, rc_Last = q_next q + of_nat (length records) - 1\<rparr>
     \<and> q_next q' = q_next q + of_nat (length records)
     \<and> (\<exists>i bs. admit_base q q' bs
          \<and> kept_file (q_disk q') (segment_name (last (q_segments q'))) i
              (bs @ admit_frames (q_stream q) (q_next q) (now h) records))
     \<and> (\<forall>f j cs. f \<noteq> seg_first (last (q_segments q')) \<and> kept_file (q_disk q) (first_name f) j cs
          \<longrightarrow> kept_file (q_disk q') (first_name f) j cs)"
  using q_admit_Inr [OF assms] by blast

theorem admission_is_durable_witness:
  "\<exists>i bs. kept_file (q_disk holding_queue) (segment_name (last (q_segments holding_queue))) i
     (bs @ admit_frames Events 1 5 [sample_record])"
  using admission_is_durable [OF sample_wf(2) sample_admit] by (auto simp: sample_host_def)

text \<open>C5. Settling sequences takes effect in full or not at all: when it succeeds, exactly the
  sequences given are settled beside those that were, and the counter of the kind grows by the
  number of them that were not settled before; when it fails, the ledger is as it was. A sequence
  that was never given out is refused.\<close>

theorem settle_is_exact:
  assumes "wf_queue q" "q_settle sequences kind q = (r, q')"
  shows "wf_queue q' \<and> q_next q' = q_next q
     \<and> (r = None \<longrightarrow> settled_set (q_ledger q') = settled_set (q_ledger q) \<union> set sequences
          \<and> counted kind (of_nat (card (set sequences - settled_set (q_ledger q)))) (q_ledger q) (q_ledger q')
          \<and> (\<forall>x \<in> set sequences. 0 < x \<and> x < q_next q))
     \<and> (r \<noteq> None \<longrightarrow> q_ledger q' = q_ledger q)"
  using q_settle_spec [OF assms] by blast

theorem settle_is_exact_witness:
  "settled_set (q_ledger (snd (q_settle [1] Delivered holding_queue))) = settled_set (q_ledger holding_queue) \<union> {1}"
  using settle_is_exact [OF sample_admitted(1) sample_settle] by simp

text \<open>C16. Compaction removes only segments whose every sequence settled: a segment with one that is
  not stays among the segments and its file is kept, and the queue stays well formed.\<close>

theorem compaction_keeps_unsettled:
  assumes "wf_queue q" "(s, u) \<in> set (uppers (q_next q) (q_segments q))"
    and "\<not> {seg_first s ..< u} \<subseteq> settled_set (q_ledger q)"
  shows "wf_queue (q_compact q) \<and> s \<in> set (q_segments (q_compact q))
     \<and> (\<forall>i bs. kept_file (q_disk q) (segment_name s) i bs
          \<longrightarrow> kept_file (q_disk (q_compact q)) (segment_name s) i bs)"
  using q_compact_wf(1,5) [OF assms(1)] assms(2,3) by blast

theorem compaction_keeps_unsettled_witness:
  "\<lparr>seg_first = 1, seg_size = 63\<rparr> \<in> set (q_segments (q_compact holding_queue))"
proof -
  have "\<not> {1 ..< (2::u64)} \<subseteq> settled_set (q_ledger holding_queue)"
    by (auto simp: settled_set_def empty_ledger_def subset_iff intro: exI [of _ 1])
  then show ?thesis
    using compaction_keeps_unsettled [OF sample_admitted(1), of "\<lparr>seg_first = 1, seg_size = 63\<rparr>" 2] by simp
qed

text \<open>C12. A read returns entries in the order of their sequences, each once, each one that was given
  out, is not settled and is at or above the one asked for, at most as many as asked for and, past
  the first, no more bytes of payload than asked for. It passes nothing over: of what is outstanding
  after it, all from the one asked for up to the last returned is returned, and it returns nothing
  only when nothing is left from there on. What changes is a step of the contract of the stream.\<close>

theorem read_returns_outstanding:
  assumes "wf_queue q" "complete q" "q_read h frm most bytes q = (Inr es, q')"
  shows "wf_queue q' \<and> q_next q' = q_next q \<and> refines q q'
     \<and> sorted_wrt (<) (List.map en_Sequence es)
     \<and> (\<forall>e \<in> set es. frm \<le> en_Sequence e \<and> 0 < en_Sequence e \<and> en_Sequence e < q_next q
            \<and> \<not> ledger_settled (q_ledger q) (en_Sequence e))
     \<and> (\<forall>s \<in> outstanding q'. frm \<le> s \<and> (es = [] \<or> s \<le> en_Sequence (last es)) \<longrightarrow> s \<in> en_Sequence ` set es)
     \<and> int (length es) \<le> max most 1 \<and> (length es \<le> 1 \<or> payload_bytes es \<le> bytes)"
  using q_read_spec [OF assms(1,3)] q_read_covers(2) [OF assms] by blast

theorem read_returns_outstanding_witness:
  "\<exists>q'. q_read sample_host 1 10 100 holding_queue = (Inr [sample_entry], q') \<and> wf_queue q' \<and> en_Sequence sample_entry = 1"
proof -
  have "complete holding_queue"
    using admitting.run_complete [of sample_queue "[sample_record]" sample_host] sample_wf by (simp add: holding_queue_def)
  from read_returns_outstanding [OF sample_admitted(1) this holding_read] holding_read show ?thesis
    by (auto simp: sample_entry_def)
qed

section \<open>The spool\<close>

text \<open>C18. Whatever the host answers and in whatever order the spool is used, it stays well formed:
  every queue is, what the budget says is held is the sum of what the streams hold, and no stream
  is billed for another.\<close>

theorem spool_stays_well_formed:
  assumes "wf_spool sp" "spool_step\<^sup>*\<^sup>* sp sp'"
  shows "wf_spool sp'"
  using spool_steps_keep [OF assms(2,1)] by simp

theorem spool_stays_well_formed_witness:
  "wf_spool (snd (sp_Admit sample_host sample_host Events [sample_record] (first_spool blank_disk sample_limits)))"
  by (rule spool_stays_well_formed [OF first_spool_wf [OF sample_wf(1)] r_into_rtranclp [of spool_step, OF sample_step(1)]])

text \<open>C4. Every run of the spool refines the contract of each stream: sequences are given out once
  and in order, what settled stays settled, and the four counters together grow by exactly the
  number of records that settled, so a record is never counted under two of them.\<close>

theorem spool_counts_every_record_once:
  assumes "wf_spool sp" "spool_step\<^sup>*\<^sup>* sp sp'" "sp_queue s sp = Some q" "sp_queue s sp' = Some q'"
  shows "contract_step\<^sup>*\<^sup>* (contract q) (contract q')
     \<and> q_next q \<le> q_next q' \<and> settled_set (q_ledger q) \<subseteq> settled_set (q_ledger q')
     \<and> counted_all (contract q') - counted_all (contract q)
         = of_nat (card (settled_set (q_ledger q') - settled_set (q_ledger q)))"
proof -
  have "refines q q'"
    using spool_steps_keep [OF assms(2,1)] assms(3,4) by (auto simp: spool_rel_def dest!: spec [of _ s])
  then have "contract_step\<^sup>*\<^sup>* (contract q) (contract q')" by (simp add: refines_def)
  with contract_steps_keep [OF this] show ?thesis by (simp add: contract_def)
qed

theorem spool_counts_every_record_once_witness:
  "\<exists>q'. sp_queue Events (snd (sp_Admit sample_host sample_host Events [sample_record]
        (first_spool blank_disk sample_limits))) = Some q'
     \<and> counted_all (contract q') - counted_all (contract sample_queue)
         = of_nat (card (settled_set (q_ledger q') - settled_set (q_ledger sample_queue)))"
proof -
  let ?sp = "first_spool blank_disk sample_limits"
  let ?sp' = "snd (sp_Admit sample_host sample_host Events [sample_record] ?sp)"
  have wf: "wf_spool ?sp" by (rule first_spool_wf [OF sample_wf(1)])
  have "rel_option refines (sp_queue Events ?sp) (sp_queue Events ?sp')"
    using spool_step_keeps [OF sample_step(1) wf] by (simp add: spool_rel_def)
  then obtain q' where "sp_queue Events ?sp' = Some q'"
    by (auto simp: sample_step(2) option_rel_Some1)
  with spool_counts_every_record_once [OF wf r_into_rtranclp [of spool_step, OF sample_step(1)] sample_step(2) this]
  show ?thesis by blast
qed

section \<open>The link\<close>

text \<open>C11. However requests take, settle and abandon their turns on a link, while the listener fails
  at most one of them may send: exactly one while the listener is tried again, and none before
  that is due.\<close>

theorem one_request_tries_again:
  assumes "link_New options = Inr l\<^sub>0" "link_step\<^sup>*\<^sup>* (l\<^sub>0, []) (l, ts)" "lk_failing l"
  shows "length (filter (\<lambda>t. turn_Stands t l) ts) = (if lk_probing l then 1 else 0)"
  by (rule one_stands [OF link_steps_inv [OF assms(2) link_New_inv [OF assms(1)]] assms(3)])

theorem one_request_tries_again_witness:
  "length (filter (\<lambda>t. turn_Stands t sample_failing) [sample_turn\<lparr>tn_done := True\<rparr>]) = 0"
  using one_request_tries_again [OF sample_New sample_reached] sample_failing_fields by simp



section \<open>Updates\<close>

text \<open>C22. Whatever an offer hands over, the root the agent ends up with is reached from the one it
  held one version at a time, every step signed by enough keys of the root before it and of its own,
  and it is never an older one.\<close>

theorem roots_are_followed_in_order:
  assumes "sound_root r"
  shows "(leads_to out at_time)\<^sup>*\<^sup>* r (Root_Walk out r roots at_time) \<and> sound_root (Root_Walk out r roots at_time)
    \<and> Root_Version r \<le> Root_Version (Root_Walk out r roots at_time)"
  using Root_Walk_chain [OF assms] by simp

theorem roots_are_followed_in_order_witness:
  "Root_Version (Root_Walk sample_out sample_root [root_envelope 2] 5) = 2
   \<and> sound_root (Root_Walk sample_out sample_root [root_envelope 2] 5)"
  using roots_are_followed_in_order [OF sample_root_sound, of sample_out 5 "[root_envelope 2]"]
  by (simp add: sample_Next) (simp add: Root_Version_def sample_root_msg_def)




section \<open>The installer\<close>

text \<open>C3. Whatever the host answers, wherever the machine stops and however often the installer is
  started again, every package it hands to the package manager is one that a signed and unexpired
  catalog names, under a root that the provisioned one leads to; the file has the digest its name
  says; and the journal on the disk already said it would be installed, or gone back to.\<close>

theorem only_signed_packages_are_installed:
  assumes "sound_root anchor" "(inst_step out)\<^sup>*\<^sup>* (first_world anchor) w"
    and "Install_act name downgrade journal package \<in> set (wd_acts w)"
  shows "authorised out anchor name
    \<and> (\<exists>j. journal = Some j \<and> (jn_stage j = Installing \<and> name = jn_target j
                                \<or> jn_stage j = Reverting \<and> name = jn_fallback j))
    \<and> (\<forall>c. package = Some c \<longrightarrow> name = PackageName (Sum256 out c))"
  using inst_steps_inv [OF assms(2) first_world_inv [OF assms(1)]] assms(3) by (auto simp: inst_inv_def)

theorem only_signed_packages_are_installed_witness:
  "authorised sample_out sample_root sample_package \<and> sample_package = PackageName (Sum256 sample_out [9])"
proof -
  obtain w where "(inst_step sample_out)\<^sup>*\<^sup>* (first_world sample_root) w"
    "Install_act sample_package False (Some sample_journal) (Some [9]) \<in> set (wd_acts w)"
    by (rule stopped_reached)
  from only_signed_packages_are_installed [OF sample_root_sound this] show ?thesis by blast
qed



section \<open>The governor\<close>

text \<open>C15. Whatever work asks for, gives up and puts back, and however the budget changes: the slots of
  uploads are counted exactly, nobody waits for a slot that is free (a bulk upload waits only for
  the one that is kept for critical ones, and no scan waits while one may run), and no change ever
  lets more work run than the budget of that moment, or more bulk uploads than it leaves them,
  unless that much was running before.\<close>

theorem slots_are_used_within_the_budget:
  assumes "Governor_New installation b t t' = Inr g\<^sub>0" "gov_step\<^sup>*\<^sup>* g\<^sub>0 g" "gov_step g g'"
    and "kept = (if bg_Uploads (gv_budget g') > 1 then 1 else 0)"
  shows "(\<forall>k. pl_held (gv_uploads g') k = int (length (filter (\<lambda>w. wt_class w = k) (pl_granted (gv_uploads g')))))
    \<and> (pool_total (gv_uploads g') < bg_Uploads (gv_budget g') \<longrightarrow>
         (\<forall>w \<in> set (waiting (pl_queue (gv_uploads g'))). wt_class w = Bulk
            \<and> bg_Uploads (gv_budget g') - kept \<le> pl_held (gv_uploads g') Bulk))
    \<and> (pool_total (gv_scans g') < bg_Scans (gv_budget g') \<longrightarrow> waiting (pl_queue (gv_scans g')) = [])
    \<and> pool_total (gv_uploads g') \<le> max (pool_total (gv_uploads g)) (bg_Uploads (gv_budget g'))
    \<and> pl_held (gv_uploads g') Bulk \<le> max (pl_held (gv_uploads g) Bulk) (bg_Uploads (gv_budget g') - kept)
    \<and> pool_total (gv_scans g') \<le> max (pool_total (gv_scans g)) (bg_Scans (gv_budget g'))"
proof -
  have inv: "gov_inv g" by (rule gov_steps_inv [OF assms(2) New_inv [OF assms(1)]])
  note inv' = gov_step_inv [OF assms(3) inv]
  have u: "wt_class w = Bulk \<and> pl_capacity p - pl_reserved p \<le> pl_held p Bulk"
    if "pool_served p" "pool_total p < pl_capacity p" "w \<in> set (waiting (pl_queue p))" for p w
    using that by (auto simp: pool_served_def pool_next_def wq_next_None)
  have s: "waiting (pl_queue p) = []" if "pool_served p" "pool_counts p" "pl_reserved p = 0" "pool_total p < pl_capacity p" for p
  proof (rule ccontr)
    assume "waiting (pl_queue p) \<noteq> []"
    then obtain w where "w \<in> set (waiting (pl_queue p))" by (cases "waiting (pl_queue p)") auto
    from u [OF that(1,4) this] have "pl_capacity p \<le> pl_held p Bulk" using that(3) by simp
    moreover have "0 \<le> pl_held p Critical" using that(2) by (simp add: pool_counts_def)
    ultimately show False using that(4) by (simp add: pool_total_def)
  qed
  show ?thesis
    using inv' gov_step_within [OF assms(3) inv] u [of "gv_uploads g'"] s [of "gv_scans g'"] assms(4)
    by (simp add: gov_inv_def pool_within_def pool_counts_def counts_def)
qed

theorem slots_are_used_within_the_budget_witness:
  "pool_total (pool_enter critical_waiter (gv_uploads sample_governor)) \<le> 2"
proof -
  let ?g = "sample_governor\<lparr>gv_uploads := pool_enter critical_waiter (gv_uploads sample_governor)\<rparr>"
  have "gov_step sample_governor ?g"
    by (rule Gov_upload [of Critical True 2]) (simp_all add: Upload_asks_def critical_waiter_def sample_uploads)
  from slots_are_used_within_the_budget [OF sample_Governor rtranclp.rtrancl_refl this refl] show ?thesis
    by (simp add: sample_uploads) (simp add: sample_governor_def Governor_apply_def sample_budget_def)
qed

text \<open>C13. Bulk work that waits to send is never starved: however much critical work arrives, once more
  grants were made than five for every bulk waiter before it and four for itself, it was served.\<close>

theorem bulk_work_is_not_starved:
  assumes "Governor_New installation b t t' = Inr g\<^sub>0" "gov_step\<^sup>*\<^sup>* g\<^sub>0 g"
    and "wt_class w = Bulk" "Enters w \<notin> set es" "Gives_up w \<notin> set es" "pace_run es (gv_sending g) = (n, p')"
    and "(favoured + 1) * ahead w (pc_queue (gv_sending g)) + favoured
      < length (filter (\<lambda>e. e = Serves) (queue_events es (gv_sending g)))"
  shows "w \<notin> set (waiting (pc_queue p'))"
proof
  let ?p = "gv_sending g"
  assume "w \<in> set (waiting (pc_queue p'))"
  then have w: "w \<in> set (waiting (fold wq_event (queue_events es ?p) (pc_queue ?p)))"
    using run_queue [of es ?p] assms(6) by simp
  have "streak (pc_queue ?p) \<le> favoured"
    using gov_steps_inv [OF assms(2) New_inv [OF assms(1)]] by (simp add: gov_inv_def pace_inv_def)
  from served_in_time [OF assms(3) this _ _ w] queue_events_in [of w es ?p] assms(4,5)
  have "length (filter (\<lambda>e. e = Serves) (queue_events es ?p)) \<le> turns w (pc_queue ?p)" by blast
  then show False using assms(7) by (simp add: turns_def)
qed

theorem bulk_work_is_not_starved_witness:
  "bulk_waiter \<notin> set (waiting (pc_queue (snd (pace_run sample_events (gv_sending waiting_governor)))))"
proof -
  have "(favoured + 1) * ahead bulk_waiter (pc_queue (gv_sending waiting_governor)) + favoured
      < length (filter (\<lambda>e. e = Serves) (queue_events sample_events (gv_sending waiting_governor)))"
    by (simp only: sample_served) (simp add: favoured_def)
  from bulk_work_is_not_starved [OF sample_Governor r_into_rtranclp [of gov_step, OF waiting_steps] _ _ _ prod.collapse [symmetric] this]
  show ?thesis by (simp add: bulk_waiter_def critical_waiter_def sample_events_def)
qed

text \<open>C14. The budget of bytes is kept: over any stretch of time, however many uploads share it and
  whoever waits, no more is granted than one burst and what the rate pays for in that time.\<close>

theorem rate_is_kept:
  assumes "Governor_New installation b t t' = Inr g\<^sub>0" "gov_step\<^sup>*\<^sup>* g\<^sub>0 g"
    and "in_order (pc_updated (gv_sending g)) es" "pace_run es (gv_sending g) = (n, p')"
  shows "of_int n \<le> of_int (burst_of (bg_UploadBytes (gv_budget g)))
     + of_int (bg_UploadBytes (gv_budget g)) * (of_int (pc_updated p' - pc_updated (gv_sending g)) / (of_int Second :: rat))"
proof -
  have g: "gov_inv g" by (rule gov_steps_inv [OF assms(2) New_inv [OF assms(1)]])
  then have p: "pace_inv (gv_sending g)" by (simp add: gov_inv_def)
  from run_kept [OF this assms(3,4)]
  have "0 \<le> pc_tokens p'" "of_int n + pc_tokens p' \<le> pc_tokens (gv_sending g)
      + pc_rate (gv_sending g) * (of_int (pc_updated p' - pc_updated (gv_sending g)) / of_int Second)"
    by (simp_all add: pace_inv_def)
  moreover have "pc_tokens (gv_sending g) \<le> of_int (burst_of (bg_UploadBytes (gv_budget g)))"
    "pc_rate (gv_sending g) = of_int (bg_UploadBytes (gv_budget g))"
    using p g by (simp_all add: pace_inv_def gov_inv_def)
  ultimately show ?thesis by simp
qed

theorem rate_is_kept_witness:
  "of_int (fst (pace_run sample_events (gv_sending waiting_governor)))
     \<le> of_int (burst_of (2 ^ 20)) + of_int (2 ^ 20) * (of_int 5 / (of_int Second :: rat))"
proof -
  have "pc_updated (gv_sending waiting_governor) = 0" "gv_budget waiting_governor = sample_budget"
    by (simp_all add: waiting_sending) (simp add: waiting_governor_def sample_governor_def Governor_apply_def)
  with rate_is_kept [OF sample_Governor r_into_rtranclp [of gov_step, OF waiting_steps] sample_served(3) prod.collapse [symmetric]]
  show ?thesis by (simp only: sample_served(5)) (simp add: sample_budget_def)
qed

section \<open>Batches, answers and the delivery of a stream\<close>

text \<open>C27. A batch is read back as the records it carries, and it is as long as its envelope and its
  framed records are: the size the agent composes a batch by is the size it sends.\<close>

theorem batch_round_trip:
  assumes "wire_ok wr" "numbers_ok wr r"
  shows "Records wr r (Batch wr r ident records) = Some records
     \<and> int (length (Batch wr r ident records))
         = Envelope_size wr r ident + sum_list (map (\<lambda>record. Framed wr r (length record)) records)"
  using Records_Batch [OF assms] length_Batch [OF assms] by blast

theorem batch_round_trip_witness:
  "Records sample_wire To_events (Batch sample_wire To_events [3] [[4, 5], []]) = Some [[4, 5], []]"
  using batch_round_trip [OF sample_wire_ok sample_numbers_ok] by blast

text \<open>C28. Reading the records of a batch and identifying a record end whatever the bytes are, malformed
  ones too, as long as a tag that was consumed took at least a byte.\<close>

theorem reading_a_message_ends:
  assumes "tags_advance wr"
  shows "(\<exists>records. Records wr r body = Some records) \<and> (\<exists>found. Identify wr r body = Some found)"
  using reading_ends [OF assms] by blast

theorem reading_a_message_ends_witness: "\<exists>found. Identify sample_wire To_inventory [1, 0, 2, 1, 1] = Some found"
  using reading_a_message_ends [OF sample_tags_advance] by blast

text \<open>C2. However records are admitted, expire, are composed, sent, refused, split and retried over the
  queue of the stream, a record the queue still holds below where the route reads next is in the
  batch the route has pending: no outstanding record is passed over. The batch pending is in the
  order of the sequences, each once, below where the route reads next, and of records not settled
  before they were read. Composing is with every unreadable record quarantined.\<close>

theorem no_record_is_passed_over:
  assumes "wf_queue q0" "complete q0" "(delivery_step wr rd)\<^sup>*\<^sup>* (new_route st p k policy, q0) (r, q)"
  shows "(\<forall>s \<in> outstanding q. s < rt_next r \<longrightarrow> (\<exists>b. rt_pending r = Some b \<and> s \<in> set (batch_sequences b)))
     \<and> (\<forall>b. rt_pending r = Some b \<longrightarrow> bt_entries b \<noteq> [] \<and> sorted_wrt (<) (batch_sequences b)
          \<and> (\<forall>s \<in> set (batch_sequences b). s < rt_next r)) \<and> rt_next r \<le> q_next q"
  using delivery_steps_inv [OF assms(3) new_delivery_inv [OF assms(1,2)]]
  by (auto simp: delivery_inv_def route_inv_def owed_def split: option.splits)

theorem no_record_is_passed_over_witness:
  "(1 :: u64) \<in> outstanding read_queue \<and> 1 < rt_next sample_sent
   \<and> (\<exists>b. rt_pending sample_sent = Some b \<and> 1 \<in> set (batch_sequences b))"
proof -
  have "1 \<in> outstanding read_queue" "1 < rt_next sample_sent"
    by (simp_all add: outstanding_def read_queue_def sample_sent_fields empty_ledger_def settled_set_def spans_set_def)
  then show ?thesis using no_record_is_passed_over [OF sample_wf(2,3) sample_run] by blast
qed







section \<open>What the network module sees\<close>





text \<open>C31. What a restart makes of the state a round wrote down. Where it is within the bounds the reading
  checks, the module starts again with every namespace, listener and flow it held, with no
  connection counted. The rounds do not keep to those bounds: a flow held before is held on
  whatever room is left, so more flows can be held than the reading takes, and a listener of more
  than sixteen accounts or a state of more than 256 namespaces is written as well. Such a state is
  refused as damaged, and the restart starts from nothing.\<close>

theorem restart_reads_network_state:
  assumes "wf_held (co_held c)" "\<forall>s. co_held c = Some s \<longrightarrow> st_spaces s \<noteq> []" "re_Namespaces reading \<noteq> []"
    and "\<forall>b. co_written c = Some b \<longrightarrow> disk = Some (b @ [10])"
    and "watch_round tx cd maxFlows starts (Reads reading) t moments saves c disk = (Goes_on_watching, out, c', disk')"
    and "co_held c' = Some held" "addresses_ok cd" "document_ok cd (stored_of cd held)"
  shows "\<exists>content. disk' = Some content
     \<and> (state_fits cd most held \<longrightarrow>
          map_option co_held (begin_collector cd most True (Loads content) c0) = Some (Some (remembered_state held)))
     \<and> (most < int (flows_held (st_spaces held)) \<or> maxNamespaces < length (st_spaces held)
            \<or> (\<exists>s \<in> set (st_spaces held). \<exists>(p, l) \<in> set (sc_listeners s). maxHolders < length (li_accounts l)) \<longrightarrow>
          map_option co_held (begin_collector cd most True (Loads content) c0) = Some None)"
proof -
  have w: "wf_held (Some held)" "st_spaces held \<noteq> []"
    using round_wf [OF assms(1-3,5)] assms(6) by (auto simp: wf_held_def held_spaces_def)
  note found = restart_finds [OF w(1) assms(8)]
  show ?thesis
    by (intro exI [of _ "encode_state cd held @ [10]"] conjI impI round_writes [OF assms(5,6,4)] found(1) [OF assms(7)] found(2) [OF w(2)])
      assumption+
qed

theorem restart_reads_network_state_witness:
  "\<exists>c' out content. sample_round = (Goes_on_watching, out, c', Some content)
     \<and> map_option co_held (begin_collector sample_codec 2 True (Loads content) new_collector) = Some (Some (remembered_state (fst sample_pair)))
     \<and> map_option co_held (begin_collector sample_codec 1 True (Loads content) new_collector) = Some None"
proof -
  obtain out c' content where r: "sample_round = (Goes_on_watching, out, c', Some content)" "co_held c' = Some (fst sample_pair)"
    using sample_round_runs by blast
  have n: "re_Namespaces sample_later \<noteq> []" by (simp add: sample_later_def sample_reading_def)
  have w: "\<forall>b. co_written sample_collector = Some b \<longrightarrow> None = Some (b @ [10])" by (simp add: sample_collector_def new_collector_def)
  note restart = restart_reads_network_state [OF sample_seen_wf n w r(1) [unfolded sample_round_def] r(2) sample_addresses sample_document]
  show ?thesis using restart [of 2 new_collector] restart [of 1 new_collector] sample_fits sample_second(2) r(1) by auto
qed

section \<open>The collection of modules\<close>

text \<open>C32. However the modules of a collection are applied, fail and are restarted, a module has at
  most one goroutine, the one its channel was made for: a module that reports itself running has one,
  one that reports itself failed or whose channel is gone has none, and the channel a goroutine closes
  as it ends is its own and was not closed before.\<close>

theorem one_collector_per_module:
  assumes "New_collection logger p ms = Inr c" "col_runs c tr c'"
  shows "(\<forall>g r h s. col_live c' g = Some r \<and> col_live c' h = Some s \<and> go_module r = go_module s \<longrightarrow> g = h)
     \<and> (\<forall>n m. col_modules c' n = Some m \<longrightarrow>
          (hm_state m = Mod_Running \<longrightarrow> (\<exists>g r. col_live c' g = Some r \<and> go_module r = n))
          \<and> (hm_state m = Mod_Failed \<or> hm_done m = None \<longrightarrow> (\<forall>g r. col_live c' g = Some r \<longrightarrow> go_module r \<noteq> n)))
     \<and> (\<forall>g c''. col_move g Finish c' = Some c'' \<longrightarrow>
          col_closed c'' = g # col_closed c' \<and> g \<notin> set (col_closed c'))"
proof -
  have wf: "wf_collection c'" using wf_New(1) [OF assms(1)] wf_col_runs [OF assms(2)] by blast
  have done_of: "\<exists>m. col_modules c' (go_module r) = Some m \<and> hm_done m = Some g \<and> \<not> hm_spent m"
    if "col_live c' g = Some r" for g r using wf_live [OF wf that] by metis
  have "hm_state m = Mod_Running \<longrightarrow> (\<exists>g r. col_live c' g = Some r \<and> go_module r = n)"
    if "col_modules c' n = Some m" for n m
    using wf_module [OF wf that] by (auto simp: module_ok_def hm_state_def split: option.splits if_splits)
  moreover have "g \<notin> set (col_closed c')" if "col_live c' g = Some r" for g r
    using wf that by (auto simp: wf_collection_def)
  moreover have "col_closed c'' = g # col_closed c' \<and> (\<exists>r. col_live c' g = Some r)"
    if "col_move g Finish c' = Some c''" for g c''
    using that done_of [of g] by (auto simp: col_move_def col_released_def split: option.splits point.splits)
  moreover have "go_module r \<noteq> n"
    if "col_modules c' n = Some m" "hm_state m = Mod_Failed \<or> hm_done m = None" "col_live c' g = Some r" for n m g r
    using done_of [OF that(3)] that(1,2) by (auto simp: hm_state_def split: if_splits)
  moreover have "g = h" if "col_live c' g = Some r" "col_live c' h = Some s" "go_module r = go_module s" for g h r s
    using done_of [OF that(1)] done_of [OF that(2)] that(3) by auto
  ultimately show ?thesis by blast
qed

theorem one_collector_per_module_witness:
  "\<exists>c m. col_runs composed_collection [Ran ''auth'' 7] c \<and> col_modules c ''auth'' = Some m
     \<and> hm_state m = Mod_Failed \<and> (\<forall>g r. col_live c g \<noteq> Some r \<or> go_module r \<noteq> ''auth'')"
  using one_collector_per_module [OF sample_new_collection] sample_spent by meson



text \<open>C34. A module that is disabled and asked for again before its goroutine has returned is not
  collected any more: when the goroutine returns nothing starts another, the module reports itself
  degraded, and applying any set that names it leaves it as it is.\<close>

theorem asked_again_while_leaving:
  assumes "wf_collection c" "col_modules c n = Some m" "\<not> hm_desired m" "hm_done m = Some g"
    and "col_live c g = Some r" "go_point r = Collecting started" "go_cancelled r"
    and "col_Apply enabled clock c = (Inr ws, c1)" "n \<in> set enabled"
  shows "\<exists>c2 m2. col_moves g [Return err t, Leave t, Finish] c1 = Some c2
     \<and> col_modules c2 n = Some m2 \<and> hm_state m2 = Mod_Degraded \<and> hm_done m2 = None
     \<and> (\<forall>enabled' clock' ws' c3. n \<in> set enabled' \<and> col_Apply enabled' clock' c2 = (Inr ws', c3)
          \<longrightarrow> col_modules c3 n = Some m2)"
  using assms by (rule asked_again_stranded)

theorem asked_again_while_leaving_witness:
  "\<exists>c2 m2. col_moves 0 [Return None 5, Leave 5, Finish] again_collection = Some c2
     \<and> col_modules c2 ''auth'' = Some m2 \<and> hm_state m2 = Mod_Degraded \<and> hm_done m2 = None"
proof -
  obtain ws where a: "col_Apply [''auth''] (\<lambda>_. 4) leaving_collection = (Inr ws, again_collection)"
    using sample_leaving(4) by blast
  obtain m where m: "col_modules leaving_collection ''auth'' = Some m" "\<not> hm_desired m" "hm_done m = Some 0"
    using sample_leaving(3) by blast
  have in_set: "''auth'' \<in> set [''auth'']" by simp
  show ?thesis
    using asked_again_while_leaving [OF sample_leaving(1) m sample_leaving(2) _ _ a in_set, of 2 None 5] by auto
qed

section \<open>What the authentication module reads\<close>

text \<open>C20. Whatever a client chose as the user of a connection, the line sshd writes of it says what
  sshd wrote: the outcome and the method are read as they are, and where the user and the place of the
  connection are read at all they are those sshd wrote, never ones the client put into the line. They
  are read exactly when nothing else in the line fits the form of a place.\<close>

theorem client_cannot_forge_its_place:
  assumes "method_ok meth kind" "printable (sshd_line accepted meth invalid user w)"
    and "length (sshd_line accepted meth invalid user w) \<le> maxMessage"
    and "invalid \<longrightarrow> \<not> accepted" "\<not> invalid \<longrightarrow> take 13 (user @ '' from '' @ w) \<noteq> ''invalid user ''"
    and "w = place_text address digits said" "address \<noteq> []" "CHR '' '' \<notin> set address"
    and "digits_ok digits" "said_ok kind said"
  shows "\<exists>found. parse_attempt pa (sshd_line accepted meth invalid user w) = Some found
     \<and> at_accepted found = accepted \<and> at_method found = meth \<and> at_invalid found = invalid
     \<and> (at_placed found \<longrightarrow> at_user found = take maxUser user
          \<and> at_address found = (if length address \<le> maxAddress then pa address else None)
          \<and> at_port found = of_nat (digits_value digits))
     \<and> (at_placed found \<longleftrightarrow> (\<forall>i. i \<noteq> length user \<longrightarrow> place_at pa (user @ '' from '' @ w) kind i = None))
     \<and> (\<not> at_placed found \<longrightarrow> at_user found = [] \<and> at_address found = None)"
  using assms by (rule parse_place)

theorem client_cannot_forge_its_place_witness:
  "\<exists>found. parse_attempt Some (sshd_line False ''password'' True forged_user sample_place) = Some found
     \<and> \<not> at_accepted found \<and> (at_address found = None \<or> at_address found = Some ''10.0.0.1'')"
  using client_cannot_forge_its_place [OF sample_line_ok(1-3) _ _ sample_place_def, of Some] sample_line_ok(4,5)
  by (auto simp: maxAddress_def)



section \<open>What the host has\<close>





text \<open>C39. A snapshot that the spool took and that was not written down is forgotten when the collector
  starts again: once the host went back to what it held before, the next round that is done admits
  nothing, so the snapshot the spool took last still says what the host does not hold any more.\<close>

theorem unwritten_snapshot_hides_a_return:
  assumes "lk_kind l1 = lk_kind l2" "iv_held a (KindName (lk_kind l2)) = Some e"
    and "take_look lb installation l1 = Inr s1" "lk_charged l1" "sn_Digest s1 \<noteq> be_Digest e"
      "be_CollectedAt e - lk_at l1 \<le> MaxClockSkew" "to_millis (be_CollectedAt e) < to_millis (lk_at l1)"
    and "take_look lb installation l2 = Inr s2" "lk_charged l2" "sn_Digest s2 = be_Digest e"
      "be_CollectedAt e - lk_at l2 \<le> MaxClockSkew" "lk_at l2 < be_CollectedAt e + (refresh_after - every div 2)"
    and "inv_take lb installation every [l1] [Takes] saving t a = (res, a1)" "saving \<noteq> Went"
    and "inv_begin cd md True (File_holds bytes) a1 = Some a2" "decode_baseline cd md bytes = Inr (iv_held a)"
  shows "\<exists>a3. inv_take lb installation every [l2] tries saving' t' a2 = (Round_done, a3)
     \<and> latest (lk_kind l2) (iv_admitted a3) = Some s1 \<and> sn_Digest s1 \<noteq> sn_Digest s2"
  using assms by (rule unwritten_hides_return)

theorem unwritten_snapshot_hides_a_return_witness:
  "\<exists>a2 a3. inv_take sample_inv_libs [] Hour [sample_look 3000000000 []] [] Went 3 a2 = (Round_done, a3)
     \<and> latest SERVICE (iv_admitted a3) = Some (sample_snapshot 2000000000 [sample_service])
     \<and> sn_Digest (sample_snapshot 2000000000 [sample_service]) \<noteq> sn_Digest (sample_snapshot 3000000000 [])"
proof -
  let ?l1 = "sample_look 2000000000 [sample_service]" and ?l2 = "sample_look 3000000000 []"
  have k: "lk_kind ?l1 = lk_kind ?l2" "lk_charged ?l1" "lk_charged ?l2" "lk_at ?l1 = 2000000000" "lk_at ?l2 = 3000000000"
    "lk_kind ?l2 = SERVICE" by (simp_all add: sample_look_def)
  have h: "iv_held told_state (KindName (lk_kind ?l2)) = Some (entry_of (sample_snapshot 1000000000 [], 1000000000))"
    by (simp add: sample_held k KindName_def)
  have d: "sn_Digest (sample_snapshot 2000000000 [sample_service]) \<noteq> be_Digest (entry_of (sample_snapshot 1000000000 [], 1000000000))"
    "sn_Digest (sample_snapshot 3000000000 []) = be_Digest (entry_of (sample_snapshot 1000000000 [], 1000000000))"
    "be_CollectedAt (entry_of (sample_snapshot 1000000000 [], 1000000000)) = 1000000000"
    using sample_digests by (simp_all add: entry_of_def sample_snapshot_def Let_def)
  obtain res a1 where r: "inv_take sample_inv_libs [] Hour [?l1] [Takes] Stopped_at 2 told_state = (res, a1)" by fastforce
  obtain a2 where b: "inv_begin sample_base_codec ''inventory'' True (File_holds []) a1 = Some a2"
    by (simp add: inv_begin_def sample_decoded)
  show ?thesis
    using unwritten_snapshot_hides_a_return [OF k(1) h sample_take(2) k(2) d(1) _ _ sample_take(1) k(3) d(2) _ _ r _ b sample_decoded, of "[]" Went 3]
    unfolding d(3) k by (auto simp: MaxClockSkew_def refresh_after_def duration_defs to_millis_def)
qed

section \<open>What the integrity module reports\<close>








section \<open>The policy the agent runs on\<close>



end
